(* ===== verification/Prelude.thy ===== *)
theory Prelude
  imports Main "HOL-Library.Word"
begin

section \<open>Shared vocabulary of the development\<close>

text \<open>
  The result type of the kernel models, the C integer widths, and the generic lemmas on
  lists, functions and table scans that the component theories share.

  \<^item> \<open>('a, 's) res\<close> is the outcome of a kernel routine run from a state: it returns a value in
    a new state, it calls \<^verbatim>\<open>panic\<close> with a message, or it is left waiting (it called
    \<^verbatim>\<open>sleep\<close>, or it spins) in some state.
  \<^item> \<open>seqr\<close> is sequential composition of such outcomes: a panic or a wait of the first part is
    the outcome of the whole.
  \<^item> Table scans such as \<^verbatim>\<open>for(p = proc; p < &proc[NPROC]; p++)\<close> are folds or searches over
    an index list; the lemmas below give their closed forms.
\<close>

named_theorems res_simps \<open>evaluation of sequential composition\<close>

type_synonym u8 = "8 word"
type_synonym u16 = "16 word"
type_synonym u32 = "32 word"
type_synonym u64 = "64 word"

datatype ('a, 's) res = Ok 'a 's | Panic string | Wait 's

definition seqr :: "('a, 's) res \<Rightarrow> ('a \<Rightarrow> 's \<Rightarrow> ('b, 's) res) \<Rightarrow> ('b, 's) res" where
  "seqr r f = (case r of Ok a s \<Rightarrow> f a s | Panic m \<Rightarrow> Panic m | Wait s \<Rightarrow> Wait s)"

fun is_ok :: "('a, 's) res \<Rightarrow> bool" where
  "is_ok (Ok a s) = True"
| "is_ok (Panic m) = False"
| "is_ok (Wait s) = False"

fun is_panic :: "('a, 's) res \<Rightarrow> bool" where
  "is_panic (Panic m) = True"
| "is_panic (Ok a s) = False"
| "is_panic (Wait s) = False"

lemma seqr_Ok [simp, res_simps]: "seqr (Ok a s) f = f a s"
  by (simp add: seqr_def)

lemma seqr_Panic [simp, res_simps]: "seqr (Panic m) f = Panic m"
  by (simp add: seqr_def)

lemma seqr_Wait [simp, res_simps]: "seqr (Wait s) f = Wait s"
  by (simp add: seqr_def)

lemma seqr_assoc: "seqr (seqr r f) g = seqr r (\<lambda>a s. seqr (f a s) g)"
  by (cases r) simp_all

lemma seqr_eq_Ok: "seqr r f = Ok b t \<longleftrightarrow> (\<exists>a s. r = Ok a s \<and> f a s = Ok b t)"
  by (cases r) simp_all

lemma seqr_eq_Panic:
  "seqr r f = Panic m \<longleftrightarrow> r = Panic m \<or> (\<exists>a s. r = Ok a s \<and> f a s = Panic m)"
  by (cases r) auto

lemma seqr_OkE:
  assumes "seqr r f = Ok b t"
  obtains a s where "r = Ok a s" and "f a s = Ok b t"
  using assms by (auto simp: seqr_eq_Ok)

lemma is_ok_iff: "is_ok r \<longleftrightarrow> (\<exists>a s. r = Ok a s)"
  by (cases r) simp_all

subsection \<open>Table scans\<close>

text \<open>
  The first index of a table that satisfies a condition, as the C loops
  \<^verbatim>\<open>for(i = 0; i < N; i++) if(...) goto found;\<close> find it.
\<close>

fun scan_first :: "('i \<Rightarrow> bool) \<Rightarrow> 'i list \<Rightarrow> 'i option" where
  "scan_first P [] = None"
| "scan_first P (i # is) = (if P i then Some i else scan_first P is)"

lemma scan_first_None_iff: "scan_first P is = None \<longleftrightarrow> (\<forall>i \<in> set is. \<not> P i)"
  by (induction "is") auto

lemma scan_first_SomeD: "scan_first P is = Some i \<Longrightarrow> i \<in> set is \<and> P i"
  by (induction "is") (auto split: if_splits)

lemma scan_first_exists: "i \<in> set is \<Longrightarrow> P i \<Longrightarrow> \<exists>j. scan_first P is = Some j"
  by (induction "is") auto

lemma scan_first_append:
  "scan_first P (xs @ ys) = (case scan_first P xs of None \<Rightarrow> scan_first P ys | Some i \<Rightarrow> Some i)"
  by (induction xs) auto

lemma scan_first_upt_least:
  "scan_first P [a..<b] = Some i \<Longrightarrow> a \<le> j \<Longrightarrow> j < i \<Longrightarrow> \<not> P j"
proof (induction "b - a" arbitrary: a)
  case 0
  then show ?case by simp
next
  case (Suc n)
  from Suc.hyps(2) have ab: "a < b" by simp
  have eq: "scan_first P [a..<b] = (if P a then Some a else scan_first P [Suc a..<b])"
    using ab by (simp add: upt_conv_Cons)
  show ?case
  proof (cases "P a")
    case True
    with eq Suc.prems show ?thesis by simp
  next
    case False
    with eq Suc.prems have "scan_first P [Suc a..<b] = Some i" by simp
    with Suc.hyps(1) [of "Suc a"] Suc.hyps(2) Suc.prems False show ?thesis
      by (cases "j = a") auto
  qed
qed

text \<open>
  A loop that rewrites each entry of a table on its own, in index order, is the pointwise
  rewriting of the entries it visits.
\<close>

lemma fold_pointwise:
  assumes "distinct is"
  shows "fold (\<lambda>i t. t(i := f i (t i))) is t = (\<lambda>i. if i \<in> set is then f i (t i) else t i)"
  using assms
proof (induction "is" arbitrary: t)
  case Nil
  then show ?case by simp
next
  case (Cons i "is")
  then show ?case by (auto simp: fun_eq_iff)
qed

lemma fold_invariant_list:
  assumes "\<And>x s. x \<in> set xs \<Longrightarrow> P s \<Longrightarrow> P (f x s)" and "P s"
  shows "P (fold f xs s)"
  using assms by (induction xs arbitrary: s) auto

subsection \<open>Little-endian fields\<close>

text \<open>
  The numbers that the C code reads and writes in a byte buffer through a pointer to an integer or
  to a struct: \<open>k\<close> bytes at offset \<open>p\<close>, least significant first.
\<close>

definition get_le :: "nat \<Rightarrow> (nat \<Rightarrow> u8) \<Rightarrow> nat \<Rightarrow> nat" where
  "get_le k x p = (\<Sum>i<k. unat (x (p + i)) * 256 ^ i)"

definition put_le :: "nat \<Rightarrow> nat \<Rightarrow> nat \<Rightarrow> (nat \<Rightarrow> u8) \<Rightarrow> nat \<Rightarrow> u8" where
  "put_le k p v x = (\<lambda>q. if p \<le> q \<and> q < p + k then of_nat (v div 256 ^ (q - p)) else x q)"

lemma base_digits: "(\<Sum>i<k. (n div b ^ i mod b) * b ^ i) = (n :: nat) mod b ^ k"
proof (induction k)
  case (Suc k)
  have "n mod b ^ Suc k = b ^ k * (n div b ^ k mod b) + n mod b ^ k"
    by (simp add: mod_mult2_eq mult.commute [of b])
  with Suc show ?case by simp
qed simp

lemma get_put_le [simp]: "get_le k (put_le k p v x) p = v mod 256 ^ k"
proof -
  have "unat (of_nat (v div 256 ^ i) :: u8) = v div 256 ^ i mod 256" for i
    by (simp add: unat_of_nat)
  then have "get_le k (put_le k p v x) p = (\<Sum>i<k. (v div 256 ^ i mod 256) * 256 ^ i)"
    unfolding get_le_def by (intro sum.cong) (simp_all add: put_le_def)
  then show ?thesis by (simp add: base_digits)
qed

lemma get_put_le_other: "p + k \<le> q \<or> q + j \<le> p \<Longrightarrow> get_le j (put_le k p v x) q = get_le j x q"
  unfolding get_le_def by (intro sum.cong) (auto simp: put_le_def)

lemma get_le_less: "get_le k x p < 256 ^ k"
proof (induction k)
  case (Suc k)
  have "unat (x (p + k)) * 256 ^ k \<le> 255 * 256 ^ k"
    using unsigned_less [of "x (p + k)", where ?'a = nat] by simp
  with Suc show ?case unfolding get_le_def sum.lessThan_Suc power_Suc by linarith
qed (simp add: get_le_def)

text \<open>An array of such fields, written in index order.\<close>

lemma get_put_array_other:
  "q + j \<le> p \<or> p + w * m \<le> q \<Longrightarrow>
     get_le j (fold (\<lambda>k x. put_le w (p + w * k) (f k) x) [0..<m] x) q = get_le j x q"
proof (induction m)
  case (Suc m)
  then show ?case by (auto simp: get_put_le_other)
qed simp

lemma get_put_array:
  assumes "0 < w"
  shows "get_le w (fold (\<lambda>k x. put_le w (p + w * k) (f k) x) [0..<m] x) (p + w * j) =
         (if j < m then f j mod 256 ^ w else get_le w x (p + w * j))"
proof (induction m)
  case (Suc m)
  consider "j < m" | "j = m" | "m < j" by linarith
  then show ?case
  proof cases
    case 1
    then have "p + w * j + w \<le> p + w * m" by (metis Suc_leI add_le_cancel_left mult_Suc_right mult_le_mono2 add.assoc add.commute)
    then show ?thesis using 1 Suc by (simp add: get_put_le_other)
  next
    case 3
    then have "p + w * m + w \<le> p + w * j" by (metis Suc_leI add_le_cancel_left mult_Suc_right mult_le_mono2 add.assoc add.commute)
    then show ?thesis using 3 Suc by (simp add: get_put_le_other)
  qed simp
qed simp

end
