(* ===== verification/Spinlock.thy ===== *)
theory Spinlock
  imports Prelude
begin

section \<open>Spin locks and interrupt nesting (kernel/spinlock.c)\<close>

text \<open>
  The per-hart nesting counter of \<^verbatim>\<open>push_off\<close>/\<^verbatim>\<open>pop_off\<close>, the lock operations as whole
  routines, and the same routines cut at their atomic points (the swap, the store of
  \<^verbatim>\<open>lk->cpu\<close>, the store that frees the lock) as a step relation of several harts. \<open>sie\<close> is the
  interrupt-enable bit that \<^verbatim>\<open>intr_get\<close>, \<^verbatim>\<open>intr_on\<close> and \<^verbatim>\<open>intr_off\<close> read and write. The
  null pointer of \<^verbatim>\<open>lk->cpu\<close> is \<open>None\<close>. \<open>held\<close> is history: the locks for which
  \<^verbatim>\<open>acquire\<close> has returned and \<^verbatim>\<open>release\<close> has not yet freed the lock word.
\<close>

record cpu =
  noff :: int
  intena :: bool
  sie :: bool

record spinlock =
  lname :: string
  locked :: bool
  lcpu :: "nat option"

record smp =
  cpus :: "nat \<Rightarrow> cpu"
  locks :: "nat \<Rightarrow> spinlock"

definition initlock :: "string \<Rightarrow> spinlock \<Rightarrow> spinlock" where
  "initlock nm lk = lk\<lparr>lname := nm, locked := False, lcpu := None\<rparr>"

definition push_off :: "cpu \<Rightarrow> cpu" where
  "push_off c =
     (let old = sie c;
          c1 = c\<lparr>sie := False\<rparr>;
          c2 = (if noff c1 = 0 then c1\<lparr>intena := old\<rparr> else c1)
      in c2\<lparr>noff := noff c2 + 1\<rparr>)"

definition pop_off :: "cpu \<Rightarrow> (unit, cpu) res" where
  "pop_off c =
     (if sie c then Panic ''pop_off - interruptible''
      else if noff c < 1 then Panic ''pop_off''
      else let c1 = c\<lparr>noff := noff c - 1\<rparr>
           in Ok () (if noff c1 = 0 \<and> intena c1 then c1\<lparr>sie := True\<rparr> else c1))"

definition holding :: "nat \<Rightarrow> spinlock \<Rightarrow> bool" where
  "holding h lk \<longleftrightarrow> locked lk \<and> lcpu lk = Some h"

definition on_cpu :: "nat \<Rightarrow> (cpu \<Rightarrow> cpu) \<Rightarrow> smp \<Rightarrow> smp" where
  "on_cpu h f m = m\<lparr>cpus := (cpus m)(h := f (cpus m h))\<rparr>"

definition on_lock :: "nat \<Rightarrow> (spinlock \<Rightarrow> spinlock) \<Rightarrow> smp \<Rightarrow> smp" where
  "on_lock l f m = m\<lparr>locks := (locks m)(l := f (locks m l))\<rparr>"

definition pop_off_on :: "nat \<Rightarrow> smp \<Rightarrow> (unit, smp) res" where
  "pop_off_on h m =
     (case pop_off (cpus m h) of
        Ok _ c \<Rightarrow> Ok () (on_cpu h (\<lambda>_. c) m)
      | Panic msg \<Rightarrow> Panic msg
      | Wait c \<Rightarrow> Wait (on_cpu h (\<lambda>_. c) m))"

text \<open>\<open>Wait\<close> is the spinning on a lock that another hart holds.\<close>

definition acquire :: "nat \<Rightarrow> nat \<Rightarrow> smp \<Rightarrow> (unit, smp) res" where
  "acquire h l m =
     (let m1 = on_cpu h push_off m
      in if holding h (locks m1 l) then Panic ''acquire''
         else if locked (locks m1 l) then Wait m1
         else Ok () (on_lock l (\<lambda>lk. lk\<lparr>lcpu := Some h\<rparr>)
                      (on_lock l (\<lambda>lk. lk\<lparr>locked := True\<rparr>) m1)))"

definition release :: "nat \<Rightarrow> nat \<Rightarrow> smp \<Rightarrow> (unit, smp) res" where
  "release h l m =
     (if \<not> holding h (locks m l) then Panic ''release''
      else pop_off_on h
             (on_lock l (\<lambda>lk. lk\<lparr>locked := False\<rparr>)
               (on_lock l (\<lambda>lk. lk\<lparr>lcpu := None\<rparr>) m)))"

subsection \<open>Several harts, cut at the atomic points\<close>

datatype lpc = Running | Spinning nat | Swapped nat | Cleared nat | Unlocked

record lsys =
  mach :: smp
  pc :: "nat \<Rightarrow> lpc"
  held :: "nat \<Rightarrow> nat set"

inductive lock_step :: "lsys \<Rightarrow> lsys \<Rightarrow> bool" where
  acq_enter: "pc s h = Running \<Longrightarrow> \<not> holding h (locks (mach s) l) \<Longrightarrow>
     lock_step s (s\<lparr>mach := on_cpu h push_off (mach s), pc := (pc s)(h := Spinning l)\<rparr>)"
| acq_swap: "pc s h = Spinning l \<Longrightarrow> \<not> locked (locks (mach s) l) \<Longrightarrow>
     lock_step s (s\<lparr>mach := on_lock l (\<lambda>lk. lk\<lparr>locked := True\<rparr>) (mach s),
                    pc := (pc s)(h := Swapped l)\<rparr>)"
| acq_record: "pc s h = Swapped l \<Longrightarrow>
     lock_step s (s\<lparr>mach := on_lock l (\<lambda>lk. lk\<lparr>lcpu := Some h\<rparr>) (mach s),
                    pc := (pc s)(h := Running),
                    held := (held s)(h := insert l (held s h))\<rparr>)"
| rel_clear: "pc s h = Running \<Longrightarrow> holding h (locks (mach s) l) \<Longrightarrow>
     lock_step s (s\<lparr>mach := on_lock l (\<lambda>lk. lk\<lparr>lcpu := None\<rparr>) (mach s),
                    pc := (pc s)(h := Cleared l)\<rparr>)"
| rel_unlock: "pc s h = Cleared l \<Longrightarrow>
     lock_step s (s\<lparr>mach := on_lock l (\<lambda>lk. lk\<lparr>locked := False\<rparr>) (mach s),
                    pc := (pc s)(h := Unlocked),
                    held := (held s)(h := held s h - {l})\<rparr>)"
| rel_pop: "pc s h = Unlocked \<Longrightarrow> pop_off_on h (mach s) = Ok () m \<Longrightarrow>
     lock_step s (s\<lparr>mach := m, pc := (pc s)(h := Running)\<rparr>)"
| intr_set: "pc s h = Running \<Longrightarrow> noff (cpus (mach s) h) = 0 \<Longrightarrow>
     lock_step s (s\<lparr>mach := on_cpu h (\<lambda>c. c\<lparr>sie := b\<rparr>) (mach s)\<rparr>)"

definition lock_start :: "lsys \<Rightarrow> bool" where
  "lock_start s \<longleftrightarrow>
     (\<forall>h. pc s h = Running \<and> held s h = {} \<and> noff (cpus (mach s) h) = 0) \<and>
     (\<forall>l. \<not> locked (locks (mach s) l) \<and> lcpu (locks (mach s) l) = None)"

inductive lock_reach :: "lsys \<Rightarrow> lsys \<Rightarrow> bool" where
  lr_start: "lock_reach s s"
| lr_step: "lock_reach s t \<Longrightarrow> lock_step t u \<Longrightarrow> lock_reach s u"

fun busy :: "lpc \<Rightarrow> int" where
  "busy Running = 0"
| "busy (Spinning l) = 1"
| "busy (Swapped l) = 1"
| "busy (Cleared l) = 0"
| "busy Unlocked = 1"

definition owns :: "lsys \<Rightarrow> nat \<Rightarrow> nat \<Rightarrow> bool" where
  "owns s h l \<longleftrightarrow> l \<in> held s h \<or> pc s h = Swapped l"

definition nest_inv :: "lsys \<Rightarrow> bool" where
  "nest_inv s \<longleftrightarrow>
     (\<forall>h. finite (held s h) \<and>
          noff (cpus (mach s) h) = int (card (held s h)) + busy (pc s h) \<and>
          (0 < noff (cpus (mach s) h) \<longrightarrow> \<not> sie (cpus (mach s) h)))"

definition owner_inv :: "lsys \<Rightarrow> bool" where
  "owner_inv s \<longleftrightarrow>
     (\<forall>l h h'. owns s h l \<longrightarrow> owns s h' l \<longrightarrow> h = h') \<and>
     (\<forall>l. locked (locks (mach s) l) \<longleftrightarrow> (\<exists>h. owns s h l)) \<and>
     (\<forall>l h. lcpu (locks (mach s) l) = Some h \<longleftrightarrow> l \<in> held s h \<and> pc s h \<noteq> Cleared l) \<and>
     (\<forall>l h. pc s h = Cleared l \<longrightarrow> l \<in> held s h) \<and>
     (\<forall>l h. pc s h = Swapped l \<longrightarrow> l \<notin> held s h)"

lemmas lock_defs = on_cpu_def on_lock_def holding_def

lemma push_off_simps [simp]:
  "noff (push_off c) = noff c + 1"
  "sie (push_off c) = False"
  "intena (push_off c) = (if noff c = 0 then sie c else intena c)"
  by (simp_all add: push_off_def Let_def)

lemma pop_off_push_off:
  assumes "0 \<le> noff c"
  shows "pop_off (push_off c) =
           Ok () (c\<lparr>intena := (if noff c = 0 then sie c else intena c),
                    sie := (noff c = 0 \<and> sie c)\<rparr>)"
  using assms by (auto simp: pop_off_def push_off_def Let_def)

lemma lock_start_inv: "lock_start s \<Longrightarrow> nest_inv s \<and> owner_inv s"
  by (simp add: lock_start_def nest_inv_def owner_inv_def owns_def)

lemma nest_inv_step: "lock_step s t \<Longrightarrow> nest_inv s \<Longrightarrow> owner_inv s \<Longrightarrow> nest_inv t"
proof (induction rule: lock_step.induct)
  case (acq_record s h l)
  then have "l \<notin> held s h" by (auto simp: owner_inv_def)
  with acq_record show ?case by (auto simp: nest_inv_def lock_defs)
next
  case (rel_unlock s h l)
  then have l: "l \<in> held s h" by (auto simp: owner_inv_def)
  from rel_unlock have fin: "finite (held s h)" by (auto simp: nest_inv_def)
  have "int (card (held s h - {l})) = int (card (held s h)) - 1"
    using card.remove [OF fin l] by simp
  with rel_unlock show ?case by (auto simp: nest_inv_def lock_defs)
next
  case (rel_pop s h m)
  then show ?case
    by (auto simp: nest_inv_def lock_defs pop_off_on_def pop_off_def Let_def split: if_splits)
qed (auto simp: nest_inv_def lock_defs)

text \<open>
  Ownership facts of one state, as rules: who owns a lock is the only owner, and \<^verbatim>\<open>lk->cpu\<close> and
  the program counters agree with it.
\<close>

lemma owner_invD:
  assumes "owner_inv s"
  shows "owns s h l \<Longrightarrow> owns s h' l \<Longrightarrow> h = h'"
    and "locked (locks (mach s) l) \<longleftrightarrow> (\<exists>h. owns s h l)"
    and "lcpu (locks (mach s) l) = Some h \<longleftrightarrow> l \<in> held s h \<and> pc s h \<noteq> Cleared l"
    and "pc s h = Cleared l \<Longrightarrow> l \<in> held s h"
    and "pc s h = Swapped l \<Longrightarrow> l \<notin> held s h"
  using assms unfolding owner_inv_def by blast+

lemma owner_invI:
  assumes "\<And>l h h'. owns s h l \<Longrightarrow> owns s h' l \<Longrightarrow> h = h'"
    and "\<And>l. locked (locks (mach s) l) \<longleftrightarrow> (\<exists>h. owns s h l)"
    and "\<And>l h. lcpu (locks (mach s) l) = Some h \<longleftrightarrow> l \<in> held s h \<and> pc s h \<noteq> Cleared l"
    and "\<And>l h. pc s h = Cleared l \<Longrightarrow> l \<in> held s h"
    and "\<And>l h. pc s h = Swapped l \<Longrightarrow> l \<notin> held s h"
  shows "owner_inv s"
  using assms unfolding owner_inv_def by blast

text \<open>A step that leaves ownership and the lock words as they are keeps the invariant.\<close>

lemma owner_inv_frame:
  assumes "owner_inv s" and "held t = held s" and "locks (mach t) = locks (mach s)"
    and "pc t = (pc s)(h := p)"
    and "\<And>l. p \<noteq> Swapped l \<and> pc s h \<noteq> Swapped l \<and> p \<noteq> Cleared l \<and> pc s h \<noteq> Cleared l"
  shows "owner_inv t"
proof -
  have own: "owns t h' l = owns s h' l" for h' l
    using assms(2,4,5) by (auto simp: owns_def)
  have cl: "(pc t h' = Cleared l) = (pc s h' = Cleared l)" for h' l
    using assms(4,5) by auto
  have sw: "(pc t h' = Swapped l) = (pc s h' = Swapped l)" for h' l
    using assms(4,5) by auto
  show ?thesis
    using assms(2,3)
    by (intro owner_invI)
      (auto simp: own cl sw owner_invD(2,3) [OF assms(1)] dest: owner_invD(1,4,5) [OF assms(1)])
qed

lemma owner_inv_step: "lock_step s t \<Longrightarrow> owner_inv s \<Longrightarrow> owner_inv t"
proof (induction rule: lock_step.induct)
  case (acq_enter s h l)
  show ?case
    by (rule owner_inv_frame [of s _ h "Spinning l"]) (use acq_enter in \<open>auto simp: lock_defs\<close>)
next
  case (acq_swap s h l)
  note D = owner_invD [OF acq_swap.prems]
  let ?t = "s\<lparr>mach := on_lock l (\<lambda>lk. lk\<lparr>locked := True\<rparr>) (mach s), pc := (pc s)(h := Swapped l)\<rparr>"
  from acq_swap D(2) have free: "\<not> owns s h' l" for h' by auto
  have own: "owns ?t h' l' = (if l' = l then h' = h else owns s h' l')" for h' l'
    using free [of h'] acq_swap.hyps(1) by (auto simp: owns_def)
  show ?case
    using acq_swap.hyps(1) free [of h, unfolded owns_def]
    by (intro owner_invI)
      (auto simp: own [unfolded lock_defs] free lock_defs D(2,3) dest: D(1) D(4) D(5) split: if_splits)
next
  case (acq_record s h l)
  note D = owner_invD [OF acq_record.prems]
  let ?t = "s\<lparr>mach := on_lock l (\<lambda>lk. lk\<lparr>lcpu := Some h\<rparr>) (mach s), pc := (pc s)(h := Running),
      held := (held s)(h := insert l (held s h))\<rparr>"
  from acq_record.hyps have o: "owns s h l" by (simp add: owns_def)
  have own: "owns ?t h' l' = owns s h' l'" for h' l'
    using acq_record.hyps by (auto simp: owns_def)
  have others: "h' \<noteq> h \<Longrightarrow> l \<notin> held s h'" for h'
    using D(1) [OF o, of h'] by (auto simp: owns_def)
  show ?case
    using acq_record.hyps o
    by (intro owner_invI)
      (auto simp: own [unfolded lock_defs] others lock_defs D(2,3) dest: D(1) D(4) D(5) split: if_splits)
next
  case (rel_clear s h l)
  note D = owner_invD [OF rel_clear.prems]
  let ?t = "s\<lparr>mach := on_lock l (\<lambda>lk. lk\<lparr>lcpu := None\<rparr>) (mach s), pc := (pc s)(h := Cleared l)\<rparr>"
  from rel_clear D(3) have l: "l \<in> held s h" by (simp add: holding_def)
  have own: "owns ?t h' l' = owns s h' l'" for h' l'
    using rel_clear.hyps by (auto simp: owns_def)
  have others: "h' \<noteq> h \<Longrightarrow> l \<notin> held s h'" for h'
    using D(1) [of h l h'] l by (auto simp: owns_def)
  show ?case
    using l rel_clear.hyps(1)
    by (intro owner_invI)
      (auto simp: own [unfolded lock_defs] others lock_defs D(2,3) dest: D(1) D(4) D(5) split: if_splits)
next
  case (rel_unlock s h l)
  note D = owner_invD [OF rel_unlock.prems]
  let ?t = "s\<lparr>mach := on_lock l (\<lambda>lk. lk\<lparr>locked := False\<rparr>) (mach s), pc := (pc s)(h := Unlocked),
      held := (held s)(h := held s h - {l})\<rparr>"
  from rel_unlock.hyps D(4) have l: "l \<in> held s h" by simp
  have others: "h' \<noteq> h \<Longrightarrow> \<not> owns s h' l" for h'
    using D(1) [of h l h'] l by (auto simp: owns_def)
  have own: "owns ?t h' l' = (if l' = l then False else owns s h' l')" for h' l'
    using others [of h'] rel_unlock.hyps by (auto simp: owns_def split: if_splits)
  show ?case
    using l rel_unlock.hyps
    by (intro owner_invI)
      (auto simp: own [unfolded lock_defs] others lock_defs D(2,3) dest: D(1) D(4) D(5) split: if_splits)
next
  case (rel_pop s h m)
  then have m: "locks m = locks (mach s)"
    by (auto simp: pop_off_on_def lock_defs split: res.splits)
  show ?case by (rule owner_inv_frame [of s _ h Running]) (use rel_pop m in auto)
next
  case (intr_set s h b)
  show ?case
    by (rule owner_inv_frame [of s _ h Running]) (use intr_set in \<open>auto simp: lock_defs\<close>)
qed

lemma lock_reach_inv:
  "lock_reach s t \<Longrightarrow> lock_start s \<Longrightarrow> nest_inv t \<and> owner_inv t"
  by (induction rule: lock_reach.induct) (auto dest: lock_start_inv nest_inv_step owner_inv_step)

subsection \<open>What the lock gives its users\<close>

text \<open>C21. In every state that the harts reach by interleaving the steps of \<^verbatim>\<open>acquire\<close> and
  \<^verbatim>\<open>release\<close>, a hart that is past \<^verbatim>\<open>acquire\<close> of a lock is the only one past it, and it runs
  with interrupts disabled.\<close>

theorem spin_mutual_exclusion:
  assumes "lock_start s" and "lock_reach s t" and "l \<in> held t h"
  shows "\<not> sie (cpus (mach t) h) \<and> (\<forall>h'. l \<in> held t h' \<longrightarrow> h' = h)"
proof -
  from assms(1,2) have n: "nest_inv t" and o: "owner_inv t"
    by (auto dest: lock_reach_inv)
  from n have "finite (held t h)" by (simp add: nest_inv_def)
  with assms(3) have "0 < card (held t h)" by (auto simp: card_gt_0_iff)
  moreover have "0 \<le> busy (pc t h)" by (cases "pc t h") simp_all
  ultimately have "\<not> sie (cpus (mach t) h)"
    using n by (auto simp: nest_inv_def)
  moreover have "h' = h" if "l \<in> held t h'" for h'
    using owner_invD(1) [OF o, of h' l h] that assms(3) by (simp add: owns_def)
  ultimately show ?thesis by blast
qed

definition spin_demo0 :: lsys where
  "spin_demo0 = \<lparr>mach = \<lparr>cpus = (\<lambda>_. \<lparr>noff = 0, intena = False, sie = True\<rparr>),
                         locks = (\<lambda>_. \<lparr>lname = [], locked = False, lcpu = None\<rparr>)\<rparr>,
                 pc = (\<lambda>_. Running), held = (\<lambda>_. {})\<rparr>"

definition spin_demo1 :: lsys where
  "spin_demo1 = spin_demo0\<lparr>mach := on_lock 3 (\<lambda>lk. lk\<lparr>lcpu := Some 1\<rparr>)
      (on_lock 3 (\<lambda>lk. lk\<lparr>locked := True\<rparr>) (on_cpu 1 push_off (mach spin_demo0))),
    held := (held spin_demo0)(1 := {3})\<rparr>"

lemma spin_demo_start: "lock_start spin_demo0"
  by (simp add: lock_start_def spin_demo0_def)

lemma spin_demo_reach: "lock_reach spin_demo0 spin_demo1"
proof -
  have r1: "lock_reach spin_demo0 (spin_demo0\<lparr>mach := on_cpu 1 push_off (mach spin_demo0),
      pc := (pc spin_demo0)(1 := Spinning 3)\<rparr>)" (is "lock_reach _ ?a")
    by (rule lr_step [OF lr_start], rule acq_enter) (simp_all add: spin_demo0_def holding_def)
  have r2: "lock_reach spin_demo0 (?a\<lparr>mach := on_lock 3 (\<lambda>lk. lk\<lparr>locked := True\<rparr>) (mach ?a),
      pc := (pc ?a)(1 := Swapped 3)\<rparr>)" (is "lock_reach _ ?b")
    by (rule lr_step [OF r1], rule acq_swap) (simp_all add: spin_demo0_def lock_defs)
  have r3: "lock_reach spin_demo0 (?b\<lparr>mach := on_lock 3 (\<lambda>lk. lk\<lparr>lcpu := Some 1\<rparr>) (mach ?b),
      pc := (pc ?b)(1 := Running), held := (held ?b)(1 := insert 3 (held ?b 1))\<rparr>)"
      (is "lock_reach _ ?c")
    by (rule lr_step [OF r2], rule acq_record) simp
  have "?c = spin_demo1"
    by (simp add: spin_demo1_def spin_demo0_def fun_eq_iff)
  with r3 show ?thesis by simp
qed

theorem spin_mutual_exclusion_witness:
  "lock_start spin_demo0 \<and> lock_reach spin_demo0 spin_demo1 \<and> 3 \<in> held spin_demo1 1 \<and>
   \<not> sie (cpus (mach spin_demo1) 1) \<and> 3 \<notin> held spin_demo1 2"
proof -
  have h: "3 \<in> held spin_demo1 1" by (simp add: spin_demo1_def)
  show ?thesis
    using spin_mutual_exclusion [OF spin_demo_start spin_demo_reach h] h
      spin_demo_start spin_demo_reach by force
qed

text \<open>A critical section leaves the machine as it found it: when \<^verbatim>\<open>acquire\<close> gets a free lock,
  the matching \<^verbatim>\<open>release\<close> cannot panic, frees the lock, restores the nesting depth and
  re-enables interrupts exactly when they were on before; a second \<^verbatim>\<open>acquire\<close> by the same hart
  panics and one by another hart spins.\<close>

theorem spin_critical_section:
  assumes "\<not> locked (locks m l)" and "0 \<le> noff (cpus m h)"
    and "sie (cpus m h) \<longrightarrow> noff (cpus m h) = 0"
  shows "\<exists>m1 m2. acquire h l m = Ok () m1 \<and> \<not> sie (cpus m1 h) \<and>
      acquire h l m1 = Panic ''acquire'' \<and>
      (\<forall>h'. h' \<noteq> h \<longrightarrow> acquire h' l m1 = Wait (on_cpu h' push_off m1)) \<and>
      release h l m1 = Ok () m2 \<and> \<not> locked (locks m2 l) \<and>
      noff (cpus m2 h) = noff (cpus m h) \<and> sie (cpus m2 h) = sie (cpus m h)"
  using assms
  by (auto simp: acquire_def release_def lock_defs pop_off_on_def pop_off_push_off Let_def)

theorem spin_critical_section_witness:
  "\<exists>m1 m2. acquire 1 3 (mach spin_demo0) = Ok () m1 \<and> \<not> sie (cpus m1 1) \<and>
      release 1 3 m1 = Ok () m2 \<and> sie (cpus m2 1)"
  using spin_critical_section [of "mach spin_demo0" 3 1] by (auto simp: spin_demo0_def)

end
