(* ===== verification/Sched.thy ===== *)
theory Sched
  imports Spinlock
begin

section \<open>Process table and scheduling (kernel/proc.c, proc.h)\<close>

text \<open>
  The process table, the current process of each hart and the routines of \<^verbatim>\<open>proc.c\<close> that move a
  process between states: \<^verbatim>\<open>scheduler\<close>, \<^verbatim>\<open>sched\<close>, \<^verbatim>\<open>yield\<close>, \<^verbatim>\<open>sleep\<close>, \<^verbatim>\<open>wakeup\<close>,
  \<^verbatim>\<open>kill\<close>, \<^verbatim>\<open>reparent\<close>. A body under \<^verbatim>\<open>p->lock\<close> is one atomic step (theory \<open>Spinlock\<close>
  shows what the lock gives). A channel is the address slept on; distinct kernel objects are
  distinct constructors. A process pointer is its index in \<^verbatim>\<open>proc[]\<close>.
\<close>

definition NPROC :: nat where "NPROC = 64"
definition NOFILE :: nat where "NOFILE = 16"
definition PGSIZE :: u64 where "PGSIZE = 4096"
definition MAXVA :: u64 where "MAXVA = push_bit (9 + 9 + 9 + 12 - 1) 1"
definition TRAMPOLINE :: u64 where "TRAMPOLINE = MAXVA - PGSIZE"
definition TRAPFRAME :: u64 where "TRAPFRAME = TRAMPOLINE - PGSIZE"
definition KSTACK :: "nat \<Rightarrow> u64" where
  "KSTACK p = TRAMPOLINE - (of_nat p + 1) * 2 * PGSIZE"

datatype procstate = UNUSED | USED | SLEEPING | RUNNABLE | RUNNING | ZOMBIE

datatype chan =
    NoChan
  | ProcChan nat
  | SemChan nat
  | TicksChan
  | PipeRChan u64
  | PipeWChan u64
  | ConsChan
  | UartChan
  | LogChan
  | SleepChan nat
  | BufChan nat
  | DiskChan

record proc =
  pstate :: procstate
  chan :: chan
  killed :: bool
  xstate :: int
  pid :: int
  parent :: "nat option"
  kstack :: u64
  sz :: u64
  pagetable :: u64
  trapframe :: u64
  ctx_ra :: u64
  ctx_sp :: u64
  ofile :: "nat \<Rightarrow> nat option"
  cwd :: "nat option"
  pname :: string

type_synonym ptable = "nat \<Rightarrow> proc"

record ksched =
  procs :: ptable
  cur :: "nat \<Rightarrow> nat option"
  nextpid :: int

definition procinit :: "ptable \<Rightarrow> ptable" where
  "procinit ps = fold (\<lambda>i ps. ps(i := (ps i)\<lparr>pstate := UNUSED, kstack := KSTACK i\<rparr>)) [0..<NPROC] ps"

definition allocpid :: "ksched \<Rightarrow> int \<times> ksched" where
  "allocpid s = (nextpid s, s\<lparr>nextpid := nextpid s + 1\<rparr>)"

definition wake_one :: "chan \<Rightarrow> proc \<Rightarrow> proc" where
  "wake_one ch p = (if pstate p = SLEEPING \<and> chan p = ch then p\<lparr>pstate := RUNNABLE\<rparr> else p)"

text \<open>\<open>me\<close> is \<^verbatim>\<open>myproc()\<close>: \<open>None\<close> in the scheduler or in an interrupt taken there.\<close>

definition wakeup :: "chan \<Rightarrow> nat option \<Rightarrow> ptable \<Rightarrow> ptable" where
  "wakeup ch me ps =
     fold (\<lambda>i ps. ps(i := (if Some i \<noteq> me then wake_one ch (ps i) else ps i))) [0..<NPROC] ps"

definition kill :: "int \<Rightarrow> ptable \<Rightarrow> int \<times> ptable" where
  "kill n ps =
     (case scan_first (\<lambda>i. pid (ps i) = n) [0..<NPROC] of
        None \<Rightarrow> (-1, ps)
      | Some i \<Rightarrow>
          (let p = (ps i)\<lparr>killed := True\<rparr>
           in (0, ps(i := (if pstate p = SLEEPING then p\<lparr>pstate := RUNNABLE\<rparr> else p)))))"

definition setkilled :: "nat \<Rightarrow> ptable \<Rightarrow> ptable" where
  "setkilled i ps = ps(i := (ps i)\<lparr>killed := True\<rparr>)"

definition reparent :: "nat \<Rightarrow> nat \<Rightarrow> nat option \<Rightarrow> ptable \<Rightarrow> ptable" where
  "reparent initproc p me ps =
     fold (\<lambda>i ps. if parent (ps i) = Some p
                  then wakeup (ProcChan initproc) me (ps(i := (ps i)\<lparr>parent := Some initproc\<rparr>))
                  else ps) [0..<NPROC] ps"

subsection \<open>Giving up the processor\<close>

text \<open>\<open>sched h lk st m\<close> is \<^verbatim>\<open>sched()\<close> on hart \<open>h\<close> for a process in state \<open>st\<close> whose lock
  is number \<open>lk\<close>: the four checks before \<^verbatim>\<open>swtch\<close>.\<close>

definition sched :: "nat \<Rightarrow> nat \<Rightarrow> procstate \<Rightarrow> smp \<Rightarrow> (unit, smp) res" where
  "sched h lk st m =
     (if \<not> holding h (locks m lk) then Panic ''sched p->lock''
      else if noff (cpus m h) \<noteq> 1 then Panic ''sched locks''
      else if st = RUNNING then Panic ''sched running''
      else if sie (cpus m h) then Panic ''sched interruptible''
      else Ok () m)"

definition yield :: "nat \<Rightarrow> ksched \<Rightarrow> (unit, ksched) res" where
  "yield h s =
     (case cur s h of
        None \<Rightarrow> Panic ''kerneltrap''
      | Some i \<Rightarrow> Wait (s\<lparr>procs := (procs s)(i := (procs s i)\<lparr>pstate := RUNNABLE\<rparr>),
                         cur := (cur s)(h := None)\<rparr>))"

text \<open>\<^verbatim>\<open>sleep\<close> up to the switch to the scheduler, and its tail after the process runs again.\<close>

definition sleep :: "chan \<Rightarrow> nat \<Rightarrow> ksched \<Rightarrow> (unit, ksched) res" where
  "sleep ch h s =
     (case cur s h of
        None \<Rightarrow> Panic ''kerneltrap''
      | Some i \<Rightarrow> Wait (s\<lparr>procs := (procs s)(i := (procs s i)\<lparr>chan := ch, pstate := SLEEPING\<rparr>),
                         cur := (cur s)(h := None)\<rparr>))"

definition sleep_return :: "nat \<Rightarrow> ksched \<Rightarrow> ksched" where
  "sleep_return i s = s\<lparr>procs := (procs s)(i := (procs s i)\<lparr>chan := NoChan\<rparr>)\<rparr>"

subsection \<open>Choosing a process\<close>

text \<open>
  The loop of \<^verbatim>\<open>scheduler()\<close> goes round the table: from position \<open>pos\<close> it runs the first
  \<open>RUNNABLE\<close> entry, and goes on after that entry. \<open>dispatch\<close> is the body of the loop up to
  \<^verbatim>\<open>swtch\<close>; \<open>rr_picks\<close> is the sequence of processes that one hart runs when \<open>tabs\<close> are the
  tables it finds at its successive rounds (other harts and the processes themselves change
  the table in between).
\<close>

definition sched_scan :: "nat \<Rightarrow> ptable \<Rightarrow> nat option" where
  "sched_scan pos ps = scan_first (\<lambda>i. pstate (ps i) = RUNNABLE) ([pos..<NPROC] @ [0..<pos])"

definition dispatch :: "nat \<Rightarrow> nat \<Rightarrow> ksched \<Rightarrow> ksched" where
  "dispatch h i s =
     s\<lparr>procs := (procs s)(i := (procs s i)\<lparr>pstate := RUNNING\<rparr>), cur := (cur s)(h := Some i)\<rparr>"

fun rr_picks :: "nat \<Rightarrow> ptable list \<Rightarrow> nat list" where
  "rr_picks pos [] = []"
| "rr_picks pos (ps # tabs) =
     (case sched_scan pos ps of
        None \<Rightarrow> rr_picks pos tabs
      | Some i \<Rightarrow> i # rr_picks (Suc i mod NPROC) tabs)"

subsection \<open>All harts together\<close>

inductive sched_step :: "ksched \<Rightarrow> ksched \<Rightarrow> bool" where
  st_pick: "cur s h = None \<Longrightarrow> i < NPROC \<Longrightarrow> pstate (procs s i) = RUNNABLE \<Longrightarrow>
     sched_step s (dispatch h i s)"
| st_yield: "yield h s = Wait t \<Longrightarrow> sched_step s t"
| st_sleep: "sleep ch h s = Wait t \<Longrightarrow> sched_step s t"
| st_wakeup: "sched_step s (s\<lparr>procs := wakeup ch (cur s h) (procs s)\<rparr>)"
| st_kill: "sched_step s (s\<lparr>procs := snd (kill n (procs s))\<rparr>)"
| st_exit: "cur s h = Some i \<Longrightarrow>
     sched_step s (s\<lparr>procs := (procs s)(i := (procs s i)\<lparr>pstate := ZOMBIE, xstate := v\<rparr>),
                     cur := (cur s)(h := None)\<rparr>)"
| st_reap: "pstate (procs s i) = ZOMBIE \<Longrightarrow>
     sched_step s (s\<lparr>procs := (procs s)(i := (procs s i)\<lparr>pstate := UNUSED\<rparr>)\<rparr>)"
| st_alloc: "i < NPROC \<Longrightarrow> pstate (procs s i) = UNUSED \<Longrightarrow>
     sched_step s ((snd (allocpid s))\<lparr>procs := (procs s)(i := (procs s i)\<lparr>pstate := USED,
                     pid := fst (allocpid s)\<rparr>)\<rparr>)"
| st_ready: "i < NPROC \<Longrightarrow> pstate (procs s i) = USED \<Longrightarrow>
     sched_step s (s\<lparr>procs := (procs s)(i := (procs s i)\<lparr>pstate := RUNNABLE\<rparr>)\<rparr>)"

inductive sched_reach :: "ksched \<Rightarrow> ksched \<Rightarrow> bool" where
  sr_start: "sched_reach s s"
| sr_step: "sched_reach s t \<Longrightarrow> sched_step t u \<Longrightarrow> sched_reach s u"

definition sched_start :: "ksched \<Rightarrow> bool" where
  "sched_start s \<longleftrightarrow> (\<forall>h. cur s h = None) \<and> (\<forall>i. pstate (procs s i) \<noteq> RUNNING)"

definition sched_inv :: "ksched \<Rightarrow> bool" where
  "sched_inv s \<longleftrightarrow>
     (\<forall>i. pstate (procs s i) = RUNNING \<longleftrightarrow> (\<exists>h. cur s h = Some i)) \<and>
     (\<forall>h h' i. cur s h = Some i \<longrightarrow> cur s h' = Some i \<longrightarrow> h = h') \<and>
     (\<forall>h i. cur s h = Some i \<longrightarrow> i < NPROC)"

subsection \<open>Closed forms of the table loops\<close>

lemma wakeup_eq:
  "wakeup ch me ps = (\<lambda>i. if i < NPROC \<and> Some i \<noteq> me then wake_one ch (ps i) else ps i)"
  unfolding wakeup_def
  by (subst fold_pointwise [where f = "\<lambda>i p. if Some i \<noteq> me then wake_one ch p else p"])
    (auto simp: fun_eq_iff)

lemma procinit_eq:
  "procinit ps = (\<lambda>i. if i < NPROC then (ps i)\<lparr>pstate := UNUSED, kstack := KSTACK i\<rparr> else ps i)"
  by (auto simp: procinit_def fold_pointwise [where f = "\<lambda>i p. p\<lparr>pstate := UNUSED, kstack := KSTACK i\<rparr>"]
      fun_eq_iff)

lemma wake_one_state:
  "pstate (wake_one ch p) = (if pstate p = SLEEPING \<and> chan p = ch then RUNNABLE else pstate p)"
  by (simp add: wake_one_def)

lemma wakeup_running [simp]: "pstate (wakeup ch me ps i) = RUNNING \<longleftrightarrow> pstate (ps i) = RUNNING"
  by (simp add: wakeup_eq wake_one_state)

lemma kill_running [simp]: "pstate (snd (kill n ps) i) = RUNNING \<longleftrightarrow> pstate (ps i) = RUNNING"
  by (auto simp: kill_def Let_def split: option.splits)

lemma sched_inv_running: "sched_inv s \<Longrightarrow> cur s h = Some i \<Longrightarrow> pstate (procs s i) = RUNNING"
  unfolding sched_inv_def by blast

lemma sched_inv_upd_idle:
  assumes "sched_inv s" and "pstate (procs s i) \<noteq> RUNNING" and "pstate p \<noteq> RUNNING"
    and "procs t = (procs s)(i := p)" and "cur t = cur s"
  shows "sched_inv t"
  using assms sched_inv_running [OF assms(1)] unfolding sched_inv_def by auto

lemma sched_inv_step: "sched_step s t \<Longrightarrow> sched_inv s \<Longrightarrow> sched_inv t"
proof (induction rule: sched_step.induct)
  case (st_pick s h i)
  then have "pstate (procs s i) \<noteq> RUNNING" by simp
  with st_pick.prems have "\<forall>h'. cur s h' \<noteq> Some i" by (auto simp: sched_inv_def)
  with st_pick show ?case
    by (auto simp: sched_inv_def dispatch_def split: if_splits) (metis option.distinct(1))
next
  case (st_yield h s t)
  then show ?case
    by (auto simp: sched_inv_def yield_def split: option.splits if_splits) (metis option.inject)+
next
  case (st_sleep ch h s t)
  then show ?case
    by (auto simp: sched_inv_def sleep_def split: option.splits if_splits) (metis option.inject)+
next
  case (st_exit s h i v)
  then show ?case
    by (auto simp: sched_inv_def split: if_splits) (metis option.inject)+
next
  case (st_reap s i)
  then show ?case by (auto elim!: sched_inv_upd_idle)
next
  case (st_alloc i s)
  then show ?case by (auto simp: allocpid_def elim!: sched_inv_upd_idle)
next
  case (st_ready i s)
  then show ?case by (auto elim!: sched_inv_upd_idle)
qed (auto simp: sched_inv_def)

lemma sched_reach_inv: "sched_reach s t \<Longrightarrow> sched_start s \<Longrightarrow> sched_inv t"
proof (induction rule: sched_reach.induct)
  case (sr_start s)
  then show ?case by (simp add: sched_start_def sched_inv_def)
next
  case (sr_step s t u)
  then show ?case by (blast intro: sched_inv_step)
qed

subsection \<open>Round robin\<close>

definition ahead :: "nat \<Rightarrow> nat \<Rightarrow> nat" where
  "ahead pos j = (if pos \<le> j then j - pos else j + NPROC - pos)"

lemma sched_scan_some:
  assumes "j < NPROC" and "pos < NPROC" and "pstate (ps j) = RUNNABLE"
  shows "\<exists>i. sched_scan pos ps = Some i"
proof -
  have "j \<in> set ([pos..<NPROC] @ [0..<pos])" using assms by auto
  then show ?thesis
    unfolding sched_scan_def using assms(3) scan_first_exists by fast
qed

lemma sched_scan_ahead:
  assumes "sched_scan pos ps = Some i" and "j < NPROC" and "pos < NPROC"
    and "pstate (ps j) = RUNNABLE" and "i \<noteq> j"
  shows "ahead (Suc i mod NPROC) j < ahead pos j" and "i < NPROC"
proof -
  let ?P = "\<lambda>i. pstate (ps i) = RUNNABLE"
  have mem: "i \<in> set ([pos..<NPROC] @ [0..<pos])"
    using assms(1) unfolding sched_scan_def by (blast dest: scan_first_SomeD)
  with assms(3) show i: "i < NPROC" by auto
  have split: "scan_first ?P [pos..<NPROC] = Some i \<or>
      scan_first ?P [pos..<NPROC] = None \<and> scan_first ?P [0..<pos] = Some i"
    using assms(1) by (auto simp: sched_scan_def scan_first_append split: option.splits)
  then show "ahead (Suc i mod NPROC) j < ahead pos j"
  proof
    assume hi: "scan_first ?P [pos..<NPROC] = Some i"
    then have "pos \<le> i" by (auto dest: scan_first_SomeD)
    moreover have "\<not> (pos \<le> j \<and> j < i)"
      using scan_first_upt_least [OF hi] assms(4) by blast
    ultimately show ?thesis using i assms(2,3,5) by (auto simp: ahead_def mod_Suc)
  next
    assume lo: "scan_first ?P [pos..<NPROC] = None \<and> scan_first ?P [0..<pos] = Some i"
    then have "\<not> pos \<le> j" using assms(2,4) by (auto simp: scan_first_None_iff)
    moreover have "i < pos" using lo by (auto dest: scan_first_SomeD)
    moreover have "\<not> j < i"
      using scan_first_upt_least [of ?P 0 pos i j] lo assms(4) by auto
    ultimately show ?thesis using i assms(2,3,5) by (auto simp: ahead_def mod_Suc)
  qed
qed

lemma rr_picks_within:
  assumes "\<forall>ps \<in> set tabs. pstate (ps j) = RUNNABLE" and "j < NPROC" and "pos < NPROC"
    and "ahead pos j < length tabs"
  shows "j \<in> set (take (Suc (ahead pos j)) (rr_picks pos tabs))"
  using assms
proof (induction tabs arbitrary: pos)
  case Nil
  then show ?case by simp
next
  case (Cons ps tabs)
  from Cons.prems have run: "pstate (ps j) = RUNNABLE" by simp
  with Cons.prems(2,3) obtain i where i: "sched_scan pos ps = Some i"
    using sched_scan_some by blast
  show ?case
  proof (cases "i = j")
    case True
    with i show ?thesis by simp
  next
    case False
    note lt = sched_scan_ahead [OF i Cons.prems(2,3) run False]
    have "Suc i mod NPROC < NPROC" by (simp add: NPROC_def)
    moreover have "ahead (Suc i mod NPROC) j < length tabs" using lt(1) Cons.prems(4) by simp
    ultimately have "j \<in> set (take (Suc (ahead (Suc i mod NPROC) j)) (rr_picks (Suc i mod NPROC) tabs))"
      using Cons.IH Cons.prems(1,2) by simp
    moreover have "Suc (ahead (Suc i mod NPROC) j) \<le> ahead pos j" using lt(1) by simp
    ultimately have "j \<in> set (take (ahead pos j) (rr_picks (Suc i mod NPROC) tabs))"
      using set_take_subset_set_take by fast
    with i show ?thesis by simp
  qed
qed

lemma ahead_less: "j < NPROC \<Longrightarrow> pos < NPROC \<Longrightarrow> ahead pos j < NPROC"
  by (auto simp: ahead_def)

subsection \<open>Reparenting\<close>

definition reparent_upto :: "nat \<Rightarrow> nat \<Rightarrow> nat option \<Rightarrow> nat set \<Rightarrow> ptable \<Rightarrow> ptable" where
  "reparent_upto initproc p me V ps = (\<lambda>i.
     let q = (if (\<exists>k \<in> V. parent (ps k) = Some p) \<and> i < NPROC \<and> Some i \<noteq> me
              then wake_one (ProcChan initproc) (ps i) else ps i)
     in if i \<in> V \<and> parent (ps i) = Some p then q\<lparr>parent := Some initproc\<rparr> else q)"

lemma wake_one_simps [simp]:
  "parent (wake_one ch p) = parent p"
  "chan (wake_one ch p) = chan p"
  "wake_one ch (wake_one ch p) = wake_one ch p"
  "wake_one ch (p\<lparr>parent := a\<rparr>) = (wake_one ch p)\<lparr>parent := a\<rparr>"
  by (auto simp: wake_one_def)

lemma reparent_fold:
  assumes "distinct is" and "set is \<inter> V = {}" and "p \<noteq> initproc"
  shows "fold (\<lambda>i ps. if parent (ps i) = Some p
            then wakeup (ProcChan initproc) me (ps(i := (ps i)\<lparr>parent := Some initproc\<rparr>))
            else ps) is (reparent_upto initproc p me V ps)
         = reparent_upto initproc p me (V \<union> set is) ps"
  using assms
proof (induction "is" arbitrary: V)
  case Nil
  then show ?case by simp
next
  case (Cons i "is")
  have iV: "i \<notin> V" using Cons.prems(2) by auto
  have par: "parent (reparent_upto initproc p me V ps i) = parent (ps i)"
    using iV by (simp add: reparent_upto_def Let_def)
  have step: "(if parent (reparent_upto initproc p me V ps i) = Some p
      then wakeup (ProcChan initproc) me
        ((reparent_upto initproc p me V ps)
          (i := (reparent_upto initproc p me V ps i)\<lparr>parent := Some initproc\<rparr>))
      else reparent_upto initproc p me V ps) = reparent_upto initproc p me (insert i V) ps"
    using iV by (simp add: par) (auto simp: fun_eq_iff wakeup_eq reparent_upto_def Let_def)
  have "fold (\<lambda>i ps. if parent (ps i) = Some p
            then wakeup (ProcChan initproc) me (ps(i := (ps i)\<lparr>parent := Some initproc\<rparr>))
            else ps) is (reparent_upto initproc p me (insert i V) ps)
      = reparent_upto initproc p me (insert i V \<union> set is) ps"
    using Cons.prems by (intro Cons.IH) auto
  then show ?case using step by simp
qed

lemma reparent_eq:
  assumes "p \<noteq> initproc"
  shows "reparent initproc p me ps = reparent_upto initproc p me {i. i < NPROC} ps"
proof -
  have empty: "reparent_upto initproc p me {} ps = ps"
    by (simp add: reparent_upto_def fun_eq_iff Let_def)
  have s: "set [0..<NPROC] = {i. i < NPROC}" by auto
  show ?thesis
    unfolding reparent_def
    using reparent_fold [of "[0..<NPROC]" "{}" p initproc me ps] assms empty s by simp
qed

subsection \<open>Properties of the scheduler\<close>

text \<open>C22. Under every interleaving of the state changes of \<^verbatim>\<open>proc.c\<close>, a process is in state
  \<open>RUNNING\<close> exactly when it is the current process of some hart, and of one hart only.\<close>

theorem sched_running_unique:
  assumes "sched_start s" and "sched_reach s t"
  shows "pstate (procs t i) = RUNNING \<longleftrightarrow> (\<exists>!h. cur t h = Some i)"
  using sched_reach_inv [OF assms(2,1)] unfolding sched_inv_def by metis

definition demo_proc :: proc where
  "demo_proc = \<lparr>pstate = RUNNABLE, chan = NoChan, killed = False, xstate = 0, pid = 1,
     parent = None, kstack = 0, sz = 0, pagetable = 0, trapframe = 0, ctx_ra = 0, ctx_sp = 0,
     ofile = (\<lambda>_. None), cwd = None, pname = []\<rparr>"

definition demo_sched :: ksched where
  "demo_sched = \<lparr>procs = (\<lambda>_. demo_proc), cur = (\<lambda>_. None), nextpid = 2\<rparr>"

theorem sched_running_unique_witness:
  "sched_start demo_sched \<and> sched_reach demo_sched (dispatch 1 5 demo_sched) \<and>
   (\<exists>!h. cur (dispatch 1 5 demo_sched) h = Some 5)"
proof -
  have a: "sched_start demo_sched"
    by (simp add: sched_start_def demo_sched_def demo_proc_def)
  have b: "sched_reach demo_sched (dispatch 1 5 demo_sched)"
    by (rule sr_step [OF sr_start], rule st_pick)
      (simp_all add: demo_sched_def demo_proc_def NPROC_def)
  have c: "pstate (procs (dispatch 1 5 demo_sched) 5) = RUNNING"
    by (simp add: dispatch_def)
  from sched_running_unique [OF a b, of 5] a b c show ?thesis by simp
qed

text \<open>C27. Round robin: a process that stays \<open>RUNNABLE\<close> is run by the hart's scheduler loop within
  \<^verbatim>\<open>NPROC\<close> dispatches, wherever the loop stands in the table and whatever the other entries
  do meanwhile.\<close>

theorem rr_no_starvation:
  assumes "j < NPROC" and "pos < NPROC" and "\<forall>ps \<in> set tabs. pstate (ps j) = RUNNABLE"
    and "NPROC \<le> length tabs"
  shows "j \<in> set (take NPROC (rr_picks pos tabs))"
proof -
  have lt: "ahead pos j < NPROC" using assms(1,2) by (rule ahead_less)
  with assms(4) have "ahead pos j < length tabs" by simp
  with assms(1-3) have "j \<in> set (take (Suc (ahead pos j)) (rr_picks pos tabs))"
    by (intro rr_picks_within)
  moreover have "Suc (ahead pos j) \<le> NPROC" using lt by simp
  ultimately show ?thesis using set_take_subset_set_take by fast
qed

theorem rr_no_starvation_witness:
  "63 \<in> set (take NPROC (rr_picks 7 (replicate 64 (\<lambda>i. demo_proc))))"
  by (rule rr_no_starvation) (simp_all add: NPROC_def demo_proc_def)

text \<open>\<^verbatim>\<open>yield\<close> and \<^verbatim>\<open>sleep\<close> reach the context switch only with \<^verbatim>\<open>p->lock\<close> as the single
  spin lock: from nesting depth zero the checks of \<^verbatim>\<open>sched\<close> pass, and with any other spin lock
  still held they panic.\<close>

theorem sched_single_lock:
  assumes "\<not> locked (locks m lk)" and "0 \<le> noff (cpus m h)" and "st \<noteq> RUNNING"
  shows "seqr (acquire h lk m) (\<lambda>_. sched h lk st) =
           (if noff (cpus m h) = 0
            then Ok () (on_lock lk (\<lambda>k. k\<lparr>lcpu := Some h\<rparr>)
                         (on_lock lk (\<lambda>k. k\<lparr>locked := True\<rparr>) (on_cpu h push_off m)))
            else Panic ''sched locks'')"
  using assms by (simp add: acquire_def sched_def lock_defs Let_def)

theorem sched_single_lock_witness:
  "is_ok (seqr (acquire 1 3 (mach spin_demo0)) (\<lambda>_. sched 1 3 RUNNABLE)) \<and>
   seqr (acquire 1 4 (mach spin_demo1)) (\<lambda>_. sched 1 4 SLEEPING) = Panic ''sched locks''"
  using sched_single_lock [of "mach spin_demo0" 3 1 RUNNABLE]
    sched_single_lock [of "mach spin_demo1" 4 1 SLEEPING]
  by (simp add: spin_demo1_def spin_demo0_def lock_defs)

text \<open>When a process other than init exits, \<^verbatim>\<open>reparent\<close> gives every child of it to init, leaves
  every other parent link alone, and wakes init if it sleeps in \<^verbatim>\<open>wait\<close> and there was a child.\<close>

theorem reparent_spec:
  assumes "p \<noteq> initproc" and "i < NPROC"
  shows "parent (reparent initproc p me ps i) =
           (if parent (ps i) = Some p then Some initproc else parent (ps i)) \<and>
         pstate (reparent initproc p me ps i) =
           (if (\<exists>k < NPROC. parent (ps k) = Some p) \<and> Some i \<noteq> me \<and>
               pstate (ps i) = SLEEPING \<and> chan (ps i) = ProcChan initproc
            then RUNNABLE else pstate (ps i))"
proof -
  have ex: "(\<exists>k \<in> {i. i < NPROC}. parent (ps k) = Some p) = (\<exists>k < NPROC. parent (ps k) = Some p)"
    by blast
  show ?thesis
    using assms by (simp add: reparent_eq reparent_upto_def ex Let_def wake_one_state)
qed

theorem reparent_spec_witness:
  "parent (reparent 0 2 (Some 2) (\<lambda>i. demo_proc\<lparr>parent := Some 2\<rparr>) 7) = Some 0"
  using reparent_spec [of 2 0 7 "Some 2" "\<lambda>i. demo_proc\<lparr>parent := Some 2\<rparr>"]
  by (simp add: NPROC_def)

end
