(* ===== verification/Bio.thy ===== *)
theory Bio
  imports Sched
begin

section \<open>Sleep locks and the block cache (kernel/sleeplock.c, kernel/bio.c)\<close>

text \<open>
  The cache is an array of \<^verbatim>\<open>NBUF\<close> buffers on a doubly linked list with the list head as index
  \<open>HEAD\<close>; \<open>nxt\<close> and \<open>prv\<close> are the pointers. \<open>dll\<close> relates the pointers to the list of buffers,
  most recently used first. The disk is a function from block numbers to blocks; \<open>wlog\<close> records the
  block writes in the order in which they reach it, which is what a crash may cut short. The
  process that calls is \<open>me\<close>; a sleep lock is free (\<open>None\<close>) or held by a process, and \<open>bps\<close> is
  the process table, in which \<^verbatim>\<open>acquiresleep\<close> puts its caller to sleep and \<^verbatim>\<open>releasesleep\<close> wakes. A block is a
  function from offsets to bytes.
\<close>

type_synonym blk = "nat \<Rightarrow> u8"

definition BSIZE :: nat where "BSIZE = 1024"
definition NBUF :: nat where "NBUF = 30"
definition HEAD :: nat where "HEAD = 30"

record buf =
  valid :: bool
  dev :: nat
  blockno :: nat
  refcnt :: int
  slock :: "nat option"
  data :: blk

record bsys =
  bufs :: "nat \<Rightarrow> buf"
  nxt :: "nat \<Rightarrow> nat"
  prv :: "nat \<Rightarrow> nat"
  disk :: "nat \<Rightarrow> blk"
  wlog :: "(nat \<times> blk) list"
  bps :: ptable

subsection \<open>Sleep locks\<close>

definition initsleeplock :: "nat option" where
  "initsleeplock = None"

text \<open>\<^verbatim>\<open>acquiresleep\<close> of the lock with channel \<open>c\<close>: the new lock, or the caller asleep on it.
  \<^verbatim>\<open>releasesleep\<close> frees it and wakes the sleepers.\<close>

definition acquiresleep :: "nat \<Rightarrow> chan \<Rightarrow> nat option \<Rightarrow> ptable \<Rightarrow> (nat option, ptable) res" where
  "acquiresleep me c lk ps =
     (case lk of
        None \<Rightarrow> Ok (Some me) ps
      | Some _ \<Rightarrow> Wait (ps(me := (ps me)\<lparr>chan := c, pstate := SLEEPING\<rparr>)))"

definition releasesleep :: "nat \<Rightarrow> chan \<Rightarrow> nat option \<Rightarrow> ptable \<Rightarrow> nat option \<times> ptable" where
  "releasesleep me c lk ps = (None, wakeup c (Some me) ps)"

definition holdingsleep :: "nat \<Rightarrow> nat option \<Rightarrow> bool" where
  "holdingsleep me lk \<longleftrightarrow> lk = Some me"

subsection \<open>The cache\<close>

definition upd_buf :: "nat \<Rightarrow> (buf \<Rightarrow> buf) \<Rightarrow> bsys \<Rightarrow> bsys" where
  "upd_buf i f s = s\<lparr>bufs := (bufs s)(i := f (bufs s i))\<rparr>"

text \<open>Insertion of a buffer after the list head, as \<^verbatim>\<open>binit\<close> and \<^verbatim>\<open>brelse\<close> do it, and its removal.\<close>

definition link_front :: "nat \<Rightarrow> bsys \<Rightarrow> bsys" where
  "link_front b s =
     (let s = s\<lparr>nxt := (nxt s)(b := nxt s HEAD)\<rparr>;
          s = s\<lparr>prv := (prv s)(b := HEAD)\<rparr>;
          s = s\<lparr>prv := (prv s)(nxt s HEAD := b)\<rparr>
      in s\<lparr>nxt := (nxt s)(HEAD := b)\<rparr>)"

definition unlink :: "nat \<Rightarrow> bsys \<Rightarrow> bsys" where
  "unlink b s =
     (let s = s\<lparr>prv := (prv s)(nxt s b := prv s b)\<rparr>
      in s\<lparr>nxt := (nxt s)(prv s b := nxt s b)\<rparr>)"

definition binit :: "bsys \<Rightarrow> bsys" where
  "binit s =
     fold (\<lambda>b s. upd_buf b (\<lambda>x. x\<lparr>slock := initsleeplock\<rparr>) (link_front b s)) [0..<NBUF]
       (s\<lparr>prv := (prv s)(HEAD := HEAD), nxt := (nxt s)(HEAD := HEAD)\<rparr>)"

text \<open>A search along one of the two directions of the list.\<close>

fun scan_chain :: "nat \<Rightarrow> (nat \<Rightarrow> nat) \<Rightarrow> (nat \<Rightarrow> bool) \<Rightarrow> nat \<Rightarrow> nat option" where
  "scan_chain 0 f P b = None"
| "scan_chain (Suc n) f P b = (if b = HEAD then None else if P b then Some b else scan_chain n f P (f b))"

definition lock_buf :: "nat \<Rightarrow> nat \<Rightarrow> bsys \<Rightarrow> (nat, bsys) res" where
  "lock_buf me b s =
     (case acquiresleep me (SleepChan b) (slock (bufs s b)) (bps s) of
        Ok lk ps \<Rightarrow> Ok b (upd_buf b (\<lambda>x. x\<lparr>slock := lk\<rparr>) (s\<lparr>bps := ps\<rparr>))
      | Wait ps \<Rightarrow> Wait (s\<lparr>bps := ps\<rparr>)
      | Panic m \<Rightarrow> Panic m)"

definition bget :: "nat \<Rightarrow> nat \<Rightarrow> nat \<Rightarrow> bsys \<Rightarrow> (nat, bsys) res" where
  "bget me d n s =
     (case scan_chain (Suc NBUF) (nxt s) (\<lambda>b. dev (bufs s b) = d \<and> blockno (bufs s b) = n) (nxt s HEAD) of
        Some b \<Rightarrow> lock_buf me b (upd_buf b (\<lambda>x. x\<lparr>refcnt := refcnt x + 1\<rparr>) s)
      | None \<Rightarrow>
          (case scan_chain (Suc NBUF) (prv s) (\<lambda>b. refcnt (bufs s b) = 0) (prv s HEAD) of
             Some b \<Rightarrow> lock_buf me b
               (upd_buf b (\<lambda>x. x\<lparr>dev := d, blockno := n, valid := False, refcnt := 1\<rparr>) s)
           | None \<Rightarrow> Panic ''bget: no buffers''))"

text \<open>The effect of \<^verbatim>\<open>virtio_disk_rw\<close>: the block is read or written as a whole.\<close>

definition disk_rw :: "nat \<Rightarrow> bool \<Rightarrow> bsys \<Rightarrow> bsys" where
  "disk_rw b write_it s =
     (if write_it
      then s\<lparr>disk := (disk s)(blockno (bufs s b) := data (bufs s b)),
             wlog := wlog s @ [(blockno (bufs s b), data (bufs s b))]\<rparr>
      else upd_buf b (\<lambda>x. x\<lparr>data := disk s (blockno x)\<rparr>) s)"

definition bread :: "nat \<Rightarrow> nat \<Rightarrow> nat \<Rightarrow> bsys \<Rightarrow> (nat, bsys) res" where
  "bread me d n s =
     seqr (bget me d n s) (\<lambda>b s.
       if \<not> valid (bufs s b)
       then Ok b (upd_buf b (\<lambda>x. x\<lparr>valid := True\<rparr>) (disk_rw b False s))
       else Ok b s)"

definition bwrite :: "nat \<Rightarrow> nat \<Rightarrow> bsys \<Rightarrow> (unit, bsys) res" where
  "bwrite me b s =
     (if \<not> holdingsleep me (slock (bufs s b)) then Panic ''bwrite'' else Ok () (disk_rw b True s))"

definition brelse :: "nat \<Rightarrow> nat \<Rightarrow> bsys \<Rightarrow> (unit, bsys) res" where
  "brelse me b s =
     (if \<not> holdingsleep me (slock (bufs s b)) then Panic ''brelse''
      else let (lk, ps) = releasesleep me (SleepChan b) (slock (bufs s b)) (bps s);
               s = upd_buf b (\<lambda>x. x\<lparr>slock := lk\<rparr>) (s\<lparr>bps := ps\<rparr>);
               s = upd_buf b (\<lambda>x. x\<lparr>refcnt := refcnt x - 1\<rparr>) s
           in Ok () (if refcnt (bufs s b) = 0 then link_front b (unlink b s) else s))"

definition bpin :: "nat \<Rightarrow> bsys \<Rightarrow> bsys" where
  "bpin b s = upd_buf b (\<lambda>x. x\<lparr>refcnt := refcnt x + 1\<rparr>) s"

definition bunpin :: "nat \<Rightarrow> bsys \<Rightarrow> bsys" where
  "bunpin b s = upd_buf b (\<lambda>x. x\<lparr>refcnt := refcnt x - 1\<rparr>) s"

subsection \<open>The linked list\<close>

fun links :: "(nat \<Rightarrow> nat) \<Rightarrow> nat \<Rightarrow> nat list \<Rightarrow> nat \<Rightarrow> bool" where
  "links f a [] b \<longleftrightarrow> f a = b"
| "links f a (x # xs) b \<longleftrightarrow> f a = x \<and> links f x xs b"

definition dll :: "bsys \<Rightarrow> nat list \<Rightarrow> bool" where
  "dll s xs \<longleftrightarrow> links (nxt s) HEAD xs HEAD \<and> links (prv s) HEAD (rev xs) HEAD \<and>
     distinct xs \<and> HEAD \<notin> set xs"

lemma path_append: "links f a (xs @ x # ys) b \<longleftrightarrow> links f a xs x \<and> links f x ys b"
  by (induction xs arbitrary: a) auto

lemma path_cong: "(\<And>x. x \<in> insert a (set xs) \<Longrightarrow> f x = g x) \<Longrightarrow> links f a xs b \<longleftrightarrow> links g a xs b"
  by (induction xs arbitrary: a) auto

lemma path_last: "links f a xs b \<Longrightarrow> f (last (a # xs)) = b"
  by (induction xs arbitrary: a) auto

lemma path_last_upd: "distinct (a # xs) \<Longrightarrow> links f a xs b \<Longrightarrow> links (f(last (a # xs) := c)) a xs c"
proof (induction xs arbitrary: a)
  case (Cons x xs)
  have "links (f(last (x # xs) := c)) x xs c" by (rule Cons.IH) (use Cons.prems in auto)
  moreover have "last (x # xs) \<noteq> a" using Cons.prems(1) by (metis distinct.simps(2) last_in_set list.simps(3))
  moreover from this have "(f(last (x # xs) := c)) a = x" using Cons.prems by (simp del: last.simps)
  moreover have "last (a # x # xs) = last (x # xs)" by simp
  ultimately show ?case by (simp only: links.simps)
qed simp

lemma path_hd: "links f a xs b \<Longrightarrow> f a = hd (xs @ [b])"
  by (cases xs) auto

lemma scan_chain_path:
  assumes "links f a xs HEAD" and "HEAD \<notin> set xs" and "length xs < n"
  shows "scan_chain n f P (f a) = scan_first P xs"
  using assms
proof (induction xs arbitrary: a n)
  case Nil
  then show ?case by (cases n) auto
next
  case (Cons x xs)
  then obtain m where "n = Suc m" by (cases n) auto
  with Cons show ?case by auto
qed

declare scan_chain.simps [simp del]

lemma dll_link_front:
  assumes "dll s xs" and "b \<notin> set xs" and "b \<noteq> HEAD"
  shows "dll (link_front b s) (b # xs)"
proof -
  let ?h = "hd (xs @ [HEAD])"
  have d: "links (nxt s) HEAD xs HEAD" "links (prv s) HEAD (rev xs) HEAD" "distinct xs" "HEAD \<notin> set xs"
    using assms(1) by (auto simp: dll_def)
  have h: "nxt s HEAD = ?h" using path_hd [OF d(1)] .
  have hl: "last (HEAD # rev xs) = ?h" by (cases xs) auto
  have "links ((nxt s)(b := ?h, HEAD := b)) b xs HEAD"
  proof (cases xs)
    case (Cons x ys)
    have "links ((nxt s)(b := ?h, HEAD := b)) x ys HEAD \<longleftrightarrow> links (nxt s) x ys HEAD"
      using Cons assms(2) d(4) by (intro path_cong) auto
    then show ?thesis using Cons d(1) assms(3) by auto
  qed (use assms(3) in auto)
  moreover have "links ((prv s)(b := HEAD, ?h := b)) HEAD (rev xs @ [b]) HEAD"
  proof -
    have "links ((prv s)(?h := b)) HEAD (rev xs) b"
      using path_last_upd [of HEAD "rev xs" "prv s" HEAD b] d hl by simp
    moreover have "links ((prv s)(b := HEAD, ?h := b)) HEAD (rev xs) b \<longleftrightarrow> links ((prv s)(?h := b)) HEAD (rev xs) b"
      using assms(2,3) by (intro path_cong) auto
    moreover have "?h \<noteq> b" using assms(2,3) by (cases xs) auto
    ultimately show ?thesis by (simp add: path_append)
  qed
  ultimately show ?thesis
    using d assms(2,3) by (simp add: dll_def link_front_def Let_def h fun_upd_twist)
qed

lemma dll_unlink:
  assumes "dll s (us @ b # vs)"
  shows "dll (unlink b s) (us @ vs)"
proof -
  have d: "links (nxt s) HEAD us b" "links (nxt s) b vs HEAD" "links (prv s) HEAD (rev vs) b"
    "links (prv s) b (rev us) HEAD" "distinct (us @ b # vs)" "HEAD \<notin> set (us @ b # vs)"
    using assms by (auto simp: dll_def path_append)
  let ?p = "last (HEAD # us)" and ?n = "hd (vs @ [HEAD])"
  have nb: "nxt s b = ?n" using path_hd [OF d(2)] .
  have pb: "prv s b = ?p" using path_hd [OF d(4)] by (cases us rule: rev_cases) auto
  have ln: "last (HEAD # rev vs) = ?n" by (cases vs) auto
  have pn: "?n \<noteq> b" using d(5,6) by (cases vs) auto
  have nx: "nxt (unlink b s) = (nxt s)(?p := ?n)" and pv: "prv (unlink b s) = (prv s)(?n := ?p)"
    using pn by (simp_all add: unlink_def Let_def nb pb)
  have a1: "links ((nxt s)(?p := ?n)) HEAD us ?n"
    using path_last_upd [OF _ d(1)] d(5,6) by simp
  have a2: "links ((prv s)(?n := ?p)) HEAD (rev vs) ?p"
    using path_last_upd [OF _ d(3), of ?p] d(5,6) ln by simp
  have b1: "links ((nxt s)(?p := ?n)) b vs HEAD \<longleftrightarrow> links (nxt s) b vs HEAD"
    using d(5,6) by (intro path_cong) (cases us rule: rev_cases; auto)
  have b2: "links ((prv s)(?n := ?p)) b (rev us) HEAD \<longleftrightarrow> links (prv s) b (rev us) HEAD"
    using d(5,6) by (intro path_cong) (cases vs; auto)
  have "links ((nxt s)(?p := ?n)) HEAD (us @ vs) HEAD"
    using a1 b1 d(2) by (cases vs) (auto simp: path_append)
  moreover have "links ((prv s)(?n := ?p)) HEAD (rev vs @ rev us) HEAD"
    using a2 b2 d(4) by (cases us rule: rev_cases) (auto simp: path_append)
  ultimately show ?thesis using d(5,6) by (simp add: dll_def nx pv)
qed

subsection \<open>The invariant of the cache\<close>

definition ROOTDEV :: nat where "ROOTDEV = 1"

definition cached :: "bsys \<Rightarrow> nat \<Rightarrow> nat \<Rightarrow> bool" where
  "cached s i n \<longleftrightarrow> i < NBUF \<and> dev (bufs s i) = ROOTDEV \<and> blockno (bufs s i) = n"

definition lookup :: "bsys \<Rightarrow> nat \<Rightarrow> nat option" where
  "lookup s n = scan_first (\<lambda>i. dev (bufs s i) = ROOTDEV \<and> blockno (bufs s i) = n) [0..<NBUF]"

text \<open>What a reader sees of a block: the cached copy if there is one, else the disk.\<close>

definition view :: "bsys \<Rightarrow> nat \<Rightarrow> blk" where
  "view s n = (case lookup s n of
     Some i \<Rightarrow> if valid (bufs s i) then data (bufs s i) else disk s n | None \<Rightarrow> disk s n)"

definition clean :: "bsys \<Rightarrow> nat \<Rightarrow> bool" where
  "clean s i \<longleftrightarrow> (valid (bufs s i) \<and> dev (bufs s i) = ROOTDEV \<longrightarrow> data (bufs s i) = disk s (blockno (bufs s i)))"

definition binv :: "bsys \<Rightarrow> bool" where
  "binv s \<longleftrightarrow>
     (\<exists>xs. dll s xs \<and> set xs = {..<NBUF}) \<and>
     (\<forall>i < NBUF. \<forall>j < NBUF. dev (bufs s i) = ROOTDEV \<and> dev (bufs s j) = ROOTDEV \<and>
        blockno (bufs s i) = blockno (bufs s j) \<longrightarrow> i = j) \<and>
     (\<forall>i < NBUF. 0 \<le> refcnt (bufs s i)) \<and>
     (\<forall>i < NBUF. refcnt (bufs s i) = 0 \<longrightarrow> slock (bufs s i) = None \<and> clean s i)"

lemma binvI:
  assumes "dll s xs" and "set xs = {..<NBUF}"
    and "\<And>i j n. cached s i n \<Longrightarrow> cached s j n \<Longrightarrow> i = j"
    and "\<And>i. i < NBUF \<Longrightarrow> 0 \<le> refcnt (bufs s i)"
    and "\<And>i. i < NBUF \<Longrightarrow> refcnt (bufs s i) = 0 \<Longrightarrow> slock (bufs s i) = None \<and> clean s i"
  shows "binv s"
  using assms unfolding binv_def cached_def by blast

lemma binv_dll: "binv s \<Longrightarrow> \<exists>xs. dll s xs \<and> set xs = {..<NBUF}"
  by (simp add: binv_def)

lemma binv_uniq: "binv s \<Longrightarrow> cached s i n \<Longrightarrow> cached s j n \<Longrightarrow> i = j"
  unfolding binv_def cached_def by blast

lemma binv_ref: "binv s \<Longrightarrow> i < NBUF \<Longrightarrow> 0 \<le> refcnt (bufs s i)"
  unfolding binv_def by blast

lemma binv_free: "binv s \<Longrightarrow> i < NBUF \<Longrightarrow> refcnt (bufs s i) = 0 \<Longrightarrow> slock (bufs s i) = None \<and> clean s i"
  unfolding binv_def by blast

lemma lookup_cached: "lookup s n = Some i \<Longrightarrow> cached s i n"
  by (auto simp: lookup_def cached_def dest: scan_first_SomeD)

lemma lookup_None: "lookup s n = None \<longleftrightarrow> (\<forall>i. \<not> cached s i n)"
  by (auto simp: lookup_def cached_def scan_first_None_iff)

lemma cached_lookup: "binv s \<Longrightarrow> cached s i n \<Longrightarrow> lookup s n = Some i"
  by (metis binv_uniq lookup_None lookup_cached not_Some_eq)

lemma lookup_list:
  assumes "binv s" and "set xs = {..<NBUF}"
  shows "scan_first (\<lambda>i. dev (bufs s i) = ROOTDEV \<and> blockno (bufs s i) = n) xs = lookup s n"
proof (cases "lookup s n")
  case None
  then have "scan_first (\<lambda>i. dev (bufs s i) = ROOTDEV \<and> blockno (bufs s i) = n) xs = None"
    using assms(2) by (auto simp: scan_first_None_iff lookup_None cached_def)
  then show ?thesis using None by simp
next
  case (Some i)
  let ?P = "\<lambda>i. dev (bufs s i) = ROOTDEV \<and> blockno (bufs s i) = n"
  from lookup_cached [OF Some] have c: "cached s i n" .
  then obtain j where j: "scan_first ?P xs = Some j"
    using scan_first_exists [of i xs ?P] assms(2) by (auto simp: cached_def)
  then have "cached s j n" using assms(2) by (auto simp: cached_def dest: scan_first_SomeD)
  then show ?thesis using binv_uniq [OF assms(1) c] Some j by simp
qed

lemma dll_length: "dll s xs \<Longrightarrow> set xs = {..<NBUF} \<Longrightarrow> length xs = NBUF"
  using distinct_card [of xs] by (simp add: dll_def)

lemma scan_nxt:
  assumes "binv s"
  shows "scan_chain (Suc NBUF) (nxt s) (\<lambda>b. dev (bufs s b) = ROOTDEV \<and> blockno (bufs s b) = n) (nxt s HEAD) = lookup s n"
proof -
  from binv_dll [OF assms] obtain xs where xs: "dll s xs" "set xs = {..<NBUF}" by blast
  have "length xs < Suc NBUF" using dll_length [OF xs] by simp
  then show ?thesis
    using scan_chain_path [of "nxt s" HEAD xs "Suc NBUF"] xs lookup_list [OF assms xs(2)]
    by (simp add: dll_def)
qed

lemma scan_prv:
  assumes "binv s" and "i < NBUF" and "refcnt (bufs s i) = 0"
  shows "\<exists>j. scan_chain (Suc NBUF) (prv s) (\<lambda>b. refcnt (bufs s b) = 0) (prv s HEAD) = Some j \<and>
             j < NBUF \<and> refcnt (bufs s j) = 0"
proof -
  from binv_dll [OF assms(1)] obtain xs where xs: "dll s xs" "set xs = {..<NBUF}" by blast
  have l: "length (rev xs) < Suc NBUF" using dll_length [OF xs] by simp
  have eq: "scan_chain (Suc NBUF) (prv s) (\<lambda>b. refcnt (bufs s b) = 0) (prv s HEAD) = scan_first (\<lambda>b. refcnt (bufs s b) = 0) (rev xs)"
    using xs by (intro scan_chain_path [OF _ _ l]) (simp_all add: dll_def)
  have "i \<in> set (rev xs)" using assms(2) xs(2) by simp
  from scan_first_exists [OF this, of "\<lambda>b. refcnt (bufs s b) = 0"] assms(3)
  obtain j where j: "scan_first (\<lambda>b. refcnt (bufs s b) = 0) (rev xs) = Some j" by blast
  from scan_first_SomeD [OF j] xs(2) have "j < NBUF" "refcnt (bufs s j) = 0" by simp_all
  with j eq show ?thesis by simp
qed

lemma dll_upd [simp]: "dll (upd_buf i f s) xs = dll s xs" "dll (s\<lparr>disk := d\<rparr>) xs = dll s xs" "dll (s\<lparr>wlog := w\<rparr>) xs = dll s xs"
  "dll (s\<lparr>bps := p\<rparr>) xs = dll s xs"
  by (simp_all add: dll_def upd_buf_def)

lemma upd_buf_simps [simp]:
  "bufs (upd_buf i f s) = (bufs s)(i := f (bufs s i))" "disk (upd_buf i f s) = disk s" "wlog (upd_buf i f s) = wlog s"
  "nxt (upd_buf i f s) = nxt s" "prv (upd_buf i f s) = prv s"
  by (simp_all add: upd_buf_def)

text \<open>Changing one buffer, which stays in use, keeps the invariant as long as it does not collide.\<close>

lemma binv_upd_used:
  assumes "binv s" and "i < NBUF" and "0 < refcnt (f (bufs s i))"
    and "dev (f (bufs s i)) = ROOTDEV \<Longrightarrow> \<forall>j. cached s j (blockno (f (bufs s i))) \<longrightarrow> j = i"
  shows "binv (upd_buf i f s)"
proof -
  from binv_dll [OF assms(1)] obtain xs where xs: "dll s xs" "set xs = {..<NBUF}" by blast
  show ?thesis
  proof (rule binvI [of _ xs])
    fix n a b
    assume "cached (upd_buf i f s) a n" "cached (upd_buf i f s) b n"
    then show "a = b"
      using assms(4) binv_uniq [OF assms(1), of a n b] by (auto simp: cached_def split: if_splits)
  next
    fix a assume "a < NBUF"
    then show "0 \<le> refcnt (bufs (upd_buf i f s) a)" using binv_ref [OF assms(1)] assms(3) by simp
    assume "refcnt (bufs (upd_buf i f s) a) = 0"
    then show "slock (bufs (upd_buf i f s) a) = None \<and> clean (upd_buf i f s) a"
      using binv_free [OF assms(1) \<open>a < NBUF\<close>] assms(3) by (auto simp: clean_def split: if_splits)
  qed (use xs in auto)
qed

subsection \<open>Specifications of the operations\<close>

definition can_read :: "bsys \<Rightarrow> nat \<Rightarrow> bool" where
  "can_read s n \<longleftrightarrow>
     (case lookup s n of Some i \<Rightarrow> slock (bufs s i) = None | None \<Rightarrow> \<exists>i < NBUF. refcnt (bufs s i) = 0)"

text \<open>The result of a successful \<^verbatim>\<open>bread\<close>: buffer \<open>i\<close>, locked by the caller, with the block's
  contents; nothing else that can be observed changes.\<close>

definition got_buf :: "nat \<Rightarrow> nat \<Rightarrow> bsys \<Rightarrow> nat \<Rightarrow> bsys \<Rightarrow> bool" where
  "got_buf me n s i t \<longleftrightarrow>
     binv t \<and> cached t i n \<and> valid (bufs t i) \<and> data (bufs t i) = view s n \<and> slock (bufs t i) = Some me \<and>
     (\<forall>m. view t m = view s m) \<and> disk t = disk s \<and> wlog t = wlog s \<and>
     (\<forall>j. j \<noteq> i \<longrightarrow> bufs t j = bufs s j) \<and>
     (lookup s n = Some i \<and> refcnt (bufs t i) = refcnt (bufs s i) + 1 \<or>
      lookup s n = None \<and> refcnt (bufs s i) = 0 \<and> refcnt (bufs t i) = 1)"

lemma view_cached:
  assumes "binv s" and "cached s i n"
  shows "view s n = (if valid (bufs s i) then data (bufs s i) else disk s n)"
  using cached_lookup [OF assms] by (simp add: view_def)

lemma view_other:
  assumes "binv s" and "binv t" and "disk t = disk s"
    and "\<And>j. j \<noteq> i \<Longrightarrow> bufs t j = bufs s j" and "\<not> cached s i m" and "\<not> cached t i m"
  shows "view t m = view s m"
proof -
  have c: "cached t j m \<longleftrightarrow> cached s j m" for j
    using assms(4-6) by (cases "j = i") (auto simp: cached_def)
  show ?thesis
  proof (cases "lookup s m")
    case None
    then have "lookup t m = None" using c by (simp add: lookup_None)
    with None assms(3) show ?thesis by (simp add: view_def)
  next
    case (Some j)
    then have j: "cached s j m" "cached t j m" using lookup_cached c by blast+
    then have "j \<noteq> i" using assms(5) by auto
    then show ?thesis using view_cached [OF assms(1) j(1)] view_cached [OF assms(2) j(2)] assms(3,4) by simp
  qed
qed

lemma bread_hit:
  assumes "binv s" and "lookup s n = Some i" and "slock (bufs s i) = None"
  shows "\<exists>t. bread me ROOTDEV n s = Ok i t \<and> got_buf me n s i t"
proof -
  have c: "cached s i n" using lookup_cached [OF assms(2)] .
  then have i: "i < NBUF" "dev (bufs s i) = ROOTDEV" "blockno (bufs s i) = n" by (auto simp: cached_def)
  define f where "f x = x\<lparr>refcnt := refcnt x + 1, slock := Some me,
      data := (if valid x then data x else disk s n), valid := True\<rparr>" for x :: buf
  have "bget me ROOTDEV n s = Ok i (upd_buf i (\<lambda>x. x\<lparr>slock := Some me\<rparr>) (upd_buf i (\<lambda>x. x\<lparr>refcnt := refcnt x + 1\<rparr>) s))"
    using scan_nxt [OF assms(1)] assms(2,3) by (simp add: bget_def lock_buf_def acquiresleep_def)
  then have r: "bread me ROOTDEV n s = Ok i (upd_buf i f s)"
    using i by (auto simp: bread_def disk_rw_def upd_buf_def f_def fun_eq_iff)
  have b: "binv (upd_buf i f s)"
  proof (rule binv_upd_used [OF assms(1) i(1)])
    show "0 < refcnt (f (bufs s i))" using binv_ref [OF assms(1) i(1)] by (simp add: f_def)
    show "\<forall>j. cached s j (blockno (f (bufs s i))) \<longrightarrow> j = i"
      using binv_uniq [OF assms(1) _ c] i by (simp add: f_def)
  qed
  have c': "cached (upd_buf i f s) i n" using i by (simp add: cached_def f_def)
  have "view (upd_buf i f s) m = view s m" for m
  proof (cases "m = n")
    case True
    then show ?thesis using view_cached [OF assms(1) c] view_cached [OF b c'] by (simp add: f_def)
  next
    case False
    then show ?thesis using i by (intro view_other [OF assms(1) b, of i]) (auto simp: cached_def f_def)
  qed
  then have "got_buf me n s i (upd_buf i f s)"
    using b c' i assms(2) view_cached [OF assms(1) c] by (simp add: got_buf_def f_def)
  with r show ?thesis by blast
qed

lemma bread_miss:
  assumes "binv s" and "lookup s n = None" and "k < NBUF" and "refcnt (bufs s k) = 0"
  shows "\<exists>i t. bread me ROOTDEV n s = Ok i t \<and> got_buf me n s i t"
proof -
  from scan_prv [OF assms(1,3,4)] obtain i where
    i: "scan_chain (Suc NBUF) (prv s) (\<lambda>b. refcnt (bufs s b) = 0) (prv s HEAD) = Some i" "i < NBUF" "refcnt (bufs s i) = 0"
    by blast
  note fr = binv_free [OF assms(1) i(2,3)]
  define f where "f x = x\<lparr>dev := ROOTDEV, blockno := n, refcnt := 1, slock := Some me, data := disk s n, valid := True\<rparr>" for x :: buf
  have "bget me ROOTDEV n s = Ok i (upd_buf i (\<lambda>x. x\<lparr>slock := Some me\<rparr>)
      (upd_buf i (\<lambda>x. x\<lparr>dev := ROOTDEV, blockno := n, valid := False, refcnt := 1\<rparr>) s))"
    using scan_nxt [OF assms(1)] assms(2) i fr by (simp add: bget_def lock_buf_def acquiresleep_def)
  then have r: "bread me ROOTDEV n s = Ok i (upd_buf i f s)"
    by (simp add: bread_def disk_rw_def upd_buf_def f_def)
  have nc: "\<not> cached s j n" for j using assms(2) by (simp add: lookup_None)
  have b: "binv (upd_buf i f s)"
    by (rule binv_upd_used [OF assms(1) i(2)]) (simp_all add: f_def nc)
  have c': "cached (upd_buf i f s) i n" using i by (simp add: cached_def f_def)
  have "view (upd_buf i f s) m = view s m" for m
  proof -
    consider (new) "m = n" | (old) "m \<noteq> n" "cached s i m" | (rest) "m \<noteq> n" "\<not> cached s i m" by blast
    then show ?thesis
    proof cases
      case new
      then show ?thesis using view_cached [OF b c'] assms(2) by (simp add: f_def view_def)
    next
      case old
      have "\<not> cached (upd_buf i f s) j m" for j
      proof
        assume j: "cached (upd_buf i f s) j m"
        then have "j \<noteq> i" using old(1) by (auto simp: cached_def f_def)
        with j have "cached s j m" by (simp add: cached_def)
        with binv_uniq [OF assms(1) this old(2)] \<open>j \<noteq> i\<close> show False by simp
      qed
      then have "lookup (upd_buf i f s) m = None" by (simp add: lookup_None)
      moreover have "view s m = disk s m"
        using view_cached [OF assms(1) old(2)] fr old(2) by (auto simp: clean_def cached_def)
      ultimately show ?thesis by (simp add: view_def)
    next
      case rest
      then show ?thesis by (intro view_other [OF assms(1) b, of i]) (auto simp: cached_def f_def)
    qed
  qed
  moreover have "view s n = disk s n" using assms(2) by (simp add: view_def)
  ultimately have "got_buf me n s i (upd_buf i f s)"
    using b c' i assms(2) by (simp add: got_buf_def f_def)
  with r show ?thesis by blast
qed

lemma bread_ok:
  assumes "binv s" and "can_read s n"
  shows "\<exists>i t. bread me ROOTDEV n s = Ok i t \<and> got_buf me n s i t"
proof (cases "lookup s n")
  case None
  then show ?thesis using bread_miss [OF assms(1) None] assms(2) by (auto simp: can_read_def)
next
  case (Some i)
  then show ?thesis using bread_hit [OF assms(1) Some, of me] assms(2) by (auto simp: can_read_def)
qed

lemma link_front_fields [simp]:
  "bufs (link_front b s) = bufs s" "disk (link_front b s) = disk s" "wlog (link_front b s) = wlog s"
  "bufs (unlink b s) = bufs s" "disk (unlink b s) = disk s" "wlog (unlink b s) = wlog s"
  by (simp_all add: link_front_def unlink_def Let_def)

lemma brelse_ok:
  assumes "binv s" and "i < NBUF" and "slock (bufs s i) = Some me" and "0 < refcnt (bufs s i)"
    and "refcnt (bufs s i) = 1 \<longrightarrow> clean s i"
  shows "\<exists>t. brelse me i s = Ok () t \<and> binv t \<and> disk t = disk s \<and> wlog t = wlog s \<and>
             bufs t = (bufs s)(i := (bufs s i)\<lparr>slock := None, refcnt := refcnt (bufs s i) - 1\<rparr>)"
proof -
  define u where "u = upd_buf i (\<lambda>x. x\<lparr>slock := None, refcnt := refcnt x - 1\<rparr>) (s\<lparr>bps := wakeup (SleepChan i) (Some me) (bps s)\<rparr>)"
  define t where "t = (if refcnt (bufs s i) = 1 then link_front i (unlink i u) else u)"
  have r: "brelse me i s = Ok () t"
    using assms(3) by (simp add: brelse_def holdingsleep_def releasesleep_def Let_def t_def u_def upd_buf_def)
  have bt: "bufs t = (bufs s)(i := (bufs s i)\<lparr>slock := None, refcnt := refcnt (bufs s i) - 1\<rparr>)"
    and dt: "disk t = disk s" "wlog t = wlog s" by (simp_all add: t_def u_def)
  from binv_dll [OF assms(1)] obtain xs where xs: "dll s xs" "set xs = {..<NBUF}" by blast
  have dx: "\<exists>ys. dll t ys \<and> set ys = {..<NBUF}"
  proof (cases "refcnt (bufs s i) = 1")
    case False
    then show ?thesis using xs by (auto simp: t_def u_def)
  next
    case True
    have "i \<in> set xs" using assms(2) xs(2) by simp
    then obtain us vs where s: "xs = us @ i # vs" by (meson split_list)
    have "dll u (us @ i # vs)" using xs(1) s by (simp add: u_def)
    from dll_unlink [OF this] have "dll (unlink i u) (us @ vs)" .
    moreover have "i \<notin> set (us @ vs)" "i \<noteq> HEAD" using xs(1) s by (auto simp: dll_def)
    ultimately have "dll t (i # us @ vs)" using dll_link_front True by (simp add: t_def)
    moreover have "set (i # us @ vs) = {..<NBUF}" using xs(2) s by auto
    ultimately show ?thesis by blast
  qed
  then obtain ys where ys: "dll t ys" "set ys = {..<NBUF}" by blast
  have "binv t"
  proof (rule binvI [OF ys])
    have "cached t a n \<longleftrightarrow> cached s a n" for a n by (simp add: cached_def bt)
    then show "a = b" if "cached t a n" "cached t b n" for a b n
      using binv_uniq [OF assms(1)] that by blast
    show "0 \<le> refcnt (bufs t a)" if "a < NBUF" for a
      using binv_ref [OF assms(1) that] assms(4) bt by (auto split: if_splits)
    show "slock (bufs t a) = None \<and> clean t a" if "a < NBUF" "refcnt (bufs t a) = 0" for a
      using binv_free [OF assms(1) that(1)] assms(5) that(2) bt dt by (auto simp: clean_def split: if_splits)
  qed
  with r bt dt show ?thesis by blast
qed

text \<open>\<^verbatim>\<open>binit\<close> links the buffers one after the other, so the last one ends up at the front.\<close>

lemma binit_loop:
  assumes "dll s0 []" and "k \<le> NBUF"
  defines "r \<equiv> fold (\<lambda>b s. upd_buf b (\<lambda>x. x\<lparr>slock := initsleeplock\<rparr>) (link_front b s)) [0..<k] s0"
  shows "dll r (rev [0..<k]) \<and> bufs r = (\<lambda>i. if i < k then (bufs s0 i)\<lparr>slock := None\<rparr> else bufs s0 i) \<and>
         disk r = disk s0 \<and> wlog r = wlog s0"
  using assms(2) unfolding r_def
proof (induction k)
  case 0
  then show ?case using assms(1) by simp
next
  case (Suc k)
  let ?r = "fold (\<lambda>b s. upd_buf b (\<lambda>x. x\<lparr>slock := initsleeplock\<rparr>) (link_front b s)) [0..<k] s0"
  have ih: "dll ?r (rev [0..<k])" "bufs ?r = (\<lambda>i. if i < k then (bufs s0 i)\<lparr>slock := None\<rparr> else bufs s0 i)"
    "disk ?r = disk s0" "wlog ?r = wlog s0"
    using Suc by auto
  have "dll (link_front k ?r) (k # rev [0..<k])"
    using Suc.prems by (intro dll_link_front [OF ih(1)]) (auto simp: HEAD_def NBUF_def)
  then show ?case using ih by (auto simp: fun_eq_iff initsleeplock_def less_Suc_eq)
qed

lemma binit_dll:
  "dll (binit s) (rev [0..<NBUF])" "bufs (binit s) i = (if i < NBUF then (bufs s i)\<lparr>slock := None\<rparr> else bufs s i)"
  "disk (binit s) = disk s" "wlog (binit s) = wlog s"
proof -
  define s0 where "s0 = s\<lparr>prv := (prv s)(HEAD := HEAD), nxt := (nxt s)(HEAD := HEAD)\<rparr>"
  have "dll s0 []" "bufs s0 = bufs s" "disk s0 = disk s" "wlog s0 = wlog s" by (simp_all add: s0_def dll_def)
  with binit_loop [of s0 NBUF] show "dll (binit s) (rev [0..<NBUF])"
    "bufs (binit s) i = (if i < NBUF then (bufs s i)\<lparr>slock := None\<rparr> else bufs s i)"
    "disk (binit s) = disk s" "wlog (binit s) = wlog s"
    unfolding binit_def s0_def [symmetric] by auto
qed

text \<open>After \<^verbatim>\<open>binit\<close> on zeroed buffers the invariant holds and every block is seen as on disk.\<close>

lemma binit_inv:
  assumes "\<And>i. i < NBUF \<Longrightarrow> dev (bufs s i) = 0 \<and> refcnt (bufs s i) = 0"
  shows "binv (binit s)" and "view (binit s) n = disk s n" and "lookup (binit s) n = None"
proof -
  note b = binit_dll(2) [of s] binit_dll(3) [of s]
  show "binv (binit s)"
    by (rule binvI [OF binit_dll(1)]) (auto simp: b assms cached_def clean_def ROOTDEV_def)
  show l: "lookup (binit s) n = None" by (auto simp: lookup_None cached_def b assms ROOTDEV_def)
  show "view (binit s) n = disk s n" using l by (simp add: view_def b)
qed

subsection \<open>Properties of the block cache\<close>

definition idle_proc :: proc where
  "idle_proc = \<lparr>pstate = UNUSED, chan = NoChan, killed = False, xstate = 0, pid = 0, parent = None, kstack = 0, sz = 0,
     pagetable = 0, trapframe = 0, ctx_ra = 0, ctx_sp = 0, ofile = (\<lambda>_. None), cwd = None, pname = []\<rparr>"

definition zero_bsys :: "(nat \<Rightarrow> blk) \<Rightarrow> bsys" where
  "zero_bsys d = \<lparr>bufs = (\<lambda>_. \<lparr>valid = False, dev = 0, blockno = 0, refcnt = 0, slock = None, data = (\<lambda>_. 0)\<rparr>),
     nxt = (\<lambda>_. 0), prv = (\<lambda>_. 0), disk = d, wlog = [], bps = (\<lambda>_. idle_proc)\<rparr>"

lemma zero_bsys_binit:
  "binv (binit (zero_bsys d))" "view (binit (zero_bsys d)) n = d n" "lookup (binit (zero_bsys d)) n = None"
  "i < NBUF \<Longrightarrow> refcnt (bufs (binit (zero_bsys d)) i) = 0"
  using binit_inv [of "zero_bsys d"] by (simp_all add: zero_bsys_def binit_dll)

text \<open>C23. \<^verbatim>\<open>bread\<close> of a block whose buffer is not locked (or, if it is not cached, while some buffer is
  unused) returns a buffer locked by the caller with the current contents of the block, whether
  they are in the cache or on disk; it evicts no modified data, no other buffer changes and the
  contents of every block stay as they were. At most one buffer holds a block.\<close>

theorem bread_contract:
  assumes "binv s" and "can_read s n"
  shows "\<exists>i t. bread me ROOTDEV n s = Ok i t \<and> got_buf me n s i t"
  using assms by (rule bread_ok)

theorem bread_contract_witness:
  "\<exists>i t. bread 3 ROOTDEV 7 (binit (zero_bsys (\<lambda>n _. of_nat n))) = Ok i t \<and>
         got_buf 3 7 (binit (zero_bsys (\<lambda>n _. of_nat n))) i t"
proof (rule bread_contract)
  show "can_read (binit (zero_bsys (\<lambda>n _. of_nat n))) 7"
    using zero_bsys_binit(4) [of 0 "\<lambda>n _. of_nat n"] by (auto simp: can_read_def zero_bsys_binit NBUF_def intro!: exI [of _ 0])
qed (rule zero_bsys_binit)

lemma scan_first_split:
  "scan_first P xs = Some j \<Longrightarrow> \<exists>ps qs. xs = ps @ j # qs \<and> P j \<and> (\<forall>q \<in> set ps. \<not> P q)"
proof (induction xs)
  case (Cons x xs)
  show ?case
  proof (cases "P x")
    case True
    then show ?thesis using Cons.prems by (intro exI [of _ "[]"] exI [of _ xs]) auto
  next
    case False
    then obtain ps qs where "xs = ps @ j # qs" "P j" "\<forall>q \<in> set ps. \<not> P q" using Cons by auto
    then show ?thesis using False by (intro exI [of _ "x # ps"] exI [of _ qs]) auto
  qed
qed simp

lemma lock_buf_index: "lock_buf me b s = Ok j t \<Longrightarrow> j = b"
  by (auto simp: lock_buf_def split: res.splits)

lemma bread_index: "bread me d n s = Ok j u \<Longrightarrow> \<exists>v. bget me d n s = Ok j v"
  by (cases "bget me d n s") (auto simp: bread_def split: if_splits)

lemma bread_takes_last:
  assumes "binv s" and "dll s xs" and "set xs = {..<NBUF}" and "lookup s n = None" and "k < NBUF" and "refcnt (bufs s k) = 0"
  shows "\<exists>j u ps qs. bread me ROOTDEV n s = Ok j u \<and> xs = ps @ j # qs \<and> refcnt (bufs s j) = 0 \<and>
           (\<forall>q \<in> set qs. refcnt (bufs s q) \<noteq> 0) \<and> cached u j n"
proof -
  let ?P = "\<lambda>b. refcnt (bufs s b) = 0"
  obtain j u where r: "bread me ROOTDEV n s = Ok j u" "cached u j n"
    using bread_miss [OF assms(1,4-6), of me] by (auto simp: got_buf_def)
  have l: "length (rev xs) < Suc NBUF" using dll_length [OF assms(2,3)] by simp
  have "scan_chain (Suc NBUF) (prv s) ?P (prv s HEAD) = scan_first ?P (rev xs)"
    using assms(2) by (intro scan_chain_path [OF _ _ l]) (simp_all add: dll_def)
  moreover have "scan_chain (Suc NBUF) (prv s) ?P (prv s HEAD) = Some j"
  proof (cases "scan_chain (Suc NBUF) (prv s) ?P (prv s HEAD)")
    case None
    then have "bget me ROOTDEV n s = Panic ''bget: no buffers''"
      using scan_nxt [OF assms(1), of n] assms(4) by (simp add: bget_def)
    then show ?thesis using r(1) by (simp add: bread_def)
  next
    case (Some b)
    then have "bget me ROOTDEV n s = lock_buf me b (upd_buf b (\<lambda>x. x\<lparr>dev := ROOTDEV, blockno := n, valid := False, refcnt := 1\<rparr>) s)"
      using scan_nxt [OF assms(1), of n] assms(4) by (simp add: bget_def)
    then have "b = j" using bread_index [OF r(1)] lock_buf_index by metis
    with Some show ?thesis by simp
  qed
  ultimately have "scan_first ?P (rev xs) = Some j" by simp
  from scan_first_split [OF this] obtain ps qs where
    p: "rev xs = ps @ j # qs" "?P j" "\<forall>q \<in> set ps. \<not> ?P q" by blast
  have "xs = rev qs @ j # rev ps" using arg_cong [OF p(1), of rev] by simp
  moreover have "\<forall>q \<in> set (rev ps). \<not> ?P q" using p(3) by simp
  ultimately show ?thesis using r p(2) by blast
qed

text \<open>The last \<^verbatim>\<open>brelse\<close> of a buffer makes it the most recently used one and keeps the order
  of the others; a later \<^verbatim>\<open>bread\<close> of a block that is not cached reuses the unused buffer
  nearest to the least recently used end: every buffer behind the chosen one is in use.\<close>

theorem bcache_lru:
  assumes "binv s" and "dll s (us @ i # vs)" and "set (us @ i # vs) = {..<NBUF}"
    and "slock (bufs s i) = Some me" and "refcnt (bufs s i) = 1" and "clean s i"
    and "lookup s n = None"
  shows "\<exists>t. brelse me i s = Ok () t \<and> dll t (i # us @ vs) \<and>
           (\<exists>j u ps qs. bread me ROOTDEV n t = Ok j u \<and> i # us @ vs = ps @ j # qs \<and>
                refcnt (bufs t j) = 0 \<and> (\<forall>q \<in> set qs. refcnt (bufs t q) \<noteq> 0) \<and> cached u j n)"
proof -
  have i: "i < NBUF" using assms(3) by auto
  obtain t where t: "brelse me i s = Ok () t" "binv t"
      "bufs t = (bufs s)(i := (bufs s i)\<lparr>slock := None, refcnt := refcnt (bufs s i) - 1\<rparr>)"
    using brelse_ok [OF assms(1) i assms(4)] assms(5,6) by auto
  define v where "v = upd_buf i (\<lambda>x. x\<lparr>slock := None, refcnt := refcnt x - 1\<rparr>) (s\<lparr>bps := wakeup (SleepChan i) (Some me) (bps s)\<rparr>)"
  have tv: "t = link_front i (unlink i v)"
    using t(1) assms(4,5) by (simp add: brelse_def holdingsleep_def releasesleep_def Let_def v_def upd_buf_def)
  have "dll v (us @ i # vs)" using assms(2) by (simp add: v_def)
  then have "dll (unlink i v) (us @ vs)" by (rule dll_unlink)
  then have d: "dll t (i # us @ vs)" unfolding tv using assms(2) by (intro dll_link_front) (auto simp: dll_def)
  have st: "set (i # us @ vs) = {..<NBUF}" using assms(3) by auto
  have rt: "refcnt (bufs t i) = 0" using t(3) assms(5) by simp
  have "\<not> cached t j n" for j using assms(7) t(3) by (auto simp: lookup_None cached_def split: if_splits)
  then have lt: "lookup t n = None" by (simp add: lookup_None)
  from bread_takes_last [OF t(2) d st lt i rt] show ?thesis using t(1) d by blast
qed

text \<open>A cache whose buffer 0 holds block 9 and is locked by process 3, the others being unused.\<close>

definition demo_bsys :: bsys where
  "demo_bsys = upd_buf 0 (\<lambda>x. x\<lparr>dev := ROOTDEV, blockno := 9, refcnt := 1, slock := Some 3, valid := True\<rparr>)
     (binit (zero_bsys (\<lambda>_ _. 0)))"

lemma demo_bsys_facts:
  "binv demo_bsys" "dll demo_bsys (rev [1..<NBUF] @ 0 # [])" "set (rev [1..<NBUF] @ 0 # []) = {..<NBUF}"
  "slock (bufs demo_bsys 0) = Some 3" "refcnt (bufs demo_bsys 0) = 1" "clean demo_bsys 0" "lookup demo_bsys 5 = None"
proof -
  have z: "bufs (binit (zero_bsys (\<lambda>_ _. 0))) i = \<lparr>valid = False, dev = 0, blockno = 0, refcnt = 0, slock = None, data = (\<lambda>_. 0)\<rparr>" for i
    using binit_dll(2) [of "zero_bsys (\<lambda>_ _. 0)" i] by (simp add: zero_bsys_def)
  have zd: "disk (binit (zero_bsys (\<lambda>_ _. 0))) = (\<lambda>_ _. 0)" by (simp add: binit_dll) (simp add: zero_bsys_def)
  show "binv demo_bsys" unfolding demo_bsys_def
    by (rule binv_upd_used [OF zero_bsys_binit(1)]) (simp_all add: NBUF_def cached_def z ROOTDEV_def)
  have "rev [0..<NBUF] = rev [1..<NBUF] @ 0 # []" by (simp add: upt_conv_Cons NBUF_def)
  then show "dll demo_bsys (rev [1..<NBUF] @ 0 # [])" using binit_dll(1) [of "zero_bsys (\<lambda>_ _. 0)"] by (simp add: demo_bsys_def)
  show "set (rev [1..<NBUF] @ 0 # []) = {..<NBUF}" by (auto simp: NBUF_def)
  show "lookup demo_bsys 5 = None" by (auto simp: lookup_None cached_def demo_bsys_def z ROOTDEV_def)
qed (simp_all add: demo_bsys_def clean_def binit_dll zero_bsys_def)

theorem bcache_lru_witness:
  "\<exists>t. brelse 3 0 demo_bsys = Ok () t \<and> dll t (0 # rev [1..<NBUF] @ []) \<and>
     (\<exists>j u ps qs. bread 3 ROOTDEV 5 t = Ok j u \<and> 0 # rev [1..<NBUF] @ [] = ps @ j # qs \<and>
        refcnt (bufs t j) = 0 \<and> (\<forall>q \<in> set qs. refcnt (bufs t q) \<noteq> 0) \<and> cached u j 5)"
  by (rule bcache_lru [OF demo_bsys_facts])

end
