(* ===== verification/Blocks.thy ===== *)
theory Blocks
  imports Bio
begin

section \<open>The block layer as an interface\<close>

text \<open>
  What the clients of the block cache (the log and the file system) rely on. The locale
  \<open>block_layer\<close> fixes the operations and an abstract view of the state: \<open>P\<close> the pinned blocks,
  \<open>H\<close> the blocks whose buffers the caller holds, what is seen of each block, the disk, and the
  sequence of writes so far. The interpretation \<open>bc\<close> proves the laws for \<^verbatim>\<open>bio.c\<close>.
\<close>

subsection \<open>The abstract view of the cache\<close>

definition in_set :: "bsys \<Rightarrow> nat \<Rightarrow> nat set \<Rightarrow> bool" where
  "in_set s i S \<longleftrightarrow> dev (bufs s i) = ROOTDEV \<and> blockno (bufs s i) \<in> S"

definition cst :: "nat \<Rightarrow> nat set \<Rightarrow> nat set \<Rightarrow> bsys \<Rightarrow> bool" where
  "cst me P H s \<longleftrightarrow> binv s \<and>
     (\<forall>i < NBUF. refcnt (bufs s i) = (if in_set s i P then 1 else 0) + (if in_set s i H then 1 else 0) \<and>
                 slock (bufs s i) = (if in_set s i H then Some me else None)) \<and>
     (\<forall>n \<in> P \<union> H. \<exists>i. cached s i n \<and> valid (bufs s i))"

definition set_data :: "nat \<Rightarrow> blk \<Rightarrow> bsys \<Rightarrow> bsys" where
  "set_data b x s = upd_buf b (\<lambda>y. y\<lparr>data := x\<rparr>) s"

definition get_data :: "nat \<Rightarrow> bsys \<Rightarrow> blk" where
  "get_data b s = data (bufs s b)"

locale block_layer =
  fixes rd :: "nat \<Rightarrow> 's \<Rightarrow> (nat, 's) res" and wr rel :: "nat \<Rightarrow> 's \<Rightarrow> (unit, 's) res"
    and pin unpin :: "nat \<Rightarrow> 's \<Rightarrow> 's"
    and get :: "nat \<Rightarrow> 's \<Rightarrow> blk" and put :: "nat \<Rightarrow> blk \<Rightarrow> 's \<Rightarrow> 's"
    and at :: "'s \<Rightarrow> nat \<Rightarrow> nat \<Rightarrow> bool" and ok :: "nat set \<Rightarrow> nat set \<Rightarrow> 's \<Rightarrow> bool"
    and seen dsk :: "'s \<Rightarrow> nat \<Rightarrow> blk" and writes :: "'s \<Rightarrow> (nat \<times> blk) list" and cap :: nat
  assumes rd_ok: "ok P H s \<Longrightarrow> n \<notin> H \<Longrightarrow> n \<in> P \<or> card (P \<union> H) < cap \<Longrightarrow>
      \<exists>b t. rd n s = Ok b t \<and> ok P (insert n H) t \<and> at t b n \<and> seen t = seen s \<and> dsk t = dsk s \<and>
            writes t = writes s \<and> (\<forall>c m. m \<in> P \<union> H \<longrightarrow> at s c m \<longrightarrow> at t c m)"
    and get_seen: "ok P H s \<Longrightarrow> n \<in> H \<Longrightarrow> at s b n \<Longrightarrow> get b s = seen s n"
    and put_ok: "ok P H s \<Longrightarrow> n \<in> H \<Longrightarrow> at s b n \<Longrightarrow>
      ok P H (put b x s) \<and> seen (put b x s) = (seen s)(n := x) \<and> dsk (put b x s) = dsk s \<and>
      writes (put b x s) = writes s \<and> at (put b x s) = at s"
    and wr_ok: "ok P H s \<Longrightarrow> n \<in> H \<Longrightarrow> at s b n \<Longrightarrow>
      \<exists>t. wr b s = Ok () t \<and> ok P H t \<and> seen t = seen s \<and> dsk t = (dsk s)(n := seen s n) \<and>
          writes t = writes s @ [(n, seen s n)] \<and> at t = at s"
    and rel_ok: "ok P H s \<Longrightarrow> n \<in> H \<Longrightarrow> at s b n \<Longrightarrow> n \<in> P \<or> seen s n = dsk s n \<Longrightarrow>
      \<exists>t. rel b s = Ok () t \<and> ok P (H - {n}) t \<and> seen t = seen s \<and> dsk t = dsk s \<and>
          writes t = writes s \<and> at t = at s"
    and pin_ok: "ok P H s \<Longrightarrow> n \<in> H \<Longrightarrow> n \<notin> P \<Longrightarrow> at s b n \<Longrightarrow>
      ok (insert n P) H (pin b s) \<and> seen (pin b s) = seen s \<and> dsk (pin b s) = dsk s \<and>
      writes (pin b s) = writes s \<and> at (pin b s) = at s"
    and unpin_ok: "ok P H s \<Longrightarrow> n \<in> H \<Longrightarrow> n \<in> P \<Longrightarrow> at s b n \<Longrightarrow>
      ok (P - {n}) H (unpin b s) \<and> seen (unpin b s) = seen s \<and> dsk (unpin b s) = dsk s \<and>
      writes (unpin b s) = writes s \<and> at (unpin b s) = at s"
    and unheld: "ok P H s \<Longrightarrow> n \<notin> P \<Longrightarrow> n \<notin> H \<Longrightarrow> seen s n = dsk s n"
begin

text \<open>Read a block, change it, write it through and release it.\<close>

lemma read_modify_write:
  assumes "ok P {} s" and "n \<in> P \<or> card P < cap"
  shows "\<exists>t. seqr (rd n s) (\<lambda>b s. seqr (wr b (put b (f (get b s)) s)) (\<lambda>_ s. rel b s)) = Ok () t \<and>
      ok P {} t \<and> seen t = (seen s)(n := f (seen s n)) \<and> dsk t = (dsk s)(n := f (seen s n)) \<and>
      writes t = writes s @ [(n, f (seen s n))]"
proof -
  obtain b t1 where 1: "rd n s = Ok b t1" "ok P {n} t1" "at t1 b n" "seen t1 = seen s" "dsk t1 = dsk s" "writes t1 = writes s"
    using rd_ok [OF assms(1), of n] assms(2) by auto
  define t2 where "t2 = put b (f (seen s n)) t1"
  have g: "get b t1 = seen s n" using get_seen [OF 1(2) _ 1(3)] 1(4) by simp
  have 2: "ok P {n} t2" "at t2 b n" "seen t2 = (seen s)(n := f (seen s n))" "dsk t2 = dsk s" "writes t2 = writes s"
    using put_ok [OF 1(2) _ 1(3), of "f (seen s n)"] 1 by (simp_all add: t2_def)
  obtain t3 where 3: "wr b t2 = Ok () t3" "ok P {n} t3" "at t3 b n" "seen t3 = seen t2" "dsk t3 = (dsk s)(n := f (seen s n))"
      "writes t3 = writes s @ [(n, f (seen s n))]"
    using wr_ok [OF 2(1) _ 2(2)] 2 by auto
  obtain t4 where 4: "rel b t3 = Ok () t4" "ok P {} t4" "seen t4 = seen t3" "dsk t4 = dsk t3" "writes t4 = writes t3"
    using rel_ok [OF 3(2) _ 3(3)] 2 3 by auto
  show ?thesis using 1 2 3 4 g t2_def by (intro exI [of _ t4]) simp
qed

text \<open>Hold two buffers; write one through with new contents; release both.\<close>

lemma read_two:
  assumes "ok P {} s" and "m \<noteq> n" and "m \<in> P \<or> card P < cap" and "n \<in> P \<or> card (insert m P) < cap"
  shows "\<exists>b t1 c t2. rd m s = Ok b t1 \<and> rd n t1 = Ok c t2 \<and> ok P {m, n} t2 \<and> at t2 b m \<and> at t2 c n \<and>
      get b t2 = seen s m \<and> get c t2 = seen s n \<and> seen t2 = seen s \<and> dsk t2 = dsk s \<and> writes t2 = writes s"
proof -
  obtain b t1 where 1: "rd m s = Ok b t1" "ok P {m} t1" "at t1 b m" "seen t1 = seen s" "dsk t1 = dsk s" "writes t1 = writes s"
    using rd_ok [OF assms(1), of m] assms(3) by auto
  obtain c t2 where 2: "rd n t1 = Ok c t2" "ok P {n, m} t2" "at t2 c n" "seen t2 = seen s" "dsk t2 = dsk s" "writes t2 = writes s" "at t2 b m"
    using rd_ok [OF 1(2), of n] assms(2,4) 1 by auto
  have "get b t2 = seen s m" "get c t2 = seen s n"
    using get_seen [OF 2(2) _ 2(7)] get_seen [OF 2(2) _ 2(3)] 2(4) by simp_all
  with 1 2 show ?thesis by (intro exI) (auto simp: insert_commute)
qed

lemma write_through:
  assumes "ok P H s" and "n \<in> H" and "at s b n"
  shows "\<exists>t. wr b (put b x s) = Ok () t \<and> ok P H t \<and> seen t = (seen s)(n := x) \<and> dsk t = (dsk s)(n := x) \<and>
      writes t = writes s @ [(n, x)] \<and> at t = at s"
proof -
  have p: "ok P H (put b x s)" "seen (put b x s) = (seen s)(n := x)" "dsk (put b x s) = dsk s"
    "writes (put b x s) = writes s" "at (put b x s) = at s"
    using put_ok [OF assms] by simp_all
  then show ?thesis using wr_ok [OF p(1) assms(2)] assms(3) by auto
qed

lemma release_two:
  assumes "ok P {m, n} s" and "m \<noteq> n" and "at s b m" and "at s c n"
    and "m \<in> P \<or> seen s m = dsk s m" and "n \<in> P \<or> seen s n = dsk s n"
  shows "\<exists>t. seqr (rel b s) (\<lambda>_ s. rel c s) = Ok () t \<and> ok P {} t \<and> seen t = seen s \<and> dsk t = dsk s \<and> writes t = writes s"
proof -
  obtain t1 where 1: "rel b s = Ok () t1" "ok P ({m, n} - {m}) t1" "seen t1 = seen s" "dsk t1 = dsk s" "writes t1 = writes s" "at t1 = at s"
    using rel_ok [OF assms(1) _ assms(3)] assms(5) by auto
  have "{m, n} - {m} = {n}" using assms(2) by auto
  then obtain t2 where 2: "rel c t1 = Ok () t2" "ok P {} t2" "seen t2 = seen s" "dsk t2 = dsk s" "writes t2 = writes s"
    using rel_ok [of P "{n}" t1 n c] 1 assms(4,6) by auto
  show ?thesis using 1 2 by simp
qed

end

subsection \<open>The block cache provides it\<close>

lemma cst_binv: "cst me P H s \<Longrightarrow> binv s"
  and cst_ref: "cst me P H s \<Longrightarrow> i < NBUF \<Longrightarrow>
     refcnt (bufs s i) = (if in_set s i P then 1 else 0) + (if in_set s i H then 1 else 0)"
  and cst_lock: "cst me P H s \<Longrightarrow> i < NBUF \<Longrightarrow> slock (bufs s i) = (if in_set s i H then Some me else None)"
  and cst_held: "cst me P H s \<Longrightarrow> n \<in> P \<union> H \<Longrightarrow> \<exists>i. cached s i n \<and> valid (bufs s i)"
  unfolding cst_def by blast+

lemma cst_at:
  assumes "cst me P H s" and "n \<in> P \<union> H" and "cached s b n"
  shows "valid (bufs s b)" and "view s n = data (bufs s b)" and "b < NBUF" and "in_set s b S \<longleftrightarrow> n \<in> S"
proof -
  obtain i where i: "cached s i n" "valid (bufs s i)" using cst_held [OF assms(1,2)] by blast
  have "i = b" using binv_uniq [OF cst_binv [OF assms(1)] i(1) assms(3)] .
  then show "valid (bufs s b)" using i by simp
  then show "view s n = data (bufs s b)" using view_cached [OF cst_binv [OF assms(1)] assms(3)] by simp
  show "b < NBUF" "in_set s b S \<longleftrightarrow> n \<in> S" using assms(3) by (auto simp: cached_def in_set_def)
qed

lemma cst_room:
  assumes "cst me P H s" and "card (P \<union> H) < NBUF"
  shows "\<exists>i < NBUF. refcnt (bufs s i) = 0"
proof (rule ccontr)
  assume "\<not> ?thesis"
  then have used: "in_set s i (P \<union> H)" if "i < NBUF" for i
    using cst_ref [OF assms(1) that] that by (auto simp: in_set_def split: if_splits)
  have fin: "finite (P \<union> H)"
  proof (rule finite_subset)
    show "P \<union> H \<subseteq> (\<lambda>i. blockno (bufs s i)) ` {..<NBUF}"
      using cst_held [OF assms(1)] by (force simp: cached_def)
  qed simp
  have "inj_on (\<lambda>i. blockno (bufs s i)) {..<NBUF}"
  proof (rule inj_onI)
    fix i j assume ij: "i \<in> {..<NBUF}" "j \<in> {..<NBUF}" "blockno (bufs s i) = blockno (bufs s j)"
    then have "cached s i (blockno (bufs s i))" "cached s j (blockno (bufs s i))"
      using used [of i] used [of j] by (simp_all add: cached_def in_set_def)
    then show "i = j" by (rule binv_uniq [OF cst_binv [OF assms(1)]])
  qed
  moreover have "(\<lambda>i. blockno (bufs s i)) ` {..<NBUF} \<subseteq> P \<union> H" using used by (auto simp: in_set_def)
  ultimately have "card {..<NBUF} \<le> card (P \<union> H)" using fin by (intro card_inj_on_le)
  then show False using assms(2) by simp
qed

lemma cst_clean:
  assumes "cst me P H s" and "n \<notin> P" and "n \<notin> H"
  shows "view s n = disk s n"
proof (cases "lookup s n")
  case None
  then show ?thesis by (simp add: view_def)
next
  case (Some i)
  then have c: "cached s i n" by (rule lookup_cached)
  then have "i < NBUF" "refcnt (bufs s i) = 0" using cst_ref [OF assms(1), of i] assms(2,3) by (auto simp: cached_def in_set_def)
  from binv_free [OF cst_binv [OF assms(1)] this] c show ?thesis
    using view_cached [OF cst_binv [OF assms(1)] c] by (auto simp: clean_def cached_def)
qed

lemma bread_cst:
  assumes "cst me P H s" and "n \<notin> H" and "n \<in> P \<or> card (P \<union> H) < NBUF"
  shows "\<exists>b t. bread me ROOTDEV n s = Ok b t \<and> cst me P (insert n H) t \<and> cached t b n \<and> view t = view s \<and> disk t = disk s \<and>
            wlog t = wlog s \<and> (\<forall>c m. m \<in> P \<union> H \<longrightarrow> cached s c m \<longrightarrow> cached t c m)"
proof -
  have "can_read s n"
  proof (cases "lookup s n")
    case None
    then have "n \<notin> P" using cst_held [OF assms(1), of n] by (auto simp: lookup_None)
    then show ?thesis using None cst_room [OF assms(1)] assms(3) by (simp add: can_read_def)
  next
    case (Some i)
    then show ?thesis using lookup_cached [OF Some] cst_lock [OF assms(1), of i] assms(2)
      by (auto simp: can_read_def in_set_def cached_def)
  qed
  from bread_ok [OF cst_binv [OF assms(1)] this, of me] obtain b t where
    r: "bread me ROOTDEV n s = Ok b t" and g: "got_buf me n s b t" by blast
  have o: "j \<noteq> b \<Longrightarrow> bufs t j = bufs s j" for j using g by (simp add: got_buf_def)
  have b: "b < NBUF" "dev (bufs t b) = ROOTDEV" "blockno (bufs t b) = n" "valid (bufs t b)" "slock (bufs t b) = Some me"
    using g by (auto simp: got_buf_def cached_def)
  have old: "lookup s n = Some b \<Longrightarrow> dev (bufs s b) = ROOTDEV \<and> blockno (bufs s b) = n"
    using lookup_cached [of s n b] by (auto simp: cached_def)
  have ref: "refcnt (bufs t b) = (if n \<in> P then 1 else 0) + 1"
    using g cst_ref [OF assms(1) b(1)] old assms(2) cst_held [OF assms(1), of n]
    by (auto simp: got_buf_def in_set_def lookup_None)
  have nob: "lookup s n = Some b \<or> \<not> in_set s b (P \<union> H)"
    using g cst_ref [OF assms(1) b(1)] by (auto simp: got_buf_def in_set_def split: if_splits)
  have uq: "in_set s j {n} \<Longrightarrow> j < NBUF \<Longrightarrow> j \<noteq> b \<Longrightarrow> False" for j
    using binv_uniq [of t j n b] g o by (auto simp: got_buf_def in_set_def cached_def)
  have keep: "cached t c m" if "m \<in> P \<union> H" "cached s c m" for c m
    using that nob old b o by (cases "c = b") (auto simp: cached_def in_set_def)
  have "cst me P (insert n H) t"
    unfolding cst_def
  proof (intro conjI allI impI ballI)
    show "binv t" using g by (simp add: got_buf_def)
    fix i assume i: "i < NBUF"
    show "refcnt (bufs t i) = (if in_set t i P then 1 else 0) + (if in_set t i (insert n H) then 1 else 0)"
      "slock (bufs t i) = (if in_set t i (insert n H) then Some me else None)"
      using ref b o [of i] uq [of i] i cst_ref [OF assms(1) i] cst_lock [OF assms(1) i]
      by (cases "i = b"; auto simp: in_set_def)+
  next
    fix m assume m: "m \<in> P \<union> insert n H"
    show "\<exists>i. cached t i m \<and> valid (bufs t i)"
    proof (cases "m = n")
      case True
      then show ?thesis using g by (auto simp: got_buf_def)
    next
      case False
      then obtain i where "cached s i m" "valid (bufs s i)" using cst_held [OF assms(1)] m by blast
      then show ?thesis using keep [of m i] m False b o [of i] by (cases "i = b") auto
    qed
  qed
  then show ?thesis using r g keep by (auto simp: got_buf_def fun_eq_iff)
qed

text \<open>A change of one held buffer that keeps its identity.\<close>

lemma cst_upd:
  assumes "cst me P H s" and "n \<in> H" and "cached s b n" and "Q - {n} = P - {n}"
    and "dev (f (bufs s b)) = dev (bufs s b)" and "blockno (f (bufs s b)) = blockno (bufs s b)"
    and "valid (f (bufs s b)) = valid (bufs s b)" and "slock (f (bufs s b)) = slock (bufs s b)"
    and "refcnt (f (bufs s b)) = (if n \<in> Q then 1 else 0) + 1"
  shows "cst me Q H (upd_buf b f s)" and "view (upd_buf b f s) = (view s)(n := data (f (bufs s b)))"
    and "cached (upd_buf b f s) = cached s"
proof -
  let ?t = "upd_buf b f s"
  note bi = cst_binv [OF assms(1)]
  have b: "b < NBUF" "dev (bufs s b) = ROOTDEV" "blockno (bufs s b) = n" "valid (bufs s b)"
    using assms(3) cst_at(1) [OF assms(1) _ assms(3)] assms(2) by (auto simp: cached_def)
  show c: "cached ?t = cached s" using assms(5,6) by (auto simp: cached_def fun_eq_iff)
  have ins: "in_set ?t i S \<longleftrightarrow> in_set s i S" for i S using assms(5,6) by (auto simp: in_set_def)
  have bt: "binv ?t" using binv_uniq [OF bi assms(3)] assms(6,9) b
    by (intro binv_upd_used [OF bi b(1)]) auto
  have oth: "blockno (bufs s i) \<noteq> n \<or> dev (bufs s i) \<noteq> ROOTDEV" if "i < NBUF" "i \<noteq> b" for i
    using binv_uniq [OF bi assms(3), of i] that by (auto simp: cached_def)
  show "cst me Q H ?t"
    unfolding cst_def ins c
  proof (intro conjI allI impI ballI bt)
    fix i assume i: "i < NBUF"
    have "in_set s i P \<longleftrightarrow> in_set s i Q" if "i \<noteq> b" using oth [OF i that] assms(4) by (auto simp: in_set_def)
    then show "refcnt (bufs ?t i) = (if in_set s i Q then 1 else 0) + (if in_set s i H then 1 else 0)"
      using cst_ref [OF assms(1) i] assms(2,9) b by (cases "i = b") (auto simp: in_set_def)
    show "slock (bufs ?t i) = (if in_set s i H then Some me else None)"
      using cst_lock [OF assms(1) i] assms(8) by (cases "i = b") auto
  next
    fix m assume "m \<in> Q \<union> H"
    then have "m \<in> P \<union> H" using assms(2,4) by blast
    then obtain i where "cached s i m" "valid (bufs s i)" using cst_held [OF assms(1)] by blast
    then show "\<exists>i. cached s i m \<and> valid (bufs ?t i)" using assms(7) by (intro exI [of _ i]) auto
  qed
  show "view ?t = (view s)(n := data (f (bufs s b)))"
  proof
    fix m show "view ?t m = ((view s)(n := data (f (bufs s b)))) m"
    proof (cases "m = n")
      case True
      then show ?thesis using view_cached [OF bt, of b n] c assms(3,7) b by simp
    next
      case False
      then have "\<not> cached s b m" using b by (simp add: cached_def)
      then show ?thesis using False c by (simp add: view_other [OF bi bt, of b])
    qed
  qed
qed

lemma cst_disk:
  assumes "cst me P H s" and "n \<in> H" and "cached s b n"
  shows "cst me P H (s\<lparr>disk := (disk s)(n := data (bufs s b)), wlog := w\<rparr>)"
    and "view (s\<lparr>disk := (disk s)(n := data (bufs s b)), wlog := w\<rparr>) = view s"
    and "cached (s\<lparr>disk := (disk s)(n := data (bufs s b)), wlog := w\<rparr>) = cached s"
proof -
  let ?t = "s\<lparr>disk := (disk s)(n := data (bufs s b)), wlog := w\<rparr>"
  note bi = cst_binv [OF assms(1)]
  from binv_dll [OF bi] obtain xs where xs: "dll s xs" "set xs = {..<NBUF}" by blast
  show c: "cached ?t = cached s" by (auto simp: cached_def fun_eq_iff)
  have ins: "in_set ?t i S \<longleftrightarrow> in_set s i S" for i S by (simp add: in_set_def)
  have bt: "binv ?t"
  proof (rule binvI [of _ xs])
    show "dll ?t xs" using xs(1) by (simp add: dll_def)
    show "i = j" if "cached ?t i m" "cached ?t j m" for i j m using binv_uniq [OF bi] that c by simp
    show "0 \<le> refcnt (bufs ?t i)" if "i < NBUF" for i using binv_ref [OF bi that] by simp
    show "slock (bufs ?t i) = None \<and> clean ?t i" if "i < NBUF" "refcnt (bufs ?t i) = 0" for i
      using binv_free [OF bi that(1)] that(2) cst_ref [OF assms(1) that(1)] assms(2)
      by (auto simp: clean_def in_set_def split: if_splits)
  qed (rule xs)
  show "cst me P H ?t"
    using assms(1) bt unfolding cst_def ins c by simp
  show "view ?t = view s"
  proof
    fix m show "view ?t m = view s m"
    proof (cases "lookup s m")
      case None
      then have "m \<noteq> n" using assms(3) by (auto simp: lookup_None)
      moreover have "lookup ?t m = None" using None c by (simp add: lookup_None)
      ultimately show ?thesis using None by (simp add: view_def)
    next
      case (Some i)
      then have i: "cached s i m" by (rule lookup_cached)
      have "\<not> valid (bufs s i) \<Longrightarrow> m \<noteq> n" using cst_at(1) [OF assms(1) _ i] assms(2) by blast
      then show ?thesis using view_cached [OF bi i] view_cached [OF bt, of i m] i c by simp
    qed
  qed
qed

lemma brelse_cst:
  assumes "cst me P H s" and "n \<in> H" and "cached s b n" and "n \<in> P \<or> view s n = disk s n"
  shows "\<exists>t. brelse me b s = Ok () t \<and> cst me P (H - {n}) t \<and> view t = view s \<and> disk t = disk s \<and>
          wlog t = wlog s \<and> cached t = cached s"
proof -
  note bi = cst_binv [OF assms(1)]
  have b: "b < NBUF" "dev (bufs s b) = ROOTDEV" "blockno (bufs s b) = n" using assms(3) by (auto simp: cached_def)
  have v: "valid (bufs s b)" "view s n = data (bufs s b)" using cst_at [OF assms(1) _ assms(3)] assms(2) by auto
  have l: "slock (bufs s b) = Some me" using cst_lock [OF assms(1) b(1)] b assms(2) by (simp add: in_set_def)
  have rc: "refcnt (bufs s b) = (if n \<in> P then 1 else 0) + 1" using cst_ref [OF assms(1) b(1)] b assms(2) by (simp add: in_set_def)
  have "refcnt (bufs s b) = 1 \<longrightarrow> clean s b" using rc assms(4) v b by (auto simp: clean_def split: if_splits)
  moreover have "0 < refcnt (bufs s b)" using rc by simp
  ultimately obtain t where t: "brelse me b s = Ok () t" "binv t" "disk t = disk s" "wlog t = wlog s"
      "bufs t = (bufs s)(b := (bufs s b)\<lparr>slock := None, refcnt := refcnt (bufs s b) - 1\<rparr>)"
    using brelse_ok [OF bi b(1) l] by blast
  have c: "cached t = cached s" using t(5) by (auto simp: cached_def fun_eq_iff)
  have ins: "in_set t i S \<longleftrightarrow> in_set s i S" for i S using t(5) by (simp add: in_set_def)
  have oth: "blockno (bufs s i) \<noteq> n \<or> dev (bufs s i) \<noteq> ROOTDEV" if "i < NBUF" "i \<noteq> b" for i
    using binv_uniq [OF bi assms(3), of i] that by (auto simp: cached_def)
  have "cst me P (H - {n}) t"
    unfolding cst_def ins c
  proof (intro conjI allI impI ballI t(2))
    fix i assume i: "i < NBUF"
    show "refcnt (bufs t i) = (if in_set s i P then 1 else 0) + (if in_set s i (H - {n}) then 1 else 0)"
      using cst_ref [OF assms(1) i] oth [OF i] rc b t(5) by (cases "i = b") (auto simp: in_set_def)
    show "slock (bufs t i) = (if in_set s i (H - {n}) then Some me else None)"
      using cst_lock [OF assms(1) i] oth [OF i] b t(5) by (cases "i = b") (auto simp: in_set_def)
  next
    fix m assume "m \<in> P \<union> (H - {n})"
    then obtain i where "cached s i m" "valid (bufs s i)" using cst_held [OF assms(1), of m] by blast
    then show "\<exists>i. cached s i m \<and> valid (bufs t i)" using t(5) by (intro exI [of _ i]) auto
  qed
  moreover have "view t = view s"
  proof
    fix m show "view t m = view s m"
    proof (cases "m = n")
      case True
      then show ?thesis using view_cached [OF bi assms(3)] view_cached [OF t(2), of b n] c assms(3) t(3,5) by simp
    next
      case False
      then have "\<not> cached s b m" using b by (simp add: cached_def)
      then show ?thesis using c t(3,5) by (intro view_other [OF bi t(2), of b]) auto
    qed
  qed
  ultimately show ?thesis using t c by blast
qed


interpretation bc: block_layer "bread me ROOTDEV" "bwrite me" "brelse me" bpin bunpin get_data set_data cached "cst me"
  view disk wlog NBUF for me
proof unfold_locales
  fix P H s n b x
  assume h: "cst me P H s"
  show "n \<notin> P \<Longrightarrow> n \<notin> H \<Longrightarrow> view s n = disk s n" using cst_clean [OF h] .
  show "n \<notin> H \<Longrightarrow> n \<in> P \<or> card (P \<union> H) < NBUF \<Longrightarrow>
      \<exists>b t. bread me ROOTDEV n s = Ok b t \<and> cst me P (insert n H) t \<and> cached t b n \<and> view t = view s \<and> disk t = disk s \<and>
            wlog t = wlog s \<and> (\<forall>c m. m \<in> P \<union> H \<longrightarrow> cached s c m \<longrightarrow> cached t c m)"
    by (rule bread_cst [OF h])
  assume n: "n \<in> H" and c: "cached s b n"
  show "get_data b s = view s n" using cst_at(2) [OF h _ c] n by (simp add: get_data_def)
  have b: "b < NBUF" "blockno (bufs s b) = n" "slock (bufs s b) = Some me" "in_set s b S \<longleftrightarrow> n \<in> S" for S
    using c n cst_lock [OF h, of b] by (auto simp: cached_def in_set_def)
  have rc: "refcnt (bufs s b) = (if n \<in> P then 1 else 0) + 1" using cst_ref [OF h b(1)] b n by simp
  have d: "view s n = data (bufs s b)" using cst_at(2) [OF h _ c] n by simp
  show "cst me P H (set_data b x s) \<and> view (set_data b x s) = (view s)(n := x) \<and> disk (set_data b x s) = disk s \<and>
      wlog (set_data b x s) = wlog s \<and> cached (set_data b x s) = cached s"
    using cst_upd [OF h n c, of P "\<lambda>y. y\<lparr>data := x\<rparr>"] rc by (simp add: set_data_def)
  show "\<exists>t. bwrite me b s = Ok () t \<and> cst me P H t \<and> view t = view s \<and> disk t = (disk s)(n := view s n) \<and>
      wlog t = wlog s @ [(n, view s n)] \<and> cached t = cached s"
    using cst_disk [OF h n c, of "wlog s @ [(n, view s n)]"] b d by (simp add: bwrite_def holdingsleep_def disk_rw_def)
  show "n \<in> P \<or> view s n = disk s n \<Longrightarrow> \<exists>t. brelse me b s = Ok () t \<and> cst me P (H - {n}) t \<and> view t = view s \<and>
      disk t = disk s \<and> wlog t = wlog s \<and> cached t = cached s"
    by (rule brelse_cst [OF h n c])
  show "n \<notin> P \<Longrightarrow> cst me (insert n P) H (bpin b s) \<and> view (bpin b s) = view s \<and> disk (bpin b s) = disk s \<and>
      wlog (bpin b s) = wlog s \<and> cached (bpin b s) = cached s"
    using cst_upd [OF h n c, of "insert n P" "\<lambda>x. x\<lparr>refcnt := refcnt x + 1\<rparr>"] rc d by (auto simp: bpin_def fun_eq_iff)
  show "n \<in> P \<Longrightarrow> cst me (P - {n}) H (bunpin b s) \<and> view (bunpin b s) = view s \<and> disk (bunpin b s) = disk s \<and>
      wlog (bunpin b s) = wlog s \<and> cached (bunpin b s) = cached s"
    using cst_upd [OF h n c, of "P - {n}" "\<lambda>x. x\<lparr>refcnt := refcnt x - 1\<rparr>"] rc d by (auto simp: bunpin_def fun_eq_iff)
qed

lemma fresh_cst:
  assumes "\<And>i. i < NBUF \<Longrightarrow> dev (bufs s i) = 0 \<and> refcnt (bufs s i) = 0"
  shows "cst me {} {} (binit s)"
  using binit_inv(1) [OF assms] by (auto simp: cst_def binit_dll in_set_def assms)

lemma bps_irrelevant [simp]:
  "view (b\<lparr>bps := p\<rparr>) = view b" "cached (b\<lparr>bps := p\<rparr>) = cached b" "cst me P H (b\<lparr>bps := p\<rparr>) \<longleftrightarrow> cst me P H b"
proof -
  have l: "lookup (b\<lparr>bps := p\<rparr>) n = lookup b n" for n by (simp add: lookup_def)
  show "view (b\<lparr>bps := p\<rparr>) = view b" by (simp add: view_def l fun_eq_iff split: option.split)
  show c: "cached (b\<lparr>bps := p\<rparr>) = cached b" by (simp add: cached_def fun_eq_iff)
  have "binv (b\<lparr>bps := p\<rparr>) \<longleftrightarrow> binv b" by (simp add: binv_def dll_def clean_def)
  then show "cst me P H (b\<lparr>bps := p\<rparr>) \<longleftrightarrow> cst me P H b" by (simp add: cst_def c in_set_def)
qed

end
