(* ===== verification/Log.thy ===== *)
theory Log
  imports Blocks
begin

section \<open>The write-ahead log (kernel/log.c)\<close>

text \<open>
  The log is at blocks \<open>lstart\<close> (the header) and \<open>lstart + 1 \<dots>\<close>. \<open>lhn\<close> and \<open>lhb\<close> are the header in
  memory. The parts of \<^verbatim>\<open>log.c\<close> that only move blocks work on the block cache \<open>bsys\<close>; \<open>lift_bs\<close>
  runs them inside the whole state. The bodies under \<^verbatim>\<open>log.lock\<close> are atomic steps; the wakeups of
  \<^verbatim>\<open>end_op\<close> act on the process table of the cache state.

  The crash theorem: a crash may cut the sequence of block writes of \<^verbatim>\<open>commit\<close> at any point; what
  \<^verbatim>\<open>initlog\<close> then recovers is the state before the transaction or the one after it.
\<close>

definition MAXOPBLOCKS :: int where "MAXOPBLOCKS = 10"
definition LOGSIZE :: int where "LOGSIZE = MAXOPBLOCKS * 3"

record lsys =
  bs :: bsys
  lstart :: nat
  lsize :: int
  outstanding :: int
  committing :: bool
  lhn :: int
  lhb :: "nat \<Rightarrow> nat"

definition lift_bs :: "('a, bsys) res \<Rightarrow> lsys \<Rightarrow> ('a, lsys) res" where
  "lift_bs r s = (case r of Ok a b \<Rightarrow> Ok a (s\<lparr>bs := b\<rparr>) | Panic m \<Rightarrow> Panic m | Wait b \<Rightarrow> Wait (s\<lparr>bs := b\<rparr>))"

definition sint32 :: "nat \<Rightarrow> int" where
  "sint32 v = (if v < 2 ^ 31 then int v else int v - 2 ^ 32)"

fun install_trans_loop :: "nat \<Rightarrow> bool \<Rightarrow> nat \<Rightarrow> (nat \<Rightarrow> nat) \<Rightarrow> nat list \<Rightarrow> bsys \<Rightarrow> (unit, bsys) res" where
  "install_trans_loop me recovering start block [] b = Ok () b"
| "install_trans_loop me recovering start block (tail # ts) b =
     seqr (bread me ROOTDEV (start + tail + 1) b) (\<lambda>lbuf b.
     seqr (bread me ROOTDEV (block tail) b) (\<lambda>dbuf b.
     seqr (bwrite me dbuf (set_data dbuf (get_data lbuf b) b)) (\<lambda>_ b.
     seqr (brelse me lbuf (if \<not> recovering then bunpin dbuf b else b)) (\<lambda>_ b.
     seqr (brelse me dbuf b) (\<lambda>_ b.
       install_trans_loop me recovering start block ts b)))))"

definition install_trans :: "nat \<Rightarrow> bool \<Rightarrow> lsys \<Rightarrow> (unit, lsys) res" where
  "install_trans me recovering s =
     lift_bs (install_trans_loop me recovering (lstart s) (lhb s) [0..<nat (lhn s)] (bs s)) s"

text \<open>Reading the header copies \<open>n\<close> entries into \<^verbatim>\<open>log.lh.block\<close>, which has \<open>LOGSIZE\<close> of them; an
  \<open>n\<close> beyond that would overrun the array, which the model shows as a panic.\<close>

definition read_head :: "nat \<Rightarrow> lsys \<Rightarrow> (unit, lsys) res" where
  "read_head me s =
     seqr (lift_bs (bread me ROOTDEV (lstart s) (bs s)) s) (\<lambda>b s.
       let x = get_data b (bs s);
           s = s\<lparr>lhn := sint32 (get_le 4 x 0)\<rparr>
       in if LOGSIZE < lhn s then Panic ''log.lh.block overrun''
          else let s = s\<lparr>lhb := fold (\<lambda>i f. f(i := get_le 4 x (4 + 4 * i))) [0..<nat (lhn s)] (lhb s)\<rparr>
               in lift_bs (brelse me b (bs s)) s)"

definition put_head :: "int \<Rightarrow> (nat \<Rightarrow> nat) \<Rightarrow> blk \<Rightarrow> blk" where
  "put_head n block x =
     fold (\<lambda>i x. put_le 4 (4 + 4 * i) (block i) x) [0..<nat n] (put_le 4 0 (nat (n mod 2 ^ 32)) x)"

definition write_head :: "nat \<Rightarrow> lsys \<Rightarrow> (unit, lsys) res" where
  "write_head me s =
     lift_bs (seqr (bread me ROOTDEV (lstart s) (bs s)) (\<lambda>b x.
       seqr (bwrite me b (set_data b (put_head (lhn s) (lhb s) (get_data b x)) x)) (\<lambda>_ x. brelse me b x))) s"

definition recover_from_log :: "nat \<Rightarrow> lsys \<Rightarrow> (unit, lsys) res" where
  "recover_from_log me s =
     seqr (read_head me s) (\<lambda>_ s.
     seqr (install_trans me True s) (\<lambda>_ s.
     write_head me (s\<lparr>lhn := 0\<rparr>)))"

definition initlog :: "nat \<Rightarrow> nat \<Rightarrow> nat \<Rightarrow> lsys \<Rightarrow> (unit, lsys) res" where
  "initlog me sb_logstart sb_nlog s =
     (if int BSIZE \<le> 4 + 4 * LOGSIZE then Panic ''initlog: too big logheader''
      else recover_from_log me (s\<lparr>lstart := sb_logstart, lsize := int sb_nlog\<rparr>))"

definition lwakeup :: "nat \<Rightarrow> lsys \<Rightarrow> lsys" where
  "lwakeup me s = s\<lparr>bs := (bs s)\<lparr>bps := wakeup LogChan (Some me) (bps (bs s))\<rparr>\<rparr>"

definition lsleep :: "nat \<Rightarrow> lsys \<Rightarrow> lsys" where
  "lsleep me s = s\<lparr>bs := (bs s)\<lparr>bps := (bps (bs s))(me := (bps (bs s) me)\<lparr>chan := LogChan, pstate := SLEEPING\<rparr>)\<rparr>\<rparr>"

text \<open>\<^verbatim>\<open>begin_op\<close> admits the caller or puts it to sleep; it starts again when it wakes.\<close>

definition begin_op :: "nat \<Rightarrow> lsys \<Rightarrow> (unit, lsys) res" where
  "begin_op me s =
     (if committing s then Wait (lsleep me s)
      else if lhn s + (outstanding s + 1) * MAXOPBLOCKS > LOGSIZE then Wait (lsleep me s)
      else Ok () (s\<lparr>outstanding := outstanding s + 1\<rparr>))"

fun write_log_loop :: "nat \<Rightarrow> nat \<Rightarrow> (nat \<Rightarrow> nat) \<Rightarrow> nat list \<Rightarrow> bsys \<Rightarrow> (unit, bsys) res" where
  "write_log_loop me start block [] b = Ok () b"
| "write_log_loop me start block (tail # ts) b =
     seqr (bread me ROOTDEV (start + tail + 1) b) (\<lambda>to b.
     seqr (bread me ROOTDEV (block tail) b) (\<lambda>from b.
     seqr (bwrite me to (set_data to (get_data from b) b)) (\<lambda>_ b.
     seqr (brelse me from b) (\<lambda>_ b.
     seqr (brelse me to b) (\<lambda>_ b.
       write_log_loop me start block ts b)))))"

definition write_log :: "nat \<Rightarrow> lsys \<Rightarrow> (unit, lsys) res" where
  "write_log me s = lift_bs (write_log_loop me (lstart s) (lhb s) [0..<nat (lhn s)] (bs s)) s"

definition commit :: "nat \<Rightarrow> lsys \<Rightarrow> (unit, lsys) res" where
  "commit me s =
     (if lhn s > 0
      then seqr (write_log me s) (\<lambda>_ s.
           seqr (write_head me s) (\<lambda>_ s.
           seqr (install_trans me False s) (\<lambda>_ s.
           write_head me (s\<lparr>lhn := 0\<rparr>))))
      else Ok () s)"

definition end_op :: "nat \<Rightarrow> lsys \<Rightarrow> (unit, lsys) res" where
  "end_op me s =
     (let s = s\<lparr>outstanding := outstanding s - 1\<rparr>
      in if committing s then Panic ''log.committing''
         else if outstanding s = 0
         then seqr (commit me (s\<lparr>committing := True\<rparr>)) (\<lambda>_ s.
              Ok () (lwakeup me (s\<lparr>committing := False\<rparr>)))
         else Ok () (lwakeup me s))"

definition log_write :: "nat \<Rightarrow> lsys \<Rightarrow> (unit, lsys) res" where
  "log_write b s =
     (if lhn s \<ge> LOGSIZE \<or> lhn s \<ge> lsize s - 1 then Panic ''too big a transaction''
      else if outstanding s < 1 then Panic ''log_write outside of trans''
      else let bno = blockno (bufs (bs s) b);
               i = (case scan_first (\<lambda>i. lhb s i = bno) [0..<nat (lhn s)] of Some i \<Rightarrow> i | None \<Rightarrow> nat (lhn s));
               s = s\<lparr>lhb := (lhb s)(i := bno)\<rparr>
           in Ok () (if int i = lhn s then s\<lparr>bs := bpin b (bs s), lhn := lhn s + 1\<rparr> else s))"

subsection \<open>The header block\<close>

lemma put_head_n:
  assumes "0 \<le> n" and "n \<le> LOGSIZE"
  shows "sint32 (get_le 4 (put_head n block x) 0) = n"
proof -
  have "n mod 2 ^ 32 = n" using assms by (simp add: LOGSIZE_def MAXOPBLOCKS_def)
  then show ?thesis using assms by (simp add: put_head_def get_put_array_other sint32_def LOGSIZE_def MAXOPBLOCKS_def)
qed

lemma put_head_block:
  assumes "k < nat n" and "block k < 2 ^ 32"
  shows "get_le 4 (put_head n block x) (4 + 4 * k) = block k"
  using assms get_put_array [of 4 4 block "nat n" _ k] by (simp add: put_head_def)

subsection \<open>The loops over the block layer\<close>

lemma lift_bs_Ok [simp]: "lift_bs (Ok a b) s = Ok a (s\<lparr>bs := b\<rparr>)"
  by (simp add: lift_bs_def)

lemma write_head_ok:
  assumes "cst me P {} (bs s)" and "card P < NBUF"
  defines "x \<equiv> put_head (lhn s) (lhb s) (view (bs s) (lstart s))"
  shows "\<exists>b. write_head me s = Ok () (s\<lparr>bs := b\<rparr>) \<and> cst me P {} b \<and> view b = (view (bs s))(lstart s := x) \<and>
             disk b = (disk (bs s))(lstart s := x) \<and> wlog b = wlog (bs s) @ [(lstart s, x)]"
  using bc.read_modify_write [OF assms(1), of "lstart s" "put_head (lhn s) (lhb s)"] assms(2)
  by (auto simp: write_head_def x_def)

text \<open>The disk after a sequence of block writes.\<close>

fun apply_writes :: "(nat \<times> blk) list \<Rightarrow> (nat \<Rightarrow> blk) \<Rightarrow> nat \<Rightarrow> blk" where
  "apply_writes [] d = d"
| "apply_writes (w # ws) d = apply_writes ws (d(fst w := snd w))"

definition log_block :: "nat \<Rightarrow> nat \<Rightarrow> nat" where "log_block start i = start + i + 1"

definition log_area :: "nat \<Rightarrow> nat \<Rightarrow> nat set" where "log_area start n = {start..<start + n}"

lemma write_log_loop_ok:
  assumes "cst me P {} b" and "card P < NBUF" and "\<forall>i \<in> set is. block i \<in> P" and "\<forall>i \<in> set is. log_block start i \<notin> P"
  shows "\<exists>t. write_log_loop me start block is b = Ok () t \<and> cst me P {} t \<and>
             view t = apply_writes (map (\<lambda>i. (log_block start i, view b (block i))) is) (view b) \<and>
             disk t = apply_writes (map (\<lambda>i. (log_block start i, view b (block i))) is) (disk b) \<and>
             wlog t = wlog b @ map (\<lambda>i. (log_block start i, view b (block i))) is"
  using assms
proof (induction "is" arbitrary: b)
  case Nil
  then show ?case by simp
next
  case (Cons i "is")
  let ?l = "log_block start i" and ?h = "block i"
  have ne: "?l \<noteq> ?h" using Cons.prems by auto
  obtain to t1 fr t2 where 2: "bread me ROOTDEV ?l b = Ok to t1" "bread me ROOTDEV ?h t1 = Ok fr t2" "cst me P {?l, ?h} t2"
      "cached t2 to ?l" "cached t2 fr ?h" "get_data fr t2 = view b ?h" "view t2 = view b" "disk t2 = disk b" "wlog t2 = wlog b"
    using bc.read_two [OF Cons.prems(1) ne] Cons.prems(2,3) by auto
  obtain t3 where 3: "bwrite me to (set_data to (view b ?h) t2) = Ok () t3" "cst me P {?l, ?h} t3" "view t3 = (view b)(?l := view b ?h)"
      "disk t3 = (disk b)(?l := view b ?h)" "wlog t3 = wlog b @ [(?l, view b ?h)]" "cached t3 = cached t2"
    using bc.write_through [OF 2(3) _ 2(4), of "view b ?h"] 2 by auto
  have "cst me P {?h, ?l} t3" using 3(2) by (simp add: insert_commute)
  from bc.release_two [OF this ne [symmetric], of fr to] obtain t4 where
    4: "seqr (brelse me fr t3) (\<lambda>_ s. brelse me to s) = Ok () t4" "cst me P {} t4" "view t4 = view t3" "disk t4 = disk t3" "wlog t4 = wlog t3"
    using 2 3 Cons.prems(3) by auto
  have m: "map (\<lambda>i. (log_block start i, view t4 (block i))) is = map (\<lambda>i. (log_block start i, view b (block i))) is"
    using 3 4 Cons.prems(3,4) by auto
  have "\<forall>i \<in> set is. block i \<in> P" "\<forall>i \<in> set is. log_block start i \<notin> P" using Cons.prems(3,4) by auto
  from Cons.IH [OF 4(2) Cons.prems(2) this] obtain t where t: "write_log_loop me start block is t4 = Ok () t" "cst me P {} t"
      "view t = apply_writes (map (\<lambda>i. (log_block start i, view b (block i))) is) (view t4)"
      "disk t = apply_writes (map (\<lambda>i. (log_block start i, view b (block i))) is) (disk t4)"
      "wlog t = wlog t4 @ map (\<lambda>i. (log_block start i, view b (block i))) is"
    unfolding m by blast
  have "write_log_loop me start block (i # is) b = Ok () t"
    using 2 3 t(1) 4(1) by (auto simp: log_block_def seqr_eq_Ok)
  then show ?case using t 3(3,4,5) 4(3,4,5) by (intro exI [of _ t]) (simp del: fun_upd_apply)
qed

lemma install_commit_ok:
  assumes "cst me P {} b" and "card P < NBUF" and "\<forall>i \<in> set is. block i \<in> P" and "\<forall>i \<in> set is. log_block start i \<notin> P"
    and "distinct (map block is)" and "\<forall>i \<in> set is. view b (log_block start i) = view b (block i)"
  shows "\<exists>t. install_trans_loop me False start block is b = Ok () t \<and> cst me (P - block ` set is) {} t \<and> view t = view b \<and>
             disk t = apply_writes (map (\<lambda>i. (block i, view b (block i))) is) (disk b) \<and>
             wlog t = wlog b @ map (\<lambda>i. (block i, view b (block i))) is"
  using assms
proof (induction "is" arbitrary: b P)
  case Nil
  then show ?case by simp
next
  case (Cons i "is")
  let ?l = "log_block start i" and ?h = "block i"
  have lP: "?l \<notin> P" and hP: "?h \<in> P" and ne: "?l \<noteq> ?h" and eq: "view b ?l = view b ?h" using Cons.prems by auto
  obtain lb t1 db t2 where 2: "bread me ROOTDEV ?l b = Ok lb t1" "bread me ROOTDEV ?h t1 = Ok db t2" "cst me P {?l, ?h} t2"
      "cached t2 lb ?l" "cached t2 db ?h" "get_data lb t2 = view b ?l" "view t2 = view b" "disk t2 = disk b" "wlog t2 = wlog b"
    using bc.read_two [OF Cons.prems(1) ne] Cons.prems(2,3) by auto
  have same: "(view b)(?h := view b ?h) = view b" by auto
  obtain t3 where 3: "bwrite me db (set_data db (view b ?h) t2) = Ok () t3" "cst me P {?l, ?h} t3" "view t3 = view b"
      "disk t3 = (disk b)(?h := view b ?h)" "wlog t3 = wlog b @ [(?h, view b ?h)]" "cached t3 = cached t2"
    using bc.write_through [OF 2(3) _ 2(5), of "view b ?h"] 2 same by auto
  have u: "cst me (P - {?h}) {?l, ?h} (bunpin db t3)" "view (bunpin db t3) = view b" "disk (bunpin db t3) = disk t3"
      "wlog (bunpin db t3) = wlog t3" "cached (bunpin db t3) = cached t2"
    using bc.unpin_ok [OF 3(2) _ hP, of db] 2(5) 3 by auto
  have "view b ?l = disk b ?l" using bc.unheld [OF Cons.prems(1) lP] by simp
  then have dl: "view (bunpin db t3) ?l = disk (bunpin db t3) ?l" using u 3 ne by simp
  from bc.release_two [OF u(1) ne, of lb db] obtain t4 where
    4: "seqr (brelse me lb (bunpin db t3)) (\<lambda>_ s. brelse me db s) = Ok () t4" "cst me (P - {?h}) {} t4" "view t4 = view b"
       "disk t4 = disk t3" "wlog t4 = wlog t3"
    using 2 3 u dl by auto
  have "card (P - {?h}) < NBUF" using Cons.prems(2) hP by (metis card_Diff1_le le_less_trans)
  moreover have "\<forall>j \<in> set is. block j \<in> P - {?h}" using Cons.prems(3,5) by (auto simp: image_iff)
  moreover have "\<forall>j \<in> set is. log_block start j \<notin> P - {?h}" using Cons.prems(4) by simp
  moreover have "distinct (map block is)" using Cons.prems(5) by simp
  moreover have "\<forall>j \<in> set is. view t4 (log_block start j) = view t4 (block j)" using Cons.prems(6) 4(3) by simp
  ultimately obtain t where t: "install_trans_loop me False start block is t4 = Ok () t" "cst me (P - {?h} - block ` set is) {} t" "view t = view b"
      "disk t = apply_writes (map (\<lambda>i. (block i, view b (block i))) is) (disk t4)" "wlog t = wlog t4 @ map (\<lambda>i. (block i, view b (block i))) is"
    using Cons.IH [OF 4(2)] unfolding 4(3) by blast
  have "P - {?h} - block ` set is = P - block ` set (i # is)" by auto
  moreover have "install_trans_loop me False start block (i # is) b = Ok () t"
    using 2 3 t(1) 4(1) eq by (auto simp: log_block_def seqr_eq_Ok)
  ultimately show ?case using t 3(3,4,5) 4(3,4,5) by (intro exI [of _ t]) (simp del: fun_upd_apply)
qed

lemma install_recover_ok:
  assumes "cst me {} {} b" and "\<forall>i \<in> set is. \<forall>j \<in> set is. log_block start i \<noteq> block j"
  shows "\<exists>t. install_trans_loop me True start block is b = Ok () t \<and> cst me {} {} t \<and> view t = disk t \<and>
             disk t = apply_writes (map (\<lambda>i. (block i, disk b (log_block start i))) is) (disk b)"
  using assms
proof (induction "is" arbitrary: b)
  case Nil
  then show ?case using bc.unheld [of me "{}" "{}" b] by auto
next
  case (Cons i "is")
  let ?l = "log_block start i" and ?h = "block i"
  have ne: "?l \<noteq> ?h" using Cons.prems by simp
  have vd: "view b = disk b" using bc.unheld [OF Cons.prems(1)] by auto
  obtain lb t1 db t2 where 2: "bread me ROOTDEV ?l b = Ok lb t1" "bread me ROOTDEV ?h t1 = Ok db t2" "cst me {} {?l, ?h} t2"
      "cached t2 lb ?l" "cached t2 db ?h" "get_data lb t2 = disk b ?l" "view t2 = disk b" "disk t2 = disk b"
    using bc.read_two [OF Cons.prems(1) ne] vd by (auto simp: NBUF_def)
  obtain t3 where 3: "bwrite me db (set_data db (disk b ?l) t2) = Ok () t3" "cst me {} {?l, ?h} t3" "view t3 = disk t3"
      "disk t3 = (disk b)(?h := disk b ?l)" "cached t3 = cached t2"
    using bc.write_through [OF 2(3) _ 2(5), of "disk b ?l"] 2(7,8) by auto
  from bc.release_two [OF 3(2) ne, of lb db] obtain t4 where
    4: "seqr (brelse me lb t3) (\<lambda>_ s. brelse me db s) = Ok () t4" "cst me {} {} t4" "disk t4 = disk t3"
    using 2 3 by auto
  have m: "map (\<lambda>i. (block i, disk t4 (log_block start i))) is = map (\<lambda>i. (block i, disk b (log_block start i))) is"
    using Cons.prems(2) 3(4) 4(3) by auto
  have "\<forall>i \<in> set is. \<forall>j \<in> set is. log_block start i \<noteq> block j" using Cons.prems(2) by simp
  from Cons.IH [OF 4(2) this] obtain t where t: "install_trans_loop me True start block is t4 = Ok () t" "cst me {} {} t"
      "view t = disk t" "disk t = apply_writes (map (\<lambda>i. (block i, disk b (log_block start i))) is) (disk t4)"
    unfolding m by blast
  have "install_trans_loop me True start block (i # is) b = Ok () t"
    using 2 3 t(1) 4(1) by (auto simp: log_block_def seqr_eq_Ok)
  then show ?case using t 3(4) 4(3) by (intro exI [of _ t]) (simp del: fun_upd_apply)
qed

text \<open>Recovery as a function on disks.\<close>

definition head_n :: "nat \<Rightarrow> (nat \<Rightarrow> blk) \<Rightarrow> int" where
  "head_n start d = sint32 (get_le 4 (d start) 0)"

definition head_block :: "nat \<Rightarrow> (nat \<Rightarrow> blk) \<Rightarrow> nat \<Rightarrow> nat" where
  "head_block start d i = get_le 4 (d start) (4 + 4 * i)"

definition recovered :: "nat \<Rightarrow> (nat \<Rightarrow> blk) \<Rightarrow> nat \<Rightarrow> blk" where
  "recovered start d =
     (let d' = apply_writes (map (\<lambda>i. (head_block start d i, d (log_block start i))) [0..<nat (head_n start d)]) d
      in d'(start := put_head 0 (head_block start d) (d' start)))"

definition head_sound :: "nat \<Rightarrow> (nat \<Rightarrow> blk) \<Rightarrow> bool" where
  "head_sound start d \<longleftrightarrow> head_n start d \<le> LOGSIZE \<and>
     (\<forall>i < nat (head_n start d). \<forall>j < nat (head_n start d). log_block start i \<noteq> head_block start d j)"

lemma put_head_0: "put_head 0 f x = put_le 4 0 0 x"
  by (simp add: put_head_def)

lemma fold_entries: "fold (\<lambda>i f. f(i := g i)) [0..<n] f = (\<lambda>i. if i < n then g i else f i)" for g :: "nat \<Rightarrow> 'b"
  using fold_pointwise [of "[0..<n]" "\<lambda>i _. g i" f] by auto

lemma read_head_ok:
  assumes "cst me {} {} (bs s)" and "head_n (lstart s) (disk (bs s)) \<le> LOGSIZE"
  shows "\<exists>b f. read_head me s = Ok () (s\<lparr>lhn := head_n (lstart s) (disk (bs s)), lhb := f, bs := b\<rparr>) \<and>
             cst me {} {} b \<and> disk b = disk (bs s) \<and>
             (\<forall>i < nat (head_n (lstart s) (disk (bs s))). f i = head_block (lstart s) (disk (bs s)) i)"
proof -
  have vd: "view (bs s) n = disk (bs s) n" for n using bc.unheld [OF assms(1)] by simp
  obtain b t where t: "bread me ROOTDEV (lstart s) (bs s) = Ok b t" "cst me {} {lstart s} t" "cached t b (lstart s)"
      "view t = view (bs s)" "disk t = disk (bs s)"
    using bc.rd_ok [OF assms(1), of "lstart s"] by (auto simp: NBUF_def)
  have g: "get_data b t = disk (bs s) (lstart s)" using bc.get_seen [OF t(2) _ t(3)] t(4) vd by simp
  obtain u where u: "brelse me b t = Ok () u" "cst me {} {} u" "disk u = disk (bs s)"
    using bc.rel_ok [OF t(2) _ t(3)] t(4,5) vd by auto
  show ?thesis using t u g assms(2)
    by (intro exI [of _ u] exI [of _ "\<lambda>i. if i < nat (head_n (lstart s) (disk (bs s))) then head_block (lstart s) (disk (bs s)) i else lhb s i"])
      (simp add: read_head_def Let_def head_n_def head_block_def fold_entries cong: if_cong)
qed

lemma initlog_recovers:
  assumes "cst me {} {} (bs s)" and "head_sound start (disk (bs s))"
  shows "\<exists>t. initlog me start nlog s = Ok () t \<and> lhn t = 0 \<and> lstart t = start \<and> lsize t = int nlog \<and>
             cst me {} {} (bs t) \<and> disk (bs t) = recovered start (disk (bs s))"
proof -
  define s1 where "s1 = s\<lparr>lstart := start, lsize := int nlog\<rparr>"
  let ?d = "disk (bs s)"
  let ?n = "head_n start ?d"
  have s1: "cst me {} {} (bs s1)" "lstart s1 = start" "bs s1 = bs s" using assms(1) by (simp_all add: s1_def)
  obtain b f where h: "read_head me s1 = Ok () (s1\<lparr>lhn := ?n, lhb := f, bs := b\<rparr>)" "cst me {} {} b" "disk b = ?d"
      "\<forall>i < nat ?n. f i = head_block start ?d i"
    using read_head_ok [OF s1(1)] assms(2) s1 by (auto simp: head_sound_def)
  have m: "map (\<lambda>i. (f i, disk b (log_block start i))) [0..<nat ?n] = map (\<lambda>i. (head_block start ?d i, ?d (log_block start i))) [0..<nat ?n]"
    using h(3,4) by auto
  have "\<forall>i \<in> set [0..<nat ?n]. \<forall>j \<in> set [0..<nat ?n]. log_block start i \<noteq> f j"
    using assms(2) h(4) by (auto simp: head_sound_def)
  from install_recover_ok [OF h(2) this] obtain c where c: "install_trans_loop me True start f [0..<nat ?n] b = Ok () c"
      "cst me {} {} c" "view c = disk c" "disk c = apply_writes (map (\<lambda>i. (head_block start ?d i, ?d (log_block start i))) [0..<nat ?n]) ?d"
    unfolding m unfolding h(3) by blast
  define s2 where "s2 = s1\<lparr>lhb := f, bs := c, lhn := 0\<rparr>"
  obtain e where e: "write_head me s2 = Ok () (s2\<lparr>bs := e\<rparr>)" "cst me {} {} e"
      "disk e = (disk c)(start := put_head 0 f (disk c start))"
    using write_head_ok [of me "{}" s2] c s1 by (auto simp: s2_def NBUF_def)
  have "recover_from_log me s1 = Ok () (s2\<lparr>bs := e\<rparr>)"
    using h(1) c(1) e(1) s1(2) by (simp add: recover_from_log_def install_trans_def s2_def)
  moreover have "\<not> int BSIZE \<le> 4 + 4 * LOGSIZE" by (simp add: BSIZE_def LOGSIZE_def MAXOPBLOCKS_def)
  moreover have "disk e = recovered start ?d" using e(3) c(4) by (simp add: recovered_def Let_def put_head_0)
  ultimately show ?thesis using e(2) by (auto simp: initlog_def s1_def s2_def)
qed

subsection \<open>Commit\<close>

lemma apply_writes_append: "apply_writes (xs @ ys) d = apply_writes ys (apply_writes xs d)"
  by (induction xs arbitrary: d) simp_all

lemma apply_writes_other: "n \<notin> fst ` set ws \<Longrightarrow> apply_writes ws d n = d n"
  by (induction ws arbitrary: d) auto

lemma apply_writes_at: "distinct (map fst ws) \<Longrightarrow> (n, x) \<in> set ws \<Longrightarrow> apply_writes ws d n = x"
proof (induction ws arbitrary: d)
  case (Cons w ws)
  show ?case
  proof (cases "(n, x) \<in> set ws")
    case True
    then show ?thesis using Cons by simp
  next
    case False
    then have w: "w = (n, x)" using Cons.prems(2) by simp
    then have "n \<notin> fst ` set ws" using Cons.prems(1) by simp
    with w show ?thesis by (simp add: apply_writes_other)
  qed
qed simp

definition logged :: "lsys \<Rightarrow> nat list" where
  "logged s = map (lhb s) [0..<nat (lhn s)]"

text \<open>The log while operations run (the caller holds the buffers of the blocks \<open>H\<close>): the logged
  blocks are distinct, outside the log and pinned, the log has room for them, and the header on
  disk is empty.\<close>

definition log_ok :: "nat \<Rightarrow> nat set \<Rightarrow> lsys \<Rightarrow> bool" where
  "log_ok me H s \<longleftrightarrow> 0 \<le> lhn s \<and> lhn s < lsize s \<and> lsize s \<le> LOGSIZE \<and> distinct (logged s) \<and>
     (\<forall>b \<in> set (logged s). b < 2 ^ 32 \<and> b \<notin> log_area (lstart s) (nat (lsize s))) \<and>
     cst me (set (logged s)) H (bs s) \<and> head_n (lstart s) (disk (bs s)) = 0"

text \<open>The block writes of a commit, in order.\<close>

definition log_writes :: "lsys \<Rightarrow> (nat \<times> blk) list" where
  "log_writes s = map (\<lambda>i. (log_block (lstart s) i, view (bs s) (lhb s i))) [0..<nat (lhn s)]"

definition home_writes :: "lsys \<Rightarrow> (nat \<times> blk) list" where
  "home_writes s = map (\<lambda>i. (lhb s i, view (bs s) (lhb s i))) [0..<nat (lhn s)]"

definition head_write :: "lsys \<Rightarrow> blk" where
  "head_write s = put_head (lhn s) (lhb s) (disk (bs s) (lstart s))"

definition commit_writes :: "lsys \<Rightarrow> (nat \<times> blk) list" where
  "commit_writes s = log_writes s @ (lstart s, head_write s) # home_writes s @ [(lstart s, put_le 4 0 0 (head_write s))]"

lemma log_okD:
  assumes "log_ok me H s"
  shows "0 \<le> lhn s" "nat (lhn s) < nat (lsize s)" "nat (lsize s) \<le> 30" "distinct (logged s)" "cst me (set (logged s)) H (bs s)"
    "head_n (lstart s) (disk (bs s)) = 0" "card (set (logged s)) < NBUF"
    "b \<in> set (logged s) \<Longrightarrow> b < 2 ^ 32 \<and> b \<notin> log_area (lstart s) (nat (lsize s))"
proof -
  show h: "0 \<le> lhn s" "nat (lhn s) < nat (lsize s)" "nat (lsize s) \<le> 30" "distinct (logged s)" "cst me (set (logged s)) H (bs s)"
    "head_n (lstart s) (disk (bs s)) = 0" "b \<in> set (logged s) \<Longrightarrow> b < 2 ^ 32 \<and> b \<notin> log_area (lstart s) (nat (lsize s))"
    using assms by (auto simp: log_ok_def LOGSIZE_def MAXOPBLOCKS_def)
  show "card (set (logged s)) < NBUF"
    using less_le_trans [OF h(2,3)] distinct_card [OF h(4)] by (simp add: logged_def NBUF_def)
qed

lemma log_block_area: "i < n \<Longrightarrow> n < m \<Longrightarrow> log_block start i \<in> log_area start m \<and> start \<in> log_area start m \<and> log_block start i \<noteq> start"
  by (simp add: log_block_def log_area_def)

lemma fst_log_writes: "map fst (log_writes s) = map (log_block (lstart s)) [0..<nat (lhn s)]"
  by (simp add: log_writes_def comp_def)

lemma fst_home_writes: "map fst (home_writes s) = logged s"
  by (simp add: home_writes_def logged_def comp_def)

lemma commit_ok:
  assumes "log_ok me {} s" and "0 < lhn s"
  shows "\<exists>b. commit me s = Ok () (s\<lparr>lhn := 0, bs := b\<rparr>) \<and> cst me {} {} b \<and> wlog b = wlog (bs s) @ commit_writes s \<and>
             disk b = apply_writes (commit_writes s) (disk (bs s))"
proof -
  note k = log_okD [OF assms(1)]
  let ?is = "[0..<nat (lhn s)]" and ?st = "lstart s" and ?P = "set (logged s)"
  have inP: "\<forall>i \<in> set ?is. lhb s i \<in> ?P" by (simp add: logged_def)
  have area: "\<forall>i \<in> set ?is. log_block ?st i \<notin> ?P" using log_block_area k(2,8) by (metis atLeastLessThan_iff set_upt)
  have st: "?st \<notin> ?P" using k(2) k(8) [of ?st] by (auto simp: log_area_def)
  obtain b1 where 1: "write_log_loop me ?st (lhb s) ?is (bs s) = Ok () b1" "cst me ?P {} b1"
      "view b1 = apply_writes (log_writes s) (view (bs s))" "disk b1 = apply_writes (log_writes s) (disk (bs s))"
      "wlog b1 = wlog (bs s) @ log_writes s"
    using write_log_loop_ok [OF k(5,7) inP area] unfolding log_writes_def by blast
  have "?st \<notin> fst ` set (log_writes s)" by (auto simp: log_writes_def log_block_def)
  then have v1: "view b1 ?st = disk (bs s) ?st" using 1(3) bc.unheld [OF k(5) st] by (simp add: apply_writes_other)
  define s1 where "s1 = s\<lparr>bs := b1\<rparr>"
  have s1: "lstart s1 = ?st" "lhn s1 = lhn s" "lhb s1 = lhb s" "bs s1 = b1" by (simp_all add: s1_def)
  have "cst me ?P {} (bs s1)" using 1(2) s1 by simp
  from write_head_ok [OF this k(7)] obtain b2 where 2: "write_head me s1 = Ok () (s1\<lparr>bs := b2\<rparr>)" "cst me ?P {} b2"
      "view b2 = (view b1)(?st := head_write s)" "disk b2 = (disk b1)(?st := head_write s)" "wlog b2 = wlog b1 @ [(?st, head_write s)]"
    unfolding s1 v1 head_write_def by blast
  have lb: "\<forall>i \<in> set ?is. view b1 (lhb s i) = view (bs s) (lhb s i) \<and> view b1 (log_block ?st i) = view (bs s) (lhb s i)"
  proof
    fix i assume i: "i \<in> set ?is"
    have "\<forall>j \<in> set ?is. lhb s i \<noteq> log_block ?st j" using inP area i by metis
    then have "lhb s i \<notin> fst ` set (log_writes s)" unfolding log_writes_def by (simp add: image_iff)
    moreover have "distinct (map fst (log_writes s))" by (auto simp: fst_log_writes distinct_map inj_on_def log_block_def)
    moreover have "(log_block ?st i, view (bs s) (lhb s i)) \<in> set (log_writes s)" using i by (simp add: log_writes_def)
    ultimately show "view b1 (lhb s i) = view (bs s) (lhb s i) \<and> view b1 (log_block ?st i) = view (bs s) (lhb s i)"
      using 1(3) apply_writes_at by (simp add: apply_writes_other)
  qed
  have home: "\<forall>i \<in> set ?is. lhb s i \<noteq> ?st" using inP st by metis
  have v2: "\<forall>i \<in> set ?is. view b2 (lhb s i) = view (bs s) (lhb s i) \<and> view b2 (log_block ?st i) = view (bs s) (lhb s i)"
    using lb 2(3) home by (auto simp: log_block_def)
  have m: "map (\<lambda>i. (lhb s i, view b2 (lhb s i))) ?is = home_writes s" unfolding home_writes_def using v2 by auto
  have "distinct (map (lhb s) ?is)" "\<forall>i \<in> set ?is. view b2 (log_block ?st i) = view b2 (lhb s i)" using k(4) v2 by (simp_all add: logged_def)
  from install_commit_ok [OF 2(2) k(7) inP area this] obtain b3 where
    3: "install_trans_loop me False ?st (lhb s) ?is b2 = Ok () b3" "cst me (?P - lhb s ` set ?is) {} b3" "view b3 = view b2"
       "disk b3 = apply_writes (home_writes s) (disk b2)" "wlog b3 = wlog b2 @ home_writes s"
    unfolding m by blast
  have c3: "cst me {} {} b3" using 3(2) by (simp add: logged_def)
  define s3 where "s3 = s\<lparr>bs := b3, lhn := 0\<rparr>"
  have v3: "view (bs s3) (lstart s3) = head_write s" using 3(3) 2(3) by (simp add: s3_def)
  have "cst me {} {} (bs s3)" using c3 by (simp add: s3_def)
  from write_head_ok [OF this] obtain b4 where 4: "write_head me s3 = Ok () (s3\<lparr>bs := b4\<rparr>)" "cst me {} {} b4"
      "disk b4 = (disk b3)(?st := put_le 4 0 0 (head_write s))" "wlog b4 = wlog b3 @ [(?st, put_le 4 0 0 (head_write s))]"
    unfolding v3 by (auto simp: s3_def NBUF_def put_head_0)
  have "commit me s = Ok () (s\<lparr>lhn := 0, bs := b4\<rparr>)"
    using assms(2) 1(1) 2(1) 3(1) 4(1) by (simp add: commit_def write_log_def install_trans_def s1_def s3_def)
  moreover have "disk b4 = apply_writes (commit_writes s) (disk (bs s))"
    unfolding 4(3) 3(4) 2(4) 1(4) commit_writes_def by (simp add: apply_writes_append del: fun_upd_apply)
  ultimately show ?thesis using 4(2,4) 3(5) 2(5) 1(5) by (auto simp: commit_writes_def)
qed

subsection \<open>Crashes\<close>

lemma recovered_empty: "head_n start d = 0 \<Longrightarrow> b \<noteq> start \<Longrightarrow> recovered start d b = d b"
  by (simp add: recovered_def)

lemma head_sound_empty: "head_n start d = 0 \<Longrightarrow> head_sound start d"
  by (simp add: head_sound_def LOGSIZE_def MAXOPBLOCKS_def)

lemma head_n_cong: "d start = d' start \<Longrightarrow> head_n start d = head_n start d'"
  by (simp add: head_n_def)

text \<open>Before the header is written: the log blocks change, nothing else.\<close>

lemma crash_before:
  assumes "log_ok me {} s" and "k \<le> nat (lhn s)"
  defines "d \<equiv> apply_writes (take k (commit_writes s)) (disk (bs s))"
  shows "head_sound (lstart s) d" and "b \<notin> log_area (lstart s) (nat (lsize s)) \<Longrightarrow> recovered (lstart s) d b = disk (bs s) b"
proof -
  note ok = log_okD [OF assms(1)]
  have d: "d = apply_writes (take k (log_writes s)) (disk (bs s))"
    using assms(2) by (simp add: d_def commit_writes_def log_writes_def)
  have sub: "fst ` set (take k (log_writes s)) \<subseteq> log_block (lstart s) ` {..<nat (lhn s)}"
    using set_take_subset [of k "log_writes s"] by (auto simp: log_writes_def)
  then have "lstart s \<notin> fst ` set (take k (log_writes s))" by (auto simp: log_block_def)
  then have "head_n (lstart s) d = 0" using ok(6) d by (metis apply_writes_other head_n_cong)
  then show "head_sound (lstart s) d" by (rule head_sound_empty)
  assume b: "b \<notin> log_area (lstart s) (nat (lsize s))"
  have "b \<notin> fst ` set (take k (log_writes s))" "b \<noteq> lstart s"
    using sub b ok(2) log_block_area [of _ "nat (lhn s)" "nat (lsize s)" "lstart s"] by (auto simp: log_area_def)
  then show "recovered (lstart s) d b = disk (bs s) b"
    using recovered_empty [OF \<open>head_n (lstart s) d = 0\<close>] d by (simp add: apply_writes_other)
qed

text \<open>What the disk holds once the log and its header are written and some home blocks are too.\<close>

lemma committed_disk:
  assumes "log_ok me {} s" and "ws = take m (home_writes s)"
  defines "d \<equiv> apply_writes (log_writes s @ (lstart s, head_write s) # ws) (disk (bs s))"
  shows "d (lstart s) = head_write s" and "i < nat (lhn s) \<Longrightarrow> d (log_block (lstart s) i) = view (bs s) (lhb s i)"
    and "b \<notin> set (logged s) \<Longrightarrow> b \<notin> log_area (lstart s) (nat (lsize s)) \<Longrightarrow> d b = disk (bs s) b"
proof -
  note ok = log_okD [OF assms(1)]
  let ?st = "lstart s"
  have sub: "fst ` set ws \<subseteq> set (logged s)"
    using set_take_subset [of m "home_writes s"] arg_cong [OF fst_home_writes, of set s] assms(2) by auto
  have d: "d = apply_writes ws ((apply_writes (log_writes s) (disk (bs s)))(?st := head_write s))"
    by (simp add: d_def apply_writes_append del: fun_upd_apply)
  have ar: "b \<in> log_area ?st (nat (lsize s)) \<Longrightarrow> b \<notin> fst ` set ws" for b using sub ok(8) by blast
  have st: "?st \<in> log_area ?st (nat (lsize s))" using ok(2) by (simp add: log_area_def)
  show "d ?st = head_write s" using ar [OF st] d by (simp add: apply_writes_other)
  show "d (log_block ?st i) = view (bs s) (lhb s i)" if i: "i < nat (lhn s)"
  proof -
    have "log_block ?st i \<notin> fst ` set ws" "log_block ?st i \<noteq> ?st" using ar log_block_area [OF i ok(2)] by auto
    moreover have "(log_block ?st i, view (bs s) (lhb s i)) \<in> set (log_writes s)" using i by (simp add: log_writes_def)
    moreover have "distinct (map fst (log_writes s))" by (auto simp: fst_log_writes distinct_map inj_on_def log_block_def)
    ultimately show ?thesis using d by (simp add: apply_writes_other apply_writes_at)
  qed
  show "d b = disk (bs s) b" if b: "b \<notin> set (logged s)" "b \<notin> log_area ?st (nat (lsize s))"
  proof -
    have "b \<notin> fst ` set ws" using sub b(1) by blast
    moreover have "b \<notin> fst ` set (log_writes s)"
      using b(2) log_block_area [OF _ ok(2), of _ ?st] by (auto simp: log_writes_def)
    moreover have "b \<noteq> ?st" using b(2) st by auto
    ultimately show ?thesis using d by (simp add: apply_writes_other)
  qed
qed

lemma crash_after_head:
  assumes "log_ok me {} s" and "ws = take m (home_writes s)"
  defines "d \<equiv> apply_writes (log_writes s @ (lstart s, head_write s) # ws) (disk (bs s))"
  shows "head_sound (lstart s) d" and "b \<notin> log_area (lstart s) (nat (lsize s)) \<Longrightarrow> recovered (lstart s) d b = view (bs s) b"
proof -
  note ok = log_okD [OF assms(1)]
  note cd = committed_disk [OF assms(1,2), folded d_def]
  let ?st = "lstart s" and ?n = "nat (lhn s)"
  have lim: "lhn s \<le> LOGSIZE" using assms(1) by (simp add: log_ok_def)
  have hn: "head_n ?st d = lhn s" using cd(1) put_head_n [OF ok(1) lim] by (simp add: head_n_def head_write_def)
  have hb: "head_block ?st d i = lhb s i" if "i < ?n" for i
    using that cd(1) ok(8) [of "lhb s i"] by (simp add: head_block_def head_write_def put_head_block logged_def)
  have lg: "lhb s i \<in> set (logged s)" if "i < ?n" for i using that by (simp add: logged_def)
  show "head_sound ?st d"
    using lim hn hb lg ok(8) log_block_area [OF _ ok(2), of _ ?st] by (fastforce simp: head_sound_def)
  have m: "map (\<lambda>i. (head_block ?st d i, d (log_block ?st i))) [0..<nat (head_n ?st d)] = home_writes s"
    unfolding home_writes_def hn using hb cd(2) by auto
  assume b: "b \<notin> log_area ?st (nat (lsize s))"
  then have "b \<noteq> ?st" using ok(2) by (auto simp: log_area_def)
  then have r: "recovered ?st d b = apply_writes (home_writes s) d b" by (simp add: recovered_def m Let_def)
  show "recovered ?st d b = view (bs s) b"
  proof (cases "b \<in> set (logged s)")
    case True
    then have "(b, view (bs s) b) \<in> set (home_writes s)" by (auto simp: logged_def home_writes_def)
    then show ?thesis unfolding r using ok(4) by (intro apply_writes_at) (simp_all add: fst_home_writes)
  next
    case False
    then have "b \<notin> fst ` set (home_writes s)" using arg_cong [OF fst_home_writes, of set s] by simp
    then show ?thesis unfolding r using cd(3) [OF False b] bc.unheld [OF ok(5) False] by (simp add: apply_writes_other)
  qed
qed

lemma crash_end:
  assumes "log_ok me {} s"
  defines "d \<equiv> apply_writes (commit_writes s) (disk (bs s))"
  shows "head_sound (lstart s) d" and "b \<notin> log_area (lstart s) (nat (lsize s)) \<Longrightarrow> recovered (lstart s) d b = view (bs s) b"
    and "head_n (lstart s) d = 0" and "b \<notin> log_area (lstart s) (nat (lsize s)) \<Longrightarrow> d b = view (bs s) b"
proof -
  note ok = log_okD [OF assms(1)]
  let ?st = "lstart s"
  let ?e = "apply_writes (log_writes s @ (?st, head_write s) # home_writes s) (disk (bs s))"
  have d: "d = ?e(?st := put_le 4 0 0 (head_write s))"
    by (simp add: d_def commit_writes_def apply_writes_append del: fun_upd_apply)
  show hn: "head_n ?st d = 0" by (simp add: d head_n_def sint32_def)
  then show "head_sound ?st d" by (rule head_sound_empty)
  assume b: "b \<notin> log_area ?st (nat (lsize s))"
  then have bs: "b \<noteq> ?st" using ok(2) by (auto simp: log_area_def)
  show v: "d b = view (bs s) b"
  proof (cases "b \<in> set (logged s)")
    case True
    then have "(b, view (bs s) b) \<in> set (home_writes s)" by (auto simp: logged_def home_writes_def)
    then show ?thesis using bs ok(4) apply_writes_at [of "home_writes s" b]
      by (simp add: d apply_writes_append fst_home_writes del: apply_writes.simps(1)) 
  next
    case False
    then show ?thesis using committed_disk(3) [OF assms(1) _ False b, of "home_writes s" "length (home_writes s)"] bs
      bc.unheld [OF ok(5) False] by (simp add: d)
  qed
  show "recovered ?st d b = view (bs s) b" using recovered_empty [OF hn bs] v by simp
qed

lemma take_commit_writes:
  assumes "nat (lhn s) < k"
  shows "take k (commit_writes s) = commit_writes s \<or>
         (\<exists>m. take k (commit_writes s) = log_writes s @ (lstart s, head_write s) # take m (home_writes s))"
proof -
  obtain m where k: "k = nat (lhn s) + Suc m" using assms less_imp_Suc_add by fastforce
  have l: "length (log_writes s) = nat (lhn s)" "length (home_writes s) = nat (lhn s)" by (simp_all add: log_writes_def home_writes_def)
  show ?thesis
  proof (cases "m \<le> nat (lhn s)")
    case True
    then have "take k (commit_writes s) = log_writes s @ (lstart s, head_write s) # take m (home_writes s)"
      using k l by (simp add: commit_writes_def)
    then show ?thesis by blast
  next
    case False
    then show ?thesis using k l by (simp add: commit_writes_def)
  qed
qed

definition boot :: "(nat \<Rightarrow> blk) \<Rightarrow> lsys" where
  "boot d = \<lparr>bs = binit (zero_bsys d), lstart = 0, lsize = 0, outstanding = 0, committing = False, lhn = 0, lhb = (\<lambda>_. 0)\<rparr>"

lemma boot_cst: "cst me {} {} (bs (boot d))" "disk (bs (boot d)) = d"
  using fresh_cst [of "zero_bsys d" me] by (simp_all add: boot_def zero_bsys_def binit_dll)

lemma write_head_same:
  "write_head me s = Ok () t \<Longrightarrow> outstanding t = outstanding s \<and> committing t = committing s"
  by (auto simp: write_head_def lift_bs_def split: res.splits)

lemma install_trans_same:
  "install_trans me r s = Ok () t \<Longrightarrow> outstanding t = outstanding s \<and> committing t = committing s"
  by (auto simp: install_trans_def lift_bs_def split: res.splits)

lemma read_head_same:
  "read_head me s = Ok () t \<Longrightarrow> outstanding t = outstanding s \<and> committing t = committing s"
  by (auto simp: read_head_def lift_bs_def seqr_eq_Ok Let_def split: res.splits if_splits)

lemma initlog_boot:
  assumes "head_n start d = 0"
  shows "\<exists>t. initlog me start nlog (boot d) = Ok () t \<and> lhn t = 0 \<and> lstart t = start \<and> lsize t = int nlog \<and>
             cst me {} {} (bs t) \<and> disk (bs t) = recovered start d \<and> outstanding t = 0 \<and> \<not> committing t"
proof -
  obtain t where t: "initlog me start nlog (boot d) = Ok () t" "lhn t = 0" "lstart t = start" "lsize t = int nlog"
      "cst me {} {} (bs t)" "disk (bs t) = recovered start d"
    using initlog_recovers [of me "boot d" start nlog] head_sound_empty [OF assms] boot_cst by auto
  have "outstanding t = 0 \<and> \<not> committing t"
    using t(1) by (auto simp: initlog_def recover_from_log_def seqr_eq_Ok boot_def
        dest!: write_head_same install_trans_same read_head_same split: if_splits)
  with t show ?thesis by blast
qed

lemma crash_recovers:
  assumes "log_ok me {} s"
  shows "\<exists>r. initlog p (lstart s) (nat (lsize s)) (boot (apply_writes (take k (commit_writes s)) (disk (bs s)))) = Ok () r \<and>
             (\<forall>b. b \<notin> log_area (lstart s) (nat (lsize s)) \<longrightarrow>
                  disk (bs r) b = (if k \<le> nat (lhn s) then disk (bs s) b else view (bs s) b))"
proof -
  let ?d = "apply_writes (take k (commit_writes s)) (disk (bs s))"
  have "head_sound (lstart s) ?d \<and> (\<forall>b. b \<notin> log_area (lstart s) (nat (lsize s)) \<longrightarrow>
      recovered (lstart s) ?d b = (if k \<le> nat (lhn s) then disk (bs s) b else view (bs s) b))"
  proof (cases "k \<le> nat (lhn s)")
    case True
    then show ?thesis using crash_before [OF assms] by simp
  next
    case False
    then show ?thesis using take_commit_writes [of s k] crash_after_head [OF assms refl] crash_end [OF assms] by auto
  qed
  then show ?thesis
    using initlog_recovers [of p "boot ?d" "lstart s" "nat (lsize s)"] boot_cst(1) [of p ?d] boot_cst(2) [of ?d] by auto
qed

subsection \<open>Operations inside a transaction\<close>

lemma log_write_ok:
  assumes "log_ok me H s" and "n \<in> H" and "cached (bs s) b n" and "n < 2 ^ 32" and "n \<notin> log_area (lstart s) (nat (lsize s))"
    and "1 \<le> outstanding s" and "lhn s < lsize s - 1"
  shows "\<exists>t. log_write b s = Ok () t \<and> log_ok me H t \<and> set (logged t) = insert n (set (logged s)) \<and>
             view (bs t) = view (bs s) \<and> disk (bs t) = disk (bs s) \<and> wlog (bs t) = wlog (bs s) \<and>
             cached (bs t) = cached (bs s) \<and> outstanding t = outstanding s \<and> lstart t = lstart s \<and> lsize t = lsize s"
proof -
  note ok = log_okD [OF assms(1)]
  let ?n = "nat (lhn s)" and ?scan = "scan_first (\<lambda>i. lhb s i = n) [0..<nat (lhn s)]"
  have bn: "blockno (bufs (bs s) b) = n" using assms(3) by (simp add: cached_def)
  have g: "\<not> (lhn s \<ge> LOGSIZE \<or> lhn s \<ge> lsize s - 1)" "\<not> outstanding s < 1" using assms(1,6,7) by (auto simp: log_ok_def)
  show ?thesis
  proof (cases ?scan)
    case (Some i)
    then have i: "i < ?n" "lhb s i = n" by (auto dest: scan_first_SomeD)
    then have "log_write b s = Ok () s" using g Some bn by (auto simp: log_write_def Let_def)
    moreover have "n \<in> set (logged s)" using i by (auto simp: logged_def)
    ultimately show ?thesis using assms(1) by auto
  next
    case None
    then have new: "n \<notin> set (logged s)" by (auto simp: scan_first_None_iff logged_def)
    define t where "t = s\<lparr>lhb := (lhb s)(?n := n), bs := bpin b (bs s), lhn := lhn s + 1\<rparr>"
    have r: "log_write b s = Ok () t" using g None bn ok(1) by (simp add: log_write_def Let_def t_def)
    have "nat (lhn s + 1) = Suc ?n" using ok(1) by simp
    then have lt: "logged t = logged s @ [n]" by (simp add: logged_def t_def)
    note p = bc.pin_ok [OF ok(5) assms(2) new assms(3)]
    have "log_ok me H t" unfolding log_ok_def
    proof (intro conjI ballI)
      show "cst me (set (logged t)) H (bs t)" using p lt by (simp add: t_def)
      show "distinct (logged t)" using ok(4) new lt by simp
    next
      fix b assume "b \<in> set (logged t)"
      then show "b < 2 ^ 32" "b \<notin> log_area (lstart t) (nat (lsize t))" using lt ok(8) assms(4,5) by (auto simp: t_def)
    qed (use ok(1,6) assms(1,7) p in \<open>auto simp: t_def log_ok_def\<close>)
    then show ?thesis using r lt p by (auto simp: t_def)
  qed
qed

text \<open>An admitted operation leaves room for \<open>MAXOPBLOCKS\<close> blocks of every running operation.\<close>

definition reserved :: "lsys \<Rightarrow> bool" where
  "reserved s \<longleftrightarrow> 0 \<le> outstanding s \<and> lhn s + outstanding s * MAXOPBLOCKS \<le> LOGSIZE"

lemma begin_op_cases:
  "begin_op me s = (if committing s \<or> LOGSIZE < lhn s + (outstanding s + 1) * MAXOPBLOCKS
     then Wait (lsleep me s) else Ok () (s\<lparr>outstanding := outstanding s + 1\<rparr>))"
  by (simp add: begin_op_def)

lemma commit_log_ok:
  assumes "log_ok me {} s"
  shows "\<exists>b. commit me s = Ok () (s\<lparr>lhn := 0, bs := b\<rparr>) \<and> log_ok me {} (s\<lparr>lhn := 0, bs := b\<rparr>) \<and>
     (\<forall>n. n \<notin> log_area (lstart s) (nat (lsize s)) \<longrightarrow> disk b n = view (bs s) n \<and> view b n = view (bs s) n) \<and>
     (\<exists>ws. wlog b = wlog (bs s) @ ws \<and> ws = (if 0 < lhn s then commit_writes s else []))"
proof (cases "0 < lhn s")
  case False
  note ok = log_okD [OF assms]
  have z: "lhn s = 0" using False ok(1) by simp
  then have c: "cst me {} {} (bs s)" using ok(5) by (simp add: logged_def)
  have "view (bs s) n = disk (bs s) n" for n using bc.unheld [OF c] by simp
  moreover have "s\<lparr>lhn := 0, bs := bs s\<rparr> = s" using z by simp
  ultimately show ?thesis using assms False by (intro exI [of _ "bs s"]) (simp add: commit_def)
next
  case True
  from commit_ok [OF assms True] obtain b where b: "commit me s = Ok () (s\<lparr>lhn := 0, bs := b\<rparr>)" "cst me {} {} b"
    "wlog b = wlog (bs s) @ commit_writes s" "disk b = apply_writes (commit_writes s) (disk (bs s))" by blast
  note e = crash_end [OF assms, folded b(4)]
  have "view b n = disk b n" for n using bc.unheld [OF b(2)] by simp
  moreover have "log_ok me {} (s\<lparr>lhn := 0, bs := b\<rparr>)" using assms b(2) e(3) by (auto simp: log_ok_def logged_def)
  ultimately show ?thesis using b(1,3) e(4) True by (intro exI [of _ b]) simp
qed

subsection \<open>Properties of the log\<close>

definition demo_log :: lsys where
  "demo_log = \<lparr>bs = upd_buf 0 (\<lambda>x. x\<lparr>dev := ROOTDEV, blockno := 50, refcnt := 1, valid := True, data := (\<lambda>_. 7)\<rparr>)
       (binit (zero_bsys (\<lambda>_ _. 0))), lstart = 2, lsize = 30, outstanding = 1, committing = False, lhn = 1, lhb = (\<lambda>_. 50)\<rparr>"

lemma demo_log_ok: "log_ok 1 {} demo_log"
proof -
  let ?z = "binit (zero_bsys (\<lambda>_ _. 0))"
  have z: "bufs ?z i = \<lparr>valid = False, dev = 0, blockno = 0, refcnt = 0, slock = None, data = (\<lambda>_. 0)\<rparr>" for i
    using binit_dll(2) [of "zero_bsys (\<lambda>_ _. 0)" i] by (simp add: zero_bsys_def)
  have zd: "disk ?z = (\<lambda>_ _. 0)" by (simp add: binit_dll) (simp add: zero_bsys_def)
  have "binv (bs demo_log)" unfolding demo_log_def
    by simp (rule binv_upd_used [OF zero_bsys_binit(1)]; simp add: NBUF_def cached_def z ROOTDEV_def)
  then have "cst 1 {50} {} (bs demo_log)"
    by (auto simp: cst_def demo_log_def in_set_def cached_def z ROOTDEV_def NBUF_def intro!: exI [of _ 0])
  then show ?thesis
    by (simp add: log_ok_def logged_def demo_log_def log_area_def LOGSIZE_def MAXOPBLOCKS_def head_n_def zd get_le_def sint32_def)
qed

text \<open>The end of the last operation of a transaction.\<close>

lemma end_op_commits:
  assumes "log_ok me {} s" and "outstanding s = 1" and "\<not> committing s"
  shows "\<exists>t. end_op me s = Ok () t \<and> log_ok me {} t \<and> lhn t = 0 \<and> outstanding t = 0 \<and> \<not> committing t \<and>
     lstart t = lstart s \<and> lsize t = lsize s \<and> wlog (bs t) = wlog (bs s) @ (if 0 < lhn s then commit_writes s else []) \<and>
     (\<forall>n. n \<notin> log_area (lstart s) (nat (lsize s)) \<longrightarrow> disk (bs t) n = view (bs s) n \<and> view (bs t) n = view (bs s) n)"
proof -
  define u where "u = s\<lparr>outstanding := 0, committing := True\<rparr>"
  have u: "log_ok me {} u" "lstart u = lstart s" "lsize u = lsize s" "lhn u = lhn s" "bs u = bs s"
    using assms(1) by (auto simp: u_def log_ok_def logged_def)
  have cw: "commit_writes u = commit_writes s"
    by (simp add: u_def commit_writes_def log_writes_def home_writes_def head_write_def)
  obtain b where b: "commit me u = Ok () (u\<lparr>lhn := 0, bs := b\<rparr>)" "log_ok me {} (u\<lparr>lhn := 0, bs := b\<rparr>)"
      "wlog b = wlog (bs s) @ (if 0 < lhn s then commit_writes s else [])"
      "\<forall>n. n \<notin> log_area (lstart s) (nat (lsize s)) \<longrightarrow> disk b n = view (bs s) n \<and> view b n = view (bs s) n"
    using commit_log_ok [OF u(1)] unfolding u(2-5) cw by blast
  define t where "t = lwakeup me (u\<lparr>lhn := 0, bs := b, committing := False\<rparr>)"
  have "end_op me s = Ok () t"
    using assms(2,3) b(1) by (simp add: end_op_def Let_def u_def t_def)
  moreover have v: "view (bs t) = view b" "disk (bs t) = disk b" "wlog (bs t) = wlog b"
    by (simp_all add: t_def lwakeup_def)
  moreover have "log_ok me {} t"
    using b(2) v by (simp add: t_def lwakeup_def u_def log_ok_def logged_def)
  ultimately show ?thesis
    using b(3,4) by (intro exI [of _ t]) (auto simp: t_def lwakeup_def u_def)
qed

text \<open>C3. Crash safety of the log. When the last operation of a transaction ends, \<^verbatim>\<open>end_op\<close> commits
  without waiting or panicking; afterwards every block outside the log is on disk with the contents
  the operations gave it. If the machine stops after any number \<open>k\<close> of the block writes of the
  commit, \<^verbatim>\<open>initlog\<close> at the next boot succeeds and leaves every block outside the log either as it
  was before the transaction, for all of them (when the header had not been written), or as the
  transaction left it, for all of them.\<close>

theorem end_op_crash_safe:
  assumes "log_ok me {} s" and "outstanding s = 1" and "\<not> committing s"
  shows "\<exists>t ws. end_op me s = Ok () t \<and> log_ok me {} t \<and> lhn t = 0 \<and> outstanding t = 0 \<and> \<not> committing t \<and>
     wlog (bs t) = wlog (bs s) @ ws \<and>
     (\<forall>n. n \<notin> log_area (lstart s) (nat (lsize s)) \<longrightarrow> disk (bs t) n = view (bs s) n \<and> view (bs t) n = view (bs s) n) \<and>
     (0 < lhn s \<longrightarrow> (\<forall>k. \<exists>r. initlog p (lstart s) (nat (lsize s)) (boot (apply_writes (take k ws) (disk (bs s)))) = Ok () r \<and>
        (\<forall>b. b \<notin> log_area (lstart s) (nat (lsize s)) \<longrightarrow>
             disk (bs r) b = (if k \<le> nat (lhn s) then disk (bs s) b else view (bs s) b))))"
  using end_op_commits [OF assms] crash_recovers [OF assms(1), of p] by force

theorem end_op_crash_safe_witness:
  "log_ok 1 {} demo_log \<and> lhn demo_log = 1 \<and> view (bs demo_log) 50 0 = 7 \<and> disk (bs demo_log) 50 0 = 0 \<and>
   (\<exists>t. end_op 1 demo_log = Ok () t \<and> disk (bs t) 50 0 = 7)"
proof -
  have z: "disk (binit (zero_bsys (\<lambda>_ _. 0))) = (\<lambda>_ _. 0)" by (simp add: binit_dll) (simp add: zero_bsys_def)
  have c: "cached (bs demo_log) 0 50" "valid (bufs (bs demo_log) 0)" "data (bufs (bs demo_log) 0) = (\<lambda>_. 7)"
    by (simp_all add: demo_log_def cached_def ROOTDEV_def NBUF_def)
  have v: "view (bs demo_log) 50 = (\<lambda>_. 7)"
    using view_cached [OF cst_binv [OF log_okD(5) [OF demo_log_ok]] c(1)] c by simp
  have a: "50 \<notin> log_area (lstart demo_log) (nat (lsize demo_log))" by (simp add: demo_log_def log_area_def)
  have "\<exists>t. end_op 1 demo_log = Ok () t \<and> disk (bs t) 50 0 = 7"
    using end_op_crash_safe [OF demo_log_ok, of 1] a v by (auto simp: demo_log_def)
  then show ?thesis using demo_log_ok v z by (simp add: demo_log_def)
qed

subsection \<open>Blocks logged by a file system operation\<close>

definition lbread :: "nat \<Rightarrow> nat \<Rightarrow> lsys \<Rightarrow> (nat, lsys) res" where
  "lbread me n s = lift_bs (bread me ROOTDEV n (bs s)) s"

definition lbrelse :: "nat \<Rightarrow> nat \<Rightarrow> lsys \<Rightarrow> (unit, lsys) res" where
  "lbrelse me b s = lift_bs (brelse me b (bs s)) s"

text \<open>The pattern of every update of the file system: \<^verbatim>\<open>bread\<close>, change the data, \<^verbatim>\<open>log_write\<close>,
  \<^verbatim>\<open>brelse\<close>.\<close>

definition tx_update :: "nat \<Rightarrow> nat \<Rightarrow> (blk \<Rightarrow> blk) \<Rightarrow> lsys \<Rightarrow> (unit, lsys) res" where
  "tx_update me n f s =
     seqr (lbread me n s) (\<lambda>b s.
     seqr (log_write b (s\<lparr>bs := set_data b (f (get_data b (bs s))) (bs s)\<rparr>)) (\<lambda>_ s.
     lbrelse me b s))"

definition same_log :: "lsys \<Rightarrow> lsys \<Rightarrow> bool" where
  "same_log s t \<longleftrightarrow> lstart t = lstart s \<and> lsize t = lsize s \<and> outstanding t = outstanding s \<and> committing t = committing s \<and>
     disk (bs t) = disk (bs s) \<and> wlog (bs t) = wlog (bs s)"

lemma log_ok_bs:
  assumes "log_ok me H s" and "cst me (set (logged s)) K b" and "disk b = disk (bs s)"
  shows "log_ok me K (s\<lparr>bs := b\<rparr>)"
  using assms by (auto simp: log_ok_def logged_def)

lemma lbread_ok:
  assumes "log_ok me H s" and "n \<notin> H" and "n \<in> set (logged s) \<or> card (set (logged s) \<union> H) < NBUF"
  shows "\<exists>b c. lbread me n s = Ok b (s\<lparr>bs := c\<rparr>) \<and> log_ok me (insert n H) (s\<lparr>bs := c\<rparr>) \<and> cached c b n \<and>
     view c = view (bs s) \<and> disk c = disk (bs s) \<and> wlog c = wlog (bs s) \<and> get_data b c = view (bs s) n \<and>
     (\<forall>i m. m \<in> set (logged s) \<union> H \<longrightarrow> cached (bs s) i m \<longrightarrow> cached c i m)"
proof -
  obtain b c where c: "bread me ROOTDEV n (bs s) = Ok b c" "cst me (set (logged s)) (insert n H) c" "cached c b n"
      "view c = view (bs s)" "disk c = disk (bs s)" "wlog c = wlog (bs s)"
      "\<forall>i m. m \<in> set (logged s) \<union> H \<longrightarrow> cached (bs s) i m \<longrightarrow> cached c i m"
    using bc.rd_ok [OF log_okD(5) [OF assms(1)] assms(2,3)] by blast
  moreover have "get_data b c = view (bs s) n" using bc.get_seen [OF c(2) _ c(3)] c(4) by simp
  ultimately show ?thesis using log_ok_bs [OF assms(1) c(2,5)] by (auto simp: lbread_def)
qed

lemma lbrelse_ok:
  assumes "log_ok me H s" and "n \<in> H" and "cached (bs s) b n" and "n \<in> set (logged s) \<or> view (bs s) n = disk (bs s) n"
  shows "\<exists>c. lbrelse me b s = Ok () (s\<lparr>bs := c\<rparr>) \<and> log_ok me (H - {n}) (s\<lparr>bs := c\<rparr>) \<and>
     view c = view (bs s) \<and> disk c = disk (bs s) \<and> wlog c = wlog (bs s) \<and> cached c = cached (bs s)"
proof -
  obtain c where c: "brelse me b (bs s) = Ok () c" "cst me (set (logged s)) (H - {n}) c" "view c = view (bs s)" "disk c = disk (bs s)"
      "wlog c = wlog (bs s)" "cached c = cached (bs s)"
    using bc.rel_ok [OF log_okD(5) [OF assms(1)] assms(2-4)] by blast
  then show ?thesis using log_ok_bs [OF assms(1) c(2,4)] by (auto simp: lbrelse_def)
qed

text \<open>The count of logged blocks is the size of their set.\<close>

lemma lhn_card: "log_ok me H s \<Longrightarrow> lhn s = int (card (set (logged s)))"
  using log_okD(1,4) [of me H s] distinct_card [of "logged s"] by (simp add: logged_def)

definition keeps :: "nat set \<Rightarrow> lsys \<Rightarrow> lsys \<Rightarrow> bool" where
  "keeps H s t \<longleftrightarrow> same_log s t \<and> set (logged s) \<subseteq> set (logged t) \<and>
     (\<forall>i m. m \<in> H \<longrightarrow> cached (bs s) i m \<longrightarrow> cached (bs t) i m)"

lemma keeps_refl [simp]: "keeps H s s"
  by (simp add: keeps_def same_log_def)

lemma keeps_trans: "keeps H s t \<Longrightarrow> keeps K t u \<Longrightarrow> H \<subseteq> K \<Longrightarrow> keeps H s u"
  unfolding keeps_def same_log_def by (auto dest: subsetD)

lemma log_room:
  assumes "log_ok me H s" and "card K \<le> 1" and "lhn s < lsize s - 1"
  shows "card (set (logged s) \<union> K) < NBUF"
proof -
  have "card (set (logged s)) < 29" using lhn_card [OF assms(1)] assms(1,3) by (simp add: log_ok_def LOGSIZE_def MAXOPBLOCKS_def)
  then show ?thesis using card_Un_le [of "set (logged s)" K] assms(2) by (simp add: NBUF_def)
qed

lemma tx_update_ok:
  assumes "log_ok me H s" and "n \<notin> H" and "card H \<le> 1" and "n < 2 ^ 32" and "n \<notin> log_area (lstart s) (nat (lsize s))"
    and "1 \<le> outstanding s" and "lhn s < lsize s - 1"
  shows "\<exists>t. tx_update me n f s = Ok () t \<and> log_ok me H t \<and> view (bs t) = (view (bs s))(n := f (view (bs s) n)) \<and>
     set (logged t) = insert n (set (logged s)) \<and> keeps H s t"
proof -
  have r: "n \<in> set (logged s) \<or> card (set (logged s) \<union> H) < NBUF" using log_room [OF assms(1,3,7)] by simp
  obtain b c where 1: "lbread me n s = Ok b (s\<lparr>bs := c\<rparr>)" "log_ok me (insert n H) (s\<lparr>bs := c\<rparr>)" "cached c b n" "view c = view (bs s)"
      "disk c = disk (bs s)" "wlog c = wlog (bs s)" "get_data b c = view (bs s) n"
      "\<forall>i m. m \<in> set (logged s) \<union> H \<longrightarrow> cached (bs s) i m \<longrightarrow> cached c i m"
    using lbread_ok [OF assms(1,2) r] by blast
  define d where "d = set_data b (f (view (bs s) n)) c"
  have 2: "cst me (set (logged s)) (insert n H) d" "view d = (view (bs s))(n := f (view (bs s) n))" "disk d = disk (bs s)" "wlog d = wlog (bs s)" "cached d = cached c"
    using bc.put_ok [OF log_okD(5) [OF 1(2)], of n b "f (view (bs s) n)"] 1 by (simp_all add: d_def logged_def)
  define s2 where "s2 = s\<lparr>bs := d\<rparr>"
  have o2: "log_ok me (insert n H) s2" using log_ok_bs [OF assms(1) 2(1,3)] by (simp add: s2_def)
  have p2: "cached (bs s2) b n" "n \<notin> log_area (lstart s2) (nat (lsize s2))" "1 \<le> outstanding s2" "lhn s2 < lsize s2 - 1"
    using 2 1(3) assms(5-7) by (simp_all add: s2_def)
  from log_write_ok [OF o2 insertI1 p2(1) assms(4) p2(2-4)] obtain u where
    u: "log_write b s2 = Ok () u" "log_ok me (insert n H) u" "set (logged u) = insert n (set (logged s2))" "view (bs u) = view d" "disk (bs u) = disk d"
       "wlog (bs u) = wlog d" "cached (bs u) = cached c" "outstanding u = outstanding s" "lstart u = lstart s" "lsize u = lsize s"
    using 2 by (auto simp: s2_def)
  have cu: "committing u = committing s"
    using u(1) by (auto simp: log_write_def Let_def s2_def split: if_splits option.splits)
  have del: "insert n H - {n} = H" using assms(2) by auto
  obtain e where e: "lbrelse me b u = Ok () (u\<lparr>bs := e\<rparr>)" "log_ok me H (u\<lparr>bs := e\<rparr>)" "view e = view d" "disk e = disk d" "wlog e = wlog d" "cached e = cached c"
    using lbrelse_ok [OF u(2), of n b] u 1(3) del by auto
  have "tx_update me n f s = Ok () (u\<lparr>bs := e\<rparr>)"
    using 1(1,7) u(1) e(1) by (simp add: tx_update_def d_def s2_def)
  moreover have l: "set (logged (u\<lparr>bs := e\<rparr>)) = insert n (set (logged s))" using u(3) by (simp add: logged_def s2_def)
  moreover have "keeps H s (u\<lparr>bs := e\<rparr>)" using e 1(8) 2 u cu l unfolding keeps_def by (auto simp: same_log_def)
  ultimately show ?thesis using e 2 by (intro exI [of _ "u\<lparr>bs := e\<rparr>"]) simp
qed

text \<open>Reading a block and releasing it again changes nothing that can be seen.\<close>

definition tx_same :: "nat set \<Rightarrow> lsys \<Rightarrow> lsys \<Rightarrow> bool" where
  "tx_same H s t \<longleftrightarrow> view (bs t) = view (bs s) \<and> logged t = logged s \<and> lhn t = lhn s \<and> keeps H s t"

lemma tx_same_refl [simp]: "tx_same H s s"
  by (simp add: tx_same_def)

lemma tx_same_trans: "tx_same H s t \<Longrightarrow> tx_same H t u \<Longrightarrow> tx_same H s u"
  unfolding tx_same_def by (auto intro: keeps_trans)

lemma peek_ok:
  assumes "log_ok me H s" and "n \<notin> H" and "card H \<le> 1" and "lhn s < lsize s - 1"
  shows "\<exists>b s1 t. lbread me n s = Ok b s1 \<and> get_data b (bs s1) = view (bs s) n \<and> lbrelse me b s1 = Ok () t \<and>
     log_ok me H t \<and> tx_same H s t"
proof -
  have r: "n \<in> set (logged s) \<or> card (set (logged s) \<union> H) < NBUF" using log_room [OF assms(1,3,4)] by simp
  obtain b c where 1: "lbread me n s = Ok b (s\<lparr>bs := c\<rparr>)" "log_ok me (insert n H) (s\<lparr>bs := c\<rparr>)" "cached c b n" "view c = view (bs s)"
      "disk c = disk (bs s)" "wlog c = wlog (bs s)" "get_data b c = view (bs s) n"
      "\<forall>i m. m \<in> set (logged s) \<union> H \<longrightarrow> cached (bs s) i m \<longrightarrow> cached c i m"
    using lbread_ok [OF assms(1,2) r] by blast
  define s1 where "s1 = s\<lparr>bs := c\<rparr>"
  have "n \<in> set (logged s) \<or> view (bs s) n = disk (bs s) n" using bc.unheld [OF log_okD(5) [OF assms(1)]] assms(2) by blast
  then have v: "n \<in> set (logged s1) \<or> view (bs s1) n = disk (bs s1) n" using 1(4,5) by (simp add: s1_def logged_def)
  have c1: "cached (bs s1) b n" "log_ok me (insert n H) s1" using 1 by (simp_all add: s1_def)
  have del: "insert n H - {n} = H" using assms(2) by auto
  obtain e where e: "lbrelse me b s1 = Ok () (s1\<lparr>bs := e\<rparr>)" "log_ok me H (s1\<lparr>bs := e\<rparr>)" "view e = view (bs s1)" "disk e = disk (bs s1)"
      "wlog e = wlog (bs s1)" "cached e = cached (bs s1)"
    using lbrelse_ok [OF c1(2) insertI1 c1(1) v] unfolding del by blast
  have "tx_same H s (s1\<lparr>bs := e\<rparr>)"
    unfolding tx_same_def keeps_def same_log_def using 1 e by (auto simp: s1_def logged_def)
  then show ?thesis using 1(1,7) e(1,2) unfolding s1_def by auto
qed

lemma lhn_insert:
  assumes "log_ok me H s" and "log_ok me K t" and "set (logged t) = insert n (set (logged s))"
  shows "lhn t \<le> lhn s + 1" and "lhn s \<le> lhn t"
  using lhn_card [OF assms(1)] lhn_card [OF assms(2)] assms(3) card_insert_le_m1 [of "card (set (logged s)) + 1" "set (logged s)" n]
    card_insert_le [of "set (logged s)" n] by simp_all

subsection \<open>Admission\<close>

fun log_blocks :: "nat \<Rightarrow> nat list \<Rightarrow> lsys \<Rightarrow> (unit, lsys) res" where
  "log_blocks me [] s = Ok () s"
| "log_blocks me (n # ns) s = seqr (tx_update me n (\<lambda>x. x) s) (\<lambda>_ s. log_blocks me ns s)"

lemma log_blocks_ok:
  assumes "log_ok me {} s" and "1 \<le> outstanding s" and "distinct ns" and "set ns \<inter> set (logged s) = {}"
    and "\<forall>n \<in> set ns. n < 2 ^ 32 \<and> n \<notin> log_area (lstart s) (nat (lsize s))" and "lhn s + int (length ns) < lsize s"
  shows "\<exists>t. log_blocks me ns s = Ok () t \<and> log_ok me {} t \<and> set (logged t) = set ns \<union> set (logged s) \<and> same_log s t"
  using assms
proof (induction ns arbitrary: s)
  case Nil
  then show ?case by (auto simp: same_log_def)
next
  case (Cons n ns)
  obtain t where t: "tx_update me n (\<lambda>x. x) s = Ok () t" "log_ok me {} t" "set (logged t) = insert n (set (logged s))" "same_log s t"
    using tx_update_ok [OF Cons.prems(1), of n "\<lambda>x. x"] Cons.prems(2,5,6) by (auto simp: keeps_def)
  have l: "lhn t = lhn s + 1"
    using lhn_card [OF t(2)] lhn_card [OF Cons.prems(1)] t(3) Cons.prems(4) by auto
  obtain u where "log_blocks me ns t = Ok () u" "log_ok me {} u" "set (logged u) = set ns \<union> set (logged t)" "same_log t u"
    using Cons.IH [OF t(2)] Cons.prems t(3,4) l by (auto simp: same_log_def)
  with t show ?case by (auto simp: same_log_def)
qed

lemma log_ok_any: "log_ok me {} s \<Longrightarrow> log_ok p {} s"
  by (auto simp: log_ok_def cst_def in_set_def)

lemma log_blocks_range:
  assumes "log_ok p {} s" and "1 \<le> outstanding s" and "set (logged s) = {m..<a}" and "m \<le> a" and "a \<le> b" and "b < 2 ^ 32"
    and "lstart s + nat (lsize s) \<le> m" and "int (b - m) < lsize s"
  shows "\<exists>t. log_blocks me [a..<b] s = Ok () t \<and> log_ok me {} t \<and> set (logged t) = {m..<b} \<and> same_log s t"
proof -
  have "log_ok me {} s" using log_ok_any [OF assms(1)] .
  moreover have "lhn s = int (a - m)" using lhn_card [OF assms(1)] assms(3) by simp
  moreover have "\<forall>n \<in> set [a..<b]. n < 2 ^ 32 \<and> n \<notin> log_area (lstart s) (nat (lsize s))"
    using assms(4,6,7) by (auto simp: log_area_def)
  moreover have "{a..<b} \<union> {m..<a} = {m..<b}" using assms(4,5) by auto
  ultimately show ?thesis using log_blocks_ok [of me s "[a..<b]"] assms by auto
qed

lemma tx_update_full:
  assumes "log_ok me {} s" and "n < 2 ^ 32" and "lhn s = lsize s - 1"
  shows "tx_update me n f s = Panic ''too big a transaction''"
proof -
  have r: "n \<in> set (logged s) \<or> card (set (logged s) \<union> {}) < NBUF" using log_okD(7) [OF assms(1)] by simp
  obtain b c where "lbread me n s = Ok b (s\<lparr>bs := c\<rparr>)" using lbread_ok [OF assms(1) _ r] by blast
  then show ?thesis using assms(3) by (simp add: tx_update_def log_write_def)
qed

text \<open>C36. The reservation made by \<^verbatim>\<open>begin_op\<close> is one block too generous for the log that
  \<^verbatim>\<open>mkfs\<close> lays out: on a freshly booted system with \<open>nlog = LOGSIZE\<close>, three operations are
  admitted, each of them logs at most \<open>MAXOPBLOCKS\<close> blocks, and the thirtieth block panics the
  kernel, since one of the 30 blocks of the log is its header.\<close>

theorem begin_op_overcommits:
  "\<exists>s0 s1 s2 s3 t1 t2 t3. initlog 1 2 (nat LOGSIZE) (boot (\<lambda>_ _. 0)) = Ok () s0 \<and>
     begin_op 1 s0 = Ok () s1 \<and> begin_op 2 s1 = Ok () s2 \<and> begin_op 3 s2 = Ok () s3 \<and>
     log_blocks 1 [100..<110] s3 = Ok () t1 \<and> log_blocks 2 [110..<120] t1 = Ok () t2 \<and>
     log_blocks 3 [120..<129] t2 = Ok () t3 \<and> log_blocks 3 [129] t3 = Panic ''too big a transaction''"
proof -
  have hz: "head_n 2 (\<lambda>_ _. 0) = 0" by (simp add: head_n_def get_le_def sint32_def)
  obtain s0 where s0: "initlog 1 2 (nat LOGSIZE) (boot (\<lambda>_ _. 0)) = Ok () s0" "lhn s0 = 0" "lstart s0 = 2" "lsize s0 = LOGSIZE"
      "cst 1 {} {} (bs s0)" "disk (bs s0) = recovered 2 (\<lambda>_ _. 0)" "outstanding s0 = 0" "\<not> committing s0"
    using initlog_boot [OF hz, of 1 "nat LOGSIZE"] by (auto simp: LOGSIZE_def MAXOPBLOCKS_def)
  define s3 where "s3 = s0\<lparr>outstanding := 3\<rparr>"
  have b: "begin_op 1 s0 = Ok () (s0\<lparr>outstanding := 1\<rparr>)" "begin_op 2 (s0\<lparr>outstanding := 1\<rparr>) = Ok () (s0\<lparr>outstanding := 2\<rparr>)"
      "begin_op 3 (s0\<lparr>outstanding := 2\<rparr>) = Ok () s3"
    using s0(2,7,8) by (simp_all add: begin_op_def s3_def LOGSIZE_def MAXOPBLOCKS_def)
  have r: "head_n 2 (recovered 2 (\<lambda>_ _. 0)) = 0" by (simp add: head_n_def recovered_def Let_def put_head_0 sint32_def)
  have o3: "log_ok 1 {} s3" using s0 r by (simp add: log_ok_def logged_def s3_def LOGSIZE_def MAXOPBLOCKS_def)
  have e3: "set (logged s3) = {}" "lhn s3 = 0" using s0(2) by (simp_all add: logged_def s3_def)
  have f3: "outstanding s3 = 3" "lstart s3 = 2" "lsize s3 = 30" using s0(3,4) by (simp_all add: s3_def LOGSIZE_def MAXOPBLOCKS_def)
  have "\<exists>t. log_blocks 1 [100..<110] s3 = Ok () t \<and> log_ok 1 {} t \<and> set (logged t) = {100..<110} \<and> same_log s3 t"
    by (rule log_blocks_range [OF o3]) (use e3 f3 in \<open>simp_all add: same_log_def\<close>)
  then obtain t1 where t1: "log_blocks 1 [100..<110] s3 = Ok () t1" "log_ok 1 {} t1" "set (logged t1) = {100..<110}" "same_log s3 t1" by blast
  have "\<exists>t. log_blocks 2 [110..<120] t1 = Ok () t \<and> log_ok 2 {} t \<and> set (logged t) = {100..<120} \<and> same_log t1 t"
    by (rule log_blocks_range [OF t1(2)]) (use t1(3,4) f3 in \<open>simp_all add: same_log_def\<close>)
  then obtain t2 where t2: "log_blocks 2 [110..<120] t1 = Ok () t2" "log_ok 2 {} t2" "set (logged t2) = {100..<120}" "same_log t1 t2" by blast
  have "\<exists>t. log_blocks 3 [120..<129] t2 = Ok () t \<and> log_ok 3 {} t \<and> set (logged t) = {100..<129} \<and> same_log t2 t"
    by (rule log_blocks_range [OF t2(2)]) (use t1(4) t2(3,4) f3 in \<open>simp_all add: same_log_def\<close>)
  then obtain t3 where t3: "log_blocks 3 [120..<129] t2 = Ok () t3" "log_ok 3 {} t3" "set (logged t3) = {100..<129}" "same_log t2 t3" by blast
  have l3: "lhn t3 = 29" using lhn_card [OF t3(2)] t3(3) by simp
  have "log_blocks 3 [129] t3 = Panic ''too big a transaction''"
    using tx_update_full [OF t3(2), of 129] l3 t1(4) t2(4) t3(4) f3 by (simp add: same_log_def)
  then show ?thesis using s0(1) b t1(1) t2(1) t3(1) by blast
qed

end
