(* ===== verification/Fs_Alloc.thy ===== *)
theory Fs_Alloc
  imports Log
begin

unbundle bit_operations_syntax

section \<open>Super block and block allocator (kernel/fs.c, first part)\<close>

text \<open>
  \<^verbatim>\<open>readsb\<close>, \<^verbatim>\<open>fsinit\<close>, \<^verbatim>\<open>bzero\<close>, \<^verbatim>\<open>balloc\<close> and \<^verbatim>\<open>bfree\<close> over the log. The super block in
  memory is the argument \<open>sb\<close>. \<open>used sb v b\<close> reads the bitmap in the contents \<open>v\<close> of the blocks;
  the lemmas say what the allocator does to it.
\<close>

record superblock =
  sb_magic :: nat
  sb_size :: nat
  sb_nblocks :: nat
  sb_ninodes :: nat
  sb_nlog :: nat
  sb_logstart :: nat
  sb_inodestart :: nat
  sb_bmapstart :: nat

definition FSMAGIC :: nat where "FSMAGIC = 0x10203040"
definition BPB :: nat where "BPB = BSIZE * 8"
definition BBLOCK :: "nat \<Rightarrow> superblock \<Rightarrow> nat" where "BBLOCK b sb = b div BPB + sb_bmapstart sb"

definition get_super :: "blk \<Rightarrow> superblock" where
  "get_super x = \<lparr>sb_magic = get_le 4 x 0, sb_size = get_le 4 x 4, sb_nblocks = get_le 4 x 8, sb_ninodes = get_le 4 x 12,
     sb_nlog = get_le 4 x 16, sb_logstart = get_le 4 x 20, sb_inodestart = get_le 4 x 24, sb_bmapstart = get_le 4 x 28\<rparr>"

definition readsb :: "nat \<Rightarrow> lsys \<Rightarrow> (superblock, lsys) res" where
  "readsb me s =
     seqr (lbread me 1 s) (\<lambda>bp s.
       let sb = get_super (get_data bp (bs s)) in seqr (lbrelse me bp s) (\<lambda>_ s. Ok sb s))"

definition fsinit :: "nat \<Rightarrow> lsys \<Rightarrow> (superblock, lsys) res" where
  "fsinit me s =
     seqr (readsb me s) (\<lambda>sb s.
       if sb_magic sb \<noteq> FSMAGIC then Panic ''invalid file system''
       else seqr (initlog me (sb_logstart sb) (sb_nlog sb) s) (\<lambda>_ s. Ok sb s))"

definition bzero :: "nat \<Rightarrow> nat \<Rightarrow> lsys \<Rightarrow> (unit, lsys) res" where
  "bzero me bno s =
     seqr (lbread me bno s) (\<lambda>bp s.
     seqr (log_write bp (s\<lparr>bs := set_data bp (\<lambda>_. 0) (bs s)\<rparr>)) (\<lambda>_ s.
     lbrelse me bp s))"

text \<open>The test and the two updates of a bit of the map.\<close>

definition bm_free :: "blk \<Rightarrow> nat \<Rightarrow> bool" where
  "bm_free x bi \<longleftrightarrow> x (bi div 8) AND push_bit (bi mod 8) 1 = 0"

definition bm_set :: "nat \<Rightarrow> blk \<Rightarrow> blk" where
  "bm_set bi x = x(bi div 8 := x (bi div 8) OR push_bit (bi mod 8) 1)"

definition bm_clear :: "nat \<Rightarrow> blk \<Rightarrow> blk" where
  "bm_clear bi x = x(bi div 8 := x (bi div 8) AND NOT (push_bit (bi mod 8) 1))"

primrec balloc_loop :: "nat \<Rightarrow> superblock \<Rightarrow> nat list \<Rightarrow> lsys \<Rightarrow> (nat, lsys) res" where
  "balloc_loop me sb [] s = Ok 0 s"
| "balloc_loop me sb (b # ws) s =
     seqr (lbread me (BBLOCK b sb) s) (\<lambda>bp s.
       case scan_first (bm_free (get_data bp (bs s))) [0..<min BPB (sb_size sb - b)] of
         Some bi \<Rightarrow>
           seqr (log_write bp (s\<lparr>bs := set_data bp (bm_set bi (get_data bp (bs s))) (bs s)\<rparr>)) (\<lambda>_ s.
           seqr (lbrelse me bp s) (\<lambda>_ s.
           seqr (bzero me (b + bi) s) (\<lambda>_ s. Ok (b + bi) s)))
       | None \<Rightarrow> seqr (lbrelse me bp s) (\<lambda>_ s. balloc_loop me sb ws s))"

definition balloc :: "nat \<Rightarrow> superblock \<Rightarrow> lsys \<Rightarrow> (nat, lsys) res" where
  "balloc me sb s = balloc_loop me sb (map (\<lambda>j. j * BPB) [0..<(sb_size sb + BPB - 1) div BPB]) s"

definition bfree :: "nat \<Rightarrow> superblock \<Rightarrow> nat \<Rightarrow> lsys \<Rightarrow> (unit, lsys) res" where
  "bfree me sb b s =
     seqr (lbread me (BBLOCK b sb) s) (\<lambda>bp s.
       let bi = b mod BPB
       in if bm_free (get_data bp (bs s)) bi then Panic ''freeing free block''
          else seqr (log_write bp (s\<lparr>bs := set_data bp (bm_clear bi (get_data bp (bs s))) (bs s)\<rparr>)) (\<lambda>_ s.
               lbrelse me bp s))"

subsection \<open>The bitmap\<close>

lemma bm_free_bit: "bm_free x bi \<longleftrightarrow> \<not> bit (x (bi div 8)) (bi mod 8)"
proof -
  define k where "k = bi mod 8"
  have k: "k < 8" by (simp add: k_def)
  have "(w AND push_bit k 1 = 0) = (\<not> bit w k)" for w :: u8
  proof
    assume "w AND push_bit k 1 = 0"
    then have "\<not> bit (w AND push_bit k 1) k" by simp
    then show "\<not> bit w k" using k by (simp add: bit_simps)
  next
    assume "\<not> bit w k"
    then show "w AND push_bit k 1 = 0" by (intro bit_word_eqI) (auto simp: bit_simps)
  qed
  then show ?thesis by (simp add: bm_free_def k_def)
qed

lemma div_mod_8: "i div 8 = j div 8 \<Longrightarrow> i mod 8 = j mod 8 \<Longrightarrow> i = (j :: nat)"
  by (metis div_mult_mod_eq)

lemma bm_free_set: "bm_free (bm_set i x) j \<longleftrightarrow> j \<noteq> i \<and> bm_free x j"
proof -
  have "i mod 8 < 8" "j mod 8 < 8" by simp_all
  then show ?thesis
    unfolding bm_free_bit bm_set_def
    by (cases "j div 8 = i div 8"; cases "j mod 8 = i mod 8") (auto simp: bit_simps dest: div_mod_8)
qed

lemma bm_free_clear: "bm_free (bm_clear i x) j \<longleftrightarrow> j = i \<or> bm_free x j"
proof -
  have "i mod 8 < 8" "j mod 8 < 8" by simp_all
  then show ?thesis
    unfolding bm_free_bit bm_clear_def
    by (cases "j div 8 = i div 8"; cases "j mod 8 = i mod 8") (auto simp: bit_simps dest: div_mod_8)
qed

definition used :: "superblock \<Rightarrow> (nat \<Rightarrow> blk) \<Rightarrow> nat \<Rightarrow> bool" where
  "used sb v b \<longleftrightarrow> \<not> bm_free (v (BBLOCK b sb)) (b mod BPB)"

lemma BPB_pos [simp]: "0 < BPB"
  by (simp add: BPB_def BSIZE_def)

lemma BBLOCK_inj: "BBLOCK a sb = BBLOCK b sb \<Longrightarrow> a mod BPB = b mod BPB \<Longrightarrow> a = b"
  unfolding BBLOCK_def by (metis add_right_cancel div_mult_mod_eq)

lemma used_set:
  "used sb (v(BBLOCK b sb := bm_set (b mod BPB) (v (BBLOCK b sb)))) c \<longleftrightarrow> c = b \<or> used sb v c"
  by (auto simp: used_def bm_free_set dest: BBLOCK_inj)

lemma used_clear:
  "used sb (v(BBLOCK b sb := bm_clear (b mod BPB) (v (BBLOCK b sb)))) c \<longleftrightarrow> c \<noteq> b \<and> used sb v c"
  by (auto simp: used_def bm_free_clear dest: BBLOCK_inj)

lemma used_other: "n \<notin> (\<lambda>b. BBLOCK b sb) ` {..<sb_size sb} \<Longrightarrow> c < sb_size sb \<Longrightarrow> used sb (v(n := x)) c \<longleftrightarrow> used sb v c"
  by (auto simp: used_def)

subsection \<open>The allocator\<close>

definition bitmap_blocks :: "superblock \<Rightarrow> nat set" where
  "bitmap_blocks sb = (\<lambda>b. BBLOCK b sb) ` {..<sb_size sb}"

text \<open>What the allocator relies on: the bitmap lies outside the log, block numbers fit their type,
  and the log and the bitmap themselves are marked as used.\<close>

definition fs_layout :: "superblock \<Rightarrow> lsys \<Rightarrow> bool" where
  "fs_layout sb s \<longleftrightarrow> sb_size sb < 2 ^ 32 \<and>
     (\<forall>n \<in> bitmap_blocks sb. n < 2 ^ 32 \<and> n \<notin> log_area (lstart s) (nat (lsize s))) \<and>
     (\<forall>b < sb_size sb. \<not> used sb (view (bs s)) b \<longrightarrow> b \<notin> bitmap_blocks sb \<and> b \<notin> log_area (lstart s) (nat (lsize s)))"

lemma fs_layoutD:
  assumes "fs_layout sb s"
  shows "b < sb_size sb \<Longrightarrow> b < 2 ^ 32"
    and "b < sb_size sb \<Longrightarrow> BBLOCK b sb < 2 ^ 32 \<and> BBLOCK b sb \<notin> log_area (lstart s) (nat (lsize s))"
    and "b < sb_size sb \<Longrightarrow> \<not> used sb (view (bs s)) b \<Longrightarrow> b \<notin> bitmap_blocks sb \<and> b \<notin> log_area (lstart s) (nat (lsize s))"
  using assms by (auto simp: fs_layout_def bitmap_blocks_def)

lemma fs_layout_same: "fs_layout sb s \<Longrightarrow> tx_same H s t \<Longrightarrow> fs_layout sb t"
  by (simp add: fs_layout_def tx_same_def keeps_def same_log_def)

lemma bzero_tx: "bzero me b s = tx_update me b (\<lambda>_ _. 0) s"
  by (simp add: bzero_def tx_update_def)

definition alloc_view :: "superblock \<Rightarrow> nat \<Rightarrow> (nat \<Rightarrow> blk) \<Rightarrow> nat \<Rightarrow> blk" where
  "alloc_view sb b v = v(BBLOCK b sb := bm_set (b mod BPB) (v (BBLOCK b sb)), b := (\<lambda>_. 0))"

definition tx_ready :: "nat set \<Rightarrow> int \<Rightarrow> nat \<Rightarrow> lsys \<Rightarrow> bool" where
  "tx_ready H k me s \<longleftrightarrow> log_ok me H s \<and> card H \<le> 1 \<and> 1 \<le> outstanding s \<and> lhn s + k < lsize s"

lemma tx_ready_same: "tx_ready H k me s \<Longrightarrow> log_ok me H t \<Longrightarrow> tx_same H s t \<Longrightarrow> tx_ready H k me t"
  by (simp add: tx_ready_def tx_same_def keeps_def same_log_def)

text \<open>Updating one block within a transaction that has room for \<open>k\<close> more.\<close>

lemma tx_step:
  assumes "tx_ready H (k + 1) me s" and "0 \<le> k" and "n \<notin> H" and "n < 2 ^ 32" and "n \<notin> log_area (lstart s) (nat (lsize s))"
  shows "\<exists>t. tx_update me n f s = Ok () t \<and> tx_ready H k me t \<and> view (bs t) = (view (bs s))(n := f (view (bs s) n)) \<and>
     set (logged t) = insert n (set (logged s)) \<and> keeps H s t"
proof -
  have a: "log_ok me H s" "card H \<le> 1" "1 \<le> outstanding s" "lhn s < lsize s - 1" using assms(1,2) by (auto simp: tx_ready_def)
  obtain t where t: "tx_update me n f s = Ok () t" "log_ok me H t" "view (bs t) = (view (bs s))(n := f (view (bs s) n))"
      "set (logged t) = insert n (set (logged s))" "keeps H s t"
    using tx_update_ok [OF a(1) assms(3) a(2) assms(4,5) a(3,4)] by blast
  have "tx_ready H k me t" using lhn_insert(1) [OF a(1) t(2,4)] t(2,5) assms(1) by (simp add: tx_ready_def keeps_def same_log_def)
  then show ?thesis using t by blast
qed

lemma balloc_found:
  assumes "tx_ready H 2 me s" and "fs_layout sb s" and "r < sb_size sb" and "\<not> used sb (view (bs s)) r"
    and "H \<inter> bitmap_blocks sb = {}" and "r \<notin> H"
  shows "\<exists>t. seqr (tx_update me (BBLOCK r sb) (bm_set (r mod BPB)) s) (\<lambda>_ s. seqr (bzero me r s) (\<lambda>_ s. Ok r s)) = Ok r t \<and>
     tx_ready H 0 me t \<and> view (bs t) = alloc_view sb r (view (bs s)) \<and> keeps H s t \<and>
     set (logged t) = insert r (insert (BBLOCK r sb) (set (logged s)))"
proof -
  note L = fs_layoutD [OF assms(2,3)]
  have bb: "BBLOCK r sb \<in> bitmap_blocks sb" using assms(3) by (auto simp: bitmap_blocks_def)
  then have nH: "BBLOCK r sb \<notin> H" using assms(5) by blast
  have ne: "r \<noteq> BBLOCK r sb" using L(3) [OF assms(4)] bb by auto
  have r1: "tx_ready H (1 + 1) me s" using assms(1) by simp
  obtain t where t: "tx_update me (BBLOCK r sb) (bm_set (r mod BPB)) s = Ok () t" "tx_ready H (0 + 1) me t"
      "view (bs t) = (view (bs s))(BBLOCK r sb := bm_set (r mod BPB) (view (bs s) (BBLOCK r sb)))"
      "set (logged t) = insert (BBLOCK r sb) (set (logged s))" "keeps H s t"
    using tx_step [OF r1 _ nH] L(2) by auto
  have st: "lstart t = lstart s" "lsize t = lsize s" using t(5) by (auto simp: keeps_def same_log_def)
  obtain u where u: "tx_update me r (\<lambda>_ _. 0) t = Ok () u" "tx_ready H 0 me u" "view (bs u) = (view (bs t))(r := (\<lambda>_. 0))"
      "set (logged u) = insert r (set (logged t))" "keeps H t u"
    using tx_step [OF t(2) _ assms(6), of "\<lambda>_ _. 0"] L(1,3) assms(4) st by auto
  have "view (bs u) = alloc_view sb r (view (bs s))" using u(3) t(3) ne by (simp add: alloc_view_def)
  moreover have "keeps H s u" by (rule keeps_trans [OF t(5) u(5)]) simp
  ultimately show ?thesis using t(1,4) u(1,2,4) by (simp add: bzero_tx)
qed

lemma used_in_block: "bi < BPB \<Longrightarrow> used sb v (k * BPB + bi) \<longleftrightarrow> \<not> bm_free (v (BBLOCK (k * BPB) sb)) bi"
  by (simp add: used_def BBLOCK_def)

lemma BBLOCK_in_block: "bi < BPB \<Longrightarrow> BBLOCK (k * BPB + bi) sb = BBLOCK (k * BPB) sb" "bi < BPB \<Longrightarrow> (k * BPB + bi) mod BPB = bi"
  by (simp_all add: BBLOCK_def)

lemma block_index_less:
  assumes "k < (n + BPB - 1) div BPB"
  shows "k * BPB < n"
proof -
  have "Suc k \<le> (n + BPB - 1) div BPB" using assms by simp
  then have "Suc k * BPB \<le> n + BPB - 1" by (simp add: less_eq_div_iff_mult_less_eq)
  then have "k * BPB + BPB \<le> n + BPB - 1" by simp
  then show ?thesis using BPB_pos by linarith
qed

lemma block_index_cover: "n \<le> (n + BPB - 1) div BPB * BPB"
  using dividend_less_div_times [OF BPB_pos, of "n + BPB - 1"] by linarith

definition balloc_spec :: "nat set \<Rightarrow> superblock \<Rightarrow> nat \<Rightarrow> lsys \<Rightarrow> (nat, lsys) res \<Rightarrow> bool" where
  "balloc_spec H sb me s res \<longleftrightarrow>
     (if \<forall>b < sb_size sb. used sb (view (bs s)) b
      then \<exists>t. res = Ok 0 t \<and> log_ok me H t \<and> tx_same H s t
      else \<exists>r t. res = Ok r t \<and> r < sb_size sb \<and> \<not> used sb (view (bs s)) r \<and> (\<forall>b < r. used sb (view (bs s)) b) \<and>
           tx_ready H 0 me t \<and> view (bs t) = alloc_view sb r (view (bs s)) \<and> keeps H s t \<and>
           set (logged t) = insert r (insert (BBLOCK r sb) (set (logged s))))"

text \<open>When all blocks before the \<open>k\<close>-th bitmap block and the first \<open>m\<close> bits of it are taken, all blocks before that bit are.\<close>

lemma used_prefix:
  assumes "\<forall>b < sb_size sb. b < k * BPB \<longrightarrow> used sb v b" and "\<forall>bi < m. \<not> bm_free (v (BBLOCK (k * BPB) sb)) bi" and "m \<le> BPB"
    and "b < sb_size sb" and "b < k * BPB + m"
  shows "used sb v b"
proof (cases "b < k * BPB")
  case True
  then show ?thesis using assms(1,4) by blast
next
  case False
  then have "b - k * BPB < m" "b = k * BPB + (b - k * BPB)" using assms(5) by auto
  then show ?thesis using used_in_block [of "b - k * BPB" sb v k] assms(2,3) by auto
qed

lemma balloc_loop_ok:
  assumes "tx_ready H 2 me s" and "fs_layout sb s" and "H \<inter> bitmap_blocks sb = {}"
    and "\<forall>h \<in> H. h < sb_size sb \<longrightarrow> used sb (view (bs s)) h"
    and "K = (sb_size sb + BPB - 1) div BPB" and "k \<le> K" and "\<forall>b < sb_size sb. b < k * BPB \<longrightarrow> used sb (view (bs s)) b"
  shows "balloc_spec H sb me s (balloc_loop me sb (map (\<lambda>j. j * BPB) [k..<K]) s)"
  using assms(1-4,6,7)
proof (induction "K - k" arbitrary: k s)
  case 0
  then have "k = K" by simp
  have "b < K * BPB" if "b < sb_size sb" for b
    using that block_index_cover [of "sb_size sb"] unfolding assms(5) by linarith
  with 0 \<open>k = K\<close> have "\<forall>b < sb_size sb. used sb (view (bs s)) b" by blast
  with 0 \<open>k = K\<close> show ?case by (auto simp: balloc_spec_def tx_ready_def)
next
  case (Suc d)
  let ?b = "k * BPB" and ?v = "view (bs s)"
  let ?scan = "scan_first (bm_free (?v (BBLOCK ?b sb))) [0..<min BPB (sb_size sb - ?b)]"
  from Suc.hyps(2) have kK: "k < K" by simp
  then have bn: "?b < sb_size sb" using block_index_less assms(5) by blast
  have ws: "map (\<lambda>j. j * BPB) [k..<K] = ?b # map (\<lambda>j. j * BPB) [Suc k..<K]" using kK by (simp add: upt_conv_Cons)
  have bb: "BBLOCK ?b sb \<notin> H" using Suc.prems(3) bn by (auto simp: bitmap_blocks_def)
  have rd: "log_ok me H s" "card H \<le> 1" "lhn s < lsize s - 1" using Suc.prems(1) by (auto simp: tx_ready_def)
  obtain bp s1 t where p: "lbread me (BBLOCK ?b sb) s = Ok bp s1" "get_data bp (bs s1) = ?v (BBLOCK ?b sb)"
      "lbrelse me bp s1 = Ok () t" "log_ok me H t" "tx_same H s t"
    using peek_ok [OF rd(1) bb rd(2,3)] by blast
  show ?case
  proof (cases ?scan)
    case None
    then have all: "\<forall>bi < min BPB (sb_size sb - ?b). \<not> bm_free (?v (BBLOCK ?b sb)) bi" by (simp add: scan_first_None_iff)
    have u: "used sb ?v b" if "b < sb_size sb" "b < Suc k * BPB" for b
      by (rule used_prefix [OF Suc.prems(6) all]) (use that in auto)
    have v: "view (bs t) = ?v" using p(5) by (simp add: tx_same_def)
    have "balloc_spec H sb me t (balloc_loop me sb (map (\<lambda>j. j * BPB) [Suc k..<K]) t)"
      by (rule Suc.hyps(1)) (use Suc.hyps(2) Suc.prems p v u fs_layout_same tx_ready_same kK in auto)
    moreover have "balloc_loop me sb (map (\<lambda>j. j * BPB) [k..<K]) s = balloc_loop me sb (map (\<lambda>j. j * BPB) [Suc k..<K]) t"
      unfolding ws using p(1-3) None by simp
    moreover have "keeps H s u \<and> logged t = logged s" if "keeps H t u" for u
      using p(5) that keeps_trans [of H s t H u] by (auto simp: tx_same_def)
    ultimately show ?thesis using v p(5) tx_same_trans unfolding balloc_spec_def by (auto split: if_splits)
  next
    case (Some bi)
    then have bi: "bi < BPB" "bi < sb_size sb - ?b" "bm_free (?v (BBLOCK ?b sb)) bi" by (auto dest: scan_first_SomeD)
    let ?r = "?b + bi"
    have r: "?r < sb_size sb" "\<not> used sb ?v ?r" using bi bn used_in_block [OF bi(1)] by auto
    have lst: "used sb ?v b" if "b < ?r" for b
      by (rule used_prefix [OF Suc.prems(6), of bi]) (use that r(1) bi(1) scan_first_upt_least [OF Some] in auto)
    have "?r \<notin> H" using Suc.prems(4) r by blast
    from balloc_found [OF Suc.prems(1,2) r Suc.prems(3) this] obtain t where
      t: "seqr (tx_update me (BBLOCK ?r sb) (bm_set (?r mod BPB)) s) (\<lambda>_ s. seqr (bzero me ?r s) (\<lambda>_ s. Ok ?r s)) = Ok ?r t"
         "tx_ready H 0 me t" "view (bs t) = alloc_view sb ?r ?v" "keeps H s t" "set (logged t) = insert ?r (insert (BBLOCK ?r sb) (set (logged s)))" by blast
    have "balloc_loop me sb (map (\<lambda>j. j * BPB) [k..<K]) s = Ok ?r t"
      using t(1) p(1,2) Some unfolding ws BBLOCK_in_block [OF bi(1)]
      by (simp add: tx_update_def seqr_assoc)
    then show ?thesis using r lst t(2-5) by (auto simp: balloc_spec_def)
  qed
qed


lemma balloc_ok:
  assumes "tx_ready H 2 me s" and "fs_layout sb s" and "H \<inter> bitmap_blocks sb = {}"
    and "\<forall>h \<in> H. h < sb_size sb \<longrightarrow> used sb (view (bs s)) h"
  shows "balloc_spec H sb me s (balloc me sb s)"
  unfolding balloc_def by (rule balloc_loop_ok [OF assms]) auto

lemma alloc_view_used:
  assumes "r \<notin> bitmap_blocks sb" and "c < sb_size sb"
  shows "used sb (alloc_view sb r v) c \<longleftrightarrow> c = r \<or> used sb v c"
proof -
  have "r \<noteq> BBLOCK c sb" using assms by (auto simp: bitmap_blocks_def)
  then have "used sb (alloc_view sb r v) c \<longleftrightarrow> used sb (v(BBLOCK r sb := bm_set (r mod BPB) (v (BBLOCK r sb)))) c"
    by (simp add: used_def alloc_view_def)
  then show ?thesis by (simp only: used_set)
qed

lemma alloc_view_at: "r \<noteq> BBLOCK r sb \<Longrightarrow> alloc_view sb r v r = (\<lambda>_. 0)"
  "n \<noteq> r \<Longrightarrow> n \<noteq> BBLOCK r sb \<Longrightarrow> alloc_view sb r v n = v n"
  by (simp_all add: alloc_view_def)

lemma keeps_layout:
  assumes "fs_layout sb s" and "keeps H s t"
    and "\<And>b. b < sb_size sb \<Longrightarrow> used sb (view (bs s)) b \<Longrightarrow> used sb (view (bs t)) b"
  shows "fs_layout sb t"
  using assms unfolding fs_layout_def keeps_def same_log_def by auto

lemma bfree_ok:
  assumes "tx_ready H 1 me s" and "fs_layout sb s" and "BBLOCK b sb \<notin> H" and "b < sb_size sb"
  shows "if used sb (view (bs s)) b
         then \<exists>t. bfree me sb b s = Ok () t \<and> tx_ready H 0 me t \<and> keeps H s t \<and>
                  view (bs t) = (view (bs s))(BBLOCK b sb := bm_clear (b mod BPB) (view (bs s) (BBLOCK b sb))) \<and>
                  set (logged t) = insert (BBLOCK b sb) (set (logged s))
         else bfree me sb b s = Panic ''freeing free block''"
proof -
  note L = fs_layoutD [OF assms(2,4)]
  have rd: "log_ok me H s" "card H \<le> 1" "lhn s < lsize s - 1" using assms(1) by (auto simp: tx_ready_def)
  obtain bp s1 t where p: "lbread me (BBLOCK b sb) s = Ok bp s1" "get_data bp (bs s1) = view (bs s) (BBLOCK b sb)"
    using peek_ok [OF rd(1) assms(3) rd(2,3)] by blast
  show ?thesis
  proof (cases "used sb (view (bs s)) b")
    case False
    then show ?thesis using p by (simp add: bfree_def used_def)
  next
    case True
    have e: "bfree me sb b s = tx_update me (BBLOCK b sb) (bm_clear (b mod BPB)) s"
      using p True by (simp add: bfree_def tx_update_def used_def)
    have r: "tx_ready H (0 + 1) me s" using assms(1) by simp
    show ?thesis using tx_step [OF r _ assms(3), of "bm_clear (b mod BPB)"] L(2) True e by auto
  qed
qed

subsection \<open>Properties of the allocator\<close>

definition demo_sb :: superblock where
  "demo_sb = \<lparr>sb_magic = FSMAGIC, sb_size = 100, sb_nblocks = 52, sb_ninodes = 200, sb_nlog = 30, sb_logstart = 2,
     sb_inodestart = 32, sb_bmapstart = 45\<rparr>"

lemma demo_sb_size: "sb_size demo_sb = 100"
  by (simp add: demo_sb_def)

definition demo_disk :: "nat \<Rightarrow> blk" where
  "demo_disk n = (if n = 45 then (\<lambda>k. if k < 6 then 255 else 0) else (\<lambda>_. 0))"

definition demo_tx :: lsys where
  "demo_tx = (boot demo_disk)\<lparr>lstart := 2, lsize := 30, outstanding := 1\<rparr>"

lemma demo_tx_view: "view (bs demo_tx) = demo_disk" "logged demo_tx = []" "lhn demo_tx = 0" "lstart demo_tx = 2" "lsize demo_tx = 30"
  using zero_bsys_binit(2) [of demo_disk] by (simp_all add: demo_tx_def boot_def logged_def fun_eq_iff)

lemma demo_tx_ready: "k < 30 \<Longrightarrow> tx_ready {} k me demo_tx"
proof -
  assume k: "k < 30"
  have "head_n 2 demo_disk = 0" by (simp add: head_n_def demo_disk_def get_le_def sint32_def)
  moreover have "cst me {} {} (bs demo_tx)" "disk (bs demo_tx) = demo_disk" using boot_cst(1) [of me demo_disk] boot_cst(2) by (simp_all add: demo_tx_def)
  ultimately show ?thesis using k demo_tx_view
    by (simp add: tx_ready_def log_ok_def LOGSIZE_def MAXOPBLOCKS_def) (simp add: demo_tx_def)
qed

lemma demo_used: "b < 100 \<Longrightarrow> used demo_sb demo_disk b \<longleftrightarrow> b < 48"
proof -
  assume b: "b < 100"
  have "bit (255 :: u8) (b mod 8)"
  proof -
    have m: "(255 :: u8) = mask 8" by (simp add: mask_eq_exp_minus_1)
    show ?thesis unfolding m by (simp add: bit_mask_iff)
  qed
  then have "used demo_sb demo_disk b \<longleftrightarrow> b div 8 < 6"
    using b by (simp add: used_def bm_free_bit BBLOCK_def demo_sb_def demo_disk_def BPB_def BSIZE_def)
  also have "\<dots> \<longleftrightarrow> b < 48" by linarith
  finally show ?thesis .
qed

lemma demo_layout: "fs_layout demo_sb demo_tx"
proof -
  have bm: "bitmap_blocks demo_sb = {45}"
    by (auto simp: bitmap_blocks_def BBLOCK_def demo_sb_def BPB_def BSIZE_def intro!: image_eqI [of _ _ 0])
  have "sb_size demo_sb = 100" by (simp add: demo_sb_def)
  then show ?thesis unfolding fs_layout_def bm demo_tx_view using demo_used by (auto simp: log_area_def)
qed

text \<open>\<^verbatim>\<open>balloc\<close> returns the free block of least number, zeroed and marked in the bitmap, and
  changes no other block and no other bit; when every block is in use it returns 0 and changes
  nothing. The caller may hold the buffer of a block that is in use.\<close>

theorem balloc_contract:
  assumes "tx_ready H 2 me s" and "fs_layout sb s" and "H \<inter> bitmap_blocks sb = {}"
    and "\<forall>h \<in> H. h < sb_size sb \<longrightarrow> used sb (view (bs s)) h"
  shows "if \<forall>b < sb_size sb. used sb (view (bs s)) b
         then \<exists>t. balloc me sb s = Ok 0 t \<and> log_ok me H t \<and> view (bs t) = view (bs s)
         else \<exists>r t. balloc me sb s = Ok r t \<and> log_ok me H t \<and> fs_layout sb t \<and>
              r < sb_size sb \<and> \<not> used sb (view (bs s)) r \<and> (\<forall>b < r. used sb (view (bs s)) b) \<and>
              (\<forall>c < sb_size sb. used sb (view (bs t)) c \<longleftrightarrow> c = r \<or> used sb (view (bs s)) c) \<and>
              view (bs t) r = (\<lambda>_. 0) \<and> (\<forall>n. n \<noteq> r \<longrightarrow> n \<noteq> BBLOCK r sb \<longrightarrow> view (bs t) n = view (bs s) n)"
proof (cases "\<forall>b < sb_size sb. used sb (view (bs s)) b")
  case True
  then show ?thesis using balloc_ok [OF assms] by (auto simp: balloc_spec_def tx_same_def)
next
  case False
  then obtain r t where r: "balloc me sb s = Ok r t" "r < sb_size sb" "\<not> used sb (view (bs s)) r" "\<forall>b < r. used sb (view (bs s)) b"
      "tx_ready H 0 me t" "view (bs t) = alloc_view sb r (view (bs s))" "keeps H s t"
    using balloc_ok [OF assms] unfolding balloc_spec_def if_not_P [OF False] by blast
  have nb: "r \<notin> bitmap_blocks sb" using fs_layoutD(3) [OF assms(2) r(2,3)] by simp
  then have "r \<noteq> BBLOCK r sb" using r(2) by (auto simp: bitmap_blocks_def)
  moreover have u: "used sb (view (bs t)) c \<longleftrightarrow> c = r \<or> used sb (view (bs s)) c" if "c < sb_size sb" for c
    unfolding r(6) by (rule alloc_view_used [OF nb that])
  moreover have "fs_layout sb t" using keeps_layout [OF assms(2) r(7)] u by blast
  ultimately show ?thesis using False r by (auto simp: alloc_view_at tx_ready_def)
qed

theorem balloc_contract_witness:
  "\<exists>r t. balloc 1 demo_sb demo_tx = Ok r t \<and> r < 100 \<and> \<not> used demo_sb demo_disk r \<and> view (bs t) r = (\<lambda>_. 0)"
proof -
  have n: "\<not> (\<forall>b < sb_size demo_sb. used demo_sb (view (bs demo_tx)) b)"
    unfolding demo_tx_view(1) demo_sb_size using demo_used [of 50] by (auto intro!: exI [of _ 50])
  then show ?thesis
    using balloc_contract [OF demo_tx_ready [of 2 1] demo_layout] unfolding if_not_P [OF n] unfolding demo_tx_view(1) demo_sb_size by simp blast
qed

lemma tx_ready_room:
  assumes "tx_ready H (k + 2) me s" and "tx_ready H 0 me t" and "keeps H s t" and "set (logged t) = insert a (insert b (set (logged s)))"
  shows "tx_ready H k me t"
proof -
  have "card (insert a (insert b (set (logged s)))) \<le> card (set (logged s)) + 2"
    by (metis (no_types, lifting) List.finite_set add_2_eq_Suc' card_insert_if finite_insert le_Suc_eq le_refl)
  then have "lhn t \<le> lhn s + 2" using lhn_card [of me H s] lhn_card [of me H t] assms by (simp add: tx_ready_def)
  then show ?thesis using assms(1-3) by (simp add: tx_ready_def keeps_def same_log_def)
qed

text \<open>\<^verbatim>\<open>bfree\<close> undoes \<^verbatim>\<open>balloc\<close>: after allocating and freeing a block the bitmap and every other
  block are what they were, and freeing the block a second time panics.\<close>

theorem balloc_bfree_roundtrip:
  assumes "tx_ready H 4 me s" and "fs_layout sb s" and "H \<inter> bitmap_blocks sb = {}"
    and "\<forall>h \<in> H. h < sb_size sb \<longrightarrow> used sb (view (bs s)) h" and "\<exists>b < sb_size sb. \<not> used sb (view (bs s)) b"
  shows "\<exists>r t u. balloc me sb s = Ok r t \<and> bfree me sb r t = Ok () u \<and> r < sb_size sb \<and>
     (\<forall>n. n \<noteq> r \<longrightarrow> n \<noteq> BBLOCK r sb \<longrightarrow> view (bs u) n = view (bs s) n) \<and>
     (\<forall>c < sb_size sb. used sb (view (bs u)) c \<longleftrightarrow> used sb (view (bs s)) c) \<and>
     bfree me sb r u = Panic ''freeing free block''"
proof -
  have nall: "\<not> (\<forall>b < sb_size sb. used sb (view (bs s)) b)" using assms(5) by blast
  have r2: "tx_ready H 2 me s" and r4: "tx_ready H (2 + 2) me s" using assms(1) by (auto simp: tx_ready_def)
  obtain r t where r: "balloc me sb s = Ok r t" "r < sb_size sb" "\<not> used sb (view (bs s)) r"
      "tx_ready H 0 me t" "view (bs t) = alloc_view sb r (view (bs s))" "keeps H s t"
      "set (logged t) = insert r (insert (BBLOCK r sb) (set (logged s)))"
    using balloc_ok [OF r2 assms(2-4)] unfolding balloc_spec_def if_not_P [OF nall] by blast
  have nb: "r \<notin> bitmap_blocks sb" using fs_layoutD(3) [OF assms(2) r(2,3)] by simp
  have bb: "BBLOCK r sb \<in> bitmap_blocks sb" using r(2) by (auto simp: bitmap_blocks_def)
  have ut: "used sb (view (bs t)) c \<longleftrightarrow> c = r \<or> used sb (view (bs s)) c" if "c < sb_size sb" for c
    unfolding r(5) by (rule alloc_view_used [OF nb that])
  have lt: "fs_layout sb t" using keeps_layout [OF assms(2) r(6)] ut by blast
  have nH: "BBLOCK r sb \<notin> H" using bb assms(3) by blast
  have r1: "tx_ready H 1 me t" using tx_ready_room [OF r4 r(4,6,7)] by (simp add: tx_ready_def)
  obtain u where u: "bfree me sb r t = Ok () u" "tx_ready H 0 me u" "keeps H t u"
      "view (bs u) = (view (bs t))(BBLOCK r sb := bm_clear (r mod BPB) (view (bs t) (BBLOCK r sb)))"
      "set (logged u) = insert (BBLOCK r sb) (set (logged t))"
    using bfree_ok [OF r1 lt nH r(2)] ut [OF r(2)] by auto
  have uu: "used sb (view (bs u)) c \<longleftrightarrow> used sb (view (bs s)) c" if "c < sb_size sb" for c
    unfolding u(4) used_clear ut [OF that] using r(3) by blast
  have "log_ok me H u" "card H \<le> 1" "lhn u < lsize u - 1"
    using u(2) tx_ready_room [OF r4 r(4,6,7)] lhn_insert(1) [of me H t H u "BBLOCK r sb"] u(3,5)
    by (auto simp: tx_ready_def keeps_def same_log_def)
  from peek_ok [OF this(1) nH this(2,3)] obtain bp s1 where
    "lbread me (BBLOCK r sb) u = Ok bp s1" "get_data bp (bs s1) = view (bs u) (BBLOCK r sb)" by blast
  then have "bfree me sb r u = Panic ''freeing free block''" using uu [OF r(2)] r(3) by (simp add: bfree_def used_def)
  moreover have "view (bs u) n = view (bs s) n" if "n \<noteq> r" "n \<noteq> BBLOCK r sb" for n
    using that u(4) r(5) by (simp add: alloc_view_at)
  ultimately show ?thesis using r(1,2) u(1) uu by blast
qed

theorem balloc_bfree_roundtrip_witness:
  "\<exists>r t u. balloc 1 demo_sb demo_tx = Ok r t \<and> bfree 1 demo_sb r t = Ok () u \<and> r < 100 \<and>
     bfree 1 demo_sb r u = Panic ''freeing free block''"
proof -
  have "\<exists>b < sb_size demo_sb. \<not> used demo_sb (view (bs demo_tx)) b"
    unfolding demo_tx_view(1) demo_sb_size using demo_used [of 50] by (auto intro!: exI [of _ 50])
  from balloc_bfree_roundtrip [OF demo_tx_ready [of 4 1] demo_layout _ _ this] show ?thesis unfolding demo_sb_size by simp blast
qed

end
