(* ===== verification/Fs_Inode.thy ===== *)
theory Fs_Inode
  imports Fs_Alloc
begin

section \<open>Inodes (kernel/fs.c, second part; kernel/file.h)\<close>

text \<open>
  The inode table over the log. A pointer to an inode is its index in \<^verbatim>\<open>itable.inode\<close>, so the
  tests for a null pointer at the head of \<^verbatim>\<open>ilock\<close> and \<^verbatim>\<open>iunlock\<close> have no counterpart. On disk an
  inode is 64 bytes of a block; \<open>get_dinode\<close> and \<open>put_dinode\<close> read and write them. The bodies under
  \<^verbatim>\<open>itable.lock\<close> are atomic. \<^verbatim>\<open>readi\<close> and \<^verbatim>\<open>writei\<close> take the copying routine with its user flag
  and address as a function of the offset from that address, since the other end may be user
  memory or a kernel variable: for \<^verbatim>\<open>readi\<close> it stores bytes and says whether it could; for
  \<^verbatim>\<open>writei\<close> it gives the bytes that could be fetched and whether these were all.
\<close>

definition NINODE :: nat where "NINODE = 50"
definition NDIRECT :: nat where "NDIRECT = 12"
definition NINDIRECT :: nat where "NINDIRECT = BSIZE div 4"
definition MAXFILE :: nat where "MAXFILE = NDIRECT + NINDIRECT"
definition IPB :: nat where "IPB = BSIZE div 64"
definition IBLOCK :: "nat \<Rightarrow> superblock \<Rightarrow> nat" where "IBLOCK i sb = i div IPB + sb_inodestart sb"
definition T_DIR :: u16 where "T_DIR = 1"
definition T_FILE :: u16 where "T_FILE = 2"
definition T_DEVICE :: u16 where "T_DEVICE = 3"

record dinode =
  dtype :: u16
  dmajor :: u16
  dminor :: u16
  dnlink :: u16
  dsize :: nat
  daddrs :: "nat \<Rightarrow> nat"

record inode =
  idev :: nat
  inum :: nat
  iref :: int
  ilk :: "nat option"
  ivalid :: bool
  idata :: dinode

record fsys =
  lg :: lsys
  itab :: "nat \<Rightarrow> inode"

definition lift_lg :: "('a, lsys) res \<Rightarrow> fsys \<Rightarrow> ('a, fsys) res" where
  "lift_lg r s = (case r of Ok a l \<Rightarrow> Ok a (s\<lparr>lg := l\<rparr>) | Panic m \<Rightarrow> Panic m | Wait l \<Rightarrow> Wait (s\<lparr>lg := l\<rparr>))"

definition upd_ino :: "nat \<Rightarrow> (inode \<Rightarrow> inode) \<Rightarrow> fsys \<Rightarrow> fsys" where
  "upd_ino i f s = s\<lparr>itab := (itab s)(i := f (itab s i))\<rparr>"

subsection \<open>Inodes on disk\<close>

definition get_dinode :: "blk \<Rightarrow> nat \<Rightarrow> dinode" where
  "get_dinode x p = \<lparr>dtype = of_nat (get_le 2 x p), dmajor = of_nat (get_le 2 x (p + 2)), dminor = of_nat (get_le 2 x (p + 4)),
     dnlink = of_nat (get_le 2 x (p + 6)), dsize = get_le 4 x (p + 8), daddrs = (\<lambda>k. if k \<le> NDIRECT then get_le 4 x (p + 12 + 4 * k) else 0)\<rparr>"

definition put_dinode :: "dinode \<Rightarrow> nat \<Rightarrow> blk \<Rightarrow> blk" where
  "put_dinode d p x =
     (let x = put_le 2 p (unat (dtype d)) x;
          x = put_le 2 (p + 2) (unat (dmajor d)) x;
          x = put_le 2 (p + 4) (unat (dminor d)) x;
          x = put_le 2 (p + 6) (unat (dnlink d)) x;
          x = put_le 4 (p + 8) (dsize d) x
      in fold (\<lambda>k x. put_le 4 (p + 12 + 4 * k) (daddrs d k) x) [0..<NDIRECT + 1] x)"

definition zero_dinode :: dinode where
  "zero_dinode = \<lparr>dtype = 0, dmajor = 0, dminor = 0, dnlink = 0, dsize = 0, daddrs = (\<lambda>_. 0)\<rparr>"

definition doff :: "nat \<Rightarrow> nat" where "doff i = i mod IPB * 64"

subsection \<open>The table\<close>

definition inode_chan :: "nat \<Rightarrow> chan" where "inode_chan i = SleepChan (HEAD + 1 + i)"

definition iinit :: "fsys \<Rightarrow> fsys" where
  "iinit s = fold (\<lambda>i. upd_ino i (\<lambda>x. x\<lparr>ilk := initsleeplock\<rparr>)) [0..<NINODE] s"

text \<open>The scan of \<^verbatim>\<open>iget\<close>, with the first empty slot seen so far.\<close>

fun iget_scan :: "nat \<Rightarrow> nat \<Rightarrow> (nat \<Rightarrow> inode) \<Rightarrow> nat option \<Rightarrow> nat list \<Rightarrow> nat option \<times> nat option" where
  "iget_scan d n tab emp [] = (None, emp)"
| "iget_scan d n tab emp (i # is) =
     (if iref (tab i) > 0 \<and> idev (tab i) = d \<and> inum (tab i) = n then (Some i, emp)
      else iget_scan d n tab (if emp = None \<and> iref (tab i) = 0 then Some i else emp) is)"

definition iget :: "nat \<Rightarrow> nat \<Rightarrow> fsys \<Rightarrow> (nat, fsys) res" where
  "iget d n s =
     (case iget_scan d n (itab s) None [0..<NINODE] of
        (Some i, _) \<Rightarrow> Ok i (upd_ino i (\<lambda>x. x\<lparr>iref := iref x + 1\<rparr>) s)
      | (None, None) \<Rightarrow> Panic ''iget: no inodes''
      | (None, Some i) \<Rightarrow> Ok i (upd_ino i (\<lambda>x. x\<lparr>idev := d, inum := n, iref := 1, ivalid := False\<rparr>) s))"

definition idup :: "nat \<Rightarrow> fsys \<Rightarrow> (nat, fsys) res" where
  "idup i s = Ok i (upd_ino i (\<lambda>x. x\<lparr>iref := iref x + 1\<rparr>) s)"

primrec ialloc_loop :: "nat \<Rightarrow> superblock \<Rightarrow> nat \<Rightarrow> u16 \<Rightarrow> nat list \<Rightarrow> fsys \<Rightarrow> (nat option, fsys) res" where
  "ialloc_loop me sb d ty [] s = Ok None s"
| "ialloc_loop me sb d ty (n # ns) s =
     seqr (lift_lg (lbread me (IBLOCK n sb) (lg s)) s) (\<lambda>bp s.
       let x = get_data bp (bs (lg s)); p = doff n
       in if dtype (get_dinode x p) = 0
          then let x = put_dinode (zero_dinode\<lparr>dtype := ty\<rparr>) p x
               in seqr (lift_lg (log_write bp ((lg s)\<lparr>bs := set_data bp x (bs (lg s))\<rparr>)) s) (\<lambda>_ s.
                  seqr (lift_lg (lbrelse me bp (lg s)) s) (\<lambda>_ s.
                  seqr (iget d n s) (\<lambda>i s. Ok (Some i) s)))
          else seqr (lift_lg (lbrelse me bp (lg s)) s) (\<lambda>_ s. ialloc_loop me sb d ty ns s))"

definition ialloc :: "nat \<Rightarrow> superblock \<Rightarrow> nat \<Rightarrow> u16 \<Rightarrow> fsys \<Rightarrow> (nat option, fsys) res" where
  "ialloc me sb d ty s = ialloc_loop me sb d ty [1..<sb_ninodes sb] s"

definition iupdate :: "nat \<Rightarrow> superblock \<Rightarrow> nat \<Rightarrow> fsys \<Rightarrow> (unit, fsys) res" where
  "iupdate me sb i s =
     (let n = inum (itab s i); d = idata (itab s i)
      in seqr (lift_lg (lbread me (IBLOCK n sb) (lg s)) s) (\<lambda>bp s.
         seqr (lift_lg (log_write bp ((lg s)\<lparr>bs := set_data bp (put_dinode d (doff n) (get_data bp (bs (lg s)))) (bs (lg s))\<rparr>)) s) (\<lambda>_ s.
         lift_lg (lbrelse me bp (lg s)) s)))"

definition set_ptab :: "ptable \<Rightarrow> fsys \<Rightarrow> fsys" where
  "set_ptab ps s = s\<lparr>lg := (lg s)\<lparr>bs := (bs (lg s))\<lparr>bps := ps\<rparr>\<rparr>\<rparr>"

definition lock_ino :: "nat \<Rightarrow> nat \<Rightarrow> fsys \<Rightarrow> (unit, fsys) res" where
  "lock_ino me i s =
     (case acquiresleep me (inode_chan i) (ilk (itab s i)) (bps (bs (lg s))) of
        Ok lk ps \<Rightarrow> Ok () (upd_ino i (\<lambda>x. x\<lparr>ilk := lk\<rparr>) (set_ptab ps s))
      | Wait ps \<Rightarrow> Wait (set_ptab ps s)
      | Panic m \<Rightarrow> Panic m)"

definition unlock_ino :: "nat \<Rightarrow> nat \<Rightarrow> fsys \<Rightarrow> fsys" where
  "unlock_ino me i s =
     (case releasesleep me (inode_chan i) (ilk (itab s i)) (bps (bs (lg s))) of
        (lk, ps) \<Rightarrow> upd_ino i (\<lambda>x. x\<lparr>ilk := lk\<rparr>) (set_ptab ps s))"

definition ilock :: "nat \<Rightarrow> superblock \<Rightarrow> nat \<Rightarrow> fsys \<Rightarrow> (unit, fsys) res" where
  "ilock me sb i s =
     (if iref (itab s i) < 1 then Panic ''ilock''
      else seqr (lock_ino me i s) (\<lambda>_ s.
        if \<not> ivalid (itab s i)
        then let n = inum (itab s i)
             in seqr (lift_lg (lbread me (IBLOCK n sb) (lg s)) s) (\<lambda>bp s.
                let s = upd_ino i (\<lambda>x. x\<lparr>idata := get_dinode (get_data bp (bs (lg s))) (doff n)\<rparr>) s
                in seqr (lift_lg (lbrelse me bp (lg s)) s) (\<lambda>_ s.
                   let s = upd_ino i (\<lambda>x. x\<lparr>ivalid := True\<rparr>) s
                   in if dtype (idata (itab s i)) = 0 then Panic ''ilock: no type'' else Ok () s))
        else Ok () s))"

definition iunlock :: "nat \<Rightarrow> nat \<Rightarrow> fsys \<Rightarrow> (unit, fsys) res" where
  "iunlock me i s =
     (if \<not> holdingsleep me (ilk (itab s i)) \<or> iref (itab s i) < 1 then Panic ''iunlock''
      else Ok () (unlock_ino me i s))"

subsection \<open>Blocks of a file\<close>

definition set_addr :: "nat \<Rightarrow> nat \<Rightarrow> nat \<Rightarrow> fsys \<Rightarrow> fsys" where
  "set_addr i k a s = upd_ino i (\<lambda>x. x\<lparr>idata := (idata x)\<lparr>daddrs := (daddrs (idata x))(k := a)\<rparr>\<rparr>) s"

text \<open>The address in slot \<open>k\<close> of the inode, allocating a block if it is 0.\<close>

definition addr_alloc :: "nat \<Rightarrow> superblock \<Rightarrow> nat \<Rightarrow> nat \<Rightarrow> fsys \<Rightarrow> (nat, fsys) res" where
  "addr_alloc me sb i k s =
     (let addr = daddrs (idata (itab s i)) k
      in if addr = 0
         then seqr (lift_lg (balloc me sb (lg s)) s) (\<lambda>addr s.
                if addr = 0 then Ok 0 s else Ok addr (set_addr i k addr s))
         else Ok addr s)"

definition bmap :: "nat \<Rightarrow> superblock \<Rightarrow> nat \<Rightarrow> nat \<Rightarrow> fsys \<Rightarrow> (nat, fsys) res" where
  "bmap me sb i bn s =
     (if bn < NDIRECT then addr_alloc me sb i bn s
      else let bn = bn - NDIRECT
      in if bn < NINDIRECT
         then seqr (addr_alloc me sb i NDIRECT s) (\<lambda>addr s.
              if addr = 0 then Ok 0 s
              else seqr (lift_lg (lbread me addr (lg s)) s) (\<lambda>bp s.
                let addr = get_le 4 (get_data bp (bs (lg s))) (4 * bn)
                in if addr = 0
                   then seqr (lift_lg (balloc me sb (lg s)) s) (\<lambda>addr s.
                        seqr (if addr \<noteq> 0
                              then lift_lg (log_write bp ((lg s)\<lparr>bs := set_data bp (put_le 4 (4 * bn) addr (get_data bp (bs (lg s)))) (bs (lg s))\<rparr>)) s
                              else Ok () s) (\<lambda>_ s.
                        seqr (lift_lg (lbrelse me bp (lg s)) s) (\<lambda>_ s. Ok addr s)))
                   else seqr (lift_lg (lbrelse me bp (lg s)) s) (\<lambda>_ s. Ok addr s)))
         else Panic ''bmap: out of range'')"

primrec itrunc_direct :: "nat \<Rightarrow> superblock \<Rightarrow> nat \<Rightarrow> nat list \<Rightarrow> fsys \<Rightarrow> (unit, fsys) res" where
  "itrunc_direct me sb i [] s = Ok () s"
| "itrunc_direct me sb i (k # ks) s =
     (let a = daddrs (idata (itab s i)) k
      in if a \<noteq> 0
         then seqr (lift_lg (bfree me sb a (lg s)) s) (\<lambda>_ s. itrunc_direct me sb i ks (set_addr i k 0 s))
         else itrunc_direct me sb i ks s)"

primrec itrunc_indirect :: "nat \<Rightarrow> superblock \<Rightarrow> blk \<Rightarrow> nat list \<Rightarrow> lsys \<Rightarrow> (unit, lsys) res" where
  "itrunc_indirect me sb x [] s = Ok () s"
| "itrunc_indirect me sb x (j # js) s =
     (if get_le 4 x (4 * j) \<noteq> 0
      then seqr (bfree me sb (get_le 4 x (4 * j)) s) (\<lambda>_ s. itrunc_indirect me sb x js s)
      else itrunc_indirect me sb x js s)"

definition itrunc :: "nat \<Rightarrow> superblock \<Rightarrow> nat \<Rightarrow> fsys \<Rightarrow> (unit, fsys) res" where
  "itrunc me sb i s =
     seqr (itrunc_direct me sb i [0..<NDIRECT] s) (\<lambda>_ s.
     seqr (let a = daddrs (idata (itab s i)) NDIRECT
           in if a \<noteq> 0
              then seqr (lift_lg (lbread me a (lg s)) s) (\<lambda>bp s.
                   seqr (lift_lg (itrunc_indirect me sb (get_data bp (bs (lg s))) [0..<NINDIRECT] (lg s)) s) (\<lambda>_ s.
                   seqr (lift_lg (lbrelse me bp (lg s)) s) (\<lambda>_ s.
                   seqr (lift_lg (bfree me sb a (lg s)) s) (\<lambda>_ s.
                   Ok () (set_addr i NDIRECT 0 s)))))
              else Ok () s) (\<lambda>_ s.
     iupdate me sb i (upd_ino i (\<lambda>x. x\<lparr>idata := (idata x)\<lparr>dsize := 0\<rparr>\<rparr>) s)))"

definition iput :: "nat \<Rightarrow> superblock \<Rightarrow> nat \<Rightarrow> fsys \<Rightarrow> (unit, fsys) res" where
  "iput me sb i s =
     seqr (if iref (itab s i) = 1 \<and> ivalid (itab s i) \<and> dnlink (idata (itab s i)) = 0
           then seqr (lock_ino me i s) (\<lambda>_ s.
                seqr (itrunc me sb i s) (\<lambda>_ s.
                seqr (iupdate me sb i (upd_ino i (\<lambda>x. x\<lparr>idata := (idata x)\<lparr>dtype := 0\<rparr>\<rparr>) s)) (\<lambda>_ s.
                Ok () (unlock_ino me i (upd_ino i (\<lambda>x. x\<lparr>ivalid := False\<rparr>) s)))))
           else Ok () s) (\<lambda>_ s.
     Ok () (upd_ino i (\<lambda>x. x\<lparr>iref := iref x - 1\<rparr>) s))"

definition iunlockput :: "nat \<Rightarrow> superblock \<Rightarrow> nat \<Rightarrow> fsys \<Rightarrow> (unit, fsys) res" where
  "iunlockput me sb i s = seqr (iunlock me i s) (\<lambda>_ s. iput me sb i s)"

record stat =
  st_dev :: nat
  st_ino :: nat
  st_type :: u16
  st_nlink :: u16
  st_size :: nat

definition stati :: "nat \<Rightarrow> fsys \<Rightarrow> stat" where
  "stati i s = (let x = itab s i in \<lparr>st_dev = idev x, st_ino = inum x, st_type = dtype (idata x), st_nlink = dnlink (idata x), st_size = dsize (idata x)\<rparr>)"

subsection \<open>Reading and writing\<close>

definition chunk :: "nat \<Rightarrow> nat \<Rightarrow> blk \<Rightarrow> u8 list" where
  "chunk p m x = map (\<lambda>j. x (p + j)) [0..<m]"

definition put_chunk :: "nat \<Rightarrow> u8 list \<Rightarrow> blk \<Rightarrow> blk" where
  "put_chunk p ys x = (\<lambda>q. if p \<le> q \<and> q < p + length ys then ys ! (q - p) else x q)"

text \<open>The loops, with a bound on their rounds: every round moves at least one byte, so \<open>n\<close> rounds
  are enough. \<open>mem\<close> is the memory that the copy writes to.\<close>

primrec readi_loop :: "nat \<Rightarrow> (nat \<Rightarrow> u8 list \<Rightarrow> 'm \<Rightarrow> int \<times> 'm) \<Rightarrow> nat \<Rightarrow> superblock \<Rightarrow> nat \<Rightarrow> nat \<Rightarrow> nat \<Rightarrow> nat \<Rightarrow> 'm \<Rightarrow> fsys \<Rightarrow> (int \<times> 'm, fsys) res" where
  "readi_loop 0 cp me sb i tot n off mem s = Ok (int tot, mem) s"
| "readi_loop (Suc k) cp me sb i tot n off mem s =
     (if \<not> tot < n then Ok (int tot, mem) s
      else seqr (bmap me sb i (off div BSIZE) s) (\<lambda>addr s.
        if addr = 0 then Ok (int tot, mem) s
        else seqr (lift_lg (lbread me addr (lg s)) s) (\<lambda>bp s.
          let m = min (n - tot) (BSIZE - off mod BSIZE)
          in case cp tot (chunk (off mod BSIZE) m (get_data bp (bs (lg s)))) mem of (r, mem) \<Rightarrow>
             if r = -1 then seqr (lift_lg (lbrelse me bp (lg s)) s) (\<lambda>_ s. Ok (-1, mem) s)
             else seqr (lift_lg (lbrelse me bp (lg s)) s) (\<lambda>_ s.
                  readi_loop k cp me sb i (tot + m) n (off + m) mem s))))"

definition readi :: "(nat \<Rightarrow> u8 list \<Rightarrow> 'm \<Rightarrow> int \<times> 'm) \<Rightarrow> nat \<Rightarrow> superblock \<Rightarrow> nat \<Rightarrow> nat \<Rightarrow> nat \<Rightarrow> 'm \<Rightarrow> fsys \<Rightarrow> (int \<times> 'm, fsys) res" where
  "readi cp me sb i off n mem s =
     (let size = dsize (idata (itab s i))
      in if off > size \<or> (off + n) mod 2 ^ 32 < off then Ok (0, mem) s
         else let n = (if off + n > size then size - off else n)
              in readi_loop n cp me sb i 0 n off mem s)"

primrec writei_loop :: "nat \<Rightarrow> (nat \<Rightarrow> nat \<Rightarrow> u8 list \<times> bool) \<Rightarrow> nat \<Rightarrow> superblock \<Rightarrow> nat \<Rightarrow> nat \<Rightarrow> nat \<Rightarrow> nat \<Rightarrow> fsys \<Rightarrow> (nat \<times> nat, fsys) res" where
  "writei_loop 0 cp me sb i tot n off s = Ok (tot, off) s"
| "writei_loop (Suc k) cp me sb i tot n off s =
     (if \<not> tot < n then Ok (tot, off) s
      else seqr (bmap me sb i (off div BSIZE) s) (\<lambda>addr s.
        if addr = 0 then Ok (tot, off) s
        else seqr (lift_lg (lbread me addr (lg s)) s) (\<lambda>bp s.
          let m = min (n - tot) (BSIZE - off mod BSIZE)
          in case cp tot m of (ys, ok) \<Rightarrow>
             let l = (lg s)\<lparr>bs := set_data bp (put_chunk (off mod BSIZE) ys (get_data bp (bs (lg s)))) (bs (lg s))\<rparr>
             in if \<not> ok then seqr (lift_lg (lbrelse me bp l) s) (\<lambda>_ s. Ok (tot, off) s)
                else seqr (lift_lg (log_write bp l) s) (\<lambda>_ s.
                     seqr (lift_lg (lbrelse me bp (lg s)) s) (\<lambda>_ s.
                     writei_loop k cp me sb i (tot + m) n (off + m) s)))))"

definition writei :: "(nat \<Rightarrow> nat \<Rightarrow> u8 list \<times> bool) \<Rightarrow> nat \<Rightarrow> superblock \<Rightarrow> nat \<Rightarrow> nat \<Rightarrow> nat \<Rightarrow> fsys \<Rightarrow> (int, fsys) res" where
  "writei cp me sb i off n s =
     (if off > dsize (idata (itab s i)) \<or> (off + n) mod 2 ^ 32 < off then Ok (-1) s
      else if off + n > MAXFILE * BSIZE then Ok (-1) s
      else seqr (writei_loop n cp me sb i 0 n off s) (\<lambda>(tot, off) s.
           let s = (if off > dsize (idata (itab s i)) then upd_ino i (\<lambda>x. x\<lparr>idata := (idata x)\<lparr>dsize := off\<rparr>\<rparr>) s else s)
           in seqr (iupdate me sb i s) (\<lambda>_ s. Ok (int tot) s)))"


subsection \<open>The encoding of inodes\<close>

definition dinode_ok :: "dinode \<Rightarrow> bool" where
  "dinode_ok d \<longleftrightarrow> dsize d < 2 ^ 32 \<and> (\<forall>k. daddrs d k < 2 ^ 32 \<and> (NDIRECT < k \<longrightarrow> daddrs d k = 0))"

lemma get_dinode_ok: "dinode_ok (get_dinode x p)"
  using get_le_less [of 4 x] by (simp add: dinode_ok_def get_dinode_def)

lemma put_dinode_addrs:
  "k \<le> NDIRECT \<Longrightarrow> get_le 4 (put_dinode d p x) (p + 12 + 4 * k) = daddrs d k mod 2 ^ 32"
  unfolding put_dinode_def Let_def by (subst get_put_array) simp_all

lemma get_put_dinode:
  assumes "dinode_ok d"
  shows "get_dinode (put_dinode d p x) p = d"
proof -
  have w: "word_of_nat (unat v mod 65536) = v" for v :: u16
    using unsigned_less [of v, where ?'a = nat] by simp
  have a: "daddrs (get_dinode (put_dinode d p x) p) = daddrs d"
    using assms by (auto simp: get_dinode_def put_dinode_addrs dinode_ok_def)
  show ?thesis
    using assms a by (cases d) (simp add: get_dinode_def put_dinode_def Let_def dinode_ok_def get_put_array_other get_put_le_other w)
qed

lemma get_put_dinode_other: "q + 64 \<le> p \<or> p + 64 \<le> q \<Longrightarrow> get_dinode (put_dinode d p x) q = get_dinode x q"
  by (auto simp: get_dinode_def put_dinode_def Let_def NDIRECT_def get_put_array_other get_put_le_other fun_eq_iff)

text \<open>What is on disk of inode \<open>n\<close>.\<close>

definition dinode_of :: "superblock \<Rightarrow> (nat \<Rightarrow> blk) \<Rightarrow> nat \<Rightarrow> dinode" where
  "dinode_of sb v n = get_dinode (v (IBLOCK n sb)) (doff n)"

lemma dinode_of_put:
  assumes "dinode_ok d"
  shows "dinode_of sb (v(IBLOCK n sb := put_dinode d (doff n) (v (IBLOCK n sb)))) m = (if m = n then d else dinode_of sb v m)"
proof -
  have "IBLOCK m sb = IBLOCK n sb \<Longrightarrow> m \<noteq> n \<Longrightarrow> doff m + 64 \<le> doff n \<or> doff n + 64 \<le> doff m"
  proof -
    assume "IBLOCK m sb = IBLOCK n sb" "m \<noteq> n"
    then have "m mod IPB \<noteq> n mod IPB" by (metis IBLOCK_def add_right_cancel div_mult_mod_eq)
    then show ?thesis unfolding doff_def by linarith
  qed
  then show ?thesis using assms by (auto simp: dinode_of_def get_put_dinode get_put_dinode_other)
qed

subsection \<open>Running block operations inside the file system state\<close>

lemma lift_lg_Ok [simp]: "lift_lg (Ok a l) s = Ok a (s\<lparr>lg := l\<rparr>)"
  by (simp add: lift_lg_def)

lemma lift_lg_seqr: "seqr (lift_lg r s) (\<lambda>a t. lift_lg (f a (lg t)) t) = lift_lg (seqr r f) s"
  by (cases r) (simp_all add: lift_lg_def split: res.splits)

lemma upd_ino_simps [simp]:
  "lg (upd_ino i f s) = lg s" "itab (upd_ino i f s) = (itab s)(i := f (itab s i))"
  by (simp_all add: upd_ino_def)

lemma set_ptab_simps [simp]: "itab (set_ptab ps s) = itab s" "lg (set_ptab ps s) = (lg s)\<lparr>bs := (bs (lg s))\<lparr>bps := ps\<rparr>\<rparr>"
  by (simp_all add: set_ptab_def)

lemma log_ok_ptab [simp]: "log_ok me H (l\<lparr>bs := (bs l)\<lparr>bps := ps\<rparr>\<rparr>) \<longleftrightarrow> log_ok me H l"
  by (simp add: log_ok_def logged_def)

lemma tx_ready_ptab [simp]: "tx_ready H k me (l\<lparr>bs := (bs l)\<lparr>bps := ps\<rparr>\<rparr>) \<longleftrightarrow> tx_ready H k me l"
  by (simp add: tx_ready_def)

lemma iupdate_tx:
  "iupdate me sb i s = lift_lg (tx_update me (IBLOCK (inum (itab s i)) sb) (put_dinode (idata (itab s i)) (doff (inum (itab s i)))) (lg s)) s"
proof -
  let ?d = "idata (itab s i)" and ?n = "inum (itab s i)"
  define g where "g bp l = seqr (log_write bp (l\<lparr>bs := set_data bp (put_dinode ?d (doff ?n) (get_data bp (bs l))) (bs l)\<rparr>)) (\<lambda>_ l. lbrelse me bp l)" for bp l
  have "seqr (lift_lg (log_write bp ((lg t)\<lparr>bs := set_data bp (put_dinode ?d (doff ?n) (get_data bp (bs (lg t)))) (bs (lg t))\<rparr>)) t) (\<lambda>_ s. lift_lg (lbrelse me bp (lg s)) s)
      = lift_lg (g bp (lg t)) t" for bp t
    by (simp add: lift_lg_seqr [where f = "\<lambda>_. lbrelse me bp"] g_def)
  then have "iupdate me sb i s = seqr (lift_lg (lbread me (IBLOCK ?n sb) (lg s)) s) (\<lambda>bp t. lift_lg (g bp (lg t)) t)"
    by (simp add: iupdate_def Let_def)
  also have "\<dots> = lift_lg (seqr (lbread me (IBLOCK ?n sb) (lg s)) g) s" by (rule lift_lg_seqr)
  finally show ?thesis by (simp add: tx_update_def g_def [abs_def])
qed

text \<open>Inode blocks lie outside the log.\<close>

definition inodes_placed :: "superblock \<Rightarrow> lsys \<Rightarrow> bool" where
  "inodes_placed sb l \<longleftrightarrow> (\<forall>n < sb_ninodes sb. IBLOCK n sb < 2 ^ 32 \<and> IBLOCK n sb \<notin> log_area (lstart l) (nat (lsize l)))"

lemma iupdate_ok:
  assumes "tx_ready {} (k + 1) me (lg s)" and "0 \<le> k" and "inodes_placed sb (lg s)" and "inum (itab s i) < sb_ninodes sb"
  defines "n \<equiv> inum (itab s i)"
  shows "\<exists>l. iupdate me sb i s = Ok () (s\<lparr>lg := l\<rparr>) \<and> tx_ready {} k me l \<and> keeps {} (lg s) l \<and>
     view (bs l) = (view (bs (lg s)))(IBLOCK n sb := put_dinode (idata (itab s i)) (doff n) (view (bs (lg s)) (IBLOCK n sb)))"
  using tx_step [OF assms(1,2), of "IBLOCK n sb" "put_dinode (idata (itab s i)) (doff n)"] assms(3,4)
  by (auto simp: iupdate_tx inodes_placed_def n_def)

lemma lock_ino_free:
  "ilk (itab s i) = None \<Longrightarrow> lock_ino me i s = Ok () (upd_ino i (\<lambda>x. x\<lparr>ilk := Some me\<rparr>) s)"
  by (simp add: lock_ino_def acquiresleep_def set_ptab_def)

lemma ilock_loads:
  assumes "tx_ready {} 1 me (lg s)" and "1 \<le> iref (itab s i)" and "ilk (itab s i) = None" and "\<not> ivalid (itab s i)"
    and "dtype (dinode_of sb (view (bs (lg s))) (inum (itab s i))) \<noteq> 0"
  shows "\<exists>t. ilock me sb i s = Ok () t \<and> log_ok me {} (lg t) \<and> tx_same {} (lg s) (lg t) \<and>
     itab t = (itab s)(i := (itab s i)\<lparr>ilk := Some me, idata := dinode_of sb (view (bs (lg s))) (inum (itab s i)), ivalid := True\<rparr>)"
proof -
  let ?n = "inum (itab s i)"
  have rd: "log_ok me {} (lg s)" "card ({} :: nat set) \<le> 1" "lhn (lg s) < lsize (lg s) - 1" using assms(1) by (auto simp: tx_ready_def)
  obtain bp l1 l2 where p: "lbread me (IBLOCK ?n sb) (lg s) = Ok bp l1" "get_data bp (bs l1) = view (bs (lg s)) (IBLOCK ?n sb)"
      "lbrelse me bp l1 = Ok () l2" "log_ok me {} l2" "tx_same {} (lg s) l2"
    using peek_ok [OF rd(1) _ rd(2,3), of "IBLOCK ?n sb"] by auto
  have nz: "dtype (get_dinode (view (bs (lg s)) (IBLOCK ?n sb)) (doff ?n)) \<noteq> 0" using assms(5) by (simp add: dinode_of_def)
  have "ilock me sb i s = Ok () (upd_ino i (\<lambda>x. x\<lparr>ilk := Some me, idata := dinode_of sb (view (bs (lg s))) ?n, ivalid := True\<rparr>) (s\<lparr>lg := l2\<rparr>))"
    using assms(2-4) p(1-3) nz by (simp add: ilock_def lock_ino_free Let_def dinode_of_def upd_ino_def)
  then show ?thesis using p(4,5) by auto
qed

subsection \<open>The inode table\<close>

definition holds_ino :: "fsys \<Rightarrow> nat \<Rightarrow> nat \<Rightarrow> nat \<Rightarrow> bool" where
  "holds_ino s i d n \<longleftrightarrow> i < NINODE \<and> 0 < iref (itab s i) \<and> idev (itab s i) = d \<and> inum (itab s i) = n"

definition itab_inv :: "fsys \<Rightarrow> bool" where
  "itab_inv s \<longleftrightarrow> (\<forall>i < NINODE. 0 \<le> iref (itab s i)) \<and>
     (\<forall>i j d n. holds_ino s i d n \<longrightarrow> holds_ino s j d n \<longrightarrow> i = j)"

lemma iget_scan_hit:
  "fst (iget_scan d n tab e js) = scan_first (\<lambda>i. 0 < iref (tab i) \<and> idev (tab i) = d \<and> inum (tab i) = n) js"
  by (induction js arbitrary: e) auto

lemma iget_scan_emp:
  "iget_scan d n tab e js = (None, f) \<Longrightarrow>
     f = (case e of Some j \<Rightarrow> Some j | None \<Rightarrow> scan_first (\<lambda>i. iref (tab i) = 0) js)"
proof (induction js arbitrary: e)
  case Nil
  then show ?case by (auto split: option.splits)
next
  case (Cons i js)
  let ?e = "if e = None \<and> iref (tab i) = 0 then Some i else e"
  have "iget_scan d n tab ?e js = (None, f)" using Cons.prems by (simp only: iget_scan.simps split: if_splits) auto
  from Cons.IH [OF this] show ?case by (cases e) auto
qed

lemma iget_cases:
  assumes "itab_inv s"
  shows "(\<exists>i. holds_ino s i d n \<and> iget d n s = Ok i (upd_ino i (\<lambda>x. x\<lparr>iref := iref x + 1\<rparr>) s)) \<or>
         (\<forall>i. \<not> holds_ino s i d n) \<and>
         (case scan_first (\<lambda>i. iref (itab s i) = 0) [0..<NINODE] of
            None \<Rightarrow> iget d n s = Panic ''iget: no inodes''
          | Some i \<Rightarrow> iget d n s = Ok i (upd_ino i (\<lambda>x. x\<lparr>idev := d, inum := n, iref := 1, ivalid := False\<rparr>) s))"
proof (cases "iget_scan d n (itab s) None [0..<NINODE]")
  case (Pair a b)
  have a: "scan_first (\<lambda>i. 0 < iref (itab s i) \<and> idev (itab s i) = d \<and> inum (itab s i) = n) [0..<NINODE] = a"
    using iget_scan_hit [of d n "itab s" None "[0..<NINODE]"] Pair by simp
  show ?thesis
  proof (cases a)
    case (Some i)
    then have "holds_ino s i d n" using scan_first_SomeD [of _ _ i] a by (simp add: holds_ino_def) fastforce
    then show ?thesis using Pair Some by (auto simp: iget_def)
  next
    case None
    then have "\<forall>i. \<not> holds_ino s i d n" using a by (auto simp: holds_ino_def scan_first_None_iff)
    moreover have "b = scan_first (\<lambda>i. iref (itab s i) = 0) [0..<NINODE]" using Pair None iget_scan_emp by fastforce
    ultimately show ?thesis using Pair None by (auto simp: iget_def split: option.splits)
  qed
qed

text \<open>\<^verbatim>\<open>iget\<close> returns the one table entry of the inode and counts a reference to it: the entry that
  already holds it, or the first entry without references, marked as not yet read. No other entry
  changes, and an inode never has two entries. It panics only when all entries are in use.\<close>

theorem iget_contract:
  assumes "itab_inv s"
  shows "case iget d n s of
      Ok i t \<Rightarrow> itab_inv t \<and> holds_ino t i d n \<and> lg t = lg s \<and> (\<forall>j. j \<noteq> i \<longrightarrow> itab t j = itab s j) \<and>
        (if holds_ino s i d n then iref (itab t i) = iref (itab s i) + 1 \<and> idata (itab t i) = idata (itab s i) \<and> ivalid (itab t i) = ivalid (itab s i)
         else iref (itab s i) = 0 \<and> iref (itab t i) = 1 \<and> \<not> ivalid (itab t i) \<and> (\<forall>j < i. 0 < iref (itab s j)) \<and> (\<forall>j. \<not> holds_ino s j d n))
    | Panic m \<Rightarrow> m = ''iget: no inodes'' \<and> (\<forall>i < NINODE. 0 < iref (itab s i) \<and> \<not> holds_ino s i d n)
    | Wait t \<Rightarrow> False"
  using iget_cases [OF assms, of d n]
proof (elim disjE exE conjE)
  fix i assume i: "holds_ino s i d n" "iget d n s = Ok i (upd_ino i (\<lambda>x. x\<lparr>iref := iref x + 1\<rparr>) s)"
  define t where "t = upd_ino i (\<lambda>x. x\<lparr>iref := iref x + 1\<rparr>) s"
  have h: "holds_ino t j e m \<longleftrightarrow> holds_ino s j e m" for j e m using i(1) by (auto simp: t_def holds_ino_def)
  have "itab_inv t" using assms unfolding itab_inv_def h by (auto simp: t_def)
  then show ?thesis using i h by (simp add: t_def)
next
  assume none: "\<forall>i. \<not> holds_ino s i d n"
    and c: "case scan_first (\<lambda>i. iref (itab s i) = 0) [0..<NINODE] of
            None \<Rightarrow> iget d n s = Panic ''iget: no inodes''
          | Some i \<Rightarrow> iget d n s = Ok i (upd_ino i (\<lambda>x. x\<lparr>idev := d, inum := n, iref := 1, ivalid := False\<rparr>) s)"
  have pos: "0 \<le> iref (itab s i)" if "i < NINODE" for i using assms that by (simp add: itab_inv_def)
  show ?thesis
  proof (cases "scan_first (\<lambda>i. iref (itab s i) = 0) [0..<NINODE]")
    case None
    then have "iref (itab s i) \<noteq> 0" if "i < NINODE" for i using that by (auto simp: scan_first_None_iff)
    then show ?thesis using None c none pos by (auto simp: less_le)
  next
    case (Some i)
    then have i: "i < NINODE" "iref (itab s i) = 0" by (auto dest: scan_first_SomeD)
    have lt: "0 < iref (itab s j)" if "j < i" for j
      using scan_first_upt_least [OF Some _ that] pos [of j] that i(1) by (auto simp: less_le)
    define t where "t = upd_ino i (\<lambda>x. x\<lparr>idev := d, inum := n, iref := 1, ivalid := False\<rparr>) s"
    have h: "holds_ino t j e m \<longleftrightarrow> (if j = i then e = d \<and> m = n else holds_ino s j e m)" for j e m
      using i by (auto simp: t_def holds_ino_def)
    have "itab_inv t"
      using assms none i(2) unfolding itab_inv_def h by (auto simp: t_def split: if_splits)
    then show ?thesis using Some c i lt none h by (simp add: t_def)
  qed
qed

subsection \<open>The contents of a file\<close>

text \<open>The block that holds block \<open>bn\<close> of a file, and the bytes of the file, in the contents \<open>v\<close> of
  the disk blocks. \<open>mapped\<close> says that the first \<open>z\<close> bytes have blocks.\<close>

definition baddr :: "dinode \<Rightarrow> (nat \<Rightarrow> blk) \<Rightarrow> nat \<Rightarrow> nat" where
  "baddr d v bn = (if bn < NDIRECT then daddrs d bn else get_le 4 (v (daddrs d NDIRECT)) (4 * (bn - NDIRECT)))"

definition mapped :: "dinode \<Rightarrow> (nat \<Rightarrow> blk) \<Rightarrow> nat \<Rightarrow> bool" where
  "mapped d v z \<longleftrightarrow> z \<le> MAXFILE * BSIZE \<and>
     (\<forall>bn. bn * BSIZE < z \<longrightarrow> baddr d v bn \<noteq> 0 \<and> (NDIRECT \<le> bn \<longrightarrow> daddrs d NDIRECT \<noteq> 0))"

definition file_byte :: "dinode \<Rightarrow> (nat \<Rightarrow> blk) \<Rightarrow> nat \<Rightarrow> u8" where
  "file_byte d v p = v (baddr d v (p div BSIZE)) (p mod BSIZE)"

definition file_bytes :: "dinode \<Rightarrow> (nat \<Rightarrow> blk) \<Rightarrow> nat \<Rightarrow> nat \<Rightarrow> u8 list" where
  "file_bytes d v off n = map (\<lambda>j. file_byte d v (off + j)) [0..<n]"

lemma BSIZE_pos [simp]: "0 < BSIZE"
  by (simp add: BSIZE_def)

lemma mappedD:
  assumes "mapped d v z" and "p < z"
  shows "baddr d v (p div BSIZE) \<noteq> 0" and "p div BSIZE < MAXFILE" and "NDIRECT \<le> p div BSIZE \<Longrightarrow> daddrs d NDIRECT \<noteq> 0"
proof -
  have "p div BSIZE * BSIZE < z" using assms(2) by (metis div_mult_mod_eq le_add1 le_less_trans)
  then show "baddr d v (p div BSIZE) \<noteq> 0" "NDIRECT \<le> p div BSIZE \<Longrightarrow> daddrs d NDIRECT \<noteq> 0" using assms(1) by (auto simp: mapped_def)
  have "p < MAXFILE * BSIZE" using assms by (simp add: mapped_def)
  then show "p div BSIZE < MAXFILE" by (simp add: div_less_iff_less_mult)
qed

lemma file_bytes_append: "file_bytes d v off (m + n) = file_bytes d v off m @ file_bytes d v (off + m) n"
proof -
  have "[0..<m + n] = [0..<m] @ map (\<lambda>j. m + j) [0..<n]"
    using upt_add_eq_append [of 0 m n] map_add_upt [of m n] by (simp add: add.commute)
  then show ?thesis by (simp add: file_bytes_def add.assoc)
qed

lemma div_mod_within:
  assumes "j < BSIZE - off mod BSIZE"
  shows "(off + j) div BSIZE = off div BSIZE" and "(off + j) mod BSIZE = off mod BSIZE + j"
proof -
  have e: "off = BSIZE * (off div BSIZE) + off mod BSIZE" by simp
  have lt: "off mod BSIZE + j < BSIZE" using assms by linarith
  show d: "(off + j) div BSIZE = off div BSIZE"
  proof (rule div_nat_eqI)
    show "BSIZE * (off div BSIZE) \<le> off + j" using e by linarith
    show "off + j < BSIZE * Suc (off div BSIZE)" using e lt unfolding mult_Suc_right by linarith
  qed
  have "off + j = BSIZE * (off div BSIZE) + (off + j) mod BSIZE" unfolding d [symmetric] by simp
  then show "(off + j) mod BSIZE = off mod BSIZE + j" using e by linarith
qed

text \<open>The part of one block that a round of \<^verbatim>\<open>readi\<close> hands out.\<close>

lemma chunk_file_bytes:
  assumes "m \<le> BSIZE - off mod BSIZE"
  shows "chunk (off mod BSIZE) m (v (baddr d v (off div BSIZE))) = file_bytes d v off m"
  using assms div_mod_within [of _ off] by (simp add: chunk_def file_bytes_def file_byte_def)

text \<open>A transaction state in which nothing visible has changed.\<close>

definition fs_same :: "fsys \<Rightarrow> fsys \<Rightarrow> bool" where
  "fs_same s t \<longleftrightarrow> itab t = itab s \<and> tx_same {} (lg s) (lg t)"

lemma fs_same_refl [simp]: "fs_same s s"
  by (simp add: fs_same_def)

lemma fs_same_trans: "fs_same s t \<Longrightarrow> fs_same t u \<Longrightarrow> fs_same s u"
  unfolding fs_same_def using tx_same_trans by auto

lemma fs_peek:
  assumes "tx_ready {} 1 me (lg s)"
  shows "\<exists>b l t. lbread me n (lg s) = Ok b l \<and> get_data b (bs l) = view (bs (lg s)) n \<and>
     lbrelse me b l = Ok () (lg t) \<and> t = s\<lparr>lg := lg t\<rparr> \<and> tx_ready {} 1 me (lg t) \<and> fs_same s t"
proof -
  have rd: "log_ok me {} (lg s)" "card ({} :: nat set) \<le> 1" "lhn (lg s) < lsize (lg s) - 1" using assms by (auto simp: tx_ready_def)
  obtain b l1 l2 where p: "lbread me n (lg s) = Ok b l1" "get_data b (bs l1) = view (bs (lg s)) n" "lbrelse me b l1 = Ok () l2"
      "log_ok me {} l2" "tx_same {} (lg s) l2"
    using peek_ok [OF rd(1) _ rd(2,3), of n] by auto
  have "tx_ready {} 1 me l2" using tx_ready_same [OF assms p(4,5)] .
  then show ?thesis using p by (intro exI [of _ b] exI [of _ l1] exI [of _ "s\<lparr>lg := l2\<rparr>"]) (simp add: fs_same_def)
qed

lemma addr_alloc_mapped: "daddrs (idata (itab s i)) k \<noteq> 0 \<Longrightarrow> addr_alloc me sb i k s = Ok (daddrs (idata (itab s i)) k) s"
  by (simp add: addr_alloc_def)

lemma bmap_mapped:
  assumes "tx_ready {} 1 me (lg s)" and "mapped (idata (itab s i)) (view (bs (lg s))) z" and "p < z"
  shows "\<exists>t. bmap me sb i (p div BSIZE) s = Ok (baddr (idata (itab s i)) (view (bs (lg s))) (p div BSIZE)) t \<and>
             tx_ready {} 1 me (lg t) \<and> fs_same s t"
proof -
  let ?d = "idata (itab s i)" and ?v = "view (bs (lg s))" and ?bn = "p div BSIZE"
  note m = mappedD [OF assms(2,3)]
  show ?thesis
  proof (cases "?bn < NDIRECT")
    case True
    then have "bmap me sb i ?bn s = Ok (daddrs ?d ?bn) s" using m(1) by (simp add: bmap_def baddr_def addr_alloc_mapped)
    then show ?thesis using True assms(1) by (intro exI [of _ s]) (simp add: baddr_def)
  next
    case False
    obtain b l t where p: "lbread me (daddrs ?d NDIRECT) (lg s) = Ok b l" "get_data b (bs l) = ?v (daddrs ?d NDIRECT)"
        "lbrelse me b l = Ok () (lg t)" "t = s\<lparr>lg := lg t\<rparr>" "tx_ready {} 1 me (lg t)" "fs_same s t"
      using fs_peek [OF assms(1)] by blast
    have "?bn - NDIRECT < NINDIRECT" using m(2) False by (simp add: MAXFILE_def)
    then have "bmap me sb i ?bn s = Ok (baddr ?d ?v ?bn) t"
      using False m p(1-4) by (simp add: bmap_def Let_def addr_alloc_mapped baddr_def)
    then show ?thesis using p(5,6) by blast
  qed
qed

definition collect :: "nat \<Rightarrow> u8 list \<Rightarrow> u8 list \<Rightarrow> int \<times> u8 list" where
  "collect tot ys mem = (0, mem @ ys)"

lemma readi_loop_mapped:
  assumes "tx_ready {} 1 me (lg s)" and "mapped (idata (itab s i)) (view (bs (lg s))) z" and "tot \<le> n"
    and "off + (n - tot) \<le> z" and "n - tot \<le> k"
  shows "\<exists>t. readi_loop k collect me sb i tot n off mem s =
       Ok (int n, mem @ file_bytes (idata (itab s i)) (view (bs (lg s))) off (n - tot)) t \<and> tx_ready {} 1 me (lg t) \<and> fs_same s t"
  using assms
proof (induction k arbitrary: tot off mem s)
  case 0
  then show ?case by (auto simp: file_bytes_def)
next
  case (Suc k)
  let ?d = "idata (itab s i)" and ?v = "view (bs (lg s))"
  show ?case
  proof (cases "tot < n")
    case False
    then show ?thesis using Suc.prems by (auto simp: file_bytes_def)
  next
    case True
    define m where "m = min (n - tot) (BSIZE - off mod BSIZE)"
    have m: "0 < m" "m \<le> BSIZE - off mod BSIZE" "m \<le> n - tot" using True by (auto simp: m_def)
    have "off < z" using Suc.prems(4) True by simp
    from bmap_mapped [OF Suc.prems(1,2) this] obtain s1 where
      1: "bmap me sb i (off div BSIZE) s = Ok (baddr ?d ?v (off div BSIZE)) s1" "tx_ready {} 1 me (lg s1)" "fs_same s s1" by blast
    have v1: "view (bs (lg s1)) = ?v" using 1(3) by (simp add: fs_same_def tx_same_def)
    obtain b l s2 where 2: "lbread me (baddr ?d ?v (off div BSIZE)) (lg s1) = Ok b l" "get_data b (bs l) = ?v (baddr ?d ?v (off div BSIZE))"
        "lbrelse me b l = Ok () (lg s2)" "s2 = s1\<lparr>lg := lg s2\<rparr>" "tx_ready {} 1 me (lg s2)" "fs_same s1 s2"
      using fs_peek [OF 1(2)] unfolding v1 by blast
    have s2: "fs_same s s2" using 1(3) 2(6) fs_same_trans by blast
    then have v2: "view (bs (lg s2)) = ?v" "itab s2 = itab s" by (auto simp: fs_same_def tx_same_def)
    have nz: "baddr ?d ?v (off div BSIZE) \<noteq> 0" using mappedD(1) [OF Suc.prems(2) \<open>off < z\<close>] .
    have c: "chunk (off mod BSIZE) m (?v (baddr ?d ?v (off div BSIZE))) = file_bytes ?d ?v off m" using chunk_file_bytes [OF m(2)] .
    have "\<exists>t. readi_loop k collect me sb i (tot + m) n (off + m) (mem @ file_bytes ?d ?v off m) s2 =
        Ok (int n, (mem @ file_bytes ?d ?v off m) @ file_bytes (idata (itab s2 i)) (view (bs (lg s2))) (off + m) (n - (tot + m))) t \<and>
        tx_ready {} 1 me (lg t) \<and> fs_same s2 t"
      by (rule Suc.IH) (use Suc.prems m 2(5) v2 in auto)
    then obtain t where t: "readi_loop k collect me sb i (tot + m) n (off + m) (mem @ file_bytes ?d ?v off m) s2 =
        Ok (int n, mem @ file_bytes ?d ?v off m @ file_bytes ?d ?v (off + m) (n - (tot + m))) t" "tx_ready {} 1 me (lg t)" "fs_same s2 t"
      unfolding v2 by auto
    have "n - tot = m + (n - (tot + m))" using m(3) by simp
    then have fb: "file_bytes ?d ?v off m @ file_bytes ?d ?v (off + m) (n - (tot + m)) = file_bytes ?d ?v off (n - tot)"
      using file_bytes_append [of ?d ?v off m "n - (tot + m)"] by simp
    have s2e: "s1\<lparr>lg := lg s2\<rparr> = s2" using 2(4) by simp
    have "readi_loop (Suc k) collect me sb i tot n off mem s = readi_loop k collect me sb i (tot + m) n (off + m) (mem @ file_bytes ?d ?v off m) s2"
      using True 1(1) 2(1-3) nz c by (simp add: Let_def collect_def m_def [symmetric] s2e)
    then show ?thesis using t fb fs_same_trans [OF s2 t(3)] by simp
  qed
qed

subsection \<open>Overwriting part of a file\<close>

text \<open>\<open>file_ok\<close>: the blocks of the first \<open>z\<close> bytes are distinct, none of them is the indirect block,
  and they lie outside the log.\<close>

definition file_ok :: "dinode \<Rightarrow> (nat \<Rightarrow> blk) \<Rightarrow> nat \<Rightarrow> lsys \<Rightarrow> bool" where
  "file_ok d v z l \<longleftrightarrow> mapped d v z \<and>
     (\<forall>a b. a * BSIZE < z \<longrightarrow> b * BSIZE < z \<longrightarrow> baddr d v a = baddr d v b \<longrightarrow> a = b) \<and>
     (\<forall>a. a * BSIZE < z \<longrightarrow> baddr d v a \<noteq> daddrs d NDIRECT \<and> baddr d v a < 2 ^ 32 \<and> baddr d v a \<notin> log_area (lstart l) (nat (lsize l)))"

definition file_blocks :: "dinode \<Rightarrow> (nat \<Rightarrow> blk) \<Rightarrow> nat \<Rightarrow> nat set" where
  "file_blocks d v z = {baddr d v a |a. a * BSIZE < z}"

definition from_list :: "u8 list \<Rightarrow> nat \<Rightarrow> nat \<Rightarrow> u8 list \<times> bool" where
  "from_list ys tot m = (take m (drop tot ys), True)"

definition chunks :: "nat \<Rightarrow> nat \<Rightarrow> nat" where
  "chunks off n = (if n = 0 then 0 else (off mod BSIZE + n + BSIZE - 1) div BSIZE)"

lemma chunks_step:
  fixes off n :: nat
  assumes "0 < n"
  defines "m \<equiv> min n (BSIZE - off mod BSIZE)"
  shows "chunks off n = chunks (off + m) (n - m) + 1"
proof -
  have lt: "off mod BSIZE < BSIZE" by simp
  show ?thesis
  proof (cases "n \<le> BSIZE - off mod BSIZE")
    case True
    then obtain e where "off mod BSIZE + n + BSIZE - 1 = BSIZE + e" "e < BSIZE"
      using assms(1) lt that [of "off mod BSIZE + n - 1"] by linarith
    then have "(off mod BSIZE + n + BSIZE - 1) div BSIZE = 1" by (simp add: div_add_self1 less_imp_neq [THEN not_sym, OF BSIZE_pos])
    then show ?thesis using True assms(1) by (simp add: chunks_def m_def)
  next
    case False
    then have m: "m = BSIZE - off mod BSIZE" by (simp add: m_def)
    have "off + m = BSIZE * Suc (off div BSIZE)"
      using lt mult_div_mod_eq [of BSIZE off] unfolding m mult_Suc_right by linarith
    then have al: "(off + m) mod BSIZE = 0" by simp
    have "off mod BSIZE + n + BSIZE - 1 = (n - m + BSIZE - 1) + BSIZE" using False lt unfolding m by linarith
    then have "(off mod BSIZE + n + BSIZE - 1) div BSIZE = (n - m + BSIZE - 1) div BSIZE + 1"
      by (simp add: div_add_self2 less_imp_neq [THEN not_sym, OF BSIZE_pos])
    then show ?thesis using False al assms(1) by (simp add: chunks_def m)
  qed
qed

lemma off_block: "p < z \<Longrightarrow> p div BSIZE * BSIZE < z"
  by (metis div_mult_mod_eq le_add1 le_less_trans)

lemma put_chunk_at: "put_chunk p ys x q = (if p \<le> q \<and> q < p + length ys then ys ! (q - p) else x q)"
  by (simp add: put_chunk_def)

text \<open>One round changes exactly the bytes it covers.\<close>

lemma file_write_chunk:
  assumes "file_ok d v z l" and "off < z" and "length ys \<le> BSIZE - off mod BSIZE"
  defines "a \<equiv> baddr d v (off div BSIZE)"
  defines "w \<equiv> v(a := put_chunk (off mod BSIZE) ys (v a))"
  shows "baddr d w = baddr d v" and "file_ok d w z l"
    and "p < z \<Longrightarrow> file_byte d w p = (if off \<le> p \<and> p < off + length ys then ys ! (p - off) else file_byte d v p)"
proof -
  have oz: "off div BSIZE * BSIZE < z" by (rule off_block [OF assms(2)])
  then have ai: "a \<noteq> daddrs d NDIRECT" using assms(1) by (simp add: file_ok_def a_def)
  then show b: "baddr d w = baddr d v" by (auto simp: baddr_def w_def)
  show "file_ok d w z l" using assms(1) unfolding file_ok_def mapped_def b .
  assume p: "p < z"
  show "file_byte d w p = (if off \<le> p \<and> p < off + length ys then ys ! (p - off) else file_byte d v p)"
  proof (cases "p div BSIZE = off div BSIZE")
    case False
    then have "baddr d v (p div BSIZE) \<noteq> a" using assms(1) oz off_block [OF p] unfolding file_ok_def a_def by blast
    moreover have "\<not> (off \<le> p \<and> p < off + length ys)"
    proof
      assume "off \<le> p \<and> p < off + length ys"
      then have "p - off < BSIZE - off mod BSIZE" "p = off + (p - off)" using assms(3) by linarith+
      then show False using div_mod_within(1) [of "p - off" off] False by simp
    qed
    ultimately show ?thesis by (auto simp: file_byte_def b) (simp_all add: w_def)
  next
    case True
    have e: "p mod BSIZE = p - off div BSIZE * BSIZE" "off mod BSIZE = off - off div BSIZE * BSIZE" "off div BSIZE * BSIZE \<le> p" "off div BSIZE * BSIZE \<le> off"
      using div_mult_mod_eq [of p BSIZE, unfolded True] div_mult_mod_eq [of off BSIZE] by linarith+
    then have "off mod BSIZE \<le> p mod BSIZE \<longleftrightarrow> off \<le> p" "p mod BSIZE < off mod BSIZE + length ys \<longleftrightarrow> p < off + length ys"
      "p mod BSIZE - off mod BSIZE = p - off" by linarith+
    then show ?thesis unfolding file_byte_def b True a_def [symmetric] by (simp add: w_def put_chunk_at)
  qed
qed

lemma writei_round:
  assumes rd: "tx_ready {} (K + 1) me (lg s)" "1 \<le> K" and fo: "file_ok (idata (itab s i)) (view (bs (lg s))) z (lg s)"
    and tot: "tot < n" "off + (n - tot) \<le> z" "length ys = n" and m_def: "m = min (n - tot) (BSIZE - off mod BSIZE)"
  defines "d \<equiv> idata (itab s i)"
  obtains t where "writei_loop (Suc k) (from_list ys) me sb i tot n off s = writei_loop k (from_list ys) me sb i (tot + m) n (off + m) t"
    and "tx_ready {} K me (lg t)" and "itab t = itab s" and "keeps {} (lg s) (lg t)" and "file_ok d (view (bs (lg t))) z (lg t)"
    and "baddr d (view (bs (lg t))) = baddr d (view (bs (lg s)))"
    and "\<And>p. p < z \<Longrightarrow> file_byte d (view (bs (lg t))) p =
       (if off \<le> p \<and> p < off + m then take m (drop tot ys) ! (p - off) else file_byte d (view (bs (lg s))) p)"
    and "\<And>b. b \<notin> file_blocks d (view (bs (lg s))) z \<Longrightarrow> view (bs (lg t)) b = view (bs (lg s)) b"
proof -
  let ?v = "view (bs (lg s))"
  have m: "m \<le> BSIZE - off mod BSIZE" "m \<le> n - tot" by (auto simp: m_def)
  have oz: "off < z" using tot by simp
  have mp: "mapped d ?v z" using fo by (simp add: file_ok_def d_def)
  have rd1: "tx_ready {} 1 me (lg s)" using rd by (simp add: tx_ready_def)
  from bmap_mapped [OF rd1 mp [unfolded d_def] oz] obtain s1 where
    1: "bmap me sb i (off div BSIZE) s = Ok (baddr d ?v (off div BSIZE)) s1" "tx_ready {} 1 me (lg s1)" "fs_same s s1" by (auto simp: d_def)
  let ?a = "baddr d ?v (off div BSIZE)" and ?ys = "take m (drop tot ys)"
  have v1: "view (bs (lg s1)) = ?v" "itab s1 = itab s" "keeps {} (lg s) (lg s1)" "log_ok me {} (lg s1)"
    using 1(2,3) by (auto simp: fs_same_def tx_same_def tx_ready_def)
  have rd2: "tx_ready {} (K + 1) me (lg s1)" using tx_ready_same [OF rd(1) v1(4)] 1(3) by (simp add: fs_same_def)
  have pl: "?a \<noteq> 0" "?a < 2 ^ 32" "?a \<notin> log_area (lstart (lg s1)) (nat (lsize (lg s1)))"
    using mappedD(1) [OF mp oz] fo off_block [OF oz] v1(3) by (auto simp: file_ok_def keeps_def same_log_def d_def)
  obtain l where l: "tx_update me ?a (put_chunk (off mod BSIZE) ?ys) (lg s1) = Ok () l" "tx_ready {} K me l"
      "view (bs l) = ?v(?a := put_chunk (off mod BSIZE) ?ys (?v ?a))" "keeps {} (lg s1) l"
    using tx_step [OF rd2 _ _ pl(2,3), of "put_chunk (off mod BSIZE) ?ys"] rd(2) v1(1) by auto
  have ly: "length ?ys = m" using m(2) tot by simp
  note fw = file_write_chunk [OF fo [folded d_def] oz, of ?ys, unfolded ly, OF m(1), folded l(3)]
  have kp: "keeps {} (lg s) l" using keeps_trans [OF v1(3) l(4)] by simp
  show thesis
  proof (rule that [of "s1\<lparr>lg := l\<rparr>"])
    show "writei_loop (Suc k) (from_list ys) me sb i tot n off s = writei_loop k (from_list ys) me sb i (tot + m) n (off + m) (s1\<lparr>lg := l\<rparr>)"
      using tot(1) 1(1) pl(1) l(1) by (auto simp: Let_def from_list_def m_def [symmetric] tx_update_def seqr_eq_Ok)
    show "file_ok d (view (bs (lg (s1\<lparr>lg := l\<rparr>)))) z (lg (s1\<lparr>lg := l\<rparr>))"
      using fw(2) kp unfolding file_ok_def by (simp add: keeps_def same_log_def)
    show "view (bs (lg (s1\<lparr>lg := l\<rparr>))) b = ?v b" if "b \<notin> file_blocks d ?v z" for b
      using that off_block [OF oz] l(3) by (auto simp: file_blocks_def)
  qed (use l(2) v1(2) kp fw(1,3) in auto)
qed

lemma writei_loop_mapped:
  assumes "tx_ready {} (int (chunks off (n - tot)) + r) me (lg s)" and "1 \<le> r" and "file_ok (idata (itab s i)) (view (bs (lg s))) z (lg s)"
    and "tot \<le> n" and "off + (n - tot) \<le> z" and "n - tot \<le> k" and "length ys = n"
  shows "\<exists>t. writei_loop k (from_list ys) me sb i tot n off s = Ok (n, off + (n - tot)) t \<and> tx_ready {} r me (lg t) \<and> itab t = itab s \<and>
     keeps {} (lg s) (lg t) \<and> file_ok (idata (itab s i)) (view (bs (lg t))) z (lg t) \<and>
     baddr (idata (itab s i)) (view (bs (lg t))) = baddr (idata (itab s i)) (view (bs (lg s))) \<and>
     (\<forall>p < z. file_byte (idata (itab s i)) (view (bs (lg t))) p =
        (if off \<le> p \<and> p < off + (n - tot) then ys ! (tot + (p - off)) else file_byte (idata (itab s i)) (view (bs (lg s))) p)) \<and>
     (\<forall>b. b \<notin> file_blocks (idata (itab s i)) (view (bs (lg s))) z \<longrightarrow> view (bs (lg t)) b = view (bs (lg s)) b)"
  using assms
proof (induction k arbitrary: tot off s)
  case 0
  then show ?case by (auto simp: chunks_def intro!: exI [of _ s])
next
  case (Suc k)
  let ?d = "idata (itab s i)" and ?v = "view (bs (lg s))"
  show ?case
  proof (cases "tot < n")
    case False
    then show ?thesis using Suc.prems by (auto simp: chunks_def intro!: exI [of _ s])
  next
    case True
    define m where "m = min (n - tot) (BSIZE - off mod BSIZE)"
    have m: "0 < m" "m \<le> n - tot" using True by (auto simp: m_def)
    define K where "K = int (chunks (off + m) (n - (tot + m))) + r"
    have nt: "n - tot - m = n - (tot + m)" by simp
    have K: "int (chunks off (n - tot)) + r = K + 1" "1 \<le> K"
      using chunks_step [of "n - tot" off] True Suc.prems(2) unfolding m_def [symmetric] K_def nt by auto
    obtain s2 where step: "writei_loop (Suc k) (from_list ys) me sb i tot n off s = writei_loop k (from_list ys) me sb i (tot + m) n (off + m) s2"
      and s2: "tx_ready {} K me (lg s2)" "itab s2 = itab s" "keeps {} (lg s) (lg s2)" "file_ok ?d (view (bs (lg s2))) z (lg s2)"
        "baddr ?d (view (bs (lg s2))) = baddr ?d ?v"
      and fb2: "\<And>p. p < z \<Longrightarrow> file_byte ?d (view (bs (lg s2))) p =
         (if off \<le> p \<and> p < off + m then take m (drop tot ys) ! (p - off) else file_byte ?d ?v p)"
      and ob2: "\<And>b. b \<notin> file_blocks ?d ?v z \<Longrightarrow> view (bs (lg s2)) b = ?v b"
      by (rule writei_round [OF Suc.prems(1) [unfolded K(1)] K(2) Suc.prems(3) True Suc.prems(5,7) m_def, of k sb]) blast
    have "\<exists>t. writei_loop k (from_list ys) me sb i (tot + m) n (off + m) s2 = Ok (n, (off + m) + (n - (tot + m))) t \<and> tx_ready {} r me (lg t) \<and> itab t = itab s2 \<and>
       keeps {} (lg s2) (lg t) \<and> file_ok (idata (itab s2 i)) (view (bs (lg t))) z (lg t) \<and>
       baddr (idata (itab s2 i)) (view (bs (lg t))) = baddr (idata (itab s2 i)) (view (bs (lg s2))) \<and>
       (\<forall>p < z. file_byte (idata (itab s2 i)) (view (bs (lg t))) p =
          (if off + m \<le> p \<and> p < (off + m) + (n - (tot + m)) then ys ! (tot + m + (p - (off + m))) else file_byte (idata (itab s2 i)) (view (bs (lg s2))) p)) \<and>
       (\<forall>b. b \<notin> file_blocks (idata (itab s2 i)) (view (bs (lg s2))) z \<longrightarrow> view (bs (lg t)) b = view (bs (lg s2)) b)"
      by (rule Suc.IH) (use Suc.prems m s2 K_def in auto)
    then obtain t where t: "writei_loop k (from_list ys) me sb i (tot + m) n (off + m) s2 = Ok (n, off + m + (n - (tot + m))) t" "tx_ready {} r me (lg t)" "itab t = itab s"
       "keeps {} (lg s2) (lg t)" "file_ok ?d (view (bs (lg t))) z (lg t)" "baddr ?d (view (bs (lg t))) = baddr ?d ?v"
       "\<forall>p < z. file_byte ?d (view (bs (lg t))) p =
          (if off + m \<le> p \<and> p < off + m + (n - (tot + m)) then ys ! (tot + m + (p - (off + m))) else file_byte ?d (view (bs (lg s2))) p)"
       "\<forall>b. b \<notin> file_blocks ?d ?v z \<longrightarrow> view (bs (lg t)) b = view (bs (lg s2)) b"
      unfolding s2(2) using s2(5) by (auto simp: file_blocks_def)
    have en: "off + m + (n - (tot + m)) = off + (n - tot)" using m(2) by simp
    have fb: "file_byte ?d (view (bs (lg t))) p = (if off \<le> p \<and> p < off + (n - tot) then ys ! (tot + (p - off)) else file_byte ?d ?v p)" if p: "p < z" for p
      using t(7) [rule_format, OF p] fb2 [OF p] m Suc.prems(4,7) unfolding en by (auto simp: add.commute add.left_commute)
    show ?thesis unfolding step
      by (rule exI [of _ t]) (use t(1-6,8) en fb ob2 keeps_trans [OF s2(3) t(4)] in simp)
  qed
qed

subsection \<open>Properties of inodes and files\<close>

definition demo_file :: dinode where
  "demo_file = \<lparr>dtype = 2, dmajor = 0, dminor = 0, dnlink = 1, dsize = 10, daddrs = (\<lambda>k. if k = 0 then 60 else 0)\<rparr>"

definition demo_fs :: fsys where
  "demo_fs = \<lparr>lg = demo_tx, itab = (\<lambda>i. if i = 0
     then \<lparr>idev = 1, inum = 1, iref = 1, ilk = None, ivalid = True, idata = demo_file\<rparr>
     else \<lparr>idev = 0, inum = 0, iref = 0, ilk = None, ivalid = False, idata = zero_dinode\<rparr>)\<rparr>"

lemma demo_fs_simps: "lg demo_fs = demo_tx" "idata (itab demo_fs 0) = demo_file" "inum (itab demo_fs 0) = 1" "dsize demo_file = 10"
  by (simp_all add: demo_fs_def demo_file_def)

lemma demo_baddr: "bn * BSIZE < 10 \<Longrightarrow> baddr demo_file v bn = 60 \<and> bn = 0"
  by (cases bn) (auto simp: baddr_def demo_file_def NDIRECT_def BSIZE_def)

lemma demo_file_ok: "file_ok demo_file v 10 demo_tx" "mapped demo_file v 10" "dinode_ok demo_file" "inodes_placed demo_sb demo_tx"
proof -
  show m: "mapped demo_file v 10"
    using demo_baddr by (fastforce simp: mapped_def MAXFILE_def NDIRECT_def NINDIRECT_def BSIZE_def)
  show "file_ok demo_file v 10 demo_tx"
    unfolding file_ok_def
  proof (intro conjI allI impI m)
    show "a = b" if "a * BSIZE < 10" "b * BSIZE < 10" for a b using demo_baddr that by metis
    fix a assume "a * BSIZE < 10"
    then have "baddr demo_file v a = 60" using demo_baddr by blast
    then show "baddr demo_file v a \<noteq> daddrs demo_file NDIRECT" "baddr demo_file v a < 2 ^ 32"
      "baddr demo_file v a \<notin> log_area (lstart demo_tx) (nat (lsize demo_tx))"
      by (simp_all add: demo_tx_view log_area_def) (simp add: demo_file_def NDIRECT_def)
  qed
  show "dinode_ok demo_file" by (simp add: dinode_ok_def demo_file_def NDIRECT_def)
  show "inodes_placed demo_sb demo_tx"
  proof -
    have "n div 16 \<le> 12" if "n < 200" for n :: nat using that by linarith
    then show ?thesis by (fastforce simp: inodes_placed_def demo_sb_def demo_tx_view IBLOCK_def IPB_def BSIZE_def log_area_def)
  qed
qed

lemma readi_mapped:
  assumes "tx_ready {} 1 me (lg s)" and "mapped (idata (itab s i)) (view (bs (lg s))) (dsize (idata (itab s i)))"
    and "off \<le> dsize (idata (itab s i))" and "off + n < 2 ^ 32"
  shows "\<exists>t. readi collect me sb i off n [] s =
       Ok (int (min n (dsize (idata (itab s i)) - off)),
           file_bytes (idata (itab s i)) (view (bs (lg s))) off (min n (dsize (idata (itab s i)) - off))) t \<and>
     tx_ready {} 1 me (lg t) \<and> fs_same s t"
proof -
  let ?z = "dsize (idata (itab s i))"
  define m where "m = min n (?z - off)"
  have mm: "(if off + n > ?z then ?z - off else n) = m" using assms(3) by (auto simp: m_def)
  have nz: "\<not> (?z < off \<or> (off + n) mod 2 ^ 32 < off)" using assms(3,4) by simp
  have "readi collect me sb i off n [] s = readi_loop m collect me sb i 0 m off [] s"
    unfolding readi_def Let_def if_not_P [OF nz] mm ..
  moreover have "\<exists>t. readi_loop m collect me sb i 0 m off [] s = Ok (int m, [] @ file_bytes (idata (itab s i)) (view (bs (lg s))) off (m - 0)) t \<and>
      tx_ready {} 1 me (lg t) \<and> fs_same s t"
    by (rule readi_loop_mapped [OF assms(1,2)]) (use assms(3) in \<open>auto simp: m_def\<close>)
  ultimately show ?thesis by (simp add: m_def)
qed

text \<open>\<^verbatim>\<open>readi\<close> returns the bytes of the file from the offset on, at most to its end, looking up
  direct and indirect blocks, and changes nothing that can be seen; an offset behind the end or a
  range that wraps around reads nothing.\<close>

theorem readi_contents:
  assumes "tx_ready {} 1 me (lg s)" and "mapped (idata (itab s i)) (view (bs (lg s))) (dsize (idata (itab s i)))"
  shows "if off \<le> dsize (idata (itab s i)) \<and> off + n < 2 ^ 32
         then \<exists>t. readi collect me sb i off n [] s =
                Ok (int (min n (dsize (idata (itab s i)) - off)),
                    file_bytes (idata (itab s i)) (view (bs (lg s))) off (min n (dsize (idata (itab s i)) - off))) t \<and>
              itab t = itab s \<and> view (bs (lg t)) = view (bs (lg s)) \<and> log_ok me {} (lg t)
         else off < 2 ^ 32 \<longrightarrow> n < 2 ^ 32 \<longrightarrow> readi collect me sb i off n [] s = Ok (0, []) s"
proof (cases "off \<le> dsize (idata (itab s i)) \<and> off + n < 2 ^ 32")
  case True
  then show ?thesis using readi_mapped [OF assms, of off n sb] by (auto simp: fs_same_def tx_same_def tx_ready_def)
next
  case False
  have "(off + n) mod 2 ^ 32 < off" if "off < 2 ^ 32" "n < 2 ^ 32" "2 ^ 32 \<le> off + n"
  proof -
    have "(off + n) mod 2 ^ 32 = off + n - 2 ^ 32" using that by (simp add: le_mod_geq)
    then show ?thesis using that by linarith
  qed
  then have "dsize (idata (itab s i)) < off \<or> (off + n) mod 2 ^ 32 < off" if "off < 2 ^ 32" "n < 2 ^ 32" using False that by auto
  then show ?thesis using False by (auto simp: readi_def)
qed

theorem readi_contents_witness:
  "\<exists>t. readi collect 1 demo_sb 0 3 20 [] demo_fs = Ok (7, replicate 7 0) t"
proof -
  have r: "tx_ready {} 1 1 (lg demo_fs)" using demo_tx_ready [of 1 1] by (simp add: demo_fs_simps)
  have "file_bytes demo_file demo_disk 3 7 = replicate 7 0"
  proof -
    have "file_byte demo_file demo_disk p = 0" if "p < 10" for p
      using conjunct1 [OF demo_baddr [OF off_block [OF that]], of demo_disk] unfolding file_byte_def by (simp only:) (simp add: demo_disk_def)
    then show ?thesis by (intro nth_equalityI) (simp_all add: file_bytes_def)
  qed
  then show ?thesis
    using readi_contents [OF r, of 0 3 20 demo_sb] demo_file_ok(2) by (auto simp: demo_fs_simps demo_tx_view)
qed

lemma writei_inside:
  assumes "tx_ready {} (int (chunks off (length ys)) + 2) me (lg s)" and "idata (itab s i) = d" and "view (bs (lg s)) = v"
    and "file_ok d v (dsize d) (lg s)" and "dinode_ok d" and "off + length ys \<le> dsize d"
    and "inodes_placed sb (lg s)" and "inum (itab s i) < sb_ninodes sb"
    and "\<forall>m < sb_ninodes sb. IBLOCK m sb \<notin> insert (daddrs d NDIRECT) (file_blocks d v (dsize d))"
  shows "\<exists>t. writei (from_list ys) me sb i off (length ys) s = Ok (int (length ys)) t \<and> itab t = itab s \<and>
     tx_ready {} 1 me (lg t) \<and> keeps {} (lg s) (lg t) \<and> baddr d (view (bs (lg t))) = baddr d v \<and>
     (\<forall>p < dsize d. file_byte d (view (bs (lg t))) p = (if off \<le> p \<and> p < off + length ys then ys ! (p - off) else file_byte d v p)) \<and>
     (\<forall>m < sb_ninodes sb. dinode_of sb (view (bs (lg t))) m = (if m = inum (itab s i) then d else dinode_of sb v m)) \<and>
     (\<forall>b. b \<notin> file_blocks d v (dsize d) \<longrightarrow> b \<noteq> IBLOCK (inum (itab s i)) sb \<longrightarrow> view (bs (lg t)) b = v b)"
proof -
  let ?n = "inum (itab s i)" and ?z = "dsize d"
  let ?ib = "IBLOCK ?n sb"
  have r2: "tx_ready {} (int (chunks off (length ys - 0)) + 2) me (lg s)" using assms(1) by simp
  have z: "?z < 2 ^ 32" "?z \<le> MAXFILE * BSIZE" using assms(4,5) by (auto simp: dinode_ok_def file_ok_def mapped_def)
  obtain t where t: "writei_loop (length ys) (from_list ys) me sb i 0 (length ys) off s = Ok (length ys, off + length ys) t"
      "tx_ready {} 2 me (lg t)" "itab t = itab s" "keeps {} (lg s) (lg t)" "file_ok d (view (bs (lg t))) ?z (lg t)" "baddr d (view (bs (lg t))) = baddr d v"
      "\<forall>p < ?z. file_byte d (view (bs (lg t))) p = (if off \<le> p \<and> p < off + length ys then ys ! (p - off) else file_byte d v p)"
      "\<forall>b. b \<notin> file_blocks d v ?z \<longrightarrow> view (bs (lg t)) b = v b"
    using writei_loop_mapped [OF r2, of i ?z "length ys" ys sb] assms(2,3,4,6) by auto
  have ip: "inodes_placed sb (lg t)" using assms(7) t(4) by (simp add: inodes_placed_def keeps_def same_log_def)
  have r1: "tx_ready {} (1 + 1) me (lg t)" using t(2) by simp
  obtain l where l: "iupdate me sb i t = Ok () (t\<lparr>lg := l\<rparr>)" "tx_ready {} 1 me l" "keeps {} (lg t) l"
      "view (bs l) = (view (bs (lg t)))(?ib := put_dinode d (doff ?n) (view (bs (lg t)) ?ib))"
    using iupdate_ok [OF r1 _ ip, of i] t(3) assms(2,8) by auto
  define u where "u = t\<lparr>lg := l\<rparr>"
  have ib: "?ib \<noteq> daddrs d NDIRECT" "?ib \<notin> file_blocks d v ?z" using assms(8,9) by auto
  have bu: "baddr d (view (bs (lg u))) = baddr d v" proof -
    have "baddr d (view (bs (lg u))) = baddr d (view (bs (lg t)))" unfolding u_def
      by (rule ext) (simp add: baddr_def l(4) ib(1) [symmetric])
    then show ?thesis using t(6) by simp
  qed
  have fu: "file_byte d (view (bs (lg u))) p = file_byte d (view (bs (lg t))) p" if "p < ?z" for p
  proof -
    have "baddr d v (p div BSIZE) \<noteq> ?ib" using ib(2) off_block [OF that] by (auto simp: file_blocks_def)
    then show ?thesis using l(4) bu t(6) by (simp add: file_byte_def u_def)
  qed
  have w: "writei (from_list ys) me sb i off (length ys) s = Ok (int (length ys)) u"
    using t(1,3) l(1) assms(2,6) z by (simp add: writei_def u_def)
  have ub: "view (bs (lg u)) b = v b" if "b \<notin> file_blocks d v ?z" "b \<noteq> ?ib" for b using t(8) l(4) that by (simp add: u_def)
  have du: "dinode_of sb (view (bs (lg u))) m = (if m = ?n then d else dinode_of sb v m)" if "m < sb_ninodes sb" for m
  proof -
    have "dinode_of sb (view (bs (lg u))) m = (if m = ?n then d else dinode_of sb (view (bs (lg t))) m)"
      unfolding u_def by (simp add: l(4) dinode_of_put [OF assms(5)] del: fun_upd_apply)
    moreover have "dinode_of sb (view (bs (lg t))) m = dinode_of sb v m" using t(8) assms(9) that by (simp add: dinode_of_def)
    ultimately show ?thesis by simp
  qed
  have "itab u = itab s" "tx_ready {} 1 me (lg u)" "keeps {} (lg s) (lg u)"
    using t(3) l(2) keeps_trans [OF t(4) l(3)] by (simp_all add: u_def)
  then show ?thesis using w ub du fu t(7) bu by (intro exI [of _ u]) simp
qed

text \<open>C24. Writing inside a file: \<^verbatim>\<open>writei\<close> of bytes that fit before the end of the file stores exactly
  these bytes at the offset, keeps every other byte of the file, every other inode on disk and every
  block that does not belong to the file, and returns their number; \<^verbatim>\<open>readi\<close> then gives them back.\<close>

theorem writei_readi_roundtrip:
  assumes "tx_ready {} (int (chunks off (length ys)) + 2) me (lg s)" and "idata (itab s i) = d" and "view (bs (lg s)) = v"
    and "file_ok d v (dsize d) (lg s)" and "dinode_ok d" and "off + length ys \<le> dsize d"
    and "inodes_placed sb (lg s)" and "inum (itab s i) < sb_ninodes sb"
    and "\<forall>m < sb_ninodes sb. IBLOCK m sb \<notin> insert (daddrs d NDIRECT) (file_blocks d v (dsize d))"
  shows "\<exists>t u. writei (from_list ys) me sb i off (length ys) s = Ok (int (length ys)) t \<and> itab t = itab s \<and>
     (\<forall>p < dsize d. file_byte d (view (bs (lg t))) p = (if off \<le> p \<and> p < off + length ys then ys ! (p - off) else file_byte d v p)) \<and>
     (\<forall>m < sb_ninodes sb. dinode_of sb (view (bs (lg t))) m = (if m = inum (itab s i) then d else dinode_of sb v m)) \<and>
     (\<forall>b. b \<notin> file_blocks d v (dsize d) \<longrightarrow> b \<noteq> IBLOCK (inum (itab s i)) sb \<longrightarrow> view (bs (lg t)) b = v b) \<and>
     readi collect me sb i off (length ys) [] t = Ok (int (length ys), ys) u"
proof -
  obtain t where t: "writei (from_list ys) me sb i off (length ys) s = Ok (int (length ys)) t" "itab t = itab s" "tx_ready {} 1 me (lg t)"
      "baddr d (view (bs (lg t))) = baddr d v"
      "\<forall>p < dsize d. file_byte d (view (bs (lg t))) p = (if off \<le> p \<and> p < off + length ys then ys ! (p - off) else file_byte d v p)"
      "\<forall>m < sb_ninodes sb. dinode_of sb (view (bs (lg t))) m = (if m = inum (itab s i) then d else dinode_of sb v m)"
      "\<forall>b. b \<notin> file_blocks d v (dsize d) \<longrightarrow> b \<noteq> IBLOCK (inum (itab s i)) sb \<longrightarrow> view (bs (lg t)) b = v b"
    using writei_inside [OF assms] by blast
  have z: "dsize d < 2 ^ 32" "idata (itab t i) = d" using assms(2,5) t(2) by (auto simp: dinode_ok_def)
  have "mapped d (view (bs (lg t))) (dsize d)" using assms(4) t(4) by (simp add: mapped_def file_ok_def)
  then obtain x where "readi collect me sb i off (length ys) [] t = Ok (int (length ys), file_bytes d (view (bs (lg t))) off (length ys)) x"
    using readi_mapped [of me t i off "length ys" sb] z t(3) assms(6) by auto
  moreover have "file_bytes d (view (bs (lg t))) off (length ys) = ys"
    using t(5) assms(6) by (intro nth_equalityI) (simp_all add: file_bytes_def)
  ultimately show ?thesis using t by (intro exI [of _ t] exI [of _ x]) simp
qed

theorem writei_readi_roundtrip_witness:
  "\<exists>t u. writei (from_list [7, 8, 9]) 1 demo_sb 0 2 3 demo_fs = Ok 3 t \<and> file_byte demo_file (view (bs (lg t))) 3 = 8 \<and>
     readi collect 1 demo_sb 0 2 3 [] t = Ok (3, [7, 8, 9]) u"
proof -
  have c: "chunks 2 3 = 1" by (simp add: chunks_def BSIZE_def)
  have l: "length [7, 8, 9 :: u8] = 3" by simp
  have r: "tx_ready {} (int (chunks 2 (length [7, 8, 9 :: u8])) + 2) 1 (lg demo_fs)"
    unfolding l c using demo_tx_ready [of 3 1] by (simp add: demo_fs_simps)
  have fb: "file_blocks demo_file demo_disk 10 = {60}"
  proof -
    have "baddr demo_file demo_disk 0 = 60" "0 * BSIZE < 10" using demo_baddr [of 0 demo_disk] by simp_all
    then show ?thesis unfolding file_blocks_def using demo_baddr by (auto intro!: exI [of _ 0])
  qed
  have di: "daddrs demo_file NDIRECT = 0" "sb_ninodes demo_sb = 200" "IBLOCK m demo_sb = m div 16 + 32" for m
    by (simp_all add: demo_file_def NDIRECT_def demo_sb_def IBLOCK_def IPB_def BSIZE_def)
  have "\<forall>m < sb_ninodes demo_sb. IBLOCK m demo_sb \<notin> insert (daddrs demo_file NDIRECT) (file_blocks demo_file demo_disk (dsize demo_file))"
    unfolding demo_fs_simps fb di by auto
  then have "\<exists>t u. writei (from_list [7, 8, 9]) 1 demo_sb 0 2 (length [7, 8, 9 :: u8]) demo_fs = Ok (int (length [7, 8, 9 :: u8])) t \<and> itab t = itab demo_fs \<and>
     (\<forall>p < dsize demo_file. file_byte demo_file (view (bs (lg t))) p =
        (if 2 \<le> p \<and> p < 2 + length [7, 8, 9 :: u8] then [7, 8, 9] ! (p - 2) else file_byte demo_file demo_disk p)) \<and>
     (\<forall>m < sb_ninodes demo_sb. dinode_of demo_sb (view (bs (lg t))) m = (if m = inum (itab demo_fs 0) then demo_file else dinode_of demo_sb demo_disk m)) \<and>
     (\<forall>b. b \<notin> file_blocks demo_file demo_disk (dsize demo_file) \<longrightarrow> b \<noteq> IBLOCK (inum (itab demo_fs 0)) demo_sb \<longrightarrow> view (bs (lg t)) b = demo_disk b) \<and>
     readi collect 1 demo_sb 0 2 (length [7, 8, 9 :: u8]) [] t = Ok (int (length [7, 8, 9 :: u8]), [7, 8, 9]) u"
    by (intro writei_readi_roundtrip [OF r demo_fs_simps(2) _ _ demo_file_ok(3)])
      (simp_all add: demo_fs_simps demo_tx_view demo_file_ok di)
  then obtain t u where t: "writei (from_list [7, 8, 9]) 1 demo_sb 0 2 3 demo_fs = Ok 3 t" "readi collect 1 demo_sb 0 2 3 [] t = Ok (3, [7, 8, 9]) u"
    "\<forall>p < 10. file_byte demo_file (view (bs (lg t))) p = (if 2 \<le> p \<and> p < 5 then [7, 8, 9] ! (p - 2) else file_byte demo_file demo_disk p)"
    unfolding l demo_fs_simps by (auto simp: numeral_eq_Suc)
  then have "file_byte demo_file (view (bs (lg t))) 3 = 8" by simp
  then show ?thesis using t by blast
qed

theorem iget_contract_witness:
  "itab_inv demo_fs \<and> (case iget 1 1 demo_fs of Ok i t \<Rightarrow> itab_inv t \<and> holds_ino t i 1 1 \<and> lg t = demo_tx | Panic m \<Rightarrow> False | Wait t \<Rightarrow> False)"
proof -
  have inv: "itab_inv demo_fs" by (auto simp: itab_inv_def holds_ino_def demo_fs_def split: if_splits)
  have "holds_ino demo_fs 0 1 1" by (simp add: holds_ino_def demo_fs_def NINODE_def)
  then have "\<not> (\<forall>i < NINODE. 0 < iref (itab demo_fs i) \<and> \<not> holds_ino demo_fs i 1 1)" by (auto simp: holds_ino_def)
  then show ?thesis using iget_contract [OF inv, of 1 1] inv by (auto simp: demo_fs_simps split: res.splits)
qed

text \<open>What \<^verbatim>\<open>iupdate\<close> writes is what \<^verbatim>\<open>ilock\<close> reads: after the entry has been recycled (its copy of
  the inode is invalid and holds anything), locking it gives back type, device numbers, link count,
  size and block addresses, and no other inode on disk has changed.\<close>

theorem iupdate_ilock_roundtrip:
  assumes "tx_ready {} 2 me (lg s)" and "inodes_placed sb (lg s)" and "inum (itab s i) < sb_ninodes sb"
    and "dinode_ok (idata (itab s i))" and "dtype (idata (itab s i)) \<noteq> 0" and "1 \<le> iref (itab s i)" and "ilk (itab s i) = None"
  shows "\<exists>t u. iupdate me sb i s = Ok () t \<and> itab t = itab s \<and>
     ilock me sb i (upd_ino i (\<lambda>x. x\<lparr>ivalid := False, idata := junk\<rparr>) t) = Ok () u \<and>
     idata (itab u i) = idata (itab s i) \<and> ivalid (itab u i) \<and> ilk (itab u i) = Some me \<and>
     (\<forall>m. m \<noteq> inum (itab s i) \<longrightarrow> dinode_of sb (view (bs (lg u))) m = dinode_of sb (view (bs (lg s))) m)"
proof -
  let ?n = "inum (itab s i)" and ?d = "idata (itab s i)"
  have r: "tx_ready {} (1 + 1) me (lg s)" using assms(1) by simp
  obtain l where l: "iupdate me sb i s = Ok () (s\<lparr>lg := l\<rparr>)" "tx_ready {} 1 me l"
      "view (bs l) = (view (bs (lg s)))(IBLOCK ?n sb := put_dinode ?d (doff ?n) (view (bs (lg s)) (IBLOCK ?n sb)))"
    using iupdate_ok [OF r _ assms(2,3)] by auto
  have dv: "dinode_of sb (view (bs l)) m = (if m = ?n then ?d else dinode_of sb (view (bs (lg s))) m)" for m
    unfolding l(3) by (rule dinode_of_put [OF assms(4)])
  define w where "w = upd_ino i (\<lambda>x. x\<lparr>ivalid := False, idata := junk\<rparr>) (s\<lparr>lg := l\<rparr>)"
  have w: "lg w = l" "inum (itab w i) = ?n" "iref (itab w i) = iref (itab s i)" "ilk (itab w i) = None" "\<not> ivalid (itab w i)"
    using assms(7) by (simp_all add: w_def)
  obtain u where u: "ilock me sb i w = Ok () u" "tx_same {} (lg w) (lg u)"
      "itab u = (itab w)(i := (itab w i)\<lparr>ilk := Some me, idata := dinode_of sb (view (bs (lg w))) (inum (itab w i)), ivalid := True\<rparr>)"
    using ilock_loads [of me w i sb] w l(2) assms(5,6) dv by auto
  have "view (bs (lg u)) = view (bs l)" using u(2) w(1) by (simp add: tx_same_def)
  then show ?thesis using l(1) u(1,3) w dv unfolding w_def [symmetric] by (intro exI [of _ "s\<lparr>lg := l\<rparr>"] exI [of _ u]) (simp add: w_def)
qed

theorem iupdate_ilock_roundtrip_witness:
  "\<exists>t u. iupdate 1 demo_sb 0 demo_fs = Ok () t \<and>
     ilock 1 demo_sb 0 (upd_ino 0 (\<lambda>x. x\<lparr>ivalid := False, idata := zero_dinode\<rparr>) t) = Ok () u \<and> idata (itab u 0) = demo_file"
proof -
  have "tx_ready {} 2 1 (lg demo_fs)" using demo_tx_ready [of 2 1] by (simp add: demo_fs_simps)
  moreover have "inum (itab demo_fs 0) < sb_ninodes demo_sb" "dinode_ok (idata (itab demo_fs 0))" "dtype (idata (itab demo_fs 0)) \<noteq> 0"
      "1 \<le> iref (itab demo_fs 0)" "ilk (itab demo_fs 0) = None" "inodes_placed demo_sb (lg demo_fs)"
    using demo_file_ok(3,4) by (simp_all add: demo_fs_def demo_sb_def) (simp add: demo_file_def)
  ultimately show ?thesis using iupdate_ilock_roundtrip [of 1 demo_fs demo_sb 0 zero_dinode] by (auto simp: demo_fs_simps)
qed

end
