(* ===== verification/Fs_Dir.thy ===== *)
theory Fs_Dir
  imports Fs_Inode
begin

section \<open>Directories and path names (kernel/fs.c, third part)\<close>

text \<open>
  A path is the list of its bytes before the terminating zero; so is a name, which in the code is
  a buffer of \<open>DIRSIZ\<close> bytes that a zero may end earlier. A directory entry is 16 bytes of the
  directory file: the inode number and the name padded with zeros.
\<close>

definition DIRSIZ :: nat where "DIRSIZ = 14"
definition ROOTINO :: nat where "ROOTINO = 1"
definition slash :: u8 where "slash = 47"

text \<open>\<^verbatim>\<open>strncmp\<close> of two zero-terminated byte strings, as \<^verbatim>\<open>namecmp\<close> uses it.\<close>

definition first_byte :: "u8 list \<Rightarrow> u8" where
  "first_byte xs = (case xs of [] \<Rightarrow> 0 | x # _ \<Rightarrow> x)"

primrec strncmp_list :: "nat \<Rightarrow> u8 list \<Rightarrow> u8 list \<Rightarrow> int" where
  "strncmp_list 0 p q = 0"
| "strncmp_list (Suc n) p q =
     (if first_byte p \<noteq> 0 \<and> first_byte p = first_byte q then strncmp_list n (tl p) (tl q)
      else uint (first_byte p) - uint (first_byte q))"

definition namecmp :: "u8 list \<Rightarrow> u8 list \<Rightarrow> int" where
  "namecmp s t = strncmp_list DIRSIZ s t"

subsection \<open>Directory entries\<close>

definition de_inum :: "u8 list \<Rightarrow> nat" where
  "de_inum ys = get_le 2 (\<lambda>k. ys ! k) 0"

definition de_name :: "u8 list \<Rightarrow> u8 list" where
  "de_name ys = take DIRSIZ (drop 2 ys)"

definition dirent :: "nat \<Rightarrow> u8 list \<Rightarrow> u8 list" where
  "dirent n name = [of_nat n, of_nat (n div 256)] @ take DIRSIZ (takeWhile (\<lambda>c. c \<noteq> 0) name @ replicate DIRSIZ 0)"

definition dir_offs :: "nat \<Rightarrow> nat list" where
  "dir_offs z = map (\<lambda>k. 16 * k) [0..<(z + 15) div 16]"

primrec dirlookup_loop :: "nat \<Rightarrow> superblock \<Rightarrow> nat \<Rightarrow> u8 list \<Rightarrow> nat list \<Rightarrow> fsys \<Rightarrow> ((nat \<times> nat) option, fsys) res" where
  "dirlookup_loop me sb dp name [] s = Ok None s"
| "dirlookup_loop me sb dp name (off # offs) s =
     seqr (readi collect me sb dp off 16 [] s) (\<lambda>(r, de) s.
       if r \<noteq> 16 then Panic ''dirlookup read''
       else if de_inum de = 0 then dirlookup_loop me sb dp name offs s
       else if namecmp name (de_name de) = 0
            then seqr (iget (idev (itab s dp)) (de_inum de) s) (\<lambda>ip s. Ok (Some (ip, off)) s)
       else dirlookup_loop me sb dp name offs s)"

definition dirlookup :: "nat \<Rightarrow> superblock \<Rightarrow> nat \<Rightarrow> u8 list \<Rightarrow> fsys \<Rightarrow> ((nat \<times> nat) option, fsys) res" where
  "dirlookup me sb dp name s =
     (if dtype (idata (itab s dp)) \<noteq> T_DIR then Panic ''dirlookup not DIR''
      else dirlookup_loop me sb dp name (dir_offs (dsize (idata (itab s dp)))) s)"

text \<open>The search for an empty entry: the offset of the first one, or the end of the directory.\<close>

primrec dirlink_loop :: "nat \<Rightarrow> superblock \<Rightarrow> nat \<Rightarrow> nat \<Rightarrow> nat list \<Rightarrow> fsys \<Rightarrow> (nat, fsys) res" where
  "dirlink_loop me sb dp last_off [] s = Ok last_off s"
| "dirlink_loop me sb dp last_off (off # offs) s =
     seqr (readi collect me sb dp off 16 [] s) (\<lambda>(r, de) s.
       if r \<noteq> 16 then Panic ''dirlink read''
       else if de_inum de = 0 then Ok off s
       else dirlink_loop me sb dp (off + 16) offs s)"

definition dirlink :: "nat \<Rightarrow> superblock \<Rightarrow> nat \<Rightarrow> u8 list \<Rightarrow> nat \<Rightarrow> fsys \<Rightarrow> (int, fsys) res" where
  "dirlink me sb dp name n s =
     seqr (dirlookup me sb dp name s) (\<lambda>r s.
       case r of
         Some (ip, _) \<Rightarrow> seqr (iput me sb ip s) (\<lambda>_ s. Ok (-1) s)
       | None \<Rightarrow>
           seqr (dirlink_loop me sb dp 0 (dir_offs (dsize (idata (itab s dp)))) s) (\<lambda>off s.
           seqr (writei (from_list (dirent n name)) me sb dp off 16 s) (\<lambda>w s.
             Ok (if w \<noteq> 16 then -1 else 0) s)))"

subsection \<open>Paths\<close>

text \<open>\<^verbatim>\<open>skipelem\<close>: the name copied (at most \<open>DIRSIZ\<close> bytes) and the rest of the path.\<close>

definition skipelem :: "u8 list \<Rightarrow> (u8 list \<times> u8 list) option" where
  "skipelem path =
     (let path = dropWhile (\<lambda>c. c = slash) path
      in if path = [] then None
         else let s = takeWhile (\<lambda>c. c \<noteq> slash) path;
                  path = dropWhile (\<lambda>c. c \<noteq> slash) path;
                  name = (if DIRSIZ \<le> length s then take DIRSIZ s else s)
              in Some (name, dropWhile (\<lambda>c. c = slash) path))"

text \<open>The loop of \<^verbatim>\<open>namex\<close>; every round takes at least one byte off the path, so one round more than
  the path has bytes is enough. The result is the inode and the last name copied.\<close>

primrec namex_loop :: "nat \<Rightarrow> nat \<Rightarrow> superblock \<Rightarrow> bool \<Rightarrow> nat \<Rightarrow> u8 list \<Rightarrow> u8 list \<Rightarrow> fsys \<Rightarrow> ((nat \<times> u8 list) option, fsys) res" where
  "namex_loop 0 me sb nameiparent ip name path s = Wait s"
| "namex_loop (Suc k) me sb nameiparent ip name path s =
     (case skipelem path of
        None \<Rightarrow> if nameiparent then seqr (iput me sb ip s) (\<lambda>_ s. Ok None s) else Ok (Some (ip, name)) s
      | Some (name, path) \<Rightarrow>
          seqr (ilock me sb ip s) (\<lambda>_ s.
            if dtype (idata (itab s ip)) \<noteq> T_DIR then seqr (iunlockput me sb ip s) (\<lambda>_ s. Ok None s)
            else if nameiparent \<and> path = [] then seqr (iunlock me ip s) (\<lambda>_ s. Ok (Some (ip, name)) s)
            else seqr (dirlookup me sb ip name s) (\<lambda>r s.
              case r of
                None \<Rightarrow> seqr (iunlockput me sb ip s) (\<lambda>_ s. Ok None s)
              | Some (nip, _) \<Rightarrow> seqr (iunlockput me sb ip s) (\<lambda>_ s.
                  namex_loop k me sb nameiparent nip name path s))))"

definition namex :: "nat \<Rightarrow> superblock \<Rightarrow> nat \<Rightarrow> u8 list \<Rightarrow> bool \<Rightarrow> fsys \<Rightarrow> ((nat \<times> u8 list) option, fsys) res" where
  "namex me sb cwd_ino path nameiparent s =
     seqr (if first_byte path = slash then iget ROOTDEV ROOTINO s else idup cwd_ino s) (\<lambda>ip s.
       namex_loop (Suc (length path)) me sb nameiparent ip [] path s)"

definition namei :: "nat \<Rightarrow> superblock \<Rightarrow> nat \<Rightarrow> u8 list \<Rightarrow> fsys \<Rightarrow> (nat option, fsys) res" where
  "namei me sb cwd_ino path s = seqr (namex me sb cwd_ino path False s) (\<lambda>r s. Ok (map_option fst r) s)"

definition nameiparent :: "nat \<Rightarrow> superblock \<Rightarrow> nat \<Rightarrow> u8 list \<Rightarrow> fsys \<Rightarrow> ((nat \<times> u8 list) option, fsys) res" where
  "nameiparent me sb cwd_ino path s = namex me sb cwd_ino path True s"

subsection \<open>Path elements\<close>

lemma skipelem_shorter: "skipelem path = Some (name, rest) \<Longrightarrow> length rest < length path"
proof -
  assume a: "skipelem path = Some (name, rest)"
  let ?p = "dropWhile (\<lambda>c. c = slash) path"
  have ne: "?p \<noteq> []" and r: "rest = dropWhile (\<lambda>c. c = slash) (dropWhile (\<lambda>c. c \<noteq> slash) ?p)"
    using a by (auto simp: skipelem_def Let_def split: if_splits)
  have "hd ?p \<noteq> slash" using hd_dropWhile [OF ne] by simp
  then have "length (dropWhile (\<lambda>c. c \<noteq> slash) ?p) < length ?p" using ne by (cases ?p) (auto simp: length_dropWhile_le le_imp_less_Suc)
  moreover have "length rest \<le> length (dropWhile (\<lambda>c. c \<noteq> slash) ?p)" unfolding r by (rule length_dropWhile_le)
  moreover have "length ?p \<le> length path" by (rule length_dropWhile_le)
  ultimately show ?thesis by linarith
qed

function path_names :: "u8 list \<Rightarrow> u8 list list" where
  "path_names path = (case skipelem path of None \<Rightarrow> [] | Some (name, rest) \<Rightarrow> name # path_names rest)"
  by pat_completeness auto
termination
  by (relation "measure length") (auto dest: skipelem_shorter)

declare path_names.simps [simp del]

text \<open>The specification: the non-empty pieces between slashes.\<close>

fun pieces :: "u8 list \<Rightarrow> u8 list \<Rightarrow> u8 list list" where
  "pieces acc [] = (if acc = [] then [] else [acc])"
| "pieces acc (c # cs) =
     (if c = slash then (if acc = [] then pieces [] cs else acc # pieces [] cs) else pieces (acc @ [c]) cs)"

lemma pieces_slashes: "pieces [] (dropWhile (\<lambda>c. c = slash) path) = pieces [] path"
  by (induction path) auto

lemma pieces_name:
  "acc \<noteq> [] \<or> (path \<noteq> [] \<and> hd path \<noteq> slash) \<Longrightarrow>
     pieces acc path = (acc @ takeWhile (\<lambda>c. c \<noteq> slash) path) # pieces [] (dropWhile (\<lambda>c. c \<noteq> slash) path)"
  by (induction path arbitrary: acc) auto

lemma path_names_pieces: "path_names path = map (take DIRSIZ) (pieces [] path)"
proof (induction path rule: path_names.induct)
  case (1 path)
  let ?p = "dropWhile (\<lambda>c. c = slash) path"
  show ?case
  proof (cases "?p = []")
    case True
    then have "pieces [] path = []" using pieces_slashes [of path] by (metis pieces.simps(1))
    then show ?thesis using True by (subst path_names.simps) (simp add: skipelem_def)
  next
    case False
    let ?s = "takeWhile (\<lambda>c. c \<noteq> slash) ?p" and ?q = "dropWhile (\<lambda>c. c \<noteq> slash) ?p"
    have sk: "skipelem path = Some (take DIRSIZ ?s, dropWhile (\<lambda>c. c = slash) ?q)" using False by (simp add: skipelem_def Let_def)
    have "pieces [] path = ?s # pieces [] ?q"
      using pieces_name [of "[]" ?p] hd_dropWhile [OF False] False pieces_slashes [of path] by simp
    moreover have "path_names (dropWhile (\<lambda>c. c = slash) ?q) = map (take DIRSIZ) (pieces [] ?q)"
      using 1 [OF sk refl] pieces_slashes by simp
    ultimately show ?thesis using sk by (subst path_names.simps) simp
  qed
qed

subsection \<open>Looking up a name\<close>

text \<open>The entries of a directory, as the list of their inode numbers and names.\<close>

definition entry :: "dinode \<Rightarrow> (nat \<Rightarrow> blk) \<Rightarrow> nat \<Rightarrow> u8 list" where
  "entry d v off = file_bytes d v off 16"

definition entry_matches :: "dinode \<Rightarrow> (nat \<Rightarrow> blk) \<Rightarrow> u8 list \<Rightarrow> nat \<Rightarrow> bool" where
  "entry_matches d v name off \<longleftrightarrow> de_inum (entry d v off) \<noteq> 0 \<and> namecmp name (de_name (entry d v off)) = 0"

lemma dirlookup_loop_ok:
  assumes "tx_ready {} 1 me (lg s)" and "mapped (idata (itab s dp)) (view (bs (lg s))) (dsize (idata (itab s dp)))"
    and "dsize (idata (itab s dp)) < 2 ^ 32" and "\<forall>off \<in> set offs. off + 16 \<le> dsize (idata (itab s dp))"
  shows "\<exists>t. fs_same s t \<and> tx_ready {} 1 me (lg t) \<and> dirlookup_loop me sb dp name offs s =
      (case scan_first (entry_matches (idata (itab s dp)) (view (bs (lg s))) name) offs of
         None \<Rightarrow> Ok None t
       | Some off \<Rightarrow> seqr (iget (idev (itab t dp)) (de_inum (entry (idata (itab s dp)) (view (bs (lg s))) off)) t) (\<lambda>ip s. Ok (Some (ip, off)) s))"
  using assms
proof (induction offs arbitrary: s)
  case Nil
  then show ?case by (auto intro: exI [of _ s])
next
  case (Cons off offs)
  let ?d = "idata (itab s dp)" and ?v = "view (bs (lg s))"
  have o: "off + 16 \<le> dsize ?d" using Cons.prems(4) by simp
  obtain t where t: "readi collect me sb dp off 16 [] s = Ok (16, entry ?d ?v off) t" "tx_ready {} 1 me (lg t)" "fs_same s t"
    using readi_mapped [OF Cons.prems(1,2), of off 16 sb] o Cons.prems(3) by (auto simp: entry_def min_absorb1)
  have v: "view (bs (lg t)) = ?v" "itab t = itab s" using t(3) by (auto simp: fs_same_def tx_same_def)
  show ?case
  proof (cases "entry_matches ?d ?v name off")
    case True
    then show ?thesis using t by (intro exI [of _ t]) (simp add: entry_matches_def)
  next
    case False
    have "dirlookup_loop me sb dp name (off # offs) s = dirlookup_loop me sb dp name offs t"
      using t(1) False by (auto simp: entry_matches_def)
    moreover have "\<exists>u. fs_same t u \<and> tx_ready {} 1 me (lg u) \<and> dirlookup_loop me sb dp name offs t =
      (case scan_first (entry_matches (idata (itab t dp)) (view (bs (lg t))) name) offs of
         None \<Rightarrow> Ok None u
       | Some off \<Rightarrow> seqr (iget (idev (itab u dp)) (de_inum (entry (idata (itab t dp)) (view (bs (lg t))) off)) u) (\<lambda>ip s. Ok (Some (ip, off)) s))"
      by (rule Cons.IH) (use t(2) v Cons.prems in auto)
    ultimately obtain u where u: "fs_same t u" "tx_ready {} 1 me (lg u)" "dirlookup_loop me sb dp name (off # offs) s =
      (case scan_first (entry_matches ?d ?v name) offs of
         None \<Rightarrow> Ok None u
       | Some off \<Rightarrow> seqr (iget (idev (itab u dp)) (de_inum (entry ?d ?v off)) u) (\<lambda>ip s. Ok (Some (ip, off)) s))"
      unfolding v by auto
    show ?thesis using False u(2,3) fs_same_trans [OF t(3) u(1)] by (intro exI [of _ u]) simp
  qed
qed

lemma dir_offs_within: "16 dvd z \<Longrightarrow> off \<in> set (dir_offs z) \<longleftrightarrow> 16 dvd off \<and> off + 16 \<le> z"
  by (auto simp: dir_offs_def elim!: dvdE)

lemma scan_first_least_offs:
  assumes "scan_first P (dir_offs z) = Some off" and "16 dvd e" and "e < off"
  shows "\<not> P e"
proof -
  have "scan_first P (map (\<lambda>k. 16 * k) ks) = map_option (\<lambda>k. 16 * k) (scan_first (\<lambda>k. P (16 * k)) ks)" for ks :: "nat list"
    by (induction ks) auto
  then obtain k where k: "scan_first (\<lambda>k. P (16 * k)) [0..<(z + 15) div 16] = Some k" "off = 16 * k"
    using assms(1) by (auto simp: dir_offs_def)
  obtain j where j: "e = 16 * j" using assms(2) by (elim dvdE)
  then have "j < k" using assms(3) k(2) by simp
  then show ?thesis using scan_first_upt_least [OF k(1)] j by simp
qed

lemma iget_result:
  assumes "itab_inv s" and "iget d n s = Ok i t"
  shows "holds_ino t i d n" and "lg t = lg s"
proof -
  have "holds_ino t i d n \<and> lg t = lg s"
    using iget_cases [OF assms(1), of d n] assms(2) by (auto simp: holds_ino_def split: option.splits dest: scan_first_SomeD)
  then show "holds_ino t i d n" and "lg t = lg s" by auto
qed

text \<open>The comparison of names: equal up to the first zero byte or \<open>DIRSIZ\<close> bytes.\<close>

definition cut_name :: "u8 list \<Rightarrow> u8 list" where
  "cut_name name = takeWhile (\<lambda>c. c \<noteq> 0) (take DIRSIZ name)"

lemma strncmp_list_eq: "strncmp_list n p q = 0 \<longleftrightarrow> takeWhile (\<lambda>c. c \<noteq> 0) (take n p) = takeWhile (\<lambda>c. c \<noteq> 0) (take n q)"
proof (induction n arbitrary: p q)
  case (Suc n)
  then show ?case
    by (cases p; cases q) (auto simp: first_byte_def uint_0_iff word_uint_eq_iff [symmetric])
qed simp

lemma namecmp_eq: "namecmp s t = 0 \<longleftrightarrow> cut_name s = cut_name t"
  by (simp add: namecmp_def cut_name_def strncmp_list_eq)

text \<open>Repeatedly taking \<^verbatim>\<open>skipelem\<close> off a path, as \<^verbatim>\<open>namex\<close> does, ends after at most as many steps
  as the path has bytes and gives exactly the non-empty pieces between its slashes, in order, each
  cut to \<open>DIRSIZ\<close> bytes; so leading, doubled and trailing slashes do not matter.\<close>

lemma skipelem_names:
  "path_names path = map (take DIRSIZ) (pieces [] path) \<and> length (path_names path) \<le> length path"
proof
  show "path_names path = map (take DIRSIZ) (pieces [] path)" by (rule path_names_pieces)
  show "length (path_names path) \<le> length path"
  proof (induction path rule: path_names.induct)
    case (1 path)
    show ?case
    proof (cases "skipelem path")
      case None
      then show ?thesis by (subst path_names.simps) simp
    next
      case (Some nr)
      obtain name rest where nr: "nr = (name, rest)" by (cases nr)
      then have "length (path_names rest) \<le> length rest" "length rest < length path"
        using 1 [OF Some nr [symmetric]] skipelem_shorter Some by auto
      then show ?thesis using Some nr by (subst path_names.simps) simp
    qed
  qed
qed

text \<open>C37. \<^verbatim>\<open>dirlookup\<close> in a well-formed directory returns the inode and the offset of the first entry in
  use whose name agrees with the given one up to its end or \<open>DIRSIZ\<close> bytes, and null when there is
  none; on an inode that is not a directory it panics, and so it does when the inode table is full.\<close>

theorem dirlookup_first_match:
  assumes "tx_ready {} 1 me (lg s)" and "mapped (idata (itab s dp)) (view (bs (lg s))) (dsize (idata (itab s dp)))"
    and "dsize (idata (itab s dp)) < 2 ^ 32" and "16 dvd dsize (idata (itab s dp))" and "itab_inv s"
  defines "d \<equiv> idata (itab s dp)" and "v \<equiv> view (bs (lg s))"
  shows "if dtype d \<noteq> T_DIR then dirlookup me sb dp name s = Panic ''dirlookup not DIR''
     else case dirlookup me sb dp name s of
        Ok None t \<Rightarrow> fs_same s t \<and> (\<forall>off. 16 dvd off \<longrightarrow> off + 16 \<le> dsize d \<longrightarrow>
            de_inum (entry d v off) = 0 \<or> cut_name name \<noteq> cut_name (de_name (entry d v off)))
      | Ok (Some (ip, off)) t \<Rightarrow> 16 dvd off \<and> off + 16 \<le> dsize d \<and> de_inum (entry d v off) \<noteq> 0 \<and>
            cut_name name = cut_name (de_name (entry d v off)) \<and>
            (\<forall>e. 16 dvd e \<longrightarrow> e < off \<longrightarrow> de_inum (entry d v e) = 0 \<or> cut_name name \<noteq> cut_name (de_name (entry d v e))) \<and>
            holds_ino t ip (idev (itab s dp)) (de_inum (entry d v off)) \<and> tx_same {} (lg s) (lg t)
      | Panic m \<Rightarrow> m = ''iget: no inodes'' \<and> (\<forall>i < NINODE. iref (itab s i) \<noteq> 0) | Wait t \<Rightarrow> False"
proof (cases "dtype d = T_DIR")
  case False
  then show ?thesis by (simp add: dirlookup_def d_def)
next
  case True
  have offs: "off \<in> set (dir_offs (dsize d)) \<longleftrightarrow> 16 dvd off \<and> off + 16 \<le> dsize d" for off
    by (rule dir_offs_within [OF assms(4) [folded d_def]])
  let ?scan = "scan_first (entry_matches d v name) (dir_offs (dsize d))"
  have dl: "dirlookup me sb dp name s = dirlookup_loop me sb dp name (dir_offs (dsize d)) s" using True by (simp add: dirlookup_def d_def)
  obtain t where t: "fs_same s t" "dirlookup_loop me sb dp name (dir_offs (dsize d)) s =
      (case ?scan of None \<Rightarrow> Ok None t | Some off \<Rightarrow> seqr (iget (idev (itab t dp)) (de_inum (entry d v off)) t) (\<lambda>ip s. Ok (Some (ip, off)) s))"
    using dirlookup_loop_ok [OF assms(1-3), of "dir_offs (dsize d)" sb name] offs unfolding d_def [symmetric] v_def [symmetric] by auto
  have it: "itab t = itab s" "itab_inv t" using t(1) assms(5) by (auto simp: fs_same_def itab_inv_def holds_ino_def)
  show ?thesis
  proof (cases ?scan)
    case None
    then have "\<not> entry_matches d v name off" if "16 dvd off" "off + 16 \<le> dsize d" for off
      using offs that by (auto simp: scan_first_None_iff)
    then show ?thesis using True dl t None by (auto simp: entry_matches_def namecmp_eq)
  next
    case (Some off)
    then have m: "off \<in> set (dir_offs (dsize d))" "entry_matches d v name off" by (auto dest: scan_first_SomeD)
    have fst: "\<not> entry_matches d v name e" if "16 dvd e" "e < off" for e
      using scan_first_least_offs [OF Some that] .
    show ?thesis
    proof (cases "iget (idev (itab s dp)) (de_inum (entry d v off)) t")
      case (Ok ip u)
      then have "holds_ino u ip (idev (itab s dp)) (de_inum (entry d v off))" "lg u = lg t"
        using iget_result [OF it(2)] by auto
      then show ?thesis using True dl t Some Ok m offs fst it(1) by (auto simp: entry_matches_def namecmp_eq fs_same_def)
    next
      case (Panic e)
      then show ?thesis using iget_cases [OF it(2), of "idev (itab s dp)" "de_inum (entry d v off)"] True dl t Some it(1)
        by (auto simp: scan_first_None_iff split: option.splits)
    next
      case (Wait u)
      then show ?thesis using iget_cases [OF it(2), of "idev (itab s dp)" "de_inum (entry d v off)"] by (auto split: option.splits)
    qed
  qed
qed


definition demo_dir :: dinode where
  "demo_dir = demo_file\<lparr>dtype := T_DIR, dsize := 16\<rparr>"

definition demo_dir_disk :: "nat \<Rightarrow> blk" where
  "demo_dir_disk = demo_disk(60 := (\<lambda>k. if k = 0 then 5 else if k = 2 then 97 else 0))"

definition demo_dir_fs :: fsys where
  "demo_dir_fs = \<lparr>lg = (boot demo_dir_disk)\<lparr>lstart := 2, lsize := 30, outstanding := 1\<rparr>,
     itab = (\<lambda>i. if i = 0 then \<lparr>idev = 1, inum = 1, iref = 1, ilk = None, ivalid = True, idata = demo_dir\<rparr>
       else \<lparr>idev = 0, inum = 0, iref = 0, ilk = None, ivalid = False, idata = zero_dinode\<rparr>)\<rparr>"

lemma demo_dir_facts:
  "tx_ready {} 1 1 (lg demo_dir_fs)" "view (bs (lg demo_dir_fs)) = demo_dir_disk" "idata (itab demo_dir_fs 0) = demo_dir"
  "mapped demo_dir v 16" "dsize demo_dir = 16" "itab_inv demo_dir_fs" "dtype demo_dir = T_DIR" "entry demo_dir demo_dir_disk 0 = [5, 0, 97] @ replicate 13 0"
proof -
  show v: "view (bs (lg demo_dir_fs)) = demo_dir_disk"
    using zero_bsys_binit(2) [of demo_dir_disk] by (simp add: demo_dir_fs_def boot_def fun_eq_iff)
  have "head_n 2 demo_dir_disk = 0" by (simp add: head_n_def demo_dir_disk_def demo_disk_def get_le_def sint32_def)
  moreover have "cst 1 {} {} (bs (lg demo_dir_fs))" "disk (bs (lg demo_dir_fs)) = demo_dir_disk"
    using boot_cst(1) [of 1 demo_dir_disk] boot_cst(2) by (simp_all add: demo_dir_fs_def)
  ultimately show "tx_ready {} 1 1 (lg demo_dir_fs)"
    by (simp add: tx_ready_def log_ok_def LOGSIZE_def MAXOPBLOCKS_def logged_def) (simp add: demo_dir_fs_def boot_def)
  have b: "baddr demo_dir v bn = 60 \<and> bn = 0" if "bn * BSIZE < 16" for bn v
    using that by (cases bn) (auto simp: baddr_def demo_dir_def demo_file_def NDIRECT_def BSIZE_def)
  show "mapped demo_dir v 16" using b by (fastforce simp: mapped_def MAXFILE_def NDIRECT_def NINDIRECT_def BSIZE_def)
  have "file_byte demo_dir demo_dir_disk p = (if p = 0 then 5 else if p = 2 then 97 else 0)" if "p < 16" for p
  proof -
    have "baddr demo_dir demo_dir_disk (p div BSIZE) = 60" using b [OF off_block [OF that]] by blast
    moreover have "p mod BSIZE = p" using that by (simp add: BSIZE_def)
    ultimately show ?thesis by (simp add: file_byte_def demo_dir_disk_def)
  qed
  then have e: "entry demo_dir demo_dir_disk 0 ! k = (if k = 0 then 5 else if k = 2 then 97 else 0)" if "k < 16" for k
    using that by (simp add: entry_def file_bytes_def)
  have n: "([5, 0, 97] @ replicate 13 0) ! k = (if k = 0 then 5 else if k = 2 then 97 else 0 :: u8)" if "k < 16" for k
  proof -
    consider "k = 0" | "k = 1" | "k = 2" | "3 \<le> k" by linarith
    then show ?thesis by cases (use that in \<open>auto simp: nth_append nth_Cons'\<close>)
  qed
  show "entry demo_dir demo_dir_disk 0 = [5, 0, 97] @ replicate 13 0"
    by (rule nth_equalityI) (use e n in \<open>simp_all add: entry_def file_bytes_def\<close>)
qed (auto simp: demo_dir_fs_def demo_dir_def itab_inv_def holds_ino_def split: if_splits)

lemma get_le_2: "get_le 2 x p = unat (x p) + unat (x (p + 1)) * 256"
proof -
  have "{..<2} = {0, 1 :: nat}" by auto
  then show ?thesis by (simp add: get_le_def)
qed

theorem dirlookup_first_match_witness:
  "\<exists>ip off t. dirlookup 1 demo_sb 0 [97] demo_dir_fs = Ok (Some (ip, off)) t \<and> holds_ino t ip 1 5"
proof -
  note f = demo_dir_facts
  have nm: "de_inum (entry demo_dir demo_dir_disk 0) = 5" "cut_name [97] = cut_name (de_name (entry demo_dir demo_dir_disk 0))"
    unfolding f(8) by (simp_all add: de_inum_def get_le_2 de_name_def cut_name_def DIRSIZ_def)
  have fr: "iref (itab demo_dir_fs 1) = 0" "1 < NINODE" "idev (itab demo_dir_fs 0) = 1" by (simp_all add: demo_dir_fs_def NINODE_def)
  have "mapped (idata (itab demo_dir_fs 0)) (view (bs (lg demo_dir_fs))) (dsize (idata (itab demo_dir_fs 0)))"
    "dsize (idata (itab demo_dir_fs 0)) < 2 ^ 32" "16 dvd dsize (idata (itab demo_dir_fs 0))" using f(4) by (simp_all add: f(3,5))
  note m = dirlookup_first_match [OF f(1) this f(6), of demo_sb "[97]", unfolded f(2,3,5,7)]
  show ?thesis
  proof (cases "dirlookup 1 demo_sb 0 [97] demo_dir_fs")
    case (Ok r t)
    show ?thesis
    proof (cases r)
      case None
      then have "\<forall>off. 16 dvd off \<longrightarrow> off + 16 \<le> 16 \<longrightarrow> de_inum (entry demo_dir demo_dir_disk off) = 0 \<or>
          cut_name [97] \<noteq> cut_name (de_name (entry demo_dir demo_dir_disk off))" using m Ok by simp
      from this [rule_format, of 0] show ?thesis using nm by simp
    next
      case (Some q)
      obtain ip off where q: "q = (ip, off)" by (cases q)
      then have "off + 16 \<le> 16" "holds_ino t ip 1 (de_inum (entry demo_dir demo_dir_disk off))" using m Ok Some fr(3) by auto
      then have "off = 0" "holds_ino t ip 1 5" using nm(1) by simp_all
      then show ?thesis using Ok Some q by blast
    qed
  next
    case (Panic e)
    then have "\<forall>i < NINODE. iref (itab demo_dir_fs i) \<noteq> 0" using m by simp
    then show ?thesis using fr(1,2) by blast
  next
    case (Wait t)
    then show ?thesis using m by simp
  qed
qed

end
