(* ===== verification/Frame.thy ===== *)
theory Frame
  imports Fs_Dir
begin

section \<open>What the file system leaves alone\<close>

text \<open>
  The block cache, the log and the file system share the process table with the rest of the kernel,
  since they sleep and wake processes. An operation that returns has at most woken processes:
  \<open>pstat\<close> is the table with channels blanked and without the difference between the states of a
  live process, and every operation keeps it. The rules of \<open>frames\<close> and of \<open>okp\<close>, a postcondition
  for results that are not panics or sleeps, follow the sequential composition of the code.
\<close>

named_theorems frame \<open>operations that keep a projection of the state\<close>

definition frames :: "('s \<Rightarrow> 'p) \<Rightarrow> 'p \<Rightarrow> ('a, 's) res \<Rightarrow> bool" where
  "frames proj p r = (case r of Ok a t \<Rightarrow> proj t = p | _ \<Rightarrow> True)"

lemma frames_res [simp]:
  "frames proj p (Ok a t) = (proj t = p)" "frames proj p (Panic m)" "frames proj p (Wait t)"
  by (simp_all add: frames_def)

lemma frames_seqr [frame]:
  assumes "frames proj p r" and "\<And>a t. proj t = p \<Longrightarrow> frames proj p (f a t)"
  shows "frames proj p (seqr r f)"
  using assms by (cases r) auto

lemma frames_if [frame]:
  "(b \<Longrightarrow> frames proj p x) \<Longrightarrow> (\<not> b \<Longrightarrow> frames proj p y) \<Longrightarrow> frames proj p (if b then x else y)"
  by simp

lemma frames_option [frame]:
  "(x = None \<Longrightarrow> frames proj p a) \<Longrightarrow> (\<And>y. x = Some y \<Longrightarrow> frames proj p (f y)) \<Longrightarrow> frames proj p (case x of None \<Rightarrow> a | Some y \<Rightarrow> f y)"
  by (cases x) auto

lemma frames_prod [frame]: "(\<And>a b. x = (a, b) \<Longrightarrow> frames proj p (f a b)) \<Longrightarrow> frames proj p (case x of (a, b) \<Rightarrow> f a b)"
  by (cases x) auto

lemma frames_cases [frame]:
  "(\<And>a t. r = Ok a t \<Longrightarrow> frames proj p (f a t)) \<Longrightarrow> (\<And>m. r = Panic m \<Longrightarrow> frames proj p (g m)) \<Longrightarrow>
   (\<And>t. r = Wait t \<Longrightarrow> frames proj p (h t)) \<Longrightarrow> frames proj p (case r of Ok a t \<Rightarrow> f a t | Panic m \<Rightarrow> g m | Wait t \<Rightarrow> h t)"
  by (cases r) auto

definition okp :: "('a \<Rightarrow> 's \<Rightarrow> bool) \<Rightarrow> ('a, 's) res \<Rightarrow> bool" where
  "okp Q r = (case r of Ok a t \<Rightarrow> Q a t | _ \<Rightarrow> True)"

lemma okp_res [simp]: "okp Q (Ok a t) = Q a t" "okp Q (Panic m)" "okp Q (Wait t)"
  by (simp_all add: okp_def)

lemma okp_seqr: "okp Q' r \<Longrightarrow> (\<And>a t. Q' a t \<Longrightarrow> okp Q (f a t)) \<Longrightarrow> okp Q (seqr r f)"
  by (cases r) auto

lemma okp_frame: "frames proj p r \<Longrightarrow> (\<And>a t. proj t = p \<Longrightarrow> okp Q (f a t)) \<Longrightarrow> okp Q (seqr r f)"
  by (cases r) auto

lemma okpI: "(\<And>a t. r = Ok a t \<Longrightarrow> Q a t) \<Longrightarrow> okp Q r"
  by (cases r) auto

lemma okpD: "okp Q r \<Longrightarrow> r = Ok a t \<Longrightarrow> Q a t"
  by simp

subsection \<open>Processes up to state and channel\<close>

definition pstat :: "ptable \<Rightarrow> ptable" where
  "pstat ps = (\<lambda>i. (ps i)\<lparr>pstate := (if pstate (ps i) = UNUSED \<or> pstate (ps i) = ZOMBIE then pstate (ps i) else RUNNABLE), chan := NoChan\<rparr>)"

lemma pstat_wake [simp]: "pstat (wakeup c me ps) = pstat ps"
  by (auto simp: pstat_def wakeup_eq fun_eq_iff wake_one_def)

text \<open>The blanked table at each layer.\<close>

abbreviation bstat :: "bsys \<Rightarrow> ptable" where "bstat s \<equiv> pstat (bps s)"
abbreviation lstat :: "lsys \<Rightarrow> ptable" where "lstat s \<equiv> pstat (bps (bs s))"
abbreviation fstat :: "fsys \<Rightarrow> ptable" where "fstat s \<equiv> pstat (bps (bs (lg s)))"

subsection \<open>The block cache\<close>

lemma bps_simps [simp]:
  "bps (upd_buf i f s) = bps s" "bps (link_front b s) = bps s" "bps (unlink b s) = bps s" "bps (disk_rw b w s) = bps s"
  "bps (bpin b s) = bps s" "bps (bunpin b s) = bps s" "bps (set_data b x s) = bps s"
  by (simp_all add: upd_buf_def link_front_def unlink_def disk_rw_def bpin_def bunpin_def set_data_def Let_def)

lemma lock_buf_frame [frame]: "bstat s = p \<Longrightarrow> frames bstat p (lock_buf me b s)"
  by (auto simp: lock_buf_def acquiresleep_def split: option.splits)

lemma bread_frame [frame]: "bstat s = p \<Longrightarrow> frames bstat p (bread me d n s)"
  unfolding bread_def bget_def by (auto intro!: frame split: option.splits)

lemma bwrite_frame [frame]: "bstat s = p \<Longrightarrow> frames bstat p (bwrite me b s)"
  by (simp add: bwrite_def)

lemma brelse_frame [frame]: "bstat s = p \<Longrightarrow> frames bstat p (brelse me b s)"
  by (simp add: brelse_def releasesleep_def Let_def)

subsection \<open>The log\<close>

lemma lift_bs_frame [frame]: "frames bstat p r \<Longrightarrow> frames lstat p (lift_bs r s)"
  by (cases r) (simp_all add: lift_bs_def)

lemma install_trans_loop_frame [frame]: "bstat b = p \<Longrightarrow> frames bstat p (install_trans_loop me r st blk ts b)"
  by (induction ts arbitrary: b) (auto intro!: frame)

lemma install_trans_frame [frame]: "lstat s = p \<Longrightarrow> frames lstat p (install_trans me r s)"
  by (auto simp: install_trans_def intro!: frame)

lemma write_log_loop_frame [frame]: "bstat b = p \<Longrightarrow> frames bstat p (write_log_loop me st blk ts b)"
  by (induction ts arbitrary: b) (auto intro!: frame)

lemma write_log_frame [frame]: "lstat s = p \<Longrightarrow> frames lstat p (write_log me s)"
  by (auto simp: write_log_def intro!: frame)

lemma write_head_frame [frame]: "lstat s = p \<Longrightarrow> frames lstat p (write_head me s)"
  unfolding write_head_def by (auto intro!: frame)

lemma commit_frame [frame]: "lstat s = p \<Longrightarrow> frames lstat p (commit me s)"
  unfolding commit_def by (auto intro!: frame)

lemma begin_op_frame [frame]: "lstat s = p \<Longrightarrow> frames lstat p (begin_op me s)"
  by (simp add: begin_op_def lsleep_def)

lemma end_op_frame [frame]: "lstat s = p \<Longrightarrow> frames lstat p (end_op me s)"
  unfolding end_op_def Let_def by (auto intro!: frame simp: lwakeup_def)

lemma log_write_frame [frame]: "lstat s = p \<Longrightarrow> frames lstat p (log_write b s)"
  by (simp add: log_write_def Let_def)

lemma lbread_frame [frame]: "lstat s = p \<Longrightarrow> frames lstat p (lbread me n s)"
  unfolding lbread_def by (auto intro!: frame)

lemma lbrelse_frame [frame]: "lstat s = p \<Longrightarrow> frames lstat p (lbrelse me b s)"
  unfolding lbrelse_def by (auto intro!: frame)

subsection \<open>Blocks and inodes\<close>

lemma bzero_frame [frame]: "lstat s = p \<Longrightarrow> frames lstat p (bzero me b s)"
  unfolding bzero_def by (auto intro!: frame)

lemma balloc_loop_frame [frame]: "lstat s = p \<Longrightarrow> frames lstat p (balloc_loop me sb ws s)"
  by (induction ws arbitrary: s) (auto intro!: frame split: option.splits)

lemma balloc_frame [frame]: "lstat s = p \<Longrightarrow> frames lstat p (balloc me sb s)"
  by (auto simp: balloc_def intro!: frame)

lemma bfree_frame [frame]: "lstat s = p \<Longrightarrow> frames lstat p (bfree me sb b s)"
  unfolding bfree_def Let_def by (auto intro!: frame)

lemma lift_lg_frame [frame]: "frames lstat p r \<Longrightarrow> frames fstat p (lift_lg r s)"
  by (cases r) (simp_all add: lift_lg_def)

lemma fstat_simps [simp]:
  "lg (upd_ino i f s) = lg s" "lg (set_addr i k a s) = lg s" "bps (bs (lg (set_ptab ps s))) = ps"
  by (simp_all add: upd_ino_def set_addr_def set_ptab_def)

lemma iget_frame [frame]: "fstat s = p \<Longrightarrow> frames fstat p (iget d n s)"
  by (auto simp: iget_def split: prod.splits option.splits)

lemma idup_frame [frame]: "fstat s = p \<Longrightarrow> frames fstat p (idup i s)"
  by (simp add: idup_def)

lemma ialloc_loop_frame [frame]: "fstat s = p \<Longrightarrow> frames fstat p (ialloc_loop me sb d ty ns s)"
  by (induction ns arbitrary: s) (auto simp: Let_def intro!: frame)

lemma ialloc_frame [frame]: "fstat s = p \<Longrightarrow> frames fstat p (ialloc me sb d ty s)"
  by (auto simp: ialloc_def intro!: frame)

lemma iupdate_frame [frame]: "fstat s = p \<Longrightarrow> frames fstat p (iupdate me sb i s)"
  unfolding iupdate_def Let_def by (auto intro!: frame)

lemma lock_ino_frame [frame]: "fstat s = p \<Longrightarrow> frames fstat p (lock_ino me i s)"
  by (auto simp: lock_ino_def acquiresleep_def split: option.splits)

lemma unlock_ino_stat [simp]: "fstat (unlock_ino me i s) = fstat s"
  by (simp add: unlock_ino_def releasesleep_def)

lemma ilock_frame [frame]: "fstat s = p \<Longrightarrow> frames fstat p (ilock me sb i s)"
  unfolding ilock_def Let_def by (auto intro!: frame)

lemma iunlock_frame [frame]: "fstat s = p \<Longrightarrow> frames fstat p (iunlock me i s)"
  by (simp add: iunlock_def)

lemma addr_alloc_frame [frame]: "fstat s = p \<Longrightarrow> frames fstat p (addr_alloc me sb i k s)"
  unfolding addr_alloc_def Let_def by (auto intro!: frame)

lemma bmap_frame [frame]: "fstat s = p \<Longrightarrow> frames fstat p (bmap me sb i bn s)"
  unfolding bmap_def Let_def by (auto intro!: frame)

lemma itrunc_direct_frame [frame]: "fstat s = p \<Longrightarrow> frames fstat p (itrunc_direct me sb i ks s)"
  by (induction ks arbitrary: s) (auto simp: Let_def intro!: frame)

lemma itrunc_indirect_frame [frame]: "lstat l = p \<Longrightarrow> frames lstat p (itrunc_indirect me sb x js l)"
  by (induction js arbitrary: l) (auto intro!: frame)

lemma itrunc_frame [frame]: "fstat s = p \<Longrightarrow> frames fstat p (itrunc me sb i s)"
  unfolding itrunc_def Let_def by (auto intro!: frame)

lemma iput_frame [frame]: "fstat s = p \<Longrightarrow> frames fstat p (iput me sb i s)"
  unfolding iput_def by (auto intro!: frame)

lemma iunlockput_frame [frame]: "fstat s = p \<Longrightarrow> frames fstat p (iunlockput me sb i s)"
  unfolding iunlockput_def by (auto intro!: frame)

lemma readi_loop_frame [frame]: "fstat s = p \<Longrightarrow> frames fstat p (readi_loop k cp me sb i tot n off mem s)"
  by (induction k arbitrary: tot off mem s) (auto simp: Let_def split: prod.split intro!: frame)

lemma readi_frame [frame]: "fstat s = p \<Longrightarrow> frames fstat p (readi cp me sb i off n mem s)"
  by (auto simp: readi_def Let_def intro!: frame)

lemma writei_loop_frame [frame]: "fstat s = p \<Longrightarrow> frames fstat p (writei_loop k cp me sb i tot n off s)"
  by (induction k arbitrary: tot off s) (auto simp: Let_def split: prod.split intro!: frame)

lemma writei_frame [frame]: "fstat s = p \<Longrightarrow> frames fstat p (writei cp me sb i off n s)"
  unfolding writei_def by (auto simp: Let_def split: prod.split intro!: frame)

subsection \<open>Directories and paths\<close>

lemma dirlookup_loop_frame [frame]: "fstat s = p \<Longrightarrow> frames fstat p (dirlookup_loop me sb dp name offs s)"
  by (induction offs arbitrary: s) (auto split: prod.split intro!: frame)

lemma dirlookup_frame [frame]: "fstat s = p \<Longrightarrow> frames fstat p (dirlookup me sb dp name s)"
  by (auto simp: dirlookup_def intro!: frame)

lemma dirlink_loop_frame [frame]: "fstat s = p \<Longrightarrow> frames fstat p (dirlink_loop me sb dp l offs s)"
  by (induction offs arbitrary: l s) (auto split: prod.split intro!: frame)

lemma dirlink_frame [frame]: "fstat s = p \<Longrightarrow> frames fstat p (dirlink me sb dp name n s)"
  unfolding dirlink_def by (auto split: option.split prod.split intro!: frame)

lemma namex_loop_frame [frame]: "fstat s = p \<Longrightarrow> frames fstat p (namex_loop k me sb np ip name path s)"
  by (induction k arbitrary: ip name path s) (auto split: option.split prod.split intro!: frame)

lemma namex_frame [frame]: "fstat s = p \<Longrightarrow> frames fstat p (namex me sb c path np s)"
  unfolding namex_def by (auto intro!: frame)

lemma namei_frame [frame]: "fstat s = p \<Longrightarrow> frames fstat p (namei me sb c path s)"
  unfolding namei_def by (auto intro!: frame)

lemma nameiparent_frame [frame]: "fstat s = p \<Longrightarrow> frames fstat p (nameiparent me sb c path s)"
  unfolding nameiparent_def by (auto intro!: frame)

end
