(* ===== verification/Ring.thy ===== *)
theory Ring
  imports Prelude
begin

section \<open>Ring buffers with wrapping counters\<close>

text \<open>
  The kernel keeps its byte queues in arrays indexed by free-running unsigned counters modulo the
  array size: the pipe (\<^verbatim>\<open>nread\<close>, \<^verbatim>\<open>nwrite\<close>), the console input (\<^verbatim>\<open>r\<close>, \<^verbatim>\<open>w\<close>, \<^verbatim>\<open>e\<close>) and the
  transmit buffer of the UART. \<open>ring\<close> is the list of elements between two counters; it is
  well defined across the overflow of the counters because the size divides \<open>2\<close> to their width.
  The locale \<open>bounded_fifo\<close> is the interface that the three components provide.
\<close>

definition ring :: "nat \<Rightarrow> (nat \<Rightarrow> 'a) \<Rightarrow> 'l::len word \<Rightarrow> 'l word \<Rightarrow> 'a list" where
  "ring N buf r w = map (\<lambda>i. buf (unat (r + of_nat i) mod N)) [0..<unat (w - r)]"

lemma ring_length [simp]: "length (ring N buf r w) = unat (w - r)"
  by (simp add: ring_def)

lemma ring_empty_iff: "ring N buf r w = [] \<longleftrightarrow> r = w"
  by (auto simp: ring_def unat_eq_0)

lemma unat_diff_Suc:
  fixes r w :: "'l::len word"
  assumes "Suc (unat (w - r)) < 2 ^ LENGTH('l)"
  shows "unat (w + 1 - r) = Suc (unat (w - r))"
proof -
  have eq: "w + 1 - r = (w - r) + 1" by simp
  show ?thesis using assms by (simp only: eq unat_word_ariths(1)) simp
qed

lemma mod_shift_less:
  fixes a :: nat
  assumes "(a + i) mod N = (a + j) mod N" and "i < j" and "j < N"
  shows False
proof -
  have "(a + j) mod N = (a + i) mod N" using assms(1) by simp
  then have "N dvd (a + j) - (a + i)" using assms(2) by (subst (asm) mod_eq_dvd_iff_nat) simp_all
  then have "N dvd j - i" by simp
  then have "N \<le> j - i" using assms(2) by (intro dvd_imp_le) simp_all
  then show False using assms(3) by simp
qed

lemma ring_index_inj:
  fixes r :: "'l::len word"
  assumes "N dvd 2 ^ LENGTH('l)" and "i < N" and "j < N"
    and "unat (r + of_nat i) mod N = unat (r + of_nat j) mod N"
  shows "i = j"
proof -
  have N: "N \<le> 2 ^ LENGTH('l)" using assms(1) by (simp add: dvd_imp_le)
  have m: "unat (r + of_nat k) mod N = (unat r + k) mod N" if "k < N" for k
  proof -
    have "unat (r + of_nat k) = (unat r + unat (of_nat k :: 'l word)) mod 2 ^ LENGTH('l)"
      by (rule unat_word_ariths)
    also have "unat (of_nat k :: 'l word) = k" using that N by (simp add: unat_of_nat)
    finally show ?thesis using assms(1) by (simp add: mod_mod_cancel)
  qed
  from assms(2,3,4) have "(unat r + i) mod N = (unat r + j) mod N" by (simp add: m)
  then show ?thesis
    using mod_shift_less [of "unat r" i N j] mod_shift_less [of "unat r" j N i] assms(2,3)
    by (metis linorder_neqE_nat)
qed

lemma ring_put:
  fixes r w :: "'l::len word"
  assumes "N dvd 2 ^ LENGTH('l)" and "unat (w - r) < N" and "N < 2 ^ LENGTH('l)"
  shows "ring N (buf(unat w mod N := x)) r (w + 1) = ring N buf r w @ [x]"
proof -
  have w: "r + of_nat (unat (w - r)) = w" by simp
  have len: "unat (w + 1 - r) = Suc (unat (w - r))" using assms by (intro unat_diff_Suc) simp
  have "(buf(unat w mod N := x)) (unat (r + of_nat i) mod N) = buf (unat (r + of_nat i) mod N)"
    if "i < unat (w - r)" for i
    using ring_index_inj [OF assms(1), of i "unat (w - r)" r] that assms(2) w by auto
  then show ?thesis using len w by (simp add: ring_def)
qed

lemma ring_get:
  fixes r w :: "'l::len word"
  assumes "r \<noteq> w"
  shows "ring N buf r w = buf (unat r mod N) # ring N buf (r + 1) w"
proof -
  have "w - r \<noteq> 0" using assms by auto
  then obtain k where k: "unat (w - r) = Suc k" by (cases "unat (w - r)") (auto simp: unat_eq_0)
  then have "unat (w - (r + 1)) = k"
    by (metis diff_Suc_1 diff_diff_eq unat_minus_one \<open>w - r \<noteq> 0\<close>)
  with k show ?thesis
    by (simp add: ring_def upt_rec [of 0 "Suc k"] map_Suc_upt [symmetric] add.assoc del: upt_Suc)
qed

lemma ring_full_iff:
  fixes r w :: "'l::len word"
  assumes "N < 2 ^ LENGTH('l)"
  shows "w = r + of_nat N \<longleftrightarrow> unat (w - r) = N"
proof
  assume "w = r + of_nat N"
  then show "unat (w - r) = N" using assms by (simp add: unat_of_nat)
next
  assume "unat (w - r) = N"
  then have "of_nat N = w - r" by auto
  then show "w = r + of_nat N" by simp
qed

subsection \<open>The interface\<close>

locale bounded_fifo =
  fixes put :: "'a \<Rightarrow> 's \<Rightarrow> 's" and get :: "'s \<Rightarrow> 'a \<times> 's" and contents :: "'s \<Rightarrow> 'a list"
    and full :: "'s \<Rightarrow> bool" and empty :: "'s \<Rightarrow> bool" and ok :: "'s \<Rightarrow> bool" and cap :: nat
  assumes full_iff: "ok s \<Longrightarrow> full s \<longleftrightarrow> length (contents s) = cap"
    and empty_iff: "ok s \<Longrightarrow> empty s \<longleftrightarrow> contents s = []"
    and bound: "ok s \<Longrightarrow> length (contents s) \<le> cap"
    and put_contents: "ok s \<Longrightarrow> \<not> full s \<Longrightarrow> contents (put x s) = contents s @ [x]"
    and put_ok: "ok s \<Longrightarrow> \<not> full s \<Longrightarrow> ok (put x s)"
    and get_contents: "ok s \<Longrightarrow> \<not> empty s \<Longrightarrow> contents s = fst (get s) # contents (snd (get s))"
    and get_ok: "ok s \<Longrightarrow> \<not> empty s \<Longrightarrow> ok (snd (get s))"
begin

lemma put_many:
  "ok s \<Longrightarrow> length (contents s) + length xs \<le> cap \<Longrightarrow>
     ok (fold put xs s) \<and> contents (fold put xs s) = contents s @ xs"
proof (induction xs arbitrary: s)
  case (Cons x xs)
  then have "\<not> full s" by (simp add: full_iff)
  with Cons.prems Cons.IH [of "put x s"] show ?case by (simp add: put_ok put_contents)
qed simp

fun get_many :: "nat \<Rightarrow> 's \<Rightarrow> 'a list \<times> 's" where
  "get_many 0 s = ([], s)"
| "get_many (Suc n) s = (let (x, s1) = get s; (xs, s2) = get_many n s1 in (x # xs, s2))"

lemma get_many_take:
  "ok s \<Longrightarrow> n \<le> length (contents s) \<Longrightarrow>
     fst (get_many n s) = take n (contents s) \<and> contents (snd (get_many n s)) = drop n (contents s) \<and>
     ok (snd (get_many n s))"
proof (induction n arbitrary: s)
  case (Suc n)
  then have ne: "\<not> empty s" by (auto simp: empty_iff)
  note g = get_contents [OF Suc.prems(1) ne] get_ok [OF Suc.prems(1) ne]
  have "n \<le> length (contents (snd (get s)))" using Suc.prems(2) g(1) by (metis Suc_le_mono length_Cons)
  from Suc.IH [OF g(2) this] g(1) show ?case
    by (auto simp: Let_def split: prod.splits)
qed simp

text \<open>First in, first out: what was put comes out in the same order, after what was there.\<close>

lemma fifo_order:
  assumes "ok s" and "contents s = []" and "length xs \<le> cap"
  shows "fst (get_many (length xs) (fold put xs s)) = xs"
  using put_many [of s xs] get_many_take [of "fold put xs s" "length xs"] assms by simp

end

end
