(* ===== verification/KString.thy ===== *)
theory KString
  imports Prelude
begin

section \<open>Memory and string routines (kernel/string.c)\<close>

text \<open>
  Memory is a function from 64-bit addresses to bytes, a pointer a 64-bit word whose arithmetic
  wraps. Each routine is the loop of the source over such a memory; counts are natural numbers
  (the kernel's calls stay below \<open>2^31\<close>, where \<^verbatim>\<open>int\<close> and \<^verbatim>\<open>uint\<close> loop counters agree).
  \<^verbatim>\<open>strlen\<close> may run forever on a memory without a zero byte and is partial.
\<close>

type_synonym memory = "u64 \<Rightarrow> u8"

definition memset :: "memory \<Rightarrow> u64 \<Rightarrow> u8 \<Rightarrow> nat \<Rightarrow> memory" where
  "memset m dst c n = fold (\<lambda>i m. m(dst + of_nat i := c)) [0..<n] m"

fun memcmp :: "memory \<Rightarrow> u64 \<Rightarrow> u64 \<Rightarrow> nat \<Rightarrow> int" where
  "memcmp m s1 s2 0 = 0"
| "memcmp m s1 s2 (Suc n) =
     (if m s1 \<noteq> m s2 then uint (m s1) - uint (m s2) else memcmp m (s1 + 1) (s2 + 1) n)"

fun copy_up :: "memory \<Rightarrow> u64 \<Rightarrow> u64 \<Rightarrow> nat \<Rightarrow> memory" where
  "copy_up m d s 0 = m"
| "copy_up m d s (Suc n) = copy_up (m(d := m s)) (d + 1) (s + 1) n"

fun copy_down :: "memory \<Rightarrow> u64 \<Rightarrow> u64 \<Rightarrow> nat \<Rightarrow> memory" where
  "copy_down m d s 0 = m"
| "copy_down m d s (Suc n) = copy_down (m(d - 1 := m (s - 1))) (d - 1) (s - 1) n"

definition memmove :: "memory \<Rightarrow> u64 \<Rightarrow> u64 \<Rightarrow> nat \<Rightarrow> memory" where
  "memmove m dst src n =
     (if n = 0 then m
      else if src < dst \<and> dst < src + of_nat n
      then copy_down m (dst + of_nat n) (src + of_nat n) n
      else copy_up m dst src n)"

definition memcpy :: "memory \<Rightarrow> u64 \<Rightarrow> u64 \<Rightarrow> nat \<Rightarrow> memory" where
  "memcpy m dst src n = memmove m dst src n"

fun strncmp :: "memory \<Rightarrow> u64 \<Rightarrow> u64 \<Rightarrow> nat \<Rightarrow> int" where
  "strncmp m p q 0 = 0"
| "strncmp m p q (Suc n) =
     (if m p \<noteq> 0 \<and> m p = m q then strncmp m (p + 1) (q + 1) n
      else uint (m p) - uint (m q))"

fun zero_pad :: "memory \<Rightarrow> u64 \<Rightarrow> nat \<Rightarrow> memory" where
  "zero_pad m s 0 = m"
| "zero_pad m s (Suc n) = zero_pad (m(s := 0)) (s + 1) n"

fun strncpy :: "memory \<Rightarrow> u64 \<Rightarrow> u64 \<Rightarrow> nat \<Rightarrow> memory" where
  "strncpy m s t 0 = m"
| "strncpy m s t (Suc n) =
     (let m' = m(s := m t)
      in if m t \<noteq> 0 then strncpy m' (s + 1) (t + 1) n else zero_pad m' (s + 1) n)"

fun safestrcpy_loop :: "memory \<Rightarrow> u64 \<Rightarrow> u64 \<Rightarrow> nat \<Rightarrow> memory" where
  "safestrcpy_loop m s t 0 = m(s := 0)"
| "safestrcpy_loop m s t (Suc n) =
     (let m' = m(s := m t)
      in if m t \<noteq> 0 then safestrcpy_loop m' (s + 1) (t + 1) n else m'(s + 1 := 0))"

definition safestrcpy :: "memory \<Rightarrow> u64 \<Rightarrow> u64 \<Rightarrow> int \<Rightarrow> memory" where
  "safestrcpy m s t n = (if n \<le> 0 then m else safestrcpy_loop m s t (nat (n - 1)))"

partial_function (option) strlen_from :: "memory \<Rightarrow> u64 \<Rightarrow> nat \<Rightarrow> nat option" where
  "strlen_from m s n = (if m (s + of_nat n) = 0 then Some n else strlen_from m s (Suc n))"

definition strlen :: "memory \<Rightarrow> u64 \<Rightarrow> nat option" where
  "strlen m s = strlen_from m s 0"

subsection \<open>Address arithmetic\<close>

lemma unat_add_nat:
  fixes a :: u64
  assumes "unat a + n < 2 ^ 64"
  shows "unat (a + of_nat n) = unat a + n"
  using assms by (simp add: unat_word_ariths unat_of_nat)

lemma unat_Suc_less:
  fixes a :: u64
  assumes "unat a + n < 2 ^ 64" and "0 < n"
  shows "unat (a + 1) = unat a + 1"
  using unat_add_nat [of a 1] assms by simp

lemma unat_sub_le:
  fixes a d :: u64
  assumes "d \<le> a"
  shows "unat (a - d) = unat a - unat d"
  using assms by (rule unat_sub)

lemma unat_add_sub:
  fixes a d s :: u64
  assumes "d \<le> a" and "unat s + (unat a - unat d) < 2 ^ 64"
  shows "unat (s + (a - d)) = unat s + (unat a - unat d)"
  using assms by (simp add: unat_word_ariths unat_sub_le)

lemma word_eq_unat: "(a :: u64) = b \<longleftrightarrow> unat a = unat b"
  by (rule word_unat_eq_iff)

lemma range_Suc_iff:
  fixes d a :: u64
  assumes "unat d + Suc n < 2 ^ 64"
  shows "unat d \<le> unat a \<and> unat a < unat d + Suc n \<longleftrightarrow>
         a = d \<or> unat (d + 1) \<le> unat a \<and> unat a < unat (d + 1) + n"
  using unat_Suc_less [OF assms] by (auto simp: word_eq_unat)

lemma memset_apply:
  "n \<le> 2 ^ 64 \<Longrightarrow> memset m dst c n a = (if unat (a - dst) < n then c else m a)"
proof (induction n)
  case 0
  then show ?case by (simp add: memset_def)
next
  case (Suc n)
  then have IH: "memset m dst c n a = (if unat (a - dst) < n then c else m a)" by simp
  have "a = dst + of_nat n \<longleftrightarrow> unat (a - dst) = n"
  proof
    assume "a = dst + of_nat n"
    then show "unat (a - dst) = n" using Suc.prems by (simp add: unat_of_nat)
  next
    assume "unat (a - dst) = n"
    then have "of_nat n = a - dst" by auto
    then show "a = dst + of_nat n" by simp
  qed
  with IH show ?case by (auto simp: memset_def less_Suc_eq)
qed

subsection \<open>memmove\<close>

lemma copy_up_apply:
  assumes "unat d + n < 2 ^ 64" and "unat s + n < 2 ^ 64"
    and "unat d \<le> unat s \<or> unat s + n \<le> unat d"
  shows "copy_up m d s n a = (if unat d \<le> unat a \<and> unat a < unat d + n then m (s + (a - d)) else m a)"
  using assms
proof (induction n arbitrary: m d s)
  case 0
  then show ?case by auto
next
  case (Suc n)
  have u: "unat (d + 1) = unat d + 1" "unat (s + 1) = unat s + 1"
    using unat_Suc_less [of d "Suc n"] unat_Suc_less [of s "Suc n"] Suc.prems by simp_all
  have IH: "copy_up (m(d := m s)) (d + 1) (s + 1) n a =
      (if unat (d + 1) \<le> unat a \<and> unat a < unat (d + 1) + n
       then (m(d := m s)) (s + 1 + (a - (d + 1))) else (m(d := m s)) a)"
    using Suc.prems u by (intro Suc.IH) auto
  have eq: "s + 1 + (a - (d + 1)) = s + (a - d)" by simp
  show ?case
  proof (cases "unat (d + 1) \<le> unat a \<and> unat a < unat (d + 1) + n")
    case True
    have le: "d \<le> a" using True u by (simp add: word_le_nat_alt)
    have off: "unat (s + (a - d)) = unat s + (unat a - unat d)"
      using Suc.prems True u by (intro unat_add_sub [OF le]) auto
    have "s + (a - d) \<noteq> d" using off True u Suc.prems(3) by (auto simp: word_eq_unat)
    with IH True eq show ?thesis using range_Suc_iff [OF Suc.prems(1)] by simp
  next
    case False
    with IH show ?thesis using range_Suc_iff [OF Suc.prems(1), of a] by auto
  qed
qed

lemma copy_down_apply:
  assumes "unat d < 2 ^ 64 - n" and "unat s < 2 ^ 64 - n" and "n < 2 ^ 64" and "unat s < unat d"
  shows "copy_down m (d + of_nat n) (s + of_nat n) n a =
           (if unat d \<le> unat a \<and> unat a < unat d + n then m (s + (a - d)) else m a)"
  using assms
proof (induction n arbitrary: m)
  case 0
  then show ?case by auto
next
  case (Suc n)
  have p: "d + of_nat (Suc n) - 1 = d + of_nat n" "s + of_nat (Suc n) - 1 = s + of_nat n" by simp_all
  let ?m = "m(d + of_nat n := m (s + of_nat n))"
  have IH: "copy_down ?m (d + of_nat n) (s + of_nat n) n a =
      (if unat d \<le> unat a \<and> unat a < unat d + n then ?m (s + (a - d)) else ?m a)"
    using Suc.prems by (intro Suc.IH) auto
  have un: "unat (d + of_nat n) = unat d + n" "unat (s + of_nat n) = unat s + n"
    using unat_add_nat [of d n] unat_add_nat [of s n] Suc.prems by simp_all
  show ?case
  proof (cases "unat d \<le> unat a \<and> unat a < unat d + n")
    case True
    have le: "d \<le> a" using True by (simp add: word_le_nat_alt)
    have "unat (s + (a - d)) = unat s + (unat a - unat d)"
      using Suc.prems True by (intro unat_add_sub [OF le]) auto
    then have "s + (a - d) \<noteq> d + of_nat n" using un Suc.prems True by (auto simp: word_eq_unat)
    with IH True p show ?thesis by simp
  next
    case False
    have "unat a = unat d + n \<longleftrightarrow> a = d + of_nat n" using un by (simp add: word_eq_unat)
    moreover have "s + (d + of_nat n - d) = s + of_nat n" by simp
    ultimately show ?thesis using IH False p by (auto simp: less_Suc_eq)
  qed
qed

lemma memmove_apply:
  assumes "unat dst + n < 2 ^ 64" and "unat src + n < 2 ^ 64"
  shows "memmove m dst src n a =
           (if unat dst \<le> unat a \<and> unat a < unat dst + n then m (src + (a - dst)) else m a)"
proof (cases "src < dst \<and> dst < src + of_nat n")
  case True
  then have "unat src < unat dst" by (simp add: word_less_nat_alt)
  with True show ?thesis
    using copy_down_apply [of dst n src m a] assms by (auto simp: memmove_def)
next
  case False
  then have "unat dst \<le> unat src \<or> unat src + n \<le> unat dst"
    using unat_add_nat [OF assms(2)] by (auto simp: word_less_nat_alt)
  with False show ?thesis
    using copy_up_apply [OF assms, of m a] by (auto simp: memmove_def)
qed

subsection \<open>Strings\<close>

lemma strlen_from_skip:
  "\<forall>i < k. m (s + of_nat (n + i)) \<noteq> 0 \<Longrightarrow> strlen_from m s n = strlen_from m s (n + k)"
proof (induction k arbitrary: n)
  case (Suc k)
  have "strlen_from m s n = strlen_from m s (Suc n)"
    using Suc.prems [rule_format, of 0] by (subst strlen_from.simps) simp
  also have "\<dots> = strlen_from m s (Suc n + k)"
    using Suc.prems [rule_format, of "Suc i" for i] by (intro Suc.IH) auto
  finally show ?case by simp
qed simp

lemma strlen_eq:
  assumes "\<forall>i < k. m (s + of_nat i) \<noteq> 0" and "m (s + of_nat k) = 0"
  shows "strlen m s = Some k"
  using strlen_from_skip [of k m s 0] assms
  by (simp add: strlen_def) (subst strlen_from.simps, simp)

text \<open>The bytes of a string before its terminator, looking at no more than \<open>n\<close> bytes.\<close>

fun cstr :: "memory \<Rightarrow> u64 \<Rightarrow> nat \<Rightarrow> u8 list" where
  "cstr m p 0 = []"
| "cstr m p (Suc n) = (if m p = 0 then [] else m p # cstr m (p + 1) n)"

lemma cstr_cong:
  "(\<And>i. i < n \<Longrightarrow> m (p + of_nat i) = m' (p + of_nat i)) \<Longrightarrow> cstr m p n = cstr m' p n"
proof (induction n arbitrary: p)
  case (Suc n)
  have "m p = m' p" using Suc.prems [of 0] by simp
  moreover have "cstr m (p + 1) n = cstr m' (p + 1) n"
    using Suc.prems [of "Suc i" for i] by (intro Suc.IH) (simp add: add.assoc)
  ultimately show ?case by simp
qed simp

lemma strncmp_cstr: "strncmp m p q n = 0 \<longleftrightarrow> cstr m p n = cstr m q n"
  by (induction n arbitrary: p q) (auto simp: word_uint_eq_iff)

lemma zero_pad_other: "(\<And>i. i < n \<Longrightarrow> a \<noteq> s + of_nat i) \<Longrightarrow> zero_pad m s n a = m a"
proof (induction n arbitrary: m s)
  case (Suc n)
  have "zero_pad (m(s := 0)) (s + 1) n a = (m(s := 0)) a"
    using Suc.prems [of "Suc i" for i] by (intro Suc.IH) (simp add: add.assoc)
  then show ?case using Suc.prems [of 0] by simp
qed simp

lemma strncpy_other: "(\<And>i. i < n \<Longrightarrow> a \<noteq> s + of_nat i) \<Longrightarrow> strncpy m s t n a = m a"
proof (induction n arbitrary: m s t)
  case (Suc n)
  have ne: "a \<noteq> s" "\<And>i. i < n \<Longrightarrow> a \<noteq> (s + 1) + of_nat i"
    using Suc.prems [of 0] Suc.prems [of "Suc i" for i] by (simp_all add: add.assoc)
  then show ?case by (simp add: Let_def Suc.IH zero_pad_other)
qed simp

lemma safestrcpy_other:
  "(\<And>i. i \<le> n \<Longrightarrow> a \<noteq> s + of_nat i) \<Longrightarrow> safestrcpy_loop m s t n a = m a"
proof (induction n arbitrary: m s t)
  case (Suc n)
  have ne: "a \<noteq> s" "\<And>i. i \<le> n \<Longrightarrow> a \<noteq> (s + 1) + of_nat i"
    using Suc.prems [of 0] Suc.prems [of "Suc i" for i] by (simp_all add: add.assoc)
  from this(2) [of 0] ne show ?case by (simp add: Let_def Suc.IH)
qed auto

lemma self_not_ahead:
  fixes s :: u64
  assumes "n < 2 ^ 64" and "i < n"
  shows "s \<noteq> s + 1 + of_nat i"
proof
  assume "s = s + 1 + of_nat i"
  then have "(of_nat (Suc i) :: u64) = 0" by simp
  moreover have "unat (of_nat (Suc i) :: u64) = Suc i"
    using assms by (simp only: unat_of_nat) simp
  ultimately show False by simp
qed

lemma cstr_strncpy:
  assumes "n < 2 ^ 64" and "\<And>i j. i < n \<Longrightarrow> j < n \<Longrightarrow> s + of_nat i \<noteq> t + of_nat j"
  shows "cstr (strncpy m s t n) s n = cstr m t n"
  using assms
proof (induction n arbitrary: m s t)
  case (Suc n)
  have ne: "s + 1 + of_nat i \<noteq> t + 1 + of_nat j" if "i < n" "j < n" for i j
    using Suc.prems(2) [of "Suc i" "Suc j"] that by (simp add: algebra_simps)
  have hd: "strncpy m (s + 1) u k s = m s" "zero_pad m (s + 1) k s = m s" if "k \<le> n" for m u k
    using Suc.prems(1) that self_not_ahead [of n _ s] by (auto intro!: strncpy_other zero_pad_other)
  have "cstr (m(s := m t)) (t + 1) n = cstr m (t + 1) n"
    using Suc.prems(2) [of 0 "Suc i" for i] by (intro cstr_cong) (auto simp: add.assoc)
  moreover have "cstr (strncpy (m(s := m t)) (s + 1) (t + 1) n) (s + 1) n = cstr (m(s := m t)) (t + 1) n"
    by (rule Suc.IH) (use Suc.prems(1) ne in auto)
  ultimately show ?case using hd [of n] by (simp add: Let_def)
qed simp

lemma cstr_safestrcpy:
  assumes "n < 2 ^ 64" and "\<And>i j. i \<le> n \<Longrightarrow> j < n \<Longrightarrow> s + of_nat i \<noteq> t + of_nat j"
  shows "cstr (safestrcpy_loop m s t n) s (Suc n) = cstr m t n"
  using assms
proof (induction n arbitrary: m s t)
  case (Suc n)
  have ne: "s + 1 + of_nat i \<noteq> t + 1 + of_nat j" if "i \<le> n" "j < n" for i j
    using Suc.prems(2) [of "Suc i" "Suc j"] that by (simp add: algebra_simps)
  have hd: "safestrcpy_loop m (s + 1) u n s = m s" for m u
    using Suc.prems(1) self_not_ahead [of "Suc n" _ s] by (intro safestrcpy_other) auto
  have "cstr (m(s := m t)) (t + 1) n = cstr m (t + 1) n"
    using Suc.prems(2) [of 0 "Suc i" for i] by (intro cstr_cong) (auto simp: add.assoc)
  moreover have "cstr (safestrcpy_loop (m(s := m t)) (s + 1) (t + 1) n) (s + 1) (Suc n) = cstr (m(s := m t)) (t + 1) n"
    by (rule Suc.IH) (use Suc.prems(1) ne in auto)
  ultimately show ?case using hd by (simp add: Let_def del: cstr.simps(2)) (simp add: cstr.simps(2) [of _ s])
qed simp

subsection \<open>Properties of the memory routines\<close>

text \<open>\<^verbatim>\<open>memmove\<close> copies \<open>n\<close> bytes correctly also when source and destination overlap in either
  direction: every destination byte gets the value its source byte had before the call, and no
  other byte changes.\<close>

theorem memmove_spec:
  assumes "unat dst + n < 2 ^ 64" and "unat src + n < 2 ^ 64"
  shows "memmove m dst src n =
           (\<lambda>a. if dst \<le> a \<and> unat a < unat dst + n then m (src + (a - dst)) else m a)"
  using memmove_apply [OF assms] by (simp add: fun_eq_iff word_le_nat_alt)

theorem memmove_spec_witness:
  "map (memmove (\<lambda>a. ucast a) 102 100 4) [101, 102, 103, 104, 105, 106] = [101, 100, 101, 102, 103, 106]"
  using memmove_spec [of 102 4 100 "\<lambda>a. ucast a"] by simp

text \<open>\<^verbatim>\<open>strncmp\<close> answers 0 exactly for strings that are equal within \<open>n\<close> bytes, and what
  \<^verbatim>\<open>strncpy\<close> and \<^verbatim>\<open>safestrcpy\<close> store in a separate buffer of \<open>n\<close> bytes is the source string cut
  to \<open>n\<close>, respectively \<open>n - 1\<close>, bytes, the latter always terminated.\<close>

theorem string_copy_compare:
  assumes "0 < n" and "n < 2 ^ 63" and "\<And>i j. i < n \<Longrightarrow> j < n \<Longrightarrow> s + of_nat i \<noteq> t + of_nat j"
  shows "(strncmp m s t n = 0 \<longleftrightarrow> cstr m s n = cstr m t n) \<and>
         cstr (strncpy m s t n) s n = cstr m t n \<and>
         cstr (safestrcpy m s t (int n)) s n = cstr m t (n - 1)"
proof -
  obtain k where k: "n = Suc k" using assms(1) by (cases n) auto
  have "cstr (safestrcpy_loop m s t k) s (Suc k) = cstr m t k"
    using assms k by (intro cstr_safestrcpy) auto
  then show ?thesis
    using strncmp_cstr [of m s t n] cstr_strncpy [of n s t m] assms k by (auto simp: safestrcpy_def)
qed

theorem string_copy_compare_witness:
  "cstr (safestrcpy ((\<lambda>_. 0)(0 := 7, 1 := 8)) 16 0 2) 16 2 = [7]"
proof -
  have "16 + of_nat i \<noteq> (0 :: u64) + of_nat j" if "i < 2" "j < 2" for i j
  proof -
    from that have "i = 0 \<or> i = 1" "j = 0 \<or> j = 1" by auto
    then show ?thesis by auto
  qed
  with string_copy_compare [of 2 16 0 "(\<lambda>_. 0)(0 := 7, 1 := 8)"]
  have "cstr (safestrcpy ((\<lambda>_. 0)(0 := 7, 1 := 8)) 16 0 (int 2)) 16 2 =
      cstr ((\<lambda>_. 0)(0 := 7, 1 := 8)) 0 (2 - 1)" by simp
  then show ?thesis by simp
qed

end
