(* ===== verification/Kalloc.thy ===== *)
theory Kalloc
  imports KString Sched
begin

unbundle bit_operations_syntax

section \<open>Physical page allocator (kernel/kalloc.c)\<close>

text \<open>
  The free pages are a linked list threaded through the pages themselves: the first eight bytes of
  a free page hold the address of the next. \<open>kend\<close> is the linker symbol \<^verbatim>\<open>end\<close>. \<open>free_list\<close> relates
  the memory to the list of free pages it encodes. The locale \<open>page_alloc\<close> is what the rest of the
  kernel relies on.
\<close>

definition KERNBASE :: u64 where "KERNBASE = 0x80000000"
definition PHYSTOP :: u64 where "PHYSTOP = KERNBASE + 128 * 1024 * 1024"

definition PGROUNDUP :: "u64 \<Rightarrow> u64" where
  "PGROUNDUP a = (a + PGSIZE - 1) AND NOT (PGSIZE - 1)"

definition PGROUNDDOWN :: "u64 \<Rightarrow> u64" where
  "PGROUNDDOWN a = a AND NOT (PGSIZE - 1)"

text \<open>Little-endian access to a 64-bit word.\<close>

definition load64 :: "memory \<Rightarrow> u64 \<Rightarrow> u64" where
  "load64 m a = of_nat (\<Sum>i<8. unat (m (a + of_nat i)) * 256 ^ i)"

definition store64 :: "memory \<Rightarrow> u64 \<Rightarrow> u64 \<Rightarrow> memory" where
  "store64 m a v = fold (\<lambda>i m. m(a + of_nat i := of_nat (unat v div 256 ^ i))) [0..<8] m"

record phys =
  pmem :: memory
  freelist :: u64

definition kfree :: "u64 \<Rightarrow> u64 \<Rightarrow> phys \<Rightarrow> (unit, phys) res" where
  "kfree kend pa s =
     (if pa mod PGSIZE \<noteq> 0 \<or> pa < kend \<or> PHYSTOP \<le> pa then Panic ''kfree''
      else Ok () (s\<lparr>pmem := store64 (memset (pmem s) pa 1 4096) pa (freelist s), freelist := pa\<rparr>))"

definition kalloc :: "phys \<Rightarrow> u64 \<times> phys" where
  "kalloc s =
     (let r = freelist s
      in if r \<noteq> 0
         then (r, s\<lparr>pmem := memset (pmem s) r 5 4096, freelist := load64 (pmem s) r\<rparr>)
         else (r, s))"

text \<open>The loop of \<^verbatim>\<open>freerange\<close>, with a bound on its rounds.\<close>

fun freerange_loop :: "u64 \<Rightarrow> nat \<Rightarrow> u64 \<Rightarrow> u64 \<Rightarrow> phys \<Rightarrow> (unit, phys) res" where
  "freerange_loop kend 0 p pa_end s = (if p + PGSIZE \<le> pa_end then Wait s else Ok () s)"
| "freerange_loop kend (Suc n) p pa_end s =
     (if p + PGSIZE \<le> pa_end
      then seqr (kfree kend p s) (\<lambda>_ s. freerange_loop kend n (p + PGSIZE) pa_end s)
      else Ok () s)"

definition freerange :: "u64 \<Rightarrow> nat \<Rightarrow> u64 \<Rightarrow> u64 \<Rightarrow> phys \<Rightarrow> (unit, phys) res" where
  "freerange kend n pa_start pa_end s = freerange_loop kend n (PGROUNDUP pa_start) pa_end s"

definition kinit :: "u64 \<Rightarrow> phys \<Rightarrow> (unit, phys) res" where
  "kinit kend s = freerange kend 32768 kend PHYSTOP s"

subsection \<open>Word access\<close>

lemma fold_fun_upd_other:
  "(\<And>i. i \<in> set is \<Longrightarrow> f i \<noteq> a) \<Longrightarrow> fold (\<lambda>i m. m(f i := g i)) is m a = m a"
  by (induction "is" arbitrary: m) auto

lemma fold_fun_upd_at:
  "distinct is \<Longrightarrow> inj_on f (set is) \<Longrightarrow> i \<in> set is \<Longrightarrow> fold (\<lambda>i m. m(f i := g i)) is m (f i) = g i"
proof (induction "is" arbitrary: m)
  case (Cons j "is")
  show ?case
  proof (cases "i = j")
    case True
    have "f k \<noteq> f j" if "k \<in> set is" for k
      using Cons.prems(1,2) that by (auto simp: inj_on_def)
    with True show ?thesis 
      by (simp add: fold_fun_upd_other del: fun_upd_apply) simp
  next
    case False
    with Cons show ?thesis by (auto simp: inj_on_def)
  qed
qed simp

lemma inj_offset: "inj_on (\<lambda>i. (a :: u64) + of_nat i) {..<8}"
proof (rule inj_onI)
  fix i j :: nat
  assume "i \<in> {..<8}" "j \<in> {..<8}" and "a + of_nat i = a + of_nat j"
  then have "unat (of_nat i :: u64) = unat (of_nat j :: u64)" by simp
  with \<open>i \<in> {..<8}\<close> \<open>j \<in> {..<8}\<close> show "i = j" by (simp add: unat_of_nat)
qed

lemma store64_at: "i < 8 \<Longrightarrow> store64 m a v (a + of_nat i) = of_nat (unat v div 256 ^ i)"
  unfolding store64_def
  using fold_fun_upd_at [of "[0..<8]" "\<lambda>i. a + of_nat i" i] inj_offset [of a]
  by (simp add: atLeast0LessThan)

lemma store64_other: "(\<And>i. i < 8 \<Longrightarrow> b \<noteq> a + of_nat i) \<Longrightarrow> store64 m a v b = m b"
  unfolding store64_def by (intro fold_fun_upd_other) auto

lemma load_store64 [simp]: "load64 (store64 m a v) a = v"
proof -
  have "unat (of_nat (unat v div 256 ^ i) :: u8) = unat v div 256 ^ i mod 256" for i
    by (simp add: unat_of_nat)
  then have "(\<Sum>i<8. unat (store64 m a v (a + of_nat i)) * 256 ^ i) = (\<Sum>i<8. (unat v div 256 ^ i mod 256) * 256 ^ i)"
    by (intro sum.cong) (simp_all add: store64_at)
  also have "\<dots> = unat v mod 256 ^ 8" by (rule base_digits)
  also have "\<dots> = unat v" using unsigned_less [of v, where ?'a = nat] by simp
  finally show ?thesis by (simp add: load64_def)
qed

lemma load64_cong: "(\<And>i. i < 8 \<Longrightarrow> m (a + of_nat i) = m' (a + of_nat i)) \<Longrightarrow> load64 m a = load64 m' a"
  by (simp add: load64_def)

subsection \<open>Rounding\<close>

lemma PGSIZE_mask: "PGSIZE - 1 = mask 12"
  by (simp add: PGSIZE_def mask_eq_exp_minus_1)

lemma unat_and_not_mask: "unat ((a :: u64) AND NOT (mask n)) = unat a - unat a mod 2 ^ n"
proof -
  have "unat (a AND mask n) = unat a mod 2 ^ n"
    by (simp only: take_bit_eq_mask [symmetric] unsigned_take_bit_eq) (simp add: take_bit_eq_mod)
  moreover have "a AND NOT (mask n) = a - (a AND mask n)"
  proof -
    have "NOT a AND (a AND mask n) = 0" by (rule bit_eqI) (auto simp: bit_simps)
    then have "a - (a AND mask n) = a AND NOT (a AND mask n)" by (rule disjunctive_diff_eq_and_not)
    also have "\<dots> = a AND NOT (mask n)" by (rule bit_eqI) (auto simp: bit_simps)
    finally show ?thesis by simp
  qed
  moreover have "a AND mask n \<le> a" by (metis word_and_le1 word_and_le2)
  ultimately show ?thesis by (simp add: unat_sub)
qed

lemma unat_PGROUNDDOWN: "unat (PGROUNDDOWN a) = unat a - unat a mod 4096"
  unfolding PGROUNDDOWN_def PGSIZE_mask by (simp add: unat_and_not_mask)

lemma unat_PGROUNDUP:
  assumes "unat a + 4095 < 2 ^ 64"
  shows "unat (PGROUNDUP a) = (unat a + 4095) - (unat a + 4095) mod 4096"
proof -
  have "unat (a + PGSIZE - 1) = unat a + 4095"
    using unat_add_nat [OF assms] by (simp add: PGSIZE_def algebra_simps)
  then show ?thesis unfolding PGROUNDUP_def PGSIZE_mask by (simp add: unat_and_not_mask)
qed

lemma page_mod_unat: "(p :: u64) mod PGSIZE = 0 \<longleftrightarrow> unat p mod 4096 = 0"
  by (simp add: word_eq_unat PGSIZE_def unat_mod)

lemma PHYSTOP_unat: "unat PHYSTOP = 2281701376"
  by (simp add: PHYSTOP_def KERNBASE_def)

lemma page_offsets_differ:
  fixes p q :: u64
  assumes "p mod PGSIZE = 0" and "q mod PGSIZE = 0" and "p < PHYSTOP" and "q < PHYSTOP"
    and "p \<noteq> q" and "i < 4096" and "j < 4096"
  shows "p + of_nat i \<noteq> q + of_nat j"
proof
  assume eq: "p + of_nat i = q + of_nat j"
  have lt: "unat p < 2281701376" "unat q < 2281701376"
    using assms(3,4) by (simp_all add: word_less_nat_alt PHYSTOP_unat)
  have "unat p + i = unat q + j"
    using arg_cong [OF eq, of unat] lt assms(6,7) by (simp add: unat_add_nat)
  moreover obtain a b where ab: "unat p = 4096 * a" "unat q = 4096 * b"
    using assms(1,2) by (auto simp: page_mod_unat mod_eq_0_iff_dvd dvd_def)
  ultimately have "(4096 * a + i) div 4096 = (4096 * b + j) div 4096" by simp
  then have "a = b" using assms(6,7) by simp
  with ab assms(5) show False by (simp add: word_eq_unat)
qed

subsection \<open>The list of free pages\<close>

definition page_ok :: "u64 \<Rightarrow> u64 \<Rightarrow> bool" where
  "page_ok kend p \<longleftrightarrow> p mod PGSIZE = 0 \<and> kend \<le> p \<and> p < PHYSTOP \<and> p \<noteq> 0"

fun free_list :: "memory \<Rightarrow> u64 \<Rightarrow> u64 list \<Rightarrow> bool" where
  "free_list m p [] \<longleftrightarrow> p = 0"
| "free_list m p (q # qs) \<longleftrightarrow> p = q \<and> free_list m (load64 m q) qs"

definition kalloc_inv :: "u64 \<Rightarrow> phys \<Rightarrow> u64 list \<Rightarrow> bool" where
  "kalloc_inv kend s ps \<longleftrightarrow>
     free_list (pmem s) (freelist s) ps \<and> distinct ps \<and> (\<forall>p \<in> set ps. page_ok kend p)"

lemma free_list_cong:
  "(\<And>q. q \<in> set ps \<Longrightarrow> load64 m q = load64 m' q) \<Longrightarrow> free_list m p ps \<longleftrightarrow> free_list m' p ps"
  by (induction ps arbitrary: p) auto

lemma memset_page_other:
  assumes "p mod PGSIZE = 0" "p < PHYSTOP" "q mod PGSIZE = 0" "q < PHYSTOP" "p \<noteq> q" and "i < 4096"
  shows "memset m p c 4096 (q + of_nat i) = m (q + of_nat i)"
proof -
  have "\<not> unat (q + of_nat i - p) < 4096"
  proof
    assume lt: "unat (q + of_nat i - p) < 4096"
    have "q + of_nat i = p + of_nat (unat (q + of_nat i - p))" by simp
    moreover have "p + of_nat (unat (q + of_nat i - p)) \<noteq> q + of_nat i"
      by (rule page_offsets_differ [OF assms(1,3,2,4,5) lt assms(6)])
    ultimately show False by simp
  qed
  then show ?thesis by (simp add: memset_apply)
qed

lemma load64_memset_other:
  assumes "p mod PGSIZE = 0" "p < PHYSTOP" "q mod PGSIZE = 0" "q < PHYSTOP" "p \<noteq> q"
  shows "load64 (memset m p c 4096) q = load64 m q"
  using memset_page_other [OF assms] by (intro load64_cong) simp

lemma load64_store_other:
  assumes "p mod PGSIZE = 0" "p < PHYSTOP" "q mod PGSIZE = 0" "q < PHYSTOP" "p \<noteq> q"
  shows "load64 (store64 m p v) q = load64 m q"
proof (rule load64_cong)
  fix i :: nat
  assume i: "i < 8"
  show "store64 m p v (q + of_nat i) = m (q + of_nat i)"
  proof (rule store64_other)
    show "q + of_nat i \<noteq> p + of_nat j" if "j < 8" for j
      using page_offsets_differ [OF assms(1,3,2,4,5), of j i] i that by auto
  qed
qed

subsection \<open>The allocator as an interface\<close>

text \<open>A store of pages: \<open>holds s ps\<close> says that exactly the pages \<open>ps\<close> are free.\<close>

locale page_alloc =
  fixes alloc :: "'s \<Rightarrow> u64 \<times> 's" and give :: "u64 \<Rightarrow> 's \<Rightarrow> (unit, 's) res"
    and holds :: "'s \<Rightarrow> u64 list \<Rightarrow> bool" and valid :: "u64 \<Rightarrow> bool"
  assumes alloc_empty: "holds s [] \<Longrightarrow> alloc s = (0, s)"
    and alloc_page: "holds s (p # ps) \<Longrightarrow> fst (alloc s) = p \<and> holds (snd (alloc s)) ps"
    and holds_valid: "holds s ps \<Longrightarrow> distinct ps \<and> (\<forall>p \<in> set ps. valid p \<and> p \<noteq> 0)"
    and give_page: "holds s ps \<Longrightarrow> valid p \<Longrightarrow> p \<notin> set ps \<Longrightarrow> \<exists>t. give p s = Ok () t \<and> holds t (p # ps)"
begin

lemma alloc_zero_iff: "holds s ps \<Longrightarrow> fst (alloc s) = 0 \<longleftrightarrow> ps = []"
  using alloc_empty alloc_page holds_valid by (cases ps) fastforce+

fun alloc_many :: "nat \<Rightarrow> 's \<Rightarrow> u64 list \<times> 's" where
  "alloc_many 0 s = ([], s)"
| "alloc_many (Suc n) s = (let (p, s1) = alloc s; (ps, s2) = alloc_many n s1 in (p # ps, s2))"

lemma alloc_many_take:
  "holds s ps \<Longrightarrow> n \<le> length ps \<Longrightarrow>
     fst (alloc_many n s) = take n ps \<and> holds (snd (alloc_many n s)) (drop n ps)"
proof (induction n arbitrary: s ps)
  case (Suc n)
  then obtain p qs where ps: "ps = p # qs" by (cases ps) auto
  from alloc_page [of s p qs] Suc.prems ps have "fst (alloc s) = p" "holds (snd (alloc s)) qs" by auto
  with Suc.IH [of "snd (alloc s)" qs] Suc.prems ps show ?case
    by (simp add: Let_def split: prod.split) (metis fst_conv snd_conv)
qed simp

lemma give_alloc:
  assumes "holds s ps" and "valid p" and "p \<notin> set ps"
  shows "\<exists>t. give p s = Ok () t \<and> fst (alloc t) = p \<and> holds (snd (alloc t)) ps"
  using give_page [OF assms] alloc_page by blast

end

lemma kalloc_inv_alloc:
  assumes "kalloc_inv kend s (p # ps)"
  shows "fst (kalloc s) = p \<and> kalloc_inv kend (snd (kalloc s)) ps"
proof -
  have p: "freelist s = p" "page_ok kend p" "p \<notin> set ps" "free_list (pmem s) (load64 (pmem s) p) ps"
    "distinct ps" "\<forall>q \<in> set ps. page_ok kend q"
    using assms by (auto simp: kalloc_inv_def)
  have "load64 (memset (pmem s) p 5 4096) q = load64 (pmem s) q" if "q \<in> set ps" for q
    using p that by (intro load64_memset_other) (auto simp: page_ok_def)
  then have "free_list (memset (pmem s) p 5 4096) (load64 (pmem s) p) ps"
    using p(4) free_list_cong [of ps "memset (pmem s) p 5 4096" "pmem s"] by simp
  with p show ?thesis by (simp add: kalloc_def Let_def kalloc_inv_def page_ok_def)
qed

lemma kalloc_inv_free:
  assumes "kalloc_inv kend s ps" and "page_ok kend p" and "p \<notin> set ps"
  shows "\<exists>t. kfree kend p s = Ok () t \<and> kalloc_inv kend t (p # ps)"
proof -
  let ?m = "store64 (memset (pmem s) p 1 4096) p (freelist s)"
  have "load64 ?m q = load64 (pmem s) q" if "q \<in> set ps" for q
  proof -
    have ok: "p mod PGSIZE = 0" "p < PHYSTOP" "q mod PGSIZE = 0" "q < PHYSTOP" "p \<noteq> q"
      using assms that by (auto simp: kalloc_inv_def page_ok_def)
    show ?thesis by (simp add: load64_store_other [OF ok] load64_memset_other [OF ok])
  qed
  then have "free_list ?m (freelist s) ps"
    using assms(1) free_list_cong [of ps ?m "pmem s"] by (simp add: kalloc_inv_def)
  with assms show ?thesis by (auto simp: kfree_def kalloc_inv_def page_ok_def)
qed

interpretation ka: page_alloc kalloc "kfree kend" "kalloc_inv kend" "page_ok kend" for kend
proof
  show "kalloc_inv kend s [] \<Longrightarrow> kalloc s = (0, s)" for s
    by (simp add: kalloc_inv_def kalloc_def Let_def)
  show "kalloc_inv kend s ps \<Longrightarrow> distinct ps \<and> (\<forall>p \<in> set ps. page_ok kend p \<and> p \<noteq> 0)" for s ps
    by (auto simp: kalloc_inv_def page_ok_def)
qed (auto dest: kalloc_inv_alloc intro: kalloc_inv_free)

subsection \<open>Initialisation\<close>

lemma page_below_next:
  assumes "p mod PGSIZE = 0" and "q mod PGSIZE = 0" and "p < PHYSTOP"
  shows "q < p + PGSIZE \<longleftrightarrow> q < p \<or> q = p"
proof -
  have "unat p < 2281701376" using assms(3) by (simp add: word_less_nat_alt PHYSTOP_unat)
  then have u: "unat (p + PGSIZE) = unat p + 4096" using unat_add_nat [of p 4096] by (simp add: PGSIZE_def)
  obtain a b where ab: "unat p = 4096 * a" "unat q = 4096 * b"
    using assms(1,2) by (auto simp: page_mod_unat mod_eq_0_iff_dvd dvd_def)
  then show ?thesis by (auto simp: word_less_nat_alt word_eq_unat u)
qed

lemma page_next:
  assumes "p mod PGSIZE = 0" and "p < PHYSTOP"
  shows "(p + PGSIZE) mod PGSIZE = 0" and "p + PGSIZE \<le> PHYSTOP" and "unat (p + PGSIZE) = unat p + 4096"
proof -
  have lt: "unat p < 2281701376" using assms(2) by (simp add: word_less_nat_alt PHYSTOP_unat)
  then show u: "unat (p + PGSIZE) = unat p + 4096" using unat_add_nat [of p 4096] by (simp add: PGSIZE_def)
  obtain a where a: "unat p = 4096 * a" using assms(1) by (auto simp: page_mod_unat mod_eq_0_iff_dvd dvd_def)
  show "(p + PGSIZE) mod PGSIZE = 0" by (simp add: page_mod_unat u a)
  show "p + PGSIZE \<le> PHYSTOP" using lt a by (simp add: word_le_nat_alt u PHYSTOP_unat)
qed

lemma page_ok_lt: "page_ok kend q \<Longrightarrow> q < PHYSTOP"
  by (simp add: page_ok_def)

lemma freerange_loop_ok:
  assumes "p mod PGSIZE = 0" and "kend \<le> p" and "0 < p" and "p \<le> PHYSTOP"
    and "unat PHYSTOP \<le> unat p + n * 4096" and "kalloc_inv kend s ps"
    and "set ps = {q. page_ok kend q \<and> q < p}"
  shows "\<exists>t qs. freerange_loop kend n p PHYSTOP s = Ok () t \<and> kalloc_inv kend t qs \<and>
                set qs = {q. page_ok kend q}"
  using assms
proof (induction n arbitrary: p s ps)
  case 0
  then have "p = PHYSTOP" by (simp add: word_eq_unat word_le_nat_alt)
  moreover have "{q. page_ok kend q \<and> q < PHYSTOP} = {q. page_ok kend q}" by (auto dest: page_ok_lt)
  ultimately show ?case using 0 by (auto simp: PHYSTOP_def KERNBASE_def PGSIZE_def)
next
  case (Suc n)
  show ?case
  proof (cases "p < PHYSTOP")
    case True
    note nx = page_next [OF Suc.prems(1) True]
    have ok: "page_ok kend p" using Suc.prems True by (auto simp: page_ok_def)
    obtain t where t: "kfree kend p s = Ok () t" "kalloc_inv kend t (p # ps)"
      using kalloc_inv_free [OF Suc.prems(6) ok] Suc.prems(7) by auto
    have "q < p + PGSIZE \<longleftrightarrow> q < p \<or> q = p" if "page_ok kend q" for q
      using page_below_next [OF Suc.prems(1) _ True, of q] that by (simp only: page_ok_def)
    then have set: "set (p # ps) = {q. page_ok kend q \<and> q < p + PGSIZE}"
      using Suc.prems(7) ok by auto
    have le: "kend \<le> p + PGSIZE" "0 < p + PGSIZE"
      using Suc.prems(2) nx(3) by (auto simp: word_le_nat_alt word_less_nat_alt)
    have "unat PHYSTOP \<le> unat (p + PGSIZE) + n * 4096" using Suc.prems(5) nx(3) by simp
    from Suc.IH [OF nx(1) le nx(2) this t(2) set] t(1) nx(2) show ?thesis by simp
  next
    case False
    then have p: "p = PHYSTOP" using Suc.prems(4) by simp
    moreover have "{q. page_ok kend q \<and> q < PHYSTOP} = {q. page_ok kend q}" by (auto dest: page_ok_lt)
    ultimately show ?thesis using Suc.prems by (auto simp: PHYSTOP_def KERNBASE_def PGSIZE_def)
  qed
qed

lemma PGROUNDUP_facts:
  assumes "KERNBASE \<le> a" and "a \<le> PHYSTOP"
  shows "PGROUNDUP a mod PGSIZE = 0" and "a \<le> PGROUNDUP a" and "0 < PGROUNDUP a"
    and "PGROUNDUP a \<le> PHYSTOP" and "unat (PGROUNDUP a) < unat a + 4096"
proof -
  have b: "2147483648 \<le> unat a" "unat a \<le> 2281701376"
    using assms by (simp_all add: word_le_nat_alt PHYSTOP_unat KERNBASE_def)
  then have u: "unat (PGROUNDUP a) = (unat a + 4095) - (unat a + 4095) mod 4096"
    by (intro unat_PGROUNDUP) simp
  have m: "(unat a + 4095) mod 4096 < 4096" by simp
  show "PGROUNDUP a mod PGSIZE = 0" by (simp add: page_mod_unat u minus_mod_eq_mult_div)
  show "a \<le> PGROUNDUP a" "0 < PGROUNDUP a" "unat (PGROUNDUP a) < unat a + 4096"
    using m b u by (auto simp: word_le_nat_alt word_less_nat_alt)
  have "unat (PGROUNDUP a) = 4096 * ((unat a + 4095) div 4096)"
    by (simp add: u minus_mod_eq_mult_div)
  also have "\<dots> \<le> 4096 * ((2281701376 + 4095) div 4096)" using b by (intro mult_le_mono div_le_mono) simp_all
  finally show "PGROUNDUP a \<le> PHYSTOP" by (simp add: word_le_nat_alt PHYSTOP_unat)
qed

subsection \<open>Properties of the allocator\<close>

text \<open>C32. \<^verbatim>\<open>kinit\<close> succeeds, and afterwards the free list holds every whole page between the end of
  the kernel and \<^verbatim>\<open>PHYSTOP\<close>, each once, and nothing else.\<close>

theorem kinit_frees_all:
  assumes "KERNBASE \<le> kend" and "kend \<le> PHYSTOP" and "freelist s = 0"
  shows "\<exists>t ps. kinit kend s = Ok () t \<and> kalloc_inv kend t ps \<and> set ps = {p. page_ok kend p}"
proof -
  note r = PGROUNDUP_facts [OF assms(1,2)]
  have "kalloc_inv kend s []" using assms(3) by (simp add: kalloc_inv_def)
  moreover have "set [] = {q. page_ok kend q \<and> q < PGROUNDUP kend}"
  proof -
    have "False" if q: "page_ok kend q" and lt: "q < PGROUNDUP kend" for q
    proof -
      obtain a b where ab: "unat q = 4096 * a" "unat (PGROUNDUP kend) = 4096 * b"
        using q r(1) by (auto simp: page_ok_def page_mod_unat mod_eq_0_iff_dvd dvd_def)
      have "unat kend \<le> 4096 * a" "4096 * a < 4096 * b" "4096 * b < unat kend + 4096"
        using q lt r(5) ab by (auto simp: page_ok_def word_le_nat_alt word_less_nat_alt)
      then show False by simp
    qed
    then show ?thesis by auto
  qed
  moreover have "unat PHYSTOP \<le> unat (PGROUNDUP kend) + 32768 * 4096"
    using r(2) assms(1) by (simp add: PHYSTOP_unat word_le_nat_alt KERNBASE_def)
  ultimately show ?thesis
    unfolding kinit_def freerange_def by (intro freerange_loop_ok [OF r(1,2,3,4)])
qed

theorem kinit_frees_all_witness:
  "\<exists>t ps. kinit 0x80020123 \<lparr>pmem = (\<lambda>_. 0), freelist = 0\<rparr> = Ok () t \<and>
     kalloc_inv 0x80020123 t ps \<and> set ps = {p. page_ok 0x80020123 p}"
  by (rule kinit_frees_all) (simp_all add: KERNBASE_def PHYSTOP_def)

text \<open>While the free list is intact, \<^verbatim>\<open>kalloc\<close> hands out the first free page, a whole page of
  allocatable memory that is no longer free, changes no memory outside it and keeps the list
  intact; with no free page it returns 0 and changes nothing.\<close>

theorem kalloc_contract:
  assumes "kalloc_inv kend s ps"
  shows "case ps of
           [] \<Rightarrow> kalloc s = (0, s)
         | p # qs \<Rightarrow> fst (kalloc s) = p \<and> page_ok kend p \<and> p \<notin> set qs \<and>
             kalloc_inv kend (snd (kalloc s)) qs \<and>
             (\<forall>a. pmem (snd (kalloc s)) a = (if unat (a - p) < 4096 then 5 else pmem s a))"
proof (cases ps)
  case Nil
  then show ?thesis using ka.alloc_empty assms by simp
next
  case (Cons p qs)
  have "freelist s = p" "p \<noteq> 0" using assms Cons by (auto simp: kalloc_inv_def page_ok_def)
  then have "pmem (snd (kalloc s)) = memset (pmem s) p 5 4096" by (simp add: kalloc_def Let_def)
  with Cons ka.alloc_page ka.holds_valid [OF assms] assms show ?thesis by (auto simp: memset_apply)
qed

text \<open>\<^verbatim>\<open>kfree\<close> accepts exactly the page-aligned addresses between the kernel's end and
  \<^verbatim>\<open>PHYSTOP\<close> and panics on any other; a page given back is the next one handed out, and the list
  of the other free pages is as before.\<close>

theorem kfree_contract:
  assumes "kalloc_inv kend s ps" and "p \<notin> set ps" and "p \<noteq> 0"
  shows "if page_ok kend p
         then \<exists>t. kfree kend p s = Ok () t \<and> fst (kalloc t) = p \<and> kalloc_inv kend (snd (kalloc t)) ps
         else kfree kend p s = Panic ''kfree''"
  using ka.give_alloc [OF assms(1) _ assms(2)] assms(3) by (auto simp: kfree_def page_ok_def)

definition demo_phys :: phys where
  "demo_phys = \<lparr>pmem = (\<lambda>_. 0), freelist = 0x80001000\<rparr>"

lemma demo_phys_inv: "kalloc_inv 0x80000100 demo_phys [0x80001000]"
  by (simp add: kalloc_inv_def demo_phys_def load64_def page_ok_def PGSIZE_def PHYSTOP_def KERNBASE_def)

theorem kalloc_contract_witness:
  "fst (kalloc demo_phys) = 0x80001000 \<and> kalloc_inv 0x80000100 (snd (kalloc demo_phys)) []"
  using kalloc_contract [OF demo_phys_inv] by simp

theorem kfree_contract_witness:
  "kfree 0x80000100 0x80000800 demo_phys = Panic ''kfree'' \<and>
   (\<exists>t. kfree 0x80000100 0x80002000 demo_phys = Ok () t \<and> fst (kalloc t) = 0x80002000)"
  using kfree_contract [OF demo_phys_inv, of "0x80000800"] kfree_contract [OF demo_phys_inv, of "0x80002000"]
  by (auto simp: page_ok_def PGSIZE_def PHYSTOP_def KERNBASE_def)

end
