(* ===== verification/Vm.thy ===== *)
theory Vm
  imports Kalloc
begin

unbundle bit_operations_syntax

section \<open>Virtual memory (kernel/vm.c, riscv.h)\<close>

text \<open>
  Sv39 page tables are read from and written to the byte memory, as the kernel does: a page-table
  entry is the 64-bit word at its address, \<^verbatim>\<open>walk\<close> returns that address (0 for the null pointer),
  and page-table pages come from \<^verbatim>\<open>kalloc\<close>. The kernel's own pointers are physical addresses (its
  map is the identity). \<^verbatim>\<open>copyin\<close> delivers the bytes it would store at \<^verbatim>\<open>dst\<close>, \<^verbatim>\<open>copyout\<close> takes the
  bytes at \<^verbatim>\<open>src\<close>; both go page by page through the user page table. The stepping loops carry a bound
  computed from their arguments that covers every round; running out of it would be \<open>Wait\<close>.
\<close>

definition PTE_V :: u64 where "PTE_V = 1"
definition PTE_R :: u64 where "PTE_R = 2"
definition PTE_W :: u64 where "PTE_W = 4"
definition PTE_X :: u64 where "PTE_X = 8"
definition PTE_U :: u64 where "PTE_U = 16"

definition PA2PTE :: "u64 \<Rightarrow> u64" where "PA2PTE pa = push_bit 10 (drop_bit 12 pa)"
definition PTE2PA :: "u64 \<Rightarrow> u64" where "PTE2PA pte = push_bit 12 (drop_bit 10 pte)"
definition PTE_FLAGS :: "u64 \<Rightarrow> u64" where "PTE_FLAGS pte = pte AND 0x3FF"
definition PXSHIFT :: "nat \<Rightarrow> nat" where "PXSHIFT level = 12 + 9 * level"
definition PX :: "nat \<Rightarrow> u64 \<Rightarrow> u64" where "PX level va = drop_bit (PXSHIFT level) va AND 0x1FF"

definition pte_at :: "u64 \<Rightarrow> phys \<Rightarrow> u64" where
  "pte_at a s = load64 (pmem s) a"

definition set_pte :: "u64 \<Rightarrow> u64 \<Rightarrow> phys \<Rightarrow> phys" where
  "set_pte a v s = s\<lparr>pmem := store64 (pmem s) a v\<rparr>"

definition zero_page :: "u64 \<Rightarrow> phys \<Rightarrow> phys" where
  "zero_page p s = s\<lparr>pmem := memset (pmem s) p 0 4096\<rparr>"

subsection \<open>Walking and mapping\<close>

fun walk_levels :: "u64 \<Rightarrow> bool \<Rightarrow> nat list \<Rightarrow> u64 \<Rightarrow> phys \<Rightarrow> u64 \<times> phys" where
  "walk_levels va alloc [] pt s = (pt + 8 * PX 0 va, s)"
| "walk_levels va alloc (level # ls) pt s =
     (let a = pt + 8 * PX level va; pte = pte_at a s
      in if pte AND PTE_V \<noteq> 0 then walk_levels va alloc ls (PTE2PA pte) s
         else if \<not> alloc then (0, s)
         else case kalloc s of (p, s) \<Rightarrow>
                if p = 0 then (0, s)
                else walk_levels va alloc ls p (set_pte a (PA2PTE p OR PTE_V) (zero_page p s)))"

definition walk :: "u64 \<Rightarrow> u64 \<Rightarrow> bool \<Rightarrow> phys \<Rightarrow> (u64, phys) res" where
  "walk pt va alloc s =
     (if MAXVA \<le> va then Panic ''walk''
      else case walk_levels va alloc [2, 1] pt s of (a, t) \<Rightarrow> Ok a t)"

definition walkaddr :: "u64 \<Rightarrow> u64 \<Rightarrow> phys \<Rightarrow> u64" where
  "walkaddr pt va s =
     (if MAXVA \<le> va then 0
      else case walk pt va False s of
             Ok pte t \<Rightarrow>
               (if pte = 0 then 0
                else if pte_at pte t AND PTE_V = 0 then 0
                else if pte_at pte t AND PTE_U = 0 then 0
                else PTE2PA (pte_at pte t))
           | _ \<Rightarrow> 0)"

fun mappages_loop :: "nat \<Rightarrow> u64 \<Rightarrow> u64 \<Rightarrow> u64 \<Rightarrow> u64 \<Rightarrow> u64 \<Rightarrow> phys \<Rightarrow> (int, phys) res" where
  "mappages_loop 0 pt a lst pa perm s = Wait s"
| "mappages_loop (Suc n) pt a lst pa perm s =
     seqr (walk pt a True s) (\<lambda>pte s.
       if pte = 0 then Ok (-1) s
       else if pte_at pte s AND PTE_V \<noteq> 0 then Panic ''mappages: remap''
       else let s = set_pte pte (PA2PTE pa OR perm OR PTE_V) s
            in if a = lst then Ok 0 s
               else mappages_loop n pt (a + PGSIZE) lst (pa + PGSIZE) perm s)"

definition mappages :: "u64 \<Rightarrow> u64 \<Rightarrow> u64 \<Rightarrow> u64 \<Rightarrow> u64 \<Rightarrow> phys \<Rightarrow> (int, phys) res" where
  "mappages pt va len pa perm s =
     (if len = 0 then Panic ''mappages: size''
      else let a = PGROUNDDOWN va; lst = PGROUNDDOWN (va + len - 1)
           in mappages_loop (Suc (unat (lst - a) div 4096)) pt a lst pa perm s)"

definition kvmmap :: "u64 \<Rightarrow> u64 \<Rightarrow> u64 \<Rightarrow> u64 \<Rightarrow> u64 \<Rightarrow> phys \<Rightarrow> (unit, phys) res" where
  "kvmmap kpgtbl va pa len perm s =
     seqr (mappages kpgtbl va len pa perm s) (\<lambda>r s. if r \<noteq> 0 then Panic ''kvmmap'' else Ok () s)"

fun uvmunmap_loop :: "u64 \<Rightarrow> nat \<Rightarrow> u64 \<Rightarrow> u64 \<Rightarrow> u64 \<Rightarrow> bool \<Rightarrow> phys \<Rightarrow> (unit, phys) res" where
  "uvmunmap_loop kend 0 pt a stop do_free s = (if a < stop then Wait s else Ok () s)"
| "uvmunmap_loop kend (Suc n) pt a stop do_free s =
     (if a < stop
      then seqr (walk pt a False s) (\<lambda>pte s.
             if pte = 0 then Panic ''uvmunmap: walk''
             else if pte_at pte s AND PTE_V = 0 then Panic ''uvmunmap: not mapped''
             else if PTE_FLAGS (pte_at pte s) = PTE_V then Panic ''uvmunmap: not a leaf''
             else seqr (if do_free then kfree kend (PTE2PA (pte_at pte s)) s else Ok () s) (\<lambda>_ s.
                    uvmunmap_loop kend n pt (a + PGSIZE) stop do_free (set_pte pte 0 s)))
      else Ok () s)"

definition uvmunmap :: "u64 \<Rightarrow> u64 \<Rightarrow> u64 \<Rightarrow> u64 \<Rightarrow> bool \<Rightarrow> phys \<Rightarrow> (unit, phys) res" where
  "uvmunmap kend pt va npages do_free s =
     (if va mod PGSIZE \<noteq> 0 then Panic ''uvmunmap: not aligned''
      else uvmunmap_loop kend (unat npages) pt va (va + npages * PGSIZE) do_free s)"

definition uvmcreate :: "phys \<Rightarrow> u64 \<times> phys" where
  "uvmcreate s = (case kalloc s of (p, s) \<Rightarrow> if p = 0 then (0, s) else (p, zero_page p s))"

definition write_bytes :: "memory \<Rightarrow> u64 \<Rightarrow> u8 list \<Rightarrow> memory" where
  "write_bytes m a bs = fold (\<lambda>i m. m(a + of_nat i := bs ! i)) [0..<length bs] m"

definition read_bytes :: "memory \<Rightarrow> u64 \<Rightarrow> nat \<Rightarrow> u8 list" where
  "read_bytes m a n = map (\<lambda>i. m (a + of_nat i)) [0..<n]"

definition uvmfirst :: "u64 \<Rightarrow> u8 list \<Rightarrow> phys \<Rightarrow> (unit, phys) res" where
  "uvmfirst pt src s =
     (if 4096 \<le> length src then Panic ''uvmfirst: more than a page''
      else case kalloc s of (p, s) \<Rightarrow>
        seqr (mappages pt 0 PGSIZE p (PTE_W OR PTE_R OR PTE_X OR PTE_U) (zero_page p s))
          (\<lambda>_ s. Ok () (s\<lparr>pmem := write_bytes (pmem s) p src\<rparr>)))"

subsection \<open>Growing, shrinking, copying and freeing user memory\<close>

definition uvmdealloc :: "u64 \<Rightarrow> u64 \<Rightarrow> u64 \<Rightarrow> u64 \<Rightarrow> phys \<Rightarrow> (u64, phys) res" where
  "uvmdealloc kend pt oldsz newsz s =
     (if oldsz \<le> newsz then Ok oldsz s
      else if PGROUNDUP newsz < PGROUNDUP oldsz
      then let npages = (PGROUNDUP oldsz - PGROUNDUP newsz) div PGSIZE
           in seqr (uvmunmap kend pt (PGROUNDUP newsz) npages True s) (\<lambda>_ s. Ok newsz s)
      else Ok newsz s)"

fun uvmalloc_loop :: "u64 \<Rightarrow> nat \<Rightarrow> u64 \<Rightarrow> u64 \<Rightarrow> u64 \<Rightarrow> u64 \<Rightarrow> u64 \<Rightarrow> phys \<Rightarrow> (u64, phys) res" where
  "uvmalloc_loop kend 0 pt a oldsz newsz xperm s = (if a < newsz then Wait s else Ok newsz s)"
| "uvmalloc_loop kend (Suc n) pt a oldsz newsz xperm s =
     (if a < newsz
      then case kalloc s of (p, s) \<Rightarrow>
             if p = 0 then seqr (uvmdealloc kend pt a oldsz s) (\<lambda>_ s. Ok 0 s)
             else seqr (mappages pt a PGSIZE p (PTE_R OR PTE_U OR xperm) (zero_page p s)) (\<lambda>r s.
                    if r \<noteq> 0
                    then seqr (kfree kend p s) (\<lambda>_ s.
                           seqr (uvmdealloc kend pt a oldsz s) (\<lambda>_ s. Ok 0 s))
                    else uvmalloc_loop kend n pt (a + PGSIZE) oldsz newsz xperm s)
      else Ok newsz s)"

definition uvmalloc :: "u64 \<Rightarrow> u64 \<Rightarrow> u64 \<Rightarrow> u64 \<Rightarrow> u64 \<Rightarrow> phys \<Rightarrow> (u64, phys) res" where
  "uvmalloc kend pt oldsz newsz xperm s =
     (if newsz < oldsz then Ok oldsz s
      else let o' = PGROUNDUP oldsz
           in uvmalloc_loop kend (Suc (unat newsz div 4096)) pt o' o' newsz xperm s)"

text \<open>\<open>lv\<close> bounds the depth of the recursion; a page table has three levels.\<close>

fun freewalk :: "u64 \<Rightarrow> nat \<Rightarrow> u64 \<Rightarrow> phys \<Rightarrow> (unit, phys) res" where
  "freewalk kend 0 pt s = Wait s"
| "freewalk kend (Suc lv) pt s =
     seqr (fold (\<lambda>i r. seqr r (\<lambda>_ s.
              let a = pt + 8 * of_nat i; pte = pte_at a s
              in if pte AND PTE_V \<noteq> 0 \<and> pte AND (PTE_R OR PTE_W OR PTE_X) = 0
                 then seqr (freewalk kend lv (PTE2PA pte) s) (\<lambda>_ s. Ok () (set_pte a 0 s))
                 else if pte AND PTE_V \<noteq> 0 then Panic ''freewalk: leaf''
                 else Ok () s)) [0..<512] (Ok () s))
       (\<lambda>_ s. kfree kend pt s)"

definition uvmfree :: "u64 \<Rightarrow> u64 \<Rightarrow> u64 \<Rightarrow> phys \<Rightarrow> (unit, phys) res" where
  "uvmfree kend pt len s =
     seqr (if 0 < len then uvmunmap kend pt 0 (PGROUNDUP len div PGSIZE) True s else Ok () s)
       (\<lambda>_ s. freewalk kend 3 pt s)"

definition uvmcopy_undo :: "u64 \<Rightarrow> u64 \<Rightarrow> u64 \<Rightarrow> phys \<Rightarrow> (int, phys) res" where
  "uvmcopy_undo kend new i s = seqr (uvmunmap kend new 0 (i div PGSIZE) True s) (\<lambda>_ s. Ok (-1) s)"

fun uvmcopy_loop :: "u64 \<Rightarrow> nat \<Rightarrow> u64 \<Rightarrow> u64 \<Rightarrow> u64 \<Rightarrow> u64 \<Rightarrow> phys \<Rightarrow> (int, phys) res" where
  "uvmcopy_loop kend 0 old new i len s = (if i < len then Wait s else Ok 0 s)"
| "uvmcopy_loop kend (Suc n) old new i len s =
     (if i < len
      then seqr (walk old i False s) (\<lambda>pte s.
             if pte = 0 then Panic ''uvmcopy: pte should exist''
             else if pte_at pte s AND PTE_V = 0 then Panic ''uvmcopy: page not present''
             else let pa = PTE2PA (pte_at pte s); flags = PTE_FLAGS (pte_at pte s)
                  in case kalloc s of (p, s) \<Rightarrow>
                       if p = 0 then uvmcopy_undo kend new i s
                       else seqr (mappages new i PGSIZE p flags (s\<lparr>pmem := memmove (pmem s) p pa 4096\<rparr>)) (\<lambda>r s.
                              if r \<noteq> 0 then seqr (kfree kend p s) (\<lambda>_ s. uvmcopy_undo kend new i s)
                              else uvmcopy_loop kend n old new (i + PGSIZE) len s))
      else Ok 0 s)"

definition uvmcopy :: "u64 \<Rightarrow> u64 \<Rightarrow> u64 \<Rightarrow> u64 \<Rightarrow> phys \<Rightarrow> (int, phys) res" where
  "uvmcopy kend old new len s = uvmcopy_loop kend (Suc (unat len div 4096)) old new 0 len s"

definition uvmclear :: "u64 \<Rightarrow> u64 \<Rightarrow> phys \<Rightarrow> (unit, phys) res" where
  "uvmclear pt va s =
     seqr (walk pt va False s) (\<lambda>pte s.
       if pte = 0 then Panic ''uvmclear'' else Ok () (set_pte pte (pte_at pte s AND NOT PTE_U) s))"

subsection \<open>Copying between kernel and user\<close>

text \<open>The bound counts down by at least one byte per round.\<close>

fun copyout_loop :: "nat \<Rightarrow> u64 \<Rightarrow> u64 \<Rightarrow> u8 list \<Rightarrow> phys \<Rightarrow> int \<times> phys" where
  "copyout_loop fuel pt dstva src s =
     (if src = [] then (0, s)
      else let va0 = PGROUNDDOWN dstva; pa0 = walkaddr pt va0 s
           in if pa0 = 0 then (-1, s)
              else let n = min (4096 - unat (dstva - va0)) (length src);
                       s = s\<lparr>pmem := write_bytes (pmem s) (pa0 + (dstva - va0)) (take n src)\<rparr>
                   in case fuel of 0 \<Rightarrow> (-1, s)
                      | Suc f \<Rightarrow> copyout_loop f pt (va0 + PGSIZE) (drop n src) s)"

declare copyout_loop.simps [simp del]

definition copyout :: "u64 \<Rightarrow> u64 \<Rightarrow> u8 list \<Rightarrow> phys \<Rightarrow> int \<times> phys" where
  "copyout pt dstva src s = copyout_loop (length src) pt dstva src s"

fun copyin_loop :: "nat \<Rightarrow> u64 \<Rightarrow> u64 \<Rightarrow> nat \<Rightarrow> phys \<Rightarrow> u8 list option" where
  "copyin_loop fuel pt srcva len s =
     (if len = 0 then Some []
      else let va0 = PGROUNDDOWN srcva; pa0 = walkaddr pt va0 s
           in if pa0 = 0 then None
              else let n = min (4096 - unat (srcva - va0)) len
                   in case fuel of 0 \<Rightarrow> None
                      | Suc f \<Rightarrow>
                          map_option (\<lambda>bs. read_bytes (pmem s) (pa0 + (srcva - va0)) n @ bs)
                            (copyin_loop f pt (va0 + PGSIZE) (len - n) s))"

declare copyin_loop.simps [simp del]

definition copyin :: "u64 \<Rightarrow> u64 \<Rightarrow> nat \<Rightarrow> phys \<Rightarrow> u8 list option" where
  "copyin pt srcva len s = copyin_loop len pt srcva len s"

text \<open>\<^verbatim>\<open>copyinstr\<close>: the bytes stored at \<^verbatim>\<open>dst\<close> without the final zero, or \<open>None\<close> for \<open>-1\<close>.\<close>

fun copyinstr_loop :: "nat \<Rightarrow> u64 \<Rightarrow> u64 \<Rightarrow> nat \<Rightarrow> phys \<Rightarrow> u8 list option" where
  "copyinstr_loop fuel pt srcva mx s =
     (if mx = 0 then None
      else let va0 = PGROUNDDOWN srcva; pa0 = walkaddr pt va0 s
           in if pa0 = 0 then None
              else let n = min (4096 - unat (srcva - va0)) mx;
                       bs = read_bytes (pmem s) (pa0 + (srcva - va0)) n
                   in if 0 \<in> set bs then Some (takeWhile (\<lambda>b. b \<noteq> 0) bs)
                      else case fuel of 0 \<Rightarrow> None
                           | Suc f \<Rightarrow>
                               map_option (\<lambda>cs. bs @ cs)
                                 (copyinstr_loop f pt (va0 + PGSIZE) (mx - n) s))"

declare copyinstr_loop.simps [simp del]

definition copyinstr :: "u64 \<Rightarrow> u64 \<Rightarrow> nat \<Rightarrow> phys \<Rightarrow> u8 list option" where
  "copyinstr pt srcva mx s = copyinstr_loop mx pt srcva mx s"

subsection \<open>Kernel and process page tables\<close>

definition UART0 :: u64 where "UART0 = 0x10000000"
definition VIRTIO0 :: u64 where "VIRTIO0 = 0x10001000"
definition PLIC :: u64 where "PLIC = 0x0c000000"

text \<open>\<^verbatim>\<open>proc_mapstacks\<close> of \<^verbatim>\<open>proc.c\<close>.\<close>

definition proc_mapstacks :: "u64 \<Rightarrow> phys \<Rightarrow> (unit, phys) res" where
  "proc_mapstacks kpgtbl s =
     fold (\<lambda>i r. seqr r (\<lambda>_ s.
       case kalloc s of (pa, s) \<Rightarrow>
         if pa = 0 then Panic ''kalloc''
         else kvmmap kpgtbl (KSTACK i) pa PGSIZE (PTE_R OR PTE_W) s)) [0..<NPROC] (Ok () s)"

definition kvmmake :: "u64 \<Rightarrow> u64 \<Rightarrow> phys \<Rightarrow> (u64, phys) res" where
  "kvmmake etext trampoline s =
     (case kalloc s of (k, s) \<Rightarrow>
        seqr (kvmmap k UART0 UART0 PGSIZE (PTE_R OR PTE_W) (zero_page k s)) (\<lambda>_ s.
        seqr (kvmmap k VIRTIO0 VIRTIO0 PGSIZE (PTE_R OR PTE_W) s) (\<lambda>_ s.
        seqr (kvmmap k PLIC PLIC 0x400000 (PTE_R OR PTE_W) s) (\<lambda>_ s.
        seqr (kvmmap k KERNBASE KERNBASE (etext - KERNBASE) (PTE_R OR PTE_X) s) (\<lambda>_ s.
        seqr (kvmmap k etext etext (PHYSTOP - etext) (PTE_R OR PTE_W) s) (\<lambda>_ s.
        seqr (kvmmap k TRAMPOLINE trampoline PGSIZE (PTE_R OR PTE_X) s) (\<lambda>_ s.
        seqr (proc_mapstacks k s) (\<lambda>_ s. Ok k s))))))))"

text \<open>\<^verbatim>\<open>kvminit\<close> stores the table in \<^verbatim>\<open>kernel_pagetable\<close>, here its result; \<open>kvminithart\<close> is the value that is written
  to the register \<^verbatim>\<open>satp\<close> of a hart.\<close>

definition kvminit :: "u64 \<Rightarrow> u64 \<Rightarrow> phys \<Rightarrow> (u64, phys) res" where
  "kvminit etext trampoline s = kvmmake etext trampoline s"

definition SATP_SV39 :: u64 where "SATP_SV39 = push_bit 60 8"

definition MAKE_SATP :: "u64 \<Rightarrow> u64" where
  "MAKE_SATP pt = SATP_SV39 OR drop_bit 12 pt"

definition kvminithart :: "u64 \<Rightarrow> u64" where
  "kvminithart kernel_pagetable = MAKE_SATP kernel_pagetable"

definition proc_pagetable :: "u64 \<Rightarrow> u64 \<Rightarrow> proc \<Rightarrow> phys \<Rightarrow> (u64, phys) res" where
  "proc_pagetable kend trampoline p s =
     (case uvmcreate s of (pt, s) \<Rightarrow>
        if pt = 0 then Ok 0 s
        else seqr (mappages pt TRAMPOLINE PGSIZE trampoline (PTE_R OR PTE_X) s) (\<lambda>r s.
               if r < 0 then seqr (uvmfree kend pt 0 s) (\<lambda>_ s. Ok 0 s)
               else seqr (mappages pt TRAPFRAME PGSIZE (trapframe p) (PTE_R OR PTE_W) s) (\<lambda>r s.
                      if r < 0
                      then seqr (uvmunmap kend pt TRAMPOLINE 1 False s) (\<lambda>_ s.
                             seqr (uvmfree kend pt 0 s) (\<lambda>_ s. Ok 0 s))
                      else Ok pt s)))"

definition proc_freepagetable :: "u64 \<Rightarrow> u64 \<Rightarrow> u64 \<Rightarrow> phys \<Rightarrow> (unit, phys) res" where
  "proc_freepagetable kend pt len s =
     seqr (uvmunmap kend pt TRAMPOLINE 1 False s) (\<lambda>_ s.
     seqr (uvmunmap kend pt TRAPFRAME 1 False s) (\<lambda>_ s.
     uvmfree kend pt len s))"

subsection \<open>Page-table entries and indices\<close>

lemma take_bit_self:
  fixes w :: u64
  assumes "unat w < 2 ^ n" and "n < 64"
  shows "take_bit n w = w"
proof -
  have "unat (take_bit n w) = unat w"
    using assms(1) by (simp only: unsigned_take_bit_eq) (simp add: take_bit_eq_mod)
  then show ?thesis by (simp add: word_eq_unat)
qed

lemma high_bits_clear:
  fixes w :: u64
  assumes "unat w < 2 ^ n" and "n < 64" and "n \<le> i"
  shows "\<not> bit w i"
  using take_bit_self [OF assms(1,2)] assms(3) by (metis bit_take_bit_iff not_less)

lemma page_low_bits:
  fixes pa :: u64
  assumes "pa mod PGSIZE = 0" and "i < 12"
  shows "\<not> bit pa i"
proof -
  have "take_bit 12 pa = 0" using assms(1) by (simp add: take_bit_eq_mod PGSIZE_def)
  then show ?thesis using assms(2) by (metis bit_take_bit_iff bit_0_eq bot_apply bot_bool_def)
qed

lemma pte_pa_flags:
  fixes pa flags :: u64
  assumes "pa mod PGSIZE = 0" and "unat pa < 2 ^ 56" and "unat flags < 2 ^ 10"
  shows "PTE2PA (PA2PTE pa OR flags) = pa" and "PTE_FLAGS (PA2PTE pa OR flags) = flags"
proof -
  note fl = high_bits_clear [OF assms(3)] and hi = high_bits_clear [OF assms(2)]
    and lo = page_low_bits [OF assms(1)]
  show "PTE2PA (PA2PTE pa OR flags) = pa"
  proof (rule bit_word_eqI)
    fix n assume "n < LENGTH(64)"
    then show "bit (PTE2PA (PA2PTE pa OR flags)) n = bit pa n"
      using fl [of "n - 2"] hi [of n] lo [of n]
      by (cases "n < 12") (auto simp: PTE2PA_def PA2PTE_def bit_push_bit_iff bit_drop_bit_eq bit_or_iff)
  qed
  have m: "(0x3FF :: u64) = mask 10" by (simp add: mask_eq_exp_minus_1)
  show "PTE_FLAGS (PA2PTE pa OR flags) = flags"
  proof (rule bit_word_eqI)
    fix n assume "n < LENGTH(64)"
    then show "bit (PTE_FLAGS (PA2PTE pa OR flags)) n = bit flags n"
      using fl [of n] unfolding PTE_FLAGS_def m PA2PTE_def
      by (cases "n < 10") (auto simp: bit_push_bit_iff bit_drop_bit_eq bit_or_iff bit_and_iff bit_mask_iff)
  qed
qed

lemma unat_PX: "unat (PX l va) = unat va div 2 ^ PXSHIFT l mod 512"
proof -
  have "(0x1FF :: u64) = mask 9" by (simp add: mask_eq_exp_minus_1)
  then have "PX l va = take_bit 9 (drop_bit (PXSHIFT l) va)" by (simp add: PX_def take_bit_eq_mask)
  then show ?thesis
    using unsigned_less [of va, where ?'a = nat]
    by (simp only: unsigned_take_bit_eq unsigned_drop_bit_eq) (simp add: take_bit_eq_mod drop_bit_eq_div)
qed

lemma va_fields:
  assumes "va < MAXVA"
  shows "unat va = unat (PX 2 va) * 2 ^ 30 + unat (PX 1 va) * 2 ^ 21 + unat (PX 0 va) * 2 ^ 12 + unat va mod 4096"
proof -
  have lt: "unat va < 2 ^ 38" using assms by (simp add: MAXVA_def word_less_nat_alt)
  have a: "unat va = unat va div 2 ^ 12 * 2 ^ 12 + unat va mod 2 ^ 12" by simp
  have b: "unat va div 2 ^ 12 = unat va div 2 ^ 21 * 2 ^ 9 + unat va div 2 ^ 12 mod 2 ^ 9"
    using div_mult_mod_eq [of "unat va div 2 ^ 12" "2 ^ 9"] by (simp add: div_mult2_eq [symmetric])
  have c: "unat va div 2 ^ 21 = unat va div 2 ^ 30 * 2 ^ 9 + unat va div 2 ^ 21 mod 2 ^ 9"
    using div_mult_mod_eq [of "unat va div 2 ^ 21" "2 ^ 9"] by (simp add: div_mult2_eq [symmetric])
  have d: "unat va div 2 ^ 30 mod 512 = unat va div 2 ^ 30" using lt by (simp add: less_mult_imp_div_less)
  have "unat va = ((unat va div 2 ^ 30 * 2 ^ 9 + unat va div 2 ^ 21 mod 2 ^ 9) * 2 ^ 9
      + unat va div 2 ^ 12 mod 2 ^ 9) * 2 ^ 12 + unat va mod 2 ^ 12"
    using a b c by metis
  also have "\<dots> = unat va div 2 ^ 30 mod 512 * 2 ^ 30 + unat va div 2 ^ 21 mod 512 * 2 ^ 21
      + unat va div 2 ^ 12 mod 512 * 2 ^ 12 + unat va mod 4096"
    by (simp only: d) (simp add: algebra_simps)
  finally have f: "unat va = unat va div 2 ^ 30 mod 512 * 2 ^ 30 + unat va div 2 ^ 21 mod 512 * 2 ^ 21
      + unat va div 2 ^ 12 mod 512 * 2 ^ 12 + unat va mod 4096" .
  have px: "unat (PX 2 va) = unat va div 2 ^ 30 mod 512" "unat (PX 1 va) = unat va div 2 ^ 21 mod 512"
    "unat (PX 0 va) = unat va div 2 ^ 12 mod 512"
    by (simp_all add: unat_PX PXSHIFT_def)
  show ?thesis unfolding px by (rule f)
qed

subsection \<open>User memory byte by byte\<close>

text \<open>The reference: the physical address of one user byte, and the bytes from an address on.\<close>

definition translate :: "phys \<Rightarrow> u64 \<Rightarrow> u64 \<Rightarrow> u64 option" where
  "translate s pt va =
     (let pa0 = walkaddr pt (PGROUNDDOWN va) s
      in if pa0 = 0 then None else Some (pa0 + (va - PGROUNDDOWN va)))"

fun user_bytes :: "phys \<Rightarrow> u64 \<Rightarrow> u64 \<Rightarrow> nat \<Rightarrow> u8 list option" where
  "user_bytes s pt va 0 = Some []"
| "user_bytes s pt va (Suc n) =
     (case translate s pt va of None \<Rightarrow> None
      | Some a \<Rightarrow> map_option (\<lambda>bs. pmem s a # bs) (user_bytes s pt (va + 1) n))"

fun user_cstr :: "phys \<Rightarrow> u64 \<Rightarrow> u64 \<Rightarrow> nat \<Rightarrow> u8 list option" where
  "user_cstr s pt va 0 = None"
| "user_cstr s pt va (Suc n) =
     (case translate s pt va of None \<Rightarrow> None
      | Some a \<Rightarrow> if pmem s a = 0 then Some []
                  else map_option (\<lambda>bs. pmem s a # bs) (user_cstr s pt (va + 1) n))"

lemma PGROUNDDOWN_le: "PGROUNDDOWN va \<le> va"
  by (simp add: word_le_nat_alt unat_PGROUNDDOWN)

lemma page_offset: "unat (va - PGROUNDDOWN va) = unat va mod 4096"
  by (simp add: unat_sub [OF PGROUNDDOWN_le] unat_PGROUNDDOWN)

lemma same_page:
  assumes "unat va + k < 2 ^ 64" and "unat va mod 4096 + k < 4096"
  shows "PGROUNDDOWN (va + of_nat k) = PGROUNDDOWN va"
proof -
  have "(unat va + k) mod 4096 = unat va mod 4096 + k" using assms(2) by (metis mod_add_left_eq mod_less)
  then show ?thesis
    using unat_add_nat [OF assms(1)] by (simp add: word_eq_unat unat_PGROUNDDOWN)
qed

lemma next_page:
  assumes "unat va + 4096 < 2 ^ 64"
  shows "PGROUNDDOWN va + PGSIZE = va + of_nat (4096 - unat va mod 4096)"
proof -
  have "unat (PGROUNDDOWN va) + 4096 < 2 ^ 64" using assms by (simp add: unat_PGROUNDDOWN)
  from unat_add_nat [OF this] have "unat (PGROUNDDOWN va + PGSIZE) = unat va - unat va mod 4096 + 4096"
    by (simp add: PGSIZE_def unat_PGROUNDDOWN)
  moreover have "unat (va + of_nat (4096 - unat va mod 4096)) = unat va + (4096 - unat va mod 4096)"
    using assms by (intro unat_add_nat) simp
  moreover have "unat va mod 4096 \<le> unat va" "unat va mod 4096 < 4096" by simp_all
  ultimately show ?thesis by (simp add: word_eq_unat)
qed

lemma user_bytes_chunk:
  assumes "walkaddr pt (PGROUNDDOWN va) s = pa0" and "pa0 \<noteq> 0"
    and "unat va + k < 2 ^ 64" and "unat va mod 4096 + k \<le> 4096"
  shows "user_bytes s pt va (k + r) =
     map_option (\<lambda>bs. read_bytes (pmem s) (pa0 + (va - PGROUNDDOWN va)) k @ bs) (user_bytes s pt (va + of_nat k) r)"
  using assms
proof (induction k arbitrary: va)
  case 0
  then show ?case by (simp add: read_bytes_def option.map_ident)
next
  case (Suc k)
  define b where "b = pa0 + (va - PGROUNDDOWN va)"
  have tr: "translate s pt va = Some b" using Suc.prems by (simp add: translate_def b_def)
  show ?case
  proof (cases "k = 0")
    case True
    then show ?thesis using tr by (simp add: read_bytes_def b_def)
  next
    case False
    have sp: "PGROUNDDOWN (va + 1) = PGROUNDDOWN va" using same_page [of va 1] Suc.prems False by simp
    have u1: "unat (va + 1) = unat va + 1" using unat_add_nat [of va 1] Suc.prems by simp
    have m1: "unat (va + 1) mod 4096 + k \<le> 4096"
      using page_offset [of "va + 1"] page_offset [of va] sp Suc.prems(4) u1
      by (simp add: mod_Suc)
    have IH: "user_bytes s pt (va + 1) (k + r) =
        map_option (\<lambda>bs. read_bytes (pmem s) (pa0 + (va + 1 - PGROUNDDOWN (va + 1))) k @ bs)
          (user_bytes s pt (va + 1 + of_nat k) r)"
      using Suc.prems sp u1 m1 by (intro Suc.IH) auto
    have rb: "read_bytes (pmem s) b (Suc k) = pmem s b # read_bytes (pmem s) (b + 1) k"
      by (simp add: read_bytes_def upt_rec [of 0 "Suc k"] map_Suc_upt [symmetric] add.assoc del: upt_Suc)
    show ?thesis
      using IH tr sp rb by (simp add: b_def option.map_comp o_def algebra_simps)
  qed
qed

lemma copyin_loop_eq:
  assumes "unat va + len + 4096 < 2 ^ 64" and "len \<le> fuel"
  shows "copyin_loop fuel pt va len s = user_bytes s pt va len"
  using assms
proof (induction fuel arbitrary: va len)
  case 0
  then show ?case by (subst copyin_loop.simps) simp
next
  case (Suc f)
  show ?case
  proof (cases "len = 0 \<or> walkaddr pt (PGROUNDDOWN va) s = 0")
    case True
    then show ?thesis
      by (subst copyin_loop.simps) (cases len; auto simp: Let_def translate_def)
  next
    case False
    define n where "n = min (4096 - unat va mod 4096) len"
    have n: "0 < n" "n \<le> len" "unat va mod 4096 + n \<le> 4096" using False by (auto simp: n_def)
    have un: "unat (va + of_nat n) = unat va + n" using Suc.prems n by (intro unat_add_nat) simp
    have rest: "copyin_loop f pt (PGROUNDDOWN va + PGSIZE) (len - n) s = user_bytes s pt (va + of_nat n) (len - n)"
    proof (cases "len \<le> 4096 - unat va mod 4096")
      case True
      then show ?thesis by (subst copyin_loop.simps) (simp add: n_def)
    next
      case False
      then have "n = 4096 - unat va mod 4096" by (simp add: n_def)
      then have "PGROUNDDOWN va + PGSIZE = va + of_nat n" using next_page Suc.prems by simp
      then show ?thesis using Suc.IH [of "va + of_nat n" "len - n"] Suc.prems n un by simp
    qed
    have "user_bytes s pt va (n + (len - n)) =
        map_option (\<lambda>bs. read_bytes (pmem s) (walkaddr pt (PGROUNDDOWN va) s + (va - PGROUNDDOWN va)) n @ bs)
          (user_bytes s pt (va + of_nat n) (len - n))"
      using Suc.prems n False by (intro user_bytes_chunk) auto
    with n False rest show ?thesis
      by (subst copyin_loop.simps) (simp add: Let_def page_offset n_def [symmetric])
  qed
qed

lemma user_cstr_chunk:
  assumes "walkaddr pt (PGROUNDDOWN va) s = pa0" and "pa0 \<noteq> 0"
    and "unat va + k < 2 ^ 64" and "unat va mod 4096 + k \<le> 4096"
    and "bs = read_bytes (pmem s) (pa0 + (va - PGROUNDDOWN va)) k"
  shows "user_cstr s pt va (k + r) =
     (if 0 \<in> set bs then Some (takeWhile (\<lambda>b. b \<noteq> 0) bs)
      else map_option (\<lambda>cs. bs @ cs) (user_cstr s pt (va + of_nat k) r))"
  using assms
proof (induction k arbitrary: va bs)
  case 0
  then show ?case by (cases "user_cstr s pt va r") (simp_all add: read_bytes_def)
next
  case (Suc k)
  define b where "b = pa0 + (va - PGROUNDDOWN va)"
  have tr: "translate s pt va = Some b" using Suc.prems by (simp add: translate_def b_def)
  show ?case
  proof (cases "k = 0")
    case True
    then show ?thesis using tr Suc.prems(5) by (auto simp: read_bytes_def b_def)
  next
    case False
    have sp: "PGROUNDDOWN (va + 1) = PGROUNDDOWN va" using same_page [of va 1] Suc.prems False by simp
    have u1: "unat (va + 1) = unat va + 1" using unat_add_nat [of va 1] Suc.prems by simp
    have m1: "unat (va + 1) mod 4096 + k \<le> 4096"
      using page_offset [of "va + 1"] page_offset [of va] sp Suc.prems(4) u1
      by (simp add: mod_Suc)
    define cs where "cs = read_bytes (pmem s) (b + 1) k"
    have IH: "user_cstr s pt (va + 1) (k + r) =
        (if 0 \<in> set cs then Some (takeWhile (\<lambda>b. b \<noteq> 0) cs)
         else map_option (\<lambda>ds. cs @ ds) (user_cstr s pt (va + 1 + of_nat k) r))"
      using Suc.prems sp u1 m1 by (intro Suc.IH) (auto simp: cs_def b_def algebra_simps)
    have rb: "bs = pmem s b # cs"
      unfolding Suc.prems(5) cs_def b_def [symmetric]
      by (simp add: read_bytes_def upt_rec [of 0 "Suc k"] map_Suc_upt [symmetric] add.assoc del: upt_Suc)
    show ?thesis
      using IH tr rb by (auto simp: option.map_comp o_def algebra_simps)
  qed
qed

lemma copyinstr_loop_eq:
  assumes "unat va + mx + 4096 < 2 ^ 64" and "mx \<le> fuel"
  shows "copyinstr_loop fuel pt va mx s = user_cstr s pt va mx"
  using assms
proof (induction fuel arbitrary: va mx)
  case 0
  then show ?case by (subst copyinstr_loop.simps) simp
next
  case (Suc f)
  show ?case
  proof (cases "mx = 0 \<or> walkaddr pt (PGROUNDDOWN va) s = 0")
    case True
    then show ?thesis
      by (subst copyinstr_loop.simps) (cases mx; auto simp: Let_def translate_def)
  next
    case False
    define n where "n = min (4096 - unat va mod 4096) mx"
    define bs where "bs = read_bytes (pmem s) (walkaddr pt (PGROUNDDOWN va) s + (va - PGROUNDDOWN va)) n"
    have n: "0 < n" "n \<le> mx" "unat va mod 4096 + n \<le> 4096" using False by (auto simp: n_def)
    have un: "unat (va + of_nat n) = unat va + n" using Suc.prems n by (intro unat_add_nat) simp
    have rest: "copyinstr_loop f pt (PGROUNDDOWN va + PGSIZE) (mx - n) s = user_cstr s pt (va + of_nat n) (mx - n)"
    proof (cases "mx \<le> 4096 - unat va mod 4096")
      case True
      then show ?thesis by (subst copyinstr_loop.simps) (simp add: n_def)
    next
      case False
      then have "n = 4096 - unat va mod 4096" by (simp add: n_def)
      then have "PGROUNDDOWN va + PGSIZE = va + of_nat n" using next_page Suc.prems by simp
      then show ?thesis using Suc.IH [of "va + of_nat n" "mx - n"] Suc.prems n un by simp
    qed
    have "user_cstr s pt va (n + (mx - n)) =
        (if 0 \<in> set bs then Some (takeWhile (\<lambda>b. b \<noteq> 0) bs)
         else map_option (\<lambda>cs. bs @ cs) (user_cstr s pt (va + of_nat n) (mx - n)))"
      using Suc.prems n False by (intro user_cstr_chunk) (auto simp: bs_def)
    with n False rest show ?thesis
      by (subst copyinstr_loop.simps) (simp add: Let_def page_offset n_def [symmetric] bs_def [symmetric])
  qed
qed

subsection \<open>Properties of virtual memory\<close>

text \<open>C33. \<^verbatim>\<open>copyin\<close>, which copies page by page, delivers exactly the bytes that the user page table
  assigns to the consecutive addresses of the range, and fails exactly when some byte of the range
  is not mapped for the user.\<close>

theorem copyin_bytewise:
  assumes "unat srcva + len + 4096 < 2 ^ 64"
  shows "copyin pt srcva len s = user_bytes s pt srcva len"
  using copyin_loop_eq [OF assms order_refl] by (simp add: copyin_def)

text \<open>\<^verbatim>\<open>copyinstr\<close> delivers the user's string up to its zero byte, across page boundaries, and
  fails exactly when no zero byte is found within \<open>max\<close> bytes or a byte before it is not mapped.\<close>

theorem copyinstr_bytewise:
  assumes "unat srcva + mx + 4096 < 2 ^ 64"
  shows "copyinstr pt srcva mx s = user_cstr s pt srcva mx"
  using copyinstr_loop_eq [OF assms order_refl] by (simp add: copyinstr_def)

text \<open>A small page table: root at \<open>0x80001000\<close>, then \<open>0x80002000\<close> and \<open>0x80003000\<close>, and one user
  page at \<open>0x80004000\<close> mapped at address 0.\<close>

definition demo_vm :: phys where
  "demo_vm = \<lparr>pmem = write_bytes
       (store64 (store64 (store64 (\<lambda>_. 0) 0x80001000 (PA2PTE 0x80002000 OR PTE_V))
          0x80002000 (PA2PTE 0x80003000 OR PTE_V))
          0x80003000 (PA2PTE 0x80004000 OR (PTE_R OR PTE_W OR PTE_U OR PTE_V)))
       0x80004000 [104, 105, 0], freelist = 0\<rparr>"

lemma write_bytes_other: "(\<And>i. i < length bs \<Longrightarrow> b \<noteq> a + of_nat i) \<Longrightarrow> write_bytes m a bs b = m b"
  unfolding write_bytes_def by (intro fold_fun_upd_other) auto

lemma demo_vm_loads:
  "pte_at 0x80001000 demo_vm = PA2PTE 0x80002000 OR PTE_V"
  "pte_at 0x80002000 demo_vm = PA2PTE 0x80003000 OR PTE_V"
  "pte_at 0x80003000 demo_vm = PA2PTE 0x80004000 OR (PTE_R OR PTE_W OR PTE_U OR PTE_V)"
proof -
  have w: "load64 (write_bytes m 0x80004000 [104, 105, 0]) q = load64 m q"
    if "q mod PGSIZE = 0" "q < PHYSTOP" "q \<noteq> 0x80004000" for m q
  proof (intro load64_cong write_bytes_other)
    fix i j :: nat
    assume "i < 8" "j < length [104 :: u8, 105, 0]"
    then show "q + of_nat i \<noteq> 0x80004000 + of_nat j"
      using page_offsets_differ [of q "0x80004000" i j] that by (simp add: PGSIZE_def PHYSTOP_def KERNBASE_def)
  qed
  have st: "load64 (store64 m p v) q = load64 m q"
    if "p mod PGSIZE = 0" "p < PHYSTOP" "q mod PGSIZE = 0" "q < PHYSTOP" "p \<noteq> q" for m v p q
    using that by (rule load64_store_other)
  note c = PGSIZE_def PHYSTOP_def KERNBASE_def
  show "pte_at 0x80001000 demo_vm = PA2PTE 0x80002000 OR PTE_V"
    "pte_at 0x80002000 demo_vm = PA2PTE 0x80003000 OR PTE_V"
    "pte_at 0x80003000 demo_vm = PA2PTE 0x80004000 OR (PTE_R OR PTE_W OR PTE_U OR PTE_V)"
    by (simp_all add: pte_at_def demo_vm_def w st c)
qed

lemma demo_vm_walkaddr: "walkaddr 0x80001000 0 demo_vm = 0x80004000"
proof -
  have px: "PX l 0 = 0" for l by (simp add: PX_def)
  show ?thesis
    by (simp add: walkaddr_def walk_def px demo_vm_loads MAXVA_def)
      (simp add: PA2PTE_def PTE2PA_def PTE_V_def PTE_R_def PTE_W_def PTE_U_def px demo_vm_loads)
qed

lemma demo_vm_bytes:
  "pmem demo_vm 0x80004000 = 104" "pmem demo_vm 0x80004001 = 105" "pmem demo_vm 0x80004002 = 0"
  by (simp_all add: demo_vm_def write_bytes_def upt_rec)

lemma demo_translate:
  "translate demo_vm 0x80001000 0 = Some 0x80004000"
  "translate demo_vm 0x80001000 1 = Some 0x80004001"
  "translate demo_vm 0x80001000 2 = Some 0x80004002"
  by (simp_all add: translate_def PGROUNDDOWN_def PGSIZE_def demo_vm_walkaddr)

theorem copyin_bytewise_witness: "copyin 0x80001000 1 2 demo_vm = Some [105, 0]"
proof -
  have "user_bytes demo_vm 0x80001000 1 2 = Some [105, 0]"
    by (simp add: numeral_2_eq_2 demo_translate demo_vm_bytes)
  then show ?thesis using copyin_bytewise [of 1 2 "0x80001000" demo_vm] by simp
qed

theorem copyinstr_bytewise_witness: "copyinstr 0x80001000 0 3 demo_vm = Some [104, 105]"
proof -
  have "user_cstr demo_vm 0x80001000 0 3 = Some [104, 105]"
    by (simp add: numeral_3_eq_3 demo_translate demo_vm_bytes)
  then show ?thesis using copyinstr_bytewise [of 0 3 "0x80001000" demo_vm] by simp
qed

text \<open>A page-table entry made from a page address below \<open>2^56\<close> and ten flag bits gives both
  back, and a virtual address below \<^verbatim>\<open>MAXVA\<close> is its three table indices and its offset: no two
  addresses in different pages share an entry.\<close>

theorem pte_and_index_roundtrip:
  assumes "pa mod PGSIZE = 0" and "unat pa < 2 ^ 56" and "unat flags < 2 ^ 10" and "va < MAXVA"
  shows "PTE2PA (PA2PTE pa OR flags) = pa \<and> PTE_FLAGS (PA2PTE pa OR flags) = flags \<and>
         unat va = unat (PX 2 va) * 2 ^ 30 + unat (PX 1 va) * 2 ^ 21 + unat (PX 0 va) * 2 ^ 12 + unat va mod 4096"
  using pte_pa_flags [OF assms(1-3)] va_fields [OF assms(4)] by simp

theorem pte_and_index_roundtrip_witness:
  "PTE2PA (PA2PTE 0x80004000 OR 0x17) = 0x80004000 \<and> unat (PX 2 0x3FFFFFE123) = 255"
  using pte_and_index_roundtrip [of "0x80004000" "0x17" "0x3FFFFFE123"]
  by (simp add: PGSIZE_def MAXVA_def PX_def PXSHIFT_def)

text \<open>The lower 44 bits of \<^verbatim>\<open>satp\<close>, from which the hardware takes the address of the root table, give back the
  table.\<close>

lemma MAKE_SATP_root:
  assumes "pt AND mask 12 = 0" and "pt < 2 ^ 56"
  shows "push_bit 12 (take_bit 44 (MAKE_SATP pt)) = pt"
proof (rule bit_word_eqI)
  fix n assume n: "n < LENGTH(64)"
  have "\<not> bit (pt AND mask 12) n" using assms(1) by simp
  then have lo: "n < 12 \<Longrightarrow> \<not> bit pt n" using n by (simp add: bit_simps)
  have "unat pt < 2 ^ 56" using assms(2) by (simp add: word_less_nat_alt)
  then have "unat (take_bit 56 pt) = unat pt" by (simp add: unsigned_take_bit_eq take_bit_nat_eq_self_iff)
  then have "take_bit 56 pt = pt" by (simp only: unsigned_word_eqI)
  then have hi: "56 \<le> n \<Longrightarrow> \<not> bit pt n" by (metis bit_take_bit_iff not_le)
  show "bit (push_bit 12 (take_bit 44 (MAKE_SATP pt))) n = bit pt n"
    using lo hi n by (cases "n < 12"; cases "n < 56") (auto simp: MAKE_SATP_def SATP_SV39_def bit_simps)
qed

end
