(* ===== verification/Pipe.thy ===== *)
theory Pipe
  imports Ring Vm
begin

section \<open>Pipes (kernel/pipe.c)\<close>

text \<open>
  A pipe is a ring of 512 bytes with two free-running 32-bit counters. The state of a call is the
  process table, the pipe and the physical memory (for \<^verbatim>\<open>copyin\<close> and \<^verbatim>\<open>copyout\<close>). The body runs
  under \<^verbatim>\<open>pi->lock\<close> up to its return or its \<^verbatim>\<open>sleep\<close>: \<open>Done r s\<close> is a return, \<open>Blocked i s\<close> the
  caller asleep with \<open>i\<close> bytes already transferred (the local variable \<^verbatim>\<open>i\<close>); when it runs again it
  continues with \<open>pipewrite_resume\<close> or \<open>piperead_resume\<close>. \<open>a\<close> is the address of the pipe, which
  names its two sleep channels.
\<close>

record pipe =
  pdata :: "nat \<Rightarrow> u8"
  nread :: u32
  nwrite :: u32
  readopen :: bool
  writeopen :: bool

record psys =
  ks :: ksched
  pi :: pipe
  pm :: phys

datatype 's io = Done int 's | Blocked int 's | Died string

definition PIPESIZE :: nat where "PIPESIZE = 512"

definition pipe_put :: "u8 \<Rightarrow> pipe \<Rightarrow> pipe" where
  "pipe_put ch p = p\<lparr>pdata := (pdata p)(unat (nwrite p) mod PIPESIZE := ch), nwrite := nwrite p + 1\<rparr>"

definition pipe_get :: "pipe \<Rightarrow> u8 \<times> pipe" where
  "pipe_get p = (pdata p (unat (nread p) mod PIPESIZE), p\<lparr>nread := nread p + 1\<rparr>)"

definition pipe_full :: "pipe \<Rightarrow> bool" where
  "pipe_full p \<longleftrightarrow> nwrite p = nread p + of_nat PIPESIZE"

definition pipe_empty :: "pipe \<Rightarrow> bool" where
  "pipe_empty p \<longleftrightarrow> nread p = nwrite p"

definition wake :: "chan \<Rightarrow> nat option \<Rightarrow> psys \<Rightarrow> psys" where
  "wake ch me s = s\<lparr>ks := (ks s)\<lparr>procs := wakeup ch me (procs (ks s))\<rparr>\<rparr>"

text \<open>The part of \<^verbatim>\<open>pipealloc\<close> that sets up a fresh pipe page.\<close>

definition pipe_init :: "pipe \<Rightarrow> pipe" where
  "pipe_init p = p\<lparr>readopen := True, writeopen := True, nwrite := 0, nread := 0\<rparr>"

definition pipeclose :: "u64 \<Rightarrow> nat option \<Rightarrow> u64 \<Rightarrow> bool \<Rightarrow> psys \<Rightarrow> (unit, psys) res" where
  "pipeclose kend me a writable s =
     (let s = (if writable
               then wake (PipeRChan a) me (s\<lparr>pi := (pi s)\<lparr>writeopen := False\<rparr>\<rparr>)
               else wake (PipeWChan a) me (s\<lparr>pi := (pi s)\<lparr>readopen := False\<rparr>\<rparr>))
      in if \<not> readopen (pi s) \<and> \<not> writeopen (pi s)
         then (case kfree kend a (pm s) of Ok _ m \<Rightarrow> Ok () (s\<lparr>pm := m\<rparr>) | Panic e \<Rightarrow> Panic e | Wait m \<Rightarrow> Wait s)
         else Ok () s)"

definition pipewrite_end :: "nat \<Rightarrow> u64 \<Rightarrow> int \<Rightarrow> psys \<Rightarrow> psys io" where
  "pipewrite_end me a i s = Done i (wake (PipeRChan a) (Some me) s)"

definition block :: "chan \<Rightarrow> nat \<Rightarrow> int \<Rightarrow> psys \<Rightarrow> psys io" where
  "block ch h i s = (case sleep ch h (ks s) of Wait t \<Rightarrow> Blocked i (s\<lparr>ks := t\<rparr>) | Panic m \<Rightarrow> Died m | Ok _ t \<Rightarrow> Done i s)"

function pipewrite_loop :: "nat \<Rightarrow> nat \<Rightarrow> u64 \<Rightarrow> u64 \<Rightarrow> int \<Rightarrow> int \<Rightarrow> psys \<Rightarrow> psys io" where
  "pipewrite_loop h me a addr i n s =
     (if i < n
      then if \<not> readopen (pi s) \<or> killed (procs (ks s) me) then Done (-1) s
           else if pipe_full (pi s)
           then block (PipeWChan a) h i (wake (PipeRChan a) (Some me) s)
           else (case copyin (pagetable (procs (ks s) me)) (addr + of_int i) 1 (pm s) of
                   None \<Rightarrow> pipewrite_end me a i s
                 | Some bs \<Rightarrow>
                     pipewrite_loop h me a addr (i + 1) n (s\<lparr>pi := pipe_put (hd bs) (pi s)\<rparr>))
      else pipewrite_end me a i s)"
  by pat_completeness auto
termination
  by (relation "measure (\<lambda>(h, me, a, addr, i, n, s). nat (n - i))") auto

declare pipewrite_loop.simps [simp del]

definition pipewrite :: "nat \<Rightarrow> u64 \<Rightarrow> u64 \<Rightarrow> int \<Rightarrow> psys \<Rightarrow> psys io" where
  "pipewrite h a addr n s =
     (case cur (ks s) h of None \<Rightarrow> Died ''kerneltrap'' | Some me \<Rightarrow> pipewrite_loop h me a addr 0 n s)"

definition pipewrite_resume :: "nat \<Rightarrow> nat \<Rightarrow> u64 \<Rightarrow> u64 \<Rightarrow> int \<Rightarrow> int \<Rightarrow> psys \<Rightarrow> psys io" where
  "pipewrite_resume h me a addr i n s = pipewrite_loop h me a addr i n (s\<lparr>ks := sleep_return me (ks s)\<rparr>)"

fun piperead_copy :: "nat \<Rightarrow> u64 \<Rightarrow> u64 \<Rightarrow> int \<Rightarrow> psys \<Rightarrow> int \<times> psys" where
  "piperead_copy 0 pt addr i s = (i, s)"
| "piperead_copy (Suc k) pt addr i s =
     (if pipe_empty (pi s) then (i, s)
      else case pipe_get (pi s) of (ch, p) \<Rightarrow>
             (case copyout pt (addr + of_int i) [ch] (pm s) of (r, m) \<Rightarrow>
                let s = s\<lparr>pi := p, pm := m\<rparr>
                in if r = -1 then (i, s) else piperead_copy k pt addr (i + 1) s))"

definition piperead_from :: "nat \<Rightarrow> nat \<Rightarrow> u64 \<Rightarrow> u64 \<Rightarrow> int \<Rightarrow> psys \<Rightarrow> psys io" where
  "piperead_from h me a addr n s =
     (if pipe_empty (pi s) \<and> writeopen (pi s)
      then if killed (procs (ks s) me) then Done (-1) s else block (PipeRChan a) h 0 s
      else case piperead_copy (nat n) (pagetable (procs (ks s) me)) addr 0 s of
             (i, s) \<Rightarrow> Done i (wake (PipeWChan a) (Some me) s))"

definition piperead :: "nat \<Rightarrow> u64 \<Rightarrow> u64 \<Rightarrow> int \<Rightarrow> psys \<Rightarrow> psys io" where
  "piperead h a addr n s =
     (case cur (ks s) h of None \<Rightarrow> Died ''kerneltrap'' | Some me \<Rightarrow> piperead_from h me a addr n s)"

definition piperead_resume :: "nat \<Rightarrow> nat \<Rightarrow> u64 \<Rightarrow> u64 \<Rightarrow> int \<Rightarrow> psys \<Rightarrow> psys io" where
  "piperead_resume h me a addr n s = piperead_from h me a addr n (s\<lparr>ks := sleep_return me (ks s)\<rparr>)"

subsection \<open>The pipe as a bounded queue\<close>

definition pipe_bytes :: "pipe \<Rightarrow> u8 list" where
  "pipe_bytes p = ring PIPESIZE (pdata p) (nread p) (nwrite p)"

definition pipe_ok :: "pipe \<Rightarrow> bool" where
  "pipe_ok p \<longleftrightarrow> unat (nwrite p - nread p) \<le> PIPESIZE"

lemma pipe_full_iff: "pipe_full p \<longleftrightarrow> unat (nwrite p - nread p) = PIPESIZE"
  unfolding pipe_full_def by (rule ring_full_iff) (simp add: PIPESIZE_def)

lemma pipe_put_bytes: "pipe_ok p \<Longrightarrow> \<not> pipe_full p \<Longrightarrow> pipe_bytes (pipe_put ch p) = pipe_bytes p @ [ch]"
  unfolding pipe_full_iff pipe_ok_def pipe_bytes_def pipe_put_def
  by (simp add: ring_put PIPESIZE_def)

lemma pipe_put_ok: "pipe_ok p \<Longrightarrow> \<not> pipe_full p \<Longrightarrow> pipe_ok (pipe_put ch p)"
  using pipe_put_bytes [of p ch] unfolding pipe_full_iff pipe_ok_def pipe_bytes_def
  by (metis (no_types) Suc_leI le_neq_implies_less length_append_singleton ring_length)

interpretation pipeq: bounded_fifo pipe_put pipe_get pipe_bytes pipe_full pipe_empty pipe_ok PIPESIZE
proof
  fix p ch
  assume ok: "pipe_ok p"
  show "pipe_full p \<longleftrightarrow> length (pipe_bytes p) = PIPESIZE" by (simp add: pipe_full_iff pipe_bytes_def)
  show e: "pipe_empty p \<longleftrightarrow> pipe_bytes p = []" by (simp add: pipe_empty_def pipe_bytes_def ring_empty_iff)
  show "length (pipe_bytes p) \<le> PIPESIZE" using ok by (simp add: pipe_bytes_def pipe_ok_def)
  show "\<not> pipe_full p \<Longrightarrow> pipe_bytes (pipe_put ch p) = pipe_bytes p @ [ch]" by (rule pipe_put_bytes [OF ok])
  show "\<not> pipe_full p \<Longrightarrow> pipe_ok (pipe_put ch p)" by (rule pipe_put_ok [OF ok])
  show g: "\<not> pipe_empty p \<Longrightarrow> pipe_bytes p = fst (pipe_get p) # pipe_bytes (snd (pipe_get p))"
    by (simp add: pipe_empty_def pipe_bytes_def pipe_get_def ring_get)
  show "\<not> pipe_empty p \<Longrightarrow> pipe_ok (snd (pipe_get p))"
    using g ok unfolding pipe_ok_def pipe_bytes_def
    by (metis Suc_leD length_Cons ring_length)
qed

subsection \<open>Writing\<close>

lemma copyin_one:
  assumes "unat va + 4097 < 2 ^ 64"
  shows "copyin pt va 1 m = map_option (\<lambda>x. [pmem m x]) (translate m pt va)"
  using copyin_loop_eq [of va 1 1 pt m] assms
  by (simp add: copyin_def split: option.splits)

lemma wake_simps [simp]: "pi (wake ch me s) = pi s" "pm (wake ch me s) = pm s"
  "cur (ks (wake ch me s)) = cur (ks s)"
  by (simp_all add: wake_def)

fun io_result :: "psys io \<Rightarrow> (int \<times> psys) option" where
  "io_result (Done r s) = Some (r, s)"
| "io_result (Blocked r s) = Some (r, s)"
| "io_result (Died m) = None"

fun is_blocked :: "psys io \<Rightarrow> bool" where
  "is_blocked (Blocked r s) = True"
| "is_blocked _ = False"

lemma block_result:
  assumes "cur (ks s) h = Some me"
  shows "\<exists>t. block ch h i s = Blocked i t \<and> pi t = pi s \<and> pm t = pm s"
  using assms by (simp add: block_def sleep_def)

text \<open>What one run of the loop, from \<open>i\<close> on, may have done.\<close>

definition wrote :: "nat \<Rightarrow> u64 \<Rightarrow> int \<Rightarrow> psys \<Rightarrow> psys io \<Rightarrow> bool" where
  "wrote me addr i s x \<longleftrightarrow>
     (\<exists>r t bs. io_result x = Some (r, t) \<and> pipe_ok (pi t) \<and> pm t = pm s \<and>
        pipe_bytes (pi t) = pipe_bytes (pi s) @ bs \<and>
        user_bytes (pm s) (pagetable (procs (ks s) me)) (addr + of_int i) (length bs) = Some bs \<and>
        (r = -1 \<and> bs = [] \<and> (\<not> readopen (pi s) \<or> killed (procs (ks s) me)) \<or> r = i + int (length bs)) \<and>
        (is_blocked x \<longrightarrow> pipe_full (pi t)))"

lemma wrote_end: "pipe_ok (pi s) \<Longrightarrow> wrote me addr i s (pipewrite_end me a i s)"
  unfolding wrote_def pipewrite_end_def
  by (intro exI [of _ i] exI [of _ "wake (PipeRChan a) (Some me) s"] exI [of _ "[]"]) simp

lemma wrote_step:
  assumes "wrote me addr (i + 1) (s\<lparr>pi := pipe_put b (pi s)\<rparr>) x"
    and "translate (pm s) (pagetable (procs (ks s) me)) (addr + of_int i) = Some v" and "b = pmem (pm s) v"
    and "pipe_ok (pi s)" and "\<not> pipe_full (pi s)" and "readopen (pi s)" and "\<not> killed (procs (ks s) me)"
  shows "wrote me addr i s x"
proof -
  have ro: "readopen (pipe_put b (pi s)) = readopen (pi s)" by (simp add: pipe_put_def)
  from assms(1) obtain r t bs where
    r: "io_result x = Some (r, t)" "pipe_ok (pi t)" "pm t = pm s"
    "pipe_bytes (pi t) = pipe_bytes (pipe_put b (pi s)) @ bs"
    "user_bytes (pm s) (pagetable (procs (ks s) me)) (addr + of_int (i + 1)) (length bs) = Some bs"
    "r = i + 1 + int (length bs)" "is_blocked x \<longrightarrow> pipe_full (pi t)"
    using assms(6,7) ro unfolding wrote_def by auto
  have "user_bytes (pm s) (pagetable (procs (ks s) me)) (addr + of_int i) (length (b # bs)) = Some (b # bs)"
    using r(5) assms(2,3) by (simp add: add.assoc)
  then show ?thesis
    using r assms(4,5) unfolding wrote_def
    by (intro exI [of _ r] exI [of _ t] exI [of _ "b # bs"]) (simp add: pipe_put_bytes)
qed

lemma pipewrite_loop_wrote:
  assumes "pipe_ok (pi s)" and "cur (ks s) h = Some me" and "0 \<le> i" and "unat addr + nat n + 4097 < 2 ^ 64"
  shows "wrote me addr i s (pipewrite_loop h me a addr i n s)"
  using assms
proof (induction h me a addr i n s rule: pipewrite_loop.induct)
  case (1 h me a addr i n s)
  note prems = 1(2-5)
  let ?loop = "pipewrite_loop h me a addr i n s"
  consider (stop) "\<not> i < n" | (err) "i < n" "\<not> readopen (pi s) \<or> killed (procs (ks s) me)"
    | (full) "i < n" "readopen (pi s)" "\<not> killed (procs (ks s) me)" "pipe_full (pi s)"
    | (room) "i < n" "readopen (pi s)" "\<not> killed (procs (ks s) me)" "\<not> pipe_full (pi s)" by blast
  then show ?case
  proof cases
    case stop
    then have "?loop = pipewrite_end me a i s" by (subst pipewrite_loop.simps) simp
    then show ?thesis using wrote_end prems(1) by simp
  next
    case err
    then have "?loop = Done (-1) s" by (subst pipewrite_loop.simps) simp
    then show ?thesis using err prems(1) by (simp add: wrote_def)
  next
    case full
    obtain t where "block (PipeWChan a) h i (wake (PipeRChan a) (Some me) s) = Blocked i t" "pi t = pi s" "pm t = pm s"
      using block_result [of "wake (PipeRChan a) (Some me) s" h me] prems(2) by auto
    moreover from this full have "?loop = Blocked i t" by (subst pipewrite_loop.simps) simp
    ultimately show ?thesis using full prems(1) by (simp add: wrote_def)
  next
    case room
    have lt: "nat i < nat n" using prems(3) room(1) by simp
    have "unat (addr + of_nat (nat i)) = unat addr + nat i"
      using prems(4) lt by (intro unat_add_nat) linarith
    moreover have "addr + of_nat (nat i) = addr + of_int i" using prems(3) by simp
    ultimately have "unat (addr + of_int i) = unat addr + nat i" by (simp only:)
    then have "unat (addr + of_int i) + 4097 < 2 ^ 64" using lt prems(4) by linarith
    note ci = copyin_one [OF this, of "pagetable (procs (ks s) me)" "pm s"]
    show ?thesis
    proof (cases "translate (pm s) (pagetable (procs (ks s) me)) (addr + of_int i)")
      case None
      with ci room have "?loop = pipewrite_end me a i s" by (subst pipewrite_loop.simps) simp
      then show ?thesis using wrote_end prems(1) by simp
    next
      case (Some x)
      define b where "b = pmem (pm s) x"
      have c: "copyin (pagetable (procs (ks s) me)) (addr + of_int i) 1 (pm s) = Some [b]"
        using ci Some by (simp add: b_def)
      have un: "?loop = pipewrite_loop h me a addr (i + 1) n (s\<lparr>pi := pipe_put b (pi s)\<rparr>)"
        using room c by (subst pipewrite_loop.simps) simp
      have "\<not> (\<not> readopen (pi s) \<or> killed (procs (ks s) me))" using room by simp
      from 1(1) [OF room(1) this room(4) c] prems room(4)
      have "wrote me addr (i + 1) (s\<lparr>pi := pipe_put b (pi s)\<rparr>) ?loop"
        unfolding un by (simp add: pipe_put_ok)
      from wrote_step [OF this Some b_def prems(1) room(4,2,3)] show ?thesis .
    qed
  qed
qed

subsection \<open>Reading\<close>

text \<open>Delivering bytes one by one to consecutive user addresses: how many succeeded, and the
  memory afterwards.\<close>

fun deliver :: "u64 \<Rightarrow> u64 \<Rightarrow> u8 list \<Rightarrow> phys \<Rightarrow> nat \<times> phys" where
  "deliver pt va [] m = (0, m)"
| "deliver pt va (b # bs) m =
     (case copyout pt va [b] m of (r, m) \<Rightarrow>
        if r = -1 then (0, m) else case deliver pt (va + 1) bs m of (k, m) \<Rightarrow> (Suc k, m))"

lemma deliver_le: "fst (deliver pt va bs m) \<le> length bs"
proof (induction bs arbitrary: va m)
  case (Cons b bs)
  obtain r m1 where c: "copyout pt va [b] m = (r, m1)" by (metis prod.exhaust)
  show ?case using Cons.IH [of "va + 1" m1] c by (auto split: prod.splits)
qed simp

lemma piperead_copy_spec:
  assumes "pipe_ok (pi s)" and "bs = take n (pipe_bytes (pi s))"
    and "deliver pt (addr + of_int i) bs (pm s) = (k, m)"
  shows "\<exists>t. piperead_copy n pt addr i s = (i + int k, t) \<and> pm t = m \<and> ks t = ks s \<and> pipe_ok (pi t) \<and>
           pipe_bytes (pi t) = drop (if k < length bs then Suc k else k) (pipe_bytes (pi s))"
  using assms
proof (induction n arbitrary: i s bs k)
  case 0
  then show ?case by simp
next
  case (Suc n)
  show ?case
  proof (cases "pipe_empty (pi s)")
    case True
    then show ?thesis using Suc.prems pipeq.empty_iff [OF Suc.prems(1)] by simp
  next
    case False
    obtain ch p where g: "pipe_get (pi s) = (ch, p)" by (metis prod.exhaust)
    have pb: "pipe_bytes (pi s) = ch # pipe_bytes p" "pipe_ok p"
      using pipeq.get_contents [OF Suc.prems(1) False] pipeq.get_ok [OF Suc.prems(1) False] g by auto
    obtain r m1 where co: "copyout pt (addr + of_int i) [ch] (pm s) = (r, m1)" by (metis prod.exhaust)
    show ?thesis
    proof (cases "r = -1")
      case True
      then show ?thesis using Suc.prems False g pb co by (auto simp: Let_def)
    next
      case ok: False
      let ?s = "s\<lparr>pi := p, pm := m1\<rparr>"
      obtain k' where k': "deliver pt (addr + of_int (i + 1)) (take n (pipe_bytes (pi ?s))) (pm ?s) = (k', m)" "k = Suc k'"
        using Suc.prems(2,3) pb(1) co ok by (auto simp: add.assoc split: prod.splits)
      from Suc.IH [of ?s _ "i + 1" k'] pb(2) k' obtain t where
        "piperead_copy n pt addr (i + 1) ?s = (i + 1 + int k', t)" "pm t = m" "ks t = ks s" "pipe_ok (pi t)"
        "pipe_bytes (pi t) = drop (if k' < length (take n (pipe_bytes p)) then Suc k' else k') (pipe_bytes p)"
        by auto
      then show ?thesis using False g co ok k'(2) pb(1) Suc.prems(2) by (simp add: Let_def)
    qed
  qed
qed

definition asleep :: "ksched \<Rightarrow> nat \<Rightarrow> chan \<Rightarrow> bool" where
  "asleep k j ch \<longleftrightarrow> pstate (procs k j) = SLEEPING \<and> chan (procs k j) = ch"

lemma wake_none_asleep: "j < NPROC \<Longrightarrow> Some j \<noteq> me \<Longrightarrow> \<not> asleep (ks (wake ch me s)) j ch"
  by (simp add: asleep_def wake_def wakeup_eq wake_one_def)

lemma pipewrite_loop_wakes:
  assumes "io_result (pipewrite_loop h me a addr i n s) = Some (r, t)" and "r \<noteq> -1" and "0 \<le> i"
    and "cur (ks s) h = Some me" and "j < NPROC" and "j \<noteq> me"
  shows "\<not> asleep (ks t) j (PipeRChan a)"
  using assms
proof (induction h me a addr i n s rule: pipewrite_loop.induct)
  case (1 h me a addr i n s)
  have w: "\<not> asleep (ks (wake (PipeRChan a) (Some me) s)) j (PipeRChan a)"
    using wake_none_asleep [OF 1(6)] 1(7) by simp
  show ?case
  proof (cases "i < n \<and> readopen (pi s) \<and> \<not> killed (procs (ks s) me) \<and> \<not> pipe_full (pi s)")
    case True
    show ?thesis
    proof (cases "copyin (pagetable (procs (ks s) me)) (addr + of_int i) 1 (pm s)")
      case None
      then have "t = wake (PipeRChan a) (Some me) s"
        using 1(2) True by (subst (asm) pipewrite_loop.simps) (simp add: pipewrite_end_def)
      then show ?thesis using w by simp
    next
      case (Some bs)
      have "io_result (pipewrite_loop h me a addr (i + 1) n (s\<lparr>pi := pipe_put (hd bs) (pi s)\<rparr>)) = Some (r, t)"
        using 1(2) True Some by (subst (asm) pipewrite_loop.simps) simp
      then show ?thesis using 1(1) [of bs] 1(3-7) True Some by simp
    qed
  next
    case False
    then have "t = wake (PipeRChan a) (Some me) s \<or>
        (\<exists>i. block (PipeWChan a) h i (wake (PipeRChan a) (Some me) s) = Blocked i t)"
      using 1(2,3) block_result [of "wake (PipeRChan a) (Some me) s" h me "PipeWChan a" i] 1(5)
      by (subst (asm) pipewrite_loop.simps) (auto simp: pipewrite_end_def split: if_splits)
    then show ?thesis
      using w 1(5,7) by (auto simp: block_def sleep_def asleep_def split: res.splits option.splits)
  qed
qed

subsection \<open>Properties of pipes\<close>


text \<open>\<^verbatim>\<open>piperead\<close> on a pipe with bytes, or whose writer is gone, takes bytes from the front in
  order, up to \<open>n\<close>, and stores them at consecutive user addresses; it returns the number stored.
  When an address cannot be written, the byte meant for it has already left the pipe. No writer
  of the pipe is left asleep.\<close>

theorem piperead_takes:
  assumes "pipe_ok (pi s)" and "\<not> (pipe_empty (pi s) \<and> writeopen (pi s))"
    and "bs = take (nat n) (pipe_bytes (pi s))"
    and "deliver (pagetable (procs (ks s) me)) addr bs (pm s) = (k, m)"
  shows "\<exists>t. piperead_from h me a addr n s = Done (int k) t \<and> pm t = m \<and>
           pipe_bytes (pi t) = drop (if k < length bs then Suc k else k) (pipe_bytes (pi s)) \<and>
           (\<forall>j < NPROC. j \<noteq> me \<longrightarrow> \<not> asleep (ks t) j (PipeWChan a))"
proof -
  have "deliver (pagetable (procs (ks s) me)) (addr + of_int 0) bs (pm s) = (k, m)" using assms(4) by simp
  from piperead_copy_spec [OF assms(1,3) this] obtain t where
    t: "piperead_copy (nat n) (pagetable (procs (ks s) me)) addr 0 s = (int k, t)" "pm t = m"
    "pipe_bytes (pi t) = drop (if k < length bs then Suc k else k) (pipe_bytes (pi s))" by auto
  have "piperead_from h me a addr n s = Done (int k) (wake (PipeWChan a) (Some me) t)"
    using assms(2) t(1) by (auto simp: piperead_from_def)
  with t wake_none_asleep show ?thesis by simp
qed

text \<open>A write to a pipe that returns a count, or goes to sleep on a full pipe, leaves no other
  process asleep waiting to read from it.\<close>

theorem pipewrite_wakes_readers:
  assumes "io_result (pipewrite h a addr n s) = Some (r, t)" and "r \<noteq> -1" and "cur (ks s) h = Some me"
    and "j < NPROC" and "j \<noteq> me"
  shows "\<not> asleep (ks t) j (PipeRChan a)"
  using pipewrite_loop_wakes [of h me a addr 0 n s r t j] assms by (simp add: pipewrite_def)

definition demo_psys :: psys where
  "demo_psys = \<lparr>ks = (dispatch 2 5 demo_sched)\<lparr>procs := (\<lambda>_. demo_proc\<lparr>pagetable := 0x80001000\<rparr>)\<rparr>,
     pi = \<lparr>pdata = (\<lambda>_. 7), nread = 0xFFFFFFFF, nwrite = 1, readopen = True, writeopen = True\<rparr>, pm = demo_vm\<rparr>"


theorem piperead_takes_witness:
  "\<exists>t. piperead_from 2 5 0x80009000 0 0 demo_psys = Done 0 t \<and> pipe_bytes (pi t) = pipe_bytes (pi demo_psys)"
proof -
  have ok: "pipe_ok (pi demo_psys)" "\<not> (pipe_empty (pi demo_psys) \<and> writeopen (pi demo_psys))"
    by (simp_all add: demo_psys_def pipe_ok_def PIPESIZE_def pipe_empty_def)
  from piperead_takes [OF ok, of "[]" 0 5 0 0 "pm demo_psys" 2 "0x80009000"] show ?thesis by auto
qed

theorem pipewrite_wakes_readers_witness:
  "io_result (pipewrite 2 0x80009000 0 0 demo_psys) = Some (0, wake (PipeRChan 0x80009000) (Some 5) demo_psys) \<and>
   \<not> asleep (ks (wake (PipeRChan 0x80009000) (Some 5) demo_psys)) 9 (PipeRChan 0x80009000)"
proof -
  have c: "cur (ks demo_psys) 2 = Some 5" by (simp add: demo_psys_def dispatch_def)
  have e: "io_result (pipewrite 2 0x80009000 0 0 demo_psys) = Some (0, wake (PipeRChan 0x80009000) (Some 5) demo_psys)"
    by (simp add: pipewrite_def c) (subst pipewrite_loop.simps, simp add: pipewrite_end_def)
  from pipewrite_wakes_readers [OF e _ c, of 9] e show ?thesis by (simp add: NPROC_def)
qed

end
