(* ===== verification/Console.thy ===== *)
theory Console
  imports Pipe
begin

section \<open>Console and serial port (kernel/console.c, kernel/uart.c)\<close>

text \<open>
  The serial port is seen through its registers: \<open>lsr\<close> lists the answers of the successive reads of
  the transmitter-idle bit (an environment input; no answer left means the device stays busy),
  \<open>rhr\<close> the characters waiting in the receive register, and \<open>sent\<close> what was written to the transmit
  register. The transmit buffer is a ring of 32 characters with 64-bit counters, the console input
  a ring of 128 with three 32-bit counters: \<open>cr\<close> up to \<open>cw\<close> is input committed for readers,
  \<open>cw\<close> up to \<open>ce\<close> the line being edited.
\<close>

record uart =
  tx_buf :: "nat \<Rightarrow> u8"
  tx_w :: u64
  tx_r :: u64
  lsr :: "bool list"
  rhr :: "u8 list"
  sent :: "u8 list"

record cons =
  cbuf :: "nat \<Rightarrow> u8"
  cr :: u32
  cw :: u32
  ce :: u32

record usys =
  uk :: ksched
  ua :: uart
  co :: cons
  um :: phys
  panicked :: bool

definition UART_TX_BUF_SIZE :: nat where "UART_TX_BUF_SIZE = 32"
definition INPUT_BUF_SIZE :: nat where "INPUT_BUF_SIZE = 128"

definition uwake :: "chan \<Rightarrow> nat option \<Rightarrow> usys \<Rightarrow> usys" where
  "uwake ch me s = s\<lparr>uk := (uk s)\<lparr>procs := wakeup ch me (procs (uk s))\<rparr>\<rparr>"

subsection \<open>Setting up the device\<close>

text \<open>The values that \<^verbatim>\<open>uartinit\<close> writes to the registers of the device, in order, with their numbers.\<close>

definition IER :: nat where "IER = 1"
definition FCR :: nat where "FCR = 2"
definition LCR :: nat where "LCR = 3"
definition IER_RX_ENABLE :: u8 where "IER_RX_ENABLE = push_bit 0 1"
definition IER_TX_ENABLE :: u8 where "IER_TX_ENABLE = push_bit 1 1"
definition FCR_FIFO_ENABLE :: u8 where "FCR_FIFO_ENABLE = push_bit 0 1"
definition FCR_FIFO_CLEAR :: u8 where "FCR_FIFO_CLEAR = push_bit 1 3"
definition LCR_EIGHT_BITS :: u8 where "LCR_EIGHT_BITS = push_bit 0 3"
definition LCR_BAUD_LATCH :: u8 where "LCR_BAUD_LATCH = push_bit 7 1"

definition uartinit :: "(nat \<times> u8) list" where
  "uartinit =
     [(IER, 0), (LCR, LCR_BAUD_LATCH), (0, 3), (1, 0), (LCR, LCR_EIGHT_BITS), (FCR, FCR_FIFO_ENABLE OR FCR_FIFO_CLEAR),
      (IER, IER_TX_ENABLE OR IER_RX_ENABLE)]"

text \<open>Registers 0 and 1 are the baud rate divisor exactly while the latch bit of the line control register is set: the last
  value of each register, with the latch taken into account.\<close>

fun reg_after :: "bool \<Rightarrow> (nat \<times> u8) list \<Rightarrow> (nat \<times> bool) \<Rightarrow> u8 \<Rightarrow> u8" where
  "reg_after latch [] r old = old"
| "reg_after latch ((n, v) # ws) r old =
     reg_after (if n = LCR then v AND LCR_BAUD_LATCH \<noteq> 0 else latch) ws r (if r = (n, latch \<and> n < 2) then v else old)"

lemma uartinit_effect:
  "reg_after l uartinit (0, True) x = 3 \<and> reg_after l uartinit (1, True) x = 0 \<and> reg_after l uartinit (IER, False) x = 3 \<and>
   reg_after l uartinit (LCR, False) x = LCR_EIGHT_BITS"
  by (simp add: uartinit_def IER_def FCR_def LCR_def IER_RX_ENABLE_def IER_TX_ENABLE_def LCR_EIGHT_BITS_def LCR_BAUD_LATCH_def)

subsection \<open>Transmitting\<close>

definition tx_put :: "u8 \<Rightarrow> uart \<Rightarrow> uart" where
  "tx_put c u = u\<lparr>tx_buf := (tx_buf u)(unat (tx_w u) mod UART_TX_BUF_SIZE := c), tx_w := tx_w u + 1\<rparr>"

definition tx_get :: "uart \<Rightarrow> u8 \<times> uart" where
  "tx_get u = (tx_buf u (unat (tx_r u) mod UART_TX_BUF_SIZE), u\<lparr>tx_r := tx_r u + 1\<rparr>)"

definition tx_full :: "uart \<Rightarrow> bool" where
  "tx_full u \<longleftrightarrow> tx_w u = tx_r u + of_nat UART_TX_BUF_SIZE"

definition tx_empty :: "uart \<Rightarrow> bool" where
  "tx_empty u \<longleftrightarrow> tx_w u = tx_r u"

text \<open>\<^verbatim>\<open>uartstart\<close>; each round reads the status register once, and the list of its answers is the
  recursion argument.\<close>

fun uartstart_loop :: "nat option \<Rightarrow> bool list \<Rightarrow> usys \<Rightarrow> usys" where
  "uartstart_loop me [] s = s\<lparr>ua := (ua s)\<lparr>lsr := []\<rparr>\<rparr>"
| "uartstart_loop me (idle # ls) s =
     (if tx_empty (ua s) then s\<lparr>ua := (ua s)\<lparr>lsr := idle # ls\<rparr>\<rparr>
      else if \<not> idle then s\<lparr>ua := (ua s)\<lparr>lsr := ls\<rparr>\<rparr>
      else case tx_get (ua s) of (c, u) \<Rightarrow>
             uartstart_loop me ls (uwake UartChan me (s\<lparr>ua := u\<lparr>sent := sent u @ [c]\<rparr>\<rparr>)))"

definition uartstart :: "nat option \<Rightarrow> usys \<Rightarrow> usys" where
  "uartstart me s = uartstart_loop me (lsr (ua s)) s"

text \<open>\<^verbatim>\<open>uartputc\<close> up to a return or a sleep; a panicked kernel spins here for ever.\<close>

definition uartputc :: "nat \<Rightarrow> u8 \<Rightarrow> usys \<Rightarrow> (unit, usys) res" where
  "uartputc h c s =
     (if panicked s then Wait s
      else if tx_full (ua s)
      then (case sleep UartChan h (uk s) of
              Wait t \<Rightarrow> Wait (s\<lparr>uk := t\<rparr>) | Panic m \<Rightarrow> Panic m | Ok _ t \<Rightarrow> Ok () s)
      else Ok () (uartstart (cur (uk s) h) (s\<lparr>ua := tx_put c (ua s)\<rparr>)))"

definition uartputc_sync :: "u8 \<Rightarrow> usys \<Rightarrow> (unit, usys) res" where
  "uartputc_sync c s =
     (if panicked s then Wait s
      else case dropWhile (\<lambda>idle. \<not> idle) (lsr (ua s)) of
             [] \<Rightarrow> Wait (s\<lparr>ua := (ua s)\<lparr>lsr := []\<rparr>\<rparr>)
           | _ # ls \<Rightarrow> Ok () (s\<lparr>ua := (ua s)\<lparr>lsr := ls, sent := sent (ua s) @ [c]\<rparr>\<rparr>))"

definition uartgetc :: "usys \<Rightarrow> u8 option \<times> usys" where
  "uartgetc s = (case rhr (ua s) of [] \<Rightarrow> (None, s) | c # cs \<Rightarrow> (Some c, s\<lparr>ua := (ua s)\<lparr>rhr := cs\<rparr>\<rparr>))"

subsection \<open>Console input\<close>

text \<open>\<open>None\<close> is the code \<^verbatim>\<open>BACKSPACE\<close>.\<close>

definition consputc :: "u8 option \<Rightarrow> usys \<Rightarrow> (unit, usys) res" where
  "consputc c s =
     (case c of
        None \<Rightarrow> seqr (uartputc_sync 8 s) (\<lambda>_ s. seqr (uartputc_sync 32 s) (\<lambda>_ s. uartputc_sync 8 s))
      | Some c \<Rightarrow> uartputc_sync c s)"

text \<open>The loop of control-U, with the number of characters on the line as its bound.\<close>

fun killline :: "nat \<Rightarrow> usys \<Rightarrow> (unit, usys) res" where
  "killline 0 s = Ok () s"
| "killline (Suc n) s =
     (if ce (co s) \<noteq> cw (co s) \<and> cbuf (co s) (unat (ce (co s) - 1) mod INPUT_BUF_SIZE) \<noteq> 10
      then seqr (consputc None (s\<lparr>co := (co s)\<lparr>ce := ce (co s) - 1\<rparr>\<rparr>)) (\<lambda>_ s. killline n s)
      else Ok () s)"

definition consoleintr :: "nat option \<Rightarrow> u8 \<Rightarrow> usys \<Rightarrow> (unit, usys) res" where
  "consoleintr me c s =
     (if c = 0x10 then Ok () s
      else if c = 0x15 then killline (unat (ce (co s) - cw (co s))) s
      else if c = 8 \<or> c = 0x7f then
        (if ce (co s) \<noteq> cw (co s)
         then consputc None (s\<lparr>co := (co s)\<lparr>ce := ce (co s) - 1\<rparr>\<rparr>)
         else Ok () s)
      else if c \<noteq> 0 \<and> unat (ce (co s) - cr (co s)) < INPUT_BUF_SIZE then
        (let c = (if c = 13 then 10 else c)
         in seqr (consputc (Some c) s) (\<lambda>_ s.
              let k = (co s)\<lparr>cbuf := (cbuf (co s))(unat (ce (co s)) mod INPUT_BUF_SIZE := c), ce := ce (co s) + 1\<rparr>
              in if c = 10 \<or> c = 4 \<or> unat (ce k - cr k) = INPUT_BUF_SIZE
                 then Ok () (uwake ConsChan me (s\<lparr>co := k\<lparr>cw := ce k\<rparr>\<rparr>))
                 else Ok () (s\<lparr>co := k\<rparr>)))
      else Ok () s)"

text \<open>\<^verbatim>\<open>uartintr\<close>: all waiting characters, then the transmit buffer. The number of waiting characters
  bounds the loop.\<close>

fun uartintr_loop :: "nat \<Rightarrow> nat option \<Rightarrow> usys \<Rightarrow> (unit, usys) res" where
  "uartintr_loop 0 me s = Ok () s"
| "uartintr_loop (Suc n) me s =
     (case uartgetc s of
        (None, s) \<Rightarrow> Ok () s
      | (Some c, s) \<Rightarrow> seqr (consoleintr me c s) (\<lambda>_ s. uartintr_loop n me s))"

definition uartintr :: "nat option \<Rightarrow> usys \<Rightarrow> (unit, usys) res" where
  "uartintr me s = seqr (uartintr_loop (length (rhr (ua s))) me s) (\<lambda>_ s. Ok () (uartstart me s))"

subsection \<open>Console reads and writes\<close>

text \<open>\<^verbatim>\<open>either_copyout\<close> and \<^verbatim>\<open>either_copyin\<close> of \<^verbatim>\<open>proc.c\<close>.\<close>

definition either_copyout :: "bool \<Rightarrow> u64 \<Rightarrow> u64 \<Rightarrow> u8 list \<Rightarrow> phys \<Rightarrow> int \<times> phys" where
  "either_copyout user_dst pt dst src m =
     (if user_dst then copyout pt dst src m else (0, m\<lparr>pmem := write_bytes (pmem m) dst src\<rparr>))"

definition either_copyin :: "bool \<Rightarrow> u64 \<Rightarrow> u64 \<Rightarrow> nat \<Rightarrow> phys \<Rightarrow> u8 list option" where
  "either_copyin user_src pt src len m =
     (if user_src then copyin pt src len m else Some (read_bytes (pmem m) src len))"

text \<open>\<open>target\<close> is the original count, \<open>n\<close> what is left, \<open>dst\<close> the current address.\<close>

fun consoleread_loop :: "nat \<Rightarrow> nat \<Rightarrow> bool \<Rightarrow> nat \<Rightarrow> u64 \<Rightarrow> nat \<Rightarrow> usys \<Rightarrow> usys io" where
  "consoleread_loop h me user_dst target dst 0 s = Done (int target) s"
| "consoleread_loop h me user_dst target dst (Suc n) s =
     (if cr (co s) = cw (co s)
      then if killed (procs (uk s) me) then Done (-1) s
           else (case sleep ConsChan h (uk s) of
                   Wait t \<Rightarrow> Blocked (int (target - Suc n)) (s\<lparr>uk := t\<rparr>) | Panic m \<Rightarrow> Died m
                 | Ok _ t \<Rightarrow> Done 0 s)
      else let c = cbuf (co s) (unat (cr (co s)) mod INPUT_BUF_SIZE);
               s1 = s\<lparr>co := (co s)\<lparr>cr := cr (co s) + 1\<rparr>\<rparr>
           in if c = 4
              then Done (int (target - Suc n)) (if Suc n < target then s else s1)
              else case either_copyout user_dst (pagetable (procs (uk s) me)) dst [c] (um s1) of (r, m) \<Rightarrow>
                     let s2 = s1\<lparr>um := m\<rparr>
                     in if r = -1 then Done (int (target - Suc n)) s2
                        else if c = 10 then Done (int (target - n)) s2
                        else consoleread_loop h me user_dst target (dst + 1) n s2)"

definition consoleread :: "nat \<Rightarrow> bool \<Rightarrow> u64 \<Rightarrow> int \<Rightarrow> usys \<Rightarrow> usys io" where
  "consoleread h user_dst dst n s =
     (if n \<le> 0 then Done 0 s
      else case cur (uk s) h of
             None \<Rightarrow> Died ''kerneltrap''
           | Some me \<Rightarrow> consoleread_loop h me user_dst (nat n) dst (nat n) s)"

fun consolewrite_loop :: "nat \<Rightarrow> nat \<Rightarrow> bool \<Rightarrow> u64 \<Rightarrow> nat \<Rightarrow> nat \<Rightarrow> usys \<Rightarrow> usys io" where
  "consolewrite_loop h me user_src src i 0 s = Done (int i) s"
| "consolewrite_loop h me user_src src i (Suc k) s =
     (case either_copyin user_src (pagetable (procs (uk s) me)) (src + of_nat i) 1 (um s) of
        None \<Rightarrow> Done (int i) s
      | Some bs \<Rightarrow>
          (case uartputc h (hd bs) s of
             Ok _ t \<Rightarrow> consolewrite_loop h me user_src src (Suc i) k t
           | Panic m \<Rightarrow> Died m
           | Wait t \<Rightarrow> Blocked (int i) t))"

definition consolewrite :: "nat \<Rightarrow> bool \<Rightarrow> u64 \<Rightarrow> int \<Rightarrow> usys \<Rightarrow> usys io" where
  "consolewrite h user_src src n s =
     (case cur (uk s) h of
        None \<Rightarrow> Died ''kerneltrap'' | Some me \<Rightarrow> consolewrite_loop h me user_src src 0 (nat n) s)"

subsection \<open>The transmit buffer as a bounded queue\<close>

definition tx_bytes :: "uart \<Rightarrow> u8 list" where
  "tx_bytes u = ring UART_TX_BUF_SIZE (tx_buf u) (tx_r u) (tx_w u)"

definition tx_ok :: "uart \<Rightarrow> bool" where
  "tx_ok u \<longleftrightarrow> unat (tx_w u - tx_r u) \<le> UART_TX_BUF_SIZE"

lemma tx_full_iff: "tx_full u \<longleftrightarrow> unat (tx_w u - tx_r u) = UART_TX_BUF_SIZE"
  unfolding tx_full_def by (rule ring_full_iff) (simp add: UART_TX_BUF_SIZE_def)

lemma tx_put_bytes: "tx_ok u \<Longrightarrow> \<not> tx_full u \<Longrightarrow> tx_bytes (tx_put c u) = tx_bytes u @ [c]"
  unfolding tx_full_iff tx_ok_def tx_bytes_def tx_put_def
  by (simp add: ring_put UART_TX_BUF_SIZE_def)

lemma tx_put_ok: "tx_ok u \<Longrightarrow> \<not> tx_full u \<Longrightarrow> tx_ok (tx_put c u)"
  using tx_put_bytes [of u c] unfolding tx_full_iff tx_ok_def tx_bytes_def
  by (metis (no_types) Suc_leI le_neq_implies_less length_append_singleton ring_length)

interpretation txq: bounded_fifo tx_put tx_get tx_bytes tx_full tx_empty tx_ok UART_TX_BUF_SIZE
proof
  fix u c
  assume ok: "tx_ok u"
  show "tx_full u \<longleftrightarrow> length (tx_bytes u) = UART_TX_BUF_SIZE" by (simp add: tx_full_iff tx_bytes_def)
  show "tx_empty u \<longleftrightarrow> tx_bytes u = []" by (auto simp: tx_empty_def tx_bytes_def ring_empty_iff)
  show "length (tx_bytes u) \<le> UART_TX_BUF_SIZE" using ok by (simp add: tx_bytes_def tx_ok_def)
  show "\<not> tx_full u \<Longrightarrow> tx_bytes (tx_put c u) = tx_bytes u @ [c]" by (rule tx_put_bytes [OF ok])
  show "\<not> tx_full u \<Longrightarrow> tx_ok (tx_put c u)" by (rule tx_put_ok [OF ok])
  show g: "\<not> tx_empty u \<Longrightarrow> tx_bytes u = fst (tx_get u) # tx_bytes (snd (tx_get u))"
    by (simp add: tx_empty_def tx_bytes_def tx_get_def ring_get)
  show "\<not> tx_empty u \<Longrightarrow> tx_ok (snd (tx_get u))"
    using g ok unfolding tx_ok_def tx_bytes_def by (metis Suc_leD length_Cons ring_length)
qed

lemma tx_fields [simp]:
  "tx_bytes (u\<lparr>lsr := x\<rparr>) = tx_bytes u" "tx_bytes (u\<lparr>sent := y\<rparr>) = tx_bytes u"
  "tx_ok (u\<lparr>lsr := x\<rparr>) = tx_ok u" "tx_ok (u\<lparr>sent := y\<rparr>) = tx_ok u"
  by (simp_all add: tx_bytes_def tx_ok_def)

lemma uartstart_loop_hist:
  assumes "tx_ok (ua s)"
  shows "tx_ok (ua (uartstart_loop me ls s)) \<and>
         sent (ua (uartstart_loop me ls s)) @ tx_bytes (ua (uartstart_loop me ls s)) = sent (ua s) @ tx_bytes (ua s)"
  using assms
proof (induction ls arbitrary: s)
  case (Cons idle ls)
  show ?case
  proof (cases "tx_empty (ua s) \<or> \<not> idle")
    case True
    then show ?thesis using Cons.prems by auto
  next
    case False
    obtain c u where g: "tx_get (ua s) = (c, u)" by (metis prod.exhaust)
    have "tx_bytes (ua s) = c # tx_bytes u" "tx_ok u"
      using txq.get_contents [OF Cons.prems] txq.get_ok [OF Cons.prems] False g by auto
    moreover have "sent u = sent (ua s)" using g by (auto simp: tx_get_def)
    ultimately show ?thesis
      using Cons.IH [of "uwake UartChan me (s\<lparr>ua := u\<lparr>sent := sent u @ [c]\<rparr>\<rparr>)"] False g
      by (simp add: uwake_def)
  qed
qed simp

subsection \<open>Line editing\<close>

text \<open>The abstract console: input committed for readers, and the line being edited.\<close>

definition cons_view :: "cons \<Rightarrow> u8 list \<times> u8 list" where
  "cons_view k =
     (let xs = ring INPUT_BUF_SIZE (cbuf k) (cr k) (ce k); n = unat (cw k - cr k) in (take n xs, drop n xs))"

definition cons_ok :: "cons \<Rightarrow> bool" where
  "cons_ok k \<longleftrightarrow> unat (cw k - cr k) \<le> unat (ce k - cr k) \<and> unat (ce k - cr k) \<le> INPUT_BUF_SIZE \<and>
     10 \<notin> set (snd (cons_view k))"

definition edit :: "u8 \<Rightarrow> u8 list \<times> u8 list \<Rightarrow> u8 list \<times> u8 list" where
  "edit c v =
     (case v of (com, ed) \<Rightarrow>
        if c = 0x10 then (com, ed)
        else if c = 0x15 then (com, [])
        else if c = 8 \<or> c = 0x7f then (com, butlast ed)
        else if c \<noteq> 0 \<and> length com + length ed < 128 then
          (let c = (if c = 13 then 10 else c); ed = ed @ [c]
           in if c = 10 \<or> c = 4 \<or> length com + length ed = 128 then (com @ ed, []) else (com, ed))
        else (com, ed))"

lemma ring_snoc_length:
  fixes r w :: "'l::len word"
  assumes "r \<noteq> w"
  shows "Suc (unat (w - 1 - r)) = unat (w - r)"
proof -
  have ne: "w - r \<noteq> 0" using assms by auto
  have "0 < unat (w - r)" using ne by (simp add: unat_gt_0)
  moreover have e: "w - 1 - r = w - r - 1" by simp
  ultimately show ?thesis unfolding e using unat_minus_one [OF ne] by simp
qed

lemma ring_snoc:
  fixes r w :: "'l::len word"
  assumes "r \<noteq> w"
  shows "ring N buf r w = ring N buf r (w - 1) @ [buf (unat (w - 1) mod N)]"
proof -
  have "r + of_nat (unat (w - 1 - r)) = w - 1" by simp
  then show ?thesis unfolding ring_def ring_snoc_length [OF assms, symmetric] by simp
qed

lemma cons_view_lengths:
  assumes "cons_ok k" and "cons_view k = (com, ed)"
  shows "length com = unat (cw k - cr k)" and "length com + length ed = unat (ce k - cr k)"
  using assms by (auto simp: cons_ok_def cons_view_def Let_def)

lemma cons_edit_empty_iff:
  assumes "cons_ok k"
  shows "snd (cons_view k) = [] \<longleftrightarrow> ce k = cw k"
proof -
  have "snd (cons_view k) = [] \<longleftrightarrow> unat (ce k - cr k) = unat (cw k - cr k)"
    using assms by (auto simp: cons_ok_def cons_view_def Let_def)
  also have "\<dots> \<longleftrightarrow> ce k - cr k = cw k - cr k" by (simp add: word_unat_eq_iff)
  finally show ?thesis by simp
qed

lemma cons_backspace:
  assumes "cons_ok k" and "ce k \<noteq> cw k"
  shows "cons_ok (k\<lparr>ce := ce k - 1\<rparr>)"
    and "cons_view (k\<lparr>ce := ce k - 1\<rparr>) = (fst (cons_view k), butlast (snd (cons_view k)))"
proof -
  let ?n = "unat (cw k - cr k)"
  have ne: "unat (ce k - cr k) \<noteq> ?n" using assms(2) by (simp add: word_unat_eq_iff [symmetric])
  then have lt: "?n < unat (ce k - cr k)" using assms(1) by (simp add: cons_ok_def)
  then have "cr k \<noteq> ce k" by auto
  note s = ring_snoc [OF this, of INPUT_BUF_SIZE "cbuf k"] ring_snoc_length [OF this]
  show v: "cons_view (k\<lparr>ce := ce k - 1\<rparr>) = (fst (cons_view k), butlast (snd (cons_view k)))"
    using s lt by (simp add: cons_view_def Let_def butlast_append)
  have "10 \<notin> set (butlast (snd (cons_view k)))" using assms(1) by (auto simp: cons_ok_def dest: in_set_butlastD)
  then show "cons_ok (k\<lparr>ce := ce k - 1\<rparr>)"
    using v s(2) lt assms(1) by (auto simp: cons_ok_def)
qed

lemma cons_append:
  assumes "cons_ok k" and "unat (ce k - cr k) < INPUT_BUF_SIZE"
    and "k' = k\<lparr>cbuf := (cbuf k)(unat (ce k) mod INPUT_BUF_SIZE := c), ce := ce k + 1\<rparr>"
  shows "cons_view k' = (fst (cons_view k), snd (cons_view k) @ [c])"
    and "cons_view (k'\<lparr>cw := ce k'\<rparr>) = (fst (cons_view k) @ snd (cons_view k) @ [c], [])"
    and "unat (ce k' - cr k') = Suc (unat (ce k - cr k))"
proof -
  have p: "ring INPUT_BUF_SIZE ((cbuf k)(unat (ce k) mod INPUT_BUF_SIZE := c)) (cr k) (ce k + 1) =
      ring INPUT_BUF_SIZE (cbuf k) (cr k) (ce k) @ [c]"
    using assms(2) by (intro ring_put) (simp_all add: INPUT_BUF_SIZE_def)
  show l: "unat (ce k' - cr k') = Suc (unat (ce k - cr k))"
    using arg_cong [OF p, of length] by (simp add: assms(3))
  show "cons_view k' = (fst (cons_view k), snd (cons_view k) @ [c])"
    using p assms(1) by (simp add: assms(3) cons_view_def Let_def cons_ok_def)
  show "cons_view (k'\<lparr>cw := ce k'\<rparr>) = (fst (cons_view k) @ snd (cons_view k) @ [c], [])"
    using p l by (simp add: assms(3) cons_view_def Let_def)
qed

lemma uartputc_sync_frame: "uartputc_sync c s = Ok () t \<Longrightarrow> co t = co s \<and> uk t = uk s \<and> um t = um s"
  by (auto simp: uartputc_sync_def split: list.splits if_splits)

lemma consputc_frame: "consputc c s = Ok () t \<Longrightarrow> co t = co s \<and> uk t = uk s \<and> um t = um s"
  by (cases c) (auto simp: consputc_def elim!: seqr_OkE dest!: uartputc_sync_frame)

lemma killline_ok:
  assumes "cons_ok (co s)" and "unat (ce (co s) - cw (co s)) \<le> n" and "killline n s = Ok () t"
  shows "cons_ok (co t) \<and> cons_view (co t) = (fst (cons_view (co s)), [])"
  using assms
proof (induction n arbitrary: s)
  case 0
  then have "ce (co s) = cw (co s)" by (simp add: unat_eq_0)
  then show ?case using 0 cons_edit_empty_iff [OF 0(1)] by (simp add: prod_eq_iff)
next
  case (Suc n)
  let ?k = "co s"
  show ?case
  proof (cases "ce ?k = cw ?k")
    case True
    then show ?thesis using Suc.prems cons_edit_empty_iff [OF Suc.prems(1)] by (simp add: prod_eq_iff)
  next
    case False
    have ne: "snd (cons_view ?k) \<noteq> []" using False cons_edit_empty_iff [OF Suc.prems(1)] by simp
    have lt: "unat (cw ?k - cr ?k) < unat (ce ?k - cr ?k)"
      using Suc.prems(1) ne by (auto simp: cons_ok_def cons_view_def Let_def)
    then have "cr ?k \<noteq> ce ?k" by auto
    note sn = ring_snoc [OF this, of INPUT_BUF_SIZE "cbuf ?k"] ring_snoc_length [OF this]
    have "last (snd (cons_view ?k)) = cbuf ?k (unat (ce ?k - 1) mod INPUT_BUF_SIZE)"
      using sn lt by (simp add: cons_view_def Let_def)
    then have "cbuf ?k (unat (ce ?k - 1) mod INPUT_BUF_SIZE) \<in> set (snd (cons_view ?k))"
      using ne last_in_set by metis
    then have nl: "cbuf ?k (unat (ce ?k - 1) mod INPUT_BUF_SIZE) \<noteq> 10"
      using Suc.prems(1) by (auto simp: cons_ok_def)
    let ?s = "s\<lparr>co := ?k\<lparr>ce := ce ?k - 1\<rparr>\<rparr>"
    obtain u where u: "consputc None ?s = Ok () u" "killline n u = Ok () t"
      using Suc.prems(3) False nl by (auto simp: seqr_eq_Ok)
    have cu: "co u = ?k\<lparr>ce := ce ?k - 1\<rparr>" using consputc_frame [OF u(1)] by simp
    note b = cons_backspace [OF Suc.prems(1) False]
    have "unat (ce ?k - 1 - cw ?k) \<le> n"
      using ring_snoc_length [of "cw ?k" "ce ?k"] False Suc.prems(2) by simp
    from Suc.IH [OF _ _ u(2)] this cu b show ?thesis by simp
  qed
qed

lemma consoleintr_store:
  assumes "cons_ok (co s)" and "consoleintr me c s = Ok () t"
    and D: "c \<noteq> 0x10" "c \<noteq> 0x15" "\<not> (c = 8 \<or> c = 0x7f)" "c \<noteq> 0" "unat (ce (co s) - cr (co s)) < INPUT_BUF_SIZE"
  shows "cons_ok (co t) \<and> cons_view (co t) = edit c (cons_view (co s))"
proof -
  let ?k = "co s"
  obtain com ed where v: "cons_view ?k = (com, ed)" by (metis prod.exhaust)
  note len = cons_view_lengths [OF assms(1) v]
  define d where "d = (if c = 13 then 10 else c)"
  define k' where "k' = ?k\<lparr>cbuf := (cbuf ?k)(unat (ce ?k) mod INPUT_BUF_SIZE := d), ce := ce ?k + 1\<rparr>"
  note ap = cons_append [OF assms(1) D(5) k'_def]
  define cm where "cm \<longleftrightarrow> d = 10 \<or> d = 4 \<or> unat (ce k' - cr k') = INPUT_BUF_SIZE"
  have "consoleintr me c s = seqr (consputc (Some d) s) (\<lambda>_ s.
            let k = (co s)\<lparr>cbuf := (cbuf (co s))(unat (ce (co s)) mod INPUT_BUF_SIZE := d), ce := ce (co s) + 1\<rparr>
            in if d = 10 \<or> d = 4 \<or> unat (ce k - cr k) = INPUT_BUF_SIZE
               then Ok () (uwake ConsChan me (s\<lparr>co := k\<lparr>cw := ce k\<rparr>\<rparr>))
               else Ok () (s\<lparr>co := k\<rparr>))"
    using D by (simp add: consoleintr_def d_def Let_def)
  with assms(2) obtain u where "consputc (Some d) s = Ok () u"
    and r: "(let k = (co u)\<lparr>cbuf := (cbuf (co u))(unat (ce (co u)) mod INPUT_BUF_SIZE := d), ce := ce (co u) + 1\<rparr>
            in if d = 10 \<or> d = 4 \<or> unat (ce k - cr k) = INPUT_BUF_SIZE
               then Ok () (uwake ConsChan me (u\<lparr>co := k\<lparr>cw := ce k\<rparr>\<rparr>))
               else Ok () (u\<lparr>co := k\<rparr>)) = Ok () t"
    by (auto elim!: seqr_OkE)
  from consputc_frame [OF this(1)] have cu: "co u = co s" by simp
  have "co t = (if cm then k'\<lparr>cw := ce k'\<rparr> else k')"
    using r unfolding cu k'_def [symmetric] Let_def cm_def [symmetric]
    by (auto simp: uwake_def split: if_splits)
  moreover have "cm \<longleftrightarrow> d = 10 \<or> d = 4 \<or> length com + length (ed @ [d]) = 128"
    using ap(3) len by (simp add: cm_def INPUT_BUF_SIZE_def)
  moreover have "edit c (com, ed) = (if d = 10 \<or> d = 4 \<or> length com + length (ed @ [d]) = 128
      then (com @ ed @ [d], []) else (com, ed @ [d]))"
    using D len(2) by (simp add: edit_def d_def Let_def INPUT_BUF_SIZE_def)
  moreover have "cons_ok (k'\<lparr>cw := ce k'\<rparr>)" "\<not> cm \<Longrightarrow> cons_ok k'"
    using ap v assms(1) D(5) unfolding cons_ok_def cm_def by (auto simp: k'_def)
  ultimately show ?thesis using ap v by auto
qed

lemma consoleintr_refines:
  assumes "cons_ok (co s)" and "consoleintr me c s = Ok () t"
  shows "cons_ok (co t) \<and> cons_view (co t) = edit c (cons_view (co s))"
proof -
  let ?k = "co s"
  obtain com ed where v: "cons_view ?k = (com, ed)" by (metis prod.exhaust)
  note len = cons_view_lengths [OF assms(1) v]
  have lim: "length com + length ed \<le> 128" "unat (ce ?k - cr ?k) \<le> 128"
    using assms(1) len by (simp_all add: cons_ok_def INPUT_BUF_SIZE_def)
  consider (P) "c = 0x10" | (U) "c = 0x15" | (H) "c = 8 \<or> c = 0x7f"
    | (D) "c \<noteq> 0x10" "c \<noteq> 0x15" "\<not> (c = 8 \<or> c = 0x7f)" "c \<noteq> 0" "unat (ce ?k - cr ?k) < INPUT_BUF_SIZE"
    | (N) "c \<noteq> 0x10" "c \<noteq> 0x15" "\<not> (c = 8 \<or> c = 0x7f)" "\<not> (c \<noteq> 0 \<and> unat (ce ?k - cr ?k) < INPUT_BUF_SIZE)"
    by blast
  then show ?thesis
  proof cases
    case P
    then show ?thesis using assms v by (simp add: consoleintr_def edit_def)
  next
    case U
    then have "killline (unat (ce ?k - cw ?k)) s = Ok () t" using assms(2) by (simp add: consoleintr_def)
    from killline_ok [OF assms(1) order_refl this] U v show ?thesis by (simp add: edit_def)
  next
    case H
    show ?thesis
    proof (cases "ce ?k = cw ?k")
      case True
      then have "t = s" using H assms(2) by (auto simp: consoleintr_def)
      moreover have "ed = []" using True cons_edit_empty_iff [OF assms(1)] v by simp
      ultimately show ?thesis using H v assms(1) by (auto simp: edit_def)
    next
      case False
      then have "consputc None (s\<lparr>co := ?k\<lparr>ce := ce ?k - 1\<rparr>\<rparr>) = Ok () t"
        using H assms(2) by (auto simp: consoleintr_def)
      from consputc_frame [OF this] cons_backspace [OF assms(1) False] H v show ?thesis
        by (auto simp: edit_def)
    qed
  next
    case D
    show ?thesis by (rule consoleintr_store [OF assms D])
  next
    case N
    then have "t = s" using assms(2) by (auto simp: consoleintr_def Let_def split: if_splits)
    moreover have "edit c (com, ed) = (com, ed)" using N len(2) by (auto simp: edit_def INPUT_BUF_SIZE_def)
    ultimately show ?thesis using v assms(1) by simp
  qed
qed

subsection \<open>Reading lines\<close>

lemma cons_take:
  assumes "cons_ok k" and "cr k \<noteq> cw k"
  shows "cons_ok (k\<lparr>cr := cr k + 1\<rparr>)"
    and "cons_view k = (cbuf k (unat (cr k) mod INPUT_BUF_SIZE) # fst (cons_view (k\<lparr>cr := cr k + 1\<rparr>)),
                        snd (cons_view (k\<lparr>cr := cr k + 1\<rparr>)))"
proof -
  let ?b = "ring INPUT_BUF_SIZE (cbuf k)"
  have pos: "0 < unat (cw k - cr k)" using assms(2) by (auto simp: unat_gt_0)
  then have "0 < unat (ce k - cr k)" using assms(1) by (simp add: cons_ok_def)
  then have ne: "cr k \<noteq> ce k" by auto
  have g: "?b (cr k) (ce k) = cbuf k (unat (cr k) mod INPUT_BUF_SIZE) # ?b (cr k + 1) (ce k)"
    "?b (cr k) (cw k) = cbuf k (unat (cr k) mod INPUT_BUF_SIZE) # ?b (cr k + 1) (cw k)"
    using ring_get [OF ne] ring_get [OF assms(2)] by blast+
  have l: "unat (ce k - cr k) = Suc (unat (ce k - (cr k + 1)))" "unat (cw k - cr k) = Suc (unat (cw k - (cr k + 1)))"
    using arg_cong [OF g(1), of length] arg_cong [OF g(2), of length] by simp_all
  show v: "cons_view k = (cbuf k (unat (cr k) mod INPUT_BUF_SIZE) # fst (cons_view (k\<lparr>cr := cr k + 1\<rparr>)),
                        snd (cons_view (k\<lparr>cr := cr k + 1\<rparr>)))"
    by (simp add: cons_view_def Let_def g(1) l(2))
  show "cons_ok (k\<lparr>cr := cr k + 1\<rparr>)"
    using assms(1) l v by (auto simp: cons_ok_def)
qed

text \<open>One read, after \<open>got\<close> characters: \<open>bs\<close> are the further characters it takes from the
  committed input. All but the last are neither a newline nor an end of file; the last is not counted
  when it is an end of file or cannot be stored.\<close>

definition takes_line :: "nat \<Rightarrow> nat \<Rightarrow> nat \<Rightarrow> usys \<Rightarrow> int \<Rightarrow> usys \<Rightarrow> u8 list \<Rightarrow> bool" where
  "takes_line me got n s r t bs \<longleftrightarrow>
     cons_ok (co t) \<and> snd (cons_view (co t)) = snd (cons_view (co s)) \<and>
     fst (cons_view (co s)) = bs @ fst (cons_view (co t)) \<and> length bs \<le> n \<and>
     10 \<notin> set (butlast bs) \<and> 4 \<notin> set (butlast bs) \<and>
     (r = -1 \<and> killed (procs (uk s) me) \<or> r = int got + int (length bs) \<or>
      bs \<noteq> [] \<and> r = int got + int (length bs) - 1)"

lemma takes_line_Cons:
  assumes "takes_line me (Suc got) n u r t bs" and "cons_view (co s) = (c # fst (cons_view (co u)), snd (cons_view (co u)))"
    and "c \<noteq> 10" and "c \<noteq> 4" and "uk u = uk s"
  shows "takes_line me got (Suc n) s r t (c # bs)"
  using assms by (auto simp: takes_line_def)

lemma consoleread_loop_line:
  assumes "cons_ok (co s)" and "n \<le> target"
    and "consoleread_loop h me user_dst target dst n s = Done r t \<or> consoleread_loop h me user_dst target dst n s = Blocked r t"
  shows "\<exists>bs. takes_line me (target - n) n s r t bs"
  using assms
proof (induction n arbitrary: dst s)
  case 0
  then show ?case by (auto simp: takes_line_def intro!: exI [of _ "[]"])
next
  case (Suc n)
  let ?k = "co s"
  show ?case
  proof (cases "cr ?k = cw ?k")
    case True
    then have "co t = co s \<and> (r = -1 \<and> killed (procs (uk s) me) \<or> r = int (target - Suc n))"
      using Suc.prems(3) by (auto simp: sleep_def split: if_splits option.splits)
    then show ?thesis using Suc.prems(1) by (auto simp: takes_line_def intro!: exI [of _ "[]"])
  next
    case False
    define c where "c = cbuf ?k (unat (cr ?k) mod INPUT_BUF_SIZE)"
    define s1 where "s1 = s\<lparr>co := ?k\<lparr>cr := cr ?k + 1\<rparr>\<rparr>"
    note tk = cons_take [OF Suc.prems(1) False, folded c_def]
    have s1: "cons_ok (co s1)" "cons_view ?k = (c # fst (cons_view (co s1)), snd (cons_view (co s1)))" "uk s1 = uk s"
      using tk by (simp_all add: s1_def)
    obtain e m where e: "either_copyout user_dst (pagetable (procs (uk s) me)) dst [c] (um s1) = (e, m)"
      by (metis prod.exhaust)
    let ?s2 = "s1\<lparr>um := m\<rparr>"
    have one: "takes_line me (target - Suc n) (Suc n) s r' t' [c]"
      if "co t' = co s1" "r' = int (target - Suc n) \<or> r' = int (target - n)" for r' t'
      using that s1 Suc.prems(2) by (auto simp: takes_line_def)
    consider (eof) "c = 4" | (bad) "c \<noteq> 4" "e = -1" | (nl) "c \<noteq> 4" "e \<noteq> -1" "c = 10"
      | (go) "c \<noteq> 4" "e \<noteq> -1" "c \<noteq> 10" by blast
    then show ?thesis
    proof cases
      case eof
      then have rt: "r = int (target - Suc n)" "t = (if Suc n < target then s else s1)"
        using Suc.prems(3) False by (auto simp: Let_def c_def s1_def)
      show ?thesis
      proof (cases "Suc n < target")
        case True
        then show ?thesis using rt Suc.prems(1) by (auto simp: takes_line_def intro!: exI [of _ "[]"])
      next
        case False
        then show ?thesis using rt one [of t r] by auto
      qed
    next
      case bad
      then have "r = int (target - Suc n)" "t = ?s2"
        using Suc.prems(3) False e by (auto simp: Let_def c_def s1_def)
      then show ?thesis using one [of t r] by auto
    next
      case nl
      then have "r = int (target - n)" "t = ?s2"
        using Suc.prems(3) False e by (auto simp: Let_def c_def s1_def)
      then show ?thesis using one [of t r] by auto
    next
      case go
      then have eq: "consoleread_loop h me user_dst target dst (Suc n) s = consoleread_loop h me user_dst target (dst + 1) n ?s2"
        using False e by (simp add: Let_def c_def s1_def)
      have "cons_ok (co ?s2)" using s1(1) by simp
      from Suc.IH [OF this _ Suc.prems(3) [unfolded eq]] Suc.prems(2)
      obtain bs where "takes_line me (target - n) n ?s2 r t bs" by auto
      moreover have "Suc (target - Suc n) = target - n" using Suc.prems(2) by simp
      ultimately have "takes_line me (target - Suc n) (Suc n) s r t (c # bs)"
        using takes_line_Cons [of me "target - Suc n" n ?s2 r t bs s c] s1 go by simp
      then show ?thesis by blast
    qed
  qed
qed

subsection \<open>Properties of the console and the serial port\<close>

text \<open>C35. Line editing: from every state the input interrupt for a character does to the console what
  the abstract editor does. Control-U empties the line, backspace and delete remove its last
  character and never touch committed input, other characters are added while there is room, and a
  newline, control-D or a full buffer commits the line.\<close>

theorem console_line_editing:
  assumes "cons_ok (co s)" and "consoleintr me c s = Ok () t"
  shows "cons_ok (co t) \<and> cons_view (co t) = edit c (cons_view (co s))"
  using assms by (rule consoleintr_refines)

definition demo_usys :: usys where
  "demo_usys = \<lparr>uk = dispatch 2 5 demo_sched,
     ua = \<lparr>tx_buf = (\<lambda>_. 0), tx_w = 0, tx_r = 0, lsr = [True, True, True], rhr = [], sent = []\<rparr>,
     co = \<lparr>cbuf = (\<lambda>_. 0)(127 := 104, 0 := 105), cr = 0xFFFFFFFF, cw = 0xFFFFFFFF, ce = 1\<rparr>,
     um = demo_vm, panicked = False\<rparr>"

lemma demo_usys_ok: "cons_ok (co demo_usys)" "cons_view (co demo_usys) = ([], [104, 105])"
proof -
  have u: "unat ((1 :: u32) - 0xFFFFFFFF) = 2" by simp
  have r: "ring 128 ((\<lambda>_. 0)(127 := 104, 0 := 105)) (0xFFFFFFFF :: u32) 1 = [104, 105 :: u8]"
    unfolding ring_def u by (simp add: upt_rec)
  show v: "cons_view (co demo_usys) = ([], [104, 105])"
    using r by (simp add: demo_usys_def cons_view_def INPUT_BUF_SIZE_def)
  then show "cons_ok (co demo_usys)"
    using u by (simp add: cons_ok_def demo_usys_def INPUT_BUF_SIZE_def)
qed

theorem console_line_editing_witness:
  "\<exists>t. consoleintr None 13 demo_usys = Ok () t \<and> cons_view (co t) = ([104, 105, 10], [])"
proof -
  have "\<exists>t. consoleintr None 13 demo_usys = Ok () t"
    by (simp add: consoleintr_def demo_usys_def consputc_def uartputc_sync_def INPUT_BUF_SIZE_def
        Let_def)
  then obtain t where t: "consoleintr None 13 demo_usys = Ok () t" ..
  from console_line_editing [OF demo_usys_ok(1) t] t demo_usys_ok(2) show ?thesis by (simp add: edit_def)
qed

text \<open>A console read takes characters only from committed input, in order, never more than asked
  for and never past the end of a line or an end-of-file mark; the line being edited is untouched. Its
  result is the number taken, less one when the last is an end-of-file mark or could not be stored.\<close>

theorem consoleread_one_line:
  assumes "cons_ok (co s)" and "cur (uk s) h = Some me" and "0 < n"
    and "consoleread h user_dst dst n s = Done r t \<or> consoleread h user_dst dst n s = Blocked r t"
  shows "\<exists>bs. takes_line me 0 (nat n) s r t bs"
  using consoleread_loop_line [of s "nat n" "nat n" h me user_dst dst r t] assms
  by (simp add: consoleread_def)

theorem consoleread_one_line_witness:
  "\<exists>r t bs. consoleread 2 False 0 1 demo_usys = Blocked r t \<and> takes_line 5 0 1 demo_usys r t bs"
proof -
  have c: "cur (uk demo_usys) 2 = Some 5" by (simp add: demo_usys_def dispatch_def)
  have "\<exists>r t. consoleread 2 False 0 1 demo_usys = Blocked r t"
    by (simp add: consoleread_def demo_usys_def dispatch_def sleep_def demo_sched_def demo_proc_def)
  then obtain r t where b: "consoleread 2 False 0 1 demo_usys = Blocked r t" by blast
  from consoleread_one_line [OF demo_usys_ok(1) c, of 1 False 0 r t] b show ?thesis by auto
qed

text \<open>The serial port sends what \<^verbatim>\<open>uartputc\<close> is given in order, nothing lost or repeated: the
  characters sent followed by those buffered grow by exactly the new one, and the buffer never
  holds more than 32; the call sleeps exactly when the buffer is full.\<close>

theorem uartputc_fifo:
  assumes "tx_ok (ua s)" and "\<not> panicked s" and "cur (uk s) h \<noteq> None"
  shows "if tx_full (ua s) then \<exists>t. uartputc h c s = Wait t \<and> ua t = ua s
         else \<exists>t. uartputc h c s = Ok () t \<and> length (tx_bytes (ua t)) \<le> 32 \<and>
                  sent (ua t) @ tx_bytes (ua t) = sent (ua s) @ tx_bytes (ua s) @ [c]"
proof (cases "tx_full (ua s)")
  case True
  then show ?thesis using assms(2,3) by (auto simp: uartputc_def sleep_def split: option.splits)
next
  case False
  let ?s = "s\<lparr>ua := tx_put c (ua s)\<rparr>"
  have "tx_ok (ua ?s)" using tx_put_ok [OF assms(1) False] by simp
  note h = uartstart_loop_hist [OF this, of "cur (uk s) h" "lsr (ua ?s)"]
  have "sent (tx_put c (ua s)) = sent (ua s)" by (simp add: tx_put_def)
  with h False assms(2) tx_put_bytes [OF assms(1) False, of c] txq.bound [OF h [THEN conjunct1]] show ?thesis
    by (simp add: uartputc_def uartstart_def UART_TX_BUF_SIZE_def)
qed

theorem uartputc_fifo_witness:
  "\<exists>t. uartputc 2 65 demo_usys = Ok () t \<and> sent (ua t) @ tx_bytes (ua t) = [65]"
proof -
  have "tx_ok (ua demo_usys)" "\<not> panicked demo_usys" "cur (uk demo_usys) 2 \<noteq> None" "\<not> tx_full (ua demo_usys)"
    "sent (ua demo_usys) @ tx_bytes (ua demo_usys) = []"
    by (simp_all add: demo_usys_def tx_ok_def tx_full_def UART_TX_BUF_SIZE_def dispatch_def tx_bytes_def ring_def)
  with uartputc_fifo [of demo_usys 2 65] show ?thesis by auto
qed

end
