(* ===== verification/Semaphore.thy ===== *)
theory Semaphore
  imports Sched
begin

section \<open>Named semaphores (lab 2, kernel/semaphore.c)\<close>

text \<open>
  The table \<^verbatim>\<open>semaphores[N]\<close> and its six operations over the process table. Each body runs
  under the semaphore's spin lock and is one atomic step; \<^verbatim>\<open>sem_down\<close> is cut at its
  \<^verbatim>\<open>sleep\<close>: \<open>sem_down\<close> is the call up to the first return or sleep, \<open>sem_down_resume\<close> what the
  process does when it runs again. \<open>h\<close> is the hart that makes the call; \<^verbatim>\<open>int\<close> values are
  mathematical integers (the invariant below keeps the counters of used semaphores inside
  \<open>0..bound\<close>, so no arithmetic here can overflow while it holds).

  The run relation \<open>sem_step\<close> interleaves the calls of all processes with the scheduler.
  \<open>spc i = Some n\<close> says that process \<open>i\<close> is inside the loop of \<^verbatim>\<open>sem_down(n)\<close>; \<open>downs\<close> and
  \<open>ups\<close> count the calls on each semaphore that returned 1 since it was opened.
\<close>

definition NSEM :: nat where "NSEM = 256"

record semaphore =
  count :: int
  bound :: int

record semsys =
  sk :: ksched
  sems :: "nat \<Rightarrow> semaphore"

definition semaphores_init :: "semsys \<Rightarrow> semsys" where
  "semaphores_init s =
     s\<lparr>sems := fold (\<lambda>i t. t(i := (t i)\<lparr>count := -1, bound := -1\<rparr>)) [0..<NSEM] (sems s)\<rparr>"

definition sem_ok :: "int \<Rightarrow> bool" where
  "sem_ok sem \<longleftrightarrow> \<not> (sem < 0 \<or> int NSEM \<le> sem)"

definition sem_open :: "int \<Rightarrow> int \<Rightarrow> semsys \<Rightarrow> int \<times> semsys" where
  "sem_open sem v s =
     (if \<not> sem_ok sem then (0, s)
      else let k = nat sem
           in if count (sems s k) \<noteq> -1 then (0, s)
              else (1, s\<lparr>sems := (sems s)(k := (sems s k)\<lparr>count := v, bound := v\<rparr>)\<rparr>))"

definition sem_close :: "int \<Rightarrow> semsys \<Rightarrow> int \<times> semsys" where
  "sem_close sem s =
     (if \<not> sem_ok sem then (0, s)
      else let k = nat sem
           in if count (sems s k) = -1 then (0, s)
              else (1, s\<lparr>sems := (sems s)(k := (sems s k)\<lparr>count := -1\<rparr>)\<rparr>))"

definition sem_up :: "nat \<Rightarrow> int \<Rightarrow> semsys \<Rightarrow> int \<times> semsys" where
  "sem_up h sem s =
     (if \<not> sem_ok sem then (0, s)
      else let k = nat sem; c = sems s k
           in if count c = -1 then (0, s)
              else if count c = bound c then (0, s)
              else (1, s\<lparr>sems := (sems s)(k := c\<lparr>count := count c + 1\<rparr>),
                         sk := (sk s)\<lparr>procs := wakeup (SemChan k) (cur (sk s) h) (procs (sk s))\<rparr>\<rparr>))"

text \<open>The loop \<^verbatim>\<open>while(down_sem->count == 0) sleep(...)\<close> and what follows it.\<close>

definition sem_down_loop :: "nat \<Rightarrow> nat \<Rightarrow> semsys \<Rightarrow> (int, semsys) res" where
  "sem_down_loop h k s =
     (if count (sems s k) = 0
      then (case sleep (SemChan k) h (sk s) of
              Ok _ t \<Rightarrow> Ok 1 (s\<lparr>sk := t\<rparr>)
            | Panic m \<Rightarrow> Panic m
            | Wait t \<Rightarrow> Wait (s\<lparr>sk := t\<rparr>))
      else Ok 1 (s\<lparr>sems := (sems s)(k := (sems s k)\<lparr>count := count (sems s k) - 1\<rparr>)\<rparr>))"

definition sem_down :: "nat \<Rightarrow> int \<Rightarrow> semsys \<Rightarrow> (int, semsys) res" where
  "sem_down h sem s =
     (if \<not> sem_ok sem then Ok 0 s
      else if count (sems s (nat sem)) = -1 then Ok 0 s
      else sem_down_loop h (nat sem) s)"

definition sem_down_resume :: "nat \<Rightarrow> nat \<Rightarrow> nat \<Rightarrow> semsys \<Rightarrow> (int, semsys) res" where
  "sem_down_resume h i k s = sem_down_loop h k (s\<lparr>sk := sleep_return i (sk s)\<rparr>)"

function get_sem_loop :: "int \<Rightarrow> int \<Rightarrow> semsys \<Rightarrow> int \<times> semsys" where
  "get_sem_loop index v s =
     (case sem_open index v s of
        (r, s') \<Rightarrow> if r \<noteq> 1 \<and> index < int NSEM then get_sem_loop (index + 1) v s' else (index, s'))"
  by pat_completeness auto
termination
  by (relation "measure (\<lambda>(index, v, s). nat (int NSEM - index))") auto

declare get_sem_loop.simps [simp del]

definition get_sem :: "int \<Rightarrow> semsys \<Rightarrow> int \<times> semsys" where
  "get_sem v s =
     (case get_sem_loop 0 v s of
        (index, s') \<Rightarrow> if index = int NSEM then (-1, s') else (index, s'))"

subsection \<open>The run relation\<close>

record semrun =
  sy :: semsys
  spc :: "nat \<Rightarrow> nat option"
  downs :: "nat \<Rightarrow> int"
  ups :: "nat \<Rightarrow> int"

definition semsleep :: "ksched \<Rightarrow> nat \<Rightarrow> nat \<Rightarrow> bool" where
  "semsleep k i n \<longleftrightarrow> pstate (procs k i) = SLEEPING \<and> chan (procs k i) = SemChan n"

text \<open>
  \<open>ss_sched\<close>: a scheduling step of any kind that does not itself put a process to sleep on a
  semaphore. The other rules are system calls of a current process; a semaphore is not closed
  during the run (closing under sleepers is treated on its own below).
\<close>

inductive sem_step :: "semrun \<Rightarrow> semrun \<Rightarrow> bool" where
  ss_sched: "sched_step (sk (sy x)) k \<Longrightarrow> (\<And>i n. semsleep k i n \<Longrightarrow> semsleep (sk (sy x)) i n) \<Longrightarrow>
     sem_step x (x\<lparr>sy := (sy x)\<lparr>sk := k\<rparr>\<rparr>)"
| ss_open: "sem_open sem v (sy x) = (r, s) \<Longrightarrow> 0 \<le> v \<Longrightarrow>
     sem_step x (if r = 1 then x\<lparr>sy := s, downs := (downs x)(nat sem := 0), ups := (ups x)(nat sem := 0)\<rparr>
                 else x\<lparr>sy := s\<rparr>)"
| ss_up: "cur (sk (sy x)) h = Some i \<Longrightarrow> spc x i = None \<Longrightarrow> sem_up h sem (sy x) = (r, s) \<Longrightarrow>
     sem_step x (if r = 1 then x\<lparr>sy := s, ups := (ups x)(nat sem := ups x (nat sem) + 1)\<rparr>
                 else x\<lparr>sy := s\<rparr>)"
| ss_down: "cur (sk (sy x)) h = Some i \<Longrightarrow> spc x i = None \<Longrightarrow> sem_down h sem (sy x) = Ok r s \<Longrightarrow>
     sem_step x (if r = 1 then x\<lparr>sy := s, downs := (downs x)(nat sem := downs x (nat sem) + 1)\<rparr>
                 else x\<lparr>sy := s\<rparr>)"
| ss_down_sleep: "cur (sk (sy x)) h = Some i \<Longrightarrow> spc x i = None \<Longrightarrow> sem_down h sem (sy x) = Wait s \<Longrightarrow>
     sem_step x (x\<lparr>sy := s, spc := (spc x)(i := Some (nat sem))\<rparr>)"
| ss_resume: "cur (sk (sy x)) h = Some i \<Longrightarrow> spc x i = Some k \<Longrightarrow>
     sem_down_resume h i k (sy x) = Ok r s \<Longrightarrow>
     sem_step x (x\<lparr>sy := s, downs := (downs x)(k := downs x k + 1), spc := (spc x)(i := None)\<rparr>)"
| ss_resume_sleep: "cur (sk (sy x)) h = Some i \<Longrightarrow> spc x i = Some k \<Longrightarrow>
     sem_down_resume h i k (sy x) = Wait s \<Longrightarrow> sem_step x (x\<lparr>sy := s\<rparr>)"

inductive sem_reach :: "semrun \<Rightarrow> semrun \<Rightarrow> bool" where
  se_start: "sem_reach x x"
| se_step: "sem_reach x y \<Longrightarrow> sem_step y z \<Longrightarrow> sem_reach x z"

definition sem_start :: "semrun \<Rightarrow> bool" where
  "sem_start x \<longleftrightarrow>
     sched_start (sk (sy x)) \<and> (\<exists>s. sy x = semaphores_init s) \<and> (\<forall>i. spc x i = None) \<and>
     (\<forall>i n. \<not> semsleep (sk (sy x)) i n)"

definition sem_inv :: "semrun \<Rightarrow> bool" where
  "sem_inv x \<longleftrightarrow>
     sched_inv (sk (sy x)) \<and>
     (\<forall>n < NSEM. count (sems (sy x) n) = -1 \<or>
        (0 \<le> count (sems (sy x) n) \<and> count (sems (sy x) n) \<le> bound (sems (sy x) n) \<and>
         count (sems (sy x) n) = bound (sems (sy x) n) - downs x n + ups x n)) \<and>
     (\<forall>i n. semsleep (sk (sy x)) i n \<longrightarrow> i < NPROC \<and> count (sems (sy x) n) = 0) \<and>
     (\<forall>i n. spc x i = Some n \<longrightarrow> n < NSEM \<and> count (sems (sy x) n) \<noteq> -1)"

subsection \<open>Facts about the operations\<close>

lemma sem_ok_nat: "sem_ok sem \<Longrightarrow> nat sem < NSEM"
  by (auto simp: sem_ok_def)

lemma sem_ok_int: "k < NSEM \<Longrightarrow> sem_ok (int k)"
  by (simp add: sem_ok_def)

lemma semaphores_init_sems:
  "n < NSEM \<Longrightarrow> sems (semaphores_init s) n = (sems s n)\<lparr>count := -1, bound := -1\<rparr>"
  unfolding semaphores_init_def
  by (subst fold_pointwise [where f = "\<lambda>i c. c\<lparr>count := -1, bound := -1\<rparr>"]) auto

lemma semsleep_wakeup:
  "semsleep (k\<lparr>procs := wakeup (SemChan n) me (procs k)\<rparr>) i m \<Longrightarrow>
   semsleep k i m \<and> (m = n \<longrightarrow> \<not> (i < NPROC \<and> Some i \<noteq> me))"
  by (auto simp: semsleep_def wakeup_eq wake_one_def split: if_splits)

lemma semsleep_sleep_return:
  "semsleep (sleep_return i k) j n \<Longrightarrow> j \<noteq> i \<and> semsleep k j n"
  by (auto simp: semsleep_def sleep_return_def split: if_splits)

lemma sem_down_loop_Ok:
  "sem_down_loop h k s = Ok r t \<Longrightarrow>
   count (sems s k) \<noteq> 0 \<and> r = 1 \<and>
   t = s\<lparr>sems := (sems s)(k := (sems s k)\<lparr>count := count (sems s k) - 1\<rparr>)\<rparr>"
  by (auto simp: sem_down_loop_def sleep_def split: if_splits option.splits)

lemma sem_down_loop_Wait:
  "sem_down_loop h k s = Wait t \<Longrightarrow>
   count (sems s k) = 0 \<and> sems t = sems s \<and> sleep (SemChan k) h (sk s) = Wait (sk t)"
  by (auto simp: sem_down_loop_def split: if_splits res.splits)

lemma semsleep_sleep:
  "sleep (SemChan k) h s = Wait t \<Longrightarrow> semsleep t i n \<Longrightarrow> semsleep s i n \<or> n = k"
  by (auto simp: semsleep_def sleep_def split: option.splits if_splits)


subsection \<open>The invariant of the run\<close>

lemma sched_inv_sleep: "sleep ch h s = Wait t \<Longrightarrow> sched_inv s \<Longrightarrow> sched_inv t"
  by (rule sched_inv_step [OF st_sleep])

lemma sched_inv_wakeup: "sched_inv s \<Longrightarrow> sched_inv (s\<lparr>procs := wakeup ch (cur s h) (procs s)\<rparr>)"
  by (rule sched_inv_step [OF st_wakeup])

lemma sched_inv_sleep_return: "sched_inv s \<Longrightarrow> sched_inv (sleep_return i s)"
  unfolding sched_inv_def sleep_return_def by simp

lemma semsleep_sleep_self:
  assumes "sleep (SemChan k) h s = Wait t" and "sched_inv s" and "semsleep t i n"
  shows "semsleep s i n \<or> n = k \<and> i < NPROC"
  using assms unfolding semsleep_def sleep_def sched_inv_def
  by (auto split: option.splits if_splits)

lemma semsleep_up:
  assumes "sched_inv s" and "semsleep (s\<lparr>procs := wakeup (SemChan n) (cur s h) (procs s)\<rparr>) i m"
    and "\<And>i n. semsleep s i n \<Longrightarrow> i < NPROC"
  shows "semsleep s i m \<and> m \<noteq> n"
proof -
  from semsleep_wakeup [OF assms(2)] have s: "semsleep s i m" and
    w: "m = n \<longrightarrow> \<not> (i < NPROC \<and> Some i \<noteq> cur s h)" by auto
  have "Some i \<noteq> cur s h"
    using sched_inv_running [OF assms(1), of h i] s by (auto simp: semsleep_def)
  with w s assms(3) [OF s] show ?thesis by auto
qed

lemma sem_inv_sems:
  assumes "sem_inv x" and "n < NSEM" and "count (sems (sy x) n) \<noteq> -1"
  shows "0 \<le> count (sems (sy x) n)" and "count (sems (sy x) n) \<le> bound (sems (sy x) n)"
    and "count (sems (sy x) n) = bound (sems (sy x) n) - downs x n + ups x n"
  using assms unfolding sem_inv_def by auto

lemma sem_inv_open:
  assumes "sem_inv x" and "sem_open sem v (sy x) = (r, s)" and "0 \<le> v"
  shows "sem_inv (if r = 1 then x\<lparr>sy := s, downs := (downs x)(nat sem := 0), ups := (ups x)(nat sem := 0)\<rparr>
                 else x\<lparr>sy := s\<rparr>)"
  using assms by (auto simp: sem_open_def Let_def sem_inv_def split: if_splits)

lemma sem_inv_up:
  assumes "sem_inv x" and "sem_up h sem (sy x) = (r, s)"
  shows "sem_inv (if r = 1 then x\<lparr>sy := s, ups := (ups x)(nat sem := ups x (nat sem) + 1)\<rparr>
                 else x\<lparr>sy := s\<rparr>)"
proof (cases "r = 1")
  case False
  with assms show ?thesis by (auto simp: sem_up_def Let_def split: if_splits)
next
  case True
  let ?k = "nat sem"
  from assms(2) True have ok: "sem_ok sem" and open_c: "count (sems (sy x) ?k) \<noteq> -1"
    and lt: "count (sems (sy x) ?k) \<noteq> bound (sems (sy x) ?k)"
    and s: "s = (sy x)\<lparr>sems := (sems (sy x))(?k := (sems (sy x) ?k)\<lparr>count := count (sems (sy x) ?k) + 1\<rparr>),
       sk := (sk (sy x))\<lparr>procs := wakeup (SemChan ?k) (cur (sk (sy x)) h) (procs (sk (sy x)))\<rparr>\<rparr>"
    by (auto simp: sem_up_def Let_def split: if_splits)
  have si: "sched_inv (sk (sy x))" using assms(1) by (simp add: sem_inv_def)
  have w: "semsleep (sk s) i m \<Longrightarrow> semsleep (sk (sy x)) i m \<and> m \<noteq> ?k" for i m
    using semsleep_up [OF si] assms(1) by (simp add: s sem_inv_def)
  have "sched_inv (sk s)" using sched_inv_wakeup [OF si] by (simp add: s)
  moreover have "semsleep (sk s) i m \<longrightarrow> i < NPROC \<and> count (sems s m) = 0" for i m
    using w [of i m] assms(1) by (auto simp: s sem_inv_def)
  ultimately show ?thesis
    using True assms(1) sem_inv_sems [OF assms(1) sem_ok_nat [OF ok] open_c] lt
    by (auto simp: sem_inv_def s)
qed

lemma sem_inv_sleep:
  assumes "sem_inv x" and "k < NSEM" and "sem_down_loop h k (sy x) = Wait s"
  shows "sem_inv (x\<lparr>sy := s, spc := (spc x)(i := Some k)\<rparr>)"
proof -
  from sem_down_loop_Wait [OF assms(3)] have z: "count (sems (sy x) k) = 0"
    and e: "sems s = sems (sy x)" and sl: "sleep (SemChan k) h (sk (sy x)) = Wait (sk s)" by auto
  have si: "sched_inv (sk (sy x))" using assms(1) by (simp add: sem_inv_def)
  have "semsleep (sk s) i m \<longrightarrow> i < NPROC \<and> count (sems s m) = 0" for i m
    using semsleep_sleep_self [OF sl si, of i m] assms(1) z by (auto simp: e sem_inv_def)
  with sched_inv_sleep [OF sl si] assms(1,2) z show ?thesis by (auto simp: sem_inv_def e)
qed

lemma sem_inv_take:
  assumes "sem_inv x" and "k < NSEM" and "count (sems (sy x) k) \<noteq> -1"
    and "sem_down_loop h k (sy x) = Ok r s"
  shows "r = 1" and "sem_inv (x\<lparr>sy := s, downs := (downs x)(k := downs x k + 1)\<rparr>)"
proof -
  from sem_down_loop_Ok [OF assms(4)] have nz: "count (sems (sy x) k) \<noteq> 0" and r: "r = 1"
    and s: "s = (sy x)\<lparr>sems := (sems (sy x))(k := (sems (sy x) k)\<lparr>count := count (sems (sy x) k) - 1\<rparr>)\<rparr>"
    by auto
  show "r = 1" by (fact r)
  have "semsleep (sk (sy x)) i m \<Longrightarrow> m \<noteq> k" for i m
    using assms(1) nz by (auto simp: sem_inv_def)
  then show "sem_inv (x\<lparr>sy := s, downs := (downs x)(k := downs x k + 1)\<rparr>)"
    using assms(1) sem_inv_sems [OF assms(1-3)] nz by (auto simp: sem_inv_def s)
qed

lemma sem_inv_sleep_return:
  "sem_inv x \<Longrightarrow> sem_inv (x\<lparr>sy := (sy x)\<lparr>sk := sleep_return i (sk (sy x))\<rparr>\<rparr>)"
  by (auto simp: sem_inv_def sched_inv_sleep_return dest: semsleep_sleep_return)

lemma sem_inv_spc_None: "sem_inv x \<Longrightarrow> sem_inv (x\<lparr>spc := (spc x)(i := None)\<rparr>)"
  by (auto simp: sem_inv_def)

lemma sem_down_cases:
  assumes "sem_down h sem s = r"
  obtains (reject) "r = Ok 0 s"
  | (enter) "sem_ok sem" and "count (sems s (nat sem)) \<noteq> -1" and "r = sem_down_loop h (nat sem) s"
  using assms by (auto simp: sem_down_def split: if_splits)

lemma sem_inv_step: "sem_step x y \<Longrightarrow> sem_inv x \<Longrightarrow> sem_inv y"
proof (induction rule: sem_step.induct)
  case (ss_sched x k)
  then have "sched_inv k" using sched_inv_step by (simp add: sem_inv_def)
  with ss_sched.prems show ?case by (auto simp: sem_inv_def dest: ss_sched(2))
next
  case (ss_open sem v x r s)
  then show ?case using sem_inv_open by blast
next
  case (ss_up x h i sem r s)
  then show ?case using sem_inv_up by blast
next
  case (ss_down x h i sem r s)
  from ss_down(3) show ?case
  proof (cases rule: sem_down_cases)
    case reject
    then show ?thesis using ss_down.prems by simp
  next
    case enter
    then have e: "sem_down_loop h (nat sem) (sy x) = Ok r s" by simp
    show ?thesis
      using sem_inv_take [OF ss_down.prems sem_ok_nat [OF enter(1)] enter(2) e] by simp
  qed
next
  case (ss_down_sleep x h i sem s)
  from ss_down_sleep(3) show ?case
  proof (cases rule: sem_down_cases)
    case enter
    then have e: "sem_down_loop h (nat sem) (sy x) = Wait s" by simp
    show ?thesis using sem_inv_sleep [OF ss_down_sleep.prems sem_ok_nat [OF enter(1)] e] .
  qed simp
next
  case (ss_resume x h i k r s)
  let ?x = "x\<lparr>sy := (sy x)\<lparr>sk := sleep_return i (sk (sy x))\<rparr>\<rparr>"
  have k: "k < NSEM" "count (sems (sy ?x) k) \<noteq> -1"
    using ss_resume.prems ss_resume(2) by (auto simp: sem_inv_def)
  have e: "sem_down_loop h k (sy ?x) = Ok r s" using ss_resume(3) by (simp add: sem_down_resume_def)
  from sem_inv_spc_None [OF sem_inv_take(2) [OF sem_inv_sleep_return [OF ss_resume.prems] k e], of i]
  show ?case by simp
next
  case (ss_resume_sleep x h i k s)
  let ?x = "x\<lparr>sy := (sy x)\<lparr>sk := sleep_return i (sk (sy x))\<rparr>\<rparr>"
  have k: "k < NSEM" using ss_resume_sleep.prems ss_resume_sleep(2) by (auto simp: sem_inv_def)
  have e: "sem_down_loop h k (sy ?x) = Wait s"
    using ss_resume_sleep(3) by (simp add: sem_down_resume_def)
  from sem_inv_sleep [OF sem_inv_sleep_return [OF ss_resume_sleep.prems] k e, of i]
  show ?case using ss_resume_sleep(2) by (simp add: fun_upd_idem)
qed

lemma sem_reach_inv: "sem_reach x y \<Longrightarrow> sem_start x \<Longrightarrow> sem_inv y"
proof (induction rule: sem_reach.induct)
  case (se_start x)
  then obtain s where s: "sy x = semaphores_init s" and "sched_start (sk (sy x))"
    and "\<forall>i. spc x i = None" and "\<forall>i n. \<not> semsleep (sk (sy x)) i n"
    by (auto simp: sem_start_def)
  moreover have "count (sems (sy x) n) = -1" if "n < NSEM" for n
    using that by (simp add: s semaphores_init_sems)
  ultimately show ?case using sched_reach_inv [OF sr_start] by (simp add: sem_inv_def)
next
  case (se_step x y z)
  then show ?case using sem_inv_step by blast
qed


subsection \<open>Allocation of a free semaphore\<close>

definition sem_alloc_spec :: "int \<Rightarrow> semsys \<Rightarrow> int \<times> semsys" where
  "sem_alloc_spec v s =
     (case scan_first (\<lambda>k. count (sems s k) = -1) [0..<NSEM] of
        None \<Rightarrow> (-1, s)
      | Some k \<Rightarrow> (int k, s\<lparr>sems := (sems s)(k := (sems s k)\<lparr>count := v, bound := v\<rparr>)\<rparr>))"

lemma get_sem_loop_scan:
  assumes "a \<le> NSEM"
  shows "get_sem_loop (int a) v s =
     (case scan_first (\<lambda>k. count (sems s k) = -1) [a..<NSEM] of
        None \<Rightarrow> (int NSEM, s)
      | Some k \<Rightarrow> (int k, s\<lparr>sems := (sems s)(k := (sems s k)\<lparr>count := v, bound := v\<rparr>)\<rparr>))"
  using assms
proof (induction "NSEM - a" arbitrary: a)
  case 0
  then have a: "a = NSEM" by simp
  then show ?case by (subst get_sem_loop.simps) (simp add: sem_open_def sem_ok_def)
next
  case (Suc m)
  then have a: "a < NSEM" by simp
  then have upt: "[a..<NSEM] = a # [Suc a..<NSEM]" by (simp add: upt_conv_Cons)
  show ?case
  proof (cases "count (sems s a) = -1")
    case True
    with a show ?thesis
      by (subst get_sem_loop.simps) (simp add: sem_open_def sem_ok_int Let_def upt)
  next
    case False
    have "get_sem_loop (int a) v s = get_sem_loop (int (Suc a)) v s"
      using a False by (subst get_sem_loop.simps) (simp add: sem_open_def sem_ok_int Let_def add.commute)
    moreover have "m = NSEM - Suc a" "Suc a \<le> NSEM" using Suc.hyps(2) a by auto
    ultimately show ?thesis using Suc.hyps(1) [of "Suc a"] False by (simp add: upt)
  qed
qed

subsection \<open>Properties of the semaphores\<close>


definition demo_semsys :: semsys where
  "demo_semsys = \<lparr>sk = demo_sched, sems = (\<lambda>_. \<lparr>count = -1, bound = -1\<rparr>)\<rparr>"

definition demo_run :: semrun where
  "demo_run = \<lparr>sy = semaphores_init demo_semsys, spc = (\<lambda>_. None), downs = (\<lambda>_. 0), ups = (\<lambda>_. 0)\<rparr>"

text \<open>Process 0 is dispatched on hart 0, opens semaphore 3 with value 1 and downs it.\<close>

definition demo_run1 :: semrun where
  "demo_run1 = demo_run\<lparr>sy := (sy demo_run)\<lparr>sk := dispatch 0 0 demo_sched\<rparr>\<rparr>"

definition demo_run2 :: semrun where
  "demo_run2 = demo_run1\<lparr>sy := snd (sem_open 3 1 (sy demo_run1)),
     downs := (downs demo_run1)(nat 3 := 0), ups := (ups demo_run1)(nat 3 := 0)\<rparr>"

definition demo_run3 :: semrun where
  "demo_run3 = demo_run2\<lparr>sy := (sy demo_run2)\<lparr>sems := (sems (sy demo_run2))(3 := \<lparr>count = 0, bound = 1\<rparr>)\<rparr>,
     downs := (downs demo_run2)(nat 3 := downs demo_run2 (nat 3) + 1)\<rparr>"

text \<open>A second process, on hart 2, finds the count at 0 and sleeps.\<close>

definition demo_run4 :: semrun where
  "demo_run4 = demo_run3\<lparr>sy := (sy demo_run3)\<lparr>sk := dispatch 2 5 (sk (sy demo_run3))\<rparr>\<rparr>"

definition demo_run5 :: semrun where
  "demo_run5 = demo_run4\<lparr>sy := (case sem_down 2 3 (sy demo_run4) of Wait s \<Rightarrow> s | _ \<Rightarrow> sy demo_run4),
     spc := (spc demo_run4)(5 := Some (nat 3))\<rparr>"

lemma demo_start: "sem_start demo_run"
proof -
  have "sk (sy demo_run) = demo_sched"
    by (simp add: demo_run_def semaphores_init_def demo_semsys_def)
  then show ?thesis
    unfolding sem_start_def
    by (auto simp: demo_run_def sched_start_def demo_sched_def demo_proc_def semsleep_def)
qed

lemma demo_sem3: "sems (sy demo_run1) 3 = \<lparr>count = -1, bound = -1\<rparr>"
  using semaphores_init_sems [of 3 demo_semsys]
  by (simp add: demo_run1_def demo_run_def NSEM_def demo_semsys_def)

lemma demo_sk: "sk (sy demo_run) = demo_sched" "sk (sy demo_run1) = dispatch 0 0 demo_sched"
  by (simp_all add: demo_run1_def demo_run_def semaphores_init_def demo_semsys_def)

lemma semsleep_dispatch: "semsleep (dispatch h i s) j n \<Longrightarrow> semsleep s j n"
  by (auto simp: semsleep_def dispatch_def split: if_splits)

lemma demo_step1: "sem_step demo_run demo_run1"
  unfolding demo_run1_def
proof (rule ss_sched)
  show "sched_step (sk (sy demo_run)) (dispatch 0 0 demo_sched)"
    unfolding demo_sk by (rule st_pick) (simp_all add: demo_sched_def demo_proc_def NPROC_def)
qed (simp add: demo_sk semsleep_dispatch)

lemma demo_open: "sem_open 3 1 (sy demo_run1) =
    (1, (sy demo_run1)\<lparr>sems := (sems (sy demo_run1))(3 := \<lparr>count = 1, bound = 1\<rparr>)\<rparr>)"
  by (simp add: sem_open_def sem_ok_def NSEM_def demo_sem3)

lemma demo_step2: "sem_step demo_run1 demo_run2"
  using ss_open [of 3 1 demo_run1] by (simp add: demo_run2_def demo_open)

lemma demo_run2_simps:
  "sems (sy demo_run2) 3 = \<lparr>count = 1, bound = 1\<rparr>" "sk (sy demo_run2) = dispatch 0 0 demo_sched"
  "spc demo_run2 = (\<lambda>_. None)"
  by (simp_all add: demo_run2_def demo_open demo_sk) (simp add: demo_run1_def demo_run_def)

lemma demo_step3: "sem_step demo_run2 demo_run3"
proof -
  have "sem_down 0 3 (sy demo_run2) =
      Ok 1 ((sy demo_run2)\<lparr>sems := (sems (sy demo_run2))(3 := \<lparr>count = 0, bound = 1\<rparr>)\<rparr>)"
    by (simp add: sem_down_def sem_ok_def NSEM_def sem_down_loop_def demo_run2_simps)
  then show ?thesis
    using ss_down [of demo_run2 0 0 3 1] by (simp add: demo_run3_def demo_run2_simps dispatch_def)
qed

lemma demo_step4: "sem_step demo_run3 demo_run4"
  unfolding demo_run4_def
proof (rule ss_sched)
  show "sched_step (sk (sy demo_run3)) (dispatch 2 5 (sk (sy demo_run3)))"
    by (rule st_pick) (simp_all add: demo_run3_def demo_run2_simps demo_sched_def demo_proc_def
        NPROC_def dispatch_def)
qed (simp add: semsleep_dispatch)

lemma demo_down_sleep:
  "sem_down 2 3 (sy demo_run4) =
     Wait ((sy demo_run4)\<lparr>sk := (sk (sy demo_run4))\<lparr>procs := (procs (sk (sy demo_run4)))
       (5 := (procs (sk (sy demo_run4)) 5)\<lparr>chan := SemChan 3, pstate := SLEEPING\<rparr>),
       cur := (cur (sk (sy demo_run4)))(2 := None)\<rparr>\<rparr>)"
  by (simp add: sem_down_def sem_ok_def NSEM_def sem_down_loop_def sleep_def demo_run4_def
      demo_run3_def dispatch_def)

lemma demo_step5: "sem_step demo_run4 demo_run5"
proof -
  have "cur (sk (sy demo_run4)) 2 = Some 5" "spc demo_run4 5 = None"
    by (simp_all add: demo_run4_def demo_run3_def demo_run2_simps dispatch_def)
  from ss_down_sleep [OF this demo_down_sleep] show ?thesis
    by (simp add: demo_run5_def demo_down_sleep)
qed

lemma demo_reach5: "sem_reach demo_run demo_run5"
  by (rule se_step [OF se_step [OF se_step [OF se_step [OF se_step [OF se_start demo_step1]
    demo_step2] demo_step3] demo_step4] demo_step5])

lemma demo_run5_facts:
  "sems (sy demo_run5) 3 = \<lparr>count = 0, bound = 1\<rparr>" "semsleep (sk (sy demo_run5)) 5 3"
  by (simp_all add: demo_run5_def demo_down_sleep semsleep_def) (simp add: demo_run4_def demo_run3_def)




text \<open>\<^verbatim>\<open>get_sem\<close> opens the closed semaphore of least index with the given value and returns
  the index, and returns -1 with nothing changed when all \<^verbatim>\<open>N\<close> are open.\<close>

theorem get_sem_spec: "get_sem v s = sem_alloc_spec v s"
  using get_sem_loop_scan [of 0 v s]
  by (auto simp: get_sem_def sem_alloc_spec_def split: option.splits dest: scan_first_SomeD)



end
