(* ===== verification/File.thy ===== *)
theory File
  imports Fs_Dir Console Semaphore
begin

section \<open>Open files (kernel/file.c; pipealloc of kernel/pipe.c)\<close>

text \<open>
  The file table over the whole kernel state: the file system, the processes of the harts, the
  pipes (by the address of their page), the physical memory, and the console, semaphores and clock
  that system calls and interrupts use. The process table is the one that
  the sleep locks use. \<open>kend\<close> is the end of the kernel image, \<open>me\<close> the calling process on hart
  \<open>h\<close>. The device switch is an argument: a partial function from major numbers to the routine that
  a driver registers. A file pointer is an index in \<^verbatim>\<open>ftable.file\<close>. The four bytes that padding
  leaves undefined in \<^verbatim>\<open>struct stat\<close> are the argument \<open>pad\<close>.
\<close>

datatype ftype = FD_NONE | FD_PIPE | FD_INODE | FD_DEVICE

record kfile =
  ftyp :: ftype
  fref :: int
  readable :: bool
  writable :: bool
  fpipe :: u64
  fip :: nat
  foff :: nat
  fmajor :: u16

record ksys =
  kfs :: fsys
  kcur :: "nat \<Rightarrow> nat option"
  knext :: int
  kft :: "nat \<Rightarrow> kfile"
  kpipes :: "u64 \<Rightarrow> pipe"
  kmem :: phys
  kuart :: uart
  kcons :: cons
  kpanicked :: bool
  ksems :: "nat \<Rightarrow> semaphore"
  kticks :: u32

type_synonym devfun = "u64 \<Rightarrow> int \<Rightarrow> ksys \<Rightarrow> (int, ksys) res"

definition NFILE :: nat where "NFILE = 100"
definition NDEV :: int where "NDEV = 10"

definition kprocs :: "ksys \<Rightarrow> ptable" where
  "kprocs s = bps (bs (lg (kfs s)))"

definition set_kprocs :: "ptable \<Rightarrow> ksys \<Rightarrow> ksys" where
  "set_kprocs ps s = s\<lparr>kfs := set_ptab ps (kfs s)\<rparr>"

definition upd_file :: "nat \<Rightarrow> (kfile \<Rightarrow> kfile) \<Rightarrow> ksys \<Rightarrow> ksys" where
  "upd_file f g s = s\<lparr>kft := (kft s)(f := g (kft s f))\<rparr>"

definition lift_fs :: "('a, fsys) res \<Rightarrow> ksys \<Rightarrow> ('a, ksys) res" where
  "lift_fs r s = (case r of Ok a t \<Rightarrow> Ok a (s\<lparr>kfs := t\<rparr>) | Panic m \<Rightarrow> Panic m | Wait t \<Rightarrow> Wait (s\<lparr>kfs := t\<rparr>))"

definition lift_log :: "('a, lsys) res \<Rightarrow> ksys \<Rightarrow> ('a, ksys) res" where
  "lift_log r s = lift_fs (lift_lg r (kfs s)) s"

text \<open>The pipe routines run on the part of the state they use.\<close>

definition psys_of :: "u64 \<Rightarrow> ksys \<Rightarrow> psys" where
  "psys_of a s = \<lparr>ks = \<lparr>procs = kprocs s, cur = kcur s, nextpid = knext s\<rparr>, pi = kpipes s a, pm = kmem s\<rparr>"

definition put_psys :: "u64 \<Rightarrow> psys \<Rightarrow> ksys \<Rightarrow> ksys" where
  "put_psys a p s =
     (set_kprocs (procs (ks p)) s)\<lparr>kcur := cur (ks p), kpipes := (kpipes s)(a := pi p), kmem := pm p\<rparr>"

definition lift_pipe :: "u64 \<Rightarrow> psys io \<Rightarrow> ksys \<Rightarrow> (int, ksys) res" where
  "lift_pipe a r s = (case r of Done n p \<Rightarrow> Ok n (put_psys a p s) | Blocked n p \<Rightarrow> Wait (put_psys a p s) | Died m \<Rightarrow> Panic m)"

subsection \<open>The table\<close>

definition filealloc :: "ksys \<Rightarrow> nat option \<times> ksys" where
  "filealloc s =
     (case scan_first (\<lambda>f. fref (kft s f) = 0) [0..<NFILE] of
        Some f \<Rightarrow> (Some f, upd_file f (\<lambda>x. x\<lparr>fref := 1\<rparr>) s)
      | None \<Rightarrow> (None, s))"

definition filedup :: "nat \<Rightarrow> ksys \<Rightarrow> (nat, ksys) res" where
  "filedup f s =
     (if fref (kft s f) < 1 then Panic ''filedup'' else Ok f (upd_file f (\<lambda>x. x\<lparr>fref := fref x + 1\<rparr>) s))"

definition fileclose :: "u64 \<Rightarrow> nat \<Rightarrow> superblock \<Rightarrow> nat \<Rightarrow> ksys \<Rightarrow> (unit, ksys) res" where
  "fileclose kend me sb f s =
     (if fref (kft s f) < 1 then Panic ''fileclose''
      else let s = upd_file f (\<lambda>x. x\<lparr>fref := fref x - 1\<rparr>) s
           in if fref (kft s f) > 0 then Ok () s
              else let ff = kft s f;
                       s = upd_file f (\<lambda>x. x\<lparr>fref := 0, ftyp := FD_NONE\<rparr>) s
                   in case ftyp ff of
                        FD_PIPE \<Rightarrow>
                          (case pipeclose kend (Some me) (fpipe ff) (writable ff) (psys_of (fpipe ff) s) of
                             Ok _ p \<Rightarrow> Ok () (put_psys (fpipe ff) p s)
                           | Panic m \<Rightarrow> Panic m
                           | Wait p \<Rightarrow> Wait (put_psys (fpipe ff) p s))
                      | FD_NONE \<Rightarrow> Ok () s
                      | _ \<Rightarrow>
                          seqr (lift_log (begin_op me (lg (kfs s))) s) (\<lambda>_ s.
                          seqr (lift_fs (iput me sb (fip ff) (kfs s)) s) (\<lambda>_ s.
                          lift_log (end_op me (lg (kfs s))) s)))"

text \<open>The two ends of a new pipe.\<close>

definition pipe_end :: "bool \<Rightarrow> u64 \<Rightarrow> kfile \<Rightarrow> kfile" where
  "pipe_end w a x = x\<lparr>ftyp := FD_PIPE, readable := \<not> w, writable := w, fpipe := a\<rparr>"

definition pipealloc :: "u64 \<Rightarrow> nat \<Rightarrow> superblock \<Rightarrow> ksys \<Rightarrow> ((nat \<times> nat) option, ksys) res" where
  "pipealloc kend me sb s =
     (case filealloc s of
        (None, s) \<Rightarrow> Ok None s
      | (Some f0, s) \<Rightarrow>
          (case filealloc s of
             (None, s) \<Rightarrow> seqr (fileclose kend me sb f0 s) (\<lambda>_ s. Ok None s)
           | (Some f1, s) \<Rightarrow>
               (case kalloc (kmem s) of
                  (a, m) \<Rightarrow>
                    let s = s\<lparr>kmem := m\<rparr>
                    in if a = 0
                       then seqr (fileclose kend me sb f0 s) (\<lambda>_ s. seqr (fileclose kend me sb f1 s) (\<lambda>_ s. Ok None s))
                       else Ok (Some (f0, f1))
                              (upd_file f1 (pipe_end True a) (upd_file f0 (pipe_end False a)
                                 (s\<lparr>kpipes := (kpipes s)(a := pipe_init (kpipes s a))\<rparr>))))))"

subsection \<open>Reading, writing, status\<close>

definition stat_bytes :: "u8 list \<Rightarrow> stat \<Rightarrow> u8 list" where
  "stat_bytes pad st =
     map (put_le 4 0 (st_dev st) (put_le 4 4 (st_ino st) (put_le 2 8 (unat (st_type st)) (put_le 2 10 (unat (st_nlink st))
       (put_le 8 16 (st_size st) (\<lambda>k. pad ! (k - 12))))))) [0..<24]"

definition filestat :: "u8 list \<Rightarrow> nat \<Rightarrow> superblock \<Rightarrow> nat \<Rightarrow> u64 \<Rightarrow> ksys \<Rightarrow> (int, ksys) res" where
  "filestat pad me sb f addr s =
     (if ftyp (kft s f) = FD_INODE \<or> ftyp (kft s f) = FD_DEVICE
      then seqr (lift_fs (ilock me sb (fip (kft s f)) (kfs s)) s) (\<lambda>_ s.
           let st = stati (fip (kft s f)) (kfs s)
           in seqr (lift_fs (iunlock me (fip (kft s f)) (kfs s)) s) (\<lambda>_ s.
              case copyout (pagetable (kprocs s me)) addr (stat_bytes pad st) (kmem s) of
                (r, m) \<Rightarrow> Ok (if r < 0 then -1 else 0) (s\<lparr>kmem := m\<rparr>)))
      else Ok (-1) s)"

definition dev_call :: "(nat \<Rightarrow> devfun option) \<Rightarrow> u16 \<Rightarrow> u64 \<Rightarrow> int \<Rightarrow> ksys \<Rightarrow> (int, ksys) res" where
  "dev_call devsw mj addr n s =
     (if sint mj < 0 \<or> NDEV \<le> sint mj then Ok (-1) s
      else case devsw (nat (sint mj)) of None \<Rightarrow> Ok (-1) s | Some g \<Rightarrow> g addr n s)"

definition fileread :: "(nat \<Rightarrow> devfun option) \<Rightarrow> nat \<Rightarrow> nat \<Rightarrow> superblock \<Rightarrow> nat \<Rightarrow> u64 \<Rightarrow> int \<Rightarrow> ksys \<Rightarrow> (int, ksys) res" where
  "fileread devsw h me sb f addr n s =
     (if \<not> readable (kft s f) then Ok (-1) s
      else case ftyp (kft s f) of
        FD_PIPE \<Rightarrow> lift_pipe (fpipe (kft s f)) (piperead h (fpipe (kft s f)) addr n (psys_of (fpipe (kft s f)) s)) s
      | FD_DEVICE \<Rightarrow> dev_call devsw (fmajor (kft s f)) addr n s
      | FD_INODE \<Rightarrow>
          seqr (lift_fs (ilock me sb (fip (kft s f)) (kfs s)) s) (\<lambda>_ s.
          seqr (lift_fs (readi (\<lambda>tot ys m. either_copyout True (pagetable (kprocs s me)) (addr + of_nat tot) ys m)
                  me sb (fip (kft s f)) (foff (kft s f)) (nat (n mod 2 ^ 32)) (kmem s) (kfs s)) s) (\<lambda>(r, m) s.
          let s = s\<lparr>kmem := m\<rparr>;
              s = (if r > 0 then upd_file f (\<lambda>x. x\<lparr>foff := (foff x + nat r) mod 2 ^ 32\<rparr>) s else s)
          in seqr (lift_fs (iunlock me (fip (kft s f)) (kfs s)) s) (\<lambda>_ s. Ok r s)))
      | FD_NONE \<Rightarrow> Panic ''fileread'')"

text \<open>What \<^verbatim>\<open>either_copyin\<close> of user memory has stored when it returns, and whether it succeeded: it
  copies page after page and stops at the first page that is not mapped.\<close>

primrec copied :: "u64 \<Rightarrow> u64 \<Rightarrow> phys \<Rightarrow> nat \<Rightarrow> u8 list" where
  "copied pt va m 0 = []"
| "copied pt va m (Suc n) = (case copyin pt va (Suc n) m of Some ys \<Rightarrow> ys | None \<Rightarrow> copied pt va m n)"

definition from_user :: "u64 \<Rightarrow> u64 \<Rightarrow> phys \<Rightarrow> nat \<Rightarrow> nat \<Rightarrow> u8 list \<times> bool" where
  "from_user pt va m tot len = (copied pt (va + of_nat tot) m len, copyin pt (va + of_nat tot) len m \<noteq> None)"

definition wr_max :: int where
  "wr_max = ((MAXOPBLOCKS - 1 - 1 - 2) div 2) * int BSIZE"

text \<open>One round of the loop of \<^verbatim>\<open>filewrite\<close>: a transaction that writes \<open>n1\<close> bytes.\<close>

definition filewrite_tx :: "(nat \<Rightarrow> nat \<Rightarrow> u8 list \<times> bool) \<Rightarrow> nat \<Rightarrow> superblock \<Rightarrow> nat \<Rightarrow> int \<Rightarrow> ksys \<Rightarrow> (int, ksys) res" where
  "filewrite_tx src me sb f n1 s =
     seqr (lift_log (begin_op me (lg (kfs s))) s) (\<lambda>_ s.
     seqr (lift_fs (ilock me sb (fip (kft s f)) (kfs s)) s) (\<lambda>_ s.
     seqr (lift_fs (writei src me sb (fip (kft s f)) (foff (kft s f)) (nat n1) (kfs s)) s) (\<lambda>r s.
     let s = (if r > 0 then upd_file f (\<lambda>x. x\<lparr>foff := (foff x + nat r) mod 2 ^ 32\<rparr>) s else s)
     in seqr (lift_fs (iunlock me (fip (kft s f)) (kfs s)) s) (\<lambda>_ s.
        seqr (lift_log (end_op me (lg (kfs s))) s) (\<lambda>_ s. Ok r s)))))"

text \<open>The loop; every round that goes on has written at least one byte, so \<open>n\<close> rounds are enough.\<close>

primrec filewrite_loop :: "nat \<Rightarrow> (int \<Rightarrow> ksys \<Rightarrow> nat \<Rightarrow> nat \<Rightarrow> u8 list \<times> bool) \<Rightarrow> nat \<Rightarrow> superblock \<Rightarrow> nat \<Rightarrow> int \<Rightarrow> int \<Rightarrow> ksys \<Rightarrow> (int, ksys) res" where
  "filewrite_loop 0 src me sb f i n s = Ok (if i = n then n else -1) s"
| "filewrite_loop (Suc k) src me sb f i n s =
     (if i < n
      then let n1 = (if n - i > wr_max then wr_max else n - i)
           in seqr (filewrite_tx (src i s) me sb f n1 s) (\<lambda>r s.
                if r \<noteq> n1 then Ok (if i = n then n else -1) s
                else filewrite_loop k src me sb f (i + r) n s)
      else Ok (if i = n then n else -1) s)"

definition user_src :: "nat \<Rightarrow> u64 \<Rightarrow> int \<Rightarrow> ksys \<Rightarrow> nat \<Rightarrow> nat \<Rightarrow> u8 list \<times> bool" where
  "user_src me addr i s = from_user (pagetable (kprocs s me)) (addr + of_int i) (kmem s)"

definition filewrite :: "(nat \<Rightarrow> devfun option) \<Rightarrow> nat \<Rightarrow> nat \<Rightarrow> superblock \<Rightarrow> nat \<Rightarrow> u64 \<Rightarrow> int \<Rightarrow> ksys \<Rightarrow> (int, ksys) res" where
  "filewrite devsw h me sb f addr n s =
     (if \<not> writable (kft s f) then Ok (-1) s
      else case ftyp (kft s f) of
        FD_PIPE \<Rightarrow> lift_pipe (fpipe (kft s f)) (pipewrite h (fpipe (kft s f)) addr n (psys_of (fpipe (kft s f)) s)) s
      | FD_DEVICE \<Rightarrow> dev_call devsw (fmajor (kft s f)) addr n s
      | FD_INODE \<Rightarrow> filewrite_loop (nat n) (user_src me addr) me sb f 0 n s
      | FD_NONE \<Rightarrow> Panic ''filewrite'')"

subsection \<open>Small kernel states for examples\<close>

definition demo_kernel :: "ptable \<Rightarrow> fsys \<Rightarrow> (nat \<Rightarrow> kfile) \<Rightarrow> phys \<Rightarrow> ksys" where
  "demo_kernel ps fs ft m = \<lparr>kfs = set_ptab ps fs, kcur = [0 \<mapsto> 0], knext = 9, kft = ft,
     kpipes = (\<lambda>_. \<lparr>pdata = (\<lambda>_. 0), nread = 0, nwrite = 0, readopen = False, writeopen = False\<rparr>), kmem = m,
     kuart = \<lparr>tx_buf = (\<lambda>_. 0), tx_w = 0, tx_r = 0, lsr = [], rhr = [], sent = []\<rparr>,
     kcons = \<lparr>cbuf = (\<lambda>_. 0), cr = 0, cw = 0, ce = 0\<rparr>, kpanicked = False, ksems = (\<lambda>_. \<lparr>count = -1, bound = -1\<rparr>), kticks = 0\<rparr>"

definition demo_kfile :: kfile where
  "demo_kfile = \<lparr>ftyp = FD_INODE, fref = 1, readable = True, writable = True, fpipe = 0, fip = 0, foff = 2, fmajor = 1\<rparr>"

lemma demo_kernel_simps [simp]:
  "kprocs (demo_kernel ps fs ft m) = ps" "kft (demo_kernel ps fs ft m) = ft" "kmem (demo_kernel ps fs ft m) = m"
  "kfs (demo_kernel ps fs ft m) = set_ptab ps fs"
  by (simp_all add: demo_kernel_def kprocs_def)

end
