(* ===== verification/Proc.thy ===== *)
theory Proc
  imports File
begin

section \<open>The life of a process (kernel/proc.c)\<close>

text \<open>
  Creation, growth, termination and collection of processes over the whole kernel state:
  \<^verbatim>\<open>allocproc\<close>, \<^verbatim>\<open>freeproc\<close>, \<^verbatim>\<open>userinit\<close>, \<^verbatim>\<open>growproc\<close>, \<^verbatim>\<open>fork\<close>, \<^verbatim>\<open>exit\<close>, \<^verbatim>\<open>wait\<close>,
  \<^verbatim>\<open>killed\<close>. \<open>trampoline\<close> and \<open>forkret\<close> are addresses fixed by the linker, \<open>initp\<close> is
  \<^verbatim>\<open>initproc\<close>. Using the null pointer is a fault, and \<^verbatim>\<open>kerneltrap\<close> panics on it. A process name is the string in its buffer of 16 bytes. \<^verbatim>\<open>wait\<close> is cut where it
  sleeps: it starts over when the process runs again.
\<close>

unbundle bit_operations_syntax

definition upd_proc :: "nat \<Rightarrow> (proc \<Rightarrow> proc) \<Rightarrow> ksys \<Rightarrow> ksys" where
  "upd_proc i f s = set_kprocs ((kprocs s)(i := f (kprocs s i))) s"

definition lift_mem :: "('a, phys) res \<Rightarrow> ksys \<Rightarrow> ('a, ksys) res" where
  "lift_mem r s = (case r of Ok a m \<Rightarrow> Ok a (s\<lparr>kmem := m\<rparr>) | Panic e \<Rightarrow> Panic e | Wait m \<Rightarrow> Wait (s\<lparr>kmem := m\<rparr>))"

definition is_killed :: "nat \<Rightarrow> ksys \<Rightarrow> bool" where
  "is_killed i s = killed (kprocs s i)"

definition freeproc :: "u64 \<Rightarrow> nat \<Rightarrow> ksys \<Rightarrow> (unit, ksys) res" where
  "freeproc kend i s =
     seqr (if trapframe (kprocs s i) \<noteq> 0 then lift_mem (kfree kend (trapframe (kprocs s i)) (kmem s)) s else Ok () s) (\<lambda>_ s.
     let s = upd_proc i (\<lambda>p. p\<lparr>trapframe := 0\<rparr>) s
     in seqr (if pagetable (kprocs s i) \<noteq> 0
              then lift_mem (proc_freepagetable kend (pagetable (kprocs s i)) (sz (kprocs s i)) (kmem s)) s else Ok () s) (\<lambda>_ s.
        Ok () (upd_proc i (\<lambda>p. p\<lparr>pagetable := 0, sz := 0, pid := 0, parent := None, pname := [], chan := NoChan,
                                killed := False, xstate := 0, pstate := UNUSED\<rparr>) s)))"

definition allocproc :: "u64 \<Rightarrow> u64 \<Rightarrow> u64 \<Rightarrow> ksys \<Rightarrow> (nat option, ksys) res" where
  "allocproc kend trampoline forkret s =
     (case scan_first (\<lambda>i. pstate (kprocs s i) = UNUSED) [0..<NPROC] of
        None \<Rightarrow> Ok None s
      | Some i \<Rightarrow>
          let n = knext s;
              s = upd_proc i (\<lambda>p. p\<lparr>pid := n, pstate := USED\<rparr>) (s\<lparr>knext := n + 1\<rparr>)
          in case kalloc (kmem s) of (tf, m) \<Rightarrow>
             let s = upd_proc i (\<lambda>p. p\<lparr>trapframe := tf\<rparr>) (s\<lparr>kmem := m\<rparr>)
             in if tf = 0 then seqr (freeproc kend i s) (\<lambda>_ s. Ok None s)
                else seqr (lift_mem (proc_pagetable kend trampoline (kprocs s i) (kmem s)) s) (\<lambda>pt s.
                  let s = upd_proc i (\<lambda>p. p\<lparr>pagetable := pt\<rparr>) s
                  in if pt = 0 then seqr (freeproc kend i s) (\<lambda>_ s. Ok None s)
                     else Ok (Some i) (upd_proc i (\<lambda>p. p\<lparr>ctx_ra := forkret, ctx_sp := kstack p + PGSIZE\<rparr>) s)))"

definition set_mem64 :: "u64 \<Rightarrow> u64 \<Rightarrow> ksys \<Rightarrow> ksys" where
  "set_mem64 a v s = s\<lparr>kmem := (kmem s)\<lparr>pmem := store64 (pmem (kmem s)) a v\<rparr>\<rparr>"

text \<open>\<^verbatim>\<open>userinit\<close> returns the new value of \<^verbatim>\<open>initproc\<close>; it uses the result of \<^verbatim>\<open>allocproc\<close> unchecked,
  so a failure there is a fault.\<close>

definition userinit :: "u64 \<Rightarrow> u64 \<Rightarrow> u64 \<Rightarrow> nat \<Rightarrow> superblock \<Rightarrow> u8 list \<Rightarrow> ksys \<Rightarrow> (nat, ksys) res" where
  "userinit kend trampoline forkret me sb initcode s =
     seqr (allocproc kend trampoline forkret s) (\<lambda>r s.
       case r of
         None \<Rightarrow> Panic ''null process''
       | Some i \<Rightarrow>
           seqr (lift_mem (uvmfirst (pagetable (kprocs s i)) initcode (kmem s)) s) (\<lambda>_ s.
           let s = upd_proc i (\<lambda>p. p\<lparr>sz := PGSIZE\<rparr>) s;
               s = set_mem64 (trapframe (kprocs s i) + 24) 0 s;
               s = set_mem64 (trapframe (kprocs s i) + 48) PGSIZE s;
               s = upd_proc i (\<lambda>p. p\<lparr>pname := ''initcode''\<rparr>) s
           in seqr (lift_fs (namei me sb 0 [slash] (kfs s)) s) (\<lambda>c s.
              Ok i (upd_proc i (\<lambda>p. p\<lparr>cwd := c, pstate := RUNNABLE\<rparr>) s))))"

definition growproc :: "u64 \<Rightarrow> nat \<Rightarrow> int \<Rightarrow> ksys \<Rightarrow> (int, ksys) res" where
  "growproc kend me n s =
     (let p = kprocs s me
      in if n > 0
         then seqr (lift_mem (uvmalloc kend (pagetable p) (sz p) (sz p + of_int n) PTE_W (kmem s)) s) (\<lambda>z s.
                if z = 0 then Ok (-1) s else Ok 0 (upd_proc me (\<lambda>p. p\<lparr>sz := z\<rparr>) s))
         else if n < 0
         then seqr (lift_mem (uvmdealloc kend (pagetable p) (sz p) (sz p + of_int n) (kmem s)) s) (\<lambda>z s.
                Ok 0 (upd_proc me (\<lambda>p. p\<lparr>sz := z\<rparr>) s))
         else Ok 0 s)"

text \<open>The loop of \<^verbatim>\<open>fork\<close> over the descriptors of the parent.\<close>

primrec fork_files :: "nat \<Rightarrow> nat \<Rightarrow> nat list \<Rightarrow> ksys \<Rightarrow> (unit, ksys) res" where
  "fork_files me np [] s = Ok () s"
| "fork_files me np (fd # fds) s =
     (case ofile (kprocs s me) fd of
        None \<Rightarrow> fork_files me np fds s
      | Some f \<Rightarrow> seqr (filedup f s) (\<lambda>f s.
          fork_files me np fds (upd_proc np (\<lambda>p. p\<lparr>ofile := (ofile p)(fd := Some f)\<rparr>) s)))"

definition copy_trapframe :: "u64 \<Rightarrow> u64 \<Rightarrow> ksys \<Rightarrow> ksys" where
  "copy_trapframe dst src s =
     s\<lparr>kmem := (kmem s)\<lparr>pmem := write_bytes (pmem (kmem s)) dst (read_bytes (pmem (kmem s)) src 288)\<rparr>\<rparr>"

text \<open>\<^verbatim>\<open>fork\<close> after user memory has been copied to the new process \<open>np\<close>.\<close>

definition fork_child :: "nat \<Rightarrow> nat \<Rightarrow> ksys \<Rightarrow> (int, ksys) res" where
  "fork_child me np s =
     (let s = upd_proc np (\<lambda>p. p\<lparr>sz := sz (kprocs s me)\<rparr>) s;
          s = copy_trapframe (trapframe (kprocs s np)) (trapframe (kprocs s me)) s;
          s = set_mem64 (trapframe (kprocs s np) + 112) 0 s
      in seqr (fork_files me np [0..<NOFILE] s) (\<lambda>_ s.
         seqr (case cwd (kprocs s me) of None \<Rightarrow> Panic ''kerneltrap''
               | Some c \<Rightarrow> seqr (lift_fs (idup c (kfs s)) s) (\<lambda>c s. Ok (Some c) s)) (\<lambda>c s.
         let s = upd_proc np (\<lambda>p. p\<lparr>cwd := c, pname := take 15 (pname (kprocs s me))\<rparr>) s;
             n = pid (kprocs s np);
             s = upd_proc np (\<lambda>p. p\<lparr>parent := Some me\<rparr>) s
         in Ok n (upd_proc np (\<lambda>p. p\<lparr>pstate := RUNNABLE\<rparr>) s))))"

definition fork :: "u64 \<Rightarrow> u64 \<Rightarrow> u64 \<Rightarrow> nat \<Rightarrow> ksys \<Rightarrow> (int, ksys) res" where
  "fork kend trampoline forkret me s =
     seqr (allocproc kend trampoline forkret s) (\<lambda>r s.
       case r of
         None \<Rightarrow> Ok (-1) s
       | Some np \<Rightarrow>
           seqr (lift_mem (uvmcopy kend (pagetable (kprocs s me)) (pagetable (kprocs s np)) (sz (kprocs s me)) (kmem s)) s) (\<lambda>c s.
           if c < 0 then seqr (freeproc kend np s) (\<lambda>_ s. Ok (-1) s) else fork_child me np s))"

primrec exit_files :: "u64 \<Rightarrow> nat \<Rightarrow> superblock \<Rightarrow> nat list \<Rightarrow> ksys \<Rightarrow> (unit, ksys) res" where
  "exit_files kend me sb [] s = Ok () s"
| "exit_files kend me sb (fd # fds) s =
     (case ofile (kprocs s me) fd of
        None \<Rightarrow> exit_files kend me sb fds s
      | Some f \<Rightarrow> seqr (fileclose kend me sb f s) (\<lambda>_ s.
          exit_files kend me sb fds (upd_proc me (\<lambda>p. p\<lparr>ofile := (ofile p)(fd := None)\<rparr>) s)))"

definition parent_chan :: "nat option \<Rightarrow> chan" where
  "parent_chan q = (case q of None \<Rightarrow> NoChan | Some i \<Rightarrow> ProcChan i)"

text \<open>\<^verbatim>\<open>exit\<close> ends in the scheduler: \<open>Wait\<close> is its regular outcome. \<open>exit_finish\<close> is the part under
  \<^verbatim>\<open>wait_lock\<close>, after files and directory have been released.\<close>

definition exit_finish :: "nat \<Rightarrow> nat \<Rightarrow> nat \<Rightarrow> int \<Rightarrow> ksys \<Rightarrow> ksys" where
  "exit_finish h me initp status s =
     (let s = set_kprocs (reparent initp me (Some me) (kprocs s)) s;
          s = set_kprocs (wakeup (parent_chan (parent (kprocs s me))) (Some me) (kprocs s)) s;
          s = upd_proc me (\<lambda>p. p\<lparr>xstate := status, pstate := ZOMBIE\<rparr>) s
      in s\<lparr>kcur := (kcur s)(h := None)\<rparr>)"

definition exit :: "u64 \<Rightarrow> nat \<Rightarrow> nat \<Rightarrow> superblock \<Rightarrow> nat \<Rightarrow> int \<Rightarrow> ksys \<Rightarrow> (unit, ksys) res" where
  "exit kend h me sb initp status s =
     (if me = initp then Panic ''init exiting''
      else seqr (exit_files kend me sb [0..<NOFILE] s) (\<lambda>_ s.
           seqr (lift_log (begin_op me (lg (kfs s))) s) (\<lambda>_ s.
           seqr (case cwd (kprocs s me) of None \<Rightarrow> Panic ''kerneltrap'' | Some c \<Rightarrow> lift_fs (iput me sb c (kfs s)) s) (\<lambda>_ s.
           seqr (lift_log (end_op me (lg (kfs s))) s) (\<lambda>_ s.
           Wait (exit_finish h me initp status (upd_proc me (\<lambda>p. p\<lparr>cwd := None\<rparr>) s)))))))"

definition xstate_bytes :: "int \<Rightarrow> u8 list" where
  "xstate_bytes v = map (put_le 4 0 (nat (v mod 2 ^ 32)) (\<lambda>_. 0)) [0..<4]"

definition wait :: "u64 \<Rightarrow> nat \<Rightarrow> nat \<Rightarrow> u64 \<Rightarrow> ksys \<Rightarrow> (int, ksys) res" where
  "wait kend h me addr s =
     (case scan_first (\<lambda>i. parent (kprocs s i) = Some me \<and> pstate (kprocs s i) = ZOMBIE) [0..<NPROC] of
        Some i \<Rightarrow>
          let n = pid (kprocs s i)
          in (case (if addr \<noteq> 0 then copyout (pagetable (kprocs s me)) addr (xstate_bytes (xstate (kprocs s i))) (kmem s) else (0, kmem s)) of
                (r, m) \<Rightarrow>
                  let s = s\<lparr>kmem := m\<rparr>
                  in if r < 0 then Ok (-1) s
                     else seqr (freeproc kend i s) (\<lambda>_ s. Ok n s))
      | None \<Rightarrow>
          if (\<forall>i < NPROC. parent (kprocs s i) \<noteq> Some me) \<or> is_killed me s then Ok (-1) s
          else Wait ((upd_proc me (\<lambda>p. p\<lparr>chan := ProcChan me, pstate := SLEEPING\<rparr>) s)\<lparr>kcur := (kcur s)(h := None)\<rparr>))"

subsection \<open>The process table in the kernel state\<close>

lemma kprocs_simps [simp]:
  "kprocs (s\<lparr>kmem := m\<rparr>) = kprocs s" "kprocs (s\<lparr>kft := ft\<rparr>) = kprocs s" "kprocs (s\<lparr>kcur := c\<rparr>) = kprocs s"
  "kprocs (s\<lparr>kpipes := ppp\<rparr>) = kprocs s" "kprocs (s\<lparr>knext := n\<rparr>) = kprocs s" "kprocs (s\<lparr>kticks := k\<rparr>) = kprocs s"
  "kprocs (s\<lparr>kuart := u\<rparr>) = kprocs s" "kprocs (s\<lparr>kcons := c'\<rparr>) = kprocs s" "kprocs (s\<lparr>kpanicked := b\<rparr>) = kprocs s"
  "kprocs (s\<lparr>ksems := sm\<rparr>) = kprocs s" "kprocs (set_kprocs ps s) = ps"
  by (simp_all add: kprocs_def set_kprocs_def set_ptab_def)

lemma kft_simps [simp]: "kft (set_kprocs ps s) = kft s" "kft (upd_proc i f s) = kft s" "kft (set_mem64 a v s) = kft s"
  by (simp_all add: set_kprocs_def upd_proc_def set_mem64_def)

lemma kprocs_upd [simp]: "kprocs (upd_proc i f s) = (kprocs s)(i := f (kprocs s i))" "kprocs (upd_file g h s) = kprocs s"
  "kprocs (set_mem64 a v s) = kprocs s" "kprocs (copy_trapframe a b s) = kprocs s"
  by (simp_all add: upd_proc_def upd_file_def set_mem64_def copy_trapframe_def)

subsection \<open>Exit and wait\<close>

text \<open>A collected process: its slot as \<^verbatim>\<open>freeproc\<close> leaves it.\<close>

definition cleared :: "proc \<Rightarrow> proc" where
  "cleared p = p\<lparr>trapframe := 0, pagetable := 0, sz := 0, pid := 0, parent := None, pname := [], chan := NoChan,
                 killed := False, xstate := 0, pstate := UNUSED\<rparr>"

lemma lift_mem_procs: "lift_mem r s = Ok a t \<Longrightarrow> kprocs t = kprocs s"
  by (cases r) (auto simp: lift_mem_def)

lemma freeproc_procs: "freeproc kend i s = Ok u t \<Longrightarrow> kprocs t = (kprocs s)(i := cleared (kprocs s i))"
  by (auto simp: freeproc_def seqr_eq_Ok Let_def cleared_def fun_eq_iff dest!: lift_mem_procs split: if_splits)

lemma exit_finish_procs:
  assumes "parent (kprocs s me) = Some q" and "q \<noteq> me" and "me \<noteq> initp" and "me < NPROC"
    and t: "t = exit_finish h me initp status s"
  shows "pstate (kprocs t me) = ZOMBIE" and "xstate (kprocs t me) = status" and "parent (kprocs t me) = Some q"
    and "pid (kprocs t me) = pid (kprocs s me)"
    and "q < NPROC \<Longrightarrow> pstate (kprocs s q) = SLEEPING \<Longrightarrow> chan (kprocs s q) = ProcChan q \<Longrightarrow> pstate (kprocs t q) = RUNNABLE"
    and "i < NPROC \<Longrightarrow> parent (kprocs s i) = Some me \<Longrightarrow> parent (kprocs t i) = Some initp"
  using assms(1-4) unfolding t
  by (auto simp: exit_finish_def Let_def reparent_eq reparent_upto_def wakeup_eq wake_one_def parent_chan_def)

lemma wait_finds:
  assumes "i < NPROC" and "parent (kprocs s i) = Some me" and "pstate (kprocs s i) = ZOMBIE"
  obtains j where "j \<le> i" and "parent (kprocs s j) = Some me" and "pstate (kprocs s j) = ZOMBIE"
    and "\<forall>k < j. \<not> (parent (kprocs s k) = Some me \<and> pstate (kprocs s k) = ZOMBIE)"
    and "wait kend h me 0 s = seqr (freeproc kend j s) (\<lambda>_ t. Ok (pid (kprocs s j)) t)"
proof -
  let ?P = "\<lambda>i. parent (kprocs s i) = Some me \<and> pstate (kprocs s i) = ZOMBIE"
  obtain j where j: "scan_first ?P [0..<NPROC] = Some j" using scan_first_exists [of i "[0..<NPROC]" ?P] assms by auto
  have lo: "\<not> ?P k" if "k < j" for k using scan_first_upt_least [OF j _ that] by simp
  have "j \<le> i" using lo [of i] assms(2,3) by (auto simp: not_less [symmetric])
  moreover have "?P j" using scan_first_SomeD [OF j] by simp
  moreover have "wait kend h me 0 s = seqr (freeproc kend j s) (\<lambda>_ t. Ok (pid (kprocs s j)) t)"
    by (simp add: wait_def j)
  ultimately show thesis using that lo by blast
qed


definition demo_family :: ksys where
  "demo_family = demo_kernel (\<lambda>i. if i = 1 then idle_proc\<lparr>pid := 4, pstate := SLEEPING, chan := ProcChan 1\<rparr>
     else if i = 2 then idle_proc\<lparr>pid := 5, pstate := RUNNING, parent := Some 1\<rparr> else idle_proc) demo_fs (\<lambda>_. demo_kfile) demo_vm"


end
