(* ===== verification/Sysfile.thy ===== *)
theory Sysfile
  imports Proc
begin

section \<open>System calls on files (kernel/sysfile.c; arguments, kernel/syscall.c; kernel/exec.c)\<close>

text \<open>
  The system calls of process \<open>me\<close>, running on hart \<open>h\<close>. Their arguments are the registers saved
  in the trap frame, a page of physical memory. \<open>kenv\<close> collects what is fixed after boot: the
  addresses chosen by the linker, the super block, the first process, the device switch. Path names
  are copied to the kernel stack and appear as lists of bytes; the argument strings of
  \<^verbatim>\<open>exec\<close> are in pages of physical memory. Results of type \<^verbatim>\<open>uint64\<close> are given as the signed
  number they come from.
\<close>

record kenv =
  e_end :: u64
  e_trampoline :: u64
  e_forkret :: u64
  e_sb :: superblock
  e_init :: nat
  e_devread :: "nat \<Rightarrow> devfun option"
  e_devwrite :: "nat \<Rightarrow> devfun option"
  e_pad :: "u8 list"

definition MAXPATH :: nat where "MAXPATH = 128"
definition MAXARG :: nat where "MAXARG = 32"
definition O_RDONLY :: int where "O_RDONLY = 0"
definition O_WRONLY :: int where "O_WRONLY = 1"
definition O_RDWR :: int where "O_RDWR = 2"
definition O_CREATE :: int where "O_CREATE = 0x200"
definition O_TRUNC :: int where "O_TRUNC = 0x400"

definition has_flag :: "int \<Rightarrow> int \<Rightarrow> bool" where
  "has_flag omode fl \<longleftrightarrow> omode AND fl \<noteq> 0"

subsection \<open>Arguments\<close>

definition fetchaddr :: "nat \<Rightarrow> u64 \<Rightarrow> ksys \<Rightarrow> u64 option" where
  "fetchaddr me addr s =
     (let p = kprocs s me
      in if sz p \<le> addr \<or> sz p < addr + 8 then None
         else map_option (\<lambda>ys. of_nat (get_le 8 (\<lambda>k. ys ! k) 0)) (copyin (pagetable p) addr 8 (kmem s)))"

text \<open>The string copied; \<^verbatim>\<open>fetchstr\<close> returns its length.\<close>

definition fetchstr :: "nat \<Rightarrow> u64 \<Rightarrow> nat \<Rightarrow> ksys \<Rightarrow> u8 list option" where
  "fetchstr me addr mx s = copyinstr (pagetable (kprocs s me)) addr mx (kmem s)"

definition argraw :: "nat \<Rightarrow> nat \<Rightarrow> ksys \<Rightarrow> (u64, ksys) res" where
  "argraw me n s =
     (if n \<le> 5 then Ok (load64 (pmem (kmem s)) (trapframe (kprocs s me) + of_nat (112 + 8 * n))) s
      else Panic ''argraw'')"

definition argint :: "nat \<Rightarrow> nat \<Rightarrow> ksys \<Rightarrow> (int, ksys) res" where
  "argint me n s = seqr (argraw me n s) (\<lambda>a s. Ok (sint (ucast a :: u32)) s)"

definition argaddr :: "nat \<Rightarrow> nat \<Rightarrow> ksys \<Rightarrow> (u64, ksys) res" where
  "argaddr me n s = argraw me n s"

definition argstr :: "nat \<Rightarrow> nat \<Rightarrow> nat \<Rightarrow> ksys \<Rightarrow> (u8 list option, ksys) res" where
  "argstr me n mx s = seqr (argaddr me n s) (\<lambda>a s. Ok (fetchstr me a mx s) s)"

text \<open>The descriptor and its file.\<close>

definition argfd :: "nat \<Rightarrow> nat \<Rightarrow> ksys \<Rightarrow> ((nat \<times> nat) option, ksys) res" where
  "argfd me n s =
     seqr (argint me n s) (\<lambda>fd s.
       if fd < 0 \<or> int NOFILE \<le> fd then Ok None s
       else case ofile (kprocs s me) (nat fd) of None \<Rightarrow> Ok None s | Some f \<Rightarrow> Ok (Some (nat fd, f)) s)"

definition set_ofile :: "nat \<Rightarrow> nat \<Rightarrow> nat option \<Rightarrow> ksys \<Rightarrow> ksys" where
  "set_ofile me fd x = upd_proc me (\<lambda>p. p\<lparr>ofile := (ofile p)(fd := x)\<rparr>)"

definition fdalloc :: "nat \<Rightarrow> nat \<Rightarrow> ksys \<Rightarrow> nat option \<times> ksys" where
  "fdalloc me f s =
     (case scan_first (\<lambda>fd. ofile (kprocs s me) fd = None) [0..<NOFILE] of
        Some fd \<Rightarrow> (Some fd, set_ofile me fd (Some f) s)
      | None \<Rightarrow> (None, s))"

subsection \<open>Descriptors\<close>

definition sys_dup :: "nat \<Rightarrow> ksys \<Rightarrow> (int, ksys) res" where
  "sys_dup me s =
     seqr (argfd me 0 s) (\<lambda>r s.
       case r of
         None \<Rightarrow> Ok (-1) s
       | Some (_, f) \<Rightarrow>
           (case fdalloc me f s of
              (None, s) \<Rightarrow> Ok (-1) s
            | (Some fd, s) \<Rightarrow> seqr (filedup f s) (\<lambda>_ s. Ok (int fd) s)))"

definition sys_read :: "kenv \<Rightarrow> nat \<Rightarrow> nat \<Rightarrow> ksys \<Rightarrow> (int, ksys) res" where
  "sys_read e h me s =
     seqr (argaddr me 1 s) (\<lambda>p s. seqr (argint me 2 s) (\<lambda>n s. seqr (argfd me 0 s) (\<lambda>r s.
       case r of None \<Rightarrow> Ok (-1) s | Some (_, f) \<Rightarrow> fileread (e_devread e) h me (e_sb e) f p n s)))"

definition sys_write :: "kenv \<Rightarrow> nat \<Rightarrow> nat \<Rightarrow> ksys \<Rightarrow> (int, ksys) res" where
  "sys_write e h me s =
     seqr (argaddr me 1 s) (\<lambda>p s. seqr (argint me 2 s) (\<lambda>n s. seqr (argfd me 0 s) (\<lambda>r s.
       case r of None \<Rightarrow> Ok (-1) s | Some (_, f) \<Rightarrow> filewrite (e_devwrite e) h me (e_sb e) f p n s)))"

definition sys_close :: "kenv \<Rightarrow> nat \<Rightarrow> ksys \<Rightarrow> (int, ksys) res" where
  "sys_close e me s =
     seqr (argfd me 0 s) (\<lambda>r s.
       case r of
         None \<Rightarrow> Ok (-1) s
       | Some (fd, f) \<Rightarrow> seqr (fileclose (e_end e) me (e_sb e) f (set_ofile me fd None s)) (\<lambda>_ s. Ok 0 s))"

definition sys_fstat :: "kenv \<Rightarrow> nat \<Rightarrow> ksys \<Rightarrow> (int, ksys) res" where
  "sys_fstat e me s =
     seqr (argaddr me 1 s) (\<lambda>st s. seqr (argfd me 0 s) (\<lambda>r s.
       case r of None \<Rightarrow> Ok (-1) s | Some (_, f) \<Rightarrow> filestat (e_pad e) me (e_sb e) f st s))"

definition int_bytes :: "int \<Rightarrow> u8 list" where
  "int_bytes v = map (put_le 4 0 (nat (v mod 2 ^ 32)) (\<lambda>_. 0)) [0..<4]"

definition close_two :: "kenv \<Rightarrow> nat \<Rightarrow> nat \<Rightarrow> nat \<Rightarrow> ksys \<Rightarrow> (int, ksys) res" where
  "close_two e me fr fw s =
     seqr (fileclose (e_end e) me (e_sb e) fr s) (\<lambda>_ s.
     seqr (fileclose (e_end e) me (e_sb e) fw s) (\<lambda>_ s. Ok (-1) s))"

text \<open>The descriptors for the two ends of a new pipe, stored at \<open>fdarray\<close>.\<close>

definition pipe_fds :: "kenv \<Rightarrow> nat \<Rightarrow> u64 \<Rightarrow> nat \<Rightarrow> nat \<Rightarrow> ksys \<Rightarrow> (int, ksys) res" where
  "pipe_fds e me fdarray fr fw s =
     (case fdalloc me fr s of
        (None, s) \<Rightarrow> close_two e me fr fw s
      | (Some fd0, s) \<Rightarrow>
          (case fdalloc me fw s of
             (None, s) \<Rightarrow> close_two e me fr fw (set_ofile me fd0 None s)
           | (Some fd1, s) \<Rightarrow>
               (case copyout (pagetable (kprocs s me)) fdarray (int_bytes (int fd0)) (kmem s) of
                  (r0, m) \<Rightarrow>
                    let s = s\<lparr>kmem := m\<rparr>
                    in if r0 < 0 then close_two e me fr fw (set_ofile me fd1 None (set_ofile me fd0 None s))
                       else (case copyout (pagetable (kprocs s me)) (fdarray + 4) (int_bytes (int fd1)) (kmem s) of
                               (r1, m) \<Rightarrow>
                                 let s = s\<lparr>kmem := m\<rparr>
                                 in if r1 < 0 then close_two e me fr fw (set_ofile me fd1 None (set_ofile me fd0 None s))
                                    else Ok 0 s))))"

definition sys_pipe :: "kenv \<Rightarrow> nat \<Rightarrow> ksys \<Rightarrow> (int, ksys) res" where
  "sys_pipe e me s =
     seqr (argaddr me 0 s) (\<lambda>fdarray s.
     seqr (pipealloc (e_end e) me (e_sb e) s) (\<lambda>r s.
       case r of None \<Rightarrow> Ok (-1) s | Some (fr, fw) \<Rightarrow> pipe_fds e me fdarray fr fw s))"

subsection \<open>Paths\<close>

text \<open>A path routine with the current directory of the process; a relative path needs one.\<close>

definition with_cwd :: "nat \<Rightarrow> u8 list \<Rightarrow> (nat \<Rightarrow> fsys \<Rightarrow> ('a, fsys) res) \<Rightarrow> ksys \<Rightarrow> ('a, ksys) res" where
  "with_cwd me path f s =
     (case cwd (kprocs s me) of
        Some c \<Rightarrow> lift_fs (f c (kfs s)) s
      | None \<Rightarrow> if first_byte path = slash then lift_fs (f 0 (kfs s)) s else Panic ''kerneltrap'')"

text \<open>\<^verbatim>\<open>end_op\<close> before a return.\<close>

definition finish :: "nat \<Rightarrow> 'a \<Rightarrow> ksys \<Rightarrow> ('a, ksys) res" where
  "finish me r s = seqr (lift_log (end_op me (lg (kfs s))) s) (\<lambda>_ s. Ok r s)"

definition put_finish :: "kenv \<Rightarrow> nat \<Rightarrow> nat \<Rightarrow> 'a \<Rightarrow> ksys \<Rightarrow> ('a, ksys) res" where
  "put_finish e me ip r s = seqr (lift_fs (iunlockput me (e_sb e) ip (kfs s)) s) (\<lambda>_ s. finish me r s)"

definition add_nlink :: "nat \<Rightarrow> u16 \<Rightarrow> fsys \<Rightarrow> fsys" where
  "add_nlink ip k = upd_ino ip (\<lambda>x. x\<lparr>idata := (idata x)\<lparr>dnlink := dnlink (idata x) + k\<rparr>\<rparr>)"

definition link_bad :: "kenv \<Rightarrow> nat \<Rightarrow> nat \<Rightarrow> ksys \<Rightarrow> (int, ksys) res" where
  "link_bad e me ip s =
     seqr (lift_fs (ilock me (e_sb e) ip (kfs s)) s) (\<lambda>_ s.
     seqr (lift_fs (iupdate me (e_sb e) ip (add_nlink ip (-1) (kfs s))) s) (\<lambda>_ s.
     put_finish e me ip (-1) s))"

definition sys_link :: "kenv \<Rightarrow> nat \<Rightarrow> ksys \<Rightarrow> (int, ksys) res" where
  "sys_link e me s =
     seqr (argstr me 0 MAXPATH s) (\<lambda>old s. case old of None \<Rightarrow> Ok (-1) s | Some old \<Rightarrow>
     seqr (argstr me 1 MAXPATH s) (\<lambda>new s. case new of None \<Rightarrow> Ok (-1) s | Some new \<Rightarrow>
     seqr (lift_log (begin_op me (lg (kfs s))) s) (\<lambda>_ s.
     seqr (with_cwd me old (\<lambda>c. namei me (e_sb e) c old) s) (\<lambda>ip s.
       case ip of
         None \<Rightarrow> finish me (-1) s
       | Some ip \<Rightarrow>
           seqr (lift_fs (ilock me (e_sb e) ip (kfs s)) s) (\<lambda>_ s.
           if dtype (idata (itab (kfs s) ip)) = T_DIR then put_finish e me ip (-1) s
           else seqr (lift_fs (iupdate me (e_sb e) ip (add_nlink ip 1 (kfs s))) s) (\<lambda>_ s.
             seqr (lift_fs (iunlock me ip (kfs s)) s) (\<lambda>_ s.
             seqr (with_cwd me new (\<lambda>c. nameiparent me (e_sb e) c new) s) (\<lambda>r s.
               case r of
                 None \<Rightarrow> link_bad e me ip s
               | Some (dp, name) \<Rightarrow>
                   seqr (lift_fs (ilock me (e_sb e) dp (kfs s)) s) (\<lambda>_ s.
                   seqr (if idev (itab (kfs s) dp) \<noteq> idev (itab (kfs s) ip) then Ok (-1) s
                         else lift_fs (dirlink me (e_sb e) dp name (inum (itab (kfs s) ip)) (kfs s)) s) (\<lambda>d s.
                   seqr (lift_fs (iunlockput me (e_sb e) dp (kfs s)) s) (\<lambda>_ s.
                   if d < 0 then link_bad e me ip s
                   else seqr (lift_fs (iput me (e_sb e) ip (kfs s)) s) (\<lambda>_ s. finish me 0 s))))))))))))"

text \<open>The loop of \<^verbatim>\<open>isdirempty\<close> over the offsets behind the entries for dot and dot-dot.\<close>

primrec isdirempty_loop :: "nat \<Rightarrow> superblock \<Rightarrow> nat \<Rightarrow> nat list \<Rightarrow> fsys \<Rightarrow> (bool, fsys) res" where
  "isdirempty_loop me sb dp [] s = Ok True s"
| "isdirempty_loop me sb dp (off # offs) s =
     seqr (readi collect me sb dp off 16 [] s) (\<lambda>(r, de) s.
       if r \<noteq> 16 then Panic ''isdirempty: readi''
       else if de_inum de \<noteq> 0 then Ok False s
       else isdirempty_loop me sb dp offs s)"

definition isdirempty :: "nat \<Rightarrow> superblock \<Rightarrow> nat \<Rightarrow> fsys \<Rightarrow> (bool, fsys) res" where
  "isdirempty me sb dp s = isdirempty_loop me sb dp (drop 2 (dir_offs (dsize (idata (itab s dp))))) s"

definition dot :: "u8 list" where "dot = [46]"
definition dotdot :: "u8 list" where "dotdot = [46, 46]"

definition sys_unlink :: "kenv \<Rightarrow> nat \<Rightarrow> ksys \<Rightarrow> (int, ksys) res" where
  "sys_unlink e me s =
     seqr (argstr me 0 MAXPATH s) (\<lambda>path s. case path of None \<Rightarrow> Ok (-1) s | Some path \<Rightarrow>
     seqr (lift_log (begin_op me (lg (kfs s))) s) (\<lambda>_ s.
     seqr (with_cwd me path (\<lambda>c. nameiparent me (e_sb e) c path) s) (\<lambda>r s.
       case r of
         None \<Rightarrow> finish me (-1) s
       | Some (dp, name) \<Rightarrow>
           seqr (lift_fs (ilock me (e_sb e) dp (kfs s)) s) (\<lambda>_ s.
           if namecmp name dot = 0 \<or> namecmp name dotdot = 0 then put_finish e me dp (-1) s
           else seqr (lift_fs (dirlookup me (e_sb e) dp name (kfs s)) s) (\<lambda>r s.
             case r of
               None \<Rightarrow> put_finish e me dp (-1) s
             | Some (ip, off) \<Rightarrow>
                 seqr (lift_fs (ilock me (e_sb e) ip (kfs s)) s) (\<lambda>_ s.
                 if sint (dnlink (idata (itab (kfs s) ip))) < 1 then Panic ''unlink: nlink < 1''
                 else seqr (if dtype (idata (itab (kfs s) ip)) = T_DIR
                            then lift_fs (isdirempty me (e_sb e) ip (kfs s)) s else Ok True s) (\<lambda>emp s.
                   if \<not> emp then seqr (lift_fs (iunlockput me (e_sb e) ip (kfs s)) s) (\<lambda>_ s. put_finish e me dp (-1) s)
                   else seqr (lift_fs (writei (from_list (replicate 16 0)) me (e_sb e) dp off 16 (kfs s)) s) (\<lambda>w s.
                     if w \<noteq> 16 then Panic ''unlink: writei''
                     else seqr (if dtype (idata (itab (kfs s) ip)) = T_DIR
                                then lift_fs (iupdate me (e_sb e) dp (add_nlink dp (-1) (kfs s))) s else Ok () s) (\<lambda>_ s.
                       seqr (lift_fs (iunlockput me (e_sb e) dp (kfs s)) s) (\<lambda>_ s.
                       seqr (lift_fs (iupdate me (e_sb e) ip (add_nlink ip (-1) (kfs s))) s) (\<lambda>_ s.
                       put_finish e me ip 0 s)))))))))))"

text \<open>\<^verbatim>\<open>create\<close>, on the file system of a process whose current directory is \<open>c\<close>; the label
  \<^verbatim>\<open>fail\<close> is \<open>create_fail\<close>.\<close>

definition create_fail :: "nat \<Rightarrow> superblock \<Rightarrow> nat \<Rightarrow> nat \<Rightarrow> fsys \<Rightarrow> (nat option, fsys) res" where
  "create_fail me sb ip dp s =
     seqr (iupdate me sb ip (upd_ino ip (\<lambda>x. x\<lparr>idata := (idata x)\<lparr>dnlink := 0\<rparr>\<rparr>) s)) (\<lambda>_ s.
     seqr (iunlockput me sb ip s) (\<lambda>_ s.
     seqr (iunlockput me sb dp s) (\<lambda>_ s. Ok None s)))"

definition create :: "nat \<Rightarrow> superblock \<Rightarrow> nat \<Rightarrow> u8 list \<Rightarrow> u16 \<Rightarrow> u16 \<Rightarrow> u16 \<Rightarrow> fsys \<Rightarrow> (nat option, fsys) res" where
  "create me sb c path ty mj mn s =
     seqr (nameiparent me sb c path s) (\<lambda>r s.
       case r of
         None \<Rightarrow> Ok None s
       | Some (dp, name) \<Rightarrow>
           seqr (ilock me sb dp s) (\<lambda>_ s.
           seqr (dirlookup me sb dp name s) (\<lambda>r s.
             case r of
               Some (ip, _) \<Rightarrow>
                 seqr (iunlockput me sb dp s) (\<lambda>_ s.
                 seqr (ilock me sb ip s) (\<lambda>_ s.
                 if ty = T_FILE \<and> (dtype (idata (itab s ip)) = T_FILE \<or> dtype (idata (itab s ip)) = T_DEVICE)
                 then Ok (Some ip) s
                 else seqr (iunlockput me sb ip s) (\<lambda>_ s. Ok None s)))
             | None \<Rightarrow>
                 seqr (ialloc me sb (idev (itab s dp)) ty s) (\<lambda>r s.
                   case r of
                     None \<Rightarrow> seqr (iunlockput me sb dp s) (\<lambda>_ s. Ok None s)
                   | Some ip \<Rightarrow>
                       seqr (ilock me sb ip s) (\<lambda>_ s.
                       seqr (iupdate me sb ip (upd_ino ip (\<lambda>x. x\<lparr>idata := (idata x)\<lparr>dmajor := mj, dminor := mn, dnlink := 1\<rparr>\<rparr>) s)) (\<lambda>_ s.
                       seqr (if ty = T_DIR
                             then seqr (dirlink me sb ip dot (inum (itab s ip)) s) (\<lambda>r s.
                                    if r < 0 then Ok r s else dirlink me sb ip dotdot (inum (itab s dp)) s)
                             else Ok 0 s) (\<lambda>r s.
                         if r < 0 then create_fail me sb ip dp s
                         else seqr (dirlink me sb dp name (inum (itab s ip)) s) (\<lambda>r s.
                           if r < 0 then create_fail me sb ip dp s
                           else seqr (if ty = T_DIR then iupdate me sb dp (add_nlink dp 1 s) else Ok () s) (\<lambda>_ s.
                             seqr (iunlockput me sb dp s) (\<lambda>_ s. Ok (Some ip) s))))))))))"

definition open_file :: "int \<Rightarrow> nat \<Rightarrow> ksys \<Rightarrow> kfile \<Rightarrow> kfile" where
  "open_file omode ip s x =
     (let x = (if dtype (idata (itab (kfs s) ip)) = T_DEVICE
               then x\<lparr>ftyp := FD_DEVICE, fmajor := dmajor (idata (itab (kfs s) ip))\<rparr>
               else x\<lparr>ftyp := FD_INODE, foff := 0\<rparr>)
      in x\<lparr>fip := ip, readable := \<not> has_flag omode O_WRONLY, writable := has_flag omode O_WRONLY \<or> has_flag omode O_RDWR\<rparr>)"

text \<open>\<^verbatim>\<open>sys_open\<close> from the point where the inode is locked.\<close>

definition open_inode :: "kenv \<Rightarrow> nat \<Rightarrow> int \<Rightarrow> nat \<Rightarrow> ksys \<Rightarrow> (int, ksys) res" where
  "open_inode e me omode ip s =
     (let d = idata (itab (kfs s) ip)
      in if dtype d = T_DEVICE \<and> (sint (dmajor d) < 0 \<or> NDEV \<le> sint (dmajor d)) then put_finish e me ip (-1) s
         else case filealloc s of
                (None, s) \<Rightarrow> put_finish e me ip (-1) s
              | (Some f, s) \<Rightarrow>
                  (case fdalloc me f s of
                     (None, s) \<Rightarrow> seqr (fileclose (e_end e) me (e_sb e) f s) (\<lambda>_ s. put_finish e me ip (-1) s)
                   | (Some fd, s) \<Rightarrow>
                       let s = upd_file f (open_file omode ip s) s
                       in seqr (if has_flag omode O_TRUNC \<and> dtype (idata (itab (kfs s) ip)) = T_FILE
                                then lift_fs (itrunc me (e_sb e) ip (kfs s)) s else Ok () s) (\<lambda>_ s.
                          seqr (lift_fs (iunlock me ip (kfs s)) s) (\<lambda>_ s. finish me (int fd) s))))"

definition sys_open :: "kenv \<Rightarrow> nat \<Rightarrow> ksys \<Rightarrow> (int, ksys) res" where
  "sys_open e me s =
     seqr (argint me 1 s) (\<lambda>omode s.
     seqr (argstr me 0 MAXPATH s) (\<lambda>path s. case path of None \<Rightarrow> Ok (-1) s | Some path \<Rightarrow>
     seqr (lift_log (begin_op me (lg (kfs s))) s) (\<lambda>_ s.
       if has_flag omode O_CREATE
       then seqr (with_cwd me path (\<lambda>c. create me (e_sb e) c path T_FILE 0 0) s) (\<lambda>r s.
              case r of None \<Rightarrow> finish me (-1) s | Some ip \<Rightarrow> open_inode e me omode ip s)
       else seqr (with_cwd me path (\<lambda>c. namei me (e_sb e) c path) s) (\<lambda>r s.
              case r of
                None \<Rightarrow> finish me (-1) s
              | Some ip \<Rightarrow>
                  seqr (lift_fs (ilock me (e_sb e) ip (kfs s)) s) (\<lambda>_ s.
                  if dtype (idata (itab (kfs s) ip)) = T_DIR \<and> omode \<noteq> O_RDONLY then put_finish e me ip (-1) s
                  else open_inode e me omode ip s)))))"

text \<open>\<^verbatim>\<open>sys_mkdir\<close> and \<^verbatim>\<open>sys_mknod\<close> after their arguments.\<close>

definition make_node :: "kenv \<Rightarrow> nat \<Rightarrow> u16 \<Rightarrow> u16 \<Rightarrow> u16 \<Rightarrow> ksys \<Rightarrow> (int, ksys) res" where
  "make_node e me ty mj mn s =
     seqr (argstr me 0 MAXPATH s) (\<lambda>path s. case path of None \<Rightarrow> finish me (-1) s | Some path \<Rightarrow>
     seqr (with_cwd me path (\<lambda>c. create me (e_sb e) c path ty mj mn) s) (\<lambda>r s.
       case r of None \<Rightarrow> finish me (-1) s | Some ip \<Rightarrow> put_finish e me ip 0 s))"

definition sys_mkdir :: "kenv \<Rightarrow> nat \<Rightarrow> ksys \<Rightarrow> (int, ksys) res" where
  "sys_mkdir e me s = seqr (lift_log (begin_op me (lg (kfs s))) s) (\<lambda>_ s. make_node e me T_DIR 0 0 s)"

definition sys_mknod :: "kenv \<Rightarrow> nat \<Rightarrow> ksys \<Rightarrow> (int, ksys) res" where
  "sys_mknod e me s =
     seqr (lift_log (begin_op me (lg (kfs s))) s) (\<lambda>_ s.
     seqr (argint me 1 s) (\<lambda>mj s. seqr (argint me 2 s) (\<lambda>mn s.
       make_node e me T_DEVICE (word_of_int mj) (word_of_int mn) s)))"

definition sys_chdir :: "kenv \<Rightarrow> nat \<Rightarrow> ksys \<Rightarrow> (int, ksys) res" where
  "sys_chdir e me s =
     seqr (lift_log (begin_op me (lg (kfs s))) s) (\<lambda>_ s.
     seqr (argstr me 0 MAXPATH s) (\<lambda>path s. case path of None \<Rightarrow> finish me (-1) s | Some path \<Rightarrow>
     seqr (with_cwd me path (\<lambda>c. namei me (e_sb e) c path) s) (\<lambda>r s.
       case r of
         None \<Rightarrow> finish me (-1) s
       | Some ip \<Rightarrow>
           seqr (lift_fs (ilock me (e_sb e) ip (kfs s)) s) (\<lambda>_ s.
           if dtype (idata (itab (kfs s) ip)) \<noteq> T_DIR then put_finish e me ip (-1) s
           else seqr (lift_fs (iunlock me ip (kfs s)) s) (\<lambda>_ s.
             seqr (case cwd (kprocs s me) of None \<Rightarrow> Panic ''kerneltrap'' | Some c \<Rightarrow> lift_fs (iput me (e_sb e) c (kfs s)) s) (\<lambda>_ s.
             seqr (lift_log (end_op me (lg (kfs s))) s) (\<lambda>_ s.
             Ok 0 (upd_proc me (\<lambda>p. p\<lparr>cwd := Some ip\<rparr>) s))))))))"

end
