(* ===== verification/Exec.thy ===== *)
theory Exec
  imports Sysfile
begin

section \<open>Loading a program (kernel/exec.c; sys_exec of kernel/sysfile.c)\<close>

text \<open>
  The headers are read into kernel variables and decoded from their bytes (\<^verbatim>\<open>kernel/elf.h\<close>). The
  parameters of type \<^verbatim>\<open>uint\<close> of \<^verbatim>\<open>loadseg\<close> and \<^verbatim>\<open>readi\<close> take 64-bit fields of the headers
  modulo \<open>2 ^ 32\<close>. An argument string is given by the address of its page and read from physical
  memory where \<^verbatim>\<open>exec\<close> does so. The label \<^verbatim>\<open>bad\<close> is \<open>exec_bad\<close>.
\<close>

record elfhdr =
  e_magic :: nat
  e_entry :: u64
  e_phoff :: nat
  e_phnum :: nat

record proghdr =
  p_type :: nat
  p_flags :: nat
  p_off :: nat
  p_vaddr :: u64
  p_filesz :: u64
  p_memsz :: u64

definition ELF_MAGIC :: nat where "ELF_MAGIC = 0x464C457F"
definition ELF_PROG_LOAD :: nat where "ELF_PROG_LOAD = 1"

definition get_elfhdr :: "u8 list \<Rightarrow> elfhdr" where
  "get_elfhdr ys = (let x = (\<lambda>k. ys ! k) in
     \<lparr>e_magic = get_le 4 x 0, e_entry = of_nat (get_le 8 x 24), e_phoff = get_le 8 x 32, e_phnum = get_le 2 x 56\<rparr>)"

definition get_proghdr :: "u8 list \<Rightarrow> proghdr" where
  "get_proghdr ys = (let x = (\<lambda>k. ys ! k) in
     \<lparr>p_type = get_le 4 x 0, p_flags = get_le 4 x 4, p_off = get_le 8 x 8, p_vaddr = of_nat (get_le 8 x 16),
      p_filesz = of_nat (get_le 8 x 32), p_memsz = of_nat (get_le 8 x 40)\<rparr>)"

definition flags2perm :: "nat \<Rightarrow> u64" where
  "flags2perm flags = (let perm = (if flags AND 1 \<noteq> 0 then PTE_X else 0) in if flags AND 2 \<noteq> 0 then perm OR PTE_W else perm)"

text \<open>The rounds of \<^verbatim>\<open>loadseg\<close> at the offsets \<open>is\<close>, multiples of the page size below \<open>n\<close>.\<close>

primrec loadseg_loop :: "nat \<Rightarrow> superblock \<Rightarrow> u64 \<Rightarrow> u64 \<Rightarrow> nat \<Rightarrow> nat \<Rightarrow> nat \<Rightarrow> nat list \<Rightarrow> ksys \<Rightarrow> (int, ksys) res" where
  "loadseg_loop me sb pt va ip offset n [] s = Ok 0 s"
| "loadseg_loop me sb pt va ip offset n (i # is) s =
     (let pa = walkaddr pt (va + of_nat i) (kmem s)
      in if pa = 0 then Panic ''loadseg: address should exist''
         else let k = (if n - i < 4096 then n - i else 4096)
              in seqr (lift_fs (readi (\<lambda>tot ys m. either_copyout False pt (pa + of_nat tot) ys m) me sb ip ((offset + i) mod 2 ^ 32) k (kmem s) (kfs s)) s)
                   (\<lambda>(r, m) s. let s = s\<lparr>kmem := m\<rparr> in if r \<noteq> int k then Ok (-1) s else loadseg_loop me sb pt va ip offset n is s))"

definition loadseg :: "nat \<Rightarrow> superblock \<Rightarrow> u64 \<Rightarrow> u64 \<Rightarrow> nat \<Rightarrow> nat \<Rightarrow> nat \<Rightarrow> ksys \<Rightarrow> (int, ksys) res" where
  "loadseg me sb pt va ip offset n s = loadseg_loop me sb pt va ip offset n (map (\<lambda>k. 4096 * k) [0..<(n + 4095) div 4096]) s"

text \<open>The loop over the program headers: whether all went well, and the size of the image so far.\<close>

primrec exec_load :: "nat \<Rightarrow> kenv \<Rightarrow> nat \<Rightarrow> u64 \<Rightarrow> nat \<Rightarrow> nat \<Rightarrow> u64 \<Rightarrow> ksys \<Rightarrow> (bool \<times> u64, ksys) res" where
  "exec_load 0 e me pt ip off len s = Ok (True, len) s"
| "exec_load (Suc k) e me pt ip off len s =
     seqr (lift_fs (readi collect me (e_sb e) ip off 56 [] (kfs s)) s) (\<lambda>(r, ys) s.
       if r \<noteq> 56 then Ok (False, len) s
       else let ph = get_proghdr ys
       in if p_type ph \<noteq> ELF_PROG_LOAD then exec_load k e me pt ip ((off + 56) mod 2 ^ 32) len s
          else if p_memsz ph < p_filesz ph then Ok (False, len) s
          else if p_vaddr ph + p_memsz ph < p_vaddr ph then Ok (False, len) s
          else if p_vaddr ph mod PGSIZE \<noteq> 0 then Ok (False, len) s
          else seqr (lift_mem (uvmalloc (e_end e) pt len (p_vaddr ph + p_memsz ph) (flags2perm (p_flags ph)) (kmem s)) s) (\<lambda>sz1 s.
            if sz1 = 0 then Ok (False, len) s
            else seqr (loadseg me (e_sb e) pt (p_vaddr ph) ip (p_off ph mod 2 ^ 32) (unat (p_filesz ph) mod 2 ^ 32) s) (\<lambda>r s.
              if r < 0 then Ok (False, sz1) s
              else exec_load k e me pt ip ((off + 56) mod 2 ^ 32) sz1 s)))"

text \<open>Pushing the argument strings: the stack pointer and the addresses, or \<open>None\<close> for \<^verbatim>\<open>bad\<close>.\<close>

primrec push_args :: "u64 \<Rightarrow> u64 \<Rightarrow> u64 list \<Rightarrow> u64 \<Rightarrow> u64 list \<Rightarrow> phys \<Rightarrow> (u64 \<times> u64 list) option \<times> phys" where
  "push_args pt stackbase [] sp ustack m = (Some (sp, ustack), m)"
| "push_args pt stackbase (a # argv) sp ustack m =
     (if MAXARG \<le> length ustack then (None, m)
      else let str = cstr (pmem m) a 4096;
               sp = sp - (of_nat (length str) + 1);
               sp = sp - sp mod 16
           in if sp < stackbase then (None, m)
              else case copyout pt sp (str @ [0]) m of (r, m) \<Rightarrow>
                     if r < 0 then (None, m) else push_args pt stackbase argv sp (ustack @ [sp]) m)"

definition word_bytes :: "u64 \<Rightarrow> u8 list" where
  "word_bytes v = map (put_le 8 0 (unat v) (\<lambda>_. 0)) [0..<8]"

definition exec_bad :: "kenv \<Rightarrow> nat \<Rightarrow> u64 \<Rightarrow> u64 \<Rightarrow> nat option \<Rightarrow> ksys \<Rightarrow> (int, ksys) res" where
  "exec_bad e me pt len ip s =
     seqr (if pt \<noteq> 0 then lift_mem (proc_freepagetable (e_end e) pt len (kmem s)) s else Ok () s) (\<lambda>_ s.
       case ip of None \<Rightarrow> Ok (-1) s | Some ip \<Rightarrow> put_finish e me ip (-1) s)"

definition path_last :: "u8 list \<Rightarrow> u8 list" where
  "path_last path = rev (takeWhile (\<lambda>c. c \<noteq> slash) (rev path))"

text \<open>\<^verbatim>\<open>exec\<close> from where the image is loaded: stack, arguments, and the switch to the new image.\<close>

definition exec_commit :: "kenv \<Rightarrow> nat \<Rightarrow> u8 list \<Rightarrow> u64 \<Rightarrow> u64 \<Rightarrow> u64 \<Rightarrow> u64 \<Rightarrow> int \<Rightarrow> ksys \<Rightarrow> (int, ksys) res" where
  "exec_commit e me path pt len epc sp argc s =
     (let oldsz = sz (kprocs s me);
          s = set_mem64 (trapframe (kprocs s me) + 120) sp s;
          s = upd_proc me (\<lambda>p. p\<lparr>pname := take 15 (map (\<lambda>b. char_of (unat b)) (path_last path))\<rparr>) s;
          oldpagetable = pagetable (kprocs s me);
          s = upd_proc me (\<lambda>p. p\<lparr>pagetable := pt, sz := len\<rparr>) s;
          s = set_mem64 (trapframe (kprocs s me) + 24) epc s;
          s = set_mem64 (trapframe (kprocs s me) + 48) sp s
      in seqr (lift_mem (proc_freepagetable (e_end e) oldpagetable oldsz (kmem s)) s) (\<lambda>_ s. Ok argc s))"

definition exec_stack :: "kenv \<Rightarrow> nat \<Rightarrow> u8 list \<Rightarrow> u64 list \<Rightarrow> u64 \<Rightarrow> u64 \<Rightarrow> u64 \<Rightarrow> ksys \<Rightarrow> (int, ksys) res" where
  "exec_stack e me path argv pt len epc s =
     (let len = PGROUNDUP len
      in seqr (lift_mem (uvmalloc (e_end e) pt len (len + 2 * PGSIZE) PTE_W (kmem s)) s) (\<lambda>sz1 s.
         if sz1 = 0 then exec_bad e me pt len None s
         else seqr (lift_mem (uvmclear pt (sz1 - 2 * PGSIZE) (kmem s)) s) (\<lambda>_ s.
           case push_args pt (sz1 - PGSIZE) argv sz1 [] (kmem s) of
             (None, m) \<Rightarrow> exec_bad e me pt sz1 None (s\<lparr>kmem := m\<rparr>)
           | (Some (sp, ustack), m) \<Rightarrow>
               let s = s\<lparr>kmem := m\<rparr>;
                   sp = sp - of_nat (length ustack + 1) * 8;
                   sp = sp - sp mod 16
               in if sp < sz1 - PGSIZE then exec_bad e me pt sz1 None s
                  else case copyout pt sp (concat (map word_bytes (ustack @ [0]))) (kmem s) of (r, m) \<Rightarrow>
                    let s = s\<lparr>kmem := m\<rparr>
                    in if r < 0 then exec_bad e me pt sz1 None s
                       else exec_commit e me path pt sz1 epc sp (int (length ustack)) s)))"

definition exec :: "kenv \<Rightarrow> nat \<Rightarrow> u8 list \<Rightarrow> u64 list \<Rightarrow> ksys \<Rightarrow> (int, ksys) res" where
  "exec e me path argv s =
     seqr (lift_log (begin_op me (lg (kfs s))) s) (\<lambda>_ s.
     seqr (with_cwd me path (\<lambda>c. namei me (e_sb e) c path) s) (\<lambda>r s.
       case r of
         None \<Rightarrow> finish me (-1) s
       | Some ip \<Rightarrow>
           seqr (lift_fs (ilock me (e_sb e) ip (kfs s)) s) (\<lambda>_ s.
           seqr (lift_fs (readi collect me (e_sb e) ip 0 64 [] (kfs s)) s) (\<lambda>(r, ys) s.
             if r \<noteq> 64 then exec_bad e me 0 0 (Some ip) s
             else if e_magic (get_elfhdr ys) \<noteq> ELF_MAGIC then exec_bad e me 0 0 (Some ip) s
             else seqr (lift_mem (proc_pagetable (e_end e) (e_trampoline e) (kprocs s me) (kmem s)) s) (\<lambda>pt s.
               if pt = 0 then exec_bad e me 0 0 (Some ip) s
               else seqr (exec_load (e_phnum (get_elfhdr ys)) e me pt ip (e_phoff (get_elfhdr ys) mod 2 ^ 32) 0 s) (\<lambda>(ok, len) s.
                 if \<not> ok then exec_bad e me pt len (Some ip) s
                 else seqr (put_finish e me ip () s) (\<lambda>_ s.
                   exec_stack e me path argv pt len (e_entry (get_elfhdr ys)) s)))))))"

subsection \<open>The system call\<close>

text \<open>The loop of \<^verbatim>\<open>sys_exec\<close>: \<open>k\<close> entries of \<^verbatim>\<open>argv\<close> are left. The result is whether the list was
  complete, and the pages allocated. What a failed \<^verbatim>\<open>fetchstr\<close> has stored in its page is
  overwritten when the page is freed.\<close>

primrec fetch_args :: "nat \<Rightarrow> nat \<Rightarrow> u64 \<Rightarrow> u64 list \<Rightarrow> ksys \<Rightarrow> (bool \<times> u64 list) \<times> ksys" where
  "fetch_args 0 me uargv argv s = ((False, argv), s)"
| "fetch_args (Suc k) me uargv argv s =
     (case fetchaddr me (uargv + 8 * of_nat (length argv)) s of
        None \<Rightarrow> ((False, argv), s)
      | Some uarg \<Rightarrow>
          if uarg = 0 then ((True, argv), s)
          else case kalloc (kmem s) of (a, m) \<Rightarrow>
            let s = s\<lparr>kmem := m\<rparr>
            in if a = 0 then ((False, argv), s)
               else case fetchstr me uarg 4096 s of
                      None \<Rightarrow> ((False, argv @ [a]), s)
                    | Some str \<Rightarrow> fetch_args k me uargv (argv @ [a])
                        (s\<lparr>kmem := (kmem s)\<lparr>pmem := write_bytes (pmem (kmem s)) a (str @ [0])\<rparr>\<rparr>))"

primrec free_args :: "u64 \<Rightarrow> u64 list \<Rightarrow> ksys \<Rightarrow> (unit, ksys) res" where
  "free_args kend [] s = Ok () s"
| "free_args kend (a # argv) s = seqr (lift_mem (kfree kend a (kmem s)) s) (\<lambda>_ s. free_args kend argv s)"

definition sys_exec :: "kenv \<Rightarrow> nat \<Rightarrow> ksys \<Rightarrow> (int, ksys) res" where
  "sys_exec e me s =
     seqr (argaddr me 1 s) (\<lambda>uargv s.
     seqr (argstr me 0 MAXPATH s) (\<lambda>path s. case path of None \<Rightarrow> Ok (-1) s | Some path \<Rightarrow>
       case fetch_args MAXARG me uargv [] s of
         ((False, argv), s) \<Rightarrow> seqr (free_args (e_end e) argv s) (\<lambda>_ s. Ok (-1) s)
       | ((True, argv), s) \<Rightarrow>
           seqr (exec e me path argv s) (\<lambda>ret s. seqr (free_args (e_end e) argv s) (\<lambda>_ s. Ok ret s))))"

end
