(* ===== verification/Syscall.thy ===== *)
theory Syscall
  imports Exec
begin

section \<open>System calls and traps (kernel/syscall.c, kernel/sysproc.c, kernel/trap.c)\<close>

text \<open>
  The remaining system calls, the dispatch by number, and the handling of traps from user space.
  Every call takes the environment, the hart and the process. The registers that the hardware sets
  on a trap are arguments. What \<^verbatim>\<open>printf\<close> writes on the console is not modelled.
\<close>

definition ksched_of :: "ksys \<Rightarrow> ksched" where
  "ksched_of s = \<lparr>procs = kprocs s, cur = kcur s, nextpid = knext s\<rparr>"

definition put_ksched :: "ksched \<Rightarrow> ksys \<Rightarrow> ksys" where
  "put_ksched k s = (set_kprocs (procs k) s)\<lparr>kcur := cur k, knext := nextpid k\<rparr>"

definition lift_sched :: "('a, ksched) res \<Rightarrow> ksys \<Rightarrow> ('a, ksys) res" where
  "lift_sched r s = (case r of Ok a k \<Rightarrow> Ok a (put_ksched k s) | Panic m \<Rightarrow> Panic m | Wait k \<Rightarrow> Wait (put_ksched k s))"

definition semsys_of :: "ksys \<Rightarrow> semsys" where
  "semsys_of s = \<lparr>sk = ksched_of s, sems = ksems s\<rparr>"

definition put_semsys :: "semsys \<Rightarrow> ksys \<Rightarrow> ksys" where
  "put_semsys t s = (put_ksched (sk t) s)\<lparr>ksems := sems t\<rparr>"

definition usys_of :: "ksys \<Rightarrow> usys" where
  "usys_of s = \<lparr>uk = ksched_of s, ua = kuart s, co = kcons s, um = kmem s, panicked = kpanicked s\<rparr>"

definition put_usys :: "usys \<Rightarrow> ksys \<Rightarrow> ksys" where
  "put_usys u s = (put_ksched (uk u) s)\<lparr>kuart := ua u, kcons := co u, kmem := um u, kpanicked := panicked u\<rparr>"

subsection \<open>Processes and time\<close>

definition sys_exit :: "kenv \<Rightarrow> nat \<Rightarrow> nat \<Rightarrow> ksys \<Rightarrow> (int, ksys) res" where
  "sys_exit e h me s =
     seqr (argint me 0 s) (\<lambda>n s. seqr (exit (e_end e) h me (e_sb e) (e_init e) n s) (\<lambda>_ s. Ok 0 s))"

definition sys_getpid :: "kenv \<Rightarrow> nat \<Rightarrow> nat \<Rightarrow> ksys \<Rightarrow> (int, ksys) res" where
  "sys_getpid e h me s = Ok (pid (kprocs s me)) s"

definition sys_fork :: "kenv \<Rightarrow> nat \<Rightarrow> nat \<Rightarrow> ksys \<Rightarrow> (int, ksys) res" where
  "sys_fork e h me s = fork (e_end e) (e_trampoline e) (e_forkret e) me s"

definition sys_wait :: "kenv \<Rightarrow> nat \<Rightarrow> nat \<Rightarrow> ksys \<Rightarrow> (int, ksys) res" where
  "sys_wait e h me s = seqr (argaddr me 0 s) (\<lambda>p s. wait (e_end e) h me p s)"

definition sys_sbrk :: "kenv \<Rightarrow> nat \<Rightarrow> nat \<Rightarrow> ksys \<Rightarrow> (int, ksys) res" where
  "sys_sbrk e h me s =
     seqr (argint me 0 s) (\<lambda>n s.
       let addr = sz (kprocs s me)
       in seqr (growproc (e_end e) me n s) (\<lambda>r s. Ok (if r < 0 then -1 else uint addr) s))"

text \<open>The loop of \<^verbatim>\<open>sys_sleep\<close>, cut where it sleeps; \<^verbatim>\<open>ticks - ticks0 < n\<close> compares unsigned numbers.\<close>

definition sys_sleep_loop :: "nat \<Rightarrow> nat \<Rightarrow> u32 \<Rightarrow> int \<Rightarrow> ksys \<Rightarrow> (int, ksys) res" where
  "sys_sleep_loop h me ticks0 n s =
     (if kticks s - ticks0 < word_of_int n
      then if is_killed me s then Ok (-1) s
           else seqr (lift_sched (sleep TicksChan h (ksched_of s)) s) (\<lambda>_ s. Ok 0 s)
      else Ok 0 s)"

definition sys_sleep :: "kenv \<Rightarrow> nat \<Rightarrow> nat \<Rightarrow> ksys \<Rightarrow> (int, ksys) res" where
  "sys_sleep e h me s = seqr (argint me 0 s) (\<lambda>n s. sys_sleep_loop h me (kticks s) n s)"

definition sys_sleep_resume :: "nat \<Rightarrow> nat \<Rightarrow> u32 \<Rightarrow> int \<Rightarrow> ksys \<Rightarrow> (int, ksys) res" where
  "sys_sleep_resume h me ticks0 n s = sys_sleep_loop h me ticks0 n (put_ksched (sleep_return me (ksched_of s)) s)"

definition sys_kill :: "kenv \<Rightarrow> nat \<Rightarrow> nat \<Rightarrow> ksys \<Rightarrow> (int, ksys) res" where
  "sys_kill e h me s = seqr (argint me 0 s) (\<lambda>n s. case kill n (kprocs s) of (r, ps) \<Rightarrow> Ok r (set_kprocs ps s))"

definition sys_uptime :: "kenv \<Rightarrow> nat \<Rightarrow> nat \<Rightarrow> ksys \<Rightarrow> (int, ksys) res" where
  "sys_uptime e h me s = Ok (uint (kticks s)) s"

definition sys_helloworld :: "kenv \<Rightarrow> nat \<Rightarrow> nat \<Rightarrow> ksys \<Rightarrow> (int, ksys) res" where
  "sys_helloworld e h me s = Ok 0 s"

subsection \<open>Semaphores\<close>

definition lift_sem :: "int \<times> semsys \<Rightarrow> ksys \<Rightarrow> (int, ksys) res" where
  "lift_sem r s = (case r of (v, t) \<Rightarrow> Ok v (put_semsys t s))"

definition sys_get_sem :: "kenv \<Rightarrow> nat \<Rightarrow> nat \<Rightarrow> ksys \<Rightarrow> (int, ksys) res" where
  "sys_get_sem e h me s = seqr (argint me 0 s) (\<lambda>v s. lift_sem (get_sem v (semsys_of s)) s)"

definition sys_sem_open :: "kenv \<Rightarrow> nat \<Rightarrow> nat \<Rightarrow> ksys \<Rightarrow> (int, ksys) res" where
  "sys_sem_open e h me s =
     seqr (argint me 0 s) (\<lambda>sem s. seqr (argint me 1 s) (\<lambda>v s. lift_sem (sem_open sem v (semsys_of s)) s))"

definition sys_sem_close :: "kenv \<Rightarrow> nat \<Rightarrow> nat \<Rightarrow> ksys \<Rightarrow> (int, ksys) res" where
  "sys_sem_close e h me s = seqr (argint me 0 s) (\<lambda>sem s. lift_sem (sem_close sem (semsys_of s)) s)"

definition sys_sem_up :: "kenv \<Rightarrow> nat \<Rightarrow> nat \<Rightarrow> ksys \<Rightarrow> (int, ksys) res" where
  "sys_sem_up e h me s = seqr (argint me 0 s) (\<lambda>sem s. lift_sem (sem_up h sem (semsys_of s)) s)"

definition sys_sem_down :: "kenv \<Rightarrow> nat \<Rightarrow> nat \<Rightarrow> ksys \<Rightarrow> (int, ksys) res" where
  "sys_sem_down e h me s =
     seqr (argint me 0 s) (\<lambda>sem s.
       case sem_down h sem (semsys_of s) of
         Ok v t \<Rightarrow> Ok v (put_semsys t s) | Panic m \<Rightarrow> Panic m | Wait t \<Rightarrow> Wait (put_semsys t s))"

subsection \<open>Dispatch\<close>

type_synonym handler = "kenv \<Rightarrow> nat \<Rightarrow> nat \<Rightarrow> ksys \<Rightarrow> (int, ksys) res"

definition syscalls :: "handler option list" where
  "syscalls =
     [None,
      Some sys_fork, Some sys_exit, Some sys_wait, Some (\<lambda>e h. sys_pipe e), Some sys_read, Some sys_kill,
      Some (\<lambda>e h. sys_exec e), Some (\<lambda>e h. sys_fstat e), Some (\<lambda>e h. sys_chdir e), Some (\<lambda>e h. sys_dup),
      Some sys_getpid, Some sys_sbrk, Some sys_sleep, Some sys_uptime, Some (\<lambda>e h. sys_open e), Some sys_write,
      Some (\<lambda>e h. sys_mknod e), Some (\<lambda>e h. sys_unlink e), Some (\<lambda>e h. sys_link e), Some (\<lambda>e h. sys_mkdir e),
      Some (\<lambda>e h. sys_close e), Some sys_helloworld, Some sys_sem_open, Some sys_sem_close, Some sys_sem_up,
      Some sys_sem_down, Some sys_get_sem]"

definition set_a0 :: "nat \<Rightarrow> int \<Rightarrow> ksys \<Rightarrow> ksys" where
  "set_a0 me r s = set_mem64 (trapframe (kprocs s me) + 112) (word_of_int r) s"

definition syscall :: "kenv \<Rightarrow> nat \<Rightarrow> nat \<Rightarrow> ksys \<Rightarrow> (unit, ksys) res" where
  "syscall e h me s =
     (let num = sint (ucast (load64 (pmem (kmem s)) (trapframe (kprocs s me) + 168)) :: u32)
      in if num > 0 \<and> num < int (length syscalls)
         then (case syscalls ! nat num of
                 Some f \<Rightarrow> seqr (f e h me s) (\<lambda>r s. Ok () (set_a0 me r s))
               | None \<Rightarrow> Ok () (set_a0 me (-1) s))
         else Ok () (set_a0 me (-1) s))"

subsection \<open>Traps from user space\<close>

definition clockintr :: "nat option \<Rightarrow> ksys \<Rightarrow> ksys" where
  "clockintr me s = set_kprocs (wakeup TicksChan me (kprocs s)) (s\<lparr>kticks := kticks s + 1\<rparr>)"

text \<open>\<open>irq\<close> is what \<^verbatim>\<open>plic_claim\<close> returns; the disk driver performs its transfers at once in the
  model, so nothing is left for its interrupt.\<close>

definition devintr :: "nat \<Rightarrow> u64 \<Rightarrow> int \<Rightarrow> ksys \<Rightarrow> (int, ksys) res" where
  "devintr h scause irq s =
     (if scause AND 0x8000000000000000 \<noteq> 0 \<and> scause AND 0xff = 9
      then if irq = 10
           then (case uartintr (kcur s h) (usys_of s) of
                   Ok _ u \<Rightarrow> Ok 1 (put_usys u s) | Panic m \<Rightarrow> Panic m | Wait u \<Rightarrow> Wait (put_usys u s))
           else Ok 1 s
      else if scause = 0x8000000000000001 then Ok 2 (if h = 0 then clockintr (kcur s h) s else s)
      else Ok 0 s)"

text \<open>What \<^verbatim>\<open>usertrapret\<close> stores for the next trap, and the program counter and page table it
  returns to user space with.\<close>

definition usertrapret :: "u64 \<Rightarrow> u64 \<Rightarrow> nat \<Rightarrow> nat \<Rightarrow> ksys \<Rightarrow> (u64 \<times> u64, ksys) res" where
  "usertrapret satp trap h me s =
     (let tf = trapframe (kprocs s me);
          s = set_mem64 tf satp s;
          s = set_mem64 (tf + 8) (kstack (kprocs s me) + PGSIZE) s;
          s = set_mem64 (tf + 16) trap s;
          s = set_mem64 (tf + 32) (of_nat h) s
      in Ok (load64 (pmem (kmem s)) (tf + 24), MAKE_SATP (pagetable (kprocs s me))) s)"

definition usertrap :: "kenv \<Rightarrow> u64 \<Rightarrow> u64 \<Rightarrow> nat \<Rightarrow> nat \<Rightarrow> bool \<Rightarrow> u64 \<Rightarrow> u64 \<Rightarrow> int \<Rightarrow> ksys \<Rightarrow> (u64 \<times> u64, ksys) res" where
  "usertrap e satp trap h me spp sepc scause irq s =
     (if spp then Panic ''usertrap: not from user mode''
      else let die = (\<lambda>s. exit (e_end e) h me (e_sb e) (e_init e) (-1) s);
               s = set_mem64 (trapframe (kprocs s me) + 24) sepc s
      in seqr (if scause = 8
               then seqr (if is_killed me s then die s else Ok () s) (\<lambda>_ s.
                    let s = set_mem64 (trapframe (kprocs s me) + 24) (load64 (pmem (kmem s)) (trapframe (kprocs s me) + 24) + 4) s
                    in seqr (syscall e h me s) (\<lambda>_ s. Ok 0 s))
               else seqr (devintr h scause irq s) (\<lambda>d s.
                    Ok d (if d \<noteq> 0 then s else set_kprocs (setkilled me (kprocs s)) s))) (\<lambda>which s.
         seqr (if is_killed me s then die s else Ok () s) (\<lambda>_ s.
         seqr (if which = 2 then lift_sched (yield h (ksched_of s)) s else Ok () s) (\<lambda>_ s.
         usertrapret satp trap h me s))))"

text \<open>A trap in supervisor mode: \<open>intr\<close> says whether interrupts are enabled; the result are the values written back to
  \<^verbatim>\<open>sepc\<close> and \<^verbatim>\<open>sstatus\<close>, which the code that ran meanwhile may have changed.\<close>

definition SSTATUS_SPP :: u64 where "SSTATUS_SPP = push_bit 8 1"

definition kerneltrap :: "nat \<Rightarrow> u64 \<Rightarrow> u64 \<Rightarrow> u64 \<Rightarrow> bool \<Rightarrow> int \<Rightarrow> ksys \<Rightarrow> (u64 \<times> u64, ksys) res" where
  "kerneltrap h sepc sstatus scause intr irq s =
     (if sstatus AND SSTATUS_SPP = 0 then Panic ''kerneltrap: not from supervisor mode''
      else if intr then Panic ''kerneltrap: interrupts enabled''
      else seqr (devintr h scause irq s) (\<lambda>which s.
             if which = 0 then Panic ''kerneltrap''
             else seqr (if which = 2 \<and> (case kcur s h of None \<Rightarrow> False | Some p \<Rightarrow> pstate (kprocs s p) = RUNNING)
                        then lift_sched (yield h (ksched_of s)) s else Ok () s) (\<lambda>_ s.
                  Ok (sepc, sstatus) s)))"

subsection \<open>The console as a device\<close>

text \<open>The entries that \<^verbatim>\<open>consoleinit\<close> makes in the device switch, for calls on hart \<open>h\<close>.\<close>

definition CONSOLE :: nat where "CONSOLE = 1"

definition lift_io :: "usys io \<Rightarrow> ksys \<Rightarrow> (int, ksys) res" where
  "lift_io r s = (case r of Done v u \<Rightarrow> Ok v (put_usys u s) | Blocked v u \<Rightarrow> Wait (put_usys u s) | Died m \<Rightarrow> Panic m)"

definition consoleinit :: "nat \<Rightarrow> kenv \<Rightarrow> kenv" where
  "consoleinit h e = e\<lparr>e_devread := (e_devread e)(CONSOLE \<mapsto> (\<lambda>addr n s. lift_io (consoleread h True addr n (usys_of s)) s)),
                       e_devwrite := (e_devwrite e)(CONSOLE \<mapsto> (\<lambda>addr n s. lift_io (consolewrite h True addr n (usys_of s)) s))\<rparr>"

subsection \<open>Traps and bad calls\<close>

lemma argint_Ok: "n \<le> 5 \<Longrightarrow> \<exists>v. argint me n s = Ok v s" "n \<le> 5 \<Longrightarrow> \<exists>a. argaddr me n s = Ok a s"
  by (simp_all add: argint_def argaddr_def argraw_def)

lemma argfd_bad:
  assumes "argint me 0 s = Ok fd s" and "fd < 0 \<or> int NOFILE \<le> fd \<or> ofile (kprocs s me) (nat fd) = None"
  shows "argfd me 0 s = Ok None s"
  using assms by (auto simp: argfd_def)

lemma exit_not_Ok: "exit kend h me sb initp st s \<noteq> Ok u t"
  by (auto simp: exit_def seqr_eq_Ok split: option.splits)

lemma usertrapret_procs: "usertrapret satp trap h me s = Ok r t \<Longrightarrow> kprocs t = kprocs s"
  by (auto simp: usertrapret_def Let_def)

text \<open>C26. What cannot go wrong at the system-call boundary: a call number outside the table only stores -1 in the
  result register, and the calls that take a descriptor return -1 and change nothing when the first argument is
  negative, too large or not open.\<close>

theorem bad_calls_harmless:
  assumes "argint me 0 s = Ok fd s"
  shows "(sint (ucast (load64 (pmem (kmem s)) (trapframe (kprocs s me) + 168)) :: u32) \<notin> {1..27} \<longrightarrow>
        syscall e h me s = Ok () (set_a0 me (-1) s)) \<and>
    (fd < 0 \<or> int NOFILE \<le> fd \<or> ofile (kprocs s me) (nat fd) = None \<longrightarrow>
        sys_dup me s = Ok (-1) s \<and> sys_close e me s = Ok (-1) s \<and> sys_fstat e me s = Ok (-1) s \<and>
        sys_read e h me s = Ok (-1) s \<and> sys_write e h me s = Ok (-1) s)"
proof (intro conjI impI)
  have "length syscalls = 28" by (simp add: syscalls_def)
  then show "syscall e h me s = Ok () (set_a0 me (-1) s)"
    if "sint (ucast (load64 (pmem (kmem s)) (trapframe (kprocs s me) + 168)) :: u32) \<notin> {1..27}"
    using that unfolding syscall_def Let_def by auto
next
  assume b: "fd < 0 \<or> int NOFILE \<le> fd \<or> ofile (kprocs s me) (nat fd) = None"
  note a = argfd_bad [OF assms b]
  obtain v w where "argint me 2 s = Ok v s" "argaddr me 1 s = Ok w s" using argint_Ok [of 2 me s] argint_Ok [of 1 me s] by auto
  then show "sys_dup me s = Ok (-1) s" "sys_close e me s = Ok (-1) s" "sys_fstat e me s = Ok (-1) s"
      "sys_read e h me s = Ok (-1) s" "sys_write e h me s = Ok (-1) s"
    using a by (simp_all add: sys_dup_def sys_close_def sys_fstat_def sys_read_def sys_write_def)
qed


definition demo_caller :: ksys where
  "demo_caller = demo_kernel (\<lambda>i. if i = 0 then idle_proc\<lparr>pstate := RUNNING, cwd := Some 0\<rparr> else idle_proc) demo_fs
     (\<lambda>_. demo_kfile) \<lparr>pmem = (\<lambda>_. 0), freelist = 0\<rparr>"

definition demo_env :: kenv where
  "demo_env = \<lparr>e_end = 0x80022000, e_trampoline = 0x80007000, e_forkret = 0x80001a00, e_sb = demo_sb, e_init = 1,
     e_devread = Map.empty, e_devwrite = Map.empty, e_pad = [0, 0, 0, 0]\<rparr>"

theorem bad_calls_harmless_witness: "sys_close demo_env 0 demo_caller = Ok (-1) demo_caller"
proof -
  have "argint 0 0 demo_caller = Ok 0 demo_caller"
    by (simp add: argint_def argraw_def load64_def demo_caller_def)
  moreover have "ofile (kprocs demo_caller 0) (nat 0) = None" by (simp add: demo_caller_def idle_proc_def)
  ultimately show ?thesis using bad_calls_harmless by blast
qed

lemma demo_trap: "\<exists>r t. usertrap demo_env 0 0 0 0 False 0 8 0 demo_caller = Ok r t"
proof -
  define u where "u = set_mem64 24 4 (set_mem64 24 0 demo_caller)"
  have p: "trapframe (kprocs demo_caller 0) = 0" "\<not> killed (kprocs demo_caller 0)" by (simp_all add: demo_caller_def idle_proc_def)
  have ld: "load64 (pmem (kmem (set_mem64 24 0 demo_caller))) 24 = 0" by (simp add: set_mem64_def)
  have st: "load64 (store64 m 24 v) 168 = load64 m 168" for m v
  proof (intro load64_cong store64_other)
    fix i j :: nat
    assume "i < 8" "j < 8"
    then have "unat (168 + of_nat i :: u64) = 168 + i" "unat (24 + of_nat j :: u64) = 24 + j"
      by (simp_all add: unat_word_ariths unat_of_nat)
    then have "unat (168 + of_nat i :: u64) \<noteq> unat (24 + of_nat j :: u64)" using \<open>j < 8\<close> by linarith
    then show "(168 :: u64) + of_nat i \<noteq> 24 + of_nat j" by metis
  qed
  have "load64 (pmem (kmem u)) 168 = 0" by (simp add: u_def set_mem64_def st) (simp add: demo_caller_def load64_def)
  then have "syscall demo_env 0 0 u = Ok () (set_a0 0 (-1) u)"
    using p by (simp add: syscall_def u_def)
  then show ?thesis
    using p ld by (simp add: usertrap_def Let_def is_killed_def u_def set_a0_def usertrapret_def)
qed


text \<open>A trap in the kernel returns to where it came from; an exception, which is no interrupt, always panics.\<close>

lemma kerneltrap_returns:
  assumes "kerneltrap h sepc sstatus scause intr irq s = Ok r t"
  shows "r = (sepc, sstatus)" and "sstatus AND SSTATUS_SPP \<noteq> 0" and "\<not> intr"
  using assms by (auto simp: kerneltrap_def seqr_eq_Ok split: if_splits)

lemma kerneltrap_exception:
  assumes "scause AND 0x8000000000000000 = 0"
  shows "\<exists>m. kerneltrap h sepc sstatus scause intr irq s = Panic m"
proof -
  have "scause \<noteq> 0x8000000000000001" using assms by auto
  then have "devintr h scause irq s = Ok 0 s" using assms by (simp add: devintr_def)
  then show ?thesis by (simp add: kerneltrap_def)
qed

end
