(* ===== verification/Descriptors.thy ===== *)
theory Descriptors
  imports Frame Syscall
begin

section \<open>Descriptors and file references\<close>

text \<open>
  The invariant that ties the descriptor tables of all processes to the file table: the reference
  count of every file is the number of descriptors that name it, descriptors name entries of the
  table, and unused processes and zombies have none. Every system call keeps it. \<open>kdesc\<close> is the
  part of the kernel state it is about; most operations leave it alone, which the rules of
  \<open>frames\<close> show.
\<close>

type_synonym desc = "(nat \<Rightarrow> int) \<times> (nat \<Rightarrow> bool \<times> (nat \<Rightarrow> nat option))"

definition dead :: "proc \<Rightarrow> bool" where
  "dead p \<longleftrightarrow> pstate p = UNUSED \<or> pstate p = ZOMBIE"

definition pdesc :: "ptable \<Rightarrow> nat \<Rightarrow> bool \<times> (nat \<Rightarrow> nat option)" where
  "pdesc ps = (\<lambda>i. (dead (ps i), ofile (ps i)))"

definition kdesc :: "ksys \<Rightarrow> desc" where
  "kdesc s = (\<lambda>f. fref (kft s f), pdesc (kprocs s))"

lemma pdesc_stat: "pdesc ps = pdesc (pstat ps)"
  by (auto simp: pdesc_def pstat_def dead_def fun_eq_iff)

lemma pdesc_eqI: "pstat ps = pstat qs \<Longrightarrow> pdesc ps = pdesc qs"
  by (subst (1 2) pdesc_stat) simp

lemma pdesc_wakeup [simp]: "pdesc (wakeup c me ps) = pdesc ps"
  by (rule pdesc_eqI) simp

lemma pdesc_upd:
  "dead q = dead (ps i) \<Longrightarrow> ofile q = ofile (ps i) \<Longrightarrow> pdesc (ps(i := q)) = pdesc ps"
  by (auto simp: pdesc_def fun_eq_iff)

subsection \<open>Updates that leave the descriptors alone\<close>

lemma kdesc_simps [simp]:
  "kdesc (s\<lparr>kmem := m\<rparr>) = kdesc s" "kdesc (s\<lparr>kcur := c\<rparr>) = kdesc s" "kdesc (s\<lparr>kpipes := ppp\<rparr>) = kdesc s"
  "kdesc (s\<lparr>knext := n\<rparr>) = kdesc s" "kdesc (s\<lparr>kticks := k\<rparr>) = kdesc s" "kdesc (s\<lparr>kuart := u\<rparr>) = kdesc s"
  "kdesc (s\<lparr>kcons := c'\<rparr>) = kdesc s" "kdesc (s\<lparr>kpanicked := b\<rparr>) = kdesc s" "kdesc (s\<lparr>ksems := sm\<rparr>) = kdesc s"
  "kdesc (set_mem64 a v s) = kdesc s" "kdesc (copy_trapframe a v s) = kdesc s"
  by (simp_all add: kdesc_def set_mem64_def copy_trapframe_def)

lemma kdesc_set_kprocs: "kdesc (set_kprocs ps s) = (fst (kdesc s), pdesc ps)"
  by (simp add: kdesc_def)

lemma kdesc_upd_proc:
  "(\<And>p. dead (f p) = dead p) \<Longrightarrow> (\<And>p. ofile (f p) = ofile p) \<Longrightarrow> kdesc (upd_proc i f s) = kdesc s"
  by (simp add: kdesc_def pdesc_upd)

lemma kdesc_upd_file: "(\<And>x. fref (g x) = fref x) \<Longrightarrow> kdesc (upd_file f g s) = kdesc s"
  by (auto simp: kdesc_def upd_file_def fun_eq_iff)

subsection \<open>Lifted operations\<close>

lemma lift_fs_frame [frame]: "frames fstat (fstat (kfs s)) r \<Longrightarrow> kdesc s = p \<Longrightarrow> frames kdesc p (lift_fs r s)"
  by (cases r) (auto simp: lift_fs_def kdesc_def kprocs_def intro!: pdesc_eqI)

lemma lift_log_frame [frame]: "frames lstat (fstat (kfs s)) r \<Longrightarrow> kdesc s = p \<Longrightarrow> frames kdesc p (lift_log r s)"
  unfolding lift_log_def by (auto intro!: frame)

lemma lift_mem_frame [frame]: "kdesc s = p \<Longrightarrow> frames kdesc p (lift_mem r s)"
  by (cases r) (auto simp: lift_mem_def)

lemma with_cwd_frame [frame]:
  "(\<And>c. frames fstat (fstat (kfs s)) (f c (kfs s))) \<Longrightarrow> kdesc s = p \<Longrightarrow> frames kdesc p (with_cwd me path f s)"
  unfolding with_cwd_def by (auto intro!: frame)

lemma finish_frame [frame]: "kdesc s = p \<Longrightarrow> frames kdesc p (finish me r s)"
  unfolding finish_def by (auto intro!: frame)

lemma put_finish_frame [frame]: "kdesc s = p \<Longrightarrow> frames kdesc p (put_finish e me ip r s)"
  unfolding put_finish_def by (auto intro!: frame)

lemma argraw_frame [frame]: "kdesc s = p \<Longrightarrow> frames kdesc p (argraw me n s)"
  by (simp add: argraw_def)

lemma argint_frame [frame]: "kdesc s = p \<Longrightarrow> frames kdesc p (argint me n s)"
  unfolding argint_def by (auto intro!: frame)

lemma argaddr_frame [frame]: "kdesc s = p \<Longrightarrow> frames kdesc p (argaddr me n s)"
  unfolding argaddr_def by (auto intro!: frame)

lemma argstr_frame [frame]: "kdesc s = p \<Longrightarrow> frames kdesc p (argstr me n mx s)"
  unfolding argstr_def by (auto intro!: frame)

lemma fstat_add_nlink [simp]: "lg (add_nlink ip k s) = lg s"
  by (simp add: add_nlink_def)

subsection \<open>Calls on paths\<close>

lemma link_bad_frame [frame]: "kdesc s = p \<Longrightarrow> frames kdesc p (link_bad e me ip s)"
  unfolding link_bad_def by (auto intro!: frame)

lemma sys_link_frame [frame]: "kdesc s = p \<Longrightarrow> frames kdesc p (sys_link e me s)"
  unfolding sys_link_def by (auto intro!: frame)

lemma isdirempty_frame [frame]: "fstat s = p \<Longrightarrow> frames fstat p (isdirempty me sb dp s)"
proof -
  have "fstat s = p \<Longrightarrow> frames fstat p (isdirempty_loop me sb dp offs s)" for offs s
    by (induction offs arbitrary: s) (auto intro!: frame)
  then show "fstat s = p \<Longrightarrow> ?thesis" by (simp add: isdirempty_def)
qed

lemma sys_unlink_frame [frame]: "kdesc s = p \<Longrightarrow> frames kdesc p (sys_unlink e me s)"
  unfolding sys_unlink_def by (auto intro!: frame)

lemma create_frame [frame]: "fstat s = p \<Longrightarrow> frames fstat p (create me sb c path ty mj mn s)"
  unfolding create_def create_fail_def by (auto intro!: frame)

lemma make_node_frame [frame]: "kdesc s = p \<Longrightarrow> frames kdesc p (make_node e me ty mj mn s)"
  unfolding make_node_def by (auto intro!: frame)

lemma sys_mkdir_frame [frame]: "kdesc s = p \<Longrightarrow> frames kdesc p (sys_mkdir e me s)"
  unfolding sys_mkdir_def by (auto intro!: frame)

lemma sys_mknod_frame [frame]: "kdesc s = p \<Longrightarrow> frames kdesc p (sys_mknod e me s)"
  unfolding sys_mknod_def by (auto intro!: frame)

lemma sys_chdir_frame [frame]: "kdesc s = p \<Longrightarrow> frames kdesc p (sys_chdir e me s)"
  unfolding sys_chdir_def by (auto intro!: frame simp: dead_def kdesc_upd_proc)

subsection \<open>Pipes, devices and reading and writing\<close>

definition iframes :: "('s \<Rightarrow> 'p) \<Rightarrow> 'p \<Rightarrow> 's io \<Rightarrow> bool" where
  "iframes proj p r = (case r of Done n t \<Rightarrow> proj t = p | _ \<Rightarrow> True)"

lemma iframes_io [simp]: "iframes proj p (Done n t) = (proj t = p)" "iframes proj p (Blocked n t)" "iframes proj p (Died m)"
  by (simp_all add: iframes_def)

abbreviation pipestat :: "psys \<Rightarrow> nat \<Rightarrow> bool \<times> (nat \<Rightarrow> nat option)" where "pipestat s \<equiv> pdesc (procs (ks s))"
abbreviation ustat :: "usys \<Rightarrow> nat \<Rightarrow> bool \<times> (nat \<Rightarrow> nat option)" where "ustat s \<equiv> pdesc (procs (uk s))"

lemma wake_stat [simp]: "pipestat (wake ch me s) = pipestat s" "ustat (uwake ch me u) = ustat u"
  by (simp_all add: wake_def uwake_def)

lemma block_frame [simp]: "pipestat s = p \<Longrightarrow> iframes pipestat p (block ch h i s)"
  by (auto simp: block_def split: res.splits)

lemma pipewrite_frame [frame]: "pipestat s = p \<Longrightarrow> iframes pipestat p (pipewrite h a addr n s)"
proof -
  have "pipestat s = p \<Longrightarrow> iframes pipestat p (pipewrite_loop h me a addr i n s)" for me i s
  proof (induction h me a addr i n s rule: pipewrite_loop.induct)
    case (1 h me a addr i n s)
    then show ?case by (subst pipewrite_loop.simps) (auto simp: pipewrite_end_def split: option.splits)
  qed
  then show "pipestat s = p \<Longrightarrow> ?thesis" by (auto simp: pipewrite_def split: option.splits)
qed

lemma piperead_copy_stat: "piperead_copy k pt addr i s = (j, t) \<Longrightarrow> pipestat t = pipestat s"
  by (induction k arbitrary: i s) (auto simp: Let_def split: prod.splits if_splits)

lemma piperead_frame [frame]: "pipestat s = p \<Longrightarrow> iframes pipestat p (piperead h a addr n s)"
proof -
  have "iframes pipestat (pipestat s) (piperead_from h me a addr n s)" for me
    by (auto simp: piperead_from_def split: prod.splits dest: piperead_copy_stat)
  then show "pipestat s = p \<Longrightarrow> ?thesis" by (auto simp: piperead_def split: option.splits)
qed

lemma lift_pipe_frame [frame]: "iframes pipestat (snd p) r \<Longrightarrow> kdesc s = p \<Longrightarrow> frames kdesc p (lift_pipe a r s)"
  by (cases r) (auto simp: lift_pipe_def put_psys_def kdesc_def)

lemma psys_of_stat [simp]: "pipestat (psys_of a s) = snd (kdesc s)"
  by (simp add: psys_of_def kdesc_def)

lemma usys_of_stat [simp]: "ustat (usys_of s) = snd (kdesc s)"
  by (simp add: usys_of_def ksched_of_def kdesc_def)

lemma put_usys_desc [simp]: "kdesc (put_usys u s) = (fst (kdesc s), ustat u)"
  by (simp add: put_usys_def put_ksched_def kdesc_def)

lemma uartstart_stat [simp]: "ustat (uartstart me s) = ustat s"
proof -
  have "ustat (uartstart_loop me ls s) = ustat s" for ls
    by (induction ls arbitrary: s) (auto split: prod.splits)
  then show ?thesis by (simp add: uartstart_def)
qed

lemma uartputc_stat: "uartputc h c s = Ok u t \<Longrightarrow> ustat t = ustat s"
  by (auto simp: uartputc_def split: res.splits if_splits)

lemma consolewrite_frame [frame]: "ustat s = p \<Longrightarrow> iframes ustat p (consolewrite h us src n s)"
proof -
  have "ustat s = p \<Longrightarrow> iframes ustat p (consolewrite_loop h me us src i k s)" for me i k s
    by (induction k arbitrary: i s) (auto split: option.splits res.splits dest: uartputc_stat)
  then show "ustat s = p \<Longrightarrow> ?thesis" by (auto simp: consolewrite_def split: option.splits)
qed

lemma consoleread_frame [frame]: "ustat s = p \<Longrightarrow> iframes ustat p (consoleread h us dst n s)"
proof -
  have "ustat s = p \<Longrightarrow> iframes ustat p (consoleread_loop h me us tg d k s)" for me tg d k s
    by (induction k arbitrary: d s) (auto simp: Let_def split: res.splits prod.splits)
  then show "ustat s = p \<Longrightarrow> ?thesis" by (auto simp: consoleread_def split: option.splits)
qed

lemma lift_io_frame: "iframes ustat (snd p) r \<Longrightarrow> kdesc s = p \<Longrightarrow> frames kdesc p (lift_io r s)"
  by (cases r) (auto simp: lift_io_def)

text \<open>Device routines that leave descriptors alone, as those of the console do.\<close>

definition devs_ok :: "kenv \<Rightarrow> bool" where
  "devs_ok e \<longleftrightarrow> (\<forall>mj g addr n s. e_devread e mj = Some g \<or> e_devwrite e mj = Some g \<longrightarrow> frames kdesc (kdesc s) (g addr n s))"

lemma devs_ok_console: "e_devread e = Map.empty \<Longrightarrow> e_devwrite e = Map.empty \<Longrightarrow> devs_ok (consoleinit h e)"
  by (auto simp: devs_ok_def consoleinit_def intro!: lift_io_frame frame split: if_splits)

lemma dev_call_frame:
  assumes "devs_ok e" and "devsw = e_devread e \<or> devsw = e_devwrite e" and "kdesc s = p"
  shows "frames kdesc p (dev_call devsw mj addr n s)"
  using assms by (auto simp: dev_call_def devs_ok_def split: option.splits)

lemma filestat_frame [frame]: "kdesc s = p \<Longrightarrow> frames kdesc p (filestat pad me sb f addr s)"
  unfolding filestat_def Let_def by (auto intro!: frame)

lemma fileread_frame: "devs_ok e \<Longrightarrow> kdesc s = p \<Longrightarrow> frames kdesc p (fileread (e_devread e) h me sb f addr n s)"
  unfolding fileread_def Let_def
  by (auto intro!: frame dev_call_frame simp: kdesc_upd_file split: ftype.splits)

lemma filewrite_tx_frame [frame]: "kdesc s = p \<Longrightarrow> frames kdesc p (filewrite_tx src me sb f n s)"
  unfolding filewrite_tx_def Let_def by (auto intro!: frame simp: kdesc_upd_file)

lemma filewrite_loop_frame [frame]: "kdesc s = p \<Longrightarrow> frames kdesc p (filewrite_loop k src me sb f i n s)"
  by (induction k arbitrary: i s) (auto simp: Let_def intro!: frame)

lemma filewrite_frame: "devs_ok e \<Longrightarrow> kdesc s = p \<Longrightarrow> frames kdesc p (filewrite (e_devwrite e) h me sb f addr n s)"
  unfolding filewrite_def by (auto intro!: frame dev_call_frame split: ftype.splits)

subsection \<open>Processes, programs and semaphores\<close>

lemma growproc_frame [frame]: "kdesc s = p \<Longrightarrow> frames kdesc p (growproc kend me n s)"
  unfolding growproc_def Let_def by (auto intro!: frame simp: kdesc_upd_proc dead_def)

lemma free_args_frame [frame]: "kdesc s = p \<Longrightarrow> frames kdesc p (free_args kend argv s)"
  by (induction argv arbitrary: s) (auto intro!: frame)

lemma fetch_args_desc: "fetch_args k me u argv s = (r, t) \<Longrightarrow> kdesc t = kdesc s"
  by (induction k arbitrary: argv s) (auto simp: Let_def split: option.splits prod.splits if_splits)

lemma loadseg_frame [frame]: "kdesc s = p \<Longrightarrow> frames kdesc p (loadseg me sb pt va ip offset n s)"
proof -
  have "kdesc s = p \<Longrightarrow> frames kdesc p (loadseg_loop me sb pt va ip offset n is s)" for "is" s
    by (induction "is" arbitrary: s) (auto simp: Let_def intro!: frame)
  then show "kdesc s = p \<Longrightarrow> ?thesis" by (simp add: loadseg_def)
qed

lemma exec_load_frame [frame]: "kdesc s = p \<Longrightarrow> frames kdesc p (exec_load k e me pt ip off len s)"
  by (induction k arbitrary: off len s) (auto simp: Let_def intro!: frame)

lemma exec_bad_frame [frame]: "kdesc s = p \<Longrightarrow> frames kdesc p (exec_bad e me pt len ip s)"
  unfolding exec_bad_def by (auto intro!: frame)

lemma exec_commit_frame [frame]: "kdesc s = p \<Longrightarrow> frames kdesc p (exec_commit e me path pt len epc sp argc s)"
  unfolding exec_commit_def Let_def by (auto intro!: frame simp: kdesc_upd_proc dead_def)

lemma exec_stack_frame [frame]: "kdesc s = p \<Longrightarrow> frames kdesc p (exec_stack e me path argv pt len epc s)"
  unfolding exec_stack_def Let_def by (auto intro!: frame)

lemma exec_frame [frame]: "kdesc s = p \<Longrightarrow> frames kdesc p (exec e me path argv s)"
  unfolding exec_def by (auto intro!: frame)

lemma sys_exec_frame [frame]: "kdesc s = p \<Longrightarrow> frames kdesc p (sys_exec e me s)"
  unfolding sys_exec_def by (auto intro!: frame split: bool.split dest!: fetch_args_desc)

lemma kill_desc: "kill n ps = (r, qs) \<Longrightarrow> pdesc qs = pdesc ps"
  by (auto simp: kill_def Let_def dead_def split: option.splits if_splits intro!: pdesc_upd)

lemma sys_kill_frame [frame]: "kdesc s = p \<Longrightarrow> frames kdesc p (sys_kill e h me s)"
  unfolding sys_kill_def by (auto intro!: frame simp: kdesc_set_kprocs dest!: kill_desc) (simp_all add: kdesc_def)

lemma semsys_desc [simp]: "kdesc (put_semsys t s) = (fst (kdesc s), pdesc (procs (sk t)))" "procs (sk (semsys_of s)) = kprocs s"
  by (simp_all add: put_semsys_def put_ksched_def kdesc_def semsys_of_def ksched_of_def)

lemma sem_ops_procs:
  "sk (snd (sem_open i v t)) = sk t" "sk (snd (sem_close i t)) = sk t"
  "pdesc (procs (sk (snd (sem_up h i t)))) = pdesc (procs (sk t))"
  by (simp_all add: sem_open_def sem_close_def sem_up_def Let_def)

lemma get_sem_procs: "sk (snd (get_sem v t)) = sk t"
proof -
  have "sk (snd (get_sem_loop i v t)) = sk t" for i
  proof (induction i v t rule: get_sem_loop.induct)
    case (1 i v t)
    then show ?case using sem_ops_procs(1) [of i v t] by (subst get_sem_loop.simps) (auto split: prod.splits)
  qed
  from this [of 0] show ?thesis by (auto simp: get_sem_def split: prod.splits)
qed

lemma lift_sem_frame: "pdesc (procs (sk (snd r))) = snd p \<Longrightarrow> kdesc s = p \<Longrightarrow> frames kdesc p (lift_sem r s)"
  by (cases r) (auto simp: lift_sem_def)

lemma snd_kdesc: "pdesc (kprocs s) = snd (kdesc s)"
  by (simp add: kdesc_def)

lemma sem_down_procs: "sem_down h i t = Ok v u \<Longrightarrow> sk u = sk t"
  by (auto simp: sem_down_def sem_down_loop_def sleep_def split: if_splits res.splits option.splits)

lemma sys_sems_frame [frame]:
  "kdesc s = p \<Longrightarrow> frames kdesc p (sys_get_sem e h me s)" "kdesc s = p \<Longrightarrow> frames kdesc p (sys_sem_open e h me s)"
  "kdesc s = p \<Longrightarrow> frames kdesc p (sys_sem_close e h me s)" "kdesc s = p \<Longrightarrow> frames kdesc p (sys_sem_up e h me s)"
  unfolding sys_get_sem_def sys_sem_open_def sys_sem_close_def sys_sem_up_def
  by (auto intro!: frame lift_sem_frame simp: sem_ops_procs get_sem_procs snd_kdesc)

lemma sys_sem_down_frame [frame]: "kdesc s = p \<Longrightarrow> frames kdesc p (sys_sem_down e h me s)"
  unfolding sys_sem_down_def
  by (auto intro!: frame simp: snd_kdesc dest!: sem_down_procs)

subsection \<open>Counting references\<close>

text \<open>\<open>ex\<close> counts the references that a running call holds besides the descriptors.\<close>

definition holders :: "(nat \<Rightarrow> bool \<times> (nat \<Rightarrow> nat option)) \<Rightarrow> nat \<Rightarrow> (nat \<times> nat) set" where
  "holders d f = {(i, fd). i < NPROC \<and> fd < NOFILE \<and> snd (d i) fd = Some f}"

definition counted :: "(nat \<Rightarrow> int) \<Rightarrow> desc \<Rightarrow> bool" where
  "counted ex p \<longleftrightarrow> (\<forall>f < NFILE. fst p f = int (card (holders (snd p) f)) + ex f) \<and>
     (\<forall>i < NPROC. \<forall>fd < NOFILE. \<forall>f. snd (snd p i) fd = Some f \<longrightarrow> \<not> fst (snd p i) \<and> f < NFILE)"

definition addref :: "nat \<Rightarrow> int \<Rightarrow> desc \<Rightarrow> desc" where
  "addref f k p = (\<lambda>g. fst p g + (if g = f then k else 0), snd p)"

definition setfd :: "nat \<Rightarrow> nat \<Rightarrow> nat option \<Rightarrow> desc \<Rightarrow> desc" where
  "setfd i fd x p = (fst p, (snd p)(i := (fst (snd p i), (snd (snd p i))(fd := x))))"

definition setdead :: "nat \<Rightarrow> bool \<Rightarrow> desc \<Rightarrow> desc" where
  "setdead i b p = (fst p, (snd p)(i := (b, snd (snd p i))))"

definition fd_of :: "desc \<Rightarrow> nat \<Rightarrow> nat \<Rightarrow> nat option" where
  "fd_of p i fd = snd (snd p i) fd"

definition is_dead :: "desc \<Rightarrow> nat \<Rightarrow> bool" where
  "is_dead p i = fst (snd p i)"

lemma fd_of_simps [simp]:
  "fd_of (addref f k p) i fd = fd_of p i fd" "fd_of (setdead j b p) i fd = fd_of p i fd"
  "fd_of (setfd j fe x p) i fd = (if i = j \<and> fd = fe then x else fd_of p i fd)"
  "is_dead (addref f k p) i = is_dead p i" "is_dead (setfd j fe x p) i = is_dead p i"
  "is_dead (setdead j b p) i = (if i = j then b else is_dead p i)"
  by (auto simp: fd_of_def is_dead_def addref_def setfd_def setdead_def)

lemma fd_of_kdesc: "fd_of (kdesc s) i fd = ofile (kprocs s i) fd" "is_dead (kdesc s) i = dead (kprocs s i)"
  by (simp_all add: fd_of_def is_dead_def kdesc_def pdesc_def)

lemma desc_undo:
  "addref f 0 p = p" "addref f k (addref f j p) = addref f (k + j) p" "addref f k (setfd i fd x p) = setfd i fd x (addref f k p)"
  "fd_of p i fd = x \<Longrightarrow> setfd i fd x p = p" "setfd i fd x (setfd i fd y p) = setfd i fd x p"
  "is_dead p i = b \<Longrightarrow> setdead i b p = p" "setdead i b (setdead i c p) = setdead i b p"
  by (auto simp: addref_def setfd_def setdead_def fd_of_def is_dead_def fun_eq_iff prod_eq_iff)

lemma addref_commute: "addref f k (addref g j p) = addref g j (addref f k p)"
  by (auto simp: addref_def)

lemma setfd_commute: "fd \<noteq> fe \<Longrightarrow> setfd i fd x (setfd i fe y p) = setfd i fe y (setfd i fd x p)"
  by (auto simp: setfd_def fun_upd_twist)

lemma finite_holders: "finite (holders d f)"
  by (rule finite_subset [of _ "{..<NPROC} \<times> {..<NOFILE}"]) (auto simp: holders_def)

lemma counted_addref: "counted ex p \<Longrightarrow> counted (\<lambda>g. ex g + (if g = f then k else 0)) (addref f k p)"
  by (simp add: counted_def addref_def)

lemma counted_setfd:
  assumes "counted ex p" and "i < NPROC" and "fd < NOFILE" and "fd_of p i fd = None" and "\<not> is_dead p i" and "f < NFILE"
  shows "counted (\<lambda>g. ex g - (if g = f then 1 else 0)) (setfd i fd (Some f) p)"
proof -
  let ?q = "setfd i fd (Some f) p"
  have h: "holders (snd ?q) g = (if g = f then insert (i, fd) (holders (snd p) f) else holders (snd p) g)" for g
    using assms by (auto simp: holders_def setfd_def fd_of_def split: if_splits)
  have n: "(i, fd) \<notin> holders (snd p) f" using assms by (simp add: holders_def fd_of_def)
  show ?thesis
    using assms n unfolding counted_def h
    by (auto simp: finite_holders setfd_def fd_of_def is_dead_def)
qed

lemma counted_clearfd:
  assumes "counted ex p" and "i < NPROC" and "fd < NOFILE" and "fd_of p i fd = Some f"
  shows "counted (\<lambda>g. ex g + (if g = f then 1 else 0)) (setfd i fd None p)"
proof -
  let ?q = "setfd i fd None p"
  have h: "holders (snd ?q) g = (if g = f then holders (snd p) f - {(i, fd)} else holders (snd p) g)" for g
    using assms by (auto simp: holders_def setfd_def fd_of_def split: if_splits)
  have n: "(i, fd) \<in> holders (snd p) f" using assms by (simp add: holders_def fd_of_def)
  then have c: "card (holders (snd p) f) = Suc (card (holders (snd p) f - {(i, fd)}))"
    using finite_holders [of "snd p" f] by (simp only: card.remove)
  have "fst ?q g = int (card (holders (snd ?q) g)) + (ex g + (if g = f then 1 else 0))" if "g < NFILE" for g
    using assms(1) that c unfolding counted_def h by (cases "g = f") (simp_all add: setfd_def)
  moreover have "\<not> fst (snd ?q j) \<and> g < NFILE" if "j < NPROC" "fe < NOFILE" "snd (snd ?q j) fe = Some g" for j fe g
    using assms(1) that by (auto simp: counted_def setfd_def split: if_splits)
  ultimately show ?thesis by (simp add: counted_def)
qed

lemma counted_setdead:
  assumes "counted ex p" and "b \<Longrightarrow> \<forall>fd < NOFILE. fd_of p i fd = None"
  shows "counted ex (setdead i b p)"
proof -
  have h: "holders (snd (setdead i b p)) g = holders (snd p) g" for g
    by (auto simp: holders_def setdead_def split: if_splits)
  show ?thesis using assms unfolding counted_def h by (auto simp: setdead_def fd_of_def)
qed

lemma counted_dead: "counted ex p \<Longrightarrow> i < NPROC \<Longrightarrow> is_dead p i \<Longrightarrow> fd < NOFILE \<Longrightarrow> fd_of p i fd = None"
  by (cases "fd_of p i fd") (auto simp: counted_def fd_of_def is_dead_def)

lemma counted_fd: "counted ex p \<Longrightarrow> i < NPROC \<Longrightarrow> fd < NOFILE \<Longrightarrow> fd_of p i fd = Some f \<Longrightarrow> f < NFILE"
  by (auto simp: counted_def fd_of_def)

lemma counted_cong: "counted ex p \<Longrightarrow> (\<And>f. f < NFILE \<Longrightarrow> ex f = ey f) \<Longrightarrow> counted ey p"
  by (auto simp: counted_def)

subsection \<open>Operations on files\<close>

abbreviation balanced :: "desc \<Rightarrow> bool" where "balanced \<equiv> counted (\<lambda>_. 0)"

lemma kdesc_set_ofile [simp]: "kdesc (set_ofile me fd x s) = setfd me fd x (kdesc s)"
  by (auto simp: set_ofile_def kdesc_def setfd_def pdesc_def dead_def fun_eq_iff)

lemma kdesc_addref: "(\<And>x. fref (g x) = fref x + k) \<Longrightarrow> kdesc (upd_file f g s) = addref f k (kdesc s)"
  by (auto simp: kdesc_def addref_def upd_file_def fun_eq_iff)

lemma filealloc_desc:
  "filealloc s = (Some f, t) \<Longrightarrow> f < NFILE \<and> kdesc t = addref f 1 (kdesc s)" "filealloc s = (None, t) \<Longrightarrow> t = s"
  by (auto simp: filealloc_def kdesc_def addref_def upd_file_def fun_eq_iff split: option.splits dest!: scan_first_SomeD)

lemma filedup_desc: "filedup f s = Ok g t \<Longrightarrow> g = f \<and> kdesc t = addref f 1 (kdesc s)"
  by (auto simp: filedup_def kdesc_addref split: if_splits)

lemma pipeclose_stat: "pipeclose kend me a w s = Ok u t \<Longrightarrow> pipestat t = pipestat s"
  by (auto simp: pipeclose_def Let_def split: if_splits res.splits)

lemma put_psys_desc [simp]: "kdesc (put_psys a q s) = (fst (kdesc s), pipestat q)"
  by (simp add: put_psys_def kdesc_def)

lemma fileclose_frame [frame]:
  assumes "kdesc s = p"
  shows "frames kdesc (addref f (-1) p) (fileclose kend me sb f s)"
proof -
  define s1 where "s1 = upd_file f (\<lambda>x. x\<lparr>fref := fref x - 1\<rparr>) s"
  have d1: "kdesc s1 = addref f (-1) p" using assms by (simp add: s1_def kdesc_addref)
  show ?thesis
  proof (cases "fref (kft s f) < 1 \<or> fref (kft s1 f) > 0")
    case True
    then show ?thesis using d1 by (auto simp: fileclose_def s1_def [symmetric] Let_def)
  next
    case False
    define s2 where "s2 = upd_file f (\<lambda>x. x\<lparr>fref := 0, ftyp := FD_NONE\<rparr>) s1"
    have "fref (kft s1 f) = 0" using False by (auto simp: s1_def upd_file_def)
    then have "kdesc s2 = kdesc s1" by (auto simp: s2_def kdesc_def upd_file_def fun_eq_iff)
    then have d2: "kdesc s2 = addref f (-1) p" using d1 by simp
    show ?thesis
      using False d2 unfolding fileclose_def s1_def [symmetric] Let_def s2_def [symmetric]
      by (auto intro!: frame split: ftype.splits res.splits dest!: pipeclose_stat)
  qed
qed

lemma okp_close: "(\<And>t. kdesc t = addref f (-1) (kdesc s) \<Longrightarrow> okp Q (k () t)) \<Longrightarrow> okp Q (seqr (fileclose kend me sb f s) k)"
  by (rule okp_frame [OF fileclose_frame [OF refl]]) simp

lemma argfd_Ok: "argfd me n s = Ok r t \<Longrightarrow> t = s \<and> (\<forall>fd f. r = Some (fd, f) \<longrightarrow> fd < NOFILE \<and> fd_of (kdesc s) me fd = Some f)"
  by (auto simp: argfd_def argint_def argraw_def fd_of_kdesc nat_less_iff split: if_splits option.splits)

lemma okp_argfd:
  assumes "\<And>t. t = s \<Longrightarrow> okp Q (g None t)"
    and "\<And>fd f t. fd < NOFILE \<Longrightarrow> fd_of (kdesc s) me fd = Some f \<Longrightarrow> t = s \<Longrightarrow> okp Q (g (Some (fd, f)) t)"
  shows "okp Q (seqr (argfd me n s) g)"
proof (cases "argfd me n s")
  case (Ok r t)
  then show ?thesis using assms argfd_Ok [OF Ok] by (cases r) auto
qed simp_all

lemma fdalloc_desc:
  "fdalloc me f s = (Some fd, t) \<Longrightarrow> fd < NOFILE \<and> fd_of (kdesc s) me fd = None \<and> kdesc t = setfd me fd (Some f) (kdesc s)"
  "fdalloc me f s = (None, t) \<Longrightarrow> t = s"
  by (auto simp: fdalloc_def fd_of_kdesc split: option.splits dest!: scan_first_SomeD)

subsection \<open>The calls that move references\<close>

text \<open>A caller: a live process in a balanced state.\<close>

definition calls :: "nat \<Rightarrow> desc \<Rightarrow> bool" where
  "calls me p \<longleftrightarrow> balanced p \<and> me < NPROC \<and> \<not> is_dead p me"

lemma balanced_open:
  assumes "calls me p" and "fd < NOFILE" and "fd_of p me fd = None" and "f < NFILE"
  shows "balanced (setfd me fd (Some f) (addref f 1 p))"
proof -
  have b: "counted (\<lambda>_. 0) p" and l: "me < NPROC" "\<not> is_dead p me" using assms(1) by (auto simp: calls_def)
  have "counted (\<lambda>g. (0 + (if g = f then 1 else 0)) - (if g = f then 1 else 0)) (setfd me fd (Some f) (addref f 1 p))"
    by (rule counted_setfd [OF counted_addref [OF b]]) (use l assms in simp_all)
  then show ?thesis by (rule counted_cong) auto
qed

lemma balanced_close:
  assumes "calls me p" and "fd < NOFILE" and "fd_of p me fd = Some f"
  shows "balanced (addref f (-1) (setfd me fd None p))"
proof -
  have b: "counted (\<lambda>_. 0) p" and l: "me < NPROC" using assms(1) by (auto simp: calls_def)
  have "counted (\<lambda>g. (0 + (if g = f then 1 else 0)) + (if g = f then -1 else 0)) (addref f (-1) (setfd me fd None p))"
    by (rule counted_addref [OF counted_clearfd [OF b]]) (use l assms in simp_all)
  then show ?thesis by (rule counted_cong) auto
qed

lemma sys_dup_ok:
  assumes "calls me (kdesc s)"
  shows "okp (\<lambda>_ t. balanced (kdesc t)) (sys_dup me s)"
proof -
  have b: "balanced (kdesc s)" "me < NPROC" using assms by (auto simp: calls_def)
  have "okp (\<lambda>_ t. balanced (kdesc t)) (seqr (filedup f t) (\<lambda>_ s. Ok (int fd) s))"
    if "fe < NOFILE" "fd_of (kdesc s) me fe = Some f" "fdalloc me f s = (Some fd, t)" for fe f fd t
    using balanced_open [OF assms, of fd f] fdalloc_desc(1) [OF that(3)] counted_fd [OF b that(1,2)]
    by (auto intro!: okpI simp: seqr_eq_Ok desc_undo dest!: filedup_desc)
  then show ?thesis
    using b unfolding sys_dup_def by (auto intro!: okp_argfd split: prod.split option.split dest!: fdalloc_desc(2))
qed

lemma sys_close_ok:
  assumes "calls me (kdesc s)"
  shows "okp (\<lambda>_ t. balanced (kdesc t)) (sys_close e me s)"
  using assms unfolding sys_close_def
  by (auto intro!: okp_argfd okp_close balanced_close simp: calls_def)

lemma okp_framed: "frames kdesc p r \<Longrightarrow> balanced p \<Longrightarrow> okp (\<lambda>_ t. balanced (kdesc t)) r"
  by (cases r) auto

lemma okp_if: "okp Q (if b then x else y) = ((b \<longrightarrow> okp Q x) \<and> (\<not> b \<longrightarrow> okp Q y))"
  by simp

lemma open_inode_ok:
  assumes "calls me (kdesc s)"
  shows "okp (\<lambda>_ t. balanced (kdesc t)) (open_inode e me omode ip s)"
proof -
  have b: "balanced (kdesc s)" using assms by (simp add: calls_def)
  have put: "okp (\<lambda>_ t. balanced (kdesc t)) (put_finish e me ip r t)" if "balanced (kdesc t)" for r :: int and t
    by (rule okp_framed [OF put_finish_frame [OF refl] that])
  have "okp (\<lambda>_ t. balanced (kdesc t)) (seqr (fileclose (e_end e) me (e_sb e) f t) (\<lambda>_ s. put_finish e me ip (-1 :: int) s))"
    if "filealloc s = (Some f, t)" for f t
    using filealloc_desc(1) [OF that] b by (auto intro!: okp_close put simp: desc_undo)
  moreover have "okp (\<lambda>_ t. balanced (kdesc t))
      (seqr (if has_flag omode O_TRUNC \<and> dtype (idata (itab (kfs u) ip)) = T_FILE
             then lift_fs (itrunc me (e_sb e) ip (kfs u)) u else Ok () u) (\<lambda>_ s.
       seqr (lift_fs (iunlock me ip (kfs s)) s) (\<lambda>_ s. finish me (int fd) s)))"
    if f: "filealloc s = (Some f, t1)" "fdalloc me f t1 = (Some fd, t2)" and u: "u = upd_file f (open_file omode ip t2) t2" for f t1 fd t2 u
  proof -
    have "fref (open_file omode ip t2 x) = fref x" for x by (simp add: open_file_def Let_def)
    then have "kdesc u = kdesc t2" unfolding u by (rule kdesc_upd_file)
    then have "balanced (kdesc u)"
      using balanced_open [OF assms, of fd f] filealloc_desc(1) [OF f(1)] fdalloc_desc(1) [OF f(2)] by simp
    then show ?thesis by (rule okp_framed [rotated]) (auto intro!: frame)
  qed
  moreover obtain r1 t1 r2 t2 where a: "filealloc s = (r1, t1)" "fdalloc me (the r1) t1 = (r2, t2)"
    by (metis surj_pair)
  ultimately show ?thesis
    using b a put filealloc_desc(2) [of s t1] fdalloc_desc(2) [of me "the r1" t1 t2]
    by (cases r1; cases r2) (simp_all only: open_inode_def Let_def prod.case option.case option.sel simp_thms okp_if HOL.if_cancel)
qed

lemma sys_open_ok:
  assumes "calls me (kdesc s)"
  shows "okp (\<lambda>_ t. balanced (kdesc t)) (sys_open e me s)"
proof -
  have open_ok: "okp (\<lambda>_ t. balanced (kdesc t)) (open_inode e me m ip t)" if "kdesc t = kdesc s" for m ip t
    using open_inode_ok [of me t e m ip] that assms by simp
  have b: "balanced (kdesc s)" using assms by (simp add: calls_def)
  have fin: "okp (\<lambda>_ t. balanced (kdesc t)) (finish me r t)" "okp (\<lambda>_ t. balanced (kdesc t)) (put_finish e me ip r t)"
    if "kdesc t = kdesc s" for r :: int and ip t
    by (rule okp_framed [OF finish_frame [OF that] b], rule okp_framed [OF put_finish_frame [OF that] b])
  show ?thesis
    using b unfolding sys_open_def
    by (auto intro!: okp_frame [where proj = kdesc and p = "kdesc s"] frame fin open_ok split: option.split)
qed

lemma pipealloc_ok:
  shows "okp (\<lambda>r t. case r of None \<Rightarrow> kdesc t = kdesc s
      | Some (f0, f1) \<Rightarrow> f0 < NFILE \<and> f1 < NFILE \<and> kdesc t = addref f1 1 (addref f0 1 (kdesc s))) (pipealloc kend me sb s)"
proof -
  have two: "okp (\<lambda>r t. (r = None \<longrightarrow> kdesc t = kdesc s) \<and> (\<forall>f0 f1. r = Some (f0, f1) \<longrightarrow> Q f0 f1 t))
      (seqr (fileclose kend me sb f0 u) (\<lambda>_ s. seqr (fileclose kend me sb f1 s) (\<lambda>_ s. Ok None s)))"
    if "kdesc u = addref f1 1 (addref f0 1 (kdesc s))" for f0 f1 u and Q :: "nat \<Rightarrow> nat \<Rightarrow> ksys \<Rightarrow> bool"
    using that addref_commute [of f0 "-1" f1 1 "addref f0 1 (kdesc s)"] by (intro okp_close) (simp add: desc_undo)
  have one: "okp (\<lambda>r t. (r = None \<longrightarrow> kdesc t = kdesc s) \<and> (\<forall>f0 f1. r = Some (f0, f1) \<longrightarrow> Q f0 f1 t))
      (seqr (fileclose kend me sb f0 u) (\<lambda>_ s. Ok None s))"
    if "kdesc u = addref f0 1 (kdesc s)" for f0 u and Q :: "nat \<Rightarrow> nat \<Rightarrow> ksys \<Rightarrow> bool"
    using that by (intro okp_close) (simp add: desc_undo)
  have e: "kdesc (upd_file f (pipe_end w a) u) = kdesc u" for f w a u
    by (rule kdesc_upd_file) (simp add: pipe_end_def)
  show ?thesis
    unfolding pipealloc_def
    by (auto simp: Let_def e intro!: one two split: prod.split option.split dest!: filealloc_desc)
qed

lemma close_two_frame [frame]: "kdesc s = p \<Longrightarrow> frames kdesc (addref fw (-1) (addref fr (-1) p)) (close_two e me fr fw s)"
  unfolding close_two_def
  by (cases "fileclose (e_end e) me (e_sb e) fr s"; use fileclose_frame [of s p fr "e_end e" me "e_sb e"] in \<open>auto intro!: frame\<close>)

lemma okp_close_two:
  "kdesc s = addref fw 1 (addref fr 1 p) \<Longrightarrow> balanced p \<Longrightarrow> okp (\<lambda>_ t. balanced (kdesc t)) (close_two e me fr fw s)"
  using okp_framed [OF close_two_frame [OF refl, of fw fr s e me]] addref_commute [of fr "-1" fw 1 "addref fr 1 p"]
  by (simp add: desc_undo)

lemma pipe_fds_ok:
  assumes c: "calls me p" and f: "fr < NFILE" "fw < NFILE" and t: "kdesc t = addref fw 1 (addref fr 1 p)"
  shows "okp (\<lambda>_ t. balanced (kdesc t)) (pipe_fds e me a fr fw t)"
proof -
  have b: "balanced p" using c by (simp add: calls_def)
  obtain r1 t1 r2 t2 where a: "fdalloc me fr t = (r1, t1)" "fdalloc me fw t1 = (r2, t2)" by (metis surj_pair)
  show ?thesis
  proof (cases r1)
    case None
    then show ?thesis using a(1) fdalloc_desc(2) [of me fr t t1] t okp_close_two [OF _ b] by (simp add: pipe_fds_def)
  next
    case (Some fd0)
    then have 1: "fd0 < NOFILE" "fd_of p me fd0 = None" "kdesc t1 = setfd me fd0 (Some fr) (kdesc t)"
      using a(1) fdalloc_desc(1) [of me fr t fd0 t1] t by simp_all
    show ?thesis
    proof (cases r2)
      case None
      then have "kdesc (set_ofile me fd0 None t2) = kdesc t"
        using 1 t a(2) fdalloc_desc(2) [of me fw t1 t2] by (simp add: desc_undo)
      then show ?thesis using a None Some t okp_close_two [OF _ b] by (simp add: pipe_fds_def)
    next
      case (Some fd1)
      then have 2: "fd1 < NOFILE" "fd1 \<noteq> fd0" "fd_of p me fd1 = None" "kdesc t2 = setfd me fd1 (Some fw) (kdesc t1)"
        using a(2) fdalloc_desc(1) [of me fw t1 fd1 t2] t 1 by (simp_all split: if_splits)
      have undo: "setfd me fd1 None (setfd me fd0 None (kdesc t2)) = kdesc t"
        using 1 2 t setfd_commute [of fd0 fd1 me None "Some fw" "kdesc t1"] by (simp add: desc_undo)
      have "balanced (setfd me fd0 (Some fr) (addref fr 1 p))" by (rule balanced_open [OF c 1(1,2) f(1)])
      then have "calls me (setfd me fd0 (Some fr) (addref fr 1 p))" using c by (simp add: calls_def)
      from balanced_open [OF this 2(1) _ f(2)] have "balanced (kdesc t2)" using 1 2 t by (simp add: desc_undo)
      then show ?thesis
        using a \<open>r1 = Some fd0\<close> Some undo t okp_close_two [OF _ b, of _ fw fr e me]
        by (auto simp: pipe_fds_def Let_def split: prod.split)
    qed
  qed
qed

lemma sys_pipe_ok:
  assumes "calls me (kdesc s)"
  shows "okp (\<lambda>_ t. balanced (kdesc t)) (sys_pipe e me s)"
  unfolding sys_pipe_def using assms
  by (intro okp_frame [OF argaddr_frame [OF refl]] okp_seqr [OF pipealloc_ok])
    (auto simp: calls_def intro: pipe_fds_ok [OF assms] split: option.split)

lemma freeproc_ok: "frames kdesc (setdead i True (kdesc s)) (freeproc kend i s)"
proof -
  have z: "kdesc (upd_proc i (\<lambda>p. p\<lparr>pagetable := 0, sz := 0, pid := 0, parent := None, pname := [], chan := NoChan,
                                killed := False, xstate := 0, pstate := UNUSED\<rparr>) t) = setdead i True (kdesc t)" for t
    by (auto simp: kdesc_def setdead_def pdesc_def dead_def fun_eq_iff)
  have t: "kdesc (upd_proc i (\<lambda>p. p\<lparr>trapframe := 0\<rparr>) t) = kdesc t" for t
    by (rule kdesc_upd_proc) (simp_all add: dead_def)
  have "okp (\<lambda>_ t. kdesc t = setdead i True (kdesc s)) (freeproc kend i s)"
    unfolding freeproc_def Let_def
    by (auto intro!: okp_frame [where proj = kdesc and p = "kdesc s"] frame simp: z t)
  then show ?thesis by (cases "freeproc kend i s") auto
qed

lemma allocproc_ok:
  "okp (\<lambda>r t. (r = None \<longrightarrow> kdesc t = kdesc s) \<and>
     (\<forall>i. r = Some i \<longrightarrow> i < NPROC \<and> is_dead (kdesc s) i \<and> kdesc t = setdead i False (kdesc s))) (allocproc kend tr fr s)"
proof (cases "scan_first (\<lambda>i. pstate (kprocs s i) = UNUSED) [0..<NPROC]")
  case None
  then show ?thesis by (simp add: allocproc_def)
next
  case (Some i)
  let ?Q = "\<lambda>r t. (r = None \<longrightarrow> kdesc t = kdesc s) \<and>
     (\<forall>i. r = Some i \<longrightarrow> i < NPROC \<and> is_dead (kdesc s) i \<and> kdesc t = setdead i False (kdesc s))"
  have i: "i < NPROC" "is_dead (kdesc s) i"
    using scan_first_SomeD [OF Some] by (auto simp: fd_of_kdesc dead_def)
  have use: "kdesc (upd_proc i (\<lambda>p. p\<lparr>pid := n, pstate := USED\<rparr>) t) = setdead i False (kdesc t)" for n t
    by (auto simp: kdesc_def setdead_def pdesc_def dead_def fun_eq_iff)
  have keep: "kdesc (upd_proc i (\<lambda>p. p\<lparr>trapframe := a\<rparr>) t) = kdesc t" "kdesc (upd_proc i (\<lambda>p. p\<lparr>pagetable := a\<rparr>) t) = kdesc t"
    "kdesc (upd_proc i (\<lambda>p. p\<lparr>ctx_ra := a, ctx_sp := kstack p + b\<rparr>) t) = kdesc t" for a b t
    by (rule kdesc_upd_proc; simp add: dead_def)+
  have free: "okp ?Q (seqr (freeproc kend i t) (\<lambda>_ s. Ok None s))" if "kdesc t = setdead i False (kdesc s)" for t
    by (rule okp_frame [OF freeproc_ok]) (use that i in \<open>simp add: desc_undo\<close>)
  show ?thesis
    unfolding allocproc_def Let_def
    by (auto simp: Some use keep i intro!: free okp_frame [where proj = kdesc and p = "setdead i False (kdesc s)"] frame split: prod.split)
qed

text \<open>The descriptors that \<^verbatim>\<open>fork\<close> gives to the new process.\<close>

lemma fork_files_ok:
  assumes "calls me (kdesc s)" and "calls np (kdesc s)" and "np \<noteq> me" and "distinct fds"
    and "\<forall>fd \<in> set fds. fd < NOFILE \<and> fd_of (kdesc s) np fd = None"
  shows "okp (\<lambda>_ t. balanced (kdesc t)) (fork_files me np fds s)"
  using assms
proof (induction fds arbitrary: s)
  case Nil
  then show ?case by (simp add: calls_def)
next
  case (Cons fd fds)
  show ?case
  proof (cases "ofile (kprocs s me) fd")
    case None
    then show ?thesis using Cons by simp
  next
    case (Some f)
    let ?set = "upd_proc np (\<lambda>p. p\<lparr>ofile := (ofile p)(fd := Some f)\<rparr>)"
    have fd: "fd < NOFILE" "fd_of (kdesc s) np fd = None" using Cons.prems by simp_all
    have f: "f < NFILE" using counted_fd [of "\<lambda>_. 0" "kdesc s" me fd f] Cons.prems(1) Some fd(1) by (simp add: calls_def fd_of_kdesc)
    have rest: "okp (\<lambda>_ t. balanced (kdesc t)) (fork_files me np fds (?set t))" if "kdesc t = addref f 1 (kdesc s)" for t
    proof -
      have k: "kdesc (?set t) = setfd np fd (Some f) (addref f 1 (kdesc s))"
        using that by (simp add: set_ofile_def [symmetric])
      have "balanced (kdesc (?set t))" unfolding k by (rule balanced_open [OF Cons.prems(2) fd f])
      then have "calls me (kdesc (?set t))" "calls np (kdesc (?set t))"
        using Cons.prems(1,2) unfolding k by (simp_all add: calls_def)
      moreover have "\<forall>fe \<in> set fds. fe < NOFILE \<and> fd_of (kdesc (?set t)) np fe = None"
        using Cons.prems(4,5) unfolding k by auto
      ultimately show ?thesis using Cons.prems(3,4) by (intro Cons.IH) simp_all
    qed
    show ?thesis
    proof (cases "filedup f s")
      case (Ok g t)
      then show ?thesis using Some rest [of t] filedup_desc [OF Ok] by simp
    qed (use Some in simp_all)
  qed
qed

lemma fork_child_ok:
  assumes c: "calls me p" and np: "np < NPROC" "is_dead p np" and s: "kdesc s = setdead np False p"
  shows "okp (\<lambda>_ t. balanced (kdesc t)) (fork_child me np s)"
proof -
  have b: "balanced p" using c by (simp add: calls_def)
  have keep: "kdesc (upd_proc np (\<lambda>p. p\<lparr>sz := z\<rparr>) t) = kdesc t" "kdesc (upd_proc np (\<lambda>p. p\<lparr>cwd := w, pname := n\<rparr>) t) = kdesc t"
    "kdesc (upd_proc np (\<lambda>p. p\<lparr>parent := q\<rparr>) t) = kdesc t" for z w n q t
    by (rule kdesc_upd_proc; simp add: dead_def)+
  have run: "kdesc (upd_proc np (\<lambda>p. p\<lparr>pstate := RUNNABLE\<rparr>) t) = setdead np False (kdesc t)" for t
    by (auto simp: kdesc_def setdead_def pdesc_def dead_def fun_eq_iff)
  have "okp (\<lambda>_ t. balanced (kdesc t)) (fork_files me np [0..<NOFILE] t)" if t: "kdesc t = setdead np False p" for t
  proof (rule fork_files_ok)
    have "balanced (kdesc t)" unfolding t by (rule counted_setdead [OF b]) simp
    then show "calls me (kdesc t)" "calls np (kdesc t)" using c np t by (auto simp: calls_def)
    show "np \<noteq> me" using c np(2) by (auto simp: calls_def)
    show "\<forall>fd \<in> set [0..<NOFILE]. fd < NOFILE \<and> fd_of (kdesc t) np fd = None"
      using counted_dead [OF b np] t by simp
  qed simp
  then show ?thesis
    unfolding fork_child_def Let_def
    by (rule okp_seqr)
      (auto simp: s keep run intro!: counted_setdead okp_frame [where proj = kdesc, OF _ okp_res(1) [THEN iffD2]] frame split: option.split)
qed

lemma fork_ok:
  assumes c: "calls me (kdesc s)"
  shows "okp (\<lambda>_ t. balanced (kdesc t)) (fork kend tr fr me s)"
proof -
  have b: "balanced (kdesc s)" using c by (simp add: calls_def)
  have "okp (\<lambda>_ t. balanced (kdesc t)) (seqr (freeproc kend np u) (\<lambda>_ s. Ok (-1 :: int) s))"
    if "is_dead (kdesc s) np" "kdesc u = setdead np False (kdesc s)" for np u
    by (rule okp_frame [OF freeproc_ok]) (use that b in \<open>simp add: desc_undo\<close>)
  then show ?thesis
    unfolding fork_def
    by (intro okp_seqr [OF allocproc_ok])
      (auto simp: b intro!: okp_frame [OF lift_mem_frame [OF refl]] fork_child_ok [OF c] split: option.split)
qed

lemma wait_ok:
  assumes "balanced (kdesc s)"
  shows "okp (\<lambda>_ t. balanced (kdesc t)) (wait kend h me addr s)"
proof (cases "scan_first (\<lambda>i. parent (kprocs s i) = Some me \<and> pstate (kprocs s i) = ZOMBIE) [0..<NPROC]")
  case None
  then show ?thesis using assms by (simp add: wait_def)
next
  case (Some i)
  have "is_dead (kdesc s) i" using scan_first_SomeD [OF Some] by (simp add: fd_of_kdesc dead_def)
  then have "okp (\<lambda>_ t. balanced (kdesc t)) (seqr (freeproc kend i u) (\<lambda>_ s. Ok n s))" if "kdesc u = kdesc s" for n :: int and u
    using that assms by (intro okp_frame [OF freeproc_ok]) (simp add: desc_undo)
  then show ?thesis using assms by (auto simp: wait_def Some Let_def split: prod.split)
qed

text \<open>The descriptors that \<^verbatim>\<open>exit\<close> closes.\<close>

lemma exit_files_ok:
  assumes "calls me (kdesc s)" and "\<forall>fd \<in> set fds. fd < NOFILE" and "\<forall>fd < NOFILE. fd \<notin> set fds \<longrightarrow> fd_of (kdesc s) me fd = None"
  shows "okp (\<lambda>_ t. balanced (kdesc t) \<and> (\<forall>fd < NOFILE. fd_of (kdesc t) me fd = None)) (exit_files kend me sb fds s)"
  using assms
proof (induction fds arbitrary: s)
  case Nil
  then show ?case by (simp add: calls_def)
next
  case (Cons fd fds)
  show ?case
  proof (cases "ofile (kprocs s me) fd")
    case None
    then have "\<forall>fe < NOFILE. fe \<notin> set fds \<longrightarrow> fd_of (kdesc s) me fe = None" using Cons.prems(3) by (auto simp: fd_of_kdesc)
    then show ?thesis using Cons.IH [OF Cons.prems(1)] Cons.prems(2) None by simp
  next
    case (Some f)
    have fd: "fd < NOFILE" "fd_of (kdesc s) me fd = Some f" using Cons.prems(2) Some by (simp_all add: fd_of_kdesc)
    have "okp (\<lambda>_ t. balanced (kdesc t) \<and> (\<forall>fd < NOFILE. fd_of (kdesc t) me fd = None))
       (exit_files kend me sb fds (set_ofile me fd None t))" if "kdesc t = addref f (-1) (kdesc s)" for t
    proof (rule Cons.IH)
      have k: "kdesc (set_ofile me fd None t) = addref f (-1) (setfd me fd None (kdesc s))" using that by (simp add: desc_undo)
      show "calls me (kdesc (set_ofile me fd None t))"
        using Cons.prems(1) balanced_close [OF Cons.prems(1) fd] unfolding k by (simp add: calls_def)
      show "\<forall>fe < NOFILE. fe \<notin> set fds \<longrightarrow> fd_of (kdesc (set_ofile me fd None t)) me fe = None"
        using Cons.prems(3) unfolding k by auto
    qed (use Cons.prems(2) in simp)
    then show ?thesis using Some by (auto intro!: okp_close simp: set_ofile_def)
  qed
qed

subsection \<open>All system calls\<close>

definition files_ok :: "ksys \<Rightarrow> bool" where
  "files_ok s \<longleftrightarrow>
     (\<forall>f < NFILE. fref (kft s f) = int (card {(i, fd). i < NPROC \<and> fd < NOFILE \<and> ofile (kprocs s i) fd = Some f})) \<and>
     (\<forall>i < NPROC. \<forall>fd < NOFILE. \<forall>f. ofile (kprocs s i) fd = Some f \<longrightarrow> pstate (kprocs s i) \<noteq> UNUSED \<and> pstate (kprocs s i) \<noteq> ZOMBIE \<and> f < NFILE)"

lemma files_ok_balanced: "files_ok s \<longleftrightarrow> balanced (kdesc s)"
  by (simp add: files_ok_def counted_def holders_def kdesc_def pdesc_def dead_def)

lemma sleep_not_Ok [simp]: "sleep ch h k \<noteq> Ok u t"
  by (simp add: sleep_def split: option.split)

lemma syscalls_balanced:
  assumes d: "devs_ok e" and c: "calls me (kdesc s)" and f: "Some f \<in> set syscalls"
  shows "okp (\<lambda>_ t. balanced (kdesc t)) (f e h me s)"
proof -
  have b: "balanced (kdesc s)" using c by (simp add: calls_def)
  have fr: "okp (\<lambda>_ t. balanced (kdesc t)) r" if "frames kdesc (kdesc s) r" for r :: "(int, ksys) res"
    by (rule okp_framed [OF that b])
  have rw: "frames kdesc (kdesc s) (sys_read e h me s)" "frames kdesc (kdesc s) (sys_write e h me s)"
    "frames kdesc (kdesc s) (sys_fstat e me s)" "frames kdesc (kdesc s) (sys_sbrk e h me s)" "frames kdesc (kdesc s) (sys_sleep e h me s)"
    unfolding sys_read_def sys_write_def sys_fstat_def sys_sbrk_def sys_sleep_def sys_sleep_loop_def argfd_def Let_def lift_sched_def
    by (auto intro!: frame fileread_frame [OF d] filewrite_frame [OF d] split: option.split)
  have pr: "okp (\<lambda>_ t. balanced (kdesc t)) (sys_wait e h me s)" "okp (\<lambda>_ t. balanced (kdesc t)) (sys_exit e h me s)"
    unfolding sys_wait_def sys_exit_def
    by (rule okp_frame [OF argaddr_frame [OF refl]], simp add: wait_ok b)
      (auto intro!: okpI simp: exit_def seqr_eq_Ok Let_def split: if_splits)
  note moving = fork_ok [OF c] pr sys_pipe_ok [OF c] sys_dup_ok [OF c] sys_open_ok [OF c] sys_close_ok [OF c]
  note keeping = rw [THEN fr] sys_link_frame [OF refl, THEN fr] sys_unlink_frame [OF refl, THEN fr] sys_mkdir_frame [OF refl, THEN fr]
    sys_mknod_frame [OF refl, THEN fr] sys_chdir_frame [OF refl, THEN fr] sys_exec_frame [OF refl, THEN fr]
    sys_kill_frame [OF refl, THEN fr] sys_sems_frame [OF refl, THEN fr] sys_sem_down_frame [OF refl, THEN fr]
  show ?thesis
    using f
    by (auto simp: syscalls_def sys_fork_def sys_getpid_def sys_uptime_def sys_helloworld_def b moving keeping)
qed

text \<open>C2. In a state where every file's reference count is the number of descriptors that name it, descriptors
  name entries of the file table, and neither unused processes nor zombies have any, every system call of a
  running process that returns leaves such a state; and when \<^verbatim>\<open>exit\<close> has closed the files of the process, none of
  its descriptors is left and the counts are right again. So no file is freed while a descriptor names it and
  none is leaked.\<close>

theorem syscalls_keep_file_counts:
  assumes "files_ok s" and "me < NPROC" and "pstate (kprocs s me) = RUNNING"
    and "e_devread e = Map.empty" and "e_devwrite e = Map.empty"
  shows "(\<forall>call r t. Some call \<in> set syscalls \<and> call (consoleinit h e) h me s = Ok r t \<longrightarrow> files_ok t) \<and>
    (\<forall>u t. exit_files (e_end e) me (e_sb e) [0..<NOFILE] s = Ok u t \<longrightarrow>
       files_ok t \<and> (\<forall>fd < NOFILE. ofile (kprocs t me) fd = None))"
proof -
  have d: "devs_ok (consoleinit h e)" by (rule devs_ok_console) (use assms in simp_all)
  have c: "calls me (kdesc s)" using assms by (simp add: calls_def files_ok_balanced fd_of_kdesc dead_def)
  have "okp (\<lambda>_ t. balanced (kdesc t) \<and> (\<forall>fd < NOFILE. fd_of (kdesc t) me fd = None)) (exit_files (e_end e) me (e_sb e) [0..<NOFILE] s)"
    by (rule exit_files_ok [OF c]) simp_all
  then show ?thesis
    using okpD [OF syscalls_balanced [OF d c]] by (auto simp: files_ok_balanced fd_of_kdesc)
qed

subsection \<open>An example\<close>

text \<open>One running process with descriptor 0 open.\<close>

definition demo_ksys :: ksys where
  "demo_ksys = demo_kernel (\<lambda>i. if i = 0 then idle_proc\<lparr>pstate := RUNNING, ofile := [0 \<mapsto> 0], cwd := Some 0\<rparr> else idle_proc) demo_fs
     (\<lambda>f. if f = 0 then demo_kfile else demo_kfile\<lparr>ftyp := FD_NONE, fref := 0\<rparr>) \<lparr>pmem = (\<lambda>_. 0), freelist = 0\<rparr>"

lemma demo_kprocs: "kprocs demo_ksys = (\<lambda>i. if i = 0 then idle_proc\<lparr>pstate := RUNNING, ofile := [0 \<mapsto> 0], cwd := Some 0\<rparr> else idle_proc)"
  by (simp add: demo_ksys_def)

lemma demo_files_ok: "files_ok demo_ksys"
proof -
  have "{(i, fd). i < NPROC \<and> fd < NOFILE \<and> ofile (kprocs demo_ksys i) fd = Some f} = (if f = 0 then {(0, 0)} else {})" for f
    by (auto simp: demo_kprocs idle_proc_def NPROC_def NOFILE_def split: if_splits)
  moreover have "fref (kft demo_ksys f) = (if f = 0 then 1 else 0)" for f by (simp add: demo_ksys_def demo_kfile_def)
  ultimately show ?thesis by (auto simp: files_ok_def demo_kprocs idle_proc_def NFILE_def split: if_splits)
qed

lemma demo_dup: "sys_dup 0 demo_ksys = Ok 1 (upd_file 0 (\<lambda>x. x\<lparr>fref := fref x + 1\<rparr>) (set_ofile 0 1 (Some 0) demo_ksys))"
proof -
  have "argfd 0 0 demo_ksys = Ok (Some (0, 0)) demo_ksys"
    by (simp add: argfd_def argint_def argraw_def load64_def demo_kprocs NOFILE_def) (simp add: demo_ksys_def)
  moreover have "fdalloc 0 0 demo_ksys = (Some 1, set_ofile 0 1 (Some 0) demo_ksys)"
    by (simp add: fdalloc_def demo_kprocs NOFILE_def upt_conv_Cons)
  moreover have "kft (set_ofile 0 1 (Some 0) demo_ksys) 0 = demo_kfile" by (simp add: set_ofile_def) (simp add: demo_ksys_def)
  ultimately show ?thesis by (simp add: sys_dup_def filedup_def demo_kfile_def)
qed

theorem syscalls_keep_file_counts_witness:
  "files_ok demo_ksys \<and> files_ok (upd_file 0 (\<lambda>x. x\<lparr>fref := fref x + 1\<rparr>) (set_ofile 0 1 (Some 0) demo_ksys))"
proof -
  have "Some (\<lambda>e h. sys_dup) \<in> set syscalls" by (simp add: syscalls_def)
  then show ?thesis
    using syscalls_keep_file_counts [of demo_ksys 0 demo_env 0] demo_files_ok demo_dup
    by (auto simp: demo_kprocs NPROC_def demo_env_def)
qed

end
