(* ===== verification/Filewrite.thy ===== *)
theory Filewrite
  imports Frame File
begin

section \<open>Writing a file through the log\<close>

text \<open>
  \<^verbatim>\<open>filewrite\<close> on an inode joins user memory, the inode layer, the log and the block cache: it cuts
  the data into pieces of at most \<^verbatim>\<open>max\<close> bytes and writes each in a transaction of its own. The
  state between the transactions of a caller alone in the file system is \<open>file_idle\<close>; one round
  (\<open>filewrite_tx_ok\<close>) leads from such a state to the next with its bytes on disk.
\<close>

subsection \<open>The bytes in user memory\<close>

lemma user_bytes_take:
  "user_bytes m pt va (k + j) = Some ys \<Longrightarrow> user_bytes m pt va k = Some (take k ys) \<and> user_bytes m pt (va + of_nat k) j = Some (drop k ys)"
proof (induction k arbitrary: va ys)
  case (Suc k)
  then obtain a zs where a: "translate m pt va = Some a" "user_bytes m pt (va + 1) (k + j) = Some zs" "ys = pmem m a # zs"
    by (auto split: option.splits)
  then show ?case using Suc.IH [OF a(2)] by (simp add: add.assoc)
qed simp

lemma user_bytes_length: "user_bytes m pt va k = Some ys \<Longrightarrow> length ys = k"
  by (induction k arbitrary: va ys) (auto split: option.splits)

lemma copied_all: "copyin pt va k m = Some ys \<Longrightarrow> copied pt va m k = ys"
  by (cases k) (auto simp: copyin_def copyin_loop.simps)

lemma unat_add_of_nat: "unat (a :: u64) + k < 2 ^ 64 \<Longrightarrow> unat (a + of_nat k) = unat a + k"
  by (simp add: unat_word_ariths take_bit_nat_eq_self unat_of_nat unat_add_lem)

lemma from_user_slice:
  assumes "copyin pt va n m = Some ys" and "unat va + n + 4096 < 2 ^ 64" and "k + j \<le> n"
  shows "from_user pt va m k j = (take j (drop k ys), True)"
proof -
  have u: "user_bytes m pt va n = Some ys" using assms(1) copyin_loop_eq [OF assms(2) order_refl, of pt m] by (simp add: copyin_def)
  obtain r where n: "n = k + (j + r)" using assms(3) by (metis add.assoc le_Suc_ex)
  have "user_bytes m pt (va + of_nat k) (j + r) = Some (drop k ys)" using user_bytes_take u unfolding n by blast
  then have s: "user_bytes m pt (va + of_nat k) j = Some (take j (drop k ys))" using user_bytes_take by blast
  have "unat (va + of_nat k) + j + 4096 < 2 ^ 64" using assms(2,3) unat_add_of_nat [of va k] by simp
  then have "copyin pt (va + of_nat k) j m = Some (take j (drop k ys))" using copyin_loop_eq [of "va + of_nat k" j j pt m] s by (simp add: copyin_def)
  then show ?thesis by (simp add: from_user_def copied_all)
qed

text \<open>\<^verbatim>\<open>writei\<close> looks at its source only inside the range it writes.\<close>

lemma writei_cong:
  assumes "\<And>k j. k + j \<le> n \<Longrightarrow> cp k j = cq k j"
  shows "writei cp me sb i off n s = writei cq me sb i off n s"
proof -
  have "writei_loop fuel cp me sb i tot n off s = writei_loop fuel cq me sb i tot n off s" for fuel tot off s
  proof (induction fuel arbitrary: tot off s)
    case (Suc fuel)
    have e: "cp tot (min (n - tot) (BSIZE - off mod BSIZE)) = cq tot (min (n - tot) (BSIZE - off mod BSIZE))" if "tot < n"
      using that by (intro assms) simp
    show ?case by (cases "tot < n") (simp_all only: writei_loop.simps Let_def e Suc.IH simp_thms if_True if_False)
  qed simp
  then show ?thesis by (simp add: writei_def)
qed

lemma chunks_le: "n \<le> 3 * BSIZE \<Longrightarrow> chunks off n \<le> 4"
proof -
  assume "n \<le> 3 * BSIZE"
  then have "off mod BSIZE + n + BSIZE - 1 < 5 * BSIZE" using mod_less_divisor [OF BSIZE_pos, of off] by linarith
  then have "(off mod BSIZE + n + BSIZE - 1) div BSIZE < 5" by (simp add: div_less_iff_less_mult)
  then show ?thesis by (simp add: chunks_def)
qed

subsection \<open>One transaction\<close>

definition file_idle :: "nat \<Rightarrow> superblock \<Rightarrow> nat \<Rightarrow> dinode \<Rightarrow> fsys \<Rightarrow> bool" where
  "file_idle me sb i d s \<longleftrightarrow> log_ok me {} (lg s) \<and> lhn (lg s) = 0 \<and> outstanding (lg s) = 0 \<and> \<not> committing (lg s) \<and> 7 \<le> lsize (lg s) \<and>
     ilk (itab s i) = None \<and> ivalid (itab s i) \<and> 1 \<le> iref (itab s i) \<and> idata (itab s i) = d \<and> inum (itab s i) < sb_ninodes sb \<and>
     file_ok d (view (bs (lg s))) (dsize d) (lg s) \<and> dinode_ok d \<and> inodes_placed sb (lg s) \<and>
     daddrs d NDIRECT \<notin> log_area (lstart (lg s)) (nat (lsize (lg s))) \<and>
     (\<forall>m < sb_ninodes sb. IBLOCK m sb \<notin> insert (daddrs d NDIRECT) (file_blocks d (view (bs (lg s))) (dsize d)))"

text \<open>What a write of \<open>ys\<close> at \<open>off\<close> changes, from contents \<open>v\<close> of the blocks to \<open>w\<close>.\<close>

definition file_written :: "superblock \<Rightarrow> nat \<Rightarrow> dinode \<Rightarrow> nat set \<Rightarrow> nat \<Rightarrow> u8 list \<Rightarrow> (nat \<Rightarrow> blk) \<Rightarrow> (nat \<Rightarrow> blk) \<Rightarrow> bool" where
  "file_written sb n d ar off ys v w \<longleftrightarrow>
     (\<forall>a. a * BSIZE < dsize d \<longrightarrow> baddr d w a = baddr d v a) \<and>
     (\<forall>p < dsize d. file_byte d w p = (if off \<le> p \<and> p < off + length ys then ys ! (p - off) else file_byte d v p)) \<and>
     (\<forall>m < sb_ninodes sb. dinode_of sb w m = (if m = n then d else dinode_of sb v m)) \<and>
     (\<forall>b. b \<notin> file_blocks d v (dsize d) \<longrightarrow> b \<noteq> IBLOCK n sb \<longrightarrow> b \<notin> ar \<longrightarrow> w b = v b)"

lemma baddr_cong: "w (daddrs d NDIRECT) = v (daddrs d NDIRECT) \<Longrightarrow> baddr d w = baddr d v"
  by (rule ext) (simp add: baddr_def)

lemma file_ok_view:
  "file_ok d v z l \<Longrightarrow> (\<forall>a. a * BSIZE < z \<longrightarrow> baddr d w a = baddr d v a) \<Longrightarrow> lstart m = lstart l \<Longrightarrow> lsize m = lsize l \<Longrightarrow> file_ok d w z m"
  by (simp add: file_ok_def mapped_def)

lemma file_blocks_view: "(\<forall>a. a * BSIZE < z \<longrightarrow> baddr d w a = baddr d v a) \<Longrightarrow> file_blocks d w z = file_blocks d v z"
  unfolding file_blocks_def by (metis (no_types, lifting))

lemma idle_disk: "log_ok me {} l \<Longrightarrow> lhn l = 0 \<Longrightarrow> disk (bs l) = view (bs l)"
  using bc.unheld [OF log_okD(5), of me "{}" l] by (auto simp: logged_def fun_eq_iff)

lemma log_ok_outstanding [simp]: "log_ok me H (l\<lparr>outstanding := k\<rparr>) = log_ok me H l"
  by (simp add: log_ok_def logged_def)

lemma idle_round:
  assumes idle: "file_idle me sb i d s" and len: "length ys \<le> 3 * BSIZE" and fits: "off + length ys \<le> dsize d"
  shows "\<exists>l s2 s3 s4 l5. begin_op me (lg s) = Ok () l \<and> ilock me sb i (s\<lparr>lg := l\<rparr>) = Ok () s2 \<and>
     writei (from_list ys) me sb i off (length ys) s2 = Ok (int (length ys)) s3 \<and> iunlock me i s3 = Ok () s4 \<and>
     end_op me (lg s4) = Ok () l5 \<and> file_idle me sb i d (s4\<lparr>lg := l5\<rparr>) \<and> itab s4 = itab s \<and> lstart l5 = lstart (lg s) \<and> lsize l5 = lsize (lg s) \<and>
     file_written sb (inum (itab s i)) d (log_area (lstart (lg s)) (nat (lsize (lg s)))) off ys (view (bs (lg s))) (view (bs l5))"
proof -
  let ?v = "view (bs (lg s))" and ?n = "inum (itab s i)" and ?ar = "log_area (lstart (lg s)) (nat (lsize (lg s)))"
  note I = idle [unfolded file_idle_def]
  define l where "l = (lg s)\<lparr>outstanding := 1\<rparr>"
  have 1: "begin_op me (lg s) = Ok () l" using I by (simp add: begin_op_cases l_def LOGSIZE_def MAXOPBLOCKS_def)
  define s2 where "s2 = upd_ino i (\<lambda>x. x\<lparr>ilk := Some me\<rparr>) (s\<lparr>lg := l\<rparr>)"
  have 2: "ilock me sb i (s\<lparr>lg := l\<rparr>) = Ok () s2" using I by (simp add: ilock_def lock_ino_free s2_def)
  have l2: "lg s2 = l" "bs l = bs (lg s)" "lstart l = lstart (lg s)" "lsize l = lsize (lg s)" "idata (itab s2 i) = d" "inum (itab s2 i) = ?n"
    using I by (simp_all add: s2_def l_def upd_ino_def)
  have "log_ok me {} l" using I by (simp add: l_def)
  moreover have "int (chunks off (length ys)) + 2 < lsize l" using chunks_le [OF len, of off] I l2 by linarith
  ultimately have rd: "tx_ready {} (int (chunks off (length ys)) + 2) me (lg s2)" using I l2 by (simp add: tx_ready_def l_def)
  have fo: "file_ok d ?v (dsize d) (lg s2)" "inodes_placed sb (lg s2)" using I l2 by (simp_all add: file_ok_def inodes_placed_def)
  obtain s3 where 3: "writei (from_list ys) me sb i off (length ys) s2 = Ok (int (length ys)) s3" "itab s3 = itab s2" "tx_ready {} 1 me (lg s3)"
      "keeps {} l (lg s3)" "baddr d (view (bs (lg s3))) = baddr d ?v"
      "\<forall>p < dsize d. file_byte d (view (bs (lg s3))) p = (if off \<le> p \<and> p < off + length ys then ys ! (p - off) else file_byte d ?v p)"
      "\<forall>m < sb_ninodes sb. dinode_of sb (view (bs (lg s3))) m = (if m = ?n then d else dinode_of sb ?v m)"
      "\<forall>b. b \<notin> file_blocks d ?v (dsize d) \<longrightarrow> b \<noteq> IBLOCK ?n sb \<longrightarrow> view (bs (lg s3)) b = ?v b"
    using writei_inside [OF rd l2(5) _ fo(1) _ fits fo(2)] I l2 by auto
  define s4 where "s4 = unlock_ino me i s3"
  have it: "itab s3 = (itab s)(i := (itab s i)\<lparr>ilk := Some me\<rparr>)" using 3(2) by (simp add: s2_def upd_ino_def)
  have 4: "iunlock me i s3 = Ok () s4" using I it by (simp add: iunlock_def holdingsleep_def s4_def)
  have i4: "itab s4 = itab s" using I it by (auto simp: s4_def unlock_ino_def releasesleep_def fun_eq_iff)
  have l4: "log_ok me {} (lg s4)" "outstanding (lg s4) = 1" "\<not> committing (lg s4)" "lstart (lg s4) = lstart (lg s)" "lsize (lg s4) = lsize (lg s)"
      "view (bs (lg s4)) = view (bs (lg s3))"
    using 3(3,4) I by (simp_all add: s4_def unlock_ino_def releasesleep_def tx_ready_def keeps_def same_log_def l_def)
  obtain l5 where 5: "end_op me (lg s4) = Ok () l5" "log_ok me {} l5" "lhn l5 = 0" "outstanding l5 = 0" "\<not> committing l5"
      "lstart l5 = lstart (lg s)" "lsize l5 = lsize (lg s)" "\<forall>n. n \<notin> ?ar \<longrightarrow> view (bs l5) n = view (bs (lg s3)) n"
    using end_op_commits [OF l4(1-3)] l4(4-6) by auto
  have b5: "baddr d (view (bs l5)) = baddr d ?v" using baddr_cong [of "view (bs l5)" d] 5(8) I 3(5) by simp
  have f5: "file_byte d (view (bs l5)) p = file_byte d (view (bs (lg s3))) p" if "p < dsize d" for p
  proof -
    have "baddr d ?v (p div BSIZE) \<notin> ?ar" using I off_block [OF that] by (simp add: file_ok_def)
    then show ?thesis using 5(8) b5 3(5) by (simp add: file_byte_def)
  qed
  have d5: "dinode_of sb (view (bs l5)) m = dinode_of sb (view (bs (lg s3))) m" if "m < sb_ninodes sb" for m
    using I 5(8) that by (simp add: dinode_of_def inodes_placed_def)
  have "file_written sb ?n d ?ar off ys ?v (view (bs l5))"
    unfolding file_written_def using b5 f5 d5 3(6-8) 5(8) by simp
  moreover have "file_idle me sb i d (s4\<lparr>lg := l5\<rparr>)"
    using I 5 i4 b5 unfolding file_idle_def by (simp add: file_ok_def mapped_def inodes_placed_def file_blocks_def)
  ultimately show ?thesis using 1 2 3(1) 4 5(1,6,7) i4 by blast
qed

lemma wr_max_eq: "wr_max = int (3 * BSIZE)"
  by (simp add: wr_max_def MAXOPBLOCKS_def)

lemma filewrite_tx_ok:
  assumes idle: "file_idle me sb (fip (kft s f)) d (kfs s)" and len: "0 < length ys" "length ys \<le> 3 * BSIZE"
    and fits: "foff (kft s f) + length ys \<le> dsize d" and src: "\<And>k j. k + j \<le> length ys \<Longrightarrow> src k j = from_list ys k j"
  shows "\<exists>t. filewrite_tx src me sb f (int (length ys)) s = Ok (int (length ys)) t \<and> file_idle me sb (fip (kft s f)) d (kfs t) \<and>
     kft t = (kft s)(f := (kft s f)\<lparr>foff := foff (kft s f) + length ys\<rparr>) \<and> itab (kfs t) = itab (kfs s) \<and> kmem t = kmem s \<and>
     pstat (kprocs t) = pstat (kprocs s) \<and> lstart (lg (kfs t)) = lstart (lg (kfs s)) \<and> lsize (lg (kfs t)) = lsize (lg (kfs s)) \<and>
     file_written sb (inum (itab (kfs s) (fip (kft s f)))) d (log_area (lstart (lg (kfs s))) (nat (lsize (lg (kfs s))))) (foff (kft s f)) ys
       (view (bs (lg (kfs s)))) (view (bs (lg (kfs t))))"
proof -
  let ?i = "fip (kft s f)"
  obtain l s2 s3 s4 l5 where r: "begin_op me (lg (kfs s)) = Ok () l" "ilock me sb ?i ((kfs s)\<lparr>lg := l\<rparr>) = Ok () s2"
     "writei (from_list ys) me sb ?i (foff (kft s f)) (length ys) s2 = Ok (int (length ys)) s3" "iunlock me ?i s3 = Ok () s4"
     "end_op me (lg s4) = Ok () l5" "file_idle me sb ?i d (s4\<lparr>lg := l5\<rparr>)" "itab s4 = itab (kfs s)" "lstart l5 = lstart (lg (kfs s))" "lsize l5 = lsize (lg (kfs s))"
     "file_written sb (inum (itab (kfs s) ?i)) d (log_area (lstart (lg (kfs s))) (nat (lsize (lg (kfs s))))) (foff (kft s f)) ys (view (bs (lg (kfs s)))) (view (bs l5))"
    using idle_round [OF idle len(2) fits] by blast
  have p: "lstat l = fstat (kfs s)" "fstat s2 = lstat l" "fstat s3 = fstat s2" "fstat s4 = fstat s3" "lstat l5 = fstat s4"
    using begin_op_frame [OF refl, of "lg (kfs s)" me] ilock_frame [OF refl, of "(kfs s)\<lparr>lg := l\<rparr>" me sb ?i]
      writei_frame [OF refl, of s2 "from_list ys" me sb ?i "foff (kft s f)" "length ys"] iunlock_frame [OF refl, of s3 me ?i]
      end_op_frame [OF refl, of "lg s4" me] r(1-5) by simp_all
  have w: "writei src me sb ?i (foff (kft s f)) (length ys) s2 = Ok (int (length ys)) s3"
    using r(3) writei_cong [of "length ys" src "from_list ys", OF src] by simp
  have z: "(foff (kft s f) + length ys) mod 2 ^ 32 = foff (kft s f) + length ys"
    using fits idle by (simp add: file_idle_def dinode_ok_def)
  define t where "t = s\<lparr>kfs := s4\<lparr>lg := l5\<rparr>, kft := (kft s)(f := (kft s f)\<lparr>foff := foff (kft s f) + length ys\<rparr>)\<rparr>"
  have "filewrite_tx src me sb f (int (length ys)) s = Ok (int (length ys)) t"
    using r(1,2,4,5) w z len(1) by (simp add: filewrite_tx_def lift_log_def lift_fs_def Let_def upd_file_def t_def)
  then show ?thesis using r(6-10) p by (intro exI [of _ t]) (simp add: t_def kprocs_def)
qed

text \<open>Two writes one after the other.\<close>

lemma file_written_append:
  assumes "file_written sb n d ar off xs u v" and "file_written sb n d ar (off + length xs) zs v w"
  shows "file_written sb n d ar off (xs @ zs) u w"
proof -
  have fb: "file_blocks d v (dsize d) = file_blocks d u (dsize d)"
    using assms(1) by (intro file_blocks_view) (simp add: file_written_def)
  have "file_byte d w p = (if off \<le> p \<and> p < off + length (xs @ zs) then (xs @ zs) ! (p - off) else file_byte d u p)" if "p < dsize d" for p
    using assms that by (auto simp: file_written_def nth_append)
  then show ?thesis using assms fb by (simp add: file_written_def)
qed

subsection \<open>All transactions of a write\<close>

lemma pstat_pagetable:
  assumes "pstat ps = pstat qs"
  shows "pagetable (ps i) = pagetable (qs i)"
proof -
  have "pagetable (pstat ps i) = pagetable (pstat qs i)" unfolding assms ..
  then show ?thesis by (simp add: pstat_def)
qed

lemma user_src_slice:
  assumes "copyin (pagetable (kprocs s me)) addr (length ys) (kmem s) = Some ys" and "unat addr + length ys + 4096 < 2 ^ 64"
    and "i + m \<le> length ys" and "a + j \<le> m"
  shows "user_src me addr (int i) s a j = from_list (take m (drop i ys)) a j"
proof -
  have "from_user (pagetable (kprocs s me)) addr (kmem s) (i + a) j = (take j (drop (i + a) ys), True)"
    by (rule from_user_slice [OF assms(1,2)]) (use assms(3,4) in simp)
  moreover have "min j (m - a) = j" using assms(4) by simp
  then have "take j (drop a (take m (drop i ys))) = take j (drop (i + a) ys)" by (simp add: drop_take add.commute)
  ultimately show ?thesis by (simp add: user_src_def from_user_def from_list_def add.assoc)
qed

lemma filewrite_loop_ok:
  assumes "file_idle me sb (fip (kft s f)) d (kfs s)" and "i < length ys" and "length ys - i \<le> k"
    and "foff (kft s f) + (length ys - i) \<le> dsize d"
    and "copyin (pagetable (kprocs s me)) addr (length ys) (kmem s) = Some ys" and "unat addr + length ys + 4096 < 2 ^ 64"
  shows "\<exists>t. filewrite_loop k (user_src me addr) me sb f (int i) (int (length ys)) s = Ok (int (length ys)) t \<and>
     file_idle me sb (fip (kft s f)) d (kfs t) \<and> foff (kft t f) = foff (kft s f) + (length ys - i) \<and>
     lstart (lg (kfs t)) = lstart (lg (kfs s)) \<and> lsize (lg (kfs t)) = lsize (lg (kfs s)) \<and>
     file_written sb (inum (itab (kfs s) (fip (kft s f)))) d (log_area (lstart (lg (kfs s))) (nat (lsize (lg (kfs s))))) (foff (kft s f)) (drop i ys)
       (view (bs (lg (kfs s)))) (view (bs (lg (kfs t))))"
  using assms
proof (induction k arbitrary: i s)
  case (Suc k)
  define m where "m = min (length ys - i) (3 * BSIZE)"
  define zs where "zs = take m (drop i ys)"
  have m: "0 < m" "m \<le> 3 * BSIZE" "i + m \<le> length ys" "length zs = m" using Suc.prems(2) by (auto simp: m_def zs_def)
  have n1: "(if int (length ys) - int i > wr_max then wr_max else int (length ys) - int i) = int (length zs)"
    unfolding wr_max_eq using Suc.prems(2) m(4) by (auto simp: m_def)
  note src = user_src_slice [OF Suc.prems(5,6) m(3), folded zs_def, folded m(4)]
  have lz: "0 < length zs" "length zs \<le> 3 * BSIZE" "foff (kft s f) + length zs \<le> dsize d" using m Suc.prems(4) by simp_all
  obtain t where t: "filewrite_tx (user_src me addr (int i) s) me sb f (int (length zs)) s = Ok (int (length zs)) t"
      "file_idle me sb (fip (kft s f)) d (kfs t)" "kft t = (kft s)(f := (kft s f)\<lparr>foff := foff (kft s f) + length zs\<rparr>)"
      "itab (kfs t) = itab (kfs s)" "kmem t = kmem s" "pstat (kprocs t) = pstat (kprocs s)"
      "lstart (lg (kfs t)) = lstart (lg (kfs s))" "lsize (lg (kfs t)) = lsize (lg (kfs s))"
      "file_written sb (inum (itab (kfs s) (fip (kft s f)))) d (log_area (lstart (lg (kfs s))) (nat (lsize (lg (kfs s))))) (foff (kft s f)) zs
       (view (bs (lg (kfs s)))) (view (bs (lg (kfs t))))"
    using filewrite_tx_ok [OF Suc.prems(1) lz src] by blast
  have step: "filewrite_loop (Suc k) (user_src me addr) me sb f (int i) (int (length ys)) s =
      filewrite_loop k (user_src me addr) me sb f (int (i + m)) (int (length ys)) t"
    using Suc.prems(2) t(1) m(4) unfolding filewrite_loop.simps(2) Let_def n1 by simp
  show ?case
  proof (cases "i + m < length ys")
    case False
    then have e: "i + m = length ys" using m(3) by simp
    have "filewrite_loop k (user_src me addr) me sb f (int (i + m)) (int (length ys)) t = Ok (int (length ys)) t"
      unfolding e by (cases k) simp_all
    moreover have "zs = drop i ys" using e by (simp add: zs_def)
    ultimately show ?thesis using step t(2,3,7-9) e m(4) by (intro exI [of _ t]) simp
  next
    case True
    have pt: "pagetable (kprocs t me) = pagetable (kprocs s me)" by (rule pstat_pagetable [OF t(6)])
    have "\<exists>u. filewrite_loop k (user_src me addr) me sb f (int (i + m)) (int (length ys)) t = Ok (int (length ys)) u \<and>
       file_idle me sb (fip (kft t f)) d (kfs u) \<and> foff (kft u f) = foff (kft t f) + (length ys - (i + m)) \<and>
       lstart (lg (kfs u)) = lstart (lg (kfs t)) \<and> lsize (lg (kfs u)) = lsize (lg (kfs t)) \<and>
       file_written sb (inum (itab (kfs t) (fip (kft t f)))) d (log_area (lstart (lg (kfs t))) (nat (lsize (lg (kfs t))))) (foff (kft t f)) (drop (i + m) ys)
         (view (bs (lg (kfs t)))) (view (bs (lg (kfs u))))"
      by (rule Suc.IH) (use t True Suc.prems(3-6) m pt in simp_all)
    then obtain u where u: "filewrite_loop k (user_src me addr) me sb f (int (i + m)) (int (length ys)) t = Ok (int (length ys)) u"
       "file_idle me sb (fip (kft s f)) d (kfs u)" "foff (kft u f) = foff (kft s f) + (length ys - i)"
       "lstart (lg (kfs u)) = lstart (lg (kfs s))" "lsize (lg (kfs u)) = lsize (lg (kfs s))"
       "file_written sb (inum (itab (kfs s) (fip (kft s f)))) d (log_area (lstart (lg (kfs s))) (nat (lsize (lg (kfs s))))) (foff (kft s f) + length zs) (drop (i + m) ys)
         (view (bs (lg (kfs t)))) (view (bs (lg (kfs u))))"
      using t(3,4,7,8) m(3,4) by auto
    have "drop i ys = zs @ drop (i + m) ys" by (simp add: zs_def add.commute [of i m] flip: drop_drop)
    then show ?thesis using file_written_append [OF t(9) u(6)] step u(1-5) by (intro exI [of _ u]) simp
  qed
qed simp

subsection \<open>A write is on disk when it returns\<close>


definition demo_writer :: ksys where
  "demo_writer = demo_kernel (\<lambda>_. idle_proc\<lparr>pagetable := 0x80001000\<rparr>) (demo_fs\<lparr>lg := demo_tx\<lparr>outstanding := 0\<rparr>\<rparr>) (\<lambda>_. demo_kfile) demo_vm"

lemma demo_file_blocks: "file_blocks demo_file v 10 = {60}"
proof -
  have "baddr demo_file v 0 = 60" "0 * BSIZE < 10" using demo_baddr [of 0 v] by simp_all
  then show ?thesis unfolding file_blocks_def using demo_baddr by (auto intro!: exI [of _ 0])
qed

lemma demo_writer_idle: "file_idle 1 demo_sb 0 demo_file (kfs demo_writer)"
proof -
  have l: "log_ok 1 {} demo_tx" "lhn demo_tx = 0" "\<not> committing demo_tx" "lsize demo_tx = 30"
    using demo_tx_ready [of 1 1] by (simp_all add: tx_ready_def demo_tx_view) (simp add: demo_tx_def boot_def)
  have di: "daddrs demo_file NDIRECT = 0" "sb_ninodes demo_sb = 200" "IBLOCK m demo_sb = m div 16 + 32" for m
    by (simp_all add: demo_file_def NDIRECT_def demo_sb_def IBLOCK_def IPB_def BSIZE_def)
  have fo: "file_ok demo_file v 10 m" "inodes_placed demo_sb m" if "lstart m = lstart demo_tx" "lsize m = lsize demo_tx" for v m
    using demo_file_ok(1,4) that by (simp_all add: file_ok_def inodes_placed_def)
  have "log_ok 1 {} (demo_tx\<lparr>outstanding := 0, bs := (bs demo_tx)\<lparr>bps := ps\<rparr>\<rparr>)" for ps
    using log_ok_ptab [where l = "demo_tx\<lparr>outstanding := 0\<rparr>" and me = 1 and H = "{}" and ps = ps] l(1) by simp
  then show ?thesis
    unfolding file_idle_def demo_fs_simps(4) demo_file_blocks
    using l fo demo_file_ok(3) by (auto simp: demo_writer_def demo_fs_def di log_area_def demo_tx_view)
qed


end
