(* ===== verification/Pingpong.thy ===== *)
theory Pingpong
  imports Semaphore "HOL-Library.Sublist"
begin

text \<open>
  The program \<^verbatim>\<open>user/pingpong.c\<close> on top of the kernel semaphores. \<open>pp_setup\<close> is the code up to
  \<^verbatim>\<open>fork\<close>: the search for two closed semaphores and the first \<^verbatim>\<open>sem_down(sem2)\<close>. After the
  fork the two processes run the same loop with the roles given by \<^verbatim>\<open>rc\<close>; \<open>pp_step\<close>
  interleaves their instructions with everything else the machine does. A process that is inside
  a system call or about to make one is at a program counter of \<open>pp_pc\<close>; output leaves the
  process one character at a time, as the user-level \<^verbatim>\<open>putc\<close> writes it. The loop index \<^verbatim>\<open>i\<close> is
  at most \<^verbatim>\<open>amount\<close>, so it is a natural number.

  The invariant follows the single token that moves from \<^verbatim>\<open>sem1\<close> to the child, to
  \<^verbatim>\<open>sem2\<close>, to the parent and back. The last round is special: the child has no children, its
  \<^verbatim>\<open>wait(0)\<close> returns at once and it may close both semaphores before the parent has taken its
  last turn, which the parent survives because \<^verbatim>\<open>sem_down\<close> does not sleep on a closed semaphore.
\<close>

section \<open>The program\<close>

primrec pp_open_loop :: "nat list \<Rightarrow> nat list \<Rightarrow> semsys \<Rightarrow> nat list \<times> semsys" where
  "pp_open_loop [] found s = (found, s)"
| "pp_open_loop (index # is) found s =
     (if length found = 2 then (found, s)
      else case sem_open (int index) 1 s of
             (r, t) \<Rightarrow> pp_open_loop is (if r = 1 then found @ [index] else found) t)"

text \<open>\<open>None\<close> is the \<^verbatim>\<open>exit(1)\<close> after the message that \<^verbatim>\<open>sem_open\<close> failed.\<close>

definition pp_setup :: "nat \<Rightarrow> semsys \<Rightarrow> ((nat \<times> nat) option, semsys) res" where
  "pp_setup h s =
     (case pp_open_loop [0..<256] [] s of
        (found, t) \<Rightarrow>
          (case found of
             [sem1, sem2] \<Rightarrow>
               (case sem_down h (int sem2) t of
                  Ok _ u \<Rightarrow> Ok (Some (sem1, sem2)) u
                | Panic m \<Rightarrow> Panic m
                | Wait u \<Rightarrow> Wait u)
           | _ \<Rightarrow> Ok None t))"

datatype pp_pc =
    AtDown nat
  | InDown nat
  | Printing nat string
  | AtUp nat
  | AtWait
  | AtClose1
  | AtClose2
  | AtExit

record pp_cfg =
  amount :: nat
  sem1 :: nat
  sem2 :: nat
  child :: nat
  parentp :: nat

record pp_run =
  psy :: semsys
  pcs :: "nat \<Rightarrow> pp_pc"
  pout :: string

definition ping :: string where "ping = ''Ping'' @ [CHR 0x0A]"

definition pong :: string where "pong = ''          Pong'' @ [CHR 0x0A]"

definition down_of :: "pp_cfg \<Rightarrow> nat \<Rightarrow> nat" where
  "down_of g p = (if p = child g then sem1 g else sem2 g)"

definition up_of :: "pp_cfg \<Rightarrow> nat \<Rightarrow> nat" where
  "up_of g p = (if p = child g then sem2 g else sem1 g)"

definition msg_of :: "pp_cfg \<Rightarrow> nat \<Rightarrow> string" where
  "msg_of g p = (if p = child g then ping else pong)"

definition loop_head :: "pp_cfg \<Rightarrow> nat \<Rightarrow> pp_pc" where
  "loop_head g i = (if i < amount g then AtDown i else AtWait)"

text \<open>
  What the other processes, the scheduler and the interrupts may do between two instructions of
  the program: anything that leaves the two semaphores alone and does not put one of the two
  processes to sleep in a \<^verbatim>\<open>sem_down\<close> it did not call.
\<close>

definition pp_others :: "pp_cfg \<Rightarrow> semsys \<Rightarrow> semsys \<Rightarrow> bool" where
  "pp_others g s t \<longleftrightarrow>
     sems t (sem1 g) = sems s (sem1 g) \<and> sems t (sem2 g) = sems s (sem2 g) \<and>
     (semsleep (sk t) (child g) (sem1 g) \<longrightarrow> semsleep (sk s) (child g) (sem1 g)) \<and>
     (semsleep (sk t) (parentp g) (sem2 g) \<longrightarrow> semsleep (sk s) (parentp g) (sem2 g))"

definition goto :: "nat \<Rightarrow> pp_pc \<Rightarrow> semsys \<Rightarrow> pp_run \<Rightarrow> pp_run" where
  "goto p l s x = x\<lparr>psy := s, pcs := (pcs x)(p := l)\<rparr>"

inductive pp_step :: "pp_cfg \<Rightarrow> nat \<Rightarrow> nat \<Rightarrow> pp_run \<Rightarrow> pp_run \<Rightarrow> bool" for g h p where
  pp_down: "pcs x p = AtDown i \<Longrightarrow> sem_down h (int (down_of g p)) (psy x) = Ok r t \<Longrightarrow>
     pp_step g h p x (goto p (Printing i (msg_of g p)) t x)"
| pp_down_sleep: "pcs x p = AtDown i \<Longrightarrow> sem_down h (int (down_of g p)) (psy x) = Wait t \<Longrightarrow>
     pp_step g h p x (goto p (InDown i) t x)"
| pp_resume: "pcs x p = InDown i \<Longrightarrow> sem_down_resume h p (down_of g p) (psy x) = Ok r t \<Longrightarrow>
     pp_step g h p x (goto p (Printing i (msg_of g p)) t x)"
| pp_resume_sleep: "pcs x p = InDown i \<Longrightarrow> sem_down_resume h p (down_of g p) (psy x) = Wait t \<Longrightarrow>
     pp_step g h p x (goto p (InDown i) t x)"
| pp_putc: "pcs x p = Printing i (c # cs) \<Longrightarrow>
     pp_step g h p x ((goto p (Printing i cs) (psy x) x)\<lparr>pout := pout x @ [c]\<rparr>)"
| pp_printed: "pcs x p = Printing i [] \<Longrightarrow> pp_step g h p x (goto p (AtUp i) (psy x) x)"
| pp_up: "pcs x p = AtUp i \<Longrightarrow> sem_up h (int (up_of g p)) (psy x) = (r, t) \<Longrightarrow>
     pp_step g h p x (goto p (loop_head g (Suc i)) t x)"
| pp_wait: "pcs x p = AtWait \<Longrightarrow> p = child g \<or> pcs x (child g) = AtExit \<Longrightarrow>
     pp_step g h p x (goto p AtClose1 (psy x) x)"
| pp_close1: "pcs x p = AtClose1 \<Longrightarrow> sem_close (int (sem1 g)) (psy x) = (r, t) \<Longrightarrow>
     pp_step g h p x (goto p AtClose2 t x)"
| pp_close2: "pcs x p = AtClose2 \<Longrightarrow> sem_close (int (sem2 g)) (psy x) = (r, t) \<Longrightarrow>
     pp_step g h p x (goto p AtExit t x)"

inductive pp_reach :: "pp_cfg \<Rightarrow> pp_run \<Rightarrow> pp_run \<Rightarrow> bool" for g x where
  pr_start: "pp_reach g x x"
| pr_prog: "pp_reach g x y \<Longrightarrow> p = child g \<or> p = parentp g \<Longrightarrow> cur (sk (psy y)) h = Some p \<Longrightarrow>
     pp_step g h p y z \<Longrightarrow> pp_reach g x z"
| pr_others: "pp_reach g x y \<Longrightarrow> pp_others g (psy y) t \<Longrightarrow> pp_reach g x (y\<lparr>psy := t\<rparr>)"

text \<open>The state right after \<^verbatim>\<open>fork\<close>: the child is new and the parent is running.\<close>

definition pp_start :: "pp_cfg \<Rightarrow> pp_run \<Rightarrow> bool" where
  "pp_start g x \<longleftrightarrow>
     0 < amount g \<and> child g \<noteq> parentp g \<and> child g < NPROC \<and> parentp g < NPROC \<and>
     (\<exists>h s. pp_setup h s = Ok (Some (sem1 g, sem2 g)) (psy x)) \<and>
     pcs x (child g) = loop_head g 0 \<and> pcs x (parentp g) = loop_head g 0 \<and> pout x = [] \<and>
     \<not> semsleep (sk (psy x)) (child g) (sem1 g) \<and> \<not> semsleep (sk (psy x)) (parentp g) (sem2 g)"

section \<open>The prologue\<close>

lemma sem_open_one:
  "sem_open (int k) 1 s = (r, t) \<Longrightarrow> k < NSEM \<Longrightarrow>
   if r = 1 then t = s\<lparr>sems := (sems s)(k := (sems s k)\<lparr>count := 1, bound := 1\<rparr>)\<rparr> else t = s"
  by (auto simp: sem_open_def sem_ok_int Let_def split: if_splits)

lemma pp_open_loop_found:
  assumes "pp_open_loop is found s = (fs, t)" and "distinct (found @ is)"
    and "\<forall>k \<in> set found \<union> set is. k < NSEM"
    and "\<forall>k \<in> set found. count (sems s k) = 1 \<and> bound (sems s k) = 1"
  shows "distinct fs \<and> (\<forall>k \<in> set fs. k < NSEM \<and> count (sems t k) = 1 \<and> bound (sems t k) = 1)"
  using assms
proof (induction "is" arbitrary: found s)
  case Nil
  then show ?case by auto
next
  case (Cons k ks)
  show ?case
  proof (cases "length found = 2")
    case True
    with Cons.prems show ?thesis by auto
  next
    case False
    obtain r u where o: "sem_open (int k) 1 s = (r, u)" by (cases "sem_open (int k) 1 s")
    from Cons.prems(3) have k: "k < NSEM" by simp
    note u = sem_open_one [OF o k]
    from Cons.prems(1) False o
    have e: "pp_open_loop ks (if r = 1 then found @ [k] else found) u = (fs, t)" by simp
    show ?thesis
      by (rule Cons.IH [OF e]) (use Cons.prems(2-4) u in \<open>auto split: if_splits\<close>)
  qed
qed

lemma pp_setup_sems:
  assumes "pp_setup h s = Ok (Some (a, b)) u"
  shows "a \<noteq> b \<and> a < NSEM \<and> b < NSEM \<and>
    count (sems u a) = 1 \<and> bound (sems u a) = 1 \<and> count (sems u b) = 0 \<and> bound (sems u b) = 1"
proof -
  obtain fs t where l: "pp_open_loop [0..<256] [] s = (fs, t)"
    by (cases "pp_open_loop [0..<256] [] s")
  have d: "distinct fs \<and> (\<forall>k \<in> set fs. k < NSEM \<and> count (sems t k) = 1 \<and> bound (sems t k) = 1)"
    by (rule pp_open_loop_found [OF l]) (auto simp: NSEM_def)
  have fs: "fs = [a, b]" and "\<exists>r. sem_down h (int b) t = Ok r u"
    using assms by (auto simp: pp_setup_def l split: list.splits res.splits)
  then obtain r where "sem_down h (int b) t = Ok r u" by blast
  with d fs show ?thesis
    by (auto simp: sem_down_def sem_down_loop_def sem_ok_int split: if_splits)
qed

section \<open>The invariant\<close>

definition rounds :: "nat \<Rightarrow> string" where
  "rounds k = concat (replicate k (ping @ pong))"

definition in_turn :: "nat \<Rightarrow> pp_pc \<Rightarrow> bool" where
  "in_turn k l \<longleftrightarrow> l = AtDown k \<or> l = InDown k"

text \<open>The semaphores after the last ping, by the program counter of the child; \<open>a\<close> and \<open>b\<close> are the
  counts while they are open. A parent woken from \<^verbatim>\<open>sem_down\<close> after the child closed
  \<^verbatim>\<open>sem2\<close> leaves its count at \<open>-2\<close>.\<close>

fun closing :: "pp_pc \<Rightarrow> int \<Rightarrow> int \<Rightarrow> int \<Rightarrow> int \<Rightarrow> bool" where
  "closing AtWait a b ca cb = (ca = a \<and> cb = b)"
| "closing AtClose1 a b ca cb = (ca = a \<and> cb = b)"
| "closing AtClose2 a b ca cb = (ca = -1 \<and> cb = b)"
| "closing AtExit a b ca cb = (ca = -1 \<and> (cb = -1 \<or> cb = -2))"
| "closing _ a b ca cb = False"

text \<open>Program counters of child and parent, counts of the two semaphores, output, and whether the
  child sleeps on \<^verbatim>\<open>sem1\<close> and the parent on \<^verbatim>\<open>sem2\<close>.\<close>

inductive pp_phase :: "nat \<Rightarrow> pp_pc \<Rightarrow> pp_pc \<Rightarrow> int \<Rightarrow> int \<Rightarrow> string \<Rightarrow> bool \<Rightarrow> bool \<Rightarrow> bool" for n where
  token1: "k < n \<Longrightarrow> in_turn k lc \<Longrightarrow> in_turn k lp \<Longrightarrow> pp_phase n lc lp 1 0 (rounds k) False sp"
| pinging: "k < n \<Longrightarrow> in_turn k lp \<Longrightarrow> pre @ rest = ping \<Longrightarrow>
     pp_phase n (Printing k rest) lp 0 0 (rounds k @ pre) sc sp"
| pinged: "k < n \<Longrightarrow> in_turn k lp \<Longrightarrow> pp_phase n (AtUp k) lp 0 0 (rounds k @ ping) sc sp"
| token2: "Suc k < n \<Longrightarrow> in_turn (Suc k) lc \<Longrightarrow> in_turn k lp \<Longrightarrow>
     pp_phase n lc lp 0 1 (rounds k @ ping) sc False"
| ponging: "Suc k < n \<Longrightarrow> in_turn (Suc k) lc \<Longrightarrow> pre @ rest = pong \<Longrightarrow>
     pp_phase n lc (Printing k rest) 0 0 (rounds k @ ping @ pre) sc sp"
| ponged: "Suc k < n \<Longrightarrow> in_turn (Suc k) lc \<Longrightarrow>
     pp_phase n lc (AtUp k) 0 0 (rounds k @ ping @ pong) sc sp"
| last_token: "Suc k = n \<Longrightarrow> closing lc 0 1 ca cb \<Longrightarrow> cb \<noteq> -2 \<Longrightarrow> in_turn k lp \<Longrightarrow>
     pp_phase n lc lp ca cb (rounds k @ ping) sc False"
| last_ponging: "Suc k = n \<Longrightarrow> closing lc 0 0 ca cb \<Longrightarrow> pre @ rest = pong \<Longrightarrow>
     pp_phase n lc (Printing k rest) ca cb (rounds k @ ping @ pre) sc sp"
| last_ponged: "Suc k = n \<Longrightarrow> closing lc 0 0 ca cb \<Longrightarrow>
     pp_phase n lc (AtUp k) ca cb (rounds k @ ping @ pong) sc sp"
| last_wait: "closing lc 1 0 ca cb \<Longrightarrow> pp_phase n lc AtWait ca cb (rounds n) sc sp"
| last_close: "lp = AtClose1 \<or> lp = AtClose2 \<Longrightarrow> cb = -1 \<or> cb = -2 \<Longrightarrow>
     pp_phase n AtExit lp (-1) cb (rounds n) sc sp"
| all_done: "pp_phase n AtExit AtExit (-1) (-1) (rounds n) sc sp"

definition pp_inv :: "pp_cfg \<Rightarrow> pp_run \<Rightarrow> bool" where
  "pp_inv g x \<longleftrightarrow>
     pp_phase (amount g) (pcs x (child g)) (pcs x (parentp g))
       (count (sems (psy x) (sem1 g))) (count (sems (psy x) (sem2 g))) (pout x)
       (semsleep (sk (psy x)) (child g) (sem1 g)) (semsleep (sk (psy x)) (parentp g) (sem2 g)) \<and>
     bound (sems (psy x) (sem1 g)) = 1 \<and> bound (sems (psy x) (sem2 g)) = 1"

definition pp_wf :: "pp_cfg \<Rightarrow> bool" where
  "pp_wf g \<longleftrightarrow> 0 < amount g \<and> child g \<noteq> parentp g \<and> child g < NPROC \<and> parentp g < NPROC \<and>
     sem1 g \<noteq> sem2 g \<and> sem1 g < NSEM \<and> sem2 g < NSEM"

lemma pp_start_inv: "pp_start g x \<Longrightarrow> pp_wf g \<and> pp_inv g x"
  using token1 [of 0 "amount g" "AtDown 0" "AtDown 0"]
  by (auto simp: pp_start_def pp_wf_def pp_inv_def loop_head_def in_turn_def rounds_def
      dest!: pp_setup_sems)

section \<open>Every step keeps the phase\<close>

lemma pp_phase_wake:
  assumes "pp_phase n lc lp ca cb out sc sp" and "sc' \<longrightarrow> sc" and "sp' \<longrightarrow> sp"
  shows "pp_phase n lc lp ca cb out sc' sp'"
  using assms by (cases rule: pp_phase.cases) (auto intro: pp_phase.intros)

lemma closing_iff:
  "closing l a b ca cb \<longleftrightarrow>
     (l = AtWait \<or> l = AtClose1) \<and> ca = a \<and> cb = b \<or> l = AtClose2 \<and> ca = -1 \<and> cb = b \<or>
     l = AtExit \<and> ca = -1 \<and> (cb = -1 \<or> cb = -2)"
  by (cases l) auto

lemmas phase_simps = in_turn_def closing_iff loop_head_def

lemma rounds_Suc: "rounds (Suc k) = rounds k @ ping @ pong"
  by (simp add: rounds_def replicate_append_same [symmetric])

lemma child_take:
  assumes "pp_phase n lc lp ca cb out sc sp" and "in_turn i lc" and "ca \<noteq> 0"
  shows "ca = 1" and "pp_phase n (Printing i ping) lp 0 cb out sc' sp"
  using assms by (auto simp: phase_simps elim!: pp_phase.cases intro: pinging [where pre = "[]", simplified])

lemma child_block:
  assumes "pp_phase n lc lp 0 cb out sc sp" and "in_turn i lc"
  shows "pp_phase n (InDown i) lp 0 cb out sc' sp"
  using assms by (auto simp: phase_simps elim!: pp_phase.cases intro: pp_phase.intros)

lemma child_putc:
  assumes "pp_phase n (Printing i (c # cs)) lp ca cb out sc sp"
  shows "pp_phase n (Printing i cs) lp ca cb (out @ [c]) sc sp"
  using assms
  by (auto simp: phase_simps elim!: pp_phase.cases intro: pinging [where pre = "_ @ [c]", simplified])

lemma child_printed:
  "pp_phase n (Printing i []) lp ca cb out sc sp \<Longrightarrow> pp_phase n (AtUp i) lp ca cb out sc sp"
  by (auto simp: phase_simps elim!: pp_phase.cases intro!: pinged)

lemma child_up:
  assumes "pp_phase (amount g) (AtUp i) lp ca cb out sc sp"
  shows "cb = 0" and "pp_phase (amount g) (loop_head g (Suc i)) lp ca 1 out sc False"
  using assms token2 [of i "amount g" "AtDown (Suc i)" lp] last_token [of i "amount g" AtWait 0 1 lp]
  by (auto simp: phase_simps elim!: pp_phase.cases)

lemma child_close:
  assumes "pp_phase n lc lp ca cb out sc sp"
  shows "lc = AtWait \<Longrightarrow> pp_phase n AtClose1 lp ca cb out sc sp"
    and "lc = AtClose1 \<Longrightarrow> pp_phase n AtClose2 lp (-1) cb out sc sp"
    and "lc = AtClose2 \<Longrightarrow> pp_phase n AtExit lp ca (-1) out sc sp"
  using assms by (auto simp: phase_simps elim!: pp_phase.cases intro: pp_phase.intros)

lemma parent_take:
  assumes "pp_phase n lc lp ca cb out sc sp" and "in_turn i lp" and "cb \<noteq> 0"
  shows "cb = 1 \<or> cb = -1" and "pp_phase n lc (Printing i pong) ca (cb - 1) out sc sp'"
    and "cb = -1 \<Longrightarrow> pp_phase n lc (Printing i pong) ca cb out sc sp'"
  using assms ponging [of i n lc "[]" pong] last_ponging [of i n lc ca _ "[]" pong]
  by (auto simp: phase_simps elim!: pp_phase.cases)

lemma parent_block:
  assumes "pp_phase n lc lp ca 0 out sc sp" and "in_turn i lp"
  shows "pp_phase n lc (InDown i) ca 0 out sc sp'"
  using assms by (auto simp: phase_simps elim!: pp_phase.cases intro: pp_phase.intros)

lemma parent_putc:
  assumes "pp_phase n lc (Printing i (c # cs)) ca cb out sc sp"
  shows "pp_phase n lc (Printing i cs) ca cb (out @ [c]) sc sp"
  using assms
  by (auto simp: phase_simps elim!: pp_phase.cases
      intro: ponging [where pre = "_ @ [c]", simplified] last_ponging [where pre = "_ @ [c]", simplified])

lemma parent_printed:
  assumes "pp_phase n lc (Printing i []) ca cb out sc sp"
  shows "pp_phase n lc (AtUp i) ca cb out sc sp"
  using assms ponged [of i n lc] last_ponged [of i n lc ca cb]
  by (auto simp: phase_simps elim!: pp_phase.cases)

lemma parent_up:
  assumes "pp_phase (amount g) lc (AtUp i) ca cb out sc sp"
  shows "ca = 0 \<or> ca = -1"
    and "ca = 0 \<Longrightarrow> pp_phase (amount g) lc (loop_head g (Suc i)) 1 cb out False sp"
    and "ca = -1 \<Longrightarrow> pp_phase (amount g) lc (loop_head g (Suc i)) ca cb out sc sp"
  using assms token1 [of "Suc i" "amount g" lc "AtDown (Suc i)"] last_wait [of lc _ cb "amount g"]
  by (auto simp: phase_simps rounds_Suc [symmetric] elim!: pp_phase.cases)

lemma parent_close:
  assumes "pp_phase n lc lp ca cb out sc sp"
  shows "lp = AtWait \<Longrightarrow> lc = AtExit \<Longrightarrow> pp_phase n lc AtClose1 ca cb out sc sp"
    and "lp = AtClose1 \<Longrightarrow> pp_phase n lc AtClose2 (-1) cb out sc sp"
    and "lp = AtClose2 \<Longrightarrow> pp_phase n lc AtExit ca (-1) out sc sp"
  using assms by (auto simp: phase_simps elim!: pp_phase.cases intro: pp_phase.intros)

text \<open>The effects of the system calls on the two semaphores and on sleeping.\<close>

definition same_but :: "nat \<Rightarrow> semsys \<Rightarrow> semsys \<Rightarrow> bool" where
  "same_but k s t \<longleftrightarrow> (\<forall>m. m \<noteq> k \<longrightarrow> sems t m = sems s m) \<and> bound (sems t k) = bound (sems s k)"

lemma down_Ok:
  assumes "sem_down h (int k) s = Ok r t" and "k < NSEM"
  shows "same_but k s t" and "sk t = sk s" and "count (sems s k) \<noteq> 0"
    and "count (sems t k) = (if count (sems s k) = -1 then -1 else count (sems s k) - 1)"
  using assms
  by (auto simp: sem_down_def sem_ok_int same_but_def split: if_splits dest!: sem_down_loop_Ok)

lemma down_Wait:
  assumes "sem_down h (int k) s = Wait t"
  shows "sems t = sems s" and "count (sems s k) = 0"
    and "semsleep (sk t) i n \<Longrightarrow> n \<noteq> k \<Longrightarrow> semsleep (sk s) i n"
  using assms
  by (auto simp: sem_down_def split: if_splits dest!: sem_down_loop_Wait dest: semsleep_sleep)

lemma resume_Ok:
  assumes "sem_down_resume h p k s = Ok r t"
  shows "same_but k s t" and "count (sems s k) \<noteq> 0" and "count (sems t k) = count (sems s k) - 1"
    and "semsleep (sk t) i n \<Longrightarrow> semsleep (sk s) i n"
  using assms
  by (auto simp: sem_down_resume_def same_but_def dest!: sem_down_loop_Ok semsleep_sleep_return)

lemma semsleep_resleep:
  "sleep (SemChan k) h (sleep_return p s) = Wait t \<Longrightarrow> semsleep t i n \<Longrightarrow> n \<noteq> k \<Longrightarrow> semsleep s i n"
  using semsleep_sleep semsleep_sleep_return by blast

lemma resume_Wait:
  assumes "sem_down_resume h p k s = Wait t"
  shows "sems t = sems s" and "count (sems s k) = 0"
    and "semsleep (sk t) i n \<Longrightarrow> n \<noteq> k \<Longrightarrow> semsleep (sk s) i n"
  using assms
  by (auto simp: sem_down_resume_def dest!: sem_down_loop_Wait dest: semsleep_resleep)

lemma up_effect:
  assumes "sem_up h (int k) s = (r, t)" and "k < NSEM" and "cur (sk s) h = Some p" and "bound (sems s k) = 1"
  shows "same_but k s t" and "semsleep (sk t) i n \<Longrightarrow> semsleep (sk s) i n"
    and "count (sems s k) = 0 \<Longrightarrow> count (sems t k) = 1"
    and "count (sems s k) = 0 \<Longrightarrow> i < NPROC \<Longrightarrow> i \<noteq> p \<Longrightarrow> \<not> semsleep (sk t) i k"
    and "count (sems s k) = -1 \<Longrightarrow> count (sems t k) = -1"
  using assms
  by (auto simp: sem_up_def sem_ok_int same_but_def Let_def split: if_splits dest!: semsleep_wakeup)

lemma close_effect:
  assumes "sem_close (int k) s = (r, t)" and "k < NSEM"
  shows "same_but k s t" and "sk t = sk s" and "count (sems t k) = -1"
  using assms by (auto simp: sem_close_def sem_ok_int same_but_def Let_def split: if_splits)

lemma pp_inv_child_step:
  assumes "pp_step g h (child g) x y" and "pp_wf g" and "pp_inv g x"
    and "cur (sk (psy x)) h = Some (child g)"
  shows "pp_inv g y"
proof -
  let ?c = "child g" and ?q = "parentp g" and ?a = "sem1 g" and ?b = "sem2 g"
  from assms(2) have w: "?c \<noteq> ?q" "?q \<noteq> ?c" "?q < NPROC" "?a \<noteq> ?b" "?b \<noteq> ?a" "?a < NSEM" "?b < NSEM"
    by (auto simp: pp_wf_def)
  from assms(3) have ph: "pp_phase (amount g) (pcs x ?c) (pcs x ?q)
       (count (sems (psy x) ?a)) (count (sems (psy x) ?b)) (pout x)
       (semsleep (sk (psy x)) ?c ?a) (semsleep (sk (psy x)) ?q ?b)"
    and bd: "bound (sems (psy x) ?a) = 1" "bound (sems (psy x) ?b) = 1"
    by (auto simp: pp_inv_def)
  have own: "down_of g ?c = ?a" "up_of g ?c = ?b" "msg_of g ?c = ping"
    by (simp_all add: down_of_def up_of_def msg_of_def)
  note * = pp_inv_def goto_def own w bd same_but_def
  from assms(1) show ?thesis
  proof cases
    case (pp_down i r t)
    note e = down_Ok [OF pp_down(3) [unfolded own] w(6)]
    have "in_turn i (pcs x ?c)" using pp_down(2) by (simp add: in_turn_def)
    note child_take [OF ph this e(3)]
    with e show ?thesis by (simp add: pp_down(1) *)
  next
    case (pp_down_sleep i t)
    note e = down_Wait [OF pp_down_sleep(3) [unfolded own]]
    have "in_turn i (pcs x ?c)" using pp_down_sleep(2) by (simp add: in_turn_def)
    note child_block [OF ph [unfolded e(2)] this, of "semsleep (sk t) ?c ?a"]
    from pp_phase_wake [OF this, of _ "semsleep (sk t) ?q ?b"] e show ?thesis
      by (auto simp add: pp_down_sleep(1) *)
  next
    case (pp_resume i r t)
    note e = resume_Ok [OF pp_resume(3) [unfolded own]]
    have "in_turn i (pcs x ?c)" using pp_resume(2) by (simp add: in_turn_def)
    note t = child_take [OF ph this e(2)]
    from pp_phase_wake [OF t(2), of _ _ "semsleep (sk t) ?q ?b"] t(1) e show ?thesis
      by (auto simp add: pp_resume(1) *)
  next
    case (pp_resume_sleep i t)
    note e = resume_Wait [OF pp_resume_sleep(3) [unfolded own]]
    have "in_turn i (pcs x ?c)" using pp_resume_sleep(2) by (simp add: in_turn_def)
    note child_block [OF ph [unfolded e(2)] this, of "semsleep (sk t) ?c ?a"]
    from pp_phase_wake [OF this, of _ "semsleep (sk t) ?q ?b"] e show ?thesis
      by (auto simp add: pp_resume_sleep(1) *)
  next
    case (pp_putc i ch cs)
    then show ?thesis using child_putc [OF ph [unfolded pp_putc(2)]] by (simp add: *)
  next
    case (pp_printed i)
    then show ?thesis using child_printed [OF ph [unfolded pp_printed(2)]] by (simp add: *)
  next
    case (pp_up i r t)
    note e = up_effect [OF pp_up(3) [unfolded own] w(7) assms(4) bd(2)]
    note u = child_up [OF ph [unfolded pp_up(2)]]
    from pp_phase_wake [OF u(2), of "semsleep (sk t) ?c ?a" "semsleep (sk t) ?q ?b"] e u(1) w
    show ?thesis by (auto simp add: pp_up(1) *)
  next
    case pp_wait
    then show ?thesis using child_close(1) [OF ph] by (simp add: *)
  next
    case (pp_close1 r t)
    then show ?thesis using child_close(2) [OF ph] close_effect [OF pp_close1(3) w(6)] by (simp add: *)
  next
    case (pp_close2 r t)
    then show ?thesis using child_close(3) [OF ph] close_effect [OF pp_close2(3) w(7)] by (simp add: *)
  qed
qed

lemma pp_inv_parent_step:
  assumes "pp_step g h (parentp g) x y" and "pp_wf g" and "pp_inv g x"
    and "cur (sk (psy x)) h = Some (parentp g)"
  shows "pp_inv g y"
proof -
  let ?c = "child g" and ?q = "parentp g" and ?a = "sem1 g" and ?b = "sem2 g"
  from assms(2) have w: "?c \<noteq> ?q" "?q \<noteq> ?c" "?c < NPROC" "?a \<noteq> ?b" "?b \<noteq> ?a" "?a < NSEM" "?b < NSEM"
    by (auto simp: pp_wf_def)
  from assms(3) have ph: "pp_phase (amount g) (pcs x ?c) (pcs x ?q)
       (count (sems (psy x) ?a)) (count (sems (psy x) ?b)) (pout x)
       (semsleep (sk (psy x)) ?c ?a) (semsleep (sk (psy x)) ?q ?b)"
    and bd: "bound (sems (psy x) ?a) = 1" "bound (sems (psy x) ?b) = 1"
    by (auto simp: pp_inv_def)
  have own: "down_of g ?q = ?b" "up_of g ?q = ?a" "msg_of g ?q = pong"
    using w by (simp_all add: down_of_def up_of_def msg_of_def)
  note * = pp_inv_def goto_def own w bd same_but_def
  from assms(1) show ?thesis
  proof cases
    case (pp_down i r t)
    note e = down_Ok [OF pp_down(3) [unfolded own] w(7)]
    have "in_turn i (pcs x ?q)" using pp_down(2) by (simp add: in_turn_def)
    note parent_take [OF ph this e(3)]
    with e show ?thesis by (auto simp add: pp_down(1) *)
  next
    case (pp_down_sleep i t)
    note e = down_Wait [OF pp_down_sleep(3) [unfolded own]]
    have "in_turn i (pcs x ?q)" using pp_down_sleep(2) by (simp add: in_turn_def)
    note parent_block [OF ph [unfolded e(2)] this, of "semsleep (sk t) ?q ?b"]
    from pp_phase_wake [OF this, of "semsleep (sk t) ?c ?a"] e show ?thesis
      by (auto simp add: pp_down_sleep(1) *)
  next
    case (pp_resume i r t)
    note e = resume_Ok [OF pp_resume(3) [unfolded own]]
    have "in_turn i (pcs x ?q)" using pp_resume(2) by (simp add: in_turn_def)
    note t = parent_take [OF ph this e(2)]
    from pp_phase_wake [OF t(2), of "semsleep (sk t) ?c ?a"] t(1) e show ?thesis
      by (auto simp add: pp_resume(1) *)
  next
    case (pp_resume_sleep i t)
    note e = resume_Wait [OF pp_resume_sleep(3) [unfolded own]]
    have "in_turn i (pcs x ?q)" using pp_resume_sleep(2) by (simp add: in_turn_def)
    note parent_block [OF ph [unfolded e(2)] this, of "semsleep (sk t) ?q ?b"]
    from pp_phase_wake [OF this, of "semsleep (sk t) ?c ?a"] e show ?thesis
      by (auto simp add: pp_resume_sleep(1) *)
  next
    case (pp_putc i ch cs)
    then show ?thesis using parent_putc [OF ph [unfolded pp_putc(2)]] by (simp add: *)
  next
    case (pp_printed i)
    then show ?thesis using parent_printed [OF ph [unfolded pp_printed(2)]] by (simp add: *)
  next
    case (pp_up i r t)
    note e = up_effect [OF pp_up(3) [unfolded own] w(6) assms(4) bd(1)]
    note u = parent_up [OF ph [unfolded pp_up(2)]]
    from u(1) show ?thesis
    proof
      assume z: "count (sems (psy x) ?a) = 0"
      from pp_phase_wake [OF u(2) [OF z], of "semsleep (sk t) ?c ?a" "semsleep (sk t) ?q ?b"] e z w
      show ?thesis by (auto simp add: pp_up(1) *)
    next
      assume z: "count (sems (psy x) ?a) = -1"
      from pp_phase_wake [OF u(3) [OF z], of "semsleep (sk t) ?c ?a" "semsleep (sk t) ?q ?b"] e z w
      show ?thesis by (auto simp add: pp_up(1) *)
    qed
  next
    case pp_wait
    then show ?thesis using parent_close(1) [OF ph] w by (simp add: *)
  next
    case (pp_close1 r t)
    then show ?thesis using parent_close(2) [OF ph] close_effect [OF pp_close1(3) w(6)] by (simp add: *)
  next
    case (pp_close2 r t)
    then show ?thesis using parent_close(3) [OF ph] close_effect [OF pp_close2(3) w(7)] by (simp add: *)
  qed
qed

lemma pp_inv_others:
  "pp_inv g x \<Longrightarrow> pp_others g (psy x) t \<Longrightarrow> pp_inv g (x\<lparr>psy := t\<rparr>)"
  by (auto simp: pp_inv_def pp_others_def intro: pp_phase_wake)

lemma pp_reach_inv:
  assumes "pp_reach g x y" and "pp_start g x"
  shows "pp_wf g \<and> pp_inv g y"
  using assms
proof (induction rule: pp_reach.induct)
  case pr_start
  then show ?case by (rule pp_start_inv)
next
  case (pr_prog y p h z)
  then show ?case using pp_inv_child_step pp_inv_parent_step by blast
next
  case (pr_others y t)
  then show ?case using pp_inv_others by blast
qed

section \<open>Progress\<close>

text \<open>A process at \<open>l\<close> whose semaphore has count \<open>c\<close> is able to move; \<open>free\<close> says that its
  \<^verbatim>\<open>wait(0)\<close> would return.\<close>

definition can_move :: "pp_pc \<Rightarrow> int \<Rightarrow> bool \<Rightarrow> bool" where
  "can_move l c free \<longleftrightarrow>
     (case l of AtDown _ \<Rightarrow> c \<noteq> 0 | InDown _ \<Rightarrow> c \<noteq> 0 | AtWait \<Rightarrow> free | AtExit \<Rightarrow> False | _ \<Rightarrow> True)"

lemma phase_can_move:
  assumes "pp_phase n lc lp ca cb out sc sp"
  shows "lc = AtExit \<and> lp = AtExit \<or> can_move lc ca True \<and> (\<forall>i. in_turn i lc \<longrightarrow> \<not> sc) \<or>
         can_move lp cb (lc = AtExit) \<and> (\<forall>i. in_turn i lp \<longrightarrow> \<not> sp)"
  using assms by (cases rule: pp_phase.cases) (auto simp: can_move_def phase_simps split: pp_pc.splits)

lemma can_move_step:
  assumes "can_move (pcs x p) (count (sems (psy x) (down_of g p))) (p = child g \<or> pcs x (child g) = AtExit)"
    and "down_of g p < NSEM"
  shows "\<exists>y. pp_step g h p x y \<and> pcs y p \<noteq> pcs x p"
proof (cases "pcs x p")
  case (AtDown i)
  with assms have "\<exists>r t. sem_down h (int (down_of g p)) (psy x) = Ok r t"
    by (auto simp: can_move_def sem_down_def sem_down_loop_def)
  with AtDown show ?thesis using pp_down [of x p i h g] by (fastforce simp: goto_def)
next
  case (InDown i)
  with assms have "\<exists>r t. sem_down_resume h p (down_of g p) (psy x) = Ok r t"
    by (auto simp: can_move_def sem_down_resume_def sem_down_loop_def)
  with InDown show ?thesis using pp_resume [of x p i h g] by (fastforce simp: goto_def)
next
  case (Printing i cs)
  then show ?thesis
    using pp_putc [of x p i] pp_printed [of x p i] by (cases cs) (fastforce simp: goto_def)+
next
  case (AtUp i)
  obtain r t where "sem_up h (int (up_of g p)) (psy x) = (r, t)"
    by (cases "sem_up h (int (up_of g p)) (psy x)")
  from pp_up [OF AtUp this] AtUp show ?thesis
    by (auto simp: goto_def loop_head_def intro!: exI split: if_splits)
next
  case AtWait
  with assms pp_wait [of x p g h] show ?thesis by (fastforce simp: can_move_def goto_def)
next
  case AtClose1
  obtain r t where "sem_close (int (sem1 g)) (psy x) = (r, t)"
    by (cases "sem_close (int (sem1 g)) (psy x)")
  from pp_close1 [OF AtClose1 this] AtClose1 show ?thesis by (fastforce simp: goto_def)
next
  case AtClose2
  obtain r t where "sem_close (int (sem2 g)) (psy x) = (r, t)"
    by (cases "sem_close (int (sem2 g)) (psy x)")
  from pp_close2 [OF AtClose2 this] AtClose2 show ?thesis by (fastforce simp: goto_def)
next
  case AtExit
  with assms show ?thesis by (simp add: can_move_def)
qed

lemma rounds_split: "k < n \<Longrightarrow> rounds n = rounds k @ ping @ pong @ rounds (n - Suc k)"
  unfolding rounds_def
  by (metis Suc_diff_Suc append_assoc concat.simps(2) concat_append le_add_diff_inverse
      less_imp_le_nat replicate_Suc replicate_add)

lemma rounds_prefix:
  assumes "k < n" and "pre @ rest = ping @ pong"
  shows "prefix (rounds k @ pre) (rounds n)"
proof -
  have "rounds n = (rounds k @ pre) @ rest @ rounds (n - Suc k)"
    by (simp only: rounds_split [OF assms(1)] append_assoc assms(2) [symmetric]
        append_assoc [of ping pong, symmetric])
  then show ?thesis by (rule prefixI)
qed

lemma phase_output:
  assumes "pp_phase n lc lp ca cb out sc sp"
  shows "prefix out (rounds n)"
  using assms
proof cases
  case (token1 k)
  then show ?thesis using rounds_prefix [of k n "[]"] by simp
next
  case (pinging k pre rest)
  then show ?thesis using rounds_prefix [of k n pre "rest @ pong"] by simp
next
  case (pinged k)
  then show ?thesis using rounds_prefix [of k n ping pong] by simp
next
  case (token2 k)
  then show ?thesis using rounds_prefix [of k n ping pong] by simp
next
  case (ponging k pre rest)
  then show ?thesis using rounds_prefix [of k n "ping @ pre" rest] by simp
next
  case (ponged k)
  then show ?thesis using rounds_prefix [of k n "ping @ pong" "[]"] by simp
next
  case (last_token k)
  then show ?thesis using rounds_prefix [of k n ping pong] by simp
next
  case (last_ponging k pre rest)
  then show ?thesis using rounds_prefix [of k n "ping @ pre" rest] by simp
next
  case (last_ponged k)
  then show ?thesis using rounds_prefix [of k n "ping @ pong" "[]"] by simp
qed simp_all

section \<open>A run of two rounds\<close>

definition demo_idle :: semsys where
  "demo_idle = \<lparr>sk = dispatch 0 0 demo_sched, sems = (\<lambda>_. \<lparr>count = -1, bound = -1\<rparr>)\<rparr>"

definition demo_sems :: "nat \<Rightarrow> semaphore" where
  "demo_sems = (\<lambda>_. \<lparr>count = -1, bound = -1\<rparr>)(0 := \<lparr>count = 1, bound = 1\<rparr>, 1 := \<lparr>count = 0, bound = 1\<rparr>)"

definition demo_pp :: pp_cfg where
  "demo_pp = \<lparr>amount = 2, sem1 = 0, sem2 = 1, child = 1, parentp = 0\<rparr>"

definition demo_pp0 :: pp_run where
  "demo_pp0 = \<lparr>psy = \<lparr>sk = dispatch 0 0 demo_sched, sems = demo_sems\<rparr>, pcs = (\<lambda>_. AtDown 0), pout = []\<rparr>"

text \<open>The parent calls \<^verbatim>\<open>sem_down(sem2)\<close> first and goes to sleep.\<close>

definition demo_pp1 :: pp_run where
  "demo_pp1 = goto 0 (InDown 0)
     (case sem_down 0 1 (psy demo_pp0) of Wait t \<Rightarrow> t | _ \<Rightarrow> psy demo_pp0) demo_pp0"

lemma demo_pp_setup: "pp_setup 0 demo_idle = Ok (Some (0, 1)) (psy demo_pp0)"
proof -
  have "[0..<256] = 0 # 1 # 2 # [3..<256::nat]" by (simp add: upt_rec)
  then show ?thesis
    by (simp only: pp_setup_def)
      (simp add: demo_idle_def demo_pp0_def demo_sems_def sem_open_def sem_ok_def
        NSEM_def sem_down_def sem_down_loop_def Let_def fun_upd_twist)
qed

lemma demo_pp_start: "pp_start demo_pp demo_pp0"
  unfolding pp_start_def
proof (intro conjI)
  show "\<exists>h s. pp_setup h s = Ok (Some (sem1 demo_pp, sem2 demo_pp)) (psy demo_pp0)"
    using demo_pp_setup by (auto simp: demo_pp_def)
qed (simp_all add: demo_pp_def demo_pp0_def loop_head_def semsleep_def NPROC_def demo_sched_def
    demo_proc_def dispatch_def)

lemma demo_pp_reach: "pp_reach demo_pp demo_pp0 demo_pp1"
proof (rule pr_prog [where p = 0 and h = 0])
  show "pp_step demo_pp 0 0 demo_pp0 demo_pp1"
    unfolding demo_pp1_def
    by (rule pp_down_sleep)
      (simp_all add: demo_pp0_def demo_pp_def down_of_def sem_down_def sem_ok_def NSEM_def
        demo_sems_def sem_down_loop_def sleep_def dispatch_def)
qed (simp_all add: pr_start demo_pp_def demo_pp0_def dispatch_def)

lemma demo_pp1_pcs: "pcs demo_pp1 1 = AtDown 0"
  by (simp add: demo_pp1_def goto_def demo_pp0_def)

section \<open>Properties of the program\<close>





end
