(* ===== verification/Virtio.thy ===== *)
theory Virtio
  imports Bio Ring
begin

unbundle bit_operations_syntax

section \<open>The disk driver (kernel/virtio_disk.c)\<close>

text \<open>
  The driver shares three structures with the device: the descriptors, the ring of chain heads it
  makes available, and the ring of heads the device has used; \<open>vdisk\<close> is \<^verbatim>\<open>struct disk\<close>. An address
  stored in a descriptor is the object it points to (\<open>vptr\<close>). \<^verbatim>\<open>virtio_disk_rw\<close> is cut at its two
  sleeps: \<open>virtio_alloc\<close> is one turn of the allocation loop, \<open>virtio_submit\<close> the formatting of the
  request up to the notification, \<open>virtio_wait\<close> one turn of the loop on \<^verbatim>\<open>b->disk\<close> and
  \<open>virtio_finish\<close> the rest. Everything runs under \<^verbatim>\<open>vdisk_lock\<close>, so each part is one step.

  The device is not part of the sources. It is a parameter of the run relation, of which only what
  the virtio specification says is assumed (\<open>dev_spec\<close>): it takes heads from the available ring,
  completes the requests it has taken in any order, reads their parameters from the descriptors in
  memory, and enters the head in the used ring.

  The theorems show what the block cache relies on when it treats \<^verbatim>\<open>virtio_disk_rw\<close> as the transfer of a
  whole block: when the call is over the block on the disk and the buffer agree, and hold the buffer's
  old contents after a write and the disk's old contents after a read, whatever other requests were
  in flight.
\<close>

subsection \<open>The driver\<close>

definition NUM :: nat where "NUM = 8"

definition VRING_DESC_F_NEXT :: u16 where "VRING_DESC_F_NEXT = 1"

definition VRING_DESC_F_WRITE :: u16 where "VRING_DESC_F_WRITE = 2"

datatype vptr = VNull | OpPtr nat | DataPtr nat | StatusPtr nat

record virtq_desc =
  vaddr :: vptr
  vlen :: nat
  vflags :: u16
  vnext :: nat

record virtio_blk_req =
  rtype :: nat
  rsector :: nat

record vdisk =
  desc :: "nat \<Rightarrow> virtq_desc"
  av_ring :: "nat \<Rightarrow> nat"
  av_idx :: u16
  us_ring :: "nat \<Rightarrow> nat"
  us_idx :: u16
  vfree :: "nat \<Rightarrow> bool"
  used_idx :: u16
  info_b :: "nat \<Rightarrow> nat option"
  info_status :: "nat \<Rightarrow> u8"
  vops :: "nat \<Rightarrow> virtio_blk_req"

text \<open>\<open>bdisk\<close> is the field \<^verbatim>\<open>disk\<close> of the buffers; \<open>media\<close> is the medium, byte by byte, \<open>d_last\<close> and
  \<open>d_work\<close> are the device's own: how far it has read the available ring, and the requests it has
  taken and not completed.\<close>

record vsys =
  dk :: vdisk
  vbufs :: "nat \<Rightarrow> buf"
  bdisk :: "nat \<Rightarrow> bool"
  vks :: ksched
  media :: "nat \<Rightarrow> u8"
  d_last :: u16
  d_work :: "nat list"

definition alloc_desc :: "vdisk \<Rightarrow> nat option \<times> vdisk" where
  "alloc_desc d =
     (case scan_first (vfree d) [0..<NUM] of
        Some i \<Rightarrow> (Some i, d\<lparr>vfree := (vfree d)(i := False)\<rparr>)
      | None \<Rightarrow> (None, d))"

definition wake_disk :: "chan \<Rightarrow> nat \<Rightarrow> vsys \<Rightarrow> vsys" where
  "wake_disk ch h s = s\<lparr>vks := (vks s)\<lparr>procs := wakeup ch (cur (vks s) h) (procs (vks s))\<rparr>\<rparr>"

definition free_desc :: "nat \<Rightarrow> nat \<Rightarrow> vsys \<Rightarrow> (unit, vsys) res" where
  "free_desc h i s =
     (if NUM \<le> i then Panic ''free_desc 1''
      else if vfree (dk s) i then Panic ''free_desc 2''
      else Ok () (wake_disk DiskChan h (s\<lparr>dk := (dk s)
             \<lparr>desc := (desc (dk s))(i := \<lparr>vaddr = VNull, vlen = 0, vflags = 0, vnext = 0\<rparr>),
              vfree := (vfree (dk s))(i := True)\<rparr>\<rparr>)))"

lemma free_desc_frees:
  assumes "free_desc h i s = Ok u t"
  shows "card {j. j < NUM \<and> \<not> vfree (dk t) j} < card {j. j < NUM \<and> \<not> vfree (dk s) j}"
proof -
  from assms have i: "i < NUM" "\<not> vfree (dk s) i" and t: "vfree (dk t) = (vfree (dk s))(i := True)"
    by (auto simp: free_desc_def wake_disk_def split: if_splits)
  then have "{j. j < NUM \<and> \<not> vfree (dk t) j} \<subset> {j. j < NUM \<and> \<not> vfree (dk s) j}" by auto
  then show ?thesis by (rule psubset_card_mono [rotated]) simp
qed

function free_chain :: "nat \<Rightarrow> nat \<Rightarrow> vsys \<Rightarrow> (unit, vsys) res" where
  "free_chain h i s =
     (let flag = vflags (desc (dk s) i); nxt_i = vnext (desc (dk s) i)
      in case free_desc h i s of
           Ok _ t \<Rightarrow> if flag AND VRING_DESC_F_NEXT \<noteq> 0 then free_chain h nxt_i t else Ok () t
         | Panic m \<Rightarrow> Panic m
         | Wait t \<Rightarrow> Wait t)"
  by pat_completeness auto
termination
  by (relation "measure (\<lambda>(h, i, s). card {j. j < NUM \<and> \<not> vfree (dk s) j})")
    (auto dest: free_desc_frees)

declare free_chain.simps [simp del]

primrec free_all :: "nat \<Rightarrow> nat list \<Rightarrow> vsys \<Rightarrow> (unit, vsys) res" where
  "free_all h [] s = Ok () s"
| "free_all h (i # is) s = seqr (free_desc h i s) (\<lambda>_ s. free_all h is s)"

primrec alloc_loop :: "nat \<Rightarrow> nat \<Rightarrow> nat list \<Rightarrow> vsys \<Rightarrow> (nat list option, vsys) res" where
  "alloc_loop h 0 idx s = Ok (Some idx) s"
| "alloc_loop h (Suc n) idx s =
     (case alloc_desc (dk s) of
        (None, d) \<Rightarrow> seqr (free_all h idx (s\<lparr>dk := d\<rparr>)) (\<lambda>_ s. Ok None s)
      | (Some i, d) \<Rightarrow> alloc_loop h n (idx @ [i]) (s\<lparr>dk := d\<rparr>))"

definition alloc3_desc :: "nat \<Rightarrow> vsys \<Rightarrow> (nat list option, vsys) res" where
  "alloc3_desc h s = alloc_loop h 3 [] s"

definition sleep_disk :: "chan \<Rightarrow> nat \<Rightarrow> vsys \<Rightarrow> ('a, vsys) res" where
  "sleep_disk ch h s =
     (case sleep ch h (vks s) of
        Ok _ k \<Rightarrow> Panic ''sleep''
      | Panic m \<Rightarrow> Panic m
      | Wait k \<Rightarrow> Wait (s\<lparr>vks := k\<rparr>))"

definition virtio_alloc :: "nat \<Rightarrow> vsys \<Rightarrow> (nat list, vsys) res" where
  "virtio_alloc h s =
     seqr (alloc3_desc h s) (\<lambda>r s.
       case r of Some idx \<Rightarrow> Ok idx s | None \<Rightarrow> sleep_disk DiskChan h s)"

definition virtio_submit :: "nat \<Rightarrow> bool \<Rightarrow> nat \<Rightarrow> nat \<Rightarrow> nat \<Rightarrow> vsys \<Rightarrow> vsys" where
  "virtio_submit b wr i0 i1 i2 s =
     (let sector = blockno (vbufs s b) * (BSIZE div 512) mod 2 ^ 32;
          d = dk s;
          d = d\<lparr>vops := (vops d)(i0 := \<lparr>rtype = (if wr then 1 else 0), rsector = sector\<rparr>)\<rparr>;
          d = d\<lparr>desc := (desc d)(i0 := \<lparr>vaddr = OpPtr i0, vlen = 16, vflags = VRING_DESC_F_NEXT, vnext = i1\<rparr>)\<rparr>;
          d = d\<lparr>desc := (desc d)(i1 := \<lparr>vaddr = DataPtr b, vlen = BSIZE,
                 vflags = (if wr then 0 else VRING_DESC_F_WRITE) OR VRING_DESC_F_NEXT, vnext = i2\<rparr>)\<rparr>;
          d = d\<lparr>info_status := (info_status d)(i0 := 0xff)\<rparr>;
          d = d\<lparr>desc := (desc d)(i2 := \<lparr>vaddr = StatusPtr i0, vlen = 1, vflags = VRING_DESC_F_WRITE, vnext = 0\<rparr>)\<rparr>;
          d = d\<lparr>info_b := (info_b d)(i0 := Some b)\<rparr>;
          d = d\<lparr>av_ring := (av_ring d)(unat (av_idx d) mod NUM := i0)\<rparr>;
          d = d\<lparr>av_idx := av_idx d + 1\<rparr>
      in s\<lparr>dk := d, bdisk := (bdisk s)(b := True)\<rparr>)"

definition virtio_wait :: "nat \<Rightarrow> nat \<Rightarrow> vsys \<Rightarrow> (unit, vsys) res" where
  "virtio_wait h b s = (if bdisk s b then sleep_disk (BufChan b) h s else Ok () s)"

definition virtio_finish :: "nat \<Rightarrow> nat \<Rightarrow> vsys \<Rightarrow> (unit, vsys) res" where
  "virtio_finish h i0 s = free_chain h i0 (s\<lparr>dk := (dk s)\<lparr>info_b := (info_b (dk s))(i0 := None)\<rparr>\<rparr>)"

text \<open>One turn of the loop of \<^verbatim>\<open>virtio_disk_intr\<close>; a null \<^verbatim>\<open>info[id].b\<close> would be a fault.\<close>

definition intr_one :: "nat \<Rightarrow> vsys \<Rightarrow> (unit, vsys) res" where
  "intr_one h s =
     (let i = us_ring (dk s) (unat (used_idx (dk s)) mod NUM)
      in if info_status (dk s) i \<noteq> 0 then Panic ''virtio_disk_intr status''
         else case info_b (dk s) i of
                None \<Rightarrow> Panic ''kerneltrap''
              | Some b \<Rightarrow>
                  Ok () (wake_disk (BufChan b) h (s\<lparr>bdisk := (bdisk s)(b := False)\<rparr>)
                    \<lparr>dk := (dk s)\<lparr>used_idx := used_idx (dk s) + 1\<rparr>\<rparr>))"

lemma intr_one_idx:
  assumes "intr_one h s = Ok u t" and "used_idx (dk s) \<noteq> us_idx (dk s)"
  shows "unat (us_idx (dk t) - used_idx (dk t)) < unat (us_idx (dk s) - used_idx (dk s))"
proof -
  from assms(1) have t: "us_idx (dk t) = us_idx (dk s)" "used_idx (dk t) = used_idx (dk s) + 1"
    by (auto simp: intr_one_def wake_disk_def Let_def split: if_splits option.splits)
  let ?d = "us_idx (dk s) - used_idx (dk s)"
  have "?d \<noteq> 0" using assms(2) by auto
  then have "unat (?d - 1) < unat ?d" by (metis diff_less unat_gt_0 unat_minus_one zero_less_one)
  moreover have "us_idx (dk t) - used_idx (dk t) = ?d - 1" by (simp add: t)
  ultimately show ?thesis by (simp only:)
qed

function intr_loop :: "nat \<Rightarrow> vsys \<Rightarrow> (unit, vsys) res" where
  "intr_loop h s =
     (if used_idx (dk s) \<noteq> us_idx (dk s)
      then case intr_one h s of Ok _ t \<Rightarrow> intr_loop h t | Panic m \<Rightarrow> Panic m | Wait t \<Rightarrow> Wait t
      else Ok () s)"
  by pat_completeness auto
termination
  by (relation "measure (\<lambda>(h, s). unat (us_idx (dk s) - used_idx (dk s)))") (auto dest: intr_one_idx)

declare intr_loop.simps [simp del]

definition virtio_disk_intr :: "nat \<Rightarrow> vsys \<Rightarrow> (unit, vsys) res" where
  "virtio_disk_intr h s = intr_loop h s"

text \<open>\<^verbatim>\<open>virtio_disk_init\<close>: \<open>vregs\<close> are the values the driver reads from the device registers and \<open>pages\<close> what
  the three calls of \<^verbatim>\<open>kalloc\<close> return. The result is the features it writes; the other register
  writes configure the device and have no effect on the driver.\<close>

record vregs =
  r_magic :: u32
  r_version :: u32
  r_device :: u32
  r_vendor :: u32
  r_features :: u32
  r_status :: u32
  r_ready :: u32
  r_max :: u32

definition virtio_features :: "u32 \<Rightarrow> u32" where
  "virtio_features f = fold (\<lambda>i f. f AND NOT (push_bit i 1)) [5, 7, 11, 12, 27, 29, 28] f"

definition virtio_disk_init :: "vregs \<Rightarrow> u64 list \<Rightarrow> vsys \<Rightarrow> (u32, vsys) res" where
  "virtio_disk_init r pages s =
     (if r_magic r \<noteq> 0x74726976 \<or> r_version r \<noteq> 2 \<or> r_device r \<noteq> 2 \<or> r_vendor r \<noteq> 0x554d4551
      then Panic ''could not find virtio disk''
      else if r_status r AND 8 = 0 then Panic ''virtio disk FEATURES_OK unset''
      else if r_ready r \<noteq> 0 then Panic ''virtio disk should not be ready''
      else if r_max r = 0 then Panic ''virtio disk has no queue 0''
      else if r_max r < of_nat NUM then Panic ''virtio disk max queue too short''
      else if 0 \<in> set pages then Panic ''virtio disk kalloc''
      else Ok (virtio_features (r_features r))
        (s\<lparr>dk := (dk s)\<lparr>desc := (\<lambda>_. \<lparr>vaddr = VNull, vlen = 0, vflags = 0, vnext = 0\<rparr>),
             av_ring := (\<lambda>_. 0), av_idx := 0, us_ring := (\<lambda>_. 0), us_idx := 0,
             vfree := fold (\<lambda>i f. f(i := True)) [0..<NUM] (vfree (dk s))\<rparr>\<rparr>))"

subsection \<open>The device and the run\<close>

definition block_at :: "nat \<Rightarrow> vsys \<Rightarrow> blk" where
  "block_at n s = (\<lambda>p. media s (n * BSIZE + p))"

text \<open>What the specification says of a device that has no errors to report. \<open>dev_take\<close> reads the next
  head of the available ring; \<open>dev_complete\<close> performs a request from its descriptors.\<close>

definition dev_take :: "vsys \<Rightarrow> vsys \<Rightarrow> bool" where
  "dev_take s t \<longleftrightarrow>
     d_last s \<noteq> av_idx (dk s) \<and>
     t = s\<lparr>d_last := d_last s + 1, d_work := d_work s @ [av_ring (dk s) (unat (d_last s) mod NUM)]\<rparr>"

definition dev_transfer :: "nat \<Rightarrow> nat \<Rightarrow> nat \<Rightarrow> nat \<Rightarrow> vsys \<Rightarrow> vsys" where
  "dev_transfer ty sector b len s =
     (if ty = 1
      then s\<lparr>media := (\<lambda>p. if sector * 512 \<le> p \<and> p < sector * 512 + len
                          then data (vbufs s b) (p - sector * 512) else media s p)\<rparr>
      else s\<lparr>vbufs := (vbufs s)(b := (vbufs s b)\<lparr>data :=
               (\<lambda>p. if p < len then media s (sector * 512 + p) else data (vbufs s b) p)\<rparr>)\<rparr>)"

definition dev_complete :: "vsys \<Rightarrow> vsys \<Rightarrow> bool" where
  "dev_complete s t \<longleftrightarrow>
     (\<exists>xs k ys d0 d1 d2 q b j.
        d_work s = xs @ k # ys \<and> d0 = desc (dk s) k \<and> d1 = desc (dk s) (vnext d0) \<and>
        d2 = desc (dk s) (vnext d1) \<and> vaddr d0 = OpPtr q \<and> vaddr d1 = DataPtr b \<and> vaddr d2 = StatusPtr j \<and>
        t = (dev_transfer (rtype (vops (dk s) q)) (rsector (vops (dk s) q)) b (vlen d1) s)
              \<lparr>d_work := xs @ ys,
               dk := (dk s)\<lparr>info_status := (info_status (dk s))(j := 0),
                            us_ring := (us_ring (dk s))(unat (us_idx (dk s)) mod NUM := k),
                            us_idx := us_idx (dk s) + 1\<rparr>\<rparr>)"

definition dev_spec :: "(vsys \<Rightarrow> vsys \<Rightarrow> bool) \<Rightarrow> bool" where
  "dev_spec dev_step \<longleftrightarrow> (\<forall>s t. dev_step s t \<longrightarrow> dev_take s t \<or> dev_complete s t)"

text \<open>Where a process stands in \<^verbatim>\<open>virtio_disk_rw(b, write)\<close>: \<open>VDesc\<close> in the allocation loop, \<open>VDone\<close> in
  the loop on \<^verbatim>\<open>b->disk\<close> with its local \<^verbatim>\<open>idx\<close> and, for the statements, the contents to transfer.\<close>

datatype vpc =
    VIdle
  | VDesc nat bool
  | VDone nat bool nat nat nat blk

fun buf_of :: "vpc \<Rightarrow> nat option" where
  "buf_of VIdle = None"
| "buf_of (VDesc b wr) = Some b"
| "buf_of (VDone b wr i0 i1 i2 old) = Some b"

fun chain_of :: "vpc \<Rightarrow> nat list" where
  "chain_of (VDone b wr i0 i1 i2 old) = [i0, i1, i2]"
| "chain_of _ = []"

record vrun =
  vs :: vsys
  vpcs :: "nat \<Rightarrow> vpc"

definition asleep :: "ksched \<Rightarrow> nat \<Rightarrow> chan \<Rightarrow> bool" where
  "asleep k i c \<longleftrightarrow> pstate (procs k i) = SLEEPING \<and> chan (procs k i) = c"

text \<open>A call needs the buffer's sleep lock, so no other process is in a call for that buffer, and the
  cache has at most one buffer of a block.\<close>

definition may_call :: "nat \<Rightarrow> vrun \<Rightarrow> bool" where
  "may_call b x \<longleftrightarrow>
     blockno (vbufs (vs x) b) < 2 ^ 31 \<and>
     (\<forall>j b'. buf_of (vpcs x j) = Some b' \<longrightarrow> b' \<noteq> b \<and> blockno (vbufs (vs x) b') \<noteq> blockno (vbufs (vs x) b))"

text \<open>The rest of the kernel: it schedules, works on other buffers, and does not put a process to sleep
  on a channel of the driver.\<close>

definition others :: "vrun \<Rightarrow> vsys \<Rightarrow> bool" where
  "others x t \<longleftrightarrow>
     dk t = dk (vs x) \<and> media t = media (vs x) \<and> d_last t = d_last (vs x) \<and> d_work t = d_work (vs x) \<and>
     (\<forall>i b. buf_of (vpcs x i) = Some b \<longrightarrow> vbufs t b = vbufs (vs x) b \<and> bdisk t b = bdisk (vs x) b) \<and>
     sched_inv (vks t) \<and>
     (\<forall>i b. asleep (vks t) i (BufChan b) \<longrightarrow> asleep (vks (vs x)) i (BufChan b))"

inductive vd_step :: "(vsys \<Rightarrow> vsys \<Rightarrow> bool) \<Rightarrow> vrun \<Rightarrow> vrun \<Rightarrow> bool" for dev_step where
  v_call: "cur (vks (vs x)) h = Some i \<Longrightarrow> vpcs x i = VIdle \<Longrightarrow> may_call b x \<Longrightarrow>
     vd_step dev_step x (x\<lparr>vpcs := (vpcs x)(i := VDesc b wr)\<rparr>)"
| v_full: "cur (vks (vs x)) h = Some i \<Longrightarrow> vpcs x i = VDesc b wr \<Longrightarrow> virtio_alloc h (vs x) = Wait t \<Longrightarrow>
     vd_step dev_step x (x\<lparr>vs := t\<rparr>)"
| v_submit: "cur (vks (vs x)) h = Some i \<Longrightarrow> vpcs x i = VDesc b wr \<Longrightarrow>
     virtio_alloc h (vs x) = Ok [i0, i1, i2] t \<Longrightarrow>
     virtio_wait h b (virtio_submit b wr i0 i1 i2 t) = Wait u \<Longrightarrow>
     old = (if wr then data (vbufs (vs x) b) else block_at (blockno (vbufs (vs x) b)) (vs x)) \<Longrightarrow>
     vd_step dev_step x (x\<lparr>vs := u, vpcs := (vpcs x)(i := VDone b wr i0 i1 i2 old)\<rparr>)"
| v_again: "cur (vks (vs x)) h = Some i \<Longrightarrow> vpcs x i = VDone b wr i0 i1 i2 old \<Longrightarrow>
     virtio_wait h b (vs x) = Wait t \<Longrightarrow> vd_step dev_step x (x\<lparr>vs := t\<rparr>)"
| v_return: "cur (vks (vs x)) h = Some i \<Longrightarrow> vpcs x i = VDone b wr i0 i1 i2 old \<Longrightarrow>
     virtio_wait h b (vs x) = Ok () t \<Longrightarrow> virtio_finish h i0 t = Ok () u \<Longrightarrow>
     vd_step dev_step x (x\<lparr>vs := u, vpcs := (vpcs x)(i := VIdle)\<rparr>)"
| v_intr: "virtio_disk_intr h (vs x) = Ok () t \<Longrightarrow> vd_step dev_step x (x\<lparr>vs := t\<rparr>)"
| v_dev: "dev_step (vs x) t \<Longrightarrow> vd_step dev_step x (x\<lparr>vs := t\<rparr>)"
| v_others: "others x t \<Longrightarrow> vd_step dev_step x (x\<lparr>vs := t\<rparr>)"

inductive vd_reach :: "(vsys \<Rightarrow> vsys \<Rightarrow> bool) \<Rightarrow> vrun \<Rightarrow> vrun \<Rightarrow> bool" for dev_step x where
  vr_start: "vd_reach dev_step x x"
| vr_step: "vd_reach dev_step x y \<Longrightarrow> vd_step dev_step y z \<Longrightarrow> vd_reach dev_step x z"

definition vd_start :: "vrun \<Rightarrow> bool" where
  "vd_start x \<longleftrightarrow>
     (\<exists>r pages s f. virtio_disk_init r pages s = Ok f (vs x) \<and> used_idx (dk s) = 0 \<and> d_last s = 0 \<and>
        d_work s = []) \<and>
     (\<forall>i. vpcs x i = VIdle) \<and> sched_inv (vks (vs x)) \<and> (\<forall>i b. \<not> asleep (vks (vs x)) i (BufChan b))"

subsection \<open>What the operations change\<close>

text \<open>\<open>woken k l\<close>: from \<open>k\<close> to \<open>l\<close> only sleepers were woken.\<close>

definition woken :: "ksched \<Rightarrow> ksched \<Rightarrow> bool" where
  "woken k l \<longleftrightarrow> (sched_inv k \<longrightarrow> sched_inv l) \<and> cur l = cur k \<and> (\<forall>i c. asleep l i c \<longrightarrow> asleep k i c)"

lemma woken_refl [simp]: "woken k k"
  by (simp add: woken_def)

lemma woken_trans: "woken k l \<Longrightarrow> woken l m \<Longrightarrow> woken k m"
  by (auto simp: woken_def)

lemma woken_wakeup: "woken k (k\<lparr>procs := wakeup ch (cur k h) (procs k)\<rparr>)"
  unfolding woken_def
proof (intro conjI impI)
  show "\<forall>i c. asleep (k\<lparr>procs := wakeup ch (cur k h) (procs k)\<rparr>) i c \<longrightarrow> asleep k i c"
    by (auto simp: asleep_def wakeup_eq wake_one_def split: if_splits)
qed (auto intro: sched_inv_step [OF st_wakeup])

lemma wake_disk_simps [simp]:
  "dk (wake_disk ch h s) = dk s" "vbufs (wake_disk ch h s) = vbufs s" "bdisk (wake_disk ch h s) = bdisk s"
  "media (wake_disk ch h s) = media s" "d_last (wake_disk ch h s) = d_last s"
  "d_work (wake_disk ch h s) = d_work s" "woken (vks s) (vks (wake_disk ch h s))"
  by (simp_all add: wake_disk_def woken_wakeup)

text \<open>\<open>only_desc V s t\<close>: from \<open>s\<close> to \<open>t\<close> only processes were woken and the descriptors in \<open>V\<close> changed.\<close>

definition only_desc :: "nat set \<Rightarrow> vsys \<Rightarrow> vsys \<Rightarrow> bool" where
  "only_desc V s t \<longleftrightarrow>
     vbufs t = vbufs s \<and> bdisk t = bdisk s \<and> media t = media s \<and> d_last t = d_last s \<and> d_work t = d_work s \<and>
     av_ring (dk t) = av_ring (dk s) \<and> av_idx (dk t) = av_idx (dk s) \<and> us_ring (dk t) = us_ring (dk s) \<and>
     us_idx (dk t) = us_idx (dk s) \<and> used_idx (dk t) = used_idx (dk s) \<and> info_b (dk t) = info_b (dk s) \<and>
     info_status (dk t) = info_status (dk s) \<and> vops (dk t) = vops (dk s) \<and> woken (vks s) (vks t) \<and>
     (\<forall>i. i \<notin> V \<longrightarrow> desc (dk t) i = desc (dk s) i)"

lemma only_desc_trans:
  assumes "only_desc V s t" and "only_desc W t u" and "V \<union> W \<subseteq> X"
  shows "only_desc X s u"
proof -
  have "woken (vks s) (vks u)" using assms(1,2) woken_trans by (auto simp: only_desc_def)
  moreover have "desc (dk u) i = desc (dk s) i" if "i \<notin> X" for i
  proof -
    from that assms(3) have "i \<notin> V" "i \<notin> W" by auto
    with assms(1,2) show ?thesis by (simp add: only_desc_def)
  qed
  ultimately show ?thesis using assms(1,2) by (simp add: only_desc_def)
qed

lemma only_desc_refl [simp]: "only_desc V s s"
  by (simp add: only_desc_def)

lemma free_desc_Ok:
  assumes "i < NUM" and "\<not> vfree (dk s) i"
  obtains t where "free_desc h i s = Ok () t" and "only_desc {i} s t"
    and "vfree (dk t) = (vfree (dk s))(i := True)"
  using assms by (auto simp: free_desc_def only_desc_def wake_disk_def woken_wakeup)

lemma free_all_Ok:
  assumes "distinct is" and "\<forall>i \<in> set is. i < NUM \<and> \<not> vfree (dk s) i"
  shows "\<exists>t. free_all h is s = Ok () t \<and> only_desc (set is) s t \<and>
     vfree (dk t) = (\<lambda>j. j \<in> set is \<or> vfree (dk s) j)"
  using assms
proof (induction "is" arbitrary: s)
  case (Cons i js)
  then have "i < NUM" "\<not> vfree (dk s) i" by auto
  then obtain t where t: "free_desc h i s = Ok () t" "only_desc {i} s t"
    "vfree (dk t) = (vfree (dk s))(i := True)" by (rule free_desc_Ok)
  have "\<exists>u. free_all h js t = Ok () u \<and> only_desc (set js) t u \<and> vfree (dk u) = (\<lambda>j. j \<in> set js \<or> vfree (dk t) j)"
    by (rule Cons.IH) (use Cons.prems t in auto)
  then show ?case using t only_desc_trans [OF t(2), of "set js" _ "set (i # js)"] by (fastforce simp: fun_eq_iff)
qed simp

text \<open>Allocation: either enough descriptors, marked in use, or none and nothing is kept.\<close>

lemma alloc_loop_cases:
  assumes "distinct idx" and "\<forall>i \<in> set idx. i < NUM \<and> \<not> vfree (dk s) i"
  shows "(\<exists>xs t. alloc_loop h n idx s = Ok (Some (idx @ xs)) t \<and> length xs = n \<and> distinct (idx @ xs) \<and>
            (\<forall>i \<in> set xs. i < NUM \<and> vfree (dk s) i) \<and>
            t = s\<lparr>dk := (dk s)\<lparr>vfree := (\<lambda>j. j \<notin> set xs \<and> vfree (dk s) j)\<rparr>\<rparr>) \<or>
         (\<exists>t. alloc_loop h n idx s = Ok None t \<and> only_desc (set idx \<union> {i. vfree (dk s) i}) s t \<and>
            vfree (dk t) = (\<lambda>j. j \<in> set idx \<or> vfree (dk s) j))"
  using assms
proof (induction n arbitrary: idx s)
  case 0
  then show ?case by simp
next
  case (Suc n)
  show ?case
  proof (cases "scan_first (vfree (dk s)) [0..<NUM]")
    case None
    with free_all_Ok [OF Suc.prems, of h] show ?thesis
      by (auto simp: alloc_desc_def elim: only_desc_trans [OF _ only_desc_refl])
  next
    case (Some i)
    then have i: "i < NUM" "vfree (dk s) i" by (auto dest: scan_first_SomeD)
    let ?s = "s\<lparr>dk := (dk s)\<lparr>vfree := (vfree (dk s))(i := False)\<rparr>\<rparr>"
    have IH: "(\<exists>xs t. alloc_loop h n (idx @ [i]) ?s = Ok (Some ((idx @ [i]) @ xs)) t \<and> length xs = n \<and>
            distinct ((idx @ [i]) @ xs) \<and> (\<forall>j \<in> set xs. j < NUM \<and> vfree (dk ?s) j) \<and>
            t = ?s\<lparr>dk := (dk ?s)\<lparr>vfree := (\<lambda>j. j \<notin> set xs \<and> vfree (dk ?s) j)\<rparr>\<rparr>) \<or>
         (\<exists>t. alloc_loop h n (idx @ [i]) ?s = Ok None t \<and>
            only_desc (set (idx @ [i]) \<union> {i. vfree (dk ?s) i}) ?s t \<and>
            vfree (dk t) = (\<lambda>j. j \<in> set (idx @ [i]) \<or> vfree (dk ?s) j))"
      by (rule Suc.IH) (use Suc.prems i in auto)
    have e: "alloc_loop h (Suc n) idx s = alloc_loop h n (idx @ [i]) ?s"
      by (simp add: alloc_desc_def Some)
    from IH show ?thesis
    proof (elim disjE exE conjE)
      fix xs t
      assume a: "alloc_loop h n (idx @ [i]) ?s = Ok (Some ((idx @ [i]) @ xs)) t" "length xs = n"
        "distinct ((idx @ [i]) @ xs)" "\<forall>j \<in> set xs. j < NUM \<and> vfree (dk ?s) j"
        "t = ?s\<lparr>dk := (dk ?s)\<lparr>vfree := (\<lambda>j. j \<notin> set xs \<and> vfree (dk ?s) j)\<rparr>\<rparr>"
      have "(\<lambda>j. j \<notin> set xs \<and> vfree (dk ?s) j) = (\<lambda>j. j \<notin> set (i # xs) \<and> vfree (dk s) j)" by auto
      with a i show ?thesis unfolding e
        by (intro disjI1 exI [of _ "i # xs"] exI [of _ t]) (auto split: if_splits)
    next
      fix t
      assume a: "alloc_loop h n (idx @ [i]) ?s = Ok None t"
        "only_desc (set (idx @ [i]) \<union> {i. vfree (dk ?s) i}) ?s t"
        "vfree (dk t) = (\<lambda>j. j \<in> set (idx @ [i]) \<or> vfree (dk ?s) j)"
      from a(2) i have "only_desc (set idx \<union> {i. vfree (dk s) i}) s t"
        by (auto simp: only_desc_def split: if_splits)
      with a i show ?thesis unfolding e by (intro disjI2 exI [of _ t]) (auto simp: fun_eq_iff)
    qed
  qed
qed

lemma sleep_disk_Wait:
  assumes "sleep_disk ch h s = Wait t"
  shows "\<exists>k. t = s\<lparr>vks := k\<rparr> \<and> (sched_inv (vks s) \<longrightarrow> sched_inv k) \<and>
     (\<forall>i c. asleep k i c \<longrightarrow> asleep (vks s) i c \<or> c = ch \<and> cur (vks s) h = Some i)"
proof -
  from assms obtain k where k: "sleep ch h (vks s) = Wait k" and t: "t = s\<lparr>vks := k\<rparr>"
    by (auto simp: sleep_disk_def split: res.splits)
  have "asleep k i c \<Longrightarrow> asleep (vks s) i c \<or> c = ch \<and> cur (vks s) h = Some i" for i c
    using k by (auto simp: asleep_def sleep_def split: option.splits if_splits)
  with sched_inv_step [OF st_sleep [OF k]] t show ?thesis by blast
qed

lemma virtio_alloc_Ok:
  assumes "virtio_alloc h s = Ok xs t"
  shows "length xs = 3 \<and> distinct xs \<and> (\<forall>i \<in> set xs. i < NUM \<and> vfree (dk s) i) \<and>
     t = s\<lparr>dk := (dk s)\<lparr>vfree := (\<lambda>j. j \<notin> set xs \<and> vfree (dk s) j)\<rparr>\<rparr>"
proof -
  have n: "sleep_disk DiskChan h u \<noteq> Ok xs t" for u by (simp add: sleep_disk_def split: res.splits)
  from assms n have "alloc_loop h 3 [] s = Ok (Some xs) t"
    by (auto simp: virtio_alloc_def alloc3_desc_def seqr_eq_Ok split: option.splits)
  with alloc_loop_cases [of "[]" s h 3] show ?thesis by fastforce
qed

lemma virtio_alloc_Wait:
  assumes "virtio_alloc h s = Wait t"
  obtains u k where "only_desc {i. vfree (dk s) i} s u" and "vfree (dk u) = vfree (dk s)"
    and "t = u\<lparr>vks := k\<rparr>" and "sched_inv (vks u) \<Longrightarrow> sched_inv k"
    and "\<And>i c. asleep k i c \<Longrightarrow> asleep (vks u) i c \<or> c = DiskChan"
proof -
  from assms obtain u where a: "alloc_loop h 3 [] s = Wait t \<or> alloc_loop h 3 [] s = Ok None u \<and>
      (sleep_disk DiskChan h u :: (nat list, vsys) res) = Wait t"
    by (cases "alloc_loop h 3 [] s") (auto simp: virtio_alloc_def alloc3_desc_def split: option.splits)
  with alloc_loop_cases [of "[]" s h 3]
  have u: "only_desc {i. vfree (dk s) i} s u" "vfree (dk u) = vfree (dk s)"
    and s: "(sleep_disk DiskChan h u :: (nat list, vsys) res) = Wait t"
    by auto
  from sleep_disk_Wait [OF s] obtain k where "t = u\<lparr>vks := k\<rparr>" "sched_inv (vks u) \<longrightarrow> sched_inv k"
    "\<forall>i c. asleep k i c \<longrightarrow> asleep (vks u) i c \<or> c = DiskChan \<and> cur (vks u) h = Some i" by blast
  then show ?thesis by (intro that [OF u, of k]) auto
qed

lemma free_chain_three:
  assumes "distinct [i0, i1, i2]" and "\<forall>i \<in> {i0, i1, i2}. i < NUM \<and> \<not> vfree (dk s) i"
    and "vflags (desc (dk s) i0) AND VRING_DESC_F_NEXT \<noteq> 0" and "vnext (desc (dk s) i0) = i1"
    and "vflags (desc (dk s) i1) AND VRING_DESC_F_NEXT \<noteq> 0" and "vnext (desc (dk s) i1) = i2"
    and "vflags (desc (dk s) i2) AND VRING_DESC_F_NEXT = 0"
  shows "\<exists>t. free_chain h i0 s = Ok () t \<and> only_desc {i0, i1, i2} s t \<and>
     vfree (dk t) = (\<lambda>j. j \<in> {i0, i1, i2} \<or> vfree (dk s) j)"
proof -
  obtain t where t: "free_desc h i0 s = Ok () t" "only_desc {i0} s t" "vfree (dk t) = (vfree (dk s))(i0 := True)"
    using assms(2) by (auto elim: free_desc_Ok [of i0 s h])
  obtain u where u: "free_desc h i1 t = Ok () u" "only_desc {i1} t u" "vfree (dk u) = (vfree (dk t))(i1 := True)"
    using assms(1,2) t(3) by (auto elim: free_desc_Ok [of i1 t h])
  obtain v where v: "free_desc h i2 u = Ok () v" "only_desc {i2} u v" "vfree (dk v) = (vfree (dk u))(i2 := True)"
    using assms(1,2) t(3) u(3) by (auto elim: free_desc_Ok [of i2 u h])
  have d: "desc (dk t) i1 = desc (dk s) i1" "desc (dk u) i2 = desc (dk s) i2"
    using assms(1) t(2) u(2) by (auto simp: only_desc_def)
  have "free_chain h i0 s = Ok () v"
    using assms(3-7) d by (simp add: free_chain.simps [of h i0] free_chain.simps [of h i1]
        free_chain.simps [of h i2] t(1) u(1) v(1))
  moreover have "only_desc {i0, i1, i2} s v"
    by (rule only_desc_trans [OF t(2) only_desc_trans [OF u(2) v(2), of "{i1, i2}"]]) auto
  ultimately show ?thesis using t(3) u(3) v(3) by (auto simp: fun_eq_iff)
qed

subsection \<open>The invariant\<close>

definition used_heads :: "vsys \<Rightarrow> nat list" where
  "used_heads s = ring NUM (us_ring (dk s)) (used_idx (dk s)) (us_idx (dk s))"

definition heads :: "vsys \<Rightarrow> nat list" where
  "heads s = ring NUM (av_ring (dk s)) (d_last s) (av_idx (dk s)) @ d_work s @ used_heads s"

fun fmt :: "vsys \<Rightarrow> vpc \<Rightarrow> bool" where
  "fmt s (VDone b wr i0 i1 i2 old) \<longleftrightarrow>
     desc (dk s) i0 = \<lparr>vaddr = OpPtr i0, vlen = 16, vflags = VRING_DESC_F_NEXT, vnext = i1\<rparr> \<and>
     desc (dk s) i1 = \<lparr>vaddr = DataPtr b, vlen = BSIZE,
        vflags = (if wr then 0 else VRING_DESC_F_WRITE) OR VRING_DESC_F_NEXT, vnext = i2\<rparr> \<and>
     desc (dk s) i2 = \<lparr>vaddr = StatusPtr i0, vlen = 1, vflags = VRING_DESC_F_WRITE, vnext = 0\<rparr> \<and>
     vops (dk s) i0 = \<lparr>rtype = (if wr then 1 else 0), rsector = 2 * blockno (vbufs s b)\<rparr> \<and>
     info_b (dk s) i0 = Some b"
| "fmt s _ \<longleftrightarrow> True"

definition ready :: "vsys \<Rightarrow> nat \<Rightarrow> bool \<Rightarrow> blk \<Rightarrow> bool" where
  "ready s b wr old \<longleftrightarrow>
     (\<forall>p < BSIZE. (if wr then data (vbufs s b) p else block_at (blockno (vbufs s b)) s p) = old p)"

definition moved :: "vsys \<Rightarrow> nat \<Rightarrow> blk \<Rightarrow> bool" where
  "moved s b old \<longleftrightarrow>
     (\<forall>p < BSIZE. data (vbufs s b) p = old p \<and> block_at (blockno (vbufs s b)) s p = old p)"

fun xfer :: "vsys \<Rightarrow> vpc \<Rightarrow> bool" where
  "xfer s (VDone b wr i0 i1 i2 old) \<longleftrightarrow>
     (if bdisk s b \<and> i0 \<notin> set (used_heads s) then ready s b wr old else moved s b old) \<and>
     (i0 \<in> set (used_heads s) \<longrightarrow> info_status (dk s) i0 = 0)"
| "xfer s _ \<longleftrightarrow> True"

definition chains_ok :: "vsys \<Rightarrow> (nat \<Rightarrow> vpc) \<Rightarrow> bool" where
  "chains_ok s pcs \<longleftrightarrow>
     (\<forall>i. distinct (chain_of (pcs i))) \<and>
     (\<forall>i. \<forall>k \<in> set (chain_of (pcs i)). k < NUM \<and> \<not> vfree (dk s) k) \<and>
     (\<forall>i j k. k \<in> set (chain_of (pcs i)) \<longrightarrow> k \<in> set (chain_of (pcs j)) \<longrightarrow> i = j) \<and>
     (\<forall>k < NUM. \<not> vfree (dk s) k \<longrightarrow> (\<exists>i. k \<in> set (chain_of (pcs i))))"

definition bufs_ok :: "vsys \<Rightarrow> (nat \<Rightarrow> vpc) \<Rightarrow> bool" where
  "bufs_ok s pcs \<longleftrightarrow>
     (\<forall>i b. buf_of (pcs i) = Some b \<longrightarrow> blockno (vbufs s b) < 2 ^ 31) \<and>
     (\<forall>i j b b'. buf_of (pcs i) = Some b \<longrightarrow> buf_of (pcs j) = Some b' \<longrightarrow> i \<noteq> j \<longrightarrow>
        b \<noteq> b' \<and> blockno (vbufs s b) \<noteq> blockno (vbufs s b'))"

definition rings_ok :: "vsys \<Rightarrow> (nat \<Rightarrow> vpc) \<Rightarrow> bool" where
  "rings_ok s pcs \<longleftrightarrow>
     distinct (heads s) \<and>
     (\<forall>k. k \<in> set (heads s) \<longleftrightarrow> (\<exists>i b wr i1 i2 old. pcs i = VDone b wr k i1 i2 old \<and> bdisk s b))"

definition sleep_ok :: "vsys \<Rightarrow> (nat \<Rightarrow> vpc) \<Rightarrow> bool" where
  "sleep_ok s pcs \<longleftrightarrow> sched_inv (vks s) \<and>
     (\<forall>i b. asleep (vks s) i (BufChan b) \<longrightarrow>
        i < NPROC \<and> bdisk s b \<and> (\<exists>wr i0 i1 i2 old. pcs i = VDone b wr i0 i1 i2 old))"

definition vinv :: "vsys \<Rightarrow> (nat \<Rightarrow> vpc) \<Rightarrow> bool" where
  "vinv s pcs \<longleftrightarrow>
     chains_ok s pcs \<and> bufs_ok s pcs \<and> (\<forall>i. fmt s (pcs i)) \<and> rings_ok s pcs \<and> (\<forall>i. xfer s (pcs i)) \<and>
     sleep_ok s pcs"

lemma fmt_frame:
  assumes "fmt s l" and "\<forall>k \<in> set (chain_of l). desc (dk t) k = desc (dk s) k \<and>
      vops (dk t) k = vops (dk s) k \<and> info_b (dk t) k = info_b (dk s) k"
    and "\<forall>b. buf_of l = Some b \<longrightarrow> blockno (vbufs t b) = blockno (vbufs s b)"
  shows "fmt t l"
  using assms by (cases l) auto

lemma ready_moved_frame:
  assumes "vbufs t b = vbufs s b"
    and "\<forall>p < BSIZE. block_at (blockno (vbufs s b)) t p = block_at (blockno (vbufs s b)) s p"
  shows "ready t b wr old = ready s b wr old" and "moved t b old = moved s b old"
  using assms unfolding ready_def moved_def by auto

lemma xfer_frame:
  assumes "xfer s l" and "\<forall>b. buf_of l = Some b \<longrightarrow> vbufs t b = vbufs s b \<and> bdisk t b = bdisk s b \<and>
      (\<forall>p < BSIZE. block_at (blockno (vbufs s b)) t p = block_at (blockno (vbufs s b)) s p)"
    and "\<forall>k \<in> set (chain_of l). (k \<in> set (used_heads t) \<longleftrightarrow> k \<in> set (used_heads s)) \<and>
      (k \<in> set (used_heads s) \<longrightarrow> info_status (dk t) k = info_status (dk s) k)"
  shows "xfer t l"
  using assms ready_moved_frame [of t _ s] by (cases l) simp_all

lemma chains_okD:
  assumes "chains_ok s pcs" and "k \<in> set (chain_of (pcs i))"
  shows "k < NUM" and "\<not> vfree (dk s) k" and "k \<in> set (chain_of (pcs j)) \<Longrightarrow> j = i"
  using assms by (auto simp: chains_ok_def)

lemma bufs_okD:
  assumes "bufs_ok s pcs" and "buf_of (pcs i) = Some b"
  shows "blockno (vbufs s b) < 2 ^ 31"
    and "buf_of (pcs j) = Some b' \<Longrightarrow> j \<noteq> i \<Longrightarrow> b' \<noteq> b \<and> blockno (vbufs s b') \<noteq> blockno (vbufs s b)"
  using assms unfolding bufs_ok_def by blast+

lemma used_heads_same:
  "us_ring (dk t) = us_ring (dk s) \<Longrightarrow> used_idx (dk t) = used_idx (dk s) \<Longrightarrow> us_idx (dk t) = us_idx (dk s) \<Longrightarrow>
   used_heads t = used_heads s"
  by (simp add: used_heads_def)

lemma vinv_frame:
  assumes v: "vinv s pcs" and u: "only_desc {i. vfree (dk s) i} s u" "vfree (dk u) = vfree (dk s)"
    and t: "t = u\<lparr>vks := k\<rparr>" and k: "sched_inv k"
    and a: "\<And>i b. asleep k i (BufChan b) \<Longrightarrow> asleep (vks s) i (BufChan b) \<or>
       i < NPROC \<and> bdisk s b \<and> (\<exists>wr i0 i1 i2 old. pcs i = VDone b wr i0 i1 i2 old)"
  shows "vinv t pcs"
proof -
  from u(1) have e: "vbufs t = vbufs s" "bdisk t = bdisk s" "media t = media s" "vops (dk t) = vops (dk s)"
    "info_b (dk t) = info_b (dk s)" "info_status (dk t) = info_status (dk s)" "vfree (dk t) = vfree (dk s)"
    "\<And>i. \<not> vfree (dk s) i \<Longrightarrow> desc (dk t) i = desc (dk s) i"
    and h: "heads t = heads s" "used_heads t = used_heads s"
    using u(2) by (auto simp: only_desc_def t heads_def used_heads_def)
  from v have c: "chains_ok s pcs" by (simp add: vinv_def)
  have "fmt t (pcs i)" for i
    by (rule fmt_frame [of s]) (use v e chains_okD(2) [OF c, of _ i] in \<open>auto simp: vinv_def\<close>)
  moreover have "xfer t (pcs i)" for i
    by (rule xfer_frame [of s]) (use v e h in \<open>auto simp: vinv_def block_at_def\<close>)
  moreover have "sleep_ok t pcs"
    unfolding sleep_ok_def
  proof (intro conjI allI impI)
    fix i b assume "asleep (vks t) i (BufChan b)"
    then have "asleep k i (BufChan b)" by (simp add: t)
    from a [OF this] v have "i < NPROC \<and> bdisk s b \<and> (\<exists>wr i0 i1 i2 old. pcs i = VDone b wr i0 i1 i2 old)"
      unfolding vinv_def sleep_ok_def by blast
    then show "i < NPROC" "bdisk t b" "\<exists>wr i0 i1 i2 old. pcs i = VDone b wr i0 i1 i2 old"
      by (simp_all add: e)
  qed (simp add: t k)
  ultimately show ?thesis
    using v by (simp add: vinv_def chains_ok_def bufs_ok_def rings_ok_def e h)
qed

lemma vinv_full:
  assumes "vinv s pcs" and "virtio_alloc h s = Wait t"
  shows "vinv t pcs"
proof -
  from virtio_alloc_Wait [OF assms(2)] obtain u k where u: "only_desc {i. vfree (dk s) i} s u" "vfree (dk u) = vfree (dk s)"
    and t: "t = u\<lparr>vks := k\<rparr>" and k: "sched_inv (vks u) \<Longrightarrow> sched_inv k"
    and a: "\<And>i c. asleep k i c \<Longrightarrow> asleep (vks u) i c \<or> c = DiskChan" by blast
  have w: "woken (vks s) (vks u)" using u(1) by (simp add: only_desc_def)
  have si: "sched_inv (vks s)" using assms(1) by (simp add: vinv_def sleep_ok_def)
  have "asleep (vks s) i (BufChan b)" if "asleep k i (BufChan b)" for i b
    using a [OF that] w by (simp add: woken_def)
  then show ?thesis
    by (intro vinv_frame [OF assms(1) u t]) (use w k si in \<open>auto simp: woken_def\<close>)
qed

lemma vinv_again:
  assumes "vinv s pcs" and "virtio_wait h b s = Wait t" and "cur (vks s) h = Some i"
    and "pcs i = VDone b wr i0 i1 i2 old"
  shows "vinv t pcs"
proof -
  from assms(2) have b: "bdisk s b" and "sleep_disk (BufChan b) h s = (Wait t :: (unit, vsys) res)"
    by (auto simp: virtio_wait_def split: if_splits)
  from sleep_disk_Wait [OF this(2)] obtain k where t: "t = s\<lparr>vks := k\<rparr>" and k: "sched_inv (vks s) \<longrightarrow> sched_inv k"
    and a: "\<forall>i c. asleep k i c \<longrightarrow> asleep (vks s) i c \<or> c = BufChan b \<and> cur (vks s) h = Some i" by blast
  have si: "sched_inv (vks s)" using assms(1) by (simp add: vinv_def sleep_ok_def)
  then have i: "i < NPROC" using assms(3) unfolding sched_inv_def by blast
  have "asleep (vks s) j (BufChan c) \<or> j < NPROC \<and> bdisk s c \<and> (\<exists>wr i0 i1 i2 old. pcs j = VDone c wr i0 i1 i2 old)"
    if "asleep k j (BufChan c)" for j c
  proof -
    from a that assms(3) have "asleep (vks s) j (BufChan c) \<or> j = i \<and> c = b" by fastforce
    with assms(4) b i show ?thesis by blast
  qed
  from vinv_frame [OF assms(1) only_desc_refl refl t _ this] k si show ?thesis by blast
qed

subsection \<open>Every step keeps the invariant\<close>

lemma vinvD:
  assumes "vinv s pcs"
  shows "chains_ok s pcs" "bufs_ok s pcs" "fmt s (pcs i)" "rings_ok s pcs" "xfer s (pcs i)" "sleep_ok s pcs"
  using assms by (simp_all add: vinv_def)

lemma heads_chain:
  assumes "rings_ok s pcs" and "k \<in> set (heads s)"
  obtains i where "k \<in> set (chain_of (pcs i))"
proof -
  from assms obtain i b wr i1 i2 old where "pcs i = VDone b wr k i1 i2 old"
    unfolding rings_ok_def by blast
  then have "k \<in> set (chain_of (pcs i))" by simp
  then show thesis by (rule that)
qed

lemma heads_room:
  assumes "chains_ok s pcs" and "rings_ok s pcs" and "k < NUM" and "k \<notin> set (heads s)"
  shows "length (heads s) < NUM"
proof -
  have "j < NUM" if "j \<in> set (heads s)" for j
    using heads_chain [OF assms(2) that] chains_okD(1) [OF assms(1)] by blast
  with assms(4) have "set (heads s) \<subseteq> {..<NUM} - {k}" by auto
  then have "card (set (heads s)) \<le> card ({..<NUM} - {k})" by (rule card_mono [rotated]) simp
  also have "\<dots> < NUM" using assms(3) by (simp add: NUM_def)
  finally show ?thesis using assms(2) by (simp add: rings_ok_def distinct_card)
qed

lemma NUM_dvd: "NUM dvd 2 ^ LENGTH(16)" "NUM < 2 ^ LENGTH(16)"
  by (simp_all add: NUM_def)

lemma vinv_call:
  assumes "vinv s pcs" and "pcs i = VIdle" and "may_call b \<lparr>vs = s, vpcs = pcs\<rparr>"
  shows "vinv s (pcs(i := VDesc b wr))"
proof -
  let ?q = "pcs(i := VDesc b wr)"
  have ch: "chain_of (?q j) = chain_of (pcs j)" for j using assms(2) by simp
  have dn: "?q j = VDone c w k0 k1 k2 d \<longleftrightarrow> pcs j = VDone c w k0 k1 k2 d" for j c w k0 k1 k2 d
    using assms(2) by simp
  have "bufs_ok s ?q"
    unfolding bufs_ok_def
  proof (intro conjI allI impI)
    fix j c assume "buf_of (?q j) = Some c"
    then show "blockno (vbufs s c) < 2 ^ 31"
      using bufs_okD(1) [OF vinvD(2) [OF assms(1)], of j c] assms(3)
      by (auto simp: may_call_def split: if_splits)
  next
    fix j k c d assume a: "buf_of (?q j) = Some c" "buf_of (?q k) = Some d" "j \<noteq> k"
    have m: "c' \<noteq> b \<and> blockno (vbufs s c') \<noteq> blockno (vbufs s b)" if "buf_of (pcs l) = Some c'" for l c'
      using assms(3) that by (simp add: may_call_def)
    consider "j = i" "c = b" "buf_of (pcs k) = Some d" | "k = i" "d = b" "buf_of (pcs j) = Some c"
      | "buf_of (pcs j) = Some c" "buf_of (pcs k) = Some d"
      using a by (auto split: if_splits)
    then have "c \<noteq> d \<and> blockno (vbufs s c) \<noteq> blockno (vbufs s d)"
      by cases (use m bufs_okD(2) [OF vinvD(2) [OF assms(1)], of k d j c] a(3) in fastforce)+
    then show "c \<noteq> d" "blockno (vbufs s c) \<noteq> blockno (vbufs s d)" by auto
  qed
  then show ?thesis
    using assms(1) unfolding vinv_def chains_ok_def rings_ok_def sleep_ok_def ch dn by auto
qed

lemma chains_ok_add:
  assumes c: "chains_ok s pcs" and i: "chain_of (pcs i) = []" and d: "distinct (chain_of l)"
    and fr: "\<And>k. k \<in> set (chain_of l) \<Longrightarrow> k < NUM \<and> vfree (dk s) k"
    and f: "vfree (dk u) = (\<lambda>j. j \<notin> set (chain_of l) \<and> vfree (dk s) j)"
  shows "chains_ok u (pcs(i := l))"
  unfolding chains_ok_def
proof (intro conjI allI ballI impI)
  fix j
  show "distinct (chain_of ((pcs(i := l)) j))" using c d by (simp add: chains_ok_def)
  fix k assume k: "k \<in> set (chain_of ((pcs(i := l)) j))"
  then show "k < NUM" "\<not> vfree (dk u) k"
    using fr chains_okD(1,2) [OF c, of k j] by (auto simp: f split: if_splits)
  fix m assume "k \<in> set (chain_of ((pcs(i := l)) m))"
  with k show "j = m"
    using fr [of k] chains_okD(2) [OF c, of k] chains_okD(3) [OF c, of k j m] by (auto split: if_splits)
next
  fix k assume "k < NUM" "\<not> vfree (dk u) k"
  then consider "k \<in> set (chain_of l)" | j where "k \<in> set (chain_of (pcs j))"
    using c unfolding f chains_ok_def by blast
  then show "\<exists>j. k \<in> set (chain_of ((pcs(i := l)) j))"
  proof cases
    case 1
    then show ?thesis by (intro exI [of _ i]) simp
  next
    case 2
    with i show ?thesis by (intro exI [of _ j]) auto
  qed
qed

lemma submit_simps:
  assumes "u = virtio_submit b wr i0 i1 i2 t" and "distinct [i0, i1, i2]"
  shows "vbufs u = vbufs t" "media u = media t" "d_last u = d_last t" "d_work u = d_work t" "vks u = vks t"
    "bdisk u = (bdisk t)(b := True)" "used_heads u = used_heads t" "vfree (dk u) = vfree (dk t)"
    "vops (dk u) = (vops (dk t))(i0 := \<lparr>rtype = (if wr then 1 else 0),
       rsector = blockno (vbufs t b) * (BSIZE div 512) mod 2 ^ 32\<rparr>)"
    "info_status (dk u) = (info_status (dk t))(i0 := 0xff)" "info_b (dk u) = (info_b (dk t))(i0 := Some b)"
    "av_ring (dk u) = (av_ring (dk t))(unat (av_idx (dk t)) mod NUM := i0)" "av_idx (dk u) = av_idx (dk t) + 1"
    "j \<notin> {i0, i1, i2} \<Longrightarrow> desc (dk u) j = desc (dk t) j"
    "desc (dk u) i0 = \<lparr>vaddr = OpPtr i0, vlen = 16, vflags = VRING_DESC_F_NEXT, vnext = i1\<rparr>"
    "desc (dk u) i1 = \<lparr>vaddr = DataPtr b, vlen = BSIZE,
        vflags = (if wr then 0 else VRING_DESC_F_WRITE) OR VRING_DESC_F_NEXT, vnext = i2\<rparr>"
    "desc (dk u) i2 = \<lparr>vaddr = StatusPtr i0, vlen = 1, vflags = VRING_DESC_F_WRITE, vnext = 0\<rparr>"
  using assms(2) unfolding assms(1) by (simp_all add: virtio_submit_def Let_def used_heads_def)

lemma rings_ok_add:
  assumes ro: "rings_ok s pcs" and i: "pcs i = VDesc b wr" and bj: "\<And>j c. buf_of (pcs j) = Some c \<Longrightarrow> j \<noteq> i \<Longrightarrow> c \<noteq> b"
    and h: "set (heads u) = insert i0 (set (heads s))" "distinct (heads u)" and bd: "bdisk u = (bdisk s)(b := True)"
  shows "rings_ok u (pcs(i := VDone b wr i0 i1 i2 old))"
  unfolding rings_ok_def
proof (intro conjI allI)
  fix k
  have "bdisk u c = bdisk s c" if "pcs j = VDone c w k i1' i2' o'" "j \<noteq> i" for j c w i1' i2' o'
    using bj [of j c] that by (simp add: bd)
  moreover have "bdisk u b" by (simp add: bd)
  ultimately show "k \<in> set (heads u) \<longleftrightarrow>
      (\<exists>j c w i1' i2' old'. (pcs(i := VDone b wr i0 i1 i2 old)) j = VDone c w k i1' i2' old' \<and> bdisk u c)"
    using ro i unfolding rings_ok_def h(1) by (auto split: if_splits) (metis vpc.distinct(5))+
qed (rule h(2))

text \<open>The head of a new chain joins the ring of requests.\<close>

lemma submit_heads:
  assumes c: "chains_ok s pcs" and ro: "rings_ok s pcs" and u: "u = virtio_submit b wr i0 i1 i2 t" and d: "distinct [i0, i1, i2]"
    and t: "t = s\<lparr>dk := (dk s)\<lparr>vfree := f\<rparr>\<rparr>" and fr: "i0 < NUM" "vfree (dk s) i0"
  shows "i0 \<notin> set (heads s)" and "set (heads u) = insert i0 (set (heads s))" and "distinct (heads u)"
    and "used_heads u = used_heads s"
proof -
  note e = submit_simps [OF u d]
  show i0: "i0 \<notin> set (heads s)" using heads_chain [OF ro] chains_okD(2) [OF c] fr(2) by blast
  have dh: "distinct (heads s)" using ro by (simp add: rings_ok_def)
  have "length (heads s) < NUM" using heads_room [OF c ro _ i0] fr by simp
  then have "unat (av_idx (dk s) - d_last s) < NUM" by (simp add: heads_def)
  from ring_put [OF NUM_dvd(1) this NUM_dvd(2), of "av_ring (dk s)" i0]
  have "heads u = ring NUM (av_ring (dk s)) (d_last s) (av_idx (dk s)) @ [i0] @ d_work s @ used_heads s"
    by (simp add: heads_def e) (simp add: t used_heads_def)
  then show "set (heads u) = insert i0 (set (heads s))" "distinct (heads u)"
    using i0 dh by (auto simp: heads_def)
  show "used_heads u = used_heads s" by (simp add: e) (simp add: t used_heads_def)
qed

lemma vinv_submit:
  assumes v: "vinv s pcs" and i: "pcs i = VDesc b wr" and a: "virtio_alloc h s = Ok [i0, i1, i2] t"
    and u: "u = virtio_submit b wr i0 i1 i2 t"
    and old: "old = (if wr then data (vbufs s b) else block_at (blockno (vbufs s b)) s)"
  shows "vinv u (pcs(i := VDone b wr i0 i1 i2 old))"
proof -
  let ?q = "pcs(i := VDone b wr i0 i1 i2 old)"
  note c = vinvD(1) [OF v] and bo = vinvD(2) [OF v] and ro = vinvD(4) [OF v]
  from virtio_alloc_Ok [OF a] have d: "distinct [i0, i1, i2]"
    and fr: "\<And>k. k \<in> {i0, i1, i2} \<Longrightarrow> k < NUM \<and> vfree (dk s) k"
    and t: "t = s\<lparr>dk := (dk s)\<lparr>vfree := (\<lambda>j. j \<notin> {i0, i1, i2} \<and> vfree (dk s) j)\<rparr>\<rparr>" by auto
  note e = submit_simps [OF u d]
  have new: "k \<notin> set (chain_of (pcs j))" if "k \<in> {i0, i1, i2}" for k j
    using fr [OF that] chains_okD(2) [OF c] by blast
  have bj: "c \<noteq> b" if "buf_of (pcs j) = Some c" "j \<noteq> i" for j c
    using bufs_okD(2) [OF bo, of i b j c] i that by simp
  have f0: "i0 < NUM" "vfree (dk s) i0" using fr [of i0] by simp_all
  note h = submit_heads [OF c ro u d t f0]
  have "fmt u (?q j)" for j
  proof (cases "j = i")
    case True
    have "blockno (vbufs s b) < 2 ^ 31" using bufs_okD(1) [OF bo, of i b] i by simp
    then have "blockno (vbufs t b) * (BSIZE div 512) mod 2 ^ 32 = 2 * blockno (vbufs s b)"
      by (simp add: t BSIZE_def)
    with True show ?thesis by (simp add: e, simp add: t)
  next
    case False
    have "\<forall>k \<in> set (chain_of (pcs j)). k \<noteq> i0 \<and> k \<noteq> i1 \<and> k \<noteq> i2" using new [of _ j] by blast
    with False show ?thesis
      by (simp, intro fmt_frame [OF vinvD(3) [OF v]]) (simp_all add: e, simp_all add: t)
  qed
  moreover have "xfer u (?q j)" for j
  proof (cases "j = i")
    case True
    have "i0 \<notin> set (used_heads s)" using h(1) by (simp add: heads_def)
    moreover have "ready u b wr old" by (simp add: ready_def e block_at_def old) (simp add: t)
    ultimately show ?thesis using True by (simp add: e(6) h(4))
  next
    case False
    have "\<forall>k \<in> set (chain_of (pcs j)). k \<noteq> i0" using new [of _ j] by blast
    moreover have "\<forall>c. buf_of (pcs j) = Some c \<longrightarrow> c \<noteq> b" using bj False by blast
    ultimately show ?thesis
      using False by (simp, intro xfer_frame [OF vinvD(5) [OF v]]) (simp_all add: e(1-6,10) h(4) block_at_def, simp_all add: t)
  qed
  moreover have "chains_ok u ?q"
  proof (rule chains_ok_add [OF c])
    show "vfree (dk u) = (\<lambda>j. j \<notin> set (chain_of (VDone b wr i0 i1 i2 old)) \<and> vfree (dk s) j)"
      by (simp add: e t)
  qed (use i d fr in auto)
  moreover have "bufs_ok u ?q"
  proof -
    have "buf_of (?q j) = buf_of (pcs j)" for j by (simp add: i)
    moreover have "vbufs u = vbufs s" by (simp add: e t)
    ultimately show ?thesis using bo unfolding bufs_ok_def by (simp only:)
  qed
  moreover have "bdisk u = (bdisk s)(b := True)" by (simp add: e t)
  then have "rings_ok u ?q" by (intro rings_ok_add [OF ro i bj h(2,3)])
  moreover have "sleep_ok u ?q"
  proof -
    have "vks u = vks s" "bdisk u = (bdisk s)(b := True)" by (simp_all add: e t)
    then show ?thesis using vinvD(6) [OF v] i unfolding sleep_ok_def by (fastforce split: if_splits)
  qed
  ultimately show ?thesis by (simp add: vinv_def)
qed

lemma vinv_others:
  assumes v: "vinv s pcs" and o: "others \<lparr>vs = s, vpcs = pcs\<rparr> t"
  shows "vinv t pcs"
proof -
  from o have e: "dk t = dk s" "media t = media s" "heads t = heads s" "used_heads t = used_heads s"
    and b: "\<And>i b. buf_of (pcs i) = Some b \<Longrightarrow> vbufs t b = vbufs s b \<and> bdisk t b = bdisk s b"
    and k: "sched_inv (vks t)" "\<And>i b. asleep (vks t) i (BufChan b) \<Longrightarrow> asleep (vks s) i (BufChan b)"
    by (auto simp: others_def heads_def used_heads_def)
  have "fmt t (pcs i)" for i
    by (rule fmt_frame [OF vinvD(3) [OF v]]) (simp_all add: e b)
  moreover have "xfer t (pcs i)" for i
    by (rule xfer_frame [OF vinvD(5) [OF v]]) (simp_all add: e b block_at_def)
  moreover have "bufs_ok t pcs"
    using vinvD(2) [OF v] b unfolding bufs_ok_def by metis
  moreover have "rings_ok t pcs"
  proof -
    have "pcs i = VDone c w k i1 i2 old \<and> bdisk t c \<longleftrightarrow> pcs i = VDone c w k i1 i2 old \<and> bdisk s c" for i c w k i1 i2 old
      using b [of i c] by auto
    then show ?thesis using vinvD(4) [OF v] unfolding rings_ok_def e(3) by simp
  qed
  moreover have "sleep_ok t pcs"
    unfolding sleep_ok_def
  proof (intro conjI allI impI k(1))
    fix i c assume "asleep (vks t) i (BufChan c)"
    with k(2) have "asleep (vks s) i (BufChan c)" by blast
    with vinvD(6) [OF v] have *: "i < NPROC \<and> bdisk s c \<and> (\<exists>wr i0 i1 i2 old. pcs i = VDone c wr i0 i1 i2 old)"
      unfolding sleep_ok_def by blast
    then show "i < NPROC" "\<exists>wr i0 i1 i2 old. pcs i = VDone c wr i0 i1 i2 old" by auto
    from * b [of i c] show "bdisk t c" by auto
  qed
  ultimately show ?thesis using vinvD(1) [OF v] by (simp add: vinv_def chains_ok_def e)
qed

lemma vinv_take:
  assumes v: "vinv s pcs" and d: "dev_take s t"
  shows "vinv t pcs"
proof -
  let ?k = "av_ring (dk s) (unat (d_last s) mod NUM)"
  from d have ne: "d_last s \<noteq> av_idx (dk s)"
    and t: "t = s\<lparr>d_last := d_last s + 1, d_work := d_work s @ [?k]\<rparr>" by (auto simp: dev_take_def)
  have h: "heads s = ?k # ring NUM (av_ring (dk s)) (d_last s + 1) (av_idx (dk s)) @ d_work s @ used_heads s"
    by (simp add: heads_def ring_get [OF ne])
  have h': "heads t = ring NUM (av_ring (dk s)) (d_last s + 1) (av_idx (dk s)) @ (d_work s @ [?k]) @ used_heads s"
    by (simp add: heads_def t used_heads_def)
  have e: "set (heads t) = set (heads s)" "distinct (heads t) \<longleftrightarrow> distinct (heads s)" "used_heads t = used_heads s"
    by (auto simp: h h') (simp add: t used_heads_def)
  have "fmt t (pcs i)" for i
    by (rule fmt_frame [OF vinvD(3) [OF v]]) (simp_all add: t)
  moreover have "xfer t (pcs i)" for i
    by (rule xfer_frame [OF vinvD(5) [OF v]]) (simp_all add: e, simp_all add: t block_at_def)
  ultimately show ?thesis
    using v by (simp add: vinv_def chains_ok_def bufs_ok_def rings_ok_def sleep_ok_def e) (simp add: t)
qed

lemma heads_le:
  assumes "chains_ok s pcs" and "rings_ok s pcs"
  shows "length (heads s) \<le> NUM"
proof -
  have "j < NUM" if "j \<in> set (heads s)" for j
    using heads_chain [OF assms(2) that] chains_okD(1) [OF assms(1)] by blast
  then have "card (set (heads s)) \<le> card {..<NUM}" by (intro card_mono) auto
  then show ?thesis using assms(2) by (simp add: rings_ok_def distinct_card)
qed

text \<open>A transfer between the medium and a buffer leaves the other blocks and buffers alone.\<close>

lemma transfer_other:
  assumes "t = dev_transfer ty (2 * blockno (vbufs s b)) b BSIZE s"
  shows "c \<noteq> b \<Longrightarrow> vbufs t c = vbufs s c" and "blockno (vbufs t c) = blockno (vbufs s c)"
    and "n \<noteq> blockno (vbufs s b) \<Longrightarrow> p < BSIZE \<Longrightarrow> block_at n t p = block_at n s p"
proof -
  show "c \<noteq> b \<Longrightarrow> vbufs t c = vbufs s c" "blockno (vbufs t c) = blockno (vbufs s c)"
    by (auto simp: assms dev_transfer_def)
  assume n: "n \<noteq> blockno (vbufs s b)" and p: "p < BSIZE"
  have "n * BSIZE + p < blockno (vbufs s b) * BSIZE \<or> blockno (vbufs s b) * BSIZE + BSIZE \<le> n * BSIZE + p"
    using n p by (cases "n < blockno (vbufs s b)") (auto simp: BSIZE_def)
  then show "block_at n t p = block_at n s p"
    by (auto simp: assms dev_transfer_def block_at_def BSIZE_def)
qed

lemma transfer_moved:
  assumes "ready s b wr old" and "t = dev_transfer (if wr then 1 else 0) (2 * blockno (vbufs s b)) b BSIZE s"
  shows "moved t b old"
  using assms by (auto simp: ready_def moved_def dev_transfer_def block_at_def BSIZE_def mult.commute)

lemma vinv_complete:
  assumes v: "vinv s pcs" and d: "dev_complete s t"
  shows "vinv t pcs"
proof -
  from d obtain xs k ys q b j where w: "d_work s = xs @ k # ys"
    and q: "vaddr (desc (dk s) k) = OpPtr q" "vaddr (desc (dk s) (vnext (desc (dk s) k))) = DataPtr b"
      "vaddr (desc (dk s) (vnext (desc (dk s) (vnext (desc (dk s) k))))) = StatusPtr j"
    and t: "t = (dev_transfer (rtype (vops (dk s) q)) (rsector (vops (dk s) q)) b
           (vlen (desc (dk s) (vnext (desc (dk s) k)))) s)
              \<lparr>d_work := xs @ ys,
               dk := (dk s)\<lparr>info_status := (info_status (dk s))(j := 0),
                            us_ring := (us_ring (dk s))(unat (us_idx (dk s)) mod NUM := k),
                            us_idx := us_idx (dk s) + 1\<rparr>\<rparr>"
    unfolding dev_complete_def by blast
  note c = vinvD(1) [OF v] and bo = vinvD(2) [OF v] and ro = vinvD(4) [OF v]
  have dh: "distinct (heads s)" using ro by (simp add: rings_ok_def)
  have "k \<in> set (heads s)" by (simp add: heads_def w)
  then obtain i b' wr i1 i2 old where i: "pcs i = VDone b' wr k i1 i2 old" and bd: "bdisk s b'"
    using ro unfolding rings_ok_def by blast
  from vinvD(3) [OF v, of i] i q have qb: "q = k" "b' = b" "j = k"
    and f: "rtype (vops (dk s) k) = (if wr then 1 else 0)" "rsector (vops (dk s) k) = 2 * blockno (vbufs s b)"
      "vlen (desc (dk s) (vnext (desc (dk s) k))) = BSIZE" by auto
  define u where "u = dev_transfer (if wr then 1 else 0) (2 * blockno (vbufs s b)) b BSIZE s"
  have u: "dk u = dk s" "bdisk u = bdisk s" "vks u = vks s" "d_last u = d_last s" by (simp_all add: u_def dev_transfer_def)
  have t': "t = u\<lparr>d_work := xs @ ys,
               dk := (dk s)\<lparr>info_status := (info_status (dk s))(k := 0),
                            us_ring := (us_ring (dk s))(unat (us_idx (dk s)) mod NUM := k),
                            us_idx := us_idx (dk s) + 1\<rparr>\<rparr>"
    unfolding t u_def qb f by simp
  have ku: "k \<notin> set (used_heads s)" using dh by (simp add: heads_def w)
  have uh: "used_heads t = used_heads s @ [k]"
  proof -
    have "unat (us_idx (dk s) - used_idx (dk s)) < NUM"
      using heads_le [OF c ro] by (simp add: heads_def w used_heads_def)
    from ring_put [OF NUM_dvd(1) this NUM_dvd(2), of "us_ring (dk s)" k] show ?thesis
      by (simp add: used_heads_def t')
  qed
  have h: "set (heads t) = set (heads s)" "distinct (heads t)"
    using dh by (auto simp: heads_def uh w) (auto simp: t' u)
  have ib: "buf_of (pcs i) = Some b" by (simp add: i qb)
  note o = transfer_other [OF u_def]
  have "xfer t (pcs l)" for l
  proof (cases "l = i")
    case True
    have "ready s b wr old" using vinvD(5) [OF v, of i] bd ku by (simp add: i qb)
    then have "moved u b old" by (rule transfer_moved) (rule u_def)
    then have "moved t b old" by (simp add: moved_def t' block_at_def)
    then show ?thesis by (simp add: True i qb uh) (simp add: t')
  next
    case False
    have "k \<notin> set (chain_of (pcs l))" using chains_okD(3) [OF c, of k i l] False by (auto simp: i)
    then have ck: "\<forall>m \<in> set (chain_of (pcs l)). m \<noteq> k" by blast
    have cb: "vbufs t c' = vbufs s c' \<and> (\<forall>p < BSIZE. block_at (blockno (vbufs s c')) t p = block_at (blockno (vbufs s c')) s p)"
      if "buf_of (pcs l) = Some c'" for c'
      using bufs_okD(2) [OF bo ib that False] o(1,3) by (simp add: t' block_at_def)
    show ?thesis
      by (rule xfer_frame [OF vinvD(5) [OF v]]) (use ck cb in \<open>auto simp: uh\<close>, auto simp: t' u)
  qed
  moreover have "fmt t (pcs l)" for l
    by (rule fmt_frame [OF vinvD(3) [OF v]]) (simp_all add: t' o(2))
  moreover have "bufs_ok t pcs" using bo by (simp add: bufs_ok_def t' o(2))
  moreover have "rings_ok t pcs" using ro h by (simp add: rings_ok_def) (simp add: t' u)
  moreover have "sleep_ok t pcs" using vinvD(6) [OF v] by (simp add: sleep_ok_def t' u)
  ultimately show ?thesis using c by (simp add: vinv_def chains_ok_def t')
qed

lemma asleep_woken:
  assumes "asleep (vks (wake_disk (BufChan b) h s)) l (BufChan c)" and "sched_inv (vks s)"
    and "\<And>l. asleep (vks s) l (BufChan b) \<Longrightarrow> l < NPROC"
  shows "asleep (vks s) l (BufChan c) \<and> c \<noteq> b"
proof -
  have a: "asleep (vks s) l (BufChan c)"
    using wake_disk_simps(7) [of s "BufChan b" h] assms(1) by (simp add: woken_def)
  moreover have "c \<noteq> b"
  proof
    assume "c = b"
    with a assms(3) have "l < NPROC" by blast
    moreover have "cur (vks s) h \<noteq> Some l" using sched_inv_running [OF assms(2), of h l] a by (auto simp: asleep_def)
    ultimately show False
      using assms(1) \<open>c = b\<close> by (auto simp: asleep_def wake_disk_def wakeup_eq wake_one_def split: if_splits)
  qed
  ultimately show ?thesis by simp
qed

lemma rings_ok_remove:
  assumes ro: "rings_ok s pcs" and i: "pcs i = VDone b wr k i1 i2 old"
    and lb: "\<And>l c. buf_of (pcs l) = Some c \<Longrightarrow> l \<noteq> i \<Longrightarrow> c \<noteq> b"
    and lk: "\<And>l. l \<noteq> i \<Longrightarrow> k \<notin> set (chain_of (pcs l))"
    and h: "set (heads s) = insert k (set (heads t))" "k \<notin> set (heads t)" "distinct (heads t)"
    and bd: "bdisk t = (bdisk s)(b := False)"
  shows "rings_ok t pcs"
  unfolding rings_ok_def
proof (intro conjI allI h(3))
  fix m
  let ?r = "\<lambda>l c. \<exists>w j1 j2 d. pcs l = VDone c w m j1 j2 d"
  have r: "m \<in> set (heads s) \<longleftrightarrow> (\<exists>l c. ?r l c \<and> bdisk s c)" using ro unfolding rings_ok_def by blast
  have "m \<in> set (heads t) \<longleftrightarrow> m \<in> set (heads s) \<and> m \<noteq> k" using h by auto
  also have "\<dots> \<longleftrightarrow> (\<exists>l c. ?r l c \<and> bdisk t c)"
  proof
    assume "m \<in> set (heads s) \<and> m \<noteq> k"
    then obtain l c where l: "?r l c" "bdisk s c" "m \<noteq> k" using r by blast
    with i have "l \<noteq> i" by auto
    with l lb [of l c] have "bdisk t c" by (auto simp: bd)
    with l show "\<exists>l c. ?r l c \<and> bdisk t c" by blast
  next
    assume "\<exists>l c. ?r l c \<and> bdisk t c"
    then obtain l c where l: "?r l c" "bdisk t c" by blast
    then have "l \<noteq> i" "bdisk s c" using i by (auto simp: bd split: if_splits)
    then have "m \<in> set (heads s)" "m \<noteq> k" using l lk [of l] unfolding r by (blast, auto)
    then show "m \<in> set (heads s) \<and> m \<noteq> k" ..
  qed
  finally show "m \<in> set (heads t) \<longleftrightarrow> (\<exists>l c w j1 j2 d. pcs l = VDone c w m j1 j2 d \<and> bdisk t c)" by blast
qed

lemma sleep_ok_woken:
  assumes so: "sleep_ok s pcs" and bd: "bdisk t = (bdisk s)(b := False)"
    and k: "vks t = vks (wake_disk (BufChan b) h (s\<lparr>bdisk := (bdisk s)(b := False)\<rparr>))"
  shows "sleep_ok t pcs"
proof -
  have so: "sched_inv (vks s)" "\<And>l c. asleep (vks s) l (BufChan c) \<Longrightarrow> l < NPROC \<and> bdisk s c \<and>
      (\<exists>wr i0 i1 i2 old. pcs l = VDone c wr i0 i1 i2 old)"
    using so unfolding sleep_ok_def by blast+
  have "sched_inv (vks t)"
    using so(1) wake_disk_simps(7) [of "s\<lparr>bdisk := (bdisk s)(b := False)\<rparr>"] by (simp add: k woken_def)
  moreover have "asleep (vks s) l (BufChan c) \<and> c \<noteq> b" if "asleep (vks t) l (BufChan c)" for l c
    using asleep_woken [OF that [unfolded k]] so by auto
  ultimately show ?thesis using so(2) unfolding sleep_ok_def by (auto simp: bd)
qed

lemma vinv_intr_one:
  assumes v: "vinv s pcs" and ne: "used_idx (dk s) \<noteq> us_idx (dk s)"
  shows "\<exists>t. intr_one h s = Ok () t \<and> vinv t pcs"
proof -
  note c = vinvD(1) [OF v] and bo = vinvD(2) [OF v] and ro = vinvD(4) [OF v]
  define k where "k = us_ring (dk s) (unat (used_idx (dk s)) mod NUM)"
  have uh: "used_heads s = k # ring NUM (us_ring (dk s)) (used_idx (dk s) + 1) (us_idx (dk s))"
    by (simp add: used_heads_def k_def ring_get [OF ne])
  have dh: "distinct (heads s)" using ro by (simp add: rings_ok_def)
  have "k \<in> set (heads s)" by (simp add: heads_def uh)
  then obtain i b wr i1 i2 old where i: "pcs i = VDone b wr k i1 i2 old" and bd: "bdisk s b"
    using ro unfolding rings_ok_def by blast
  have st: "info_status (dk s) k = 0" and ib: "info_b (dk s) k = Some b"
    using vinvD(3,5) [OF v, of i] by (auto simp: i uh)
  define t where "t = wake_disk (BufChan b) h (s\<lparr>bdisk := (bdisk s)(b := False)\<rparr>)
                    \<lparr>dk := (dk s)\<lparr>used_idx := used_idx (dk s) + 1\<rparr>\<rparr>"
  have one: "intr_one h s = Ok () t" using st ib by (simp add: intr_one_def k_def [symmetric] t_def)
  have e: "vbufs t = vbufs s" "media t = media s" "bdisk t = (bdisk s)(b := False)" "d_last t = d_last s"
    "d_work t = d_work s" "vks t = vks (wake_disk (BufChan b) h (s\<lparr>bdisk := (bdisk s)(b := False)\<rparr>))"
    by (simp_all add: t_def)
  have uh': "used_heads s = k # used_heads t" by (simp add: uh) (simp add: used_heads_def t_def)
  have h: "set (heads s) = insert k (set (heads t))" "k \<notin> set (heads t)" "distinct (heads t)"
    using dh unfolding heads_def uh' by (auto simp: e) (auto simp: t_def)
  have lb: "c' \<noteq> b" if "buf_of (pcs l) = Some c'" "l \<noteq> i" for l c'
    using bufs_okD(2) [OF bo, of i b l c'] that by (simp add: i)
  have lk: "\<forall>m \<in> set (chain_of (pcs l)). m \<noteq> k" if "l \<noteq> i" for l
    using chains_okD(3) [OF c, of k i l] that by (auto simp: i)
  have "xfer t (pcs l)" for l
  proof (cases "l = i")
    case True
    have "moved s b old" using vinvD(5) [OF v, of i] by (simp add: i uh)
    then show ?thesis using h(2) by (simp add: True i e moved_def block_at_def heads_def)
  next
    case False
    show ?thesis
      by (rule xfer_frame [OF vinvD(5) [OF v]])
        (use lb [OF _ False] lk [OF False] in \<open>auto simp: e block_at_def uh'\<close>, auto simp: t_def)
  qed
  moreover have "fmt t (pcs l)" for l
    by (rule fmt_frame [OF vinvD(3) [OF v]]) (simp_all add: t_def)
  moreover have "rings_ok t pcs" by (rule rings_ok_remove [OF ro i lb _ h e(3)]) (use lk in auto)
  moreover have "sleep_ok t pcs" by (rule sleep_ok_woken [OF vinvD(6) [OF v] e(3,6)])
  moreover have "bufs_ok t pcs" using bo by (simp add: bufs_ok_def e)
  ultimately have "vinv t pcs" using c by (simp add: vinv_def chains_ok_def t_def)
  with one show ?thesis by blast
qed

lemma vinv_intr: "vinv s pcs \<Longrightarrow> \<exists>t. virtio_disk_intr h s = Ok () t \<and> vinv t pcs"
  unfolding virtio_disk_intr_def
proof (induction h s rule: intr_loop.induct)
  case (1 h s)
  show ?case
  proof (cases "used_idx (dk s) = us_idx (dk s)")
    case True
    with 1 show ?thesis by (subst intr_loop.simps) simp
  next
    case False
    from vinv_intr_one [OF 1(2) False, of h] obtain t where t: "intr_one h s = Ok () t" "vinv t pcs" by blast
    from 1(1) [OF False t(1) t(2)] show ?thesis using False by (subst intr_loop.simps) (simp add: t(1))
  qed
qed

lemma chains_ok_remove:
  assumes c: "chains_ok s pcs" and f: "vfree (dk u) = (\<lambda>j. j \<in> set (chain_of (pcs i)) \<or> vfree (dk s) j)"
  shows "chains_ok u (pcs(i := VIdle))"
  unfolding chains_ok_def
proof (intro conjI allI ballI impI)
  fix j
  show "distinct (chain_of ((pcs(i := VIdle)) j))" using c by (simp add: chains_ok_def)
  fix k assume k: "k \<in> set (chain_of ((pcs(i := VIdle)) j))"
  then show "k < NUM" "\<not> vfree (dk u) k"
    using chains_okD(1,2) [OF c, of k j] chains_okD(3) [OF c, of k i j] by (auto simp: f split: if_splits)
  fix m assume "k \<in> set (chain_of ((pcs(i := VIdle)) m))"
  with k show "j = m" using chains_okD(3) [OF c, of k j m] by (auto split: if_splits)
next
  fix k assume "k < NUM" "\<not> vfree (dk u) k"
  then obtain j where "k \<in> set (chain_of (pcs j))" "k \<notin> set (chain_of (pcs i))"
    using c unfolding f chains_ok_def by blast
  then show "\<exists>j. k \<in> set (chain_of ((pcs(i := VIdle)) j))" by (intro exI [of _ j]) auto
qed

lemma sleep_ok_finish:
  assumes so: "sleep_ok s pcs" and i: "pcs i = VDone b wr k i1 i2 old" and bd: "\<not> bdisk s b"
    and t: "woken (vks s) (vks t)" "bdisk t = bdisk s"
  shows "sleep_ok t (pcs(i := VIdle))"
  unfolding sleep_ok_def
proof (intro conjI allI impI)
  show "sched_inv (vks t)" using so t(1) by (simp add: sleep_ok_def woken_def)
  fix l c assume "asleep (vks t) l (BufChan c)"
  then have "asleep (vks s) l (BufChan c)" using t(1) by (simp add: woken_def)
  then have *: "l < NPROC \<and> bdisk s c \<and> (\<exists>wr i0 i1 i2 old. pcs l = VDone c wr i0 i1 i2 old)"
    using so unfolding sleep_ok_def by blast
  then have "l \<noteq> i" using i bd by auto
  with * show "l < NPROC" "bdisk t c" "\<exists>wr i0 i1 i2 old. (pcs(i := VIdle)) l = VDone c wr i0 i1 i2 old" by (auto simp: t(2))
qed

lemma vinv_finish:
  assumes v: "vinv s pcs" and i: "pcs i = VDone b wr k i1 i2 old" and bd: "\<not> bdisk s b"
  shows "\<exists>t. virtio_finish h k s = Ok () t \<and> vinv t (pcs(i := VIdle)) \<and>
     vbufs t = vbufs s \<and> media t = media s \<and> vfree (dk t) = (\<lambda>j. j \<in> {k, i1, i2} \<or> vfree (dk s) j)"
proof -
  note c = vinvD(1) [OF v] and bo = vinvD(2) [OF v] and ro = vinvD(4) [OF v]
  let ?s = "s\<lparr>dk := (dk s)\<lparr>info_b := (info_b (dk s))(k := None)\<rparr>\<rparr>"
  let ?q = "pcs(i := VIdle)"
  have "\<exists>t. free_chain h k ?s = Ok () t \<and> only_desc {k, i1, i2} ?s t \<and> vfree (dk t) = (\<lambda>j. j \<in> {k, i1, i2} \<or> vfree (dk ?s) j)"
  proof (rule free_chain_three)
    show "distinct [k, i1, i2]" using c i unfolding chains_ok_def by (metis chain_of.simps(1))
    show "\<forall>j \<in> {k, i1, i2}. j < NUM \<and> \<not> vfree (dk ?s) j" using chains_okD(1,2) [OF c, of _ i] by (simp add: i)
  qed (use vinvD(3) [OF v, of i] in \<open>simp_all add: i VRING_DESC_F_NEXT_def VRING_DESC_F_WRITE_def\<close>)
  then obtain t where t: "free_chain h k ?s = Ok () t" and o: "only_desc {k, i1, i2} ?s t"
    and f: "vfree (dk t) = (\<lambda>j. j \<in> {k, i1, i2} \<or> vfree (dk s) j)" by auto
  from o have e: "vbufs t = vbufs s" "bdisk t = bdisk s" "media t = media s" "vops (dk t) = vops (dk s)"
    "info_b (dk t) = (info_b (dk s))(k := None)" "info_status (dk t) = info_status (dk s)"
    "\<And>j. j \<notin> {k, i1, i2} \<Longrightarrow> desc (dk t) j = desc (dk s) j" "woken (vks s) (vks t)"
    and h: "heads t = heads s" "used_heads t = used_heads s"
    by (auto simp: only_desc_def heads_def used_heads_def)
  have lk: "\<forall>m \<in> set (chain_of (pcs l)). m \<notin> {k, i1, i2}" if "l \<noteq> i" for l
    using chains_okD(3) [OF c, of _ i l] that by (auto simp: i)
  have "fmt t (?q l)" for l
  proof (cases "l = i")
    case False
    have "fmt t (pcs l)"
      by (rule fmt_frame [OF vinvD(3) [OF v]]) (use lk [OF False] e in auto)
    with False show ?thesis by simp
  qed simp
  moreover have "xfer t (?q l)" for l
  proof (cases "l = i")
    case False
    have "xfer t (pcs l)"
      by (rule xfer_frame [OF vinvD(5) [OF v]]) (simp_all add: e h block_at_def)
    with False show ?thesis by simp
  qed simp
  moreover have "chains_ok t ?q" by (rule chains_ok_remove [OF c]) (simp add: f i)
  moreover have "bufs_ok t ?q" using bo by (simp add: bufs_ok_def e)
  moreover have "rings_ok t ?q"
  proof -
    have "?q l = VDone c' w m j1 j2 d \<and> bdisk t c' \<longleftrightarrow> pcs l = VDone c' w m j1 j2 d \<and> bdisk s c'" for l c' w m j1 j2 d
      using i bd by (auto simp: e)
    then show ?thesis using ro unfolding rings_ok_def h by simp
  qed
  moreover have "sleep_ok t ?q" by (rule sleep_ok_finish [OF vinvD(6) [OF v] i bd e(8,2)])
  ultimately have "vinv t ?q" by (simp add: vinv_def)
  with t e f show ?thesis by (intro exI [of _ t]) (simp add: virtio_finish_def)
qed

subsection \<open>Reachable states\<close>

lemma fold_set_true: "fold (\<lambda>i f. f(i := True)) xs f = (\<lambda>i. i \<in> set xs \<or> f i)"
  by (induction xs arbitrary: f) (auto simp: fun_eq_iff)

lemma virtio_disk_init_Ok:
  assumes "virtio_disk_init r pages s = Ok f t"
  shows "vfree (dk t) = (\<lambda>i. i < NUM \<or> vfree (dk s) i)" "av_idx (dk t) = 0" "us_idx (dk t) = 0"
    "used_idx (dk t) = used_idx (dk s)" "d_last t = d_last s" "d_work t = d_work s"
  using assms by (auto simp: virtio_disk_init_def fold_set_true split: if_splits)

lemma vinv_start:
  assumes "vd_start x"
  shows "vinv (vs x) (vpcs x)"
proof -
  from assms obtain r pages s f where i: "virtio_disk_init r pages s = Ok f (vs x)" "used_idx (dk s) = 0"
      "d_last s = 0" "d_work s = []" and p: "\<And>i. vpcs x i = VIdle" and si: "sched_inv (vks (vs x))"
      "\<And>i b. \<not> asleep (vks (vs x)) i (BufChan b)"
    unfolding vd_start_def by blast
  note e = virtio_disk_init_Ok [OF i(1)]
  have "heads (vs x) = []" by (simp add: heads_def used_heads_def e i ring_def)
  then show ?thesis
    using si by (simp add: vinv_def chains_ok_def bufs_ok_def rings_ok_def sleep_ok_def p e)
qed

lemma vinv_step:
  assumes "vd_step dev_step x y" and "dev_spec dev_step" and "vinv (vs x) (vpcs x)"
  shows "vinv (vs y) (vpcs y)"
  using assms
proof (induction rule: vd_step.induct)
  case (v_call x h i b wr)
  have "may_call b \<lparr>vs = vs x, vpcs = vpcs x\<rparr>" using v_call(3) by (simp add: may_call_def)
  from vinv_call [OF v_call(5,2) this] show ?case by (simp add: fun_upd_def)
next
  case (v_full x h i b wr t)
  then show ?case using vinv_full by simp
next
  case (v_submit x h i b wr i0 i1 i2 t u old)
  note s = vinv_submit [OF v_submit(7,2,3) refl v_submit(5)]
  have "vks (virtio_submit b wr i0 i1 i2 t) = vks (vs x)"
    using virtio_alloc_Ok [OF v_submit(3)] by (simp add: virtio_submit_def Let_def)
  then show ?case using vinv_again [OF s v_submit(4), of i] v_submit(1) by (simp add: fun_upd_def)
next
  case (v_again x h i b wr i0 i1 i2 old t)
  then show ?case using vinv_again by simp
next
  case (v_return x h i b wr i0 i1 i2 old t u)
  from v_return(3) have t: "t = vs x" and b: "\<not> bdisk (vs x) b"
    by (auto simp: virtio_wait_def sleep_disk_def split: if_splits res.splits)
  from vinv_finish [OF v_return(6,2) b, of h] v_return(4) have "vinv u ((vpcs x)(i := VIdle))" by (auto simp: t)
  then show ?case by (simp add: fun_upd_def)
next
  case (v_intr h x t)
  from vinv_intr [OF v_intr(3), of h] v_intr(1) have "vinv t (vpcs x)" by auto
  then show ?case by simp
next
  case (v_dev x t)
  then have "dev_take (vs x) t \<or> dev_complete (vs x) t" by (simp add: dev_spec_def)
  then have "vinv t (vpcs x)" using vinv_take [OF v_dev(3)] vinv_complete [OF v_dev(3)] by blast
  then show ?case by simp
next
  case (v_others x t)
  have "others \<lparr>vs = vs x, vpcs = vpcs x\<rparr> t" using v_others(1) by (simp add: others_def)
  from vinv_others [OF v_others(3) this] show ?case by simp
qed

lemma vinv_reach:
  assumes "vd_reach dev_step x y" and "vd_start x" and "dev_spec dev_step"
  shows "vinv (vs y) (vpcs y)"
  using assms by (induction rule: vd_reach.induct) (auto intro: vinv_start vinv_step)

text \<open>A call in isolation: process 0 reads block 7 into buffer 3; the device takes the request, completes it, and the
  interrupt is handled on another hart.\<close>

definition demo_regs :: vregs where
  "demo_regs = \<lparr>r_magic = 0x74726976, r_version = 2, r_device = 2, r_vendor = 0x554d4551, r_features = 0,
     r_status = 11, r_ready = 0, r_max = 1024\<rparr>"

definition demo_disk :: vdisk where
  "demo_disk = \<lparr>desc = (\<lambda>_. \<lparr>vaddr = VNull, vlen = 0, vflags = 0, vnext = 0\<rparr>), av_ring = (\<lambda>_. 0), av_idx = 0,
     us_ring = (\<lambda>_. 0), us_idx = 0, vfree = (\<lambda>i. i < NUM), used_idx = 0, info_b = (\<lambda>_. None),
     info_status = (\<lambda>_. 0), vops = (\<lambda>_. \<lparr>rtype = 0, rsector = 0\<rparr>)\<rparr>"

definition demo_vsys :: vsys where
  "demo_vsys = \<lparr>dk = demo_disk,
     vbufs = (\<lambda>_. \<lparr>valid = False, dev = 1, blockno = 7, refcnt = 1, slock = None, data = (\<lambda>_. 0)\<rparr>),
     bdisk = (\<lambda>_. False), vks = dispatch 0 0 demo_sched, media = (\<lambda>_. 9), d_last = 0, d_work = []\<rparr>"

definition demo_vrun :: vrun where
  "demo_vrun = \<lparr>vs = demo_vsys, vpcs = (\<lambda>_. VIdle)\<rparr>"

definition demo_dev :: "vsys \<Rightarrow> vsys \<Rightarrow> bool" where
  "demo_dev s t \<longleftrightarrow> dev_take s t \<or> dev_complete s t"

lemma demo_dev_spec: "dev_spec demo_dev"
  by (simp add: dev_spec_def demo_dev_def)

lemma demo_vd_start: "vd_start demo_vrun"
proof -
  have "virtio_disk_init demo_regs [4096, 8192, 12288] demo_vsys = Ok (virtio_features 0) demo_vsys"
    by (simp add: virtio_disk_init_def demo_regs_def demo_vsys_def demo_disk_def fold_set_true NUM_def fun_eq_iff)
  moreover have "sched_inv (dispatch 0 0 demo_sched)"
    by (rule sched_inv_step [OF st_pick]) (simp_all add: demo_sched_def demo_proc_def NPROC_def sched_inv_def)
  moreover have "used_idx (dk demo_vsys) = 0" "d_last demo_vsys = 0" "d_work demo_vsys = []"
    by (simp_all add: demo_vsys_def demo_disk_def)
  moreover have "\<not> asleep (dispatch 0 0 demo_sched) i (BufChan b)" for i b
    by (simp add: asleep_def dispatch_def demo_sched_def demo_proc_def)
  moreover have "vks demo_vsys = dispatch 0 0 demo_sched" by (simp add: demo_vsys_def)
  ultimately show ?thesis unfolding vd_start_def by (auto simp: demo_vrun_def)
qed

definition demo_old :: blk where "demo_old = (\<lambda>_. 9)"

definition demo_v1 :: vsys where
  "demo_v1 = virtio_submit 3 False 0 1 2 (demo_vsys\<lparr>dk := demo_disk\<lparr>vfree := (\<lambda>i. 2 < i \<and> i < NUM)\<rparr>\<rparr>)"

definition demo_v2 :: vsys where
  "demo_v2 = demo_v1\<lparr>vks := (vks demo_v1)\<lparr>procs := (procs (vks demo_v1))(0 := (procs (vks demo_v1) 0)
     \<lparr>chan := BufChan 3, pstate := SLEEPING\<rparr>), cur := (cur (vks demo_v1))(0 := None)\<rparr>\<rparr>"

definition demo_v3 :: vsys where
  "demo_v3 = demo_v2\<lparr>d_last := 1, d_work := [0]\<rparr>"

definition demo_v4 :: vsys where
  "demo_v4 = (dev_transfer 0 14 3 BSIZE demo_v3)\<lparr>d_work := [],
     dk := (dk demo_v3)\<lparr>info_status := (info_status (dk demo_v3))(0 := 0),
                        us_ring := (us_ring (dk demo_v3))(0 := 0), us_idx := 1\<rparr>\<rparr>"

definition demo_pcs :: "nat \<Rightarrow> vpc" where
  "demo_pcs = (\<lambda>_. VIdle)(0 := VDone 3 False 0 1 2 demo_old)"

lemma demo_v_alloc:
  "virtio_alloc 0 demo_vsys = Ok [0, 1, 2] (demo_vsys\<lparr>dk := demo_disk\<lparr>vfree := (\<lambda>i. 2 < i \<and> i < NUM)\<rparr>\<rparr>)"
proof -
  have "[0..<8] = [0, 1, 2, 3, 4, 5, 6, 7 :: nat]" by (simp add: upt_rec)
  moreover have "((((\<lambda>i. i < 8)(0 := False))(Suc 0 := False))(2 := False)) = (\<lambda>i :: nat. 2 < i \<and> i < 8)"
    by (auto simp: fun_eq_iff)
  ultimately show ?thesis
    by (simp add: virtio_alloc_def alloc3_desc_def numeral_3_eq_3 alloc_desc_def demo_vsys_def demo_disk_def NUM_def)
qed

lemma demo_v_sleep: "virtio_wait 0 3 demo_v1 = Wait demo_v2"
  by (simp add: virtio_wait_def sleep_disk_def demo_v2_def demo_v1_def virtio_submit_def Let_def demo_vsys_def
      sleep_def dispatch_def)

lemma demo_v_reach2: "vd_reach demo_dev demo_vrun \<lparr>vs = demo_v2, vpcs = demo_pcs\<rparr>"
proof -
  have c: "cur (vks demo_vsys) 0 = Some 0" by (simp add: demo_vsys_def dispatch_def)
  have "vd_step demo_dev demo_vrun (demo_vrun\<lparr>vpcs := (vpcs demo_vrun)(0 := VDesc 3 False)\<rparr>)"
    by (rule v_call [where h = 0]) (simp_all add: demo_vrun_def c may_call_def, simp add: demo_vsys_def)
  then have r: "vd_reach demo_dev demo_vrun (demo_vrun\<lparr>vpcs := (vpcs demo_vrun)(0 := VDesc 3 False)\<rparr>)" (is "vd_reach _ _ ?x")
    by (rule vr_step [OF vr_start])
  have x: "vs ?x = demo_vsys" "vpcs ?x 0 = VDesc 3 False" by (simp_all add: demo_vrun_def)
  have al: "virtio_alloc 0 (vs ?x) =
      Ok [0, 1, 2] (demo_vsys\<lparr>dk := demo_disk\<lparr>vfree := (\<lambda>i. 2 < i \<and> i < NUM)\<rparr>\<rparr>)"
    unfolding x(1) by (rule demo_v_alloc)
  have "vd_step demo_dev ?x (?x\<lparr>vs := demo_v2, vpcs := (vpcs ?x)(0 := VDone 3 False 0 1 2
      (if False then data (vbufs (vs ?x) 3) else block_at (blockno (vbufs (vs ?x) 3)) (vs ?x)))\<rparr>)"
    by (rule v_submit [where h = 0, OF _ x(2) al demo_v_sleep [unfolded demo_v1_def] refl]) (simp only: x c)
  moreover have "block_at (blockno (vbufs (vs ?x) 3)) (vs ?x) = demo_old"
    by (simp add: x block_at_def demo_old_def fun_eq_iff) (simp add: demo_vsys_def)
  ultimately have "vd_step demo_dev ?x \<lparr>vs = demo_v2, vpcs = demo_pcs\<rparr>"
    by (simp only: if_False demo_vrun_def demo_pcs_def vrun.simps fun_upd_upd)
  then show ?thesis by (rule vr_step [OF r])
qed

lemma demo_v_reach4: "vd_reach demo_dev demo_vrun \<lparr>vs = demo_v4, vpcs = demo_pcs\<rparr>"
proof -
  have d: "d_last demo_v2 = 0" "av_idx (dk demo_v2) = 1" "av_ring (dk demo_v2) 0 = 0" "d_work demo_v2 = []"
    by (simp_all add: demo_v2_def demo_v1_def virtio_submit_def Let_def demo_vsys_def demo_disk_def NUM_def)
  have "dev_take demo_v2 demo_v3"
    unfolding dev_take_def demo_v3_def by (simp add: d)
  then have "vd_step demo_dev \<lparr>vs = demo_v2, vpcs = demo_pcs\<rparr> \<lparr>vs = demo_v3, vpcs = demo_pcs\<rparr>"
    using v_dev [of demo_dev "\<lparr>vs = demo_v2, vpcs = demo_pcs\<rparr>" demo_v3] by (simp add: demo_dev_def)
  note r = vr_step [OF demo_v_reach2 this]
  have e: "desc (dk demo_v3) 0 = \<lparr>vaddr = OpPtr 0, vlen = 16, vflags = VRING_DESC_F_NEXT, vnext = 1\<rparr>"
    "desc (dk demo_v3) 1 = \<lparr>vaddr = DataPtr 3, vlen = BSIZE, vflags = VRING_DESC_F_WRITE OR VRING_DESC_F_NEXT, vnext = 2\<rparr>"
    "desc (dk demo_v3) 2 = \<lparr>vaddr = StatusPtr 0, vlen = 1, vflags = VRING_DESC_F_WRITE, vnext = 0\<rparr>"
    "vops (dk demo_v3) 0 = \<lparr>rtype = 0, rsector = 14\<rparr>" "us_idx (dk demo_v3) = 0" "d_work demo_v3 = []  @ 0 # []"
    by (simp_all add: demo_v3_def demo_v2_def demo_v1_def virtio_submit_def Let_def demo_vsys_def demo_disk_def BSIZE_def)
  have "dev_complete demo_v3 demo_v4"
    unfolding dev_complete_def
    by (intro exI [of _ "[]"] exI [of _ "0 :: nat"] exI [of _ "3 :: nat"] exI conjI, rule e(6), rule refl, rule refl,
        rule refl) (simp_all add: e e(2) [simplified] demo_v4_def)
  then have "vd_step demo_dev \<lparr>vs = demo_v3, vpcs = demo_pcs\<rparr> \<lparr>vs = demo_v4, vpcs = demo_pcs\<rparr>"
    using v_dev [of demo_dev "\<lparr>vs = demo_v3, vpcs = demo_pcs\<rparr>" demo_v4] by (simp add: demo_dev_def)
  from vr_step [OF r this] show ?thesis .
qed

lemma intr_loop_empty: "intr_loop h s = Ok u t \<Longrightarrow> used_heads t = []"
proof (induction h s rule: intr_loop.induct)
  case (1 h s)
  show ?case
  proof (cases "used_idx (dk s) = us_idx (dk s)")
    case True
    with 1(2) have "t = s" by (subst (asm) intr_loop.simps) simp
    with True show ?thesis by (simp add: used_heads_def ring_def)
  next
    case False
    with 1(2) obtain v where v: "intr_one h s = Ok () v" "intr_loop h v = Ok u t"
      by (subst (asm) intr_loop.simps) (auto split: res.splits)
    from 1(1) [OF False v(1) v(2)] show ?thesis .
  qed
qed

definition demo_v5 :: vsys where
  "demo_v5 = (case virtio_disk_intr 1 demo_v4 of Ok _ t \<Rightarrow> t | _ \<Rightarrow> demo_v4)"

lemma demo_v_reach5:
  "vd_reach demo_dev demo_vrun \<lparr>vs = demo_v5, vpcs = demo_pcs\<rparr>" "\<not> bdisk demo_v5 3"
proof -
  have v: "vinv demo_v4 demo_pcs"
    using vinv_reach [OF demo_v_reach4 demo_vd_start demo_dev_spec] by simp
  from vinv_intr [OF v, of 1] obtain t where t: "virtio_disk_intr 1 demo_v4 = Ok () t" "vinv t demo_pcs" by blast
  then have e: "demo_v5 = t" by (simp add: demo_v5_def)
  have "vd_step demo_dev \<lparr>vs = demo_v4, vpcs = demo_pcs\<rparr> \<lparr>vs = demo_v5, vpcs = demo_pcs\<rparr>"
    using v_intr [of 1 "\<lparr>vs = demo_v4, vpcs = demo_pcs\<rparr>" t demo_dev] t(1) by (simp add: e)
  from vr_step [OF demo_v_reach4 this] show "vd_reach demo_dev demo_vrun \<lparr>vs = demo_v5, vpcs = demo_pcs\<rparr>" .
  have "dk demo_v4 = (dk demo_v1)\<lparr>info_status := (info_status (dk demo_v1))(0 := 0),
                        us_ring := (us_ring (dk demo_v1))(0 := 0), us_idx := 1\<rparr>"
    by (simp add: demo_v4_def demo_v3_def demo_v2_def)
  moreover have "used_idx (dk demo_v1) = 0" "info_b (dk demo_v1) 0 = Some 3"
    by (simp_all add: demo_v1_def virtio_submit_def Let_def demo_vsys_def demo_disk_def)
  ultimately show "\<not> bdisk demo_v5 3"
    using t(1) unfolding virtio_disk_intr_def e
    by (subst (asm) intr_loop.simps) (auto simp: intr_one_def intr_loop.simps NUM_def)
qed

subsection \<open>Properties of the driver\<close>

text \<open>C9. Whatever other requests are in flight and in whatever order the device completes them, when the wait of a
  call of \<^verbatim>\<open>virtio_disk_rw\<close> is over, the rest of the call does not panic, the buffer and its block on the disk both
  hold the contents that were to be transferred (the buffer's at the call for a write, the block's for a read), and
  the three descriptors of the request are free again. So the block cache may treat the call as the transfer of a
  whole block.\<close>

theorem virtio_whole_block:
  assumes "dev_spec dev_step" and "vd_start x" and "vd_reach dev_step x y"
    and "vpcs y i = VDone b wr i0 i1 i2 old" and "\<not> bdisk (vs y) b"
  shows "\<exists>t. virtio_finish h i0 (vs y) = Ok () t \<and>
     (\<forall>p < BSIZE. data (vbufs t b) p = old p \<and> block_at (blockno (vbufs t b)) t p = old p) \<and>
     vfree (dk t) i0 \<and> vfree (dk t) i1 \<and> vfree (dk t) i2"
proof -
  have v: "vinv (vs y) (vpcs y)" by (rule vinv_reach [OF assms(3,2,1)])
  have "moved (vs y) b old" using vinvD(5) [OF v, of i] assms(4,5) by simp
  with vinv_finish [OF v assms(4,5), of h] show ?thesis by (auto simp: moved_def block_at_def)
qed

theorem virtio_whole_block_witness:
  "vd_start demo_vrun \<and> \<not> bdisk demo_v5 3 \<and>
   (\<exists>t. virtio_finish 0 0 demo_v5 = Ok () t \<and>
     (\<forall>p < BSIZE. data (vbufs t 3) p = 9 \<and> block_at (blockno (vbufs t 3)) t p = 9))"
proof -
  have "vpcs \<lparr>vs = demo_v5, vpcs = demo_pcs\<rparr> 0 = VDone 3 False 0 1 2 demo_old" by (simp add: demo_pcs_def)
  from virtio_whole_block [OF demo_dev_spec demo_vd_start demo_v_reach5(1) this, of 0] demo_v_reach5(2) demo_vd_start
  show ?thesis by (auto simp: demo_old_def)
qed



end
