(* ===== verification/Grep.thy ===== *)
theory Grep
  imports Prelude "HOL-Library.Sublist"
begin

section \<open>The pattern matcher and the line filter (user/grep.c)\<close>

text \<open>
  A C string is the list of its characters without the final NUL. \<open>matchhere\<close> and \<open>matchstar\<close> are the two
  mutually recursive functions of the sources; the pointers \<^verbatim>\<open>re+1\<close> and \<^verbatim>\<open>text+1\<close> are tails. \<open>grep\<close> works on a buffer
  of 1024 bytes that holds the unfinished line (\<open>b\<close>) and asks \<^verbatim>\<open>read\<close> for as many bytes as fit. What \<^verbatim>\<open>read\<close> returns
  is the choice of the system: \<open>ns\<close> gives the greatest number of bytes each of its calls delivers.
\<close>

definition NL :: char where "NL = CHR 0x0A"

definition NUL :: char where "NUL = CHR 0x00"

function (sequential) matchhere :: "string \<Rightarrow> string \<Rightarrow> bool"
  and matchstar :: "char \<Rightarrow> string \<Rightarrow> string \<Rightarrow> bool" where
  "matchhere [] str = True"
| "matchhere (c # re) str =
     (if re \<noteq> [] \<and> hd re = CHR ''*'' then matchstar c (tl re) str
      else if c = CHR ''$'' \<and> re = [] then str = []
      else if str \<noteq> [] \<and> (c = CHR ''.'' \<or> c = hd str) then matchhere re (tl str)
      else False)"
| "matchstar c re str =
     (if matchhere re str then True
      else if str \<noteq> [] \<and> (hd str = c \<or> c = CHR ''.'') then matchstar c re (tl str)
      else False)"
  by pat_completeness auto
termination
  by (relation "inv_image (less_than <*lex*> less_than)
      (\<lambda>x. case x of Inl (re, str) \<Rightarrow> (2 * length re, length str)
                   | Inr (c, re, str) \<Rightarrow> (Suc (2 * length re), length str))") auto

declare matchhere.simps(2) [simp del] matchstar.simps [simp del]

primrec match_any :: "string \<Rightarrow> string \<Rightarrow> bool" where
  "match_any re [] = matchhere re []"
| "match_any re (t # str) = (if matchhere re (t # str) then True else match_any re str)"

definition match :: "string \<Rightarrow> string \<Rightarrow> bool" where
  "match re str = (if re \<noteq> [] \<and> hd re = CHR ''^'' then matchhere (tl re) str else match_any re str)"

text \<open>\<^verbatim>\<open>strchr(p, '\n')\<close>: the line before the first newline and what follows it, if the newline comes before a NUL.\<close>

definition next_line :: "string \<Rightarrow> (string \<times> string) option" where
  "next_line b =
     (let l = takeWhile (\<lambda>c. c \<noteq> NL \<and> c \<noteq> NUL) b; r = drop (length l) b
      in if r \<noteq> [] \<and> hd r = NL then Some (l, tl r) else None)"

lemma next_line_shorter: "next_line b = Some (l, r) \<Longrightarrow> length r < length b"
  by (auto simp: next_line_def Let_def split: if_splits)

text \<open>The loop over the lines in the buffer: what it writes and what it leaves.\<close>

function grep_lines :: "string \<Rightarrow> string \<Rightarrow> string \<times> string" where
  "grep_lines pattern b =
     (case next_line b of
        None \<Rightarrow> ([], b)
      | Some (l, r) \<Rightarrow>
          (case grep_lines pattern r of
             (out, rest) \<Rightarrow> ((if match pattern l then l @ [NL] else []) @ out, rest)))"
  by pat_completeness auto
termination
  by (relation "measure (\<lambda>(p, b). length b)") (auto dest: next_line_shorter)

declare grep_lines.simps [simp del]

definition GREP_BUF :: nat where "GREP_BUF = 1024"

primrec grep :: "string \<Rightarrow> nat list \<Rightarrow> string \<Rightarrow> string \<Rightarrow> string" where
  "grep pattern [] b input = []"
| "grep pattern (n # ns) b input =
     (let chunk = take (min n (GREP_BUF - length b - 1)) input
      in if chunk = [] then []
         else case grep_lines pattern (b @ chunk) of
                (out, rest) \<Rightarrow> out @ grep pattern ns rest (drop (length chunk) input))"

text \<open>\<^verbatim>\<open>main\<close>: the exit status, the standard output and the error output. \<open>files\<close> gives for a name what reading the file
  delivers, if it can be opened; \<open>inp\<close> is the standard input.\<close>

primrec grep_files :: "string \<Rightarrow> (string \<Rightarrow> (nat list \<times> string) option) \<Rightarrow> string list \<Rightarrow> int \<times> string" where
  "grep_files pattern files [] = (0, [])"
| "grep_files pattern files (a # as) =
     (case files a of
        None \<Rightarrow> (1, ''grep: cannot open '' @ a @ [NL])
      | Some (ns, input) \<Rightarrow> (case grep_files pattern files as of (r, out) \<Rightarrow> (r, grep pattern ns [] input @ out)))"

definition grep_main :: "(string \<Rightarrow> (nat list \<times> string) option) \<Rightarrow> nat list \<times> string \<Rightarrow> string list \<Rightarrow> int \<times> string \<times> string" where
  "grep_main files inp args =
     (case args of
        [] \<Rightarrow> (1, [], ''usage: grep pattern [file ...]'' @ [NL])
      | [pattern] \<Rightarrow> (0, grep pattern (fst inp) [] (snd inp), [])
      | pattern # as \<Rightarrow> (case grep_files pattern files as of (r, out) \<Rightarrow> (r, out, [])))"

subsection \<open>The language of a pattern\<close>

text \<open>A pattern is a sequence of items: one character of a class, any number of characters of a class, or the end of
  the text. \<open>accepts p s r\<close> says that the items match exactly \<open>s\<close> when \<open>r\<close> is what follows.\<close>

datatype item = One char | Rep char | Eol

definition in_class :: "char \<Rightarrow> char \<Rightarrow> bool" where
  "in_class c t \<longleftrightarrow> c = CHR ''.'' \<or> c = t"

fun items :: "string \<Rightarrow> item list" where
  "items [] = []"
| "items [c] = [if c = CHR ''$'' then Eol else One c]"
| "items (c # d # re) = (if d = CHR ''*'' then Rep c # items re else One c # items (d # re))"

fun accepts :: "item list \<Rightarrow> string \<Rightarrow> string \<Rightarrow> bool" where
  "accepts [] s r \<longleftrightarrow> s = []"
| "accepts (One c # p) s r \<longleftrightarrow> (\<exists>t s'. s = t # s' \<and> in_class c t \<and> accepts p s' r)"
| "accepts (Rep c # p) s r \<longleftrightarrow> (\<exists>u v. s = u @ v \<and> (\<forall>t \<in> set u. in_class c t) \<and> accepts p v r)"
| "accepts (Eol # p) s r \<longleftrightarrow> s = [] \<and> r = [] \<and> accepts p s r"

definition found_at_start :: "item list \<Rightarrow> string \<Rightarrow> bool" where
  "found_at_start p str \<longleftrightarrow> (\<exists>s r. str = s @ r \<and> accepts p s r)"

lemma found_Nil [simp]: "found_at_start [] str"
  by (simp add: found_at_start_def)

lemma found_One:
  "found_at_start (One c # p) str \<longleftrightarrow> str \<noteq> [] \<and> in_class c (hd str) \<and> found_at_start p (tl str)"
proof (cases str)
  case (Cons t ts)
  show ?thesis
  proof
    assume "found_at_start (One c # p) str"
    then obtain t' s r where "t # ts = (t' # s) @ r" "in_class c t'" "accepts p s r"
      by (auto simp: found_at_start_def Cons)
    then show "str \<noteq> [] \<and> in_class c (hd str) \<and> found_at_start p (tl str)"
      by (auto simp: Cons found_at_start_def)
  next
    assume "str \<noteq> [] \<and> in_class c (hd str) \<and> found_at_start p (tl str)"
    then obtain s r where "ts = s @ r" "in_class c t" "accepts p s r" by (auto simp: Cons found_at_start_def)
    then have "str = (t # s) @ r" "accepts (One c # p) (t # s) r" by (simp_all add: Cons)
    then show "found_at_start (One c # p) str" unfolding found_at_start_def by blast
  qed
qed (auto simp: found_at_start_def)

lemma found_Eol: "found_at_start [Eol] str \<longleftrightarrow> str = []"
  by (auto simp: found_at_start_def)

lemma found_Rep:
  "found_at_start (Rep c # p) str \<longleftrightarrow>
     found_at_start p str \<or> str \<noteq> [] \<and> in_class c (hd str) \<and> found_at_start (Rep c # p) (tl str)"
proof (cases str)
  case Nil
  then show ?thesis by (auto simp: found_at_start_def)
next
  case (Cons t ts)
  have rep: "found_at_start (Rep c # p) w \<longleftrightarrow>
      (\<exists>u v r. w = u @ v @ r \<and> (\<forall>x \<in> set u. in_class c x) \<and> accepts p v r)" for w
  proof
    assume "found_at_start (Rep c # p) w"
    then obtain s r u v where "w = s @ r" "s = u @ v" "\<forall>x \<in> set u. in_class c x" "accepts p v r"
      unfolding found_at_start_def accepts.simps by blast
    then have "w = u @ v @ r \<and> (\<forall>x \<in> set u. in_class c x) \<and> accepts p v r" by simp
    then show "\<exists>u v r. w = u @ v @ r \<and> (\<forall>x \<in> set u. in_class c x) \<and> accepts p v r" by blast
  next
    assume "\<exists>u v r. w = u @ v @ r \<and> (\<forall>x \<in> set u. in_class c x) \<and> accepts p v r"
    then obtain u v r where "w = u @ v @ r" "\<forall>x \<in> set u. in_class c x" "accepts p v r" by blast
    then have "w = (u @ v) @ r" "accepts (Rep c # p) (u @ v) r" by auto
    then show "found_at_start (Rep c # p) w" unfolding found_at_start_def by blast
  qed
  have "found_at_start (Rep c # p) (t # ts) \<longleftrightarrow>
      (\<exists>u v r. t # ts = u @ v @ r \<and> (\<forall>x \<in> set u. in_class c x) \<and> accepts p v r)"
    by (rule rep)
  also have "\<dots> \<longleftrightarrow> found_at_start p (t # ts) \<or>
      in_class c t \<and> (\<exists>u v r. ts = u @ v @ r \<and> (\<forall>x \<in> set u. in_class c x) \<and> accepts p v r)"
    (is "?l \<longleftrightarrow> ?r")
  proof
    assume ?l
    then obtain u v r where *: "t # ts = u @ v @ r" "\<forall>x \<in> set u. in_class c x" "accepts p v r" by blast
    show ?r
    proof (cases u)
      case Nil
      with * have "t # ts = v @ r" "accepts p v r" by simp_all
      then show ?thesis unfolding found_at_start_def by blast
    next
      case (Cons a us)
      with * have "in_class c t" "ts = us @ v @ r" "\<forall>x \<in> set us. in_class c x" by auto
      with *(3) show ?thesis by blast
    qed
  next
    assume ?r
    then show ?l
    proof
      assume "found_at_start p (t # ts)"
      then show ?l unfolding found_at_start_def by (metis append_Nil empty_iff empty_set)
    next
      assume "in_class c t \<and> (\<exists>u v r. ts = u @ v @ r \<and> (\<forall>x \<in> set u. in_class c x) \<and> accepts p v r)"
      then show ?l by (metis append_Cons set_ConsD)
    qed
  qed
  also have "\<dots> \<longleftrightarrow> found_at_start p (t # ts) \<or> in_class c t \<and> found_at_start (Rep c # p) ts"
    by (simp only: rep)
  finally show ?thesis by (simp add: Cons)
qed

lemma match_items:
  "matchhere re str \<longleftrightarrow> found_at_start (items re) str"
  "matchstar c re str \<longleftrightarrow> found_at_start (Rep c # items re) str"
proof (induction re str and c re str rule: matchhere_matchstar.induct)
  case (1 str)
  then show ?case by simp
next
  case (2 c re str)
  consider "re = []" | r where "re = CHR ''*'' # r" | d r where "re = d # r" "d \<noteq> CHR ''*''"
    by (cases re) (metis, metis)
  then show ?case
    by cases (use 2 in \<open>auto simp: matchhere.simps(2) found_One found_Eol in_class_def\<close>)
next
  case (3 c re str)
  then show ?case
    by (subst matchstar.simps, subst found_Rep) (auto simp: in_class_def)
qed

lemma match_any_items: "match_any re str \<longleftrightarrow> (\<exists>w t. str = w @ t \<and> found_at_start (items re) t)"
proof (induction str)
  case Nil
  then show ?case by (simp add: match_items)
next
  case (Cons a str)
  show ?case
  proof
    assume "match_any re (a # str)"
    then consider "found_at_start (items re) (a # str)" | w t where "str = w @ t" "found_at_start (items re) t"
      using Cons.IH unfolding match_any.simps match_items by (cases "found_at_start (items re) (a # str)") auto
    then show "\<exists>w t. a # str = w @ t \<and> found_at_start (items re) t"
    proof cases
      case 1
      then show ?thesis by (metis append_Nil)
    next
      case 2
      then show ?thesis by (metis append_Cons)
    qed
  next
    assume "\<exists>w t. a # str = w @ t \<and> found_at_start (items re) t"
    then obtain w t where "a # str = w @ t" "found_at_start (items re) t" by blast
    with Cons show "match_any re (a # str)" by (cases w) (auto simp: match_items)
  qed
qed

text \<open>C38. The matcher decides the language of the pattern: a line matches when the items of the pattern match some part of
  it, and with a leading \<^verbatim>\<open>^\<close> when they match a part at its beginning; a star takes any number of characters, and a
  final \<^verbatim>\<open>$\<close> asks for the end of the line.\<close>

theorem match_decides_pattern:
  "match re str \<longleftrightarrow>
     (\<exists>w s r. str = w @ s @ r \<and>
        (if re \<noteq> [] \<and> hd re = CHR ''^'' then w = [] \<and> accepts (items (tl re)) s r else accepts (items re) s r))"
  by (auto simp: match_def match_items match_any_items found_at_start_def)

subsection \<open>The filter\<close>

text \<open>The lines of a text that end in a newline, and what follows the last newline.\<close>

fun split_nl :: "string \<Rightarrow> string list \<times> string" where
  "split_nl [] = ([], [])"
| "split_nl (c # cs) =
     (case split_nl cs of
        (ls, r) \<Rightarrow> if c = NL then ([] # ls, r)
                   else (case ls of [] \<Rightarrow> ([], c # r) | l # ls' \<Rightarrow> ((c # l) # ls', r)))"

lemma split_nl_none: "NL \<notin> set b \<Longrightarrow> split_nl b = ([], b)"
  by (induction b) auto

lemma split_nl_first: "NL \<notin> set l \<Longrightarrow> split_nl (l @ NL # r) = (l # fst (split_nl r), snd (split_nl r))"
  by (induction l) (auto split: prod.splits)

lemma split_nl_rest: "NL \<notin> set (snd (split_nl b))"
  by (induction b) (auto split: prod.splits list.splits)

lemma split_nl_append:
  "split_nl (b @ c) = (fst (split_nl b) @ fst (split_nl (snd (split_nl b) @ c)), snd (split_nl (snd (split_nl b) @ c)))"
proof (induction b)
  case (Cons a b)
  then show ?case by (auto split: prod.splits list.splits)
qed simp

text \<open>What follows the last newline is the end of the text.\<close>

lemma split_nl_suffix: "\<exists>u. b = u @ snd (split_nl b)"
proof (induction b)
  case (Cons a b)
  then obtain u where u: "b = u @ snd (split_nl b)" by blast
  show ?case
  proof (cases "a = NL \<or> fst (split_nl b) \<noteq> []")
    case True
    then have "snd (split_nl (a # b)) = snd (split_nl b)" by (auto split: prod.splits list.splits)
    with u show ?thesis by (metis append_Cons)
  next
    case False
    then have "snd (split_nl (a # b)) = a # snd (split_nl b)" and "a \<noteq> NL" by (auto split: prod.splits list.splits)
    moreover have "snd (split_nl b) = b"
      using False by (induction b) (auto split: prod.splits list.splits if_splits)
    ultimately show ?thesis by (metis append_Nil)
  qed
qed simp

lemma next_line_split:
  assumes "NUL \<notin> set b"
  shows "next_line b = (case fst (split_nl b) of [] \<Rightarrow> None
     | l # ls \<Rightarrow> Some (l, drop (Suc (length l)) b))"
proof (cases "NL \<in> set b")
  case True
  then obtain l r where b: "b = l @ NL # r" and l: "NL \<notin> set l" by (meson split_list_first)
  from assms l have t: "takeWhile (\<lambda>c. c \<noteq> NL \<and> c \<noteq> NUL) b = l"
    unfolding b by (subst takeWhile_append2) auto
  then show ?thesis unfolding next_line_def Let_def t by (simp add: b split_nl_first [OF l])
next
  case False
  with assms have t: "takeWhile (\<lambda>c. c \<noteq> NL \<and> c \<noteq> NUL) b = b" by (auto simp: takeWhile_eq_all_conv)
  show ?thesis using False unfolding next_line_def Let_def t by (simp add: split_nl_none)
qed

definition picked :: "string \<Rightarrow> string list \<Rightarrow> string" where
  "picked pattern ls = concat (map (\<lambda>l. l @ [NL]) (filter (match pattern) ls))"

lemma grep_lines_split:
  "NUL \<notin> set b \<Longrightarrow> grep_lines pattern b = (picked pattern (fst (split_nl b)), snd (split_nl b))"
proof (induction "length b" arbitrary: b rule: less_induct)
  case less
  show ?case
  proof (cases "NL \<in> set b")
    case False
    with less(2) show ?thesis
      by (subst grep_lines.simps) (simp add: next_line_split split_nl_none picked_def)
  next
    case True
    then obtain l r where b: "b = l @ NL # r" and l: "NL \<notin> set l" by (meson split_list_first)
    have "next_line b = Some (l, r)" using less(2) by (simp add: next_line_split b split_nl_first [OF l])
    moreover have "grep_lines pattern r = (picked pattern (fst (split_nl r)), snd (split_nl r))"
      by (rule less(1)) (use less(2) in \<open>auto simp: b\<close>)
    ultimately show ?thesis
      by (subst grep_lines.simps) (simp add: b split_nl_first [OF l] picked_def)
  qed
qed

lemma picked_append: "picked p (xs @ ys) = picked p xs @ picked p ys"
  by (simp add: picked_def)

text \<open>No piece of a text without newline is as long as the buffer.\<close>

definition short_lines :: "string \<Rightarrow> bool" where
  "short_lines s \<longleftrightarrow> (\<forall>u v w. s = u @ v @ w \<longrightarrow> NL \<notin> set v \<longrightarrow> length v < GREP_BUF - 1)"

lemma grep_picks:
  assumes "NUL \<notin> set (b @ input)" and "short_lines (b @ input)" and "NL \<notin> set b"
    and "\<forall>n \<in> set ns. 0 < n" and "length input < length ns"
  shows "grep pattern ns b input = picked pattern (fst (split_nl (b @ input)))"
  using assms
proof (induction ns arbitrary: b input)
  case (Cons n ns)
  define k where "k = min n (GREP_BUF - length b - 1)"
  have "length b < GREP_BUF - 1"
    using Cons.prems(2,3) unfolding short_lines_def by (metis append_Nil)
  with Cons.prems(4) have k: "0 < k" by (simp add: k_def)
  show ?case
  proof (cases "input = []")
    case True
    with Cons.prems(3) show ?thesis by (simp add: split_nl_none picked_def)
  next
    case False
    let ?c = "take k input" and ?d = "drop k input"
    have c: "?c \<noteq> []" using False k by simp
    let ?r = "snd (split_nl (b @ ?c))"
    obtain u where u: "b @ ?c = u @ ?r" using split_nl_suffix by blast
    have bi: "b @ input = u @ ?r @ ?d" using u by (metis append_assoc append_take_drop_id)
    have "short_lines (?r @ ?d)"
      using Cons.prems(2) unfolding short_lines_def bi by (metis append_assoc)
    moreover have "NUL \<notin> set (?r @ ?d)" using Cons.prems(1) unfolding bi by auto
    moreover have "length ?d < length ns" using Cons.prems(5) False k by (cases input) auto
    ultimately have IH: "grep pattern ns ?r ?d = picked pattern (fst (split_nl (?r @ ?d)))"
      using Cons.IH [of ?r ?d] split_nl_rest [of "b @ ?c"] Cons.prems(4) by simp
    have nu: "NUL \<notin> set (b @ ?c)" using Cons.prems(1) by (auto dest: in_set_takeD)
    have dr: "drop (length ?c) input = ?d" by (simp add: min_def)
    have "split_nl (b @ input) = split_nl ((b @ ?c) @ ?d)" by simp
    also note split_nl_append [of "b @ ?c" ?d]
    finally have "fst (split_nl (b @ input)) = fst (split_nl (b @ ?c)) @ fst (split_nl (?r @ ?d))" by simp
    then show ?thesis
      using c unfolding grep.simps Let_def k_def [symmetric] dr grep_lines_split [OF nu]
      by (simp add: IH picked_append)
  qed
qed simp

text \<open>C40. The filter: on a text without NUL bytes whose lines fit in the buffer, \<^verbatim>\<open>grep\<close> writes exactly the lines that
  match, in order, each with its newline, however \<^verbatim>\<open>read\<close> cuts the text into pieces. The characters after the last
  newline are never written; and once 1023 bytes without a newline have been read, nothing more is written at all.\<close>

theorem grep_filters_lines:
  assumes "NUL \<notin> set input" and "\<forall>n \<in> set ns. 0 < n"
  shows "(short_lines input \<and> length input < length ns \<longrightarrow>
       grep pattern ns [] input =
         concat (map (\<lambda>l. l @ [NL]) (filter (match pattern) (fst (split_nl input))))) \<and>
     (input = v @ w \<and> NL \<notin> set v \<and> length v = GREP_BUF - 1 \<longrightarrow> grep pattern ns [] input = [])"
proof (intro conjI impI)
  assume "short_lines input \<and> length input < length ns"
  then show "grep pattern ns [] input =
         concat (map (\<lambda>l. l @ [NL]) (filter (match pattern) (fst (split_nl input))))"
    using grep_picks [of "[]" input ns pattern] assms by (simp add: picked_def)
next
  assume i: "input = v @ w \<and> NL \<notin> set v \<and> length v = GREP_BUF - 1"
  have "grep pattern ns u (u' @ w) = []" if "v = u @ u'" for u u'
    using that assms(2)
  proof (induction ns arbitrary: u u')
    case (Cons n ns)
    define k where "k = min n (GREP_BUF - length u - 1)"
    have k: "k \<le> length u'" using i Cons.prems(1) by (auto simp: k_def)
    let ?c = "take k (u' @ w)"
    have c: "?c = take k u'" and d: "drop (length ?c) (u' @ w) = drop k u' @ w" using k by simp_all
    have "set (u @ ?c) \<subseteq> set v" using Cons.prems(1) c by (auto dest: in_set_takeD)
    then have nl: "NL \<notin> set (u @ ?c)" "NUL \<notin> set (u @ ?c)" using i assms(1) by auto
    have "grep pattern ns (u @ ?c) (drop k u' @ w) = []"
      by (rule Cons.IH) (use Cons.prems c in auto)
    then show ?case
      unfolding grep.simps Let_def k_def [symmetric] d grep_lines_split [OF nl(2)] split_nl_none [OF nl(1)]
      by (simp add: picked_def)
  qed simp
  from this [of "[]" v] i show "grep pattern ns [] input = []" by simp
qed

theorem grep_filters_lines_witness:
  "grep ''^a.*c'' [2, 1, 3, 1, 4, 1, 1, 1, 1, 1] [] (''abc'' @ NL # ''bc'' @ [NL, CHR ''a'']) = ''abc'' @ [NL]"
proof -
  let ?t = "''abc'' @ NL # ''bc'' @ [NL, CHR ''a'']"
  have "length v < GREP_BUF - 1" if "?t = u @ v @ w" for u v w :: string
    using arg_cong [OF that, of length] by (simp add: GREP_BUF_def)
  then have "short_lines ?t" by (auto simp: short_lines_def)
  moreover have "match ''^a.*c'' ''abc''" "\<not> match ''^a.*c'' ''bc''"
    by (simp_all add: match_def matchhere.simps(2) matchstar.simps)
  moreover have "fst (split_nl ?t) = [''abc'', ''bc'']" by (simp add: NL_def)
  ultimately show ?thesis
    using grep_filters_lines [of ?t "[2, 1, 3, 1, 4, 1, 1, 1, 1, 1]" "''^a.*c''"] by (simp add: NUL_def NL_def)
qed

end
