(* ===== verification/Ulib.thy ===== *)
theory Ulib
  imports KString
begin

section \<open>The user library (user/ulib.c, user/printf.c) and the kernel's printf (kernel/printf.c)\<close>

text \<open>
  The memory and string routines of user programs work on the byte memory of \<open>KString\<close>; those without a length
  argument run until they meet a zero byte and are partial. Names that \<open>KString\<close> has taken by the kernel's routines
  get a prefix \<open>u\<close>. A C string that is only read is the list of its bytes without the final zero.

  The two printing routines give the list of the characters they pass to \<^verbatim>\<open>putc\<close> or \<^verbatim>\<open>consputc\<close>. The arguments of
  \<^verbatim>\<open>printf\<close> are 64-bit registers; \<open>str\<close> is the C string at an address. Running out of arguments, which C leaves
  undefined, is \<open>None\<close>.
\<close>

subsection \<open>user/ulib.c\<close>

partial_function (option) strcpy :: "memory \<Rightarrow> u64 \<Rightarrow> u64 \<Rightarrow> memory option" where
  "strcpy m s t = (let m' = m(s := m t) in if m t \<noteq> 0 then strcpy m' (s + 1) (t + 1) else Some m')"

partial_function (option) strcmp :: "memory \<Rightarrow> u64 \<Rightarrow> u64 \<Rightarrow> int option" where
  "strcmp m p q = (if m p \<noteq> 0 \<and> m p = m q then strcmp m (p + 1) (q + 1) else Some (uint (m p) - uint (m q)))"

partial_function (option) strchr :: "memory \<Rightarrow> u64 \<Rightarrow> u8 \<Rightarrow> u64 option" where
  "strchr m s c = (if m s = 0 then Some 0 else if m s = c then Some s else strchr m (s + 1) c)"

definition ustrlen :: "memory \<Rightarrow> u64 \<Rightarrow> nat option" where
  "ustrlen m s = strlen_from m s 0"

definition umemset :: "memory \<Rightarrow> u64 \<Rightarrow> u8 \<Rightarrow> nat \<Rightarrow> memory" where
  "umemset m dst c n = fold (\<lambda>i m. m(dst + of_nat i := c)) [0..<n] m"

definition umemmove :: "memory \<Rightarrow> u64 \<Rightarrow> u64 \<Rightarrow> int \<Rightarrow> memory" where
  "umemmove m vdst vsrc n =
     (if vdst < vsrc then copy_up m vdst vsrc (nat n)
      else copy_down m (vdst + of_int n) (vsrc + of_int n) (nat n))"

primrec umemcmp :: "memory \<Rightarrow> u64 \<Rightarrow> u64 \<Rightarrow> nat \<Rightarrow> int" where
  "umemcmp m p1 p2 0 = 0"
| "umemcmp m p1 p2 (Suc n) =
     (if m p1 \<noteq> m p2 then uint (m p1) - uint (m p2) else umemcmp m (p1 + 1) (p2 + 1) n)"

text \<open>The unsigned length becomes the signed one of \<^verbatim>\<open>memmove\<close>.\<close>

definition umemcpy :: "memory \<Rightarrow> u64 \<Rightarrow> u64 \<Rightarrow> u32 \<Rightarrow> memory" where
  "umemcpy m dst src n = umemmove m dst src (sint n)"

text \<open>\<open>gets_loop i mx input\<close>: what the loop of \<^verbatim>\<open>gets\<close> stores, and the input it leaves unread.\<close>

fun gets_loop :: "nat \<Rightarrow> u8 list \<Rightarrow> u8 list \<times> u8 list" where
  "gets_loop room [] = ([], [])"
| "gets_loop room (c # input) =
     (if room = 0 then ([], c # input)
      else if c = 10 \<or> c = 13 then ([c], input)
      else case gets_loop (room - 1) input of (cs, rest) \<Rightarrow> (c # cs, rest))"

definition gets :: "int \<Rightarrow> u8 list \<Rightarrow> u8 list \<times> u8 list" where
  "gets mx input = (case gets_loop (nat (mx - 1)) input of (cs, rest) \<Rightarrow> (cs @ [0], rest))"

fun atoi_loop :: "u32 \<Rightarrow> u8 list \<Rightarrow> u32" where
  "atoi_loop n [] = n"
| "atoi_loop n (c # s) = (if 48 \<le> c \<and> c \<le> 57 then atoi_loop (n * 10 + ucast c - 48) s else n)"

definition atoi :: "u8 list \<Rightarrow> int" where
  "atoi s = sint (atoi_loop 0 s)"

text \<open>\<^verbatim>\<open>stat\<close>, over the three system calls it makes.\<close>

definition ustat :: "('s \<Rightarrow> int \<times> 's) \<Rightarrow> (int \<Rightarrow> 's \<Rightarrow> int \<times> 's) \<Rightarrow> (int \<Rightarrow> 's \<Rightarrow> int \<times> 's) \<Rightarrow> 's \<Rightarrow> int \<times> 's" where
  "ustat open_n fstat close s =
     (case open_n s of
        (fd, s) \<Rightarrow> if fd < 0 then (-1, s)
                   else case fstat fd s of (r, s) \<Rightarrow> (r, snd (close fd s)))"

subsection \<open>Printing\<close>

definition digits :: "nat \<Rightarrow> u8" where
  "digits d = (if d < 10 then of_nat (48 + d) else of_nat (55 + d))"

definition kdigits :: "nat \<Rightarrow> u8" where
  "kdigits d = (if d < 10 then of_nat (48 + d) else of_nat (87 + d))"

lemma word_div_less:
  assumes "1 < (b :: u32)" and "x div b \<noteq> 0"
  shows "unat (x div b) < unat x"
proof -
  have "unat b > 1" using assms(1) by (simp add: word_less_nat_alt)
  moreover have "unat x > 0" using assms(2) by (cases "x = 0") (simp_all add: unat_gt_0)
  ultimately show ?thesis by (simp add: unat_div)
qed

text \<open>The loop that fills \<^verbatim>\<open>buf\<close>, least significant digit first; \<open>dig\<close> is the table of digits.\<close>

function print_digits :: "(nat \<Rightarrow> u8) \<Rightarrow> u32 \<Rightarrow> u32 \<Rightarrow> u8 list" where
  "print_digits dig base x =
     (if 1 < base \<and> x div base \<noteq> 0 then dig (unat (x mod base)) # print_digits dig base (x div base)
      else [dig (unat (x mod base))])"
  by pat_completeness auto

termination
  by (relation "measure (\<lambda>(dig, base, x). unat x)") (auto intro: word_div_less)

declare print_digits.simps [simp del]

definition print_buf :: "(nat \<Rightarrow> u8) \<Rightarrow> u32 \<Rightarrow> u32 \<Rightarrow> bool \<Rightarrow> u8 list" where
  "print_buf dig xx base sg =
     (if sg \<and> xx <s 0 then print_digits dig base (- xx) @ [45] else print_digits dig base xx)"

definition printint :: "u32 \<Rightarrow> u32 \<Rightarrow> bool \<Rightarrow> u8 list" where
  "printint xx base sg = rev (print_buf digits xx base sg)"

definition kprintint :: "u32 \<Rightarrow> u32 \<Rightarrow> bool \<Rightarrow> u8 list" where
  "kprintint xx base sg = rev (print_buf kdigits xx base sg)"

definition print_ptr :: "(nat \<Rightarrow> u8) \<Rightarrow> u64 \<Rightarrow> u8 list" where
  "print_ptr dig x = [48, 120] @ map (\<lambda>i. dig (unat (drop_bit 60 (push_bit (4 * i) x)))) [0..<16]"

definition printptr :: "u64 \<Rightarrow> u8 list" where
  "printptr x = print_ptr digits x"

definition kprintptr :: "u64 \<Rightarrow> u8 list" where
  "kprintptr x = print_ptr kdigits x"

definition null_str :: "u8 list" where
  "null_str = [40, 110, 117, 108, 108, 41]"

definition str_arg :: "(u64 \<Rightarrow> u8 list) \<Rightarrow> u64 \<Rightarrow> u8 list" where
  "str_arg str a = (if a = 0 then null_str else str a)"

text \<open>One conversion of the user's \<^verbatim>\<open>vprintf\<close>: its output and the arguments left.\<close>

definition conv :: "(u64 \<Rightarrow> u8 list) \<Rightarrow> u8 \<Rightarrow> u64 list \<Rightarrow> (u8 list \<times> u64 list) option" where
  "conv str c ap =
     (if c \<in> {100, 108, 120, 112, 115, 99}
      then (case ap of
              [] \<Rightarrow> None
            | a # ap \<Rightarrow> Some (
                if c = 100 then printint (ucast a) 10 True
                else if c = 108 then printint (ucast a) 10 False
                else if c = 120 then printint (ucast a) 16 False
                else if c = 112 then printptr a
                else if c = 115 then str_arg str a
                else [ucast a], ap))
      else if c = 37 then Some ([37], ap)
      else Some ([37, c], ap))"

fun vprintf :: "(u64 \<Rightarrow> u8 list) \<Rightarrow> bool \<Rightarrow> u8 list \<Rightarrow> u64 list \<Rightarrow> u8 list option" where
  "vprintf str state [] ap = Some []"
| "vprintf str state (c # fmt) ap =
     (if \<not> state
      then if c = 37 then vprintf str True fmt ap
           else map_option (\<lambda>out. c # out) (vprintf str False fmt ap)
      else case conv str c ap of
             None \<Rightarrow> None
           | Some (o1, ap') \<Rightarrow> map_option (\<lambda>out. o1 @ out) (vprintf str False fmt ap'))"

definition printf :: "(u64 \<Rightarrow> u8 list) \<Rightarrow> u8 list \<Rightarrow> u64 list \<Rightarrow> u8 list option" where
  "printf str fmt ap = vprintf str False fmt ap"

text \<open>The kernel's \<^verbatim>\<open>printf\<close> reads the character after \<^verbatim>\<open>%\<close> at once, has no \<^verbatim>\<open>%l\<close> and \<^verbatim>\<open>%c\<close>, and prints
  \<^verbatim>\<open>%x\<close> signed.\<close>

definition kconv :: "(u64 \<Rightarrow> u8 list) \<Rightarrow> u8 \<Rightarrow> u64 list \<Rightarrow> (u8 list \<times> u64 list) option" where
  "kconv str c ap =
     (if c \<in> {100, 120, 112, 115}
      then (case ap of
              [] \<Rightarrow> None
            | a # ap \<Rightarrow> Some (
                if c = 100 then kprintint (ucast a) 10 True
                else if c = 120 then kprintint (ucast a) 16 True
                else if c = 112 then kprintptr a
                else str_arg str a, ap))
      else if c = 37 then Some ([37], ap)
      else Some ([37, c], ap))"

fun kprintf :: "(u64 \<Rightarrow> u8 list) \<Rightarrow> u8 list \<Rightarrow> u64 list \<Rightarrow> u8 list option" where
  "kprintf str [] ap = Some []"
| "kprintf str [c] ap = Some (if c = 37 then [] else [c])"
| "kprintf str (c # d # fmt) ap =
     (if c \<noteq> 37 then map_option (\<lambda>out. c # out) (kprintf str (d # fmt) ap)
      else case kconv str d ap of
             None \<Rightarrow> None
           | Some (o1, ap') \<Rightarrow> map_option (\<lambda>out. o1 @ out) (kprintf str fmt ap'))"

subsection \<open>What is printed\<close>

text \<open>The number that a list of digits stands for, least significant first.\<close>

definition digits_value :: "(nat \<Rightarrow> u8) \<Rightarrow> nat \<Rightarrow> u8 list \<Rightarrow> nat \<Rightarrow> bool" where
  "digits_value dig b ds v \<longleftrightarrow>
     (\<exists>ns. ds = map dig ns \<and> (\<forall>n \<in> set ns. n < b) \<and> v = (\<Sum>i<length ns. ns ! i * b ^ i) \<and>
        ns \<noteq> [] \<and> (1 < length ns \<longrightarrow> last ns \<noteq> 0))"

lemma value_Cons:
  assumes "1 < b" and "n < b" and "digits_value dig b ds v" and "0 < v"
  shows "digits_value dig b (dig n # ds) (n + b * v)"
proof -
  from assms(3) obtain ns where ns: "ds = map dig ns" "\<forall>n \<in> set ns. n < b" "v = (\<Sum>i<length ns. ns ! i * b ^ i)"
    "ns \<noteq> []" "1 < length ns \<longrightarrow> last ns \<noteq> 0" unfolding digits_value_def by blast
  have "(\<Sum>i<length (n # ns). (n # ns) ! i * b ^ i) = n + b * v"
    by (simp add: sum.lessThan_Suc_shift ns(3) sum_distrib_left mult.left_commute mult.assoc del: sum.lessThan_Suc)
  moreover have "last ns \<noteq> 0"
  proof (cases "length ns = 1")
    case True
    then obtain a where "ns = [a]" by (cases ns) auto
    with ns(3) assms(4) show ?thesis by simp
  next
    case False
    with ns(4,5) show ?thesis by (cases ns) auto
  qed
  ultimately show ?thesis
    using ns assms(2) unfolding digits_value_def by (intro exI [of _ "n # ns"]) auto
qed

lemma print_digits_value:
  "1 < base \<Longrightarrow> digits_value dig (unat base) (print_digits dig base x) (unat x)"
proof (induction dig base x rule: print_digits.induct)
  case (1 dig base x)
  have b: "1 < unat base" using 1(2) by (simp add: word_less_nat_alt)
  then have n: "unat (x mod base) < unat base" by (simp add: unat_mod)
  show ?case
  proof (cases "x div base = 0")
    case True
    then have "unat x div unat base = 0" by (metis unat_div unat_0)
    then have "unat (x mod base) = unat x" using b by (simp add: unat_mod div_eq_0_iff)
    then show ?thesis using True n
      by (subst print_digits.simps) (auto simp: digits_value_def intro!: exI [of _ "[unat x]"])
  next
    case False
    then have v: "0 < unat (x div base)" by (simp add: unat_gt_0)
    from False 1(1,2) have "digits_value dig (unat base) (print_digits dig base (x div base)) (unat (x div base))" by simp
    from value_Cons [OF b n this v]
    have "digits_value dig (unat base) (dig (unat (x mod base)) # print_digits dig base (x div base))
        (unat (x mod base) + unat base * unat (x div base))" .
    moreover have "unat (x mod base) + unat base * unat (x div base) = unat x" by (simp add: unat_mod unat_div)
    ultimately show ?thesis using False 1(2) by (subst print_digits.simps) simp
  qed
qed

lemma value_length:
  assumes "digits_value dig b ds v" and "1 < b" and "v < b ^ k" and "0 < k"
  shows "length ds \<le> k"
proof -
  from assms(1) obtain ns where ns: "ds = map dig ns" "v = (\<Sum>i<length ns. ns ! i * b ^ i)"
    "ns \<noteq> []" "1 < length ns \<longrightarrow> last ns \<noteq> 0" unfolding digits_value_def by blast
  show ?thesis
  proof (rule ccontr)
    assume "\<not> length ds \<le> k"
    with assms(4) ns(1,4) have l: "k \<le> length ns - 1" "last ns \<noteq> 0" by auto
    from ns(3) l(2) have "b ^ (length ns - 1) \<le> ns ! (length ns - 1) * b ^ (length ns - 1)"
      by (simp add: last_conv_nth)
    also have "\<dots> \<le> v"
      unfolding ns(2) using ns(3) by (intro member_le_sum) (auto simp: length_greater_0_conv)
    finally have "b ^ (length ns - 1) \<le> v" .
    moreover have "b ^ k \<le> b ^ (length ns - 1)" using l(1) assms(2) by (intro power_increasing) simp_all
    ultimately show False using assms(3) by linarith
  qed
qed

lemma atoi_loop_digits:
  assumes "\<forall>n \<in> set ns. n < 10"
  shows "atoi_loop a (map digits ns) = fold (\<lambda>n a. a * 10 + of_nat n) ns a"
  using assms
proof (induction ns arbitrary: a)
  case (Cons n ns)
  have "n \<in> {0, 1, 2, 3, 4, 5, 6, 7, 8, 9}" using Cons.prems by auto
  then have d: "48 \<le> digits n \<and> digits n \<le> 57" and u: "ucast (digits n) - 48 = (of_nat n :: u32)"
    by (auto simp: digits_def)
  have "a * 10 + ucast (digits n) - 48 = a * 10 + of_nat n" by (simp add: u [symmetric])
  with d have "atoi_loop a (map digits (n # ns)) = atoi_loop (a * 10 + of_nat n) (map digits ns)"
    by (simp only: list.map atoi_loop.simps simp_thms if_True)
  with Cons show ?case by simp
qed simp

lemma fold_digits:
  "fold (\<lambda>n a. a * 10 + of_nat n) (rev ns) (0 :: u32) = of_nat (\<Sum>i<length ns. ns ! i * 10 ^ i)"
proof (induction ns)
  case (Cons n ns)
  have "(\<Sum>i<length (n # ns). (n # ns) ! i * 10 ^ i) = n + 10 * (\<Sum>i<length ns. ns ! i * 10 ^ i)"
    by (simp add: sum.lessThan_Suc_shift sum_distrib_left mult.left_commute mult.assoc del: sum.lessThan_Suc)
  then show ?case using Cons by (simp add: mult.commute)
qed simp

lemma atoi_print_digits: "atoi_loop 0 (rev (print_digits digits 10 x)) = x"
proof -
  obtain ns where ns: "print_digits digits 10 x = map digits ns" "\<forall>n \<in> set ns. n < 10"
    "unat x = (\<Sum>i<length ns. ns ! i * 10 ^ i)"
    using print_digits_value [of 10 digits x] by (auto simp: digits_value_def)
  have "atoi_loop 0 (rev (print_digits digits 10 x)) = of_nat (unat x)"
    using ns(2) by (simp add: ns(1) rev_map atoi_loop_digits fold_digits ns(3))
  then show ?thesis by simp
qed

lemma unat_sint:
  fixes x :: u32
  shows "0 \<le> sint x \<Longrightarrow> unat x = nat (sint x)" and "sint x < 0 \<Longrightarrow> unat (- x) = nat (- sint x)"
proof -
  have b: "- (2 ^ 31) \<le> sint x" "sint x < 2 ^ 31"
    using sint_greater_eq [of x] sint_less [of x] by simp_all
  have u: "uint x = sint x mod 2 ^ 32" by (simp add: uint_sint take_bit_eq_mod)
  show "0 \<le> sint x \<Longrightarrow> unat x = nat (sint x)" using b u by (simp add: unat_eq_nat_uint)
  have "uint (- x) = (- sint x) mod 2 ^ 32" by (simp add: uint_word_ariths u mod_minus_eq)
  moreover assume "sint x < 0"
  ultimately show "unat (- x) = nat (- sint x)" using b by (simp add: unat_eq_nat_uint)
qed

text \<open>Printing a number in base ten or sixteen fits the buffer of 16 characters.\<close>

lemma print_buf_length:
  assumes "base = 10 \<or> base = 16"
  shows "length (print_buf dig xx base sg) \<le> 11"
proof -
  have b: "1 < base" "1 < unat base" using assms by auto
  have "length (print_digits dig base x) \<le> 10" for x
  proof (rule value_length [OF print_digits_value [OF b(1)] b(2)])
    have "unat x < 2 ^ 32" using unsigned_less [of x, where ?'a = nat] by simp
    then show "unat x < unat base ^ 10" using assms by auto
  qed simp
  from this [of xx] this [of "- xx"] show ?thesis by (simp add: print_buf_def)
qed



subsection \<open>Strings and memory\<close>

text \<open>The C string \<open>xs\<close> is at address \<open>p\<close>.\<close>

primrec string_at :: "memory \<Rightarrow> u64 \<Rightarrow> u8 list \<Rightarrow> bool" where
  "string_at m p [] \<longleftrightarrow> m p = 0"
| "string_at m p (x # xs) \<longleftrightarrow> m p = x \<and> x \<noteq> 0 \<and> string_at m (p + 1) xs"

lemma strcmp_string:
  "string_at m p xs \<Longrightarrow> string_at m q ys \<Longrightarrow> \<exists>r. strcmp m p q = Some r \<and> (r = 0 \<longleftrightarrow> xs = ys)"
proof (induction xs arbitrary: p q ys)
  case Nil
  then show ?case by (cases ys) (subst strcmp.simps, auto simp: uint_0_iff)+
next
  case (Cons x xs)
  show ?case
  proof (cases "m q = x")
    case True
    with Cons.prems obtain zs where ys: "ys = x # zs" "string_at m (q + 1) zs" by (cases ys) auto
    with Cons.IH [OF _ ys(2), of "p + 1"] Cons.prems True show ?thesis by (subst strcmp.simps) auto
  next
    case False
    with Cons.prems(1) have "strcmp m p q = Some (uint x - uint (m q))" by (subst strcmp.simps) auto
    moreover have "x # xs \<noteq> ys" using False Cons.prems(2) by auto
    ultimately show ?thesis using False by (auto simp: word_uint_eq_iff)
  qed
qed

lemma strchr_string:
  "string_at m p xs \<Longrightarrow> c \<noteq> 0 \<Longrightarrow>
   strchr m p c = Some (if c \<in> set xs then p + of_nat (length (takeWhile (\<lambda>x. x \<noteq> c) xs)) else 0)"
proof (induction xs arbitrary: p)
  case Nil
  then show ?case by (subst strchr.simps) simp
next
  case (Cons x xs)
  then show ?case by (subst strchr.simps) (auto simp: add.assoc)
qed

lemma string_at_upd: "string_at m p xs \<Longrightarrow> (\<And>i. i \<le> length xs \<Longrightarrow> a \<noteq> p + of_nat i) \<Longrightarrow> string_at (m(a := v)) p xs"
proof (induction xs arbitrary: p)
  case Nil
  then show ?case using Nil(2) [of 0] by auto
next
  case (Cons x xs)
  have "a \<noteq> p" using Cons.prems(2) [of 0] by simp
  moreover have "a \<noteq> (p + 1) + of_nat i" if "i \<le> length xs" for i
    using Cons.prems(2) [of "Suc i"] that by (simp add: add.assoc)
  ultimately show ?case using Cons by auto
qed

lemma strcpy_string:
  assumes "string_at m t xs"
    and "\<And>i j. i \<le> length xs \<Longrightarrow> j \<le> length xs \<Longrightarrow> s + of_nat i \<noteq> t + of_nat j"
    and "length xs < 2 ^ 64"
  shows "\<exists>m'. strcpy m s t = Some m' \<and> string_at m' s xs \<and>
    (\<forall>a. (\<forall>i \<le> length xs. a \<noteq> s + of_nat i) \<longrightarrow> m' a = m a)"
  using assms
proof (induction xs arbitrary: m s t)
  case Nil
  then show ?case by (subst strcpy.simps) auto
next
  case (Cons x xs)
  let ?m = "m(s := x)"
  have d: "s + 1 + of_nat i \<noteq> t + 1 + of_nat j" if "i \<le> length xs" "j \<le> length xs" for i j
    using Cons.prems(2) [of "Suc i" "Suc j"] that by (simp add: add.assoc)
  have "string_at ?m (t + 1) xs"
    by (rule string_at_upd) (use Cons.prems(1) Cons.prems(2) [of 0 "Suc i" for i] in \<open>auto simp: add.assoc\<close>)
  note sm = this
  have "length xs < 2 ^ 64" using Cons.prems(3) by simp
  from Cons.IH [OF sm d this] obtain m' where m': "strcpy ?m (s + 1) (t + 1) = Some m'" "string_at m' (s + 1) xs"
      "\<And>a. (\<forall>i \<le> length xs. a \<noteq> s + 1 + of_nat i) \<Longrightarrow> m' a = ?m a" by blast
  have ns: "s \<noteq> s + 1 + of_nat i" if "i \<le> length xs" for i
  proof
    assume "s = s + 1 + of_nat i"
    then have "(of_nat (Suc i) :: u64) = 0" by (simp add: add.assoc)
    then have "unat (of_nat (Suc i) :: u64) = 0" by simp
    then have "Suc i mod 2 ^ 64 = 0" by (simp only: unat_of_nat) simp
    then show False using that Cons.prems(3) by simp
  qed
  then have "m' s = x" using m'(3) [of s] by simp
  moreover have "m' a = m a" if "\<forall>i \<le> Suc (length xs). a \<noteq> s + of_nat i" for a
  proof -
    have "a \<noteq> s" using that [rule_format, of 0] by simp
    moreover have "\<forall>i \<le> length xs. a \<noteq> s + 1 + of_nat i"
      using that [rule_format, of "Suc i" for i] by (simp add: add.assoc)
    ultimately show ?thesis using m'(3) [of a] by simp
  qed
  ultimately show ?case using m'(1,2) Cons.prems(1) by (subst strcpy.simps) auto
qed

lemma copy_down_same: "copy_down m d d n = m"
  by (induction n arbitrary: d) simp_all

lemma umemmove_apply:
  assumes "unat dst + n < 2 ^ 64" and "unat src + n < 2 ^ 64"
  shows "umemmove m dst src (int n) a =
           (if unat dst \<le> unat a \<and> unat a < unat dst + n then m (src + (a - dst)) else m a)"
proof -
  consider "dst < src" | "dst = src" | "src < dst" by (meson less_linear)
  then show ?thesis
  proof cases
    case 1
    then show ?thesis using copy_up_apply [OF assms, of m a] by (simp add: umemmove_def word_less_nat_alt)
  next
    case 2
    then show ?thesis by (simp add: umemmove_def copy_down_same)
  next
    case 3
    then show ?thesis
      using copy_down_apply [of dst n src m a] assms by (auto simp: umemmove_def word_less_nat_alt)
  qed
qed

text \<open>The string and memory routines of the user library: on terminated strings \<^verbatim>\<open>strcmp\<close> returns, and 0 exactly for equal
  strings; \<^verbatim>\<open>strchr\<close> returns the address of the first occurrence of the byte or null; \<^verbatim>\<open>strcpy\<close> to a place that does
  not overlap copies the string and changes nothing else; and \<^verbatim>\<open>memmove\<close>, written differently from the kernel's, has the
  same effect on ranges that do not wrap around.\<close>

theorem ulib_routines:
  assumes "string_at m p xs" and "string_at m q ys"
  shows "(\<exists>r. strcmp m p q = Some r \<and> (r = 0 \<longleftrightarrow> xs = ys)) \<and>
    (c \<noteq> 0 \<longrightarrow> strchr m p c = Some (if c \<in> set xs then p + of_nat (length (takeWhile (\<lambda>x. x \<noteq> c) xs)) else 0)) \<and>
    ((\<forall>i j. i \<le> length xs \<longrightarrow> j \<le> length xs \<longrightarrow> s + of_nat i \<noteq> p + of_nat j) \<and> length xs < 2 ^ 64 \<longrightarrow>
       (\<exists>m'. strcpy m s p = Some m' \<and> string_at m' s xs \<and> (\<forall>a. (\<forall>i \<le> length xs. a \<noteq> s + of_nat i) \<longrightarrow> m' a = m a))) \<and>
    (unat dst + n < 2 ^ 64 \<and> unat src + n < 2 ^ 64 \<longrightarrow> umemmove m dst src (int n) = memmove m dst src n)"
proof (intro conjI impI)
  assume "unat dst + n < 2 ^ 64 \<and> unat src + n < 2 ^ 64"
  then show "umemmove m dst src (int n) = memmove m dst src n"
    using umemmove_apply [of dst n src m] memmove_apply [of dst n src m] by (auto simp: fun_eq_iff)
qed (use strcmp_string [OF assms] strchr_string [OF assms(1)] strcpy_string [OF assms(1)] in blast)+

definition demo_strings :: memory where
  "demo_strings = (\<lambda>_. 0)(100 := 97, 101 := 98, 200 := 97)"

theorem ulib_routines_witness:
  "string_at demo_strings 100 [97, 98] \<and> string_at demo_strings 200 [97] \<and>
   (\<exists>r. strcmp demo_strings 100 200 = Some r \<and> r \<noteq> 0) \<and> strchr demo_strings 100 98 = Some 101 \<and>
   umemmove demo_strings 101 100 (int 5) = memmove demo_strings 101 100 5"
proof -
  have a: "string_at demo_strings 100 [97, 98]" "string_at demo_strings 200 [97]"
    by (simp_all add: demo_strings_def)
  from ulib_routines [OF a, of 98 0 101 5 100] a show ?thesis by auto
qed

end
