(* ===== verification/Umalloc.thy ===== *)
theory Umalloc
  imports "HOL-Library.Word"
begin

section \<open>The memory allocator of user programs (user/umalloc.c)\<close>

text \<open>
  Addresses count in units of \<^verbatim>\<open>sizeof(Header)\<close>, 16 bytes, as the pointer arithmetic of the code does; \<open>hptr\<close> and
  \<open>hsize\<close> are the two fields of the header at an address, \<open>ubase\<close> is the address of the static header
  \<^verbatim>\<open>base\<close>, which lies below the heap, and \<open>freep\<close> is null (\<open>None\<close>) before the first call. \<^verbatim>\<open>sbrk\<close> hands out the units
  from \<open>ubrk\<close> on and fails when \<open>ulimit\<close>, the memory left to the process, would be passed.
  Sizes are numbers without bound: no block is larger than the memory of the machine, far below the bound of a
  \<^verbatim>\<open>uint\<close>. The loops follow the pointers of the circular list and are
  partial: not returning is \<open>None\<close>, as is a null pointer followed.

  The allocation is specified on sets of units: the free list is a list of disjoint blocks in increasing order of
  address, never adjacent, beginning with \<^verbatim>\<open>base\<close>.
\<close>

record uheap =
  hptr :: "nat \<Rightarrow> nat"
  hsize :: "nat \<Rightarrow> nat"
  freep :: "nat option"
  ubase :: nat
  ubrk :: nat
  ulimit :: nat

partial_function (option) free_search :: "uheap \<Rightarrow> nat \<Rightarrow> nat \<Rightarrow> nat option" where
  "free_search s bp p =
     (if bp > p \<and> bp < hptr s p then Some p
      else if p \<ge> hptr s p \<and> (bp > p \<or> bp < hptr s p) then Some p
      else free_search s bp (hptr s p))"

definition free_at :: "nat \<Rightarrow> nat \<Rightarrow> uheap \<Rightarrow> uheap" where
  "free_at p bp s =
     (let s = (if bp + hsize s bp = hptr s p
               then s\<lparr>hsize := (hsize s)(bp := hsize s bp + hsize s (hptr s p)),
                      hptr := (hptr s)(bp := hptr s (hptr s p))\<rparr>
               else s\<lparr>hptr := (hptr s)(bp := hptr s p)\<rparr>);
          s = (if p + hsize s p = bp
               then s\<lparr>hsize := (hsize s)(p := hsize s p + hsize s bp), hptr := (hptr s)(p := hptr s bp)\<rparr>
               else s\<lparr>hptr := (hptr s)(p := bp)\<rparr>)
      in s\<lparr>freep := Some p\<rparr>)"

definition free :: "nat \<Rightarrow> uheap \<Rightarrow> uheap option" where
  "free ap s =
     (let bp = ap - 1
      in case freep s of
           None \<Rightarrow> None
         | Some fp \<Rightarrow> map_option (\<lambda>p. free_at p bp s) (free_search s bp fp))"

text \<open>\<^verbatim>\<open>sbrk\<close> takes a number of bytes, a C \<^verbatim>\<open>int\<close>; a negative one gives memory back,
  and does nothing when it is larger than the memory of the process (\<^verbatim>\<open>growproc\<close>, \<^verbatim>\<open>uvmdealloc\<close>). The byte count that
  \<^verbatim>\<open>morecore\<close> computes is cut to 32 bits by the call.\<close>

definition sbrk :: "int \<Rightarrow> uheap \<Rightarrow> nat option \<times> uheap" where
  "sbrk n s =
     (if n > 0 \<and> int (ubrk s) + n div 16 > int (ulimit s) then (None, s)
      else if int (ubrk s) + n div 16 < 0 then (Some (ubrk s), s)
      else (Some (ubrk s), s\<lparr>ubrk := nat (int (ubrk s) + n div 16)\<rparr>))"

definition morecore :: "nat \<Rightarrow> uheap \<Rightarrow> (nat option \<times> uheap) option" where
  "morecore nu s =
     (let nu = (if nu < 4096 then 4096 else nu)
      in case sbrk (sint (of_nat (nu * 16) :: 32 word)) s of
           (None, s) \<Rightarrow> Some (None, s)
         | (Some hp, s) \<Rightarrow>
             map_option (\<lambda>s. (freep s, s)) (free (hp + 1) (s\<lparr>hsize := (hsize s)(hp := nu)\<rparr>)))"

text \<open>What is done with a block \<open>p\<close> that is large enough, whose predecessor is \<open>prevp\<close>.\<close>

definition take_block :: "nat \<Rightarrow> nat \<Rightarrow> nat \<Rightarrow> uheap \<Rightarrow> nat \<times> uheap" where
  "take_block prevp p nunits s =
     (if hsize s p = nunits
      then (p + 1, s\<lparr>hptr := (hptr s)(prevp := hptr s p), freep := Some prevp\<rparr>)
      else let s = s\<lparr>hsize := (hsize s)(p := hsize s p - nunits)\<rparr>;
               q = p + hsize s p
           in (q + 1, s\<lparr>hsize := (hsize s)(q := nunits), freep := Some prevp\<rparr>))"

partial_function (option) malloc_loop :: "nat \<Rightarrow> uheap \<Rightarrow> nat \<Rightarrow> nat \<Rightarrow> (nat option \<times> uheap) option" where
  "malloc_loop nunits s prevp p =
     (if hsize s p \<ge> nunits
      then (case take_block prevp p nunits s of (a, s) \<Rightarrow> Some (Some a, s))
      else if Some p = freep s
      then Option.bind (morecore nunits s) (\<lambda>x.
             case x of (None, s) \<Rightarrow> Some (None, s)
                     | (Some q, s) \<Rightarrow> malloc_loop nunits s q (hptr s q))
      else malloc_loop nunits s p (hptr s p))"

definition units_for :: "nat \<Rightarrow> nat" where
  "units_for nbytes = (nbytes + 16 - 1) div 16 + 1"

definition malloc :: "nat \<Rightarrow> uheap \<Rightarrow> (nat option \<times> uheap) option" where
  "malloc nbytes s =
     (let s = (if freep s = None
               then s\<lparr>hptr := (hptr s)(ubase s := ubase s), hsize := (hsize s)(ubase s := 0), freep := Some (ubase s)\<rparr>
               else s);
          prevp = the (freep s)
      in malloc_loop (units_for nbytes) s prevp (hptr s prevp))"

subsection \<open>The free list\<close>

fun chained :: "(nat \<Rightarrow> nat) \<Rightarrow> nat list \<Rightarrow> bool" where
  "chained h (x # y # zs) \<longleftrightarrow> h x = y \<and> chained h (y # zs)"
| "chained h _ \<longleftrightarrow> True"

fun apart :: "(nat \<Rightarrow> nat) \<Rightarrow> nat list \<Rightarrow> bool" where
  "apart z (x # y # zs) \<longleftrightarrow> x + z x < y \<and> apart z (y # zs)"
| "apart z _ \<longleftrightarrow> True"

definition free_list :: "uheap \<Rightarrow> nat list \<Rightarrow> bool" where
  "free_list s bs \<longleftrightarrow>
     bs \<noteq> [] \<and> hd bs = ubase s \<and> hsize s (ubase s) = 0 \<and> (\<forall>b \<in> set (tl bs). 0 < hsize s b) \<and>
     chained (hptr s) bs \<and> hptr s (last bs) = hd bs \<and> apart (hsize s) bs \<and>
     (\<forall>b \<in> set bs. b + hsize s b \<le> ubrk s) \<and> ubase s < ubrk s \<and> freep s \<in> Some ` set bs"

definition free_units :: "uheap \<Rightarrow> nat list \<Rightarrow> nat set" where
  "free_units s bs = (\<Union>b \<in> set bs. {b..<b + hsize s b})"

lemma chained_append: "chained h (xs @ y # ys) \<longleftrightarrow> chained h (xs @ [y]) \<and> chained h (y # ys)"
proof (induction xs)
  case (Cons x xs)
  then show ?case by (cases xs) auto
qed simp

lemma chained_suffix: "chained h (us @ zs) \<Longrightarrow> chained h zs"
proof (induction us)
  case (Cons u us)
  then show ?case by (cases "us @ zs") auto
qed simp

lemma apart_append: "apart z (xs @ y # ys) \<longleftrightarrow> apart z (xs @ [y]) \<and> apart z (y # ys)"
proof (induction xs)
  case (Cons x xs)
  then show ?case by (cases xs) auto
qed simp

lemma chained_upd: "a \<notin> set (butlast xs) \<Longrightarrow> chained (h(a := v)) xs \<longleftrightarrow> chained h xs"
  by (induction h xs rule: chained.induct) (auto split: if_splits)

lemma apart_upd: "a \<notin> set (butlast xs) \<Longrightarrow> apart (z(a := v)) xs \<longleftrightarrow> apart z xs"
  by (induction z xs rule: apart.induct) (auto split: if_splits)

lemma apart_less: "apart z (x # xs) \<Longrightarrow> y \<in> set xs \<Longrightarrow> x + z x < y"
proof (induction xs arbitrary: x)
  case (Cons a xs)
  then show ?case by (cases "y = a") fastforce+
qed simp

lemma apart_sorted: "apart z xs \<Longrightarrow> sorted_wrt (<) xs"
proof (induction xs)
  case (Cons x xs)
  then have "apart z xs" by (cases xs) auto
  with Cons apart_less [OF Cons.prems] show ?case by fastforce
qed simp

lemma apart_distinct: "apart z xs \<Longrightarrow> distinct xs"
  by (induction xs) (auto dest: apart_less elim: apart.elims)

lemma search_low:
  assumes "chained (hptr s) (zs @ [p])" and "sorted_wrt (<) (zs @ [p])" and "\<forall>b \<in> set (zs @ [p]). b < bp"
  shows "free_search s bp (hd (zs @ [p])) = free_search s bp p"
  using assms
proof (induction zs)
  case (Cons z zs)
  let ?n = "hd (zs @ [p])"
  have h: "hptr s z = ?n" using Cons.prems(1) by (cases zs) auto
  have n: "?n \<in> set (zs @ [p])" by (rule hd_in_set) simp
  with Cons.prems have "z < ?n" "?n < bp" by auto
  then have "free_search s bp z = free_search s bp ?n" by (subst free_search.simps) (simp add: h)
  moreover have "chained (hptr s) (zs @ [p])" using Cons.prems(1) by (cases zs) auto
  ultimately show ?case using Cons by simp
qed simp

lemma search_high:
  assumes "chained (hptr s) (z # zs)" and "sorted_wrt (<) (z # zs)" and "\<forall>b \<in> set (z # zs). bp < b"
    and "hptr s (last (z # zs)) = a" and "a < bp"
  shows "free_search s bp z = free_search s bp a"
  using assms
proof (induction zs arbitrary: z)
  case Nil
  then show ?case by (subst free_search.simps) auto
next
  case (Cons y zs)
  then have "free_search s bp z = free_search s bp y" by (subst free_search.simps) auto
  also have "\<dots> = free_search s bp a" using Cons by (intro Cons.IH) auto
  finally show ?case .
qed

lemma free_search_finds:
  assumes l: "free_list s (xs @ p # ys)" and lo: "\<forall>b \<in> set (xs @ [p]). b < bp" and hi: "\<forall>b \<in> set ys. bp < b"
    and f: "f \<in> set (xs @ p # ys)"
  shows "free_search s bp f = Some p"
proof -
  have ends: "hptr s (last (xs @ p # ys)) = hd (xs @ p # ys)" and ap: "apart (hsize s) (xs @ p # ys)"
    and "chained (hptr s) (xs @ p # ys)"
    using l unfolding free_list_def by blast+
  then have ch: "chained (hptr s) (xs @ [p])" "chained (hptr s) (p # ys)" by (simp_all add: chained_append [of _ xs p ys])
  have so: "sorted_wrt (<) (xs @ p # ys)" by (rule apart_sorted [OF ap])
  have at: "free_search s bp p = Some p"
  proof (cases ys)
    case Nil
    have "hd (xs @ [p]) \<le> p" using so by (cases xs) (auto simp: Nil)
    then show ?thesis using ends lo by (subst free_search.simps) (auto simp: Nil)
  next
    case (Cons y zs)
    then show ?thesis using ch(2) lo hi by (subst free_search.simps) simp
  qed
  have low: "free_search s bp (hd (zs @ [p])) = Some p" if "xs = us @ zs" for us zs
  proof -
    have "chained (hptr s) (zs @ [p])" using ch(1) chained_suffix [of _ us] by (simp add: that)
    moreover have "sorted_wrt (<) (zs @ [p])" "\<forall>b \<in> set (zs @ [p]). b < bp"
      using so lo by (auto simp: that sorted_wrt_append)
    ultimately show ?thesis using search_low at by simp
  qed
  consider "f = p" | us vs where "xs = us @ f # vs" | us vs where "ys = us @ f # vs"
    using f by (auto dest: split_list)
  then show ?thesis
  proof cases
    case 1
    then show ?thesis using at by simp
  next
    case 2
    then show ?thesis using low [of us "f # vs"] by simp
  next
    case 3
    have h: "hd (xs @ p # ys) = hd (xs @ [p])" by (cases xs) auto
    have "hd (xs @ [p]) \<in> set (xs @ [p])" by (rule hd_in_set) simp
    with lo have a: "hd (xs @ [p]) < bp" by blast
    have c3: "chained (hptr s) (f # vs)" using ch(2) chained_append [of "hptr s" "p # us" f vs] by (simp add: 3)
    have s3: "sorted_wrt (<) (f # vs)" using so by (simp add: 3 sorted_wrt_append)
    have b3: "\<forall>b \<in> set (f # vs). bp < b" using hi by (simp add: 3)
    have e3: "hptr s (last (f # vs)) = hd (xs @ [p])" using ends h by (simp add: 3)
    from search_high [OF c3 s3 b3 e3 a] low [of "[]" xs] show ?thesis by simp
  qed
qed

text \<open>A block to be freed lies in the heap, outside all free blocks; it splits the list.\<close>

definition fits :: "nat \<Rightarrow> uheap \<Rightarrow> nat list \<Rightarrow> bool" where
  "fits bp s bs \<longleftrightarrow> ubase s < bp \<and> 0 < hsize s bp \<and> bp + hsize s bp \<le> ubrk s \<and>
     {bp..<bp + hsize s bp} \<inter> free_units s bs = {}"

lemma fits_split:
  assumes l: "free_list s bs" and f: "fits bp s bs"
  obtains xs p ys where "bs = xs @ p # ys" and "\<forall>b \<in> set (xs @ [p]). b < bp" and "\<forall>b \<in> set ys. bp + hsize s bp \<le> b"
    and "p + hsize s p \<le> bp"
proof -
  have so: "sorted_wrt (<) bs" using l apart_sorted by (auto simp: free_list_def)
  have hd_bs: "hd bs = ubase s" "bs \<noteq> []" using l by (simp_all add: free_list_def)
  let ?us = "takeWhile (\<lambda>b. b < bp) bs" and ?ys = "dropWhile (\<lambda>b. b < bp) bs"
  have "?us \<noteq> []" using f hd_bs by (cases bs) (auto simp: fits_def)
  then obtain xs p where us: "?us = xs @ [p]" by (metis rev_exhaust)
  have bs: "bs = xs @ p # ?ys" using us by (metis append.assoc append_Cons append_Nil takeWhile_dropWhile_id)
  have lo: "\<forall>b \<in> set (xs @ [p]). b < bp" using us by (metis set_takeWhileD)
  have disj: "b + hsize s b \<le> bp \<or> bp + hsize s bp \<le> b" if b: "b \<in> set bs" "0 < hsize s b" for b
  proof (rule ccontr)
    assume "\<not> ?thesis"
    then have "max b bp \<in> {bp..<bp + hsize s bp} \<inter> {b..<b + hsize s b}"
      using f b(2) by (auto simp: fits_def)
    then show False using f b(1) unfolding fits_def free_units_def by blast
  qed
  have ge: "bp \<le> b" if "b \<in> set ?ys" for b
  proof -
    have "?ys \<noteq> []" using that by (metis empty_iff empty_set)
    then have "bp \<le> hd ?ys" using hd_dropWhile [of "\<lambda>b. b < bp" bs] by auto
    moreover have "hd ?ys \<le> b"
      using so that unfolding bs [symmetric] by (subst (asm) bs) (cases ?ys, auto simp: sorted_wrt_append)
    ultimately show ?thesis by simp
  qed
  have "bp + hsize s bp \<le> b" if b: "b \<in> set ?ys" for b
  proof -
    have "b \<in> set (tl bs)" using b by (subst bs) (cases xs; auto)
    then have "0 < hsize s b" "b \<in> set bs" using l by (auto simp: free_list_def dest: list.set_sel(2) [OF hd_bs(2)])
    with disj [of b] ge [OF b] f show ?thesis by (auto simp: fits_def)
  qed
  moreover have "p + hsize s p \<le> bp"
  proof (cases "hsize s p = 0")
    case True
    then show ?thesis using lo by auto
  next
    case False
    have "p \<in> set bs" by (subst bs) simp
    with disj [of p] False lo show ?thesis using f by (auto simp: fits_def)
  qed
  ultimately show thesis using that [OF bs lo] by blast
qed

lemma chained_snoc: "bs \<noteq> [] \<Longrightarrow> chained h (bs @ [a]) \<longleftrightarrow> chained h bs \<and> h (last bs) = a"
  by (induction h bs rule: chained.induct) auto

lemma free_list_iff:
  "free_list s bs \<longleftrightarrow>
     bs \<noteq> [] \<and> hd bs = ubase s \<and> hsize s (ubase s) = 0 \<and> (\<forall>b \<in> set (tl bs). 0 < hsize s b) \<and>
     chained (hptr s) (bs @ [ubase s]) \<and> apart (hsize s) bs \<and>
     (\<forall>b \<in> set bs. b + hsize s b \<le> ubrk s) \<and> ubase s < ubrk s \<and> freep s \<in> Some ` set bs"
  unfolding free_list_def by (metis chained_snoc)

lemma chained_Cons: "chained h (x # ys @ [a]) \<longleftrightarrow> h x = hd (ys @ [a]) \<and> chained h (ys @ [a])"
  by (cases ys) auto

lemma apart_Cons: "apart z (x # ys) \<longleftrightarrow> (ys \<noteq> [] \<longrightarrow> x + z x < hd ys) \<and> apart z ys"
  by (cases ys) auto

text \<open>Joining with the following block: \<open>ts\<close> are the blocks that remain behind \<open>bp\<close>.\<close>

lemma join_next:
  assumes ch: "chained (hptr s) (p # ys @ [a])" and ap: "apart (hsize s) ys" and bp: "bp \<notin> set ys" "bp \<noteq> p"
    and hi: "\<forall>b \<in> set ys. bp + hsize s bp \<le> b" and a: "a < bp"
    and t: "t = (if bp + hsize s bp = hptr s p
               then s\<lparr>hsize := (hsize s)(bp := hsize s bp + hsize s (hptr s p)),
                      hptr := (hptr s)(bp := hptr s (hptr s p))\<rparr>
               else s\<lparr>hptr := (hptr s)(bp := hptr s p)\<rparr>)"
  obtains ts where "chained (hptr t) (bp # ts @ [a])" and "apart (hsize t) (bp # ts)" and "set ts \<subseteq> set ys"
    and "{bp..<bp + hsize t bp} \<union> (\<Union>b \<in> set ts. {b..<b + hsize s b}) =
         {bp..<bp + hsize s bp} \<union> (\<Union>b \<in> set ys. {b..<b + hsize s b})"
    and "hsize s bp \<le> hsize t bp" and "\<And>M. bp + hsize s bp \<le> M \<Longrightarrow> \<forall>b \<in> set ys. b + hsize s b \<le> M \<Longrightarrow> bp + hsize t bp \<le> M"
proof (cases "bp + hsize s bp = hptr s p")
  case False
  have hp: "hptr s p = hd (ys @ [a])" using ch by (simp add: chained_Cons)
  have t: "t = s\<lparr>hptr := (hptr s)(bp := hptr s p)\<rparr>" using False t by simp
  have c: "chained (hptr t) (bp # ys @ [a])"
    using ch bp(1) by (simp add: t chained_Cons chained_upd)
  have d: "apart (hsize t) (bp # ys)"
    using ap hi False by (cases ys) (auto simp: t hp apart_Cons)
  show thesis by (rule that [OF c d]) (auto simp: t)
next
  case True
  have hp: "hptr s p = hd (ys @ [a])" using ch by (simp add: chained_Cons)
  with True a obtain y zs where ys: "ys = y # zs" by (cases ys) auto
  then have y: "hptr s p = y" "y = bp + hsize s bp" using hp True by auto
  have t: "t = s\<lparr>hsize := (hsize s)(bp := hsize s bp + hsize s y), hptr := (hptr s)(bp := hptr s y)\<rparr>"
    using True t y by simp
  have cy: "hptr s y = hd (zs @ [a])" "chained (hptr s) (zs @ [a])" using ch by (auto simp: ys chained_Cons)
  have c: "chained (hptr t) (bp # zs @ [a])"
    using cy bp(1) by (simp add: t chained_Cons chained_upd ys)
  have "apart (hsize t) zs" using ap bp(1) by (subst t) (auto simp: ys apart_Cons intro: apart_upd [THEN iffD2] dest: in_set_butlastD)
  then have d: "apart (hsize t) (bp # zs)" using ap y(2) by (auto simp: apart_Cons ys t)
  have u: "{bp..<bp + hsize t bp} = {bp..<bp + hsize s bp} \<union> {y..<y + hsize s y}" using y(2) by (auto simp: t)
  show thesis
    by (rule that [OF c d]) (use u y in \<open>auto simp: ys t\<close>)
qed

lemma apart_cong: "(\<And>b. b \<in> set (butlast xs) \<Longrightarrow> z' b = z b) \<Longrightarrow> apart z' xs = apart z xs"
  by (induction z xs rule: apart.induct) (auto split: if_splits)

lemma chained_cong: "(\<And>b. b \<in> set (butlast xs) \<Longrightarrow> h' b = h b) \<Longrightarrow> chained h' xs = chained h xs"
  by (induction h xs rule: chained.induct) (auto split: if_splits)

text \<open>The state between the two halves of \<^verbatim>\<open>free\<close>: the list is complete up to \<open>p\<close>, and \<open>bp\<close> already points
  to the blocks \<open>ts\<close> behind it.\<close>

definition half_freed :: "uheap \<Rightarrow> nat list \<Rightarrow> nat \<Rightarrow> nat \<Rightarrow> nat list \<Rightarrow> bool" where
  "half_freed t xs p bp ts \<longleftrightarrow>
     chained (hptr t) (xs @ [p]) \<and> apart (hsize t) (xs @ [p]) \<and>
     chained (hptr t) (bp # ts @ [ubase t]) \<and> apart (hsize t) (bp # ts) \<and> p + hsize t p \<le> bp \<and> 0 < hsize t bp \<and>
     distinct (xs @ p # bp # ts) \<and> hd (xs @ [p]) = ubase t \<and> hsize t (ubase t) = 0 \<and> ubase t < bp \<and>
     (\<forall>x \<in> set (tl (xs @ [p])) \<union> set ts. 0 < hsize t x) \<and> (\<forall>x \<in> set (xs @ p # bp # ts). x + hsize t x \<le> ubrk t) \<and>
     ubase t < ubrk t"

text \<open>The second half, when \<open>bp\<close> is not joined with the block before it.\<close>

lemma link_prev:
  assumes h: "half_freed t xs p bp ts" and n: "p + hsize t p \<noteq> bp" and v: "v = t\<lparr>hptr := (hptr t)(p := bp), freep := Some p\<rparr>"
  shows "free_list v (xs @ p # bp # ts)" and "free_units v cs = free_units t cs"
proof -
  note f = h [unfolded half_freed_def]
  have sz: "hsize v = hsize t" "ubase v = ubase t" "ubrk v = ubrk t" "freep v = Some p" by (simp_all add: v)
  have "chained (hptr v) (xs @ [p])" "chained (hptr v) (bp # ts @ [ubase t])"
    using f by (subst chained_cong [of _ _ "hptr t"]; auto simp: v)+
  then have "chained (hptr v) ((xs @ p # bp # ts) @ [ubase t])"
    using chained_append [of "hptr v" xs p "bp # ts @ [ubase t]"] by (simp add: v)
  moreover have "apart (hsize t) (xs @ p # bp # ts)" using f n apart_append [of "hsize t" xs p "bp # ts"] by simp
  moreover have "\<forall>x \<in> set (tl (xs @ p # bp # ts)). 0 < hsize t x" using f by (cases xs) auto
  moreover have "hd (xs @ p # bp # ts) = ubase t" using f by (cases xs) auto
  ultimately show "free_list v (xs @ p # bp # ts)" using f by (simp add: free_list_iff sz)
  show "free_units v cs = free_units t cs" by (simp add: free_units_def sz)
qed

text \<open>The second half, when \<open>bp\<close> is joined with the block before it.\<close>

lemma join_prev:
  assumes h: "half_freed t xs p bp ts" and n: "p + hsize t p = bp"
    and v: "v = t\<lparr>hsize := (hsize t)(p := hsize t p + hsize t bp), hptr := (hptr t)(p := hptr t bp), freep := Some p\<rparr>"
  shows "free_list v (xs @ p # ts)" and "free_units v (xs @ p # ts) = free_units t (xs @ p # bp # ts)"
proof -
  note f = h [unfolded half_freed_def]
  have px: "xs \<noteq> []" "hd xs = ubase t" using f n by (cases xs; auto)+
  then have pa: "ubase t \<in> set xs" "ubase t \<noteq> p" using f hd_in_set [OF px(1)] by auto
  have vs: "ubase v = ubase t" "ubrk v = ubrk t" "freep v = Some p" "hptr v p = hptr t bp" "bp + hsize t bp = p + hsize v p"
    using n by (simp_all add: v)
  have ev: "hsize v x = hsize t x" "hptr v x = hptr t x" if "x \<noteq> p" for x using that by (simp_all add: v)
  have nin: "p \<notin> set xs" "p \<notin> set ts" "p \<notin> set (ts @ [ubase t])" using f pa by auto
  then have evs: "hsize v x = hsize t x" "hptr v x = hptr t x" if "x \<in> set xs \<or> x \<in> set ts" for x using that ev by metis+
  have "chained (hptr v) (xs @ [p])" "chained (hptr v) (ts @ [ubase t])"
    using f evs by (subst chained_cong [of _ _ "hptr t"]; simp add: chained_Cons)+
  then have "chained (hptr v) ((xs @ p # ts) @ [ubase t])"
    using f chained_append [of "hptr v" xs p "ts @ [ubase t]"] by (simp add: chained_Cons vs)
  moreover have "apart (hsize v) (xs @ [p])" "apart (hsize v) ts"
    using f evs by (subst apart_cong [of _ _ "hsize t"]; auto simp: apart_Cons dest: in_set_butlastD)+
  then have "apart (hsize v) (xs @ p # ts)"
    using f apart_append [of "hsize v" xs p ts] by (simp add: apart_Cons vs(5) [symmetric])
  moreover have "hsize v (ubase t) = 0" using f ev(1) pa(2) by simp
  moreover have "0 < hsize v x" if "x \<in> set (tl (xs @ p # ts))" for x
  proof (cases "x = p")
    case True
    then show ?thesis using f by (simp add: v)
  next
    case False
    then have "x \<in> set (tl (xs @ [p])) \<union> set ts" using that px(1) by (cases xs) auto
    with f have "0 < hsize t x" by blast
    with False show ?thesis by (simp add: ev)
  qed
  moreover have "x + hsize v x \<le> ubrk t" if "x \<in> set (xs @ p # ts)" for x
  proof (cases "x = p")
    case True
    then show ?thesis using f vs(5) by simp
  qed (use f that ev in auto)
  ultimately show "free_list v (xs @ p # ts)" using f px pa by (simp add: free_list_iff vs)
  have "{p..<p + hsize v p} = {p..<p + hsize t p} \<union> {bp..<bp + hsize t bp}" using n vs(5) by auto
  moreover have "(\<Union>x \<in> S. {x..<x + hsize v x}) = (\<Union>x \<in> S. {x..<x + hsize t x})" if "p \<notin> S" for S
    using that ev(1) by (intro SUP_cong refl) metis
  ultimately show "free_units v (xs @ p # ts) = free_units t (xs @ p # bp # ts)" using nin by (auto simp: free_units_def)
qed

lemma free_half:
  assumes l: "free_list s (xs @ p # ys)" and lo: "\<forall>b \<in> set (xs @ [p]). b < bp"
    and hi: "\<forall>b \<in> set ys. bp + hsize s bp \<le> b" and pb: "p + hsize s p \<le> bp"
    and b: "ubase s < bp" "0 < hsize s bp" "bp + hsize s bp \<le> ubrk s"
    and t: "t = (if bp + hsize s bp = hptr s p
               then s\<lparr>hsize := (hsize s)(bp := hsize s bp + hsize s (hptr s p)),
                      hptr := (hptr s)(bp := hptr s (hptr s p))\<rparr>
               else s\<lparr>hptr := (hptr s)(bp := hptr s p)\<rparr>)"
  obtains ts where "half_freed t xs p bp ts" and "set ts \<subseteq> set ys"
    and "free_units t (xs @ p # bp # ts) = free_units s (xs @ p # ys) \<union> {bp..<bp + hsize s bp}"
proof -
  let ?bs = "xs @ p # ys" and ?a = "ubase s"
  from l have hd_bs: "hd ?bs = ?a" and z0: "hsize s ?a = 0" and pos: "\<forall>b \<in> set (tl ?bs). 0 < hsize s b"
    and ch: "chained (hptr s) (?bs @ [?a])" and ap: "apart (hsize s) ?bs" and br: "\<forall>b \<in> set ?bs. b + hsize s b \<le> ubrk s"
    and lim: "?a < ubrk s" by (auto simp: free_list_iff)
  have chs: "chained (hptr s) (xs @ [p])" "chained (hptr s) (p # ys @ [?a])"
    using ch chained_append [of "hptr s" xs p "ys @ [?a]"] by simp_all
  have aps: "apart (hsize s) (xs @ [p])" "apart (hsize s) ys"
    using ap apart_append [of "hsize s" xs p ys] by (simp_all add: apart_Cons)
  have nin: "bp \<notin> set ?bs" "bp \<noteq> p" "bp \<notin> set ys" using lo hi b(2) by auto
  have dis: "distinct ?bs" by (rule apart_distinct [OF ap])
  from join_next [OF chs(2) aps(2) nin(3,2) hi b(1) t] obtain ts where
    c: "chained (hptr t) (bp # ts @ [?a])" and d: "apart (hsize t) (bp # ts)" and sub: "set ts \<subseteq> set ys"
    and u: "{bp..<bp + hsize t bp} \<union> (\<Union>b \<in> set ts. {b..<b + hsize s b}) =
         {bp..<bp + hsize s bp} \<union> (\<Union>b \<in> set ys. {b..<b + hsize s b})"
    and le: "hsize s bp \<le> hsize t bp" "bp + hsize t bp \<le> ubrk s"
    using b(3) br by (metis (no_types, lifting) Un_iff insert_iff list.simps(15) set_append)
  have eq: "hsize t x = hsize s x" "hptr t x = hptr s x" if "x \<noteq> bp" for x using that by (simp_all add: t)
  have same: "ubase t = ?a" "ubrk t = ubrk s" by (simp_all add: t)
  have "distinct ts" using apart_distinct [OF d] by simp
  then have dt: "distinct (xs @ p # bp # ts)" using sub nin dis by auto
  have tl_pos: "\<forall>x \<in> set (tl (xs @ [p])) \<union> set ts. 0 < hsize t x"
  proof
    fix x assume "x \<in> set (tl (xs @ [p])) \<union> set ts"
    then have "x \<in> set (tl ?bs)" "x \<noteq> bp" using sub nin by (cases xs; auto)+
    then show "0 < hsize t x" using pos eq by simp
  qed
  have "x + hsize t x \<le> ubrk s" if "x \<in> set (xs @ p # bp # ts)" for x
    using that br sub le(2) eq(1) [of x] by (cases "x = bp") auto
  moreover have exs: "hsize t x = hsize s x" "hptr t x = hptr s x" if "x \<in> set xs" for x
    using that eq nin(1) by (metis Un_iff set_append)+
  have "chained (hptr t) (xs @ [p])" using chs(1) exs by (subst chained_cong [of _ _ "hptr s"]) simp_all
  moreover have "apart (hsize t) (xs @ [p])" using aps(1) exs by (subst apart_cong [of _ _ "hsize s"]) simp_all
  moreover have "hd (xs @ [p]) = ?a" using hd_bs by (cases xs) auto
  ultimately have "half_freed t xs p bp ts"
    using c d dt tl_pos lim b le(1) z0 pb nin(2) eq unfolding half_freed_def same by simp
  moreover have "free_units t (xs @ p # bp # ts) = free_units s ?bs \<union> {bp..<bp + hsize s bp}"
  proof -
    have "(\<Union>x \<in> S. {x..<x + hsize t x}) = (\<Union>x \<in> S. {x..<x + hsize s x})" if "bp \<notin> S" for S
      using that eq(1) by (intro SUP_cong refl) metis
    then show ?thesis using u dt eq nin(2) by (auto simp: free_units_def)
  qed
  ultimately show ?thesis using that sub by blast
qed

lemma free_at_list:
  assumes l: "free_list s (xs @ p # ys)" and lo: "\<forall>b \<in> set (xs @ [p]). b < bp"
    and hi: "\<forall>b \<in> set ys. bp + hsize s bp \<le> b" and pb: "p + hsize s p \<le> bp"
    and b: "ubase s < bp" "0 < hsize s bp" "bp + hsize s bp \<le> ubrk s"
  shows "\<exists>cs. free_list (free_at p bp s) cs \<and>
    free_units (free_at p bp s) cs = free_units s (xs @ p # ys) \<union> {bp..<bp + hsize s bp} \<and>
    set cs \<subseteq> insert bp (set (xs @ p # ys))"
proof -
  define t where "t = (if bp + hsize s bp = hptr s p
               then s\<lparr>hsize := (hsize s)(bp := hsize s bp + hsize s (hptr s p)),
                      hptr := (hptr s)(bp := hptr s (hptr s p))\<rparr>
               else s\<lparr>hptr := (hptr s)(bp := hptr s p)\<rparr>)"
  obtain ts where h: "half_freed t xs p bp ts" and sub: "set ts \<subseteq> set ys"
    and u: "free_units t (xs @ p # bp # ts) = free_units s (xs @ p # ys) \<union> {bp..<bp + hsize s bp}"
    using free_half [OF assms t_def] .
  show ?thesis
  proof (cases "p + hsize t p = bp")
    case True
    then have v: "free_at p bp s = t\<lparr>hsize := (hsize t)(p := hsize t p + hsize t bp), hptr := (hptr t)(p := hptr t bp), freep := Some p\<rparr>"
      unfolding free_at_def Let_def t_def [symmetric] by simp
    show ?thesis using join_prev [OF h True v] u sub by (intro exI [of _ "xs @ p # ts"]) auto
  next
    case False
    then have v: "free_at p bp s = t\<lparr>hptr := (hptr t)(p := bp), freep := Some p\<rparr>"
      unfolding free_at_def Let_def t_def [symmetric] by simp
    show ?thesis using link_prev [OF h False v] u sub by (intro exI [of _ "xs @ p # bp # ts"]) auto
  qed
qed

text \<open>Freeing a block: the call returns, its units become free, and no other header changes than those of the block
  and of free blocks.\<close>

definition same_at :: "uheap \<Rightarrow> uheap \<Rightarrow> nat \<Rightarrow> bool" where
  "same_at s t x \<longleftrightarrow> hsize t x = hsize s x \<and> hptr t x = hptr s x"

lemma free_ok:
  assumes l: "free_list s bs" and f: "fits bp s bs"
  shows "\<exists>t cs. free (bp + 1) s = Some t \<and> free_list t cs \<and> free_units t cs = free_units s bs \<union> {bp..<bp + hsize s bp} \<and>
    ubase t = ubase s \<and> ubrk t = ubrk s \<and> ulimit t = ulimit s \<and> (\<forall>x. x \<notin> insert bp (set bs) \<longrightarrow> same_at s t x)"
proof -
  obtain xs p ys where bs: "bs = xs @ p # ys" and lo: "\<forall>b \<in> set (xs @ [p]). b < bp"
    and hi: "\<forall>b \<in> set ys. bp + hsize s bp \<le> b" and pb: "p + hsize s p \<le> bp"
    using fits_split [OF l f] .
  have b: "ubase s < bp" "0 < hsize s bp" "bp + hsize s bp \<le> ubrk s" using f by (simp_all add: fits_def)
  obtain fp where fp: "freep s = Some fp" "fp \<in> set bs" using l by (auto simp: free_list_def)
  have "\<forall>b \<in> set ys. bp < b" using hi b(2) by auto
  then have "free_search s bp fp = Some p" using free_search_finds [of s xs p ys bp fp] l lo fp(2) by (simp add: bs)
  then have "free (bp + 1) s = Some (free_at p bp s)" by (simp add: free_def fp(1))
  moreover obtain cs where "free_list (free_at p bp s) cs"
    "free_units (free_at p bp s) cs = free_units s bs \<union> {bp..<bp + hsize s bp}"
    using free_at_list [OF l [unfolded bs] lo hi pb b] by (auto simp: bs)
  moreover have "p \<in> set bs" by (simp add: bs)
  then have "\<forall>x. x \<notin> insert bp (set bs) \<longrightarrow> same_at s (free_at p bp s) x"
    by (auto simp: free_at_def Let_def same_at_def)
  moreover have "ubase (free_at p bp s) = ubase s" "ubrk (free_at p bp s) = ubrk s" "ulimit (free_at p bp s) = ulimit s"
    by (simp_all add: free_at_def Let_def)
  ultimately show ?thesis by blast
qed

lemma apart_pair: "apart z xs \<Longrightarrow> a \<in> set xs \<Longrightarrow> b \<in> set xs \<Longrightarrow> a < b \<Longrightarrow> a + z a < b"
proof (induction xs)
  case (Cons x xs)
  then show ?case using apart_less [OF Cons.prems(1)] by (fastforce simp: apart_Cons)
qed simp

text \<open>Free blocks are never adjacent, so a run of free units lies inside one of them.\<close>

lemma run_in_block:
  assumes "apart (hsize s) bs" and "{lo..<hi} \<subseteq> free_units s bs" and "lo < hi"
  shows "\<exists>b \<in> set bs. b \<le> lo \<and> hi \<le> b + hsize s b"
proof -
  have "lo \<in> free_units s bs" using assms(2,3) by auto
  then obtain b where b: "b \<in> set bs" "b \<le> lo" "lo < b + hsize s b" by (auto simp: free_units_def)
  have "hi \<le> b + hsize s b"
  proof (rule ccontr)
    assume "\<not> hi \<le> b + hsize s b"
    with b have "b + hsize s b \<in> free_units s bs" using assms(2) by auto
    then obtain c where c: "c \<in> set bs" "c \<le> b + hsize s b" "b + hsize s b < c + hsize s c" by (auto simp: free_units_def)
    then consider "c < b" | "b < c" by (metis less_irrefl linorder_neqE_nat)
    then show False
      using apart_pair [OF assms(1) c(1) b(1)] apart_pair [OF assms(1) b(1) c(1)] c(2,3) by cases simp_all
  qed
  with b show ?thesis by blast
qed

text \<open>Growing the heap.\<close>

definition core_units :: "nat \<Rightarrow> nat" where
  "core_units nu = (if nu < 4096 then 4096 else nu)"

lemma free_list_below: "free_list s bs \<Longrightarrow> b \<in> set bs \<Longrightarrow> b < ubrk s"
  unfolding free_list_def by (cases bs) fastforce+

lemma morecore_ok:
  assumes l: "free_list s bs" and n: "nu * 16 < 2 ^ 31"
  shows "if ulimit s < ubrk s + core_units nu then morecore nu s = Some (None, s)
    else \<exists>t cs q. morecore nu s = Some (Some q, t) \<and> free_list t cs \<and> freep t = Some q \<and>
      free_units t cs = free_units s bs \<union> {ubrk s..<ubrk s + core_units nu} \<and> ubase t = ubase s \<and>
      ubrk t = ubrk s + core_units nu \<and> ulimit t = ulimit s \<and> (\<forall>x. x \<notin> insert (ubrk s) (set bs) \<longrightarrow> same_at s t x)"
proof -
  let ?n = "core_units nu"
  have "sint (of_nat (?n * 16) :: 32 word) = int (?n * 16)"
    using n by (subst signed_of_nat, subst signed_take_bit_int_eq_self) (auto simp: core_units_def)
  note sb = this
  show ?thesis
  proof (cases "ulimit s < ubrk s + ?n")
    case True
    have "morecore nu s = Some (None, s)"
      using True unfolding morecore_def core_units_def [symmetric] Let_def sb by (auto simp: sbrk_def core_units_def)
    with True show ?thesis by simp
  next
    case False
    define u where "u = s\<lparr>ubrk := ubrk s + ?n, hsize := (hsize s)(ubrk s := ?n)\<rparr>"
    have same: "\<And>b. b \<in> set bs \<Longrightarrow> hsize u b = hsize s b"
      using free_list_below [OF l] by (auto simp: u_def)
    have m: "morecore nu s = map_option (\<lambda>s. (freep s, s)) (free (ubrk s + 1) u)"
      using False unfolding morecore_def core_units_def [symmetric] Let_def sb
      by (simp add: sbrk_def u_def nat_add_distrib flip: of_nat_add)
    have "apart (hsize u) bs" using l same by (subst apart_cong [of _ _ "hsize s"]) (auto simp: free_list_def dest: in_set_butlastD)
    moreover have "hsize u (ubase s) = 0" "\<forall>b \<in> set (tl bs). 0 < hsize u b" "\<forall>b \<in> set bs. b + hsize u b \<le> ubrk u"
      using l same by (cases bs; fastforce simp: free_list_def u_def)+
    ultimately have lu: "free_list u bs" using l by (auto simp: free_list_def u_def)
    have fu: "free_units u bs = free_units s bs" using same by (simp add: free_units_def)
    have "\<forall>x \<in> free_units s bs. x < ubrk s" using l by (fastforce simp: free_units_def free_list_def)
    then have "fits (ubrk s) u bs" using l unfolding fits_def fu by (auto simp: u_def core_units_def free_list_def)
    from free_ok [OF lu this] obtain t cs where t: "free (ubrk s + 1) u = Some t" "free_list t cs"
      "free_units t cs = free_units u bs \<union> {ubrk s..<ubrk s + hsize u (ubrk s)}"
      "ubase t = ubase u" "ubrk t = ubrk u" "ulimit t = ulimit u" "\<forall>x. x \<notin> insert (ubrk s) (set bs) \<longrightarrow> same_at u t x"
      by blast
    moreover obtain q where "freep t = Some q" using t(2) by (auto simp: free_list_def)
    moreover have "free_units t cs = free_units s bs \<union> {ubrk s..<ubrk s + ?n}"
      using t(3) unfolding fu by (simp add: u_def)
    ultimately have "morecore nu s = Some (Some q, t) \<and> free_list t cs \<and> freep t = Some q \<and>
      free_units t cs = free_units s bs \<union> {ubrk s..<ubrk s + ?n} \<and> ubase t = ubase s \<and>
      ubrk t = ubrk s + ?n \<and> ulimit t = ulimit s \<and> (\<forall>x. x \<notin> insert (ubrk s) (set bs) \<longrightarrow> same_at s t x)"
      unfolding m by (simp add: u_def same_at_def)
    then show ?thesis using False by auto
  qed
qed

subsection \<open>Allocating\<close>

text \<open>The loop of \<^verbatim>\<open>malloc\<close> goes once around the list, from the block after \<^verbatim>\<open>freep\<close>.\<close>

lemma malloc_scan:
  assumes "chained (hptr s) (prev # cs)" and "cs \<noteq> []" and "freep s = Some (last cs)" and "distinct cs"
  shows "(\<exists>us p vs. cs = us @ p # vs \<and> n \<le> hsize s p \<and>
        malloc_loop n s prev (hd cs) =
          (case take_block (last (prev # us)) p n s of (a, s) \<Rightarrow> Some (Some a, s))) \<or>
     (\<forall>b \<in> set cs. hsize s b < n) \<and>
        malloc_loop n s prev (hd cs) =
          Option.bind (morecore n s) (\<lambda>x.
             case x of (None, s) \<Rightarrow> Some (None, s)
                     | (Some q, s) \<Rightarrow> malloc_loop n s q (hptr s q))"
  using assms
proof (induction cs arbitrary: prev)
  case (Cons c cs)
  show ?case
  proof (cases "n \<le> hsize s c")
    case True
    then have "malloc_loop n s prev c = (case take_block prev c n s of (a, s) \<Rightarrow> Some (Some a, s))"
      by (subst malloc_loop.simps) simp
    then show ?thesis using True by (intro disjI1 exI [of _ "[]"]) simp
  next
    case False
    show ?thesis
    proof (cases "cs = []")
      case True
      then show ?thesis using False Cons.prems(3) by (intro disjI2) (simp, subst malloc_loop.simps, simp)
    next
      case ne: False
      then have l: "malloc_loop n s prev c = malloc_loop n s c (hd cs)"
      proof -
        have "c \<noteq> last cs" "hptr s c = hd cs" using Cons.prems(1,4) ne by (auto, cases cs, auto)
        then show ?thesis using False Cons.prems(3) ne by (subst malloc_loop.simps) simp
      qed
      have "chained (hptr s) (c # cs)" "freep s = Some (last cs)" "distinct cs" using Cons.prems ne by auto
      from Cons.IH [OF this(1) ne this(2,3)] show ?thesis
      proof
        assume "\<exists>us p vs. cs = us @ p # vs \<and> n \<le> hsize s p \<and>
          malloc_loop n s c (hd cs) = (case take_block (last (c # us)) p n s of (a, s) \<Rightarrow> Some (Some a, s))"
        then obtain us p vs where u: "cs = us @ p # vs" "n \<le> hsize s p"
          "malloc_loop n s c (hd cs) = (case take_block (last (c # us)) p n s of (a, s) \<Rightarrow> Some (Some a, s))" by blast
        have "malloc_loop n s prev c = (case take_block (last (prev # c # us)) p n s of (a, s) \<Rightarrow> Some (Some a, s))"
          using l u(3) by simp
        then show ?thesis using u(1,2) by (intro disjI1 exI [of _ "c # us"] exI [of _ p] exI [of _ vs]) simp
      qed (use False l in auto)
    qed
  qed
qed simp

lemma chained_map: "chained h (bs @ [a]) \<Longrightarrow> bs \<noteq> [] \<Longrightarrow> map h bs = tl bs @ [a]"
proof (induction bs)
  case (Cons b bs)
  then show ?case by (cases bs) auto
qed simp

lemma free_list_inj:
  assumes "free_list s bs"
  shows "inj_on (hptr s) (set bs)"
proof -
  have bs: "bs \<noteq> []" "hd bs = ubase s" "chained (hptr s) (bs @ [ubase s])" "apart (hsize s) bs"
    using assms by (auto simp: free_list_iff)
  from chained_map [OF bs(3,1)] bs(2) have "map (hptr s) bs = tl bs @ [hd bs]" by simp
  moreover have "distinct (tl bs @ [hd bs])" using apart_distinct [OF bs(4)] bs(1) by (cases bs) auto
  ultimately have "distinct (map (hptr s) bs)" by metis
  then show ?thesis by (simp add: distinct_map)
qed

lemma apart_mono: "apart z xs \<Longrightarrow> \<forall>b \<in> set xs. z' b \<le> z b \<Longrightarrow> apart z' xs"
  by (induction z xs rule: apart.induct) auto

lemma units_minus:
  assumes "apart (hsize s) bs" and "p \<in> set bs"
  shows "free_units s bs - {p..<p + hsize s p} = (\<Union>b \<in> set bs - {p}. {b..<b + hsize s b})"
proof -
  have "{b..<b + hsize s b} \<inter> {p..<p + hsize s p} = {}" if "b \<in> set bs" "b \<noteq> p" for b
    using apart_pair [OF assms(1) that(1) assms(2)] apart_pair [OF assms(1,2) that(1)] that(2)
    by (cases "b < p") auto
  then show ?thesis unfolding free_units_def by blast
qed

text \<open>The last \<open>n\<close> units of the block \<open>p\<close> go to the caller.\<close>

definition taken :: "uheap \<Rightarrow> nat list \<Rightarrow> nat \<Rightarrow> nat \<Rightarrow> uheap \<Rightarrow> bool" where
  "taken s bs n q t \<longleftrightarrow>
     (\<exists>cs. free_list t cs \<and> {q..<q + n} \<subseteq> free_units s bs \<and> free_units t cs = free_units s bs - {q..<q + n}) \<and>
     hsize t q = n \<and> (\<forall>x. x \<notin> free_units s bs \<union> set bs \<longrightarrow> same_at s t x) \<and>
     ubase t = ubase s \<and> ubrk t = ubrk s \<and> ulimit t = ulimit s"

lemma take_exact:
  assumes l: "free_list s bs" and p: "p \<in> set bs" "hsize s p = n" "0 < n" and q: "q \<in> set bs" "hptr s q = p"
  shows "taken s bs n p (s\<lparr>hptr := (hptr s)(q := hptr s p), freep := Some q\<rparr>)"
proof -
  let ?a = "ubase s" and ?t = "s\<lparr>hptr := (hptr s)(q := hptr s p), freep := Some q\<rparr>"
  have f: "hd bs = ?a" "hsize s ?a = 0" "\<forall>b \<in> set (tl bs). 0 < hsize s b" "chained (hptr s) (bs @ [?a])"
    "apart (hsize s) bs" "\<forall>b \<in> set bs. b + hsize s b \<le> ubrk s" "?a < ubrk s" using l by (auto simp: free_list_iff)
  obtain xs ys where bs: "bs = xs @ p # ys" using p(1) by (meson split_list)
  have "xs \<noteq> []" using f(1,2) p(2,3) by (auto simp: bs)
  then obtain us r where xs: "xs = us @ [r]" by (metis rev_exhaust)
  have c: "chained (hptr s) (us @ [r])" "hptr s r = p" "hptr s p = hd (ys @ [?a])" "chained (hptr s) (ys @ [?a])"
    using f(4) chained_append [of "hptr s" us r "p # ys @ [?a]"] by (auto simp: bs xs chained_Cons)
  have r: "r = q" using inj_onD [OF free_list_inj [OF l], of r q] c(2) q by (simp add: bs xs)
  have d: "distinct bs" by (rule apart_distinct [OF f(5)])
  have "chained (hptr ?t) (us @ [r])" using c(1) d by (subst chained_cong [of _ _ "hptr s"]) (auto simp: r bs xs)
  moreover have "chained (hptr ?t) (ys @ [?a])" using c(4) d by (subst chained_cong [of _ _ "hptr s"]) (auto simp: r bs xs)
  then have "chained (hptr ?t) (r # ys @ [?a])" using c(3) by (simp add: chained_Cons r)
  ultimately have "chained (hptr ?t) ((xs @ ys) @ [?a])" using chained_append [of _ us r "ys @ [?a]"] by (simp add: xs)
  moreover have "apart (hsize s) (xs @ ys)"
    using f(5) apart_append [of "hsize s" us r "p # ys"] apart_append [of "hsize s" us r ys]
    by (auto simp: bs xs apart_Cons)
  moreover have "hd (xs @ ys) = ?a" "\<forall>b \<in> set (tl (xs @ ys)). 0 < hsize s b"
    using f(1,3) \<open>xs \<noteq> []\<close> by (simp_all add: bs)
  ultimately have "free_list ?t (xs @ ys)" using f by (auto simp: free_list_iff bs xs r)
  moreover have "set bs - {p} = set (xs @ ys)" using d by (auto simp: bs)
  then have "free_units ?t (xs @ ys) = free_units s bs - {p..<p + n}"
    using units_minus [OF f(5) p(1)] p(2) by (simp add: free_units_def)
  moreover have "{p..<p + n} \<subseteq> free_units s bs" using p by (auto simp: free_units_def)
  ultimately have "\<exists>cs. free_list ?t cs \<and> {p..<p + n} \<subseteq> free_units s bs \<and> free_units ?t cs = free_units s bs - {p..<p + n}"
    by blast
  then show ?thesis unfolding taken_def same_at_def using p(2) q(1) by auto
qed

lemma take_tail:
  assumes l: "free_list s bs" and p: "p \<in> set bs" "n < hsize s p" "0 < n" and q: "q \<in> set bs"
    and w: "w = p + (hsize s p - n)"
  shows "taken s bs n w (s\<lparr>hsize := (hsize s)(p := hsize s p - n, w := n), freep := Some q\<rparr>)"
proof -
  let ?a = "ubase s" and ?t = "s\<lparr>hsize := (hsize s)(p := hsize s p - n, w := n), freep := Some q\<rparr>"
  have f: "bs \<noteq> []" "hd bs = ?a" "hsize s ?a = 0" "\<forall>b \<in> set (tl bs). 0 < hsize s b" "chained (hptr s) (bs @ [?a])"
    "apart (hsize s) bs" "\<forall>b \<in> set bs. b + hsize s b \<le> ubrk s" "?a < ubrk s" using l by (auto simp: free_list_iff)
  have wp: "p < w" "w < p + hsize s p" "w + n = p + hsize s p" using p w by auto
  have wb: "w \<notin> set bs" using apart_pair [OF f(6) p(1), of w] wp by auto
  have le: "hsize ?t b \<le> hsize s b" if "b \<in> set bs" for b using that wb by auto
  have eq: "hsize ?t b = hsize s b" if "b \<in> set bs" "b \<noteq> p" for b using that wb by auto
  have tp: "hsize ?t p = hsize s p - n" using wp by simp
  have pa: "p \<noteq> ?a" using f(3) p(2) by auto
  have "apart (hsize ?t) bs" using apart_mono [OF f(6), of "hsize ?t"] le by blast
  moreover have "hsize ?t ?a = 0" using eq [of ?a] pa f(1,2,3) by (metis hd_in_set)
  moreover have "0 < hsize ?t b" if "b \<in> set (tl bs)" for b
    using that f(1,4) eq [of b] tp p(2) by (cases "b = p") (auto dest: list.set_sel(2))
  moreover have "b + hsize ?t b \<le> ubrk s" if "b \<in> set bs" for b using le [OF that] f(7) that by fastforce
  ultimately have fl: "free_list ?t bs" using f q by (simp add: free_list_iff)
  have "free_units ?t bs = (\<Union>b \<in> set bs - {p}. {b..<b + hsize ?t b}) \<union> {p..<p + hsize ?t p}"
    using p(1) unfolding free_units_def by blast
  also have "\<dots> = (\<Union>b \<in> set bs - {p}. {b..<b + hsize s b}) \<union> {p..<w}" using eq tp w by simp
  also have "\<dots> = (free_units s bs - {p..<p + hsize s p}) \<union> {p..<w}" by (simp only: units_minus [OF f(6) p(1)])
  also have "\<dots> = free_units s bs - {w..<w + n}" using wp p(1) unfolding free_units_def by auto
  finally have u: "free_units ?t bs = free_units s bs - {w..<w + n}" .
  have "{p..<p + hsize s p} \<subseteq> free_units s bs" using p(1) unfolding free_units_def by blast
  moreover from this have "p \<in> free_units s bs" "w \<in> free_units s bs" "{w..<w + n} \<subseteq> free_units s bs" using wp by auto
  ultimately have "\<exists>cs. free_list ?t cs \<and> {w..<w + n} \<subseteq> free_units s bs \<and> free_units ?t cs = free_units s bs - {w..<w + n}"
    "p \<in> free_units s bs" "w \<in> free_units s bs" using fl u by blast+
  then show ?thesis unfolding taken_def same_at_def by auto
qed

lemma take_block_ok:
  assumes "free_list s bs" and "p \<in> set bs" and "n \<le> hsize s p" and "0 < n" and "q \<in> set bs" "hptr s q = p"
  shows "\<exists>w t. take_block q p n s = (w + 1, t) \<and> taken s bs n w t"
proof (cases "hsize s p = n")
  case True
  then show ?thesis using take_exact [OF assms(1,2) True assms(4,5,6)] by (simp add: take_block_def)
next
  case False
  then have "n < hsize s p" using assms(3) by simp
  from take_tail [OF assms(1,2) this assms(4,5) refl] show ?thesis
    using False by (simp add: take_block_def Let_def)
qed

lemma circle:
  assumes l: "free_list s bs" and f: "freep s = Some f"
  shows "\<exists>cs. chained (hptr s) (f # cs) \<and> cs \<noteq> [] \<and> last cs = f \<and> distinct cs \<and> set cs = set bs"
proof -
  let ?a = "ubase s"
  have b: "bs \<noteq> []" "hd bs = ?a" "chained (hptr s) (bs @ [?a])" "f \<in> set bs" using l f by (auto simp: free_list_iff)
  have d: "distinct bs" using l apart_distinct by (auto simp: free_list_def)
  obtain xs ys where bs: "bs = xs @ f # ys" using b(4) by (meson split_list)
  have c: "chained (hptr s) (xs @ [f])" "chained (hptr s) (f # ys @ [?a])"
    using b(3) chained_append [of "hptr s" xs f "ys @ [?a]"] by (simp_all add: bs)
  have "chained (hptr s) (f # ys @ xs @ [f])"
  proof (cases xs)
    case Nil
    then show ?thesis using c(2) b(2) by (simp add: bs)
  next
    case (Cons x zs)
    then have "x = ?a" using b(2) by (simp add: bs)
    then show ?thesis using c chained_append [of "hptr s" "f # ys" ?a "zs @ [f]"] by (simp add: Cons)
  qed
  moreover have "distinct (ys @ xs @ [f])" "set (ys @ xs @ [f]) = set bs" using d by (auto simp: bs)
  ultimately show ?thesis by (intro exI [of _ "ys @ xs @ [f]"]) simp
qed

lemma chained_pred: "chained h (prev # us @ p # vs) \<Longrightarrow> h (last (prev # us)) = p"
proof (induction us arbitrary: prev)
  case (Cons u us)
  then show ?case by simp
qed simp

text \<open>One round of the loop: a block is taken, or none is large enough and more core is asked for.\<close>

lemma malloc_round:
  assumes l: "free_list s bs" and f: "freep s = Some f" and n: "0 < n"
  shows "(\<exists>w t. malloc_loop n s f (hptr s f) = Some (Some (w + 1), t) \<and> taken s bs n w t) \<or>
     (\<forall>b \<in> set bs. hsize s b < n) \<and>
        malloc_loop n s f (hptr s f) =
          Option.bind (morecore n s) (\<lambda>x.
             case x of (None, s) \<Rightarrow> Some (None, s)
                     | (Some q, s) \<Rightarrow> malloc_loop n s q (hptr s q))"
proof -
  obtain cs where c: "chained (hptr s) (f # cs)" "cs \<noteq> []" "last cs = f" "distinct cs" "set cs = set bs"
    using circle [OF l f] by blast
  have hd_cs: "hptr s f = hd cs" using c(1,2) by (cases cs) auto
  have fl: "freep s = Some (last cs)" using f c(3) by simp
  from malloc_scan [OF c(1,2) fl c(4), of n] show ?thesis
  proof (elim disjE exE conjE)
    fix us p vs
    assume cs: "cs = us @ p # vs" and p: "n \<le> hsize s p"
      and m: "malloc_loop n s f (hd cs) = (case take_block (last (f # us)) p n s of (a, s) \<Rightarrow> Some (Some a, s))"
    let ?q = "last (f # us)"
    have "?q \<in> set (f # us)" by (rule last_in_set) simp
    moreover have "set (f # us) \<subseteq> insert f (set cs)" "p \<in> set cs" by (auto simp: cs)
    moreover have "f \<in> set bs" using l f by (auto simp: free_list_def)
    ultimately have q: "?q \<in> set bs" and "p \<in> set bs" unfolding c(5) by (metis insertE subsetD, metis)
    have h: "hptr s ?q = p" using chained_pred [of _ f us p vs] c(1) by (simp add: cs)
    from take_block_ok [OF l \<open>p \<in> set bs\<close> p n q h] obtain w t where "take_block ?q p n s = (w + 1, t)" "taken s bs n w t" by blast
    then show ?thesis using m hd_cs by (intro disjI1 exI [of _ w] exI [of _ t]) simp
  qed (use c(5) hd_cs in simp)
qed

text \<open>What a successful call gives out, over the units that were free and the new core.\<close>

definition given :: "uheap \<Rightarrow> nat list \<Rightarrow> nat \<Rightarrow> nat \<Rightarrow> uheap \<Rightarrow> bool" where
  "given s bs n w t \<longleftrightarrow>
     (let U = free_units s bs \<union> {ubrk s..<ubrk t}
      in (\<exists>cs. free_list t cs \<and> {w..<w + n} \<subseteq> U \<and> free_units t cs = U - {w..<w + n}) \<and>
         hsize t w = n \<and> (\<forall>x. x \<notin> U \<union> set bs \<longrightarrow> same_at s t x) \<and>
         ubase t = ubase s \<and> ubrk s \<le> ubrk t \<and> ubrk t \<le> max (ubrk s) (ulimit s) \<and> ulimit t = ulimit s)"

lemma free_list_set:
  assumes "free_list s bs"
  shows "set bs \<subseteq> insert (ubase s) (free_units s bs)" and "ubase s \<in> set bs"
proof -
  from assms obtain cs where bs: "bs = ubase s # cs" by (cases bs) (auto simp: free_list_def)
  then have "\<forall>b \<in> set cs. b \<in> free_units s bs" using assms by (auto simp: free_list_def free_units_def)
  then show "set bs \<subseteq> insert (ubase s) (free_units s bs)" "ubase s \<in> set bs" by (auto simp: bs)
qed

lemma malloc_loop_ok:
  assumes l: "free_list s bs" and f: "freep s = Some f" and n: "0 < n" "n * 16 < 2 ^ 31"
  shows "(\<exists>w t. malloc_loop n s f (hptr s f) = Some (Some (w + 1), t) \<and> given s bs n w t) \<or>
     malloc_loop n s f (hptr s f) = Some (None, s) \<and> (\<forall>b \<in> set bs. hsize s b < n) \<and> ulimit s < ubrk s + core_units n"
  using malloc_round [OF l f n(1)]
proof (elim disjE conjE)
  assume "\<exists>w t. malloc_loop n s f (hptr s f) = Some (Some (w + 1), t) \<and> taken s bs n w t"
  then obtain w t where w: "malloc_loop n s f (hptr s f) = Some (Some (w + 1), t)" "taken s bs n w t" by blast
  then have "given s bs n w t" by (simp add: taken_def given_def Let_def)
  with w(1) show ?thesis by blast
next
  assume small: "\<forall>b \<in> set bs. hsize s b < n" and m: "malloc_loop n s f (hptr s f) =
          Option.bind (morecore n s) (\<lambda>x. case x of (None, s) \<Rightarrow> Some (None, s)
                     | (Some q, s) \<Rightarrow> malloc_loop n s q (hptr s q))"
  show ?thesis
  proof (cases "ulimit s < ubrk s + core_units n")
    case True
    then show ?thesis using morecore_ok [OF l n(2)] small m by simp
  next
    case False
    with morecore_ok [OF l n(2)] obtain u cs q where u: "morecore n s = Some (Some q, u)" "free_list u cs" "freep u = Some q"
      "free_units u cs = free_units s bs \<union> {ubrk s..<ubrk s + core_units n}" "ubase u = ubase s"
      "ubrk u = ubrk s + core_units n" "ulimit u = ulimit s" "\<forall>x. x \<notin> insert (ubrk s) (set bs) \<longrightarrow> same_at s u x"
      by auto
    have c: "n \<le> core_units n" "0 < core_units n" by (simp_all add: core_units_def)
    have "apart (hsize u) cs" using u(2) by (simp add: free_list_def)
    from run_in_block [OF this, of "ubrk s" "ubrk s + core_units n"] u(4) c(2)
    obtain b where "b \<in> set cs" "b \<le> ubrk s" "ubrk s + core_units n \<le> b + hsize u b" by auto
    then have "\<not> (\<forall>b \<in> set cs. hsize u b < n)" using c(1) by fastforce
    with malloc_round [OF u(2,3) n(1)] obtain w t where t: "malloc_loop n u q (hptr u q) = Some (Some (w + 1), t)"
      and "taken u cs n w t" by blast
    from this(2) obtain ds where "free_list t ds" "{w..<w + n} \<subseteq> free_units u cs" "free_units t ds = free_units u cs - {w..<w + n}"
      "hsize t w = n" "\<forall>x. x \<notin> free_units u cs \<union> set cs \<longrightarrow> same_at u t x" "ubase t = ubase u" "ubrk t = ubrk u" "ulimit t = ulimit u"
      unfolding taken_def by blast
    note ds = this
    have "same_at s t x" if "x \<notin> free_units s bs \<union> {ubrk s..<ubrk t} \<union> set bs" for x
    proof -
      have x: "x \<notin> free_units u cs" "x \<notin> insert (ubrk s) (set bs)" using that ds u c(2) by auto
      moreover have "x \<notin> set cs" using free_list_set [OF u(2)] free_list_set [OF l] x u(5) by auto
      ultimately show ?thesis using ds(5) u(8) by (simp add: same_at_def)
    qed
    then have "given s bs n w t"
      using ds u(4-7) False unfolding given_def Let_def by (simp add: u(4)) blast
    then show ?thesis using m u(1) t by auto
  qed
qed

subsection \<open>The allocator under all sequences of calls\<close>

text \<open>\<open>A\<close> is the set of the headers of the blocks in use. Between the calls the program writes what it likes to the
  units it has been given, which lie behind the headers.\<close>

definition block :: "uheap \<Rightarrow> nat \<Rightarrow> nat set" where
  "block s q = {q..<q + hsize s q}"

definition used :: "uheap \<Rightarrow> nat set \<Rightarrow> nat set" where
  "used s A = (\<Union>q \<in> A. block s q)"

inductive heap_run :: "uheap \<Rightarrow> uheap \<Rightarrow> nat set \<Rightarrow> bool" for s0 where
  run_start: "freep s0 = None \<Longrightarrow> ubase s0 < ubrk s0 \<Longrightarrow> heap_run s0 s0 {}"
| run_malloc: "heap_run s0 s A \<Longrightarrow> units_for nbytes * 16 < 2 ^ 31 \<Longrightarrow> malloc nbytes s = Some (Some a, t) \<Longrightarrow>
    heap_run s0 t (insert (a - 1) A)"
| run_null: "heap_run s0 s A \<Longrightarrow> units_for nbytes * 16 < 2 ^ 31 \<Longrightarrow> malloc nbytes s = Some (None, t) \<Longrightarrow> heap_run s0 t A"
| run_free: "heap_run s0 s A \<Longrightarrow> q \<in> A \<Longrightarrow> free (q + 1) s = Some t \<Longrightarrow> heap_run s0 t (A - {q})"
| run_write: "heap_run s0 s A \<Longrightarrow> (\<And>x. x \<notin> used s A - A \<Longrightarrow> h x = hptr s x \<and> z x = hsize s x) \<Longrightarrow>
    heap_run s0 (s\<lparr>hptr := h, hsize := z\<rparr>) A"

definition ready :: "uheap \<Rightarrow> uheap" where
  "ready s = (if freep s = None
     then s\<lparr>hptr := (hptr s)(ubase s := ubase s), hsize := (hsize s)(ubase s := 0), freep := Some (ubase s)\<rparr> else s)"

definition parts :: "uheap \<Rightarrow> uheap \<Rightarrow> nat set \<Rightarrow> nat list \<Rightarrow> bool" where
  "parts s0 s A bs \<longleftrightarrow>
     free_list s bs \<and> ubase s = ubase s0 \<and> ubase s0 < ubrk s0 \<and> ubrk s0 \<le> ubrk s \<and> ulimit s = ulimit s0 \<and>
     (\<forall>q \<in> A. 0 < hsize s q) \<and> (\<forall>q \<in> A. \<forall>r \<in> A. q \<noteq> r \<longrightarrow> block s q \<inter> block s r = {}) \<and>
     free_units s bs \<inter> used s A = {} \<and> free_units s bs \<union> used s A = {ubrk s0..<ubrk s}"

definition heap_ok :: "uheap \<Rightarrow> uheap \<Rightarrow> nat set \<Rightarrow> bool" where
  "heap_ok s0 s A \<longleftrightarrow> (\<exists>bs. parts s0 (ready s) A bs) \<and> (freep s = None \<longrightarrow> A = {})"

lemma free_list_ready: "free_list s bs \<Longrightarrow> ready s = s"
  by (auto simp: free_list_def ready_def)

lemma malloc_ready: "malloc nbytes s = malloc_loop (units_for nbytes) (ready s) (the (freep (ready s)))
    (hptr (ready s) (the (freep (ready s))))"
  by (simp add: malloc_def ready_def Let_def)

lemma ready_freep: "\<exists>f. freep (ready s) = Some f"
  by (auto simp: ready_def)

lemma ready_same: "freep s \<noteq> None \<Longrightarrow> ready s = s"
  by (auto simp: ready_def)

text \<open>Headers of blocks in use and the units behind them are neither free nor headers of free blocks.\<close>

lemma used_apart:
  assumes "parts s0 s A bs" and "x \<in> used s A"
  shows "x \<notin> free_units s bs \<union> set bs" and "ubrk s0 \<le> x" and "x < ubrk s"
proof -
  have "x \<in> {ubrk s0..<ubrk s}" "x \<notin> free_units s bs" using assms unfolding parts_def by blast+
  moreover have "set bs \<subseteq> insert (ubase s) (free_units s bs)" "ubase s < ubrk s0"
    using assms(1) free_list_set(1) [of s bs] by (auto simp: parts_def)
  ultimately show "x \<notin> free_units s bs \<union> set bs" "ubrk s0 \<le> x" "x < ubrk s" by auto
qed

lemma in_used: "parts s0 s A bs \<Longrightarrow> q \<in> A \<Longrightarrow> q \<in> used s A \<and> block s q \<subseteq> used s A"
  by (auto simp: parts_def used_def block_def)

lemma used_cong: "(\<And>q. q \<in> A \<Longrightarrow> hsize t q = hsize s q) \<Longrightarrow> used t A = used s A"
  by (simp add: used_def block_def)

lemma parts_malloc:
  assumes p: "parts s0 s A bs" and g: "given s bs n w t" and n: "0 < n"
  shows "(\<exists>cs. parts s0 t (insert w A) cs) \<and> w \<notin> A \<and> (\<forall>x \<in> used s A. same_at s t x) \<and>
    {w..<w + n} \<subseteq> {ubrk s0..<ubrk t} - used s A"
proof -
  let ?U = "free_units s bs \<union> {ubrk s..<ubrk t}" and ?W = "{w..<w + n}"
  from g obtain cs where c: "free_list t cs" "?W \<subseteq> ?U" "free_units t cs = ?U - ?W" "hsize t w = n"
    "\<forall>x. x \<notin> ?U \<union> set bs \<longrightarrow> same_at s t x" "ubase t = ubase s" "ubrk s \<le> ubrk t" "ulimit t = ulimit s"
    unfolding given_def Let_def by blast
  have f: "free_units s bs \<inter> used s A = {}" "free_units s bs \<union> used s A = {ubrk s0..<ubrk s}" "ubrk s0 \<le> ubrk s"
    using p by (simp_all add: parts_def)
  have same: "same_at s t x" if "x \<in> used s A" for x
    using used_apart [OF p that] c(5) by simp
  then have hs: "hsize t q = hsize s q" if "q \<in> A" for q using in_used [OF p that] by (simp add: same_at_def)
  have "?U \<union> used s A = {ubrk s0..<ubrk s} \<union> {ubrk s..<ubrk t}" unfolding f(2) [symmetric] by blast
  also have "\<dots> = {ubrk s0..<ubrk t}" using f(3) c(7) by (rule ivl_disj_un)
  finally have U: "?U \<union> used s A = {ubrk s0..<ubrk t}" "?U \<inter> used s A = {}"
    using f(1) used_apart(3) [OF p] by force+
  then have W: "?W \<inter> used s A = {}" "?W \<subseteq> {ubrk s0..<ubrk t} - used s A" using c(2) by blast+
  have bw: "block t w = ?W" by (simp add: block_def c(4))
  have bq: "block t q = block s q" if "q \<in> A" for q using hs [OF that] by (simp add: block_def)
  have ut: "used t (insert w A) = ?W \<union> used s A" using used_cong [of A t s] hs bw by (simp add: used_def)
  have "free_units t cs \<inter> used t (insert w A) = {}" "free_units t cs \<union> used t (insert w A) = {ubrk s0..<ubrk t}"
    using c(2) U unfolding ut c(3) by blast+
  moreover have "w \<in> ?W" using n by simp
  then have wA: "w \<notin> A" using W(1) in_used [OF p] by blast
  moreover have "block t q \<inter> block t r = {}" if qr: "q \<in> insert w A" "r \<in> insert w A" "q \<noteq> r" for q r
  proof -
    have d: "block s x \<inter> ?W = {}" if "x \<in> A" for x using W(1) in_used [OF p that] by blast
    have e: "q \<in> A \<Longrightarrow> r \<in> A \<Longrightarrow> block s q \<inter> block s r = {}" using p qr(3) by (simp add: parts_def)
    consider "q = w" "r \<in> A" | "q \<in> A" "r = w" | "q \<in> A" "r \<in> A" using qr by blast
    then show ?thesis by cases (use d e in \<open>simp_all add: bq bw Int_commute\<close>)
  qed
  moreover have "\<forall>q \<in> insert w A. 0 < hsize t q" using c(4) n hs p by (simp add: parts_def)
  ultimately have "parts s0 t (insert w A) cs"
    using c(1,6,7,8) p unfolding parts_def by simp
  with wA same W(2) show ?thesis by blast
qed

lemma parts_free:
  assumes p: "parts s0 s A bs" and q: "q \<in> A"
  shows "\<exists>t cs. free (q + 1) s = Some t \<and> parts s0 t (A - {q}) cs \<and> (\<forall>x \<in> used s A - {q}. same_at s t x) \<and> ubrk t = ubrk s"
proof -
  have l: "free_list s bs" and pos: "0 < hsize s q" using p q by (simp_all add: parts_def)
  note iu = in_used [OF p q]
  have "\<forall>x \<in> block s q. x < ubrk s" using iu used_apart(3) [OF p] by blast
  then have "q + hsize s q - 1 < ubrk s" using pos by (auto simp: block_def)
  moreover have "ubase s < q" using used_apart(2) [OF p] iu p by (force simp: parts_def)
  moreover have "block s q \<inter> free_units s bs = {}" using iu p unfolding parts_def by blast
  ultimately have "fits q s bs" using pos by (simp add: fits_def block_def)
  from free_ok [OF l this] obtain t cs where t: "free (q + 1) s = Some t" "free_list t cs"
    "free_units t cs = free_units s bs \<union> block s q" "ubase t = ubase s" "ubrk t = ubrk s" "ulimit t = ulimit s"
    "\<forall>x. x \<notin> insert q (set bs) \<longrightarrow> same_at s t x" unfolding block_def by blast
  have same: "same_at s t x" if "x \<in> used s A - {q}" for x using t(7) used_apart(1) [OF p] that by blast
  then have hs: "hsize t r = hsize s r" if "r \<in> A - {q}" for r using in_used [OF p] that by (simp add: same_at_def)
  have ut: "used t (A - {q}) = used s (A - {q})" by (rule used_cong [OF hs])
  have dis: "block s r \<inter> block s q = {}" if "r \<in> A - {q}" for r using p q that by (auto simp: parts_def)
  have ua: "used s A = used s (A - {q}) \<union> block s q" "used s (A - {q}) \<inter> block s q = {}"
    using q dis by (auto simp: used_def)
  have bt: "block t r = block s r" if "r \<in> A - {q}" for r using hs [OF that] by (simp add: block_def)
  have "\<forall>r \<in> A - {q}. \<forall>r' \<in> A - {q}. r \<noteq> r' \<longrightarrow> block t r \<inter> block t r' = {}"
    using p bt by (simp add: parts_def)
  moreover have "\<forall>r \<in> A - {q}. 0 < hsize t r" using p hs by (simp add: parts_def)
  moreover have "free_units t cs \<inter> used t (A - {q}) = {}" "free_units t cs \<union> used t (A - {q}) = {ubrk s0..<ubrk t}"
    using p ua unfolding ut t(3,5) parts_def by blast+
  ultimately have "parts s0 t (A - {q}) cs" using p t(2,4,5,6) by (simp add: parts_def)
  with t(1,5) same show ?thesis by blast
qed

lemma free_list_same:
  assumes l: "free_list s bs" and same: "\<And>b. b \<in> set bs \<Longrightarrow> same_at s t b"
    and fields: "ubase t = ubase s" "ubrk t = ubrk s" "freep t = freep s"
  shows "free_list t bs" and "free_units t bs = free_units s bs"
proof -
  have h: "hsize t b = hsize s b" "hptr t b = hptr s b" if "b \<in> set bs" for b using same [OF that] by (simp_all add: same_at_def)
  have f: "bs \<noteq> []" "hd bs = ubase s" "hsize s (ubase s) = 0" "\<forall>b \<in> set (tl bs). 0 < hsize s b" "chained (hptr s) (bs @ [ubase s])"
    "apart (hsize s) bs" "\<forall>b \<in> set bs. b + hsize s b \<le> ubrk s" "ubase s < ubrk s" "freep s \<in> Some ` set bs"
    using l by (simp_all add: free_list_iff)
  have "chained (hptr t) (bs @ [ubase s])" using f(5) h by (subst chained_cong [of _ _ "hptr s"]) auto
  moreover have "apart (hsize t) bs" using f(6) h by (subst apart_cong [of _ _ "hsize s"]) (auto dest: in_set_butlastD)
  moreover have "hsize t (ubase s) = 0" using f(1,2,3) h(1) hd_in_set [OF f(1)] by simp
  moreover have "\<forall>b \<in> set (tl bs). 0 < hsize t b" using f(1,4) h(1) by (auto dest: list.set_sel(2))
  moreover have "\<forall>b \<in> set bs. b + hsize t b \<le> ubrk s" using f(7) h(1) by simp
  ultimately show "free_list t bs" using f fields by (simp add: free_list_iff)
  show "free_units t bs = free_units s bs" using h(1) by (simp add: free_units_def)
qed

lemma units_for_pos: "0 < units_for nbytes" "nbytes \<le> 16 * (units_for nbytes - 1)" "16 * (units_for nbytes - 1) < nbytes + 16"
  by (simp_all add: units_for_def)

lemma heap_ok_malloc:
  assumes ok: "heap_ok s0 s A" and n: "units_for nbytes * 16 < 2 ^ 31"
  defines "u \<equiv> units_for nbytes"
  shows "(\<exists>w t. malloc nbytes s = Some (Some (w + 1), t) \<and> heap_ok s0 t (insert w A) \<and> w \<notin> A \<and> hsize t w = u \<and>
        (\<forall>x \<in> used s A. same_at s t x) \<and> {w..<w + u} \<subseteq> {ubrk s0..<ubrk t} - used s A) \<or>
     (malloc nbytes s = Some (None, ready s) \<and> heap_ok s0 (ready s) A \<and> ulimit s < ubrk s + core_units u \<and>
        (\<forall>x. \<not> {x..<x + u} \<subseteq> {ubrk s0..<ubrk s} - used s A))"
proof -
  let ?r = "ready s"
  obtain bs where p: "parts s0 ?r A bs" using ok by (auto simp: heap_ok_def)
  have A: "freep s = None \<longrightarrow> A = {}" using ok by (simp add: heap_ok_def)
  obtain f where f: "freep ?r = Some f" using ready_freep by blast
  have ur: "used ?r A = used s A" "\<forall>t. \<forall>x \<in> used s A. same_at ?r t x \<longrightarrow> same_at s t x"
    using A by (cases "freep s = None", simp_all add: used_def ready_def)
  have br: "ubrk ?r = ubrk s" "ulimit ?r = ulimit s" by (simp_all add: ready_def)
  have l: "free_list ?r bs" using p by (simp add: parts_def)
  from malloc_loop_ok [OF l f _ n] units_for_pos(1)
  have "(\<exists>w t. malloc nbytes s = Some (Some (w + 1), t) \<and> given ?r bs u w t) \<or>
     malloc nbytes s = Some (None, ?r) \<and> (\<forall>b \<in> set bs. hsize ?r b < u) \<and> ulimit ?r < ubrk ?r + core_units u"
    by (simp add: malloc_ready f u_def)
  then show ?thesis
  proof (elim disjE exE conjE)
    fix w t
    assume m: "malloc nbytes s = Some (Some (w + 1), t)" and g: "given ?r bs u w t"
    from parts_malloc [OF p g] units_for_pos(1) obtain cs where q: "parts s0 t (insert w A) cs" "w \<notin> A"
      "\<forall>x \<in> used ?r A. same_at ?r t x" "{w..<w + u} \<subseteq> {ubrk s0..<ubrk t} - used ?r A" by (auto simp: u_def)
    have "free_list t cs" using q(1) by (simp add: parts_def)
    then have "ready t = t" "freep t \<noteq> None" using free_list_ready by (auto simp: free_list_def)
    then have "heap_ok s0 t (insert w A)" using q(1) unfolding heap_ok_def by auto
    moreover have "hsize t w = u" using g by (simp add: given_def Let_def)
    ultimately show ?thesis using m q(2-4) ur by auto
  next
    assume m: "malloc nbytes s = Some (None, ?r)" and small: "\<forall>b \<in> set bs. hsize ?r b < u"
      and lim: "ulimit ?r < ubrk ?r + core_units u"
    have "\<not> {x..<x + u} \<subseteq> {ubrk s0..<ubrk s} - used s A" for x
    proof
      assume "{x..<x + u} \<subseteq> {ubrk s0..<ubrk s} - used s A"
      also have "\<dots> = free_units ?r bs" using p unfolding parts_def br ur(1) by blast
      finally have "\<exists>b \<in> set bs. b \<le> x \<and> x + u \<le> b + hsize ?r b"
        using l units_for_pos(1) by (intro run_in_block) (auto simp: free_list_def u_def)
      with small show False by fastforce
    qed
    moreover have "heap_ok s0 ?r A" using p f unfolding heap_ok_def by (auto simp: ready_same)
    ultimately show ?thesis using m lim br by simp
  qed
qed

lemma heap_ok_free:
  assumes ok: "heap_ok s0 s A" and q: "q \<in> A"
  shows "\<exists>t. free (q + 1) s = Some t \<and> heap_ok s0 t (A - {q}) \<and> (\<forall>x \<in> used s A - {q}. same_at s t x) \<and> ubrk t = ubrk s"
proof -
  have r: "ready s = s" using ok q ready_same by (auto simp: heap_ok_def)
  with ok obtain bs where "parts s0 s A bs" unfolding heap_ok_def by auto
  from parts_free [OF this q] obtain t cs where t: "free (q + 1) s = Some t" "parts s0 t (A - {q}) cs"
    "\<forall>x \<in> used s A - {q}. same_at s t x" "ubrk t = ubrk s" by blast
  have l: "free_list t cs" using t(2) by (simp add: parts_def)
  then have "ready t = t" "freep t \<noteq> None" using free_list_ready by (auto simp: free_list_def)
  then have "heap_ok s0 t (A - {q})" using t(2) unfolding heap_ok_def by auto
  with t show ?thesis by blast
qed

lemma heap_ok_write:
  assumes ok: "heap_ok s0 s A" and w: "\<And>x. x \<notin> used s A - A \<Longrightarrow> h x = hptr s x \<and> z x = hsize s x"
  shows "heap_ok s0 (s\<lparr>hptr := h, hsize := z\<rparr>) A"
proof (cases "freep s = None")
  case True
  then have "A = {}" using ok by (simp add: heap_ok_def)
  then have "h = hptr s" "z = hsize s" using w by (auto simp: used_def)
  then show ?thesis using ok by simp
next
  case False
  let ?t = "s\<lparr>hptr := h, hsize := z\<rparr>"
  have r: "ready s = s" "ready ?t = ?t" using False by (simp_all add: ready_same)
  from ok obtain bs where p: "parts s0 s A bs" unfolding heap_ok_def r(1) by blast
  have same: "same_at s ?t x" if "x \<notin> used s A - A" for x using w [OF that] by (simp add: same_at_def)
  have "same_at s ?t b" if "b \<in> set bs" for b using same used_apart(1) [OF p] that by blast
  moreover have "free_list s bs" using p by (simp add: parts_def)
  ultimately have l: "free_list ?t bs" "free_units ?t bs = free_units s bs"
    using free_list_same [of s bs ?t] by simp_all
  have hs: "hsize ?t q = hsize s q" if "q \<in> A" for q using same [of q] that by (simp add: same_at_def)
  have "used ?t A = used s A" by (rule used_cong [OF hs])
  moreover have "block ?t q = block s q" if "q \<in> A" for q using hs [OF that] by (simp add: block_def)
  ultimately have "parts s0 ?t A bs" using p l hs unfolding parts_def by simp
  then show ?thesis using False r(2) unfolding heap_ok_def by auto
qed

lemma heap_ok_start:
  assumes "freep s0 = None" and "ubase s0 < ubrk s0"
  shows "heap_ok s0 s0 {}"
proof -
  have "free_list (ready s0) [ubase s0]" using assms by (simp add: free_list_def ready_def)
  moreover have "free_units (ready s0) [ubase s0] = {}" using assms by (simp add: free_units_def ready_def)
  moreover have "ubase (ready s0) = ubase s0" "ubrk (ready s0) = ubrk s0" "ulimit (ready s0) = ulimit s0"
    by (simp_all add: ready_def)
  ultimately have "parts s0 (ready s0) {} [ubase s0]" using assms by (simp add: parts_def used_def)
  then show ?thesis unfolding heap_ok_def by blast
qed

lemma heap_run_ok: "heap_run s0 s A \<Longrightarrow> heap_ok s0 s A"
proof (induction rule: heap_run.induct)
  case run_start
  then show ?case by (rule heap_ok_start)
next
  case (run_malloc s A nbytes a t)
  then show ?case using heap_ok_malloc [of s0 s A nbytes] by auto
next
  case (run_null s A nbytes t)
  then show ?case using heap_ok_malloc [of s0 s A nbytes] by auto
next
  case (run_free s A q t)
  then show ?case using heap_ok_free [of s0 s A q] by auto
next
  case (run_write s A h z)
  then show ?case using heap_ok_write by blast
qed

text \<open>C11. The allocator, in every state reached by calls of \<^verbatim>\<open>malloc\<close> and \<^verbatim>\<open>free\<close> between which the program writes into
  its blocks as it likes. The blocks in use are disjoint. \<^verbatim>\<open>malloc\<close> of a size below 2 GB returns: either a block large
  enough for the bytes asked for, in the heap and outside every block in use, or null, and then no run of free units is
  long enough and the process cannot grow. \<^verbatim>\<open>free\<close> of a block in use returns. Neither call changes a header or a byte of
  any other block in use.\<close>

theorem umalloc_contract:
  assumes "heap_run s0 s A" and "units_for nbytes * 16 < 2 ^ 31"
  shows "(\<forall>q \<in> A. \<forall>r \<in> A. q \<noteq> r \<longrightarrow> block s q \<inter> block s r = {}) \<and>
    (\<exists>r t. malloc nbytes s = Some (r, t) \<and> (\<forall>x \<in> used s A. same_at s t x) \<and>
       (case r of
          Some a \<Rightarrow> hsize t (a - 1) = units_for nbytes \<and> nbytes \<le> 16 * (units_for nbytes - 1) \<and>
            {a - 1..<a - 1 + units_for nbytes} \<subseteq> {ubrk s0..<ubrk t} - used s A
        | None \<Rightarrow> ulimit s < ubrk s + max 4096 (units_for nbytes) \<and>
            (\<forall>x. \<not> {x..<x + units_for nbytes} \<subseteq> {ubrk s0..<ubrk s} - used s A))) \<and>
    (\<forall>q \<in> A. \<exists>t. free (q + 1) s = Some t \<and> (\<forall>x \<in> used s A - {q}. same_at s t x))"
proof (intro conjI ballI)
  have ok: "heap_ok s0 s A" by (rule heap_run_ok [OF assms(1)])
  show "q \<noteq> r \<longrightarrow> block s q \<inter> block s r = {}" if "q \<in> A" "r \<in> A" for q r
    using that ok ready_same [of s] by (cases "freep s = None") (auto simp: heap_ok_def parts_def)
  show "\<exists>t. free (q + 1) s = Some t \<and> (\<forall>x \<in> used s A - {q}. same_at s t x)" if "q \<in> A" for q
    using heap_ok_free [OF ok that] by blast
  have c: "core_units (units_for nbytes) = max 4096 (units_for nbytes)" by (simp add: core_units_def)
  have A: "\<forall>x \<in> used s A. same_at s (ready s) x"
    using ok by (cases "freep s = None") (simp_all add: heap_ok_def used_def ready_same same_at_def)
  from heap_ok_malloc [OF ok assms(2)] show "\<exists>r t. malloc nbytes s = Some (r, t) \<and> (\<forall>x \<in> used s A. same_at s t x) \<and>
       (case r of
          Some a \<Rightarrow> hsize t (a - 1) = units_for nbytes \<and> nbytes \<le> 16 * (units_for nbytes - 1) \<and>
            {a - 1..<a - 1 + units_for nbytes} \<subseteq> {ubrk s0..<ubrk t} - used s A
        | None \<Rightarrow> ulimit s < ubrk s + max 4096 (units_for nbytes) \<and>
            (\<forall>x. \<not> {x..<x + units_for nbytes} \<subseteq> {ubrk s0..<ubrk s} - used s A))"
  proof (elim disjE exE conjE)
    fix w t
    assume "malloc nbytes s = Some (Some (w + 1), t)" "hsize t w = units_for nbytes" "\<forall>x \<in> used s A. same_at s t x"
      "{w..<w + units_for nbytes} \<subseteq> {ubrk s0..<ubrk t} - used s A"
    then show ?thesis using units_for_pos(2) [of nbytes] by (intro exI [of _ "Some (w + 1)"] exI [of _ t]) simp
  qed (use A c in auto)
qed

text \<open>C12. Coalescing: once all blocks have been freed, in any order, the free list is \<^verbatim>\<open>base\<close> and a single block with
  all the memory ever obtained from \<^verbatim>\<open>sbrk\<close>.\<close>

theorem umalloc_coalesces:
  assumes "heap_run s0 s {}" and "ubrk s0 < ubrk s"
  shows "hptr s (ubase s0) = ubrk s0 \<and> hptr s (ubrk s0) = ubase s0 \<and> hsize s (ubrk s0) = ubrk s - ubrk s0"
proof -
  have ok: "heap_ok s0 s {}" by (rule heap_run_ok [OF assms(1)])
  obtain bs where p: "parts s0 (ready s) {} bs" using ok by (auto simp: heap_ok_def)
  then have l: "free_list (ready s) bs" and fu: "free_units (ready s) bs = {ubrk s0..<ubrk (ready s)}" and a: "ubase (ready s) = ubase s0"
    by (simp_all add: parts_def used_def)
  have "freep s \<noteq> None"
  proof
    assume "freep s = None"
    then have "hptr (ready s) (ubase s0) = ubase s0" "freep (ready s) = Some (ubase s0)" using a by (simp_all add: ready_def)
    from circle [OF l this(2)] this(1) obtain cs where c: "chained (hptr (ready s)) (ubase s0 # cs)" "cs \<noteq> []"
      "last cs = ubase s0" "distinct cs" "set cs = set bs" by blast
    then have "cs = [ubase s0]" using \<open>hptr (ready s) (ubase s0) = ubase s0\<close> by (cases cs) (auto split: if_splits, metis last_in_set)
    then have "free_units (ready s) bs = {}" using c(5) \<open>freep s = None\<close> a by (auto simp: free_units_def ready_def)
    moreover have "ubrk (ready s) = ubrk s" by (simp add: ready_def)
    ultimately show False using fu assms(2) by auto
  qed
  then have r: "ready s = s" by (rule ready_same)
  have f: "bs \<noteq> []" "hd bs = ubase s0" "hsize s (ubase s0) = 0" "\<forall>b \<in> set (tl bs). 0 < hsize s b" "chained (hptr s) (bs @ [ubase s0])"
    "apart (hsize s) bs" "\<forall>b \<in> set bs. b + hsize s b \<le> ubrk s" using l a by (simp_all add: r free_list_iff)
  have "{ubrk s0..<ubrk s} \<subseteq> free_units s bs" using fu by (simp add: r)
  from run_in_block [OF f(6) this assms(2)] obtain b where b: "b \<in> set bs" "b \<le> ubrk s0" "ubrk s \<le> b + hsize s b" by blast
  have pos: "b \<in> free_units s bs" using b assms(2) by (auto simp: free_units_def)
  then have b0: "b = ubrk s0" using fu b(2) by (auto simp: r)
  have only: "c = b" if "c \<in> set (tl bs)" for c
  proof -
    have "c \<in> set bs" "0 < hsize s c" using that f(1,4) by (auto dest: list.set_sel(2))
    then have "c \<in> free_units s bs" by (auto simp: free_units_def)
    then have "b \<le> c" "c < b + hsize s b" using fu b b0 by (auto simp: r)
    then show ?thesis using apart_pair [OF f(6) b(1) \<open>c \<in> set bs\<close>] by (cases "b = c") auto
  qed
  obtain cs where bs: "bs = ubase s0 # cs" using f(1,2) by (cases bs) auto
  have "b \<noteq> ubase s0" using f(3) b assms(2) by auto
  then have "b \<in> set cs" using b(1) by (simp add: bs)
  then obtain ds where cs: "cs = b # ds" using only by (cases cs) (auto simp: bs)
  have "ds = []" using only apart_distinct [OF f(6)] by (cases ds) (auto simp: bs cs)
  then show ?thesis using f(5,7) b(3) by (auto simp: bs cs b0)
qed

definition demo_heap :: uheap where
  "demo_heap = \<lparr>hptr = (\<lambda>_. 0), hsize = (\<lambda>_. 0), freep = None, ubase = 5, ubrk = 100, ulimit = 10000\<rparr>"

lemma demo_heap_run: "heap_run demo_heap demo_heap {}"
  by (rule run_start) (simp_all add: demo_heap_def)

theorem umalloc_contract_witness:
  "\<exists>a t v. malloc 40 demo_heap = Some (Some a, t) \<and> hsize t (a - 1) = 4 \<and> heap_run demo_heap t {a - 1} \<and> free (a - 1 + 1) t = Some v"
proof -
  have u: "units_for 40 = 4" by (simp add: units_for_def)
  obtain r t where m: "malloc 40 demo_heap = Some (r, t)" and c: "case r of
          Some a \<Rightarrow> hsize t (a - 1) = 4
        | None \<Rightarrow> ulimit demo_heap < ubrk demo_heap + max 4096 4"
    using umalloc_contract [OF demo_heap_run, of 40] by (auto simp: u split: option.splits)
  obtain a where a: "r = Some a" using c by (cases r) (auto simp: demo_heap_def)
  have h: "heap_run demo_heap t {a - 1}" using run_malloc [OF demo_heap_run, of 40 a t] m a u by simp
  obtain v where "free (a - 1 + 1) t = Some v" using umalloc_contract [OF h, of 40] u by auto
  with m a c h show ?thesis by auto
qed

theorem umalloc_coalesces_witness:
  "\<exists>s. heap_run demo_heap s {} \<and> 100 < ubrk s \<and> hsize s 100 = ubrk s - 100"
proof -
  have u: "units_for 40 = 4" by (simp add: units_for_def)
  have d: "ulimit demo_heap = 10000" "ubrk demo_heap = 100" by (simp_all add: demo_heap_def)
  have ok: "heap_ok demo_heap demo_heap {}" by (rule heap_run_ok [OF demo_heap_run])
  from heap_ok_malloc [OF ok, of 40] obtain w t where m: "malloc 40 demo_heap = Some (Some (w + 1), t)"
    "heap_ok demo_heap t {w}" "{w..<w + 4} \<subseteq> {ubrk demo_heap..<ubrk t}"
    by (auto simp: u core_units_def used_def d)
  have "w \<in> {w..<w + 4}" by simp
  then have b: "100 < ubrk t" using m(3) d by force
  obtain v where v: "free (w + 1) t = Some v" "ubrk v = ubrk t" using heap_ok_free [OF m(2), of w] by auto
  have "heap_run demo_heap t {w}" using run_malloc [OF demo_heap_run _ m(1)] by (simp add: u)
  from run_free [OF this _ v(1)] have "heap_run demo_heap v {}" by simp
  with umalloc_coalesces [of demo_heap v] v(2) b d show ?thesis by auto
qed

end
