(* ===== verification/Sh.thy ===== *)
theory Sh
  imports Main
begin

section \<open>The shell of xv6: parser (user/sh.c)\<close>

text \<open>
  The buffer \<open>b\<close> is the line without its final NUL, so \<^verbatim>\<open>es\<close> is its length; a \<^verbatim>\<open>char*\<close> into it is a position, and
  reading at \<^verbatim>\<open>es\<close> gives NUL. The words of a command are pairs of positions \<^verbatim>\<open>(q, eq)\<close> until \<^verbatim>\<open>nulterminate\<close> makes
  strings of them, so the type of commands has the type of words as parameter. The functions that advance
  \<^verbatim>\<open>*ps\<close> return the new position. \<^verbatim>\<open>panic\<close> ends the process: its message is the value \<open>Panicked\<close>. The recursion of
  the parser goes through the result of earlier calls, so the two recursive functions have fuel; \<open>parsecmd\<close> gives
  them enough (shown below). The \<^verbatim>\<open>struct execcmd\<close> that \<^verbatim>\<open>parseexec\<close> fills while redirections are wrapped around
  it is the pair of the words and the redirections read so far.
\<close>

datatype 'w cmd =
    EXEC "'w list"
  | REDIR "'w cmd" 'w nat nat
  | PIPE "'w cmd" "'w cmd"
  | LIST "'w cmd" "'w cmd"
  | BACK "'w cmd"

type_synonym span = "nat \<times> nat"

datatype 'a parsed = OutOfFuel | Panicked string | Parsed 'a nat

fun andthen :: "'a parsed \<Rightarrow> ('a \<Rightarrow> nat \<Rightarrow> 'b parsed) \<Rightarrow> 'b parsed" where
  "andthen OutOfFuel f = OutOfFuel"
| "andthen (Panicked m) f = Panicked m"
| "andthen (Parsed x p) f = f x p"

definition MAXARGS :: nat where "MAXARGS = 10"

definition whitespace :: string where
  "whitespace = [CHR '' '', CHR 0x09, CHR 0x0D, CHR 0x0A, CHR 0x0B]"

definition symbols :: string where
  "symbols = ''<|>&;()''"

definition NULC :: char where "NULC = CHR 0x00"

definition char_at :: "string \<Rightarrow> nat \<Rightarrow> char" where
  "char_at b i = (if i < length b then b ! i else NULC)"

function skip_space :: "string \<Rightarrow> nat \<Rightarrow> nat" where
  "skip_space b s = (if s < length b \<and> b ! s \<in> set whitespace then skip_space b (Suc s) else s)"
  by pat_completeness auto
termination
  by (relation "measure (\<lambda>(b, s). length b - s)") auto

function skip_word :: "string \<Rightarrow> nat \<Rightarrow> nat" where
  "skip_word b s =
     (if s < length b \<and> b ! s \<notin> set whitespace \<and> b ! s \<notin> set symbols then skip_word b (Suc s) else s)"
  by pat_completeness auto
termination
  by (relation "measure (\<lambda>(b, s). length b - s)") auto

declare skip_space.simps [simp del] skip_word.simps [simp del]

definition gettoken :: "string \<Rightarrow> nat \<Rightarrow> char \<times> span \<times> nat" where
  "gettoken b ps =
     (let q = skip_space b ps;
          c = char_at b q;
          (ret, eq) =
            (if c = NULC then (NULC, q)
             else if c \<in> set ''|();&<'' then (c, q + 1)
             else if c = CHR ''>'' then
               (if char_at b (q + 1) = CHR ''>'' then (CHR ''+'', q + 2) else (c, q + 1))
             else (CHR ''a'', skip_word b q))
      in (ret, (q, eq), skip_space b eq))"

definition peek :: "string \<Rightarrow> nat \<Rightarrow> string \<Rightarrow> bool \<times> nat" where
  "peek b ps toks = (let s = skip_space b ps; c = char_at b s in (c \<noteq> NULC \<and> c \<in> set toks, s))"

subsection \<open>Progress of the scanner\<close>

lemma skip_space_bounds: "s \<le> skip_space b s \<and> (s \<le> length b \<longrightarrow> skip_space b s \<le> length b)"
proof (induction b s rule: skip_space.induct)
  case (1 b s)
  then show ?case by (subst (1 2) skip_space.simps) (auto simp: Suc_le_eq)
qed

lemma skip_word_bounds: "s \<le> skip_word b s \<and> (s \<le> length b \<longrightarrow> skip_word b s \<le> length b)"
proof (induction b s rule: skip_word.induct)
  case (1 b s)
  then show ?case by (subst (1 2) skip_word.simps) (auto simp: Suc_le_eq)
qed

lemma skip_space_stops: "skip_space b s < length b \<Longrightarrow> b ! skip_space b s \<notin> set whitespace"
proof (induction b s rule: skip_space.induct)
  case (1 b s)
  then show ?case by (subst skip_space.simps, subst (asm) (2) skip_space.simps) (auto split: if_splits)
qed

lemma skip_space_idem [simp]: "skip_space b (skip_space b s) = skip_space b s"
  using skip_space_stops [of b s] by (subst skip_space.simps) auto

lemma gettoken_skip [simp]: "gettoken b (skip_space b p) = gettoken b p"
  by (simp add: gettoken_def)

lemma gettoken_bounds:
  assumes "gettoken b p = (t, (q, e), p')"
  shows "p \<le> q" and "q \<le> e" and "e \<le> p'" and "t \<noteq> NULC \<Longrightarrow> q < length b \<and> q < e \<and> p < p'"
    and "p \<le> length b \<Longrightarrow> p' \<le> length b"
proof -
  let ?q = "skip_space b p"
  have q: "q = ?q" and p': "p' = skip_space b e" using assms by (auto simp: gettoken_def Let_def split: prod.splits)
  have e: "e = (if char_at b q = NULC then q else if char_at b q \<in> set ''|();&<'' then q + 1
      else if char_at b q = CHR ''>'' then (if char_at b (q + 1) = CHR ''>'' then q + 2 else q + 1) else skip_word b q)"
    and t: "t = NULC \<longleftrightarrow> char_at b q = NULC"
    using assms by (auto simp: gettoken_def Let_def NULC_def split: if_splits)
  show "p \<le> q" using skip_space_bounds [of p b] by (simp add: q)
  show qe: "q \<le> e" using skip_word_bounds [of q b] by (simp add: e)
  show ep: "e \<le> p'" using skip_space_bounds [of e b] by (simp add: p')
  have "q < length b \<and> q < e" if "t \<noteq> NULC"
  proof -
    have l: "q < length b" using that t by (auto simp: char_at_def split: if_splits)
    have "q < skip_word b q" if "char_at b q \<noteq> CHR ''>''" "char_at b q \<notin> set ''|();&<''"
    proof -
      have "b ! q \<notin> set whitespace" using skip_space_stops [of b p] l by (simp add: q)
      moreover have "b ! q \<notin> set symbols" using that l by (auto simp: char_at_def symbols_def)
      ultimately show ?thesis using l skip_word_bounds [of "Suc q" b] by (subst skip_word.simps) auto
    qed
    then show ?thesis using l t \<open>t \<noteq> NULC\<close> by (auto simp: e)
  qed
  then show "t \<noteq> NULC \<Longrightarrow> q < length b \<and> q < e \<and> p < p'" using \<open>p \<le> q\<close> ep by auto
  show "p' \<le> length b" if "p \<le> length b"
  proof -
    have l: "q \<le> length b" using skip_space_bounds [of p b] that by (simp add: q)
    have "char_at b q \<noteq> NULC \<Longrightarrow> q < length b" "char_at b (q + 1) = CHR ''>'' \<Longrightarrow> q + 1 < length b"
      by (auto simp: char_at_def NULC_def split: if_splits)
    then have "e \<le> length b" using l skip_word_bounds [of q b] by (auto simp: e)
    then show ?thesis using skip_space_bounds [of e b] by (simp add: p')
  qed
qed

lemma peek_bounds: "peek b p cs = (r, p') \<Longrightarrow> p' = skip_space b p \<and> (r \<longrightarrow> fst (gettoken b p') \<noteq> NULC)"
  by (auto simp: peek_def gettoken_def Let_def NULC_def)

subsection \<open>The parser\<close>

definition O_READ :: nat where "O_READ = 0"

definition O_WRITE_NEW :: nat where "O_WRITE_NEW = 0x001 + 0x200 + 0x400"

definition O_WRITE_OLD :: nat where "O_WRITE_OLD = 0x001 + 0x200"

text \<open>The redirections \<^verbatim>\<open>parseredirs\<close> reads, in order; \<open>wrap\<close> puts them around a command as it does.\<close>

type_synonym 'w redir = "'w \<times> nat \<times> nat"

definition redir_of :: "char \<Rightarrow> 'w \<Rightarrow> 'w redir" where
  "redir_of tok w =
     (if tok = CHR ''<'' then (w, O_READ, 0)
      else if tok = CHR ''>'' then (w, O_WRITE_NEW, 1)
      else (w, O_WRITE_OLD, 1))"

fun wrap :: "'w cmd \<Rightarrow> 'w redir list \<Rightarrow> 'w cmd" where
  "wrap c [] = c"
| "wrap c ((w, m, f) # rs) = wrap (REDIR c w m f) rs"

lemma peek_progress:
  assumes "peek b ps cs = (True, p)" and "gettoken b p = (tok, w, p1)"
  shows "ps < length b \<and> ps < p1"
proof -
  obtain q e where w: "w = (q, e)" by (cases w)
  have "ps \<le> p" "tok \<noteq> NULC" using peek_bounds [OF assms(1)] skip_space_bounds [of ps b] assms(2) by auto
  then show ?thesis using gettoken_bounds(1,4) [OF assms(2) [unfolded w]] by auto
qed

lemma redir_progress:
  assumes "peek b ps cs = (True, p)" and "gettoken b p = (tok, w, p1)" and "gettoken b p1 = (tok2, w2, p2)"
  shows "length b - p2 < length b - ps"
proof -
  obtain q e where w2: "w2 = (q, e)" by (cases w2)
  have "p1 \<le> p2" using gettoken_bounds(1-3) [OF assms(3) [unfolded w2]] by simp
  then show ?thesis using peek_progress [OF assms(1,2)] by linarith
qed

function parseredirs :: "string \<Rightarrow> span redir list \<Rightarrow> nat \<Rightarrow> span redir list parsed" where
  "parseredirs b rs ps =
     (case peek b ps ''<>'' of
        (r, p) \<Rightarrow>
          if \<not> r then Parsed rs p
          else case gettoken b p of
            (tok, _, p) \<Rightarrow>
              (case gettoken b p of
                 (tok2, w, p) \<Rightarrow>
                   if tok2 \<noteq> CHR ''a'' then Panicked ''missing file for redirection''
                   else parseredirs b (rs @ [redir_of tok w]) p))"
  by pat_completeness auto
termination
  by (relation "measure (\<lambda>(b, rs, p). length b - p)") (auto intro: redir_progress [OF sym sym sym])

declare parseredirs.simps [simp del]

lemma parseredirs_progress: "parseredirs b rs p = Parsed rs' p' \<Longrightarrow> p \<le> p' \<and> (p \<le> length b \<longrightarrow> p' \<le> length b)"
proof (induction b rs p rule: parseredirs.induct)
  case (1 b rs ps)
  obtain r p where pk: "peek b ps ''<>'' = (r, p)" by (cases "peek b ps ''<>''")
  have pb: "ps \<le> p" "ps \<le> length b \<longrightarrow> p \<le> length b" using peek_bounds [OF pk] skip_space_bounds [of ps b] by auto
  show ?case
  proof (cases r)
    case False
    then show ?thesis using "1.prems" pb by (subst (asm) parseredirs.simps) (simp add: pk)
  next
    case True
    obtain tok q e p1 where g1: "gettoken b p = (tok, (q, e), p1)" by (metis prod.exhaust)
    obtain tok2 q2 e2 p2 where g2: "gettoken b p1 = (tok2, (q2, e2), p2)" by (metis prod.exhaust)
    have "tok2 = CHR ''a''" "parseredirs b (rs @ [redir_of tok (q2, e2)]) p2 = Parsed rs' p'"
      using "1.prems" True by (subst (asm) parseredirs.simps, simp add: pk g1 g2 split: if_splits)+
    with "1.IH" [OF pk [symmetric] _ g1 [symmetric] refl g2 [symmetric] refl] True
    have "p2 \<le> p' \<and> (p2 \<le> length b \<longrightarrow> p' \<le> length b)" by simp
    then show ?thesis using pb gettoken_bounds [OF g1] gettoken_bounds [OF g2] by auto
  qed
qed

lemma word_progress:
  assumes "peek b ps cs = (r, p)" and "gettoken b p = (CHR ''a'', w, p1)" and "parseredirs b rs p1 = Parsed rs' p2"
  shows "length b - p2 < length b - ps"
proof -
  obtain q e where w: "w = (q, e)" by (cases w)
  have "ps \<le> p" using peek_bounds [OF assms(1)] skip_space_bounds [of ps b] by simp
  moreover have "q < length b \<and> p < p1" "p \<le> q" using gettoken_bounds(1,4) [OF assms(2) [unfolded w]] by (simp_all add: NULC_def)
  moreover have "p1 \<le> p2" using parseredirs_progress [OF assms(3)] by simp
  ultimately show ?thesis by linarith
qed

text \<open>The loop of \<^verbatim>\<open>parseexec\<close> over the words; \<open>argc\<close> is the number of words read.\<close>

function parseexec_loop :: "string \<Rightarrow> span list \<Rightarrow> span redir list \<Rightarrow> nat \<Rightarrow> (span list \<times> span redir list) parsed" where
  "parseexec_loop b argv rs ps =
     (case peek b ps ''|)&;'' of
        (r, p) \<Rightarrow>
          if r then Parsed (argv, rs) p
          else case gettoken b p of
            (tok, w, p) \<Rightarrow>
              if tok = NULC then Parsed (argv, rs) p
              else if tok \<noteq> CHR ''a'' then Panicked ''syntax''
              else if length argv + 1 \<ge> MAXARGS then Panicked ''too many args''
              else case parseredirs b rs p of
                     OutOfFuel \<Rightarrow> OutOfFuel
                   | Panicked m \<Rightarrow> Panicked m
                   | Parsed rs p \<Rightarrow> parseexec_loop b (argv @ [w]) rs p)"
  by pat_completeness auto
termination
  by (relation "measure (\<lambda>(b, argv, rs, p). length b - p)") (auto intro: word_progress [OF sym sym])

declare parseexec_loop.simps [simp del]

definition parseblock :: "(nat \<Rightarrow> span cmd parsed) \<Rightarrow> string \<Rightarrow> nat \<Rightarrow> span cmd parsed" where
  "parseblock line b ps =
     (case peek b ps ''('' of
        (r, p) \<Rightarrow>
          if \<not> r then Panicked ''parseblock''
          else case gettoken b p of
            (_, _, p) \<Rightarrow>
              andthen (line p) (\<lambda>c p.
                case peek b p '')'' of
                  (r, p) \<Rightarrow>
                    if \<not> r then Panicked ''syntax - missing )''
                    else case gettoken b p of
                      (_, _, p) \<Rightarrow> andthen (parseredirs b [] p) (\<lambda>rs p. Parsed (wrap c rs) p)))"

definition parseexec :: "(nat \<Rightarrow> span cmd parsed) \<Rightarrow> string \<Rightarrow> nat \<Rightarrow> span cmd parsed" where
  "parseexec line b ps =
     (case peek b ps ''('' of
        (r, p) \<Rightarrow>
          if r then parseblock line b p
          else andthen (parseredirs b [] p) (\<lambda>rs p.
                 andthen (parseexec_loop b [] rs p) (\<lambda>(argv, rs) p. Parsed (wrap (EXEC argv) rs) p)))"

primrec parsepipe :: "nat \<Rightarrow> (nat \<Rightarrow> span cmd parsed) \<Rightarrow> string \<Rightarrow> nat \<Rightarrow> span cmd parsed" where
  "parsepipe 0 line b ps = OutOfFuel"
| "parsepipe (Suc k) line b ps =
     andthen (parseexec line b ps) (\<lambda>c p.
       case peek b p ''|'' of
         (r, p) \<Rightarrow>
           if \<not> r then Parsed c p
           else case gettoken b p of
             (_, _, p) \<Rightarrow> andthen (parsepipe k line b p) (\<lambda>d p. Parsed (PIPE c d) p))"

lemma back_progress: "peek b ps cs = (True, p) \<Longrightarrow> gettoken b p = (tok, w, p1) \<Longrightarrow> length b - p1 < length b - ps"
  using peek_progress by fastforce

function parsebacks :: "string \<Rightarrow> span cmd \<Rightarrow> nat \<Rightarrow> span cmd \<times> nat" where
  "parsebacks b c ps =
     (case peek b ps ''&'' of
        (r, p) \<Rightarrow>
          if \<not> r then (c, p)
          else case gettoken b p of (_, _, p) \<Rightarrow> parsebacks b (BACK c) p)"
  by pat_completeness auto
termination
  by (relation "measure (\<lambda>(b, c, p). length b - p)") (auto intro: back_progress [OF sym sym])

declare parsebacks.simps [simp del]

primrec parseline :: "nat \<Rightarrow> string \<Rightarrow> nat \<Rightarrow> span cmd parsed" where
  "parseline 0 b ps = OutOfFuel"
| "parseline (Suc k) b ps =
     andthen (parsepipe (Suc k) (parseline k b) b ps) (\<lambda>c p.
       case parsebacks b c p of
         (c, p) \<Rightarrow>
           (case peek b p '';'' of
              (r, p) \<Rightarrow>
                if \<not> r then Parsed c p
                else case gettoken b p of
                  (_, _, p) \<Rightarrow> andthen (parseline k b p) (\<lambda>d p. Parsed (LIST c d) p)))"

subsection \<open>Terminating the words\<close>

text \<open>\<^verbatim>\<open>nulterminate\<close> writes a NUL behind every word; the buffer has its final NUL here, so it has one byte more.\<close>

definition nul_word :: "span \<Rightarrow> string \<Rightarrow> string" where
  "nul_word w buf = buf[snd w := NULC]"

primrec nulterminate :: "span cmd \<Rightarrow> string \<Rightarrow> string" where
  "nulterminate (EXEC argv) buf = fold nul_word argv buf"
| "nulterminate (REDIR c w m f) buf = nul_word w (nulterminate c buf)"
| "nulterminate (PIPE l r) buf = nulterminate r (nulterminate l buf)"
| "nulterminate (LIST l r) buf = nulterminate r (nulterminate l buf)"
| "nulterminate (BACK c) buf = nulterminate c buf"

text \<open>The result of \<^verbatim>\<open>parsecmd\<close>: the command and the buffer that its words point into.\<close>

definition parsecmd :: "string \<Rightarrow> (span cmd \<times> string) parsed" where
  "parsecmd b =
     andthen (parseline (Suc (length b)) b 0) (\<lambda>c p.
       case peek b p '''' of
         (_, p) \<Rightarrow> if p \<noteq> length b then Panicked ''syntax''
                   else Parsed (c, nulterminate c (b @ [NULC])) p)"

text \<open>The string a \<^verbatim>\<open>char*\<close> points to.\<close>

definition cstring :: "string \<Rightarrow> nat \<Rightarrow> string" where
  "cstring buf q = takeWhile (\<lambda>c. c \<noteq> NULC) (drop q buf)"

definition words_of :: "span cmd \<times> string \<Rightarrow> string cmd" where
  "words_of r = (case r of (c, buf) \<Rightarrow> map_cmd (\<lambda>w. cstring buf (fst w)) c)"

subsection \<open>The tokens of a line\<close>

lemma gettoken_progress: "gettoken b p = (t, w, p') \<Longrightarrow> t \<noteq> NULC \<Longrightarrow> length b - p' < length b - p"
  using gettoken_bounds(1,4) [of b p t "fst w" "snd w" p'] by (cases w) auto

function toks :: "string \<Rightarrow> nat \<Rightarrow> (char \<times> span) list" where
  "toks b p = (case gettoken b p of (t, w, p') \<Rightarrow> if t = NULC then [] else (t, w) # toks b p')"
  by pat_completeness auto
termination
  by (relation "measure (\<lambda>(b, p). length b - p)") (auto intro: gettoken_progress [OF sym])

declare toks.simps [simp del]

lemma toks_skip [simp]: "toks b (skip_space b p) = toks b p"
  by (subst (1 2) toks.simps) simp

lemma toks_next: "gettoken b p = (t, w, p') \<Longrightarrow> toks b p = (if t = NULC then [] else (t, w) # toks b p')"
  by (subst toks.simps) simp

text \<open>\<^verbatim>\<open>peek\<close> sees the first character of the next token.\<close>

definition raw :: "char \<Rightarrow> char" where
  "raw t = (if t = CHR ''+'' then CHR ''>'' else t)"

definition starts :: "('a \<Rightarrow> char) \<Rightarrow> 'a list \<Rightarrow> string \<Rightarrow> bool" where
  "starts f ts cs \<longleftrightarrow> ts \<noteq> [] \<and> raw (f (hd ts)) \<in> set cs"

lemma peek_toks:
  assumes "set cs \<subseteq> set symbols"
  shows "peek b p cs = (starts fst (toks b p) cs, skip_space b p)"
proof -
  let ?q = "skip_space b p" and ?c = "char_at b (skip_space b p)"
  obtain t w p' where g: "gettoken b p = (t, w, p')" by (metis prod.exhaust)
  have r: "(?c \<noteq> NULC \<and> ?c \<in> set cs) = (t \<noteq> NULC \<and> raw t \<in> set cs)"
  proof (cases "?c = NULC \<or> ?c \<in> set symbols")
    case True
    then show ?thesis using g by (auto simp: gettoken_def Let_def raw_def NULC_def symbols_def split: if_splits)
  next
    case False
    then have "t = CHR ''a''" using g by (auto simp: gettoken_def Let_def symbols_def split: if_splits)
    then show ?thesis using False assms by (auto simp: raw_def symbols_def)
  qed
  then show ?thesis by (auto simp: peek_def Let_def starts_def toks_next [OF g])
qed

lemma symbols_sub [simp]:
  "set ''<>'' \<subseteq> set symbols" "set ''|)&;'' \<subseteq> set symbols" "set ''('' \<subseteq> set symbols" "set '')'' \<subseteq> set symbols"
  "set ''|'' \<subseteq> set symbols" "set ''&'' \<subseteq> set symbols" "set '';'' \<subseteq> set symbols" "set '''' \<subseteq> set symbols"
  by (auto simp: symbols_def)

lemma symbols_in [simp]:
  "CHR ''<'' \<in> set symbols" "CHR ''>'' \<in> set symbols" "CHR ''|'' \<in> set symbols" "CHR '')'' \<in> set symbols"
  "CHR ''('' \<in> set symbols" "CHR ''&'' \<in> set symbols" "CHR '';'' \<in> set symbols"
  by (simp_all add: symbols_def)

text \<open>A word is a maximal run of word characters.\<close>

definition is_word_char :: "char \<Rightarrow> bool" where
  "is_word_char c \<longleftrightarrow> c \<notin> set whitespace \<and> c \<notin> set symbols"

definition word_span :: "string \<Rightarrow> span \<Rightarrow> bool" where
  "word_span b w \<longleftrightarrow> fst w < snd w \<and> snd w \<le> length b \<and> (\<forall>i. fst w \<le> i \<and> i < snd w \<longrightarrow> is_word_char (b ! i)) \<and>
     (snd w < length b \<longrightarrow> \<not> is_word_char (b ! snd w))"

lemma skip_word_span:
  "(\<forall>i. s \<le> i \<and> i < skip_word b s \<longrightarrow> is_word_char (b ! i)) \<and> (skip_word b s < length b \<longrightarrow> \<not> is_word_char (b ! skip_word b s))"
proof (induction b s rule: skip_word.induct)
  case (1 b s)
  show ?case
  proof (cases "s < length b \<and> is_word_char (b ! s)")
    case True
    then have e: "skip_word b s = skip_word b (Suc s)" by (subst skip_word.simps) (simp add: is_word_char_def)
    show ?thesis using 1 True unfolding e
      by (metis Suc_leI is_word_char_def le_neq_implies_less)
  next
    case False
    then have "skip_word b s = s" by (subst skip_word.simps) (auto simp: is_word_char_def)
    then show ?thesis using False by auto
  qed
qed

lemma gettoken_word:
  assumes "gettoken b p = (CHR ''a'', w, p')"
  shows "word_span b w"
proof -
  obtain q e where w: "w = (q, e)" by (cases w)
  have "e = skip_word b q" using assms by (auto simp: gettoken_def Let_def w NULC_def split: if_splits)
  moreover have "q < length b \<and> q < e" using gettoken_bounds(4) [OF assms [unfolded w]] by (simp add: NULC_def)
  ultimately show ?thesis using skip_word_span [of q b] skip_word_bounds [of q b] by (simp add: word_span_def w)
qed

subsection \<open>The parser is total\<close>

text \<open>\<open>sound b p Q r\<close>: the call at \<open>p\<close> had enough fuel, and when it succeeded it did not go back in the line and its
  result satisfies \<open>Q\<close>.\<close>

definition ntoks :: "string \<Rightarrow> nat \<Rightarrow> nat" where
  "ntoks b p = length (toks b p)"

definition sound :: "string \<Rightarrow> nat \<Rightarrow> ('a \<Rightarrow> bool) \<Rightarrow> 'a parsed \<Rightarrow> bool" where
  "sound b p Q r \<longleftrightarrow> r \<noteq> OutOfFuel \<and> (\<forall>x p'. r = Parsed x p' \<longrightarrow> ntoks b p' \<le> ntoks b p \<and> Q x)"

lemma sound_simps [simp]: "sound b p Q (Panicked m)" "sound b p Q (Parsed x p') \<longleftrightarrow> ntoks b p' \<le> ntoks b p \<and> Q x"
  by (auto simp: sound_def)

lemma sound_andthen:
  assumes "sound b p Q r" and "\<And>x p'. Q x \<Longrightarrow> ntoks b p' \<le> ntoks b p \<Longrightarrow> sound b p R (f x p')"
  shows "sound b p R (andthen r f)"
  using assms by (cases r) (auto simp: sound_def)

lemma sound_mono: "sound b p' Q r \<Longrightarrow> ntoks b p' \<le> ntoks b p \<Longrightarrow> (\<And>x. Q x \<Longrightarrow> R x) \<Longrightarrow> sound b p R r"
  by (auto simp: sound_def)

lemma ntoks_gettoken: "gettoken b p = (t, w, p') \<Longrightarrow> t \<noteq> NULC \<Longrightarrow> ntoks b p = Suc (ntoks b p')"
  by (simp add: ntoks_def toks_next)

lemma ntoks_skip [simp]: "ntoks b (skip_space b p) = ntoks b p"
  by (simp add: ntoks_def)

lemma ntoks_length: "ntoks b p \<le> length b - p"
proof (induction b p rule: toks.induct)
  case (1 b p)
  obtain t w p' where g: "gettoken b p = (t, w, p')" by (metis prod.exhaust)
  show ?case
  proof (cases "t = NULC")
    case True
    then show ?thesis using toks_next [OF g] by (simp add: ntoks_def)
  next
    case False
    have "ntoks b p' \<le> length b - p'" using 1 g False by fastforce
    then show ?thesis using ntoks_gettoken [OF g False] gettoken_progress [OF g False] by linarith
  qed
qed

text \<open>After \<^verbatim>\<open>peek\<close> has seen a token, \<^verbatim>\<open>gettoken\<close> takes it.\<close>

lemma peek_gettoken:
  assumes "peek b p cs = (True, p1)" and "set cs \<subseteq> set symbols"
  obtains t w p2 where "gettoken b p1 = (t, w, p2)" and "toks b p = (t, w) # toks b p2" and "raw t \<in> set cs"
    and "Suc (ntoks b p2) = ntoks b p" and "p < length b"
proof -
  have p1: "p1 = skip_space b p" and s: "starts fst (toks b p) cs" using assms peek_toks [OF assms(2), of b p] by auto
  obtain t w p2 where g: "gettoken b p1 = (t, w, p2)" by (metis prod.exhaust)
  have t: "t \<noteq> NULC" using peek_bounds [OF assms(1)] g by simp
  have "toks b p = (t, w) # toks b p2" using toks_next [OF g] t by (simp add: p1)
  moreover from this s have "raw t \<in> set cs" by (simp add: starts_def)
  ultimately show thesis using that [OF g] peek_progress [OF assms(1) g] by (simp add: ntoks_def)
qed

lemma peek_no: "peek b p cs = (r, p1) \<Longrightarrow> p1 = skip_space b p"
  by (simp add: peek_def Let_def)

definition redir_ok :: "'w redir \<Rightarrow> bool" where
  "redir_ok r \<longleftrightarrow> snd r \<in> {(O_READ, 0), (O_WRITE_NEW, 1), (O_WRITE_OLD, 1)}"

primrec modes_ok :: "'w cmd \<Rightarrow> bool" where
  "modes_ok (EXEC ws) = True"
| "modes_ok (REDIR c w m f) = (redir_ok (w, m, f) \<and> modes_ok c)"
| "modes_ok (PIPE c d) = (modes_ok c \<and> modes_ok d)"
| "modes_ok (LIST c d) = (modes_ok c \<and> modes_ok d)"
| "modes_ok (BACK c) = modes_ok c"

definition redirs_ok :: "string \<Rightarrow> span redir list \<Rightarrow> bool" where
  "redirs_ok b rs \<longleftrightarrow> (\<forall>r \<in> set rs. word_span b (fst r) \<and> redir_ok r)"

lemma redir_of_ok [simp]: "fst (redir_of t w) = w" "redir_ok (redir_of t w)"
  by (simp_all add: redir_of_def redir_ok_def)

lemma parseredirs_sound: "redirs_ok b rs \<Longrightarrow> sound b p (redirs_ok b) (parseredirs b rs p)"
proof (induction b rs p rule: parseredirs.induct)
  case (1 b rs ps)
  obtain r p where pk: "peek b ps ''<>'' = (r, p)" by (cases "peek b ps ''<>''")
  show ?case
  proof (cases r)
    case False
    then show ?thesis using "1.prems" peek_no [OF pk] by (subst parseredirs.simps) (simp add: pk)
  next
    case True
    with pk have pk': "peek b ps ''<>'' = (True, p)" by simp
    obtain tok w p1 where g1: "gettoken b p = (tok, w, p1)" and n1: "Suc (ntoks b p1) = ntoks b ps"
      by (rule peek_gettoken [OF pk']) simp_all
    obtain tok2 w2 p2 where g2: "gettoken b p1 = (tok2, w2, p2)" by (metis prod.exhaust)
    show ?thesis
    proof (cases "tok2 = CHR ''a''")
      case a: True
      have "ntoks b p2 \<le> ntoks b ps" using ntoks_gettoken [OF g2] a n1 by (simp add: NULC_def)
      moreover have "redirs_ok b (rs @ [redir_of tok w2])"
        using "1.prems" gettoken_word [OF g2 [unfolded a]] by (auto simp: redirs_ok_def)
      ultimately have "sound b ps (redirs_ok b) (parseredirs b (rs @ [redir_of tok w2]) p2)"
        using "1.IH" [OF pk [symmetric] _ g1 [symmetric] refl g2 [symmetric] refl] True a sound_mono by fastforce
      then show ?thesis by (subst parseredirs.simps) (simp add: pk True g1 g2 a)
    qed (subst parseredirs.simps, simp add: pk True g1 g2)
  qed
qed

definition args_ok :: "string \<Rightarrow> span list \<times> span redir list \<Rightarrow> bool" where
  "args_ok b x \<longleftrightarrow> length (fst x) < MAXARGS \<and> (\<forall>w \<in> set (fst x). word_span b w) \<and> redirs_ok b (snd x)"

lemma parseexec_loop_sound:
  "args_ok b (argv, rs) \<Longrightarrow> sound b p (args_ok b) (parseexec_loop b argv rs p)"
proof (induction b argv rs p rule: parseexec_loop.induct)
  case (1 b argv rs ps)
  obtain r p where pk: "peek b ps ''|)&;'' = (r, p)" by (cases "peek b ps ''|)&;''")
  obtain tok w p1 where g: "gettoken b p = (tok, w, p1)" by (metis prod.exhaust)
  note p = peek_no [OF pk]
  show ?case
  proof (cases "\<not> r \<and> tok = CHR ''a'' \<and> \<not> length argv + 1 \<ge> MAXARGS")
    case False
    have "ntoks b p1 \<le> ntoks b ps" if "tok = NULC" using toks_next [OF g] that g p
      by (auto simp: ntoks_def gettoken_def Let_def NULC_def split: if_splits)
    moreover have "gettoken b ps = (tok, w, p1)" using g by (simp add: p)
    ultimately show ?thesis using False "1.prems" by (subst parseexec_loop.simps) (auto simp: pk p NULC_def)
  next
    case True
    have n: "ntoks b p1 \<le> ntoks b ps" using ntoks_gettoken [OF g] True p by (simp add: NULC_def)
    have s: "sound b p1 (redirs_ok b) (parseredirs b rs p1)"
      using "1.prems" by (intro parseredirs_sound) (simp add: args_ok_def)
    have nn: "tok \<noteq> NULC" using True by (simp add: NULC_def)
    show ?thesis
    proof (cases "parseredirs b rs p1")
      case (Parsed rs' p2)
      with s have "redirs_ok b rs'" "ntoks b p2 \<le> ntoks b p1" by auto
      moreover have "word_span b w" using gettoken_word g True by auto
      ultimately have "args_ok b (argv @ [w], rs')" using "1.prems" True by (auto simp: args_ok_def)
      then have "sound b p2 (args_ok b) (parseexec_loop b (argv @ [w]) rs' p2)"
        using "1.IH" [OF pk [symmetric] _ g [symmetric] refl nn] True Parsed by simp
      then have "sound b ps (args_ok b) (parseexec_loop b (argv @ [w]) rs' p2)"
        using sound_mono \<open>ntoks b p2 \<le> ntoks b p1\<close> n by (meson le_trans)
      then show ?thesis using True nn by (subst parseexec_loop.simps) (simp add: pk g Parsed)
    qed (use s True nn in \<open>subst parseexec_loop.simps, simp add: pk g sound_def\<close>)+
  qed
qed

fun fits :: "'w cmd \<Rightarrow> bool" where
  "fits (EXEC argv) = (length argv < MAXARGS)"
| "fits (REDIR c w m f) = fits c"
| "fits (PIPE l r) = (fits l \<and> fits r)"
| "fits (LIST l r) = (fits l \<and> fits r)"
| "fits (BACK c) = fits c"

definition cmd_ok :: "string \<Rightarrow> span cmd \<Rightarrow> bool" where
  "cmd_ok b c \<longleftrightarrow> fits c \<and> modes_ok c \<and> (\<forall>w \<in> set_cmd c. word_span b w)"

lemma cmd_ok_wrap: "redirs_ok b rs \<Longrightarrow> cmd_ok b c \<Longrightarrow> cmd_ok b (wrap c rs)"
  by (induction c rs rule: wrap.induct) (auto simp: redirs_ok_def cmd_ok_def)

lemma cmd_ok_simps [simp]:
  "cmd_ok b (EXEC argv) \<longleftrightarrow> length argv < MAXARGS \<and> (\<forall>w \<in> set argv. word_span b w)"
  "cmd_ok b (PIPE l r) \<longleftrightarrow> cmd_ok b l \<and> cmd_ok b r" "cmd_ok b (LIST l r) \<longleftrightarrow> cmd_ok b l \<and> cmd_ok b r"
  "cmd_ok b (BACK c) \<longleftrightarrow> cmd_ok b c"
  by (auto simp: cmd_ok_def)

lemma args_ok_wrap: "args_ok b (argv, rs) \<Longrightarrow> cmd_ok b (wrap (EXEC argv) rs)"
  by (intro cmd_ok_wrap) (simp_all add: args_ok_def)

text \<open>Every function of the parser is sound when the call of \<^verbatim>\<open>parseline\<close> inside parentheses is.\<close>

definition line_sound :: "string \<Rightarrow> nat \<Rightarrow> (nat \<Rightarrow> span cmd parsed) \<Rightarrow> bool" where
  "line_sound b n line \<longleftrightarrow> (\<forall>p. ntoks b p < n \<longrightarrow> sound b p (cmd_ok b) (line p))"

lemma sound_peek_gettoken:
  assumes "\<And>p2. Suc (ntoks b p2) = ntoks b p \<Longrightarrow> sound b p Q (f p2)" and "sound b p Q (g (skip_space b p))" and "set cs \<subseteq> set symbols"
  shows "sound b p Q (case peek b p cs of (r, p1) \<Rightarrow> if \<not> r then g p1 else case gettoken b p1 of (_, _, p2) \<Rightarrow> f p2)"
proof (cases "peek b p cs")
  case (Pair r p1)
  show ?thesis
  proof (cases r)
    case False
    then show ?thesis using assms(2) peek_no [OF Pair] by (simp add: Pair)
  next
    case True
    with Pair have pk: "peek b p cs = (True, p1)" by simp
    obtain t w p2 where "gettoken b p1 = (t, w, p2)" "Suc (ntoks b p2) = ntoks b p"
      by (rule peek_gettoken [OF pk assms(3)])
    then show ?thesis using assms(1) by (simp add: pk)
  qed
qed

lemma parseblock_sound:
  assumes "line_sound b (ntoks b p) line"
  shows "sound b p (cmd_ok b) (parseblock line b p)"
  unfolding parseblock_def
proof (rule sound_peek_gettoken)
  fix p2 assume n: "Suc (ntoks b p2) = ntoks b p"
  have "sound b p2 (cmd_ok b) (line p2)" using assms n by (simp add: line_sound_def)
  then show "sound b p (cmd_ok b) (andthen (line p2) (\<lambda>c p.
      case peek b p '')'' of (r, p) \<Rightarrow> if \<not> r then Panicked ''syntax - missing )''
        else case gettoken b p of (_, _, p) \<Rightarrow> andthen (parseredirs b [] p) (\<lambda>rs p. Parsed (wrap c rs) p)))"
  proof (rule sound_andthen [OF sound_mono])
    fix c p3 assume c: "cmd_ok b c" and n3: "ntoks b p3 \<le> ntoks b p"
    have "sound b p3 (cmd_ok b) (case peek b p3 '')'' of (r, p) \<Rightarrow> if \<not> r then Panicked ''syntax - missing )''
        else case gettoken b p of (_, _, p) \<Rightarrow> andthen (parseredirs b [] p) (\<lambda>rs p. Parsed (wrap c rs) p))"
    proof (rule sound_peek_gettoken)
      fix p4 assume n4: "Suc (ntoks b p4) = ntoks b p3"
      have "sound b p4 (redirs_ok b) (parseredirs b [] p4)" by (rule parseredirs_sound) (simp add: redirs_ok_def)
      then show "sound b p3 (cmd_ok b) (andthen (parseredirs b [] p4) (\<lambda>rs p. Parsed (wrap c rs) p))"
        by (rule sound_andthen [OF sound_mono]) (use n4 c in \<open>simp_all add: cmd_ok_wrap\<close>)
    qed simp_all
    then show "sound b p (cmd_ok b) (case peek b p3 '')'' of (r, p) \<Rightarrow> if \<not> r then Panicked ''syntax - missing )''
        else case gettoken b p of (_, _, p) \<Rightarrow> andthen (parseredirs b [] p) (\<lambda>rs p. Parsed (wrap c rs) p))"
      using n3 sound_mono by blast
  qed (use n in simp_all)
qed simp_all

lemma parseexec_sound:
  assumes "line_sound b (ntoks b p) line"
  shows "sound b p (cmd_ok b) (parseexec line b p)"
proof -
  obtain r p1 where pk: "peek b p ''('' = (r, p1)" by (cases "peek b p ''(''")
  have p1: "p1 = skip_space b p" by (rule peek_no [OF pk])
  have a: "sound b p (redirs_ok b) (parseredirs b [] p1)"
    using sound_mono [OF parseredirs_sound [of b "[]" p1]] by (simp add: redirs_ok_def p1)
  have "sound b p (cmd_ok b) (andthen (parseredirs b [] p1) (\<lambda>rs p.
                 andthen (parseexec_loop b [] rs p) (\<lambda>(argv, rs) p. Parsed (wrap (EXEC argv) rs) p)))"
  proof (rule sound_andthen [OF a])
    fix rs p2 assume "redirs_ok b rs" and n: "ntoks b p2 \<le> ntoks b p"
    then have "sound b p2 (args_ok b) (parseexec_loop b [] rs p2)"
      by (intro parseexec_loop_sound) (simp add: args_ok_def MAXARGS_def)
    then have "sound b p (args_ok b) (parseexec_loop b [] rs p2)" using n by (rule sound_mono)
    then show "sound b p (cmd_ok b) (andthen (parseexec_loop b [] rs p2) (\<lambda>(argv, rs) p. Parsed (wrap (EXEC argv) rs) p))"
    proof (rule sound_andthen)
      fix x p' assume "args_ok b x" and "ntoks b p' \<le> ntoks b p"
      then show "sound b p (cmd_ok b) ((\<lambda>(argv, rs) p. Parsed (wrap (EXEC argv) rs) p) x p')"
        by (cases x) (simp add: args_ok_wrap)
    qed
  qed
  moreover have "sound b p (cmd_ok b) (parseblock line b p1)"
  proof (rule sound_mono)
    show "sound b p1 (cmd_ok b) (parseblock line b p1)" by (rule parseblock_sound) (simp add: p1 assms)
  qed (simp_all add: p1)
  ultimately show ?thesis by (simp add: parseexec_def pk)
qed

lemma parsepipe_sound: "line_sound b k line \<Longrightarrow> ntoks b p \<le> k \<Longrightarrow> ntoks b p < j \<Longrightarrow> sound b p (cmd_ok b) (parsepipe j line b p)"
proof (induction j arbitrary: p)
  case (Suc j)
  have "line_sound b (ntoks b p) line" using Suc.prems by (auto simp: line_sound_def)
  from parseexec_sound [OF this] show ?case unfolding parsepipe.simps
  proof (rule sound_andthen)
    fix c p1 assume c: "cmd_ok b c" and n: "ntoks b p1 \<le> ntoks b p"
    have "sound b p1 (cmd_ok b) (case peek b p1 ''|'' of (r, p) \<Rightarrow> if \<not> r then Parsed c p
        else case gettoken b p of (_, _, p) \<Rightarrow> andthen (parsepipe j line b p) (\<lambda>d p. Parsed (PIPE c d) p))"
    proof (rule sound_peek_gettoken)
      fix p2 assume n2: "Suc (ntoks b p2) = ntoks b p1"
      have "sound b p2 (cmd_ok b) (parsepipe j line b p2)" using Suc.prems n n2 by (intro Suc.IH) simp_all
      then show "sound b p1 (cmd_ok b) (andthen (parsepipe j line b p2) (\<lambda>d p. Parsed (PIPE c d) p))"
        by (rule sound_andthen [OF sound_mono]) (use n2 c in simp_all)
    qed (simp_all add: c)
    then show "sound b p (cmd_ok b) (case peek b p1 ''|'' of (r, p) \<Rightarrow> if \<not> r then Parsed c p
        else case gettoken b p of (_, _, p) \<Rightarrow> andthen (parsepipe j line b p) (\<lambda>d p. Parsed (PIPE c d) p))"
      using n sound_mono by blast
  qed
qed simp

lemma parsebacks_sound: "parsebacks b c p = (c', p') \<Longrightarrow> cmd_ok b c \<Longrightarrow> cmd_ok b c' \<and> ntoks b p' \<le> ntoks b p"
proof (induction b c p rule: parsebacks.induct)
  case (1 b c ps)
  obtain r p where pk: "peek b ps ''&'' = (r, p)" by (cases "peek b ps ''&''")
  show ?case
  proof (cases r)
    case False
    then show ?thesis using "1.prems" peek_no [OF pk] by (subst (asm) parsebacks.simps) (auto simp: pk)
  next
    case True
    with pk have pk': "peek b ps ''&'' = (True, p)" by simp
    obtain t w p2 where g: "gettoken b p = (t, w, p2)" and n: "Suc (ntoks b p2) = ntoks b ps"
      by (rule peek_gettoken [OF pk']) simp_all
    have "parsebacks b (BACK c) p2 = (c', p')"
      using "1.prems"(1) by (subst (asm) parsebacks.simps) (simp add: pk' g)
    then show ?thesis using "1.IH" [OF pk [symmetric] _ g [symmetric] refl] True "1.prems"(2) n by auto
  qed
qed

lemma parseline_sound: "ntoks b p < k \<Longrightarrow> sound b p (cmd_ok b) (parseline k b p)"
proof (induction k arbitrary: p)
  case (Suc k)
  have "line_sound b k (parseline k b)" using Suc.IH by (simp add: line_sound_def)
  from parsepipe_sound [OF this, of p "Suc k"] Suc.prems
  have "sound b p (cmd_ok b) (parsepipe (Suc k) (parseline k b) b p)" by simp
  then show ?case unfolding parseline.simps
  proof (rule sound_andthen)
    fix c p1 assume c: "cmd_ok b c" and n: "ntoks b p1 \<le> ntoks b p"
    obtain c2 p2 where b: "parsebacks b c p1 = (c2, p2)" by (cases "parsebacks b c p1")
    have c2: "cmd_ok b c2" "ntoks b p2 \<le> ntoks b p1" using parsebacks_sound [OF b c] by simp_all
    have "sound b p2 (cmd_ok b) (case peek b p2 '';'' of (r, p) \<Rightarrow> if \<not> r then Parsed c2 p
        else case gettoken b p of (_, _, p) \<Rightarrow> andthen (parseline k b p) (\<lambda>d p. Parsed (LIST c2 d) p))"
    proof (rule sound_peek_gettoken)
      fix p3 assume n3: "Suc (ntoks b p3) = ntoks b p2"
      have "sound b p3 (cmd_ok b) (parseline k b p3)" using Suc.prems n n3 c2 by (intro Suc.IH) simp
      then show "sound b p2 (cmd_ok b) (andthen (parseline k b p3) (\<lambda>d p. Parsed (LIST c2 d) p))"
        by (rule sound_andthen [OF sound_mono]) (use n3 c2 in simp_all)
    qed (simp_all add: c2)
    then have "sound b p (cmd_ok b) (case peek b p2 '';'' of (r, p) \<Rightarrow> if \<not> r then Parsed c2 p
        else case gettoken b p of (_, _, p) \<Rightarrow> andthen (parseline k b p) (\<lambda>d p. Parsed (LIST c2 d) p))"
      by (rule sound_mono) (use n c2 in simp_all)
    then show "sound b p (cmd_ok b) (case parsebacks b c p1 of (c, p) \<Rightarrow> (case peek b p '';'' of (r, p) \<Rightarrow> if \<not> r then Parsed c p
        else case gettoken b p of (_, _, p) \<Rightarrow> andthen (parseline k b p) (\<lambda>d p. Parsed (LIST c d) p)))"
      by (simp add: b)
  qed
qed simp

subsection \<open>The words of the result\<close>

lemma nulterminate_length [simp]: "length (nulterminate c buf) = length buf"
proof (induction c arbitrary: buf)
  case (EXEC argv)
  show ?case by (simp add: nul_word_def) (induction argv arbitrary: buf, simp_all add: nul_word_def)
qed (simp_all add: nul_word_def)

lemma fold_nul_word_nth:
  "i < length buf \<Longrightarrow> fold nul_word ws buf ! i = (if i \<in> snd ` set ws then NULC else buf ! i)"
  by (induction ws arbitrary: buf) (auto simp: nul_word_def nth_list_update)

lemma nulterminate_nth:
  "i < length buf \<Longrightarrow> nulterminate c buf ! i = (if i \<in> snd ` set_cmd c then NULC else buf ! i)"
proof (induction c arbitrary: buf)
  case (EXEC argv)
  then show ?case by (simp add: fold_nul_word_nth)
next
  case (REDIR c w m f)
  then show ?case by (cases "snd w = i") (auto simp: nul_word_def)
qed auto

lemma word_char_not_nul: "NULC \<notin> set b \<Longrightarrow> i < length b \<Longrightarrow> b ! i \<noteq> NULC"
  by (metis nth_mem)

text \<open>The character behind a word is overwritten, and the words themselves are not: they consist of word characters.\<close>

lemma cstring_word:
  assumes ok: "cmd_ok b c" and nul: "NULC \<notin> set b" and w: "w \<in> set_cmd c"
  shows "cstring (nulterminate c (b @ [NULC])) (fst w) = take (snd w - fst w) (drop (fst w) b)"
proof -
  let ?buf = "nulterminate c (b @ [NULC])" and ?q = "fst w" and ?e = "snd w"
  have ws: "word_span b v" if "v \<in> set_cmd c" for v using ok that by (simp add: cmd_ok_def)
  have qe: "?q < ?e" "?e \<le> length b" using ws [OF w] by (simp_all add: word_span_def)
  have in_word: "?buf ! i = b ! i \<and> b ! i \<noteq> NULC" if i: "?q \<le> i" "i < ?e" for i
  proof -
    have c: "is_word_char (b ! i)" using ws [OF w] i by (simp add: word_span_def)
    have "i \<noteq> snd v" if "v \<in> set_cmd c" for v
      using ws [OF that] c i qe by (auto simp: word_span_def)
    then have "i \<notin> snd ` set_cmd c" by auto
    then show ?thesis using nulterminate_nth [of i "b @ [NULC]" c] i qe word_char_not_nul [OF nul] by (simp add: nth_append)
  qed
  have at_e: "?buf ! ?e = NULC" using nulterminate_nth [of ?e "b @ [NULC]" c] qe w by auto
  have d: "drop ?q ?buf = take (?e - ?q) (drop ?q ?buf) @ NULC # drop (Suc ?e) ?buf"
  proof -
    have "?e < length ?buf" using qe by simp
    then have "drop ?e ?buf = NULC # drop (Suc ?e) ?buf" using at_e by (metis Cons_nth_drop_Suc)
    then show ?thesis using append_take_drop_id [of "?e - ?q" "drop ?q ?buf"] qe by simp
  qed
  have t: "take (?e - ?q) (drop ?q ?buf) = take (?e - ?q) (drop ?q b)"
    by (rule nth_equalityI) (use qe in_word in auto)
  have "\<forall>x \<in> set (take (?e - ?q) (drop ?q b)). x \<noteq> NULC"
    using nul by (metis in_set_dropD in_set_takeD)
  then show ?thesis unfolding cstring_def by (subst d) (simp add: t takeWhile_append2)
qed

text \<open>C13. The parser of the shell, on every line: it returns, or stops with one of its syntax errors; the fuel of the model
  is always enough. When it succeeds the whole line has been read, every command has fewer than \<^verbatim>\<open>MAXARGS\<close> words, so the
  final null pointer of \<^verbatim>\<open>argv\<close> fits; every word points to a non-empty run of word characters of the line and is
  terminated inside the buffer, and as a C string it is that run: no word is cut by the terminator of another.\<close>

theorem parsecmd_safe:
  assumes "NULC \<notin> set b"
  shows "parsecmd b \<noteq> OutOfFuel \<and>
    (\<forall>c buf p. parsecmd b = Parsed (c, buf) p \<longrightarrow>
       p = length b \<and> fits c \<and> modes_ok c \<and> length buf = length b + 1 \<and>
       (\<forall>q e. (q, e) \<in> set_cmd c \<longrightarrow>
          q < e \<and> e < length buf \<and> (\<forall>i. q \<le> i \<and> i < e \<longrightarrow> is_word_char (b ! i)) \<and>
          cstring buf q = take (e - q) (drop q b)))"
proof -
  have "ntoks b 0 < Suc (length b)" using ntoks_length [of b 0] by simp
  note s = parseline_sound [OF this]
  show ?thesis
  proof (cases "parseline (Suc (length b)) b 0")
    case (Parsed c p)
    with s have ok: "cmd_ok b c" by simp
    obtain r p1 where pk: "peek b p '''' = (r, p1)" by (cases "peek b p ''''")
    have "parsecmd b = (if p1 \<noteq> length b then Panicked ''syntax'' else Parsed (c, nulterminate c (b @ [NULC])) p1)"
      by (simp add: parsecmd_def Parsed pk del: parseline.simps)
    moreover have "q < e \<and> e < Suc (length b) \<and> (\<forall>i. q \<le> i \<and> i < e \<longrightarrow> is_word_char (b ! i)) \<and>
       cstring (nulterminate c (b @ [NULC])) q = take (e - q) (drop q b)" if "(q, e) \<in> set_cmd c" for q e
      using ok that cstring_word [OF ok assms that] by (auto simp: cmd_ok_def word_span_def)
    moreover have "fits c" "modes_ok c" using ok by (simp_all add: cmd_ok_def)
    ultimately show ?thesis by (auto split: if_splits)
  qed (use s in \<open>simp_all add: parsecmd_def sound_def del: parseline.simps\<close>)
qed

lemma parsecmd_modes:
  assumes "parsecmd b = Parsed (c, buf) p"
  shows "modes_ok c"
proof -
  obtain q where "parseline (Suc (length b)) b 0 = Parsed c q"
    using assms by (cases "parseline (Suc (length b)) b 0") (auto simp: parsecmd_def split: prod.splits if_splits simp del: parseline.simps)
  moreover have "ntoks b 0 < Suc (length b)" using ntoks_length [of b 0] by simp
  ultimately show ?thesis using parseline_sound [of b 0 "Suc (length b)"] by (simp add: cmd_ok_def del: parseline.simps)
qed

subsection \<open>Printing and parsing\<close>

text \<open>The token sequence of a line, with the text of the words; and the token sequence of a command, parenthesised where
  the grammar needs it. Level 0 is \<^verbatim>\<open>parseexec\<close>, 1 is \<^verbatim>\<open>parsepipe\<close>, 2 the background marks of
  \<^verbatim>\<open>parseline\<close>, and 3 the whole of \<^verbatim>\<open>parseline\<close>.\<close>

definition slice :: "string \<Rightarrow> span \<Rightarrow> string" where
  "slice b w = take (snd w - fst w) (drop (fst w) b)"

definition tx :: "string \<Rightarrow> nat \<Rightarrow> (char \<times> string) list" where
  "tx b p = map (\<lambda>(t, w). (t, if t = CHR ''a'' then slice b w else [])) (toks b p)"

definition tsym :: "char \<Rightarrow> char \<times> string" where
  "tsym c = (c, [])"

definition rtoks :: "string redir \<Rightarrow> (char \<times> string) list" where
  "rtoks r = (case r of (w, m, f) \<Rightarrow>
     [tsym (if m = O_READ then CHR ''<'' else if m = O_WRITE_NEW then CHR ''>'' else CHR ''+''), (CHR ''a'', w)])"

definition par :: "bool \<Rightarrow> (char \<times> string) list \<Rightarrow> (char \<times> string) list" where
  "par x ts = (if x then [tsym CHR ''(''] @ ts @ [tsym CHR '')''] else ts)"

primrec up :: "string cmd \<Rightarrow> nat \<Rightarrow> (char \<times> string) list" where
  "up (EXEC ws) l = map (\<lambda>w. (CHR ''a'', w)) ws"
| "up (REDIR c w m f) l = up c 0 @ rtoks (w, m, f)"
| "up (PIPE c d) l = par (l < 1) (up c 0 @ [tsym CHR ''|''] @ up d 1)"
| "up (LIST c d) l = par (l < 3) (up c 2 @ [tsym CHR '';''] @ up d 3)"
| "up (BACK c) l = par (l < 2) (up c 2 @ [tsym CHR ''&''])"

lemma length_tx: "length (tx b p) = ntoks b p"
  by (simp add: tx_def ntoks_def)

lemma tx_skip [simp]: "tx b (skip_space b p) = tx b p"
  by (simp add: tx_def)

lemma tx_Cons:
  assumes "tx b p = (t, s) # ts"
  obtains w p' where "gettoken b p = (t, w, p')" and "t \<noteq> NULC" and "tx b p' = ts" and "t = CHR ''a'' \<Longrightarrow> slice b w = s"
proof -
  obtain t' w p' where g: "gettoken b p = (t', w, p')" by (metis prod.exhaust)
  have "t' \<noteq> NULC" using assms toks_next [OF g] by (auto simp: tx_def split: if_splits)
  with assms toks_next [OF g] have "(t, s) # ts = (t', if t' = CHR ''a'' then slice b w else []) # tx b p'" by (auto simp: tx_def)
  then show thesis using that [of w p'] g \<open>t' \<noteq> NULC\<close> by auto
qed

lemma tx_Nil:
  assumes "tx b p = []"
  obtains w p' where "gettoken b p = (NULC, w, p')" and "tx b p' = []"
proof -
  obtain t w p' where g: "gettoken b p = (t, w, p')" by (metis prod.exhaust)
  have t: "t = NULC" using assms toks_next [OF g] by (auto simp: tx_def split: if_splits)
  then have "w = (skip_space b p, skip_space b p) \<and> p' = skip_space b p"
    using g by (auto simp: gettoken_def Let_def NULC_def split: if_splits)
  then have "tx b p' = []" using assms by simp
  then show thesis using that g t by simp
qed

lemma peek_tx: "set cs \<subseteq> set symbols \<Longrightarrow> peek b p cs = (starts fst (tx b p) cs, skip_space b p)"
  by (subst peek_toks) (cases "toks b p"; auto simp: starts_def tx_def split: prod.splits)+

lemma starts_simps [simp]:
  "\<not> starts fst [] cs" "starts fst ((t, s) # ts) cs \<longleftrightarrow> raw t \<in> set cs" "starts fst (tsym t # ts) cs \<longleftrightarrow> raw t \<in> set cs"
  by (simp_all add: starts_def tsym_def)

definition ends :: "(char \<times> string) list \<Rightarrow> string \<Rightarrow> bool" where
  "ends rest cs \<longleftrightarrow> rest = [] \<or> starts fst rest cs"

definition mr :: "string \<Rightarrow> span redir \<Rightarrow> string redir" where
  "mr b r = (slice b (fst r), snd r)"

lemma redir_of_rtoks:
  "redir_ok (s, m, f) \<Longrightarrow> slice b w = s \<Longrightarrow>
   mr b (redir_of (if m = O_READ then CHR ''<'' else if m = O_WRITE_NEW then CHR ''>'' else CHR ''+'') w) = (s, m, f)"
  by (auto simp: redir_ok_def mr_def redir_of_def O_READ_def O_WRITE_NEW_def O_WRITE_OLD_def)

lemma parseredirs_tx:
  assumes "tx b p = concat (map rtoks rs') @ rest" and "\<not> starts fst rest ''<>''" and "\<forall>r \<in> set rs'. redir_ok r"
  shows "\<exists>r1 p'. parseredirs b rs p = Parsed (rs @ r1) p' \<and> map (mr b) r1 = rs' \<and> tx b p' = rest"
  using assms
proof (induction rs' arbitrary: rs p)
  case Nil
  then show ?case by (subst parseredirs.simps) (simp add: peek_tx)
next
  case (Cons r rs')
  obtain s m f where r: "r = (s, m, f)" by (metis prod.exhaust)
  let ?t = "if m = O_READ then CHR ''<'' else if m = O_WRITE_NEW then CHR ''>'' else CHR ''+''"
  have t: "tx b p = (?t, []) # (CHR ''a'', s) # concat (map rtoks rs') @ rest"
    using Cons.prems(1) rtoks_def [of r] by (simp add: r tsym_def)
  obtain w1 p1 where g1: "gettoken b p = (?t, w1, p1)" and t1: "tx b p1 = (CHR ''a'', s) # concat (map rtoks rs') @ rest"
    by (rule tx_Cons [OF t])
  obtain w2 p2 where g2: "gettoken b p1 = (CHR ''a'', w2, p2)" and t2: "tx b p2 = concat (map rtoks rs') @ rest"
    and s: "slice b w2 = s" by (rule tx_Cons [OF t1]) simp
  have pk: "peek b p ''<>'' = (True, skip_space b p)" by (simp add: peek_tx t raw_def)
  have "\<forall>r \<in> set rs'. redir_ok r" using Cons.prems(3) by simp
  from Cons.IH [OF t2 Cons.prems(2) this, of "rs @ [redir_of ?t w2]"]
  obtain r1 p' where "parseredirs b (rs @ [redir_of ?t w2]) p2 = Parsed ((rs @ [redir_of ?t w2]) @ r1) p'"
    "map (mr b) r1 = rs'" "tx b p' = rest" by blast
  moreover from this have "parseredirs b rs p = Parsed (rs @ redir_of ?t w2 # r1) p'"
    using g1 g2 by (subst parseredirs.simps) (simp add: pk)
  moreover have "mr b (redir_of ?t w2) = r" using redir_of_rtoks [OF _ s] Cons.prems(3) by (simp add: r)
  ultimately show ?case by (intro exI [of _ "redir_of ?t w2 # r1"] exI [of _ p']) simp
qed

lemma parseexec_loop_tx:
  assumes "tx b p = map (\<lambda>w. (CHR ''a'', w)) ws @ concat (map rtoks rs') @ rest" and "ends rest ''|)&;''"
    and "ws = [] \<longrightarrow> rs' = []" and "length argv + length ws < MAXARGS" and "\<forall>r \<in> set rs'. redir_ok r"
  shows "\<exists>a1 r1 p'. parseexec_loop b argv rs p = Parsed (argv @ a1, rs @ r1) p' \<and> map (slice b) a1 = ws \<and>
    map (mr b) r1 = rs' \<and> tx b p' = rest"
  using assms
proof (induction ws arbitrary: argv rs rs' p)
  case Nil
  show ?case
  proof (cases rest)
    case Nil
    with \<open>tx b p = _\<close> Nil.prems(3) have t: "tx b p = []" by simp
    obtain w p' where g: "gettoken b p = (NULC, w, p')" and t': "tx b p' = []" by (rule tx_Nil [OF t])
    have "parseexec_loop b argv rs p = Parsed (argv, rs) p'"
      using g by (subst parseexec_loop.simps) (simp add: peek_tx t)
    then show ?thesis using t' Nil Nil.prems(3) by simp
  next
    case (Cons r rest')
    then have "starts fst (tx b p) ''|)&;''" using Nil.prems by (simp add: ends_def)
    then have "parseexec_loop b argv rs p = Parsed (argv, rs) (skip_space b p)"
      by (subst parseexec_loop.simps) (simp add: peek_tx)
    then show ?thesis using Nil.prems by simp
  qed
next
  case (Cons s ws)
  let ?rr = "if ws = [] then rs' else []" and ?rest = "if ws = [] then rest else map (\<lambda>w. (CHR ''a'', w)) ws @ concat (map rtoks rs') @ rest"
  have t: "tx b p = (CHR ''a'', s) # concat (map rtoks ?rr) @ ?rest" using Cons.prems(1) by simp
  obtain w p1 where g: "gettoken b p = (CHR ''a'', w, p1)" and t1: "tx b p1 = concat (map rtoks ?rr) @ ?rest"
    and s: "slice b w = s" by (rule tx_Cons [OF t]) simp
  have ns: "\<not> starts fst ?rest ''<>''"
    using Cons.prems(2) by (cases ws; cases rest) (auto simp: ends_def starts_def raw_def split: if_splits)
  have "\<forall>r \<in> set ?rr. redir_ok r" using Cons.prems(5) by simp
  from parseredirs_tx [OF t1 ns this, of rs]
  obtain r1 p2 where r1: "parseredirs b rs p1 = Parsed (rs @ r1) p2" "map (mr b) r1 = ?rr" "tx b p2 = ?rest" by blast
  have len: "\<not> MAXARGS \<le> length argv + 1" using Cons.prems(4) by simp
  have step: "parseexec_loop b argv rs p = parseexec_loop b (argv @ [w]) (rs @ r1) p2"
    using g len by (subst parseexec_loop.simps) (simp add: peek_tx t raw_def r1(1) NULC_def)
  let ?rr2 = "if ws = [] then [] else rs'"
  have "tx b p2 = map (\<lambda>w. (CHR ''a'', w)) ws @ concat (map rtoks ?rr2) @ rest" using r1(3) by simp
  moreover have "ws = [] \<longrightarrow> ?rr2 = []" "length (argv @ [w]) + length ws < MAXARGS" "\<forall>r \<in> set ?rr2. redir_ok r"
    using Cons.prems by auto
  ultimately have "\<exists>a1 r2 p'. parseexec_loop b (argv @ [w]) (rs @ r1) p2 = Parsed ((argv @ [w]) @ a1, (rs @ r1) @ r2) p' \<and>
      map (slice b) a1 = ws \<and> map (mr b) r2 = ?rr2 \<and> tx b p' = rest"
    using Cons.prems(2) by (intro Cons.IH)
  then obtain a1 r2 p' where "parseexec_loop b (argv @ [w]) (rs @ r1) p2 = Parsed ((argv @ [w]) @ a1, (rs @ r1) @ r2) p'"
      "map (slice b) a1 = ws" "map (mr b) r2 = ?rr2" "tx b p' = rest" by blast
  then show ?case using step r1(2) s by (intro exI [of _ "w # a1"] exI [of _ "r1 @ r2"] exI [of _ p']) auto
qed

text \<open>What each function of the parser does with the tokens of a command of its level.\<close>

definition result :: "string \<Rightarrow> string cmd \<Rightarrow> (char \<times> string) list \<Rightarrow> span cmd parsed \<Rightarrow> bool" where
  "result b c rest r \<longleftrightarrow> (\<exists>c' p'. r = Parsed c' p' \<and> map_cmd (slice b) c' = c \<and> tx b p' = rest)"

definition at_exec :: "string \<Rightarrow> string cmd \<Rightarrow> bool" where
  "at_exec b c \<longleftrightarrow> (\<forall>k p rest. tx b p = up c 0 @ rest \<longrightarrow> ends rest ''|)&;'' \<longrightarrow> ntoks b p \<le> k \<longrightarrow>
     result b c rest (parseexec (parseline k b) b p))"

definition at_pipe :: "string \<Rightarrow> string cmd \<Rightarrow> bool" where
  "at_pipe b c \<longleftrightarrow> (\<forall>j k p rest. tx b p = up c 1 @ rest \<longrightarrow> ends rest '')&;'' \<longrightarrow> ntoks b p \<le> k \<longrightarrow> ntoks b p \<le> j \<longrightarrow>
     result b c rest (parsepipe (Suc j) (parseline k b) b p))"

definition at_back :: "string \<Rightarrow> string cmd \<Rightarrow> bool" where
  "at_back b c \<longleftrightarrow> (\<forall>k p rest. tx b p = up c 2 @ rest \<longrightarrow> ends rest '')&;'' \<longrightarrow> ntoks b p \<le> k \<longrightarrow>
     (\<exists>c0 p0 c' p'. parsepipe (Suc k) (parseline k b) b p = Parsed c0 p0 \<and> parsebacks b c0 p0 = parsebacks b c' p' \<and>
        map_cmd (slice b) c' = c \<and> tx b p' = rest))"

definition at_line :: "string \<Rightarrow> string cmd \<Rightarrow> bool" where
  "at_line b c \<longleftrightarrow> (\<forall>k p rest. tx b p = up c 3 @ rest \<longrightarrow> ends rest '')'' \<longrightarrow> ntoks b p \<le> k \<longrightarrow>
     result b c rest (parseline (Suc k) b p))"

lemma ends_not: "ends rest cs \<Longrightarrow> set cs \<inter> set ds = {} \<Longrightarrow> \<not> starts fst rest ds"
  by (auto simp: ends_def starts_def)

lemma ends_mono: "ends rest cs \<Longrightarrow> set cs \<subseteq> set ds \<Longrightarrow> ends rest ds"
  by (auto simp: ends_def starts_def)

lemma map_wrap: "map_cmd (slice b) (wrap c rs) = wrap (map_cmd (slice b) c) (map (mr b) rs)"
  by (induction c rs rule: wrap.induct) (simp_all add: mr_def)

lemma wrap_snoc: "wrap c (rs @ [(w, m, f)]) = REDIR (wrap c rs) w m f"
  by (induction c rs rule: wrap.induct) simp_all

lemma up_wrap: "up (wrap c rs) 0 = up c 0 @ concat (map rtoks rs)"
  by (induction c rs rule: wrap.induct) simp_all

text \<open>A symbol at the front of the line is seen and taken.\<close>

lemma tx_sym:
  assumes "tx b p = tsym t # ts" and "raw t \<in> set cs" and "set cs \<subseteq> set symbols"
  obtains w p' where "peek b p cs = (True, skip_space b p)" and "gettoken b p = (t, w, p')" and "tx b p' = ts"
    and "Suc (ntoks b p') = ntoks b p"
proof -
  have s: "tx b p = (t, []) # ts" using assms(1) by (simp add: tsym_def)
  obtain w p' where "gettoken b p = (t, w, p')" and t': "tx b p' = ts" by (rule tx_Cons [OF s])
  moreover have "peek b p cs = (True, skip_space b p)" using assms by (simp add: peek_tx)
  moreover have "Suc (ntoks b p') = ntoks b p" using s t' length_tx [of b p] length_tx [of b p'] by simp
  ultimately show thesis using that by blast
qed

lemma at_exec_words:
  assumes ws: "length ws < MAXARGS" and rs: "\<forall>r \<in> set rs. redir_ok r"
  shows "at_exec b (wrap (EXEC ws) rs)"
  unfolding at_exec_def
proof (intro allI impI)
  fix k p rest
  assume t: "tx b p = up (wrap (EXEC ws) rs) 0 @ rest" and e: "ends rest ''|)&;''"
  let ?line = "parseline k b" and ?rr = "if ws = [] then rs else []" and ?r2 = "if ws = [] then [] else rs"
  let ?t = "map (\<lambda>w. (CHR ''a'', w)) ws @ concat (map rtoks ?r2) @ rest"
  have t1: "tx b (skip_space b p) = concat (map rtoks ?rr) @ ?t" using t by (simp add: up_wrap)
  have "\<not> starts fst ?t ''<>''" using e ends_not [OF e, of "''<>''"] by (cases ws) (simp_all add: raw_def)
  moreover have "\<forall>r \<in> set ?rr. redir_ok r" using rs by simp
  ultimately obtain r1 p1 where r1: "parseredirs b [] (skip_space b p) = Parsed r1 p1" "map (mr b) r1 = ?rr" "tx b p1 = ?t"
    using parseredirs_tx [OF t1, of "[]"] by auto
  have "ws = [] \<longrightarrow> ?r2 = []" "\<forall>r \<in> set ?r2. redir_ok r" "length [] + length ws < MAXARGS" using rs ws by simp_all
  from parseexec_loop_tx [OF r1(3) e this(1,3,2), of r1] obtain a1 r2 p' where
    l: "parseexec_loop b [] r1 p1 = Parsed (a1, r1 @ r2) p'" "map (slice b) a1 = ws" "map (mr b) r2 = ?r2" "tx b p' = rest" by auto
  have "\<not> starts fst (tx b p) ''(''"
    using ends_not [OF e, of "''(''"] t by (cases ws; cases rs) (auto simp: up_wrap raw_def rtoks_def split: if_splits)
  then have "parseexec ?line b p = Parsed (wrap (EXEC a1) (r1 @ r2)) p'"
    by (simp add: parseexec_def peek_tx r1(1) l(1))
  moreover have "map_cmd (slice b) (wrap (EXEC a1) (r1 @ r2)) = wrap (EXEC ws) rs" using l r1 by (simp add: map_wrap)
  ultimately show "result b (wrap (EXEC ws) rs) rest (parseexec ?line b p)" unfolding result_def using l(4) by blast
qed

lemma at_exec_block:
  assumes d: "at_line b d" and u: "up d 0 = tsym CHR ''('' # up d 3 @ [tsym CHR '')'']" and rs: "\<forall>r \<in> set rs. redir_ok r"
  shows "at_exec b (wrap d rs)"
  unfolding at_exec_def
proof (intro allI impI)
  fix k p rest
  assume t: "tx b p = up (wrap d rs) 0 @ rest" and e: "ends rest ''|)&;''" and k: "ntoks b p \<le> k"
  have "tx b p = tsym CHR ''('' # up d 3 @ tsym CHR '')'' # concat (map rtoks rs) @ rest" using t by (simp add: up_wrap u)
  then obtain w p1 where pk: "peek b p ''('' = (True, skip_space b p)" and g: "gettoken b p = (CHR ''('', w, p1)"
    and t1: "tx b p1 = up d 3 @ tsym CHR '')'' # concat (map rtoks rs) @ rest" and n: "Suc (ntoks b p1) = ntoks b p"
    by (rule tx_sym [where cs = "''(''"]) (simp_all add: raw_def)
  have e1: "ends (tsym CHR '')'' # concat (map rtoks rs) @ rest) '')''" by (simp add: ends_def raw_def)
  obtain k' where k': "k = Suc k'" "ntoks b p1 \<le> k'" using k n by (cases k) auto
  with d t1 e1 obtain c p2 where c: "parseline k b p1 = Parsed c p2" "map_cmd (slice b) c = d"
    and t2: "tx b p2 = tsym CHR '')'' # concat (map rtoks rs) @ rest" unfolding at_line_def result_def by blast
  obtain w2 p3 where pk2: "peek b p2 '')'' = (True, skip_space b p2)" and g2: "gettoken b p2 = (CHR '')'', w2, p3)"
    and t3: "tx b p3 = concat (map rtoks rs) @ rest" by (rule tx_sym [OF t2, where cs = "'')''"]) (simp_all add: raw_def)
  have "\<not> starts fst rest ''<>''" by (rule ends_not [OF e]) simp
  from parseredirs_tx [OF t3 this rs, of "[]"] obtain r1 p' where r: "parseredirs b [] p3 = Parsed r1 p'"
    "map (mr b) r1 = rs" "tx b p' = rest" by auto
  have "peek b (skip_space b p) ''('' = (True, skip_space b p)" using pk by (simp add: peek_def)
  then have "parseexec (parseline k b) b p = Parsed (wrap c r1) p'"
    using g g2 by (simp add: parseexec_def parseblock_def pk c(1) pk2 r(1) del: parseline.simps)
  moreover have "map_cmd (slice b) (wrap c r1) = wrap d rs" using c(2) r(2) by (simp add: map_wrap)
  ultimately show "result b (wrap d rs) rest (parseexec (parseline k b) b p)" unfolding result_def using r(3) by blast
qed

lemma at_pipe_exec:
  assumes "at_exec b c" and "up c 1 = up c 0"
  shows "at_pipe b c"
  unfolding at_pipe_def
proof (intro allI impI)
  fix j k p rest
  assume t: "tx b p = up c 1 @ rest" and e: "ends rest '')&;''" and k: "ntoks b p \<le> k"
  have "ends rest ''|)&;''" using e by (rule ends_mono) auto
  with assms t k obtain c' p' where c: "parseexec (parseline k b) b p = Parsed c' p'" "map_cmd (slice b) c' = c" "tx b p' = rest"
    unfolding at_exec_def result_def by metis
  have "\<not> starts fst rest ''|''" by (rule ends_not [OF e]) simp
  then have "parsepipe (Suc j) (parseline k b) b p = Parsed c' (skip_space b p')" using c by (simp add: peek_tx)
  then show "result b c rest (parsepipe (Suc j) (parseline k b) b p)" unfolding result_def using c by auto
qed

lemma at_pipe_PIPE:
  assumes "at_exec b c" and "at_pipe b d"
  shows "at_pipe b (PIPE c d)"
  unfolding at_pipe_def
proof (intro allI impI)
  fix j k p rest
  assume t: "tx b p = up (PIPE c d) 1 @ rest" and e: "ends rest '')&;''" and k: "ntoks b p \<le> k" and j: "ntoks b p \<le> j"
  have t0: "tx b p = up c 0 @ tsym CHR ''|'' # up d 1 @ rest" using t by (simp add: par_def)
  have "ends (tsym CHR ''|'' # up d 1 @ rest) ''|)&;''" by (simp add: ends_def raw_def)
  with assms(1) t0 k obtain c' p' where c: "parseexec (parseline k b) b p = Parsed c' p'" "map_cmd (slice b) c' = c"
    and t1: "tx b p' = tsym CHR ''|'' # up d 1 @ rest" unfolding at_exec_def result_def by blast
  obtain w p2 where pk: "peek b p' ''|'' = (True, skip_space b p')" and g: "gettoken b p' = (CHR ''|'', w, p2)"
    and t2: "tx b p2 = up d 1 @ rest" and n: "Suc (ntoks b p2) = ntoks b p'"
    by (rule tx_sym [OF t1, where cs = "''|''"]) (simp_all add: raw_def)
  have "length (tx b p') \<le> length (tx b p)" using t0 t1 by simp
  then have n2: "Suc (ntoks b p2) \<le> ntoks b p" using n by (simp add: length_tx)
  then obtain j' where j': "j = Suc j'" "ntoks b p2 \<le> j'" using j by (cases j) auto
  have "ntoks b p2 \<le> k" using n2 k by simp
  with assms(2) t2 e j'(2) obtain d' p3 where d: "parsepipe (Suc j') (parseline k b) b p2 = Parsed d' p3" "map_cmd (slice b) d' = d"
    "tx b p3 = rest" unfolding at_pipe_def result_def by blast
  have "parsepipe (Suc j) (parseline k b) b p = Parsed (PIPE c' d') p3"
    using d(1) g unfolding j'(1) by (subst parsepipe.simps(2)) (simp add: c(1) pk del: parsepipe.simps)
  then show "result b (PIPE c d) rest (parsepipe (Suc j) (parseline k b) b p)" unfolding result_def using c(2) d by auto
qed

lemma at_back_pipe:
  assumes "at_pipe b c" and "up c 2 = up c 1"
  shows "at_back b c"
  unfolding at_back_def
proof (intro allI impI)
  fix k p rest
  assume "tx b p = up c 2 @ rest" "ends rest '')&;''" "ntoks b p \<le> k"
  with assms obtain c' p' where "parsepipe (Suc k) (parseline k b) b p = Parsed c' p'" "map_cmd (slice b) c' = c" "tx b p' = rest"
    unfolding at_pipe_def result_def by metis
  then show "\<exists>c0 p0 c' p'. parsepipe (Suc k) (parseline k b) b p = Parsed c0 p0 \<and> parsebacks b c0 p0 = parsebacks b c' p' \<and>
        map_cmd (slice b) c' = c \<and> tx b p' = rest" by blast
qed

lemma at_back_BACK:
  assumes "at_back b c"
  shows "at_back b (BACK c)"
  unfolding at_back_def
proof (intro allI impI)
  fix k p rest
  assume t: "tx b p = up (BACK c) 2 @ rest" and e: "ends rest '')&;''" and k: "ntoks b p \<le> k"
  have "tx b p = up c 2 @ tsym CHR ''&'' # rest" "ends (tsym CHR ''&'' # rest) '')&;''" using t by (simp_all add: par_def ends_def raw_def)
  with assms k obtain c0 p0 c' p' where c: "parsepipe (Suc k) (parseline k b) b p = Parsed c0 p0"
    "parsebacks b c0 p0 = parsebacks b c' p'" "map_cmd (slice b) c' = c" and t1: "tx b p' = tsym CHR ''&'' # rest"
    unfolding at_back_def by blast
  obtain w p2 where pk: "peek b p' ''&'' = (True, skip_space b p')" and g: "gettoken b p' = (CHR ''&'', w, p2)"
    and t2: "tx b p2 = rest" by (rule tx_sym [OF t1, where cs = "''&''"]) (simp_all add: raw_def)
  have "parsebacks b c' p' = parsebacks b (BACK c') p2" using g by (subst parsebacks.simps) (simp add: pk)
  then show "\<exists>c0 p0 c' p'. parsepipe (Suc k) (parseline k b) b p = Parsed c0 p0 \<and> parsebacks b c0 p0 = parsebacks b c' p' \<and>
        map_cmd (slice b) c' = BACK c \<and> tx b p' = rest" using c t2 by (metis cmd.map(5))
qed

lemma at_line_parse:
  assumes "at_back b c" and "tx b p = up c 2 @ rest" and "ends rest '');''" and "ntoks b p \<le> k"
  obtains c' p' where "map_cmd (slice b) c' = c" and "tx b p' = rest"
    and "parseline (Suc k) b p = (case peek b p' '';'' of
              (r, p) \<Rightarrow>
                if \<not> r then Parsed c' p
                else case gettoken b p of
                  (_, _, p) \<Rightarrow> andthen (parseline k b p) (\<lambda>d p. Parsed (LIST c' d) p))"
proof -
  have "ends rest '')&;''" using assms(3) by (rule ends_mono) auto
  with assms obtain c0 p0 c' p' where c: "parsepipe (Suc k) (parseline k b) b p = Parsed c0 p0"
    "parsebacks b c0 p0 = parsebacks b c' p'" "map_cmd (slice b) c' = c" "tx b p' = rest" unfolding at_back_def by blast
  have "\<not> starts fst (tx b p') ''&''" using ends_not [OF assms(3), of "''&''"] c(4) by simp
  then have "parsebacks b c' p' = (c', skip_space b p')" by (subst parsebacks.simps) (simp add: peek_tx)
  then show thesis using that [of c' "skip_space b p'"] c by (simp del: parsepipe.simps)
qed

lemma at_line_back:
  assumes "at_back b c" and "up c 3 = up c 2"
  shows "at_line b c"
  unfolding at_line_def
proof (intro allI impI)
  fix k p rest
  assume t: "tx b p = up c 3 @ rest" and e: "ends rest '')''" and k: "ntoks b p \<le> k"
  have "ends rest '');''" using e by (rule ends_mono) auto
  from at_line_parse [OF assms(1) t [unfolded assms(2)] this k]
  obtain c' p' where c: "map_cmd (slice b) c' = c" "tx b p' = rest"
    and l: "parseline (Suc k) b p = (case peek b p' '';'' of (r, p) \<Rightarrow>
                if \<not> r then Parsed c' p
                else case gettoken b p of (_, _, p) \<Rightarrow> andthen (parseline k b p) (\<lambda>d p. Parsed (LIST c' d) p))" .
  have "\<not> starts fst (tx b p') '';''" using ends_not [OF e, of "'';''"] c(2) by simp
  then have "parseline (Suc k) b p = Parsed c' (skip_space b p')" unfolding l by (simp add: peek_tx)
  then show "result b c rest (parseline (Suc k) b p)" unfolding result_def using c by auto
qed

lemma at_line_LIST:
  assumes "at_back b c" and "at_line b d"
  shows "at_line b (LIST c d)"
  unfolding at_line_def
proof (intro allI impI)
  fix k p rest
  assume t: "tx b p = up (LIST c d) 3 @ rest" and e: "ends rest '')''" and k: "ntoks b p \<le> k"
  have t0: "tx b p = up c 2 @ tsym CHR '';'' # up d 3 @ rest" "ends (tsym CHR '';'' # up d 3 @ rest) '');''"
    using t by (simp_all add: par_def ends_def raw_def)
  from at_line_parse [OF assms(1) t0 k] obtain c' p' where c: "map_cmd (slice b) c' = c"
    and t1: "tx b p' = tsym CHR '';'' # up d 3 @ rest" and l: "parseline (Suc k) b p = (case peek b p' '';'' of (r, p) \<Rightarrow>
                if \<not> r then Parsed c' p
                else case gettoken b p of (_, _, p) \<Rightarrow> andthen (parseline k b p) (\<lambda>d p. Parsed (LIST c' d) p))" .
  obtain w p2 where pk: "peek b p' '';'' = (True, skip_space b p')" and g: "gettoken b p' = (CHR '';'', w, p2)"
    and t2: "tx b p2 = up d 3 @ rest" and n: "Suc (ntoks b p2) = ntoks b p'"
    by (rule tx_sym [OF t1, where cs = "'';''"]) (simp_all add: raw_def)
  have "length (tx b p') \<le> length (tx b p)" using t0(1) t1 by simp
  then obtain k' where k': "k = Suc k'" "ntoks b p2 \<le> k'" using n k by (cases k) (auto simp: length_tx)
  with assms(2) t2 e obtain d' p3 where d: "parseline k b p2 = Parsed d' p3" "map_cmd (slice b) d' = d" "tx b p3 = rest"
    unfolding at_line_def result_def by blast
  have "parseline (Suc k) b p = Parsed (LIST c' d') p3" unfolding l using g d(1) by (simp add: pk del: parseline.simps)
  then show "result b (LIST c d) rest (parseline (Suc k) b p)" unfolding result_def using c d by auto
qed

fun unwrap :: "'w cmd \<Rightarrow> 'w cmd \<times> 'w redir list" where
  "unwrap (REDIR c w m f) = (case unwrap c of (d, rs) \<Rightarrow> (d, rs @ [(w, m, f)]))"
| "unwrap c = (c, [])"

lemma unwrap_wrap: "unwrap c = (d, rs) \<Longrightarrow> c = wrap d rs"
  by (induction c arbitrary: d rs rule: unwrap.induct) (auto simp: wrap_snoc split: prod.splits)

lemma unwrap_ok: "unwrap c = (d, rs) \<Longrightarrow> fits c \<Longrightarrow> modes_ok c \<Longrightarrow> fits d \<and> (\<forall>r \<in> set rs. redir_ok r)"
  by (induction c arbitrary: d rs rule: unwrap.induct) (auto split: prod.splits)

text \<open>All levels at once, and for a redirected command also the line level of what is redirected.\<close>

definition levels :: "string \<Rightarrow> string cmd \<Rightarrow> bool" where
  "levels b c \<longleftrightarrow> at_exec b c \<and> at_pipe b c \<and> at_back b c \<and> at_line b c"

lemma levels_exec: "at_exec b c \<Longrightarrow> up c 1 = up c 0 \<Longrightarrow> up c 2 = up c 0 \<Longrightarrow> up c 3 = up c 0 \<Longrightarrow> levels b c"
  by (simp add: levels_def at_pipe_exec at_back_pipe at_line_back)

lemma levels_block:
  assumes "at_line b c" and "up c 0 = tsym CHR ''('' # up c 3 @ [tsym CHR '')'']"
  shows "at_exec b c"
  using at_exec_block [OF assms, of "[]"] by simp

lemma all_levels: "fits c \<Longrightarrow> modes_ok c \<Longrightarrow> levels b c \<and> ((\<forall>ws. fst (unwrap c) \<noteq> EXEC ws) \<longrightarrow>
    at_line b (fst (unwrap c)) \<and> up (fst (unwrap c)) 0 = tsym CHR ''('' # up (fst (unwrap c)) 3 @ [tsym CHR '')''])"
proof (induction c)
  case (EXEC ws)
  have "at_exec b (EXEC ws)" using at_exec_words [of ws "[]" b] EXEC by simp
  then show ?case using levels_exec by simp
next
  case (REDIR c w m f)
  obtain d rs where u: "unwrap (REDIR c w m f) = (d, rs)" by (cases "unwrap (REDIR c w m f)")
  then have d: "fst (unwrap c) = d" by (auto split: prod.splits)
  have eq: "REDIR c w m f = wrap d rs" by (rule unwrap_wrap [OF u])
  have ok: "fits d" "\<forall>r \<in> set rs. redir_ok r" using unwrap_ok [OF u REDIR.prems] by simp_all
  have IH: "(\<forall>ws. d \<noteq> EXEC ws) \<longrightarrow> at_line b d \<and> up d 0 = tsym CHR ''('' # up d 3 @ [tsym CHR '')'']"
    using REDIR by (simp add: d)
  have "at_exec b (wrap d rs)"
  proof (cases "\<exists>ws. d = EXEC ws")
    case True
    then show ?thesis using ok at_exec_words by auto
  next
    case False
    then show ?thesis using IH ok(2) at_exec_block by blast
  qed
  then have "at_exec b (REDIR c w m f)" by (simp only: eq)
  then have "levels b (REDIR c w m f)" by (rule levels_exec) simp_all
  then show ?case using IH u by simp
next
  case (PIPE c d)
  then have p: "at_pipe b (PIPE c d)" by (simp add: levels_def at_pipe_PIPE)
  then have "at_back b (PIPE c d)" by (rule at_back_pipe) (simp add: par_def)
  then have "at_back b (PIPE c d)" "at_line b (PIPE c d)" using at_line_back by (simp_all add: par_def)
  moreover from this have "at_exec b (PIPE c d)" by (intro levels_block) (simp_all add: par_def)
  ultimately show ?case using p by (simp add: levels_def par_def)
next
  case (LIST c d)
  then have l: "at_line b (LIST c d)" by (simp add: levels_def at_line_LIST)
  then have e: "at_exec b (LIST c d)" by (intro levels_block) (simp_all add: par_def)
  then have p: "at_pipe b (LIST c d)" by (intro at_pipe_exec) (simp_all add: par_def)
  then have "at_back b (LIST c d)" by (intro at_back_pipe) (simp_all add: par_def)
  then show ?case using l e p by (simp add: levels_def par_def)
next
  case (BACK c)
  then have k: "at_back b (BACK c)" by (simp add: levels_def at_back_BACK)
  then have l: "at_line b (BACK c)" by (intro at_line_back) (simp_all add: par_def)
  then have e: "at_exec b (BACK c)" by (intro levels_block) (simp_all add: par_def)
  then have "at_pipe b (BACK c)" by (intro at_pipe_exec) (simp_all add: par_def)
  then show ?case using k l e by (simp add: levels_def par_def)
qed

text \<open>The parser never leaves the line.\<close>

definition within :: "string \<Rightarrow> 'a parsed \<Rightarrow> bool" where
  "within b r \<longleftrightarrow> (\<forall>x p'. r = Parsed x p' \<longrightarrow> p' \<le> length b)"

lemma within_andthen: "within b r \<Longrightarrow> (\<And>x p. p \<le> length b \<Longrightarrow> within b (f x p)) \<Longrightarrow> within b (andthen r f)"
  by (cases r) (auto simp: within_def)

lemma within_simps [simp]: "within b OutOfFuel" "within b (Panicked m)" "within b (Parsed x p) \<longleftrightarrow> p \<le> length b"
  by (simp_all add: within_def)

lemma peek_within: "p \<le> length b \<Longrightarrow> peek b p cs = (r, p') \<Longrightarrow> p' \<le> length b"
  using skip_space_bounds [of p b] by (auto simp: peek_def Let_def)

lemma gettoken_within: "p \<le> length b \<Longrightarrow> gettoken b p = (t, w, p') \<Longrightarrow> p' \<le> length b"
  using gettoken_bounds(5) [of b p t "fst w" "snd w" p'] by simp

lemmas scan_within = peek_within gettoken_within

lemma within_peek: "p \<le> length b \<Longrightarrow> (\<And>r p'. p' \<le> length b \<Longrightarrow> within b (f r p')) \<Longrightarrow> within b (case peek b p cs of (r, p') \<Rightarrow> f r p')"
  using peek_within by (auto split: prod.split)

lemma within_gettoken:
  "p \<le> length b \<Longrightarrow> (\<And>t w p'. p' \<le> length b \<Longrightarrow> within b (f t w p')) \<Longrightarrow> within b (case gettoken b p of (t, w, p') \<Rightarrow> f t w p')"
  using gettoken_within by (auto split: prod.split)

lemma within_if: "(P \<Longrightarrow> within b x) \<Longrightarrow> (\<not> P \<Longrightarrow> within b y) \<Longrightarrow> within b (if P then x else y)"
  by simp

lemmas within_intros = within_andthen within_peek within_gettoken within_if

lemma parseredirs_within: "p \<le> length b \<Longrightarrow> within b (parseredirs b rs p)"
  using parseredirs_progress [of b rs p] by (auto simp: within_def)

lemma parseexec_loop_within: "p \<le> length b \<Longrightarrow> within b (parseexec_loop b argv rs p)"
proof (induction b argv rs p rule: parseexec_loop.induct)
  case (1 b argv rs ps)
  obtain r p where pk: "peek b ps ''|)&;'' = (r, p)" by (cases "peek b ps ''|)&;''")
  obtain tok w p1 where g: "gettoken b p = (tok, w, p1)" by (metis prod.exhaust)
  have p: "p \<le> length b" "p1 \<le> length b" using 1(2) pk g scan_within by blast+
  have "within b (parseredirs b rs p1)" by (rule parseredirs_within [OF p(2)])
  moreover have "within b (parseexec_loop b (argv @ [w]) rs' p2)"
    if "\<not> r" "tok \<noteq> NULC" "tok = CHR ''a''" "\<not> length argv + 1 \<ge> MAXARGS" "parseredirs b rs p1 = Parsed rs' p2" "p2 \<le> length b" for rs' p2
    using "1.IH" [OF pk [symmetric] _ g [symmetric] refl] that by simp
  ultimately show ?case
    using p by (subst parseexec_loop.simps) (auto simp: pk g split: parsed.split)
qed

lemma parseexec_within:
  assumes "\<And>p. p \<le> length b \<Longrightarrow> within b (line p)" and "p \<le> length b"
  shows "within b (parseexec line b p)"
  using assms(2) unfolding parseexec_def parseblock_def
  by (intro within_intros assms(1) parseredirs_within parseexec_loop_within) (auto split: prod.split)

lemma parsepipe_within:
  assumes "\<And>p. p \<le> length b \<Longrightarrow> within b (line p)"
  shows "p \<le> length b \<Longrightarrow> within b (parsepipe j line b p)"
proof (induction j arbitrary: p)
  case (Suc j)
  then show ?case unfolding parsepipe.simps by (intro within_intros parseexec_within assms Suc.IH) simp_all
qed simp

lemma parsebacks_within: "parsebacks b c p = (c', p') \<Longrightarrow> p \<le> length b \<Longrightarrow> p' \<le> length b"
proof (induction b c p rule: parsebacks.induct)
  case (1 b c ps)
  obtain r p where pk: "peek b ps ''&'' = (r, p)" by (cases "peek b ps ''&''")
  obtain t w p2 where g: "gettoken b p = (t, w, p2)" by (metis prod.exhaust)
  have p: "p \<le> length b" "p2 \<le> length b" using "1.prems"(2) pk g scan_within by blast+
  have "if r then parsebacks b (BACK c) p2 = (c', p') else p' = p"
    using "1.prems"(1) by (subst (asm) parsebacks.simps) (auto simp: pk g split: if_splits)
  then show ?case using "1.IH" [OF pk [symmetric] _ g [symmetric] refl] p by (cases r) simp_all
qed

lemma parseline_within: "p \<le> length b \<Longrightarrow> within b (parseline k b p)"
proof (induction k arbitrary: p)
  case (Suc k)
  have "within b (parsepipe (Suc k) (parseline k b) b p)" by (rule parsepipe_within) (use Suc in simp_all)
  then show ?case unfolding parseline.simps
  proof (rule within_andthen)
    fix c p1 assume p1: "p1 \<le> length b"
    obtain c2 p2 where b: "parsebacks b c p1 = (c2, p2)" by (cases "parsebacks b c p1")
    have "within b (case peek b p2 '';'' of (r, p) \<Rightarrow> if \<not> r then Parsed c2 p
        else case gettoken b p of (_, _, p) \<Rightarrow> andthen (parseline k b p) (\<lambda>d p. Parsed (LIST c2 d) p))"
      by (intro within_intros Suc.IH parsebacks_within [OF b p1]) simp_all
    then show "within b (case parsebacks b c p1 of (c, p) \<Rightarrow> (case peek b p '';'' of (r, p) \<Rightarrow> if \<not> r then Parsed c p
        else case gettoken b p of (_, _, p) \<Rightarrow> andthen (parseline k b p) (\<lambda>d p. Parsed (LIST c d) p)))"
      by (simp add: b)
  qed
qed simp

text \<open>C14. Parsing inverts printing: a line whose tokens, with any white space between them, are those of a command, is
  parsed to that command: words, redirections, their order, and the grouping by \<^verbatim>\<open>|\<close>, \<^verbatim>\<open>;\<close>, \<^verbatim>\<open>&\<close> and
  parentheses.\<close>

theorem parsecmd_roundtrip:
  assumes "NULC \<notin> set b" and "fits c" and "modes_ok c" and "tx b 0 = up c 3"
  shows "\<exists>r. parsecmd b = Parsed r (length b) \<and> words_of r = c"
proof -
  have "at_line b c" using all_levels [OF assms(2,3), of b] by (simp add: levels_def)
  moreover have "ntoks b 0 \<le> length b" using ntoks_length [of b 0] by simp
  ultimately obtain c' p' where c: "parseline (Suc (length b)) b 0 = Parsed c' p'" "map_cmd (slice b) c' = c" "tx b p' = []"
    using assms(4) unfolding at_line_def result_def by (metis append_Nil2 ends_def)
  have "sound b 0 (cmd_ok b) (parseline (Suc (length b)) b 0)" by (rule parseline_sound) (use ntoks_length [of b 0] in simp)
  with c(1) have ok: "cmd_ok b c'" by simp
  have e: "skip_space b p' = length b"
  proof -
    obtain w p2 where "gettoken b p' = (NULC, w, p2)" by (rule tx_Nil [OF c(3)])
    then have "char_at b (skip_space b p') = NULC" by (auto simp: gettoken_def Let_def NULC_def split: if_splits)
    then have ge: "length b \<le> skip_space b p'"
      using assms(1) by (metis char_at_def linorder_not_less nth_mem)
    have "p' \<le> length b" using parseline_within [of 0 b "Suc (length b)"] c(1) by (simp add: within_def)
    then show ?thesis using ge skip_space_bounds [of p' b] by simp
  qed
  have "parsecmd b = Parsed (c', nulterminate c' (b @ [NULC])) (length b)"
    by (simp add: parsecmd_def c(1) peek_def Let_def e del: parseline.simps)
  moreover have "words_of (c', nulterminate c' (b @ [NULC])) = c"
  proof -
    have "map_cmd (\<lambda>w. cstring (nulterminate c' (b @ [NULC])) (fst w)) c' = map_cmd (slice b) c'"
      by (rule cmd.map_cong [OF refl]) (simp add: cstring_word [OF ok assms(1)] slice_def)
    then show ?thesis by (simp add: words_of_def c(2))
  qed
  ultimately show ?thesis by blast
qed

definition demo_line :: string where
  "demo_line = ''(a b;c&) >g|d<f''"

definition demo_cmd :: "string cmd" where
  "demo_cmd = PIPE (REDIR (LIST (EXEC [''a'', ''b'']) (BACK (EXEC [''c'']))) ''g'' O_WRITE_NEW 1) (REDIR (EXEC [''d'']) ''f'' O_READ 0)"

lemma demo_line_facts:
  "NULC \<notin> set demo_line" "fits demo_cmd" "modes_ok demo_cmd" "tx demo_line 0 = up demo_cmd 3"
  by code_simp+

lemma demo_parse: "\<exists>r p. parsecmd demo_line = Parsed r p \<and> words_of r = demo_cmd"
proof -
  have "case parsecmd demo_line of Parsed r p \<Rightarrow> words_of r = demo_cmd | _ \<Rightarrow> False" by code_simp
  then show ?thesis by (cases "parsecmd demo_line") auto
qed

theorem parsecmd_safe_witness: "NULC \<notin> set demo_line \<and> parsecmd demo_line \<noteq> OutOfFuel"
  using parsecmd_safe [OF demo_line_facts(1)] demo_line_facts(1) by simp

theorem parsecmd_roundtrip_witness:
  "\<exists>r. parsecmd demo_line = Parsed r (length demo_line) \<and> words_of r = demo_cmd"
  using parsecmd_roundtrip [OF demo_line_facts] .

end
