(* ===== verification/Sh_Run.thy ===== *)
theory Sh_Run
  imports Sh
begin

section \<open>The shell of xv6: running commands (user/sh.c)\<close>

text \<open>
  \<open>runcmd\<close> gives the behaviour of the process that runs a command as a tree: each system call that can have several
  outcomes is a node with a subtree for each of them, and \<^verbatim>\<open>fork\<close> has the subtrees of the child and of the parent. The
  table of open descriptors of the process is carried along, with the rule of the kernel that a new descriptor is
  the least free one of the \<open>NFD\<close> (\<^verbatim>\<open>NOFILE\<close>). Pipes are named by the place of their command in the tree
  of commands, since the processes that create them run at the same time. Message texts are shortened to what
  varies.
\<close>

datatype obj = Inherited nat | File string nat | PipeR "nat list" | PipeW "nat list"

type_synonym fds = "nat \<Rightarrow> obj option"

datatype beh =
    Exit nat
  | Msg string beh
  | Exec "string list" fds (failed: beh)
  | Open string nat (opened: "beh option") (failed: beh)
  | MakePipe (made: "beh option") (failed: beh)
  | Fork (child: beh) (parent: beh) (failed: beh)
  | Wait beh

definition NFD :: nat where "NFD = 16"

definition least_free :: "fds \<Rightarrow> nat option" where
  "least_free fs = (case filter (\<lambda>i. fs i = None) [0..<NFD] of [] \<Rightarrow> None | i # _ \<Rightarrow> Some i)"

definition shut_fd :: "nat \<Rightarrow> fds \<Rightarrow> fds" where
  "shut_fd i fs = fs(i := None)"

definition dup_fd :: "nat \<Rightarrow> fds \<Rightarrow> fds" where
  "dup_fd i fs = (case (fs i, least_free fs) of (Some x, Some j) \<Rightarrow> fs(j := Some x) | _ \<Rightarrow> fs)"

definition open_fd :: "obj \<Rightarrow> fds \<Rightarrow> (nat \<times> fds) option" where
  "open_fd x fs = (case least_free fs of None \<Rightarrow> None | Some j \<Rightarrow> Some (j, fs(j := Some x)))"

definition panic :: "string \<Rightarrow> beh" where
  "panic m = Msg m (Exit 1)"

definition fork1 :: "beh \<Rightarrow> beh \<Rightarrow> beh" where
  "fork1 c p = Fork c p (panic ''fork'')"

text \<open>The two ends of a new pipe.\<close>

definition new_pipe :: "nat list \<Rightarrow> fds \<Rightarrow> (nat \<times> nat \<times> fds) option" where
  "new_pipe \<pi> fs =
     (case open_fd (PipeR \<pi>) fs of
        None \<Rightarrow> None
      | Some (p0, fs) \<Rightarrow> (case open_fd (PipeW \<pi>) fs of None \<Rightarrow> None | Some (p1, fs) \<Rightarrow> Some (p0, p1, fs)))"

primrec runcmd :: "string cmd \<Rightarrow> nat list \<Rightarrow> fds \<Rightarrow> beh" where
  "runcmd (EXEC argv) \<pi> fs =
     (if argv = [] then Exit 1 else Exec argv fs (Msg (hd argv) (Exit 0)))"
| "runcmd (REDIR c file md fd) \<pi> fs =
     (let fs = shut_fd fd fs
      in Open file md (map_option (\<lambda>x. runcmd c \<pi> (snd x)) (open_fd (File file md) fs)) (Msg file (Exit 1)))"
| "runcmd (LIST l r) \<pi> fs = fork1 (runcmd l (\<pi> @ [0]) fs) (Wait (runcmd r (\<pi> @ [1]) fs))"
| "runcmd (PIPE l r) \<pi> fs =
     MakePipe (map_option (\<lambda>(p0, p1, fs).
         fork1 (runcmd l (\<pi> @ [0]) (shut_fd p1 (shut_fd p0 (dup_fd p1 (shut_fd 1 fs)))))
        (fork1 (runcmd r (\<pi> @ [1]) (shut_fd p1 (shut_fd p0 (dup_fd p0 (shut_fd 0 fs)))))
               (Wait (Wait (Exit 0)))))
       (new_pipe \<pi> fs)) (panic ''pipe'')"
| "runcmd (BACK c) \<pi> fs = fork1 (runcmd c (\<pi> @ [0]) fs) (Exit 0)"

text \<open>What the loop of \<^verbatim>\<open>main\<close> does with a line.\<close>

datatype line_action = EndOfInput | Chdir string | Run beh

definition sh_line :: "string \<Rightarrow> fds \<Rightarrow> line_action" where
  "sh_line buf fs =
     (if buf = [] then EndOfInput
      else if take 3 buf = ''cd '' then Chdir (drop 3 (butlast buf))
      else Run (fork1
        (case parsecmd buf of
           Parsed r _ \<Rightarrow> runcmd (words_of r) [] fs
         | Panicked m \<Rightarrow> panic m
         | OutOfFuel \<Rightarrow> Exit 1)
        (Wait (Exit 0))))"

subsection \<open>The programs that are started and their descriptors\<close>

text \<open>All calls of \<^verbatim>\<open>exec\<close> in the tree when the other calls succeed.\<close>

primrec execs :: "beh \<Rightarrow> (string list \<times> fds) list" where
  "execs (Exit n) = []"
| "execs (Msg m k) = execs k"
| "execs (Exec argv fs k) = (argv, fs) # execs k"
| "execs (Open f m ok k) = (case map_option execs ok of None \<Rightarrow> [] | Some es \<Rightarrow> es) @ execs k"
| "execs (MakePipe ok k) = (case map_option execs ok of None \<Rightarrow> [] | Some es \<Rightarrow> es) @ execs k"
| "execs (Fork c p k) = execs c @ execs p @ execs k"
| "execs (Wait k) = execs k"

text \<open>The specification: the command in a context with standard input, output and error output.\<close>

definition std :: "obj \<Rightarrow> obj \<Rightarrow> obj \<Rightarrow> fds" where
  "std i out e = [0 \<mapsto> i, 1 \<mapsto> out, 2 \<mapsto> e]"

primrec programs :: "string cmd \<Rightarrow> nat list \<Rightarrow> obj \<Rightarrow> obj \<Rightarrow> (string list \<times> obj \<times> obj) list" where
  "programs (EXEC argv) \<pi> i out = (if argv = [] then [] else [(argv, i, out)])"
| "programs (REDIR c file md fd) \<pi> i out =
     (if fd = 0 then programs c \<pi> (File file md) out else programs c \<pi> i (File file md))"
| "programs (LIST l r) \<pi> i out = programs l (\<pi> @ [0]) i out @ programs r (\<pi> @ [1]) i out"
| "programs (PIPE l r) \<pi> i out = programs l (\<pi> @ [0]) i (PipeW \<pi>) @ programs r (\<pi> @ [1]) (PipeR \<pi>) out"
| "programs (BACK c) \<pi> i out = programs c (\<pi> @ [0]) i out"

lemma upt_NFD: "[0..<NFD] = [0, 1, 2, 3, 4] @ [5..<NFD]"
  by (simp add: NFD_def upt_rec)

lemma open_std:
  "open_fd x (shut_fd 0 (std i out e)) = Some (0, std x out e)"
  "open_fd x (shut_fd 1 (std i out e)) = Some (1, std i x e)"
  by (auto simp: open_fd_def least_free_def upt_NFD std_def shut_fd_def fun_upd_def)

definition with_pipe :: "nat list \<Rightarrow> fds \<Rightarrow> fds" where
  "with_pipe \<pi> fs = fs(3 \<mapsto> PipeR \<pi>, 4 \<mapsto> PipeW \<pi>)"

lemma pipe_std: "new_pipe \<pi> (std i out e) = Some (3, 4, with_pipe \<pi> (std i out e))"
  by (simp add: new_pipe_def open_fd_def least_free_def upt_NFD std_def with_pipe_def)

lemma pipe_ends:
  "shut_fd 4 (shut_fd 3 (dup_fd 4 (shut_fd 1 (with_pipe \<pi> (std i out e))))) = std i (PipeW \<pi>) e"
  "shut_fd 4 (shut_fd 3 (dup_fd 3 (shut_fd 0 (with_pipe \<pi> (std i out e))))) = std (PipeR \<pi>) out e"
  by (auto simp: dup_fd_def least_free_def upt_NFD std_def shut_fd_def with_pipe_def fun_eq_iff)

lemma panic_execs [simp]: "execs (panic m) = []"
  by (simp add: panic_def)

lemma runcmd_execs:
  "modes_ok c \<Longrightarrow> execs (runcmd c \<pi> (std i out e)) = map (\<lambda>(ws, i, out). (ws, std i out e)) (programs c \<pi> i out)"
proof (induction c arbitrary: \<pi> i out)
  case (REDIR c f md fd)
  then have "fd = 0 \<or> fd = 1" by (auto simp: redir_ok_def)
  then show ?case using REDIR by (auto simp: open_std simp del: One_nat_def)
qed (simp_all add: pipe_std pipe_ends fork1_def del: One_nat_def)

lemma modes_ok_map: "modes_ok (map_cmd f c) \<longleftrightarrow> modes_ok c"
  by (induction c) (simp_all add: redir_ok_def)

text \<open>C15. Running a line: for every line that the parser accepts, each of its programs is started with exactly the three
  descriptors 0, 1 and 2, whatever pipes and redirections surround it; in particular no process keeps an end of a
  pipe that is not its input or output. The command to the left of a bar writes to the pipe that the command to the
  right reads, redirections apply to the whole of the command they follow, and \<^verbatim>\<open>;\<close> and \<^verbatim>\<open>&\<close> pass the
  descriptors on.\<close>

theorem sh_line_programs:
  assumes "parsecmd buf = Parsed r p" and "buf \<noteq> []" and "take 3 buf \<noteq> ''cd ''"
  shows "\<exists>t. sh_line buf (std i out e) = Run t \<and>
    execs t = map (\<lambda>(ws, i, out). (ws, std i out e)) (programs (words_of r) [] i out)"
proof -
  obtain c b where r: "r = (c, b)" by (cases r)
  have "modes_ok c" using parsecmd_modes assms(1) by (simp add: r)
  then have "modes_ok (words_of r)" by (simp add: words_of_def r modes_ok_map)
  then show ?thesis using assms by (simp add: sh_line_def fork1_def runcmd_execs)
qed

theorem sh_line_programs_witness:
  "\<exists>t. sh_line demo_line (std (Inherited 0) (Inherited 1) (Inherited 2)) = Run t \<and> execs t =
     [([''a'', ''b''], std (Inherited 0) (File ''g'' O_WRITE_NEW) (Inherited 2)),
      ([''c''], std (Inherited 0) (File ''g'' O_WRITE_NEW) (Inherited 2)),
      ([''d''], std (File ''f'' O_READ) (Inherited 1) (Inherited 2))]"
proof -
  obtain r p where r: "parsecmd demo_line = Parsed r p" "words_of r = demo_cmd" using demo_parse by blast
  have "demo_line \<noteq> []" "take 3 demo_line \<noteq> ''cd ''" by (simp_all add: demo_line_def)
  from sh_line_programs [OF r(1) this, of "Inherited 0" "Inherited 1" "Inherited 2"]
  show ?thesis by (simp add: r(2) demo_cmd_def)
qed

text \<open>Of several redirections of the same descriptor the first one on the line takes effect; the files of the others are
  opened, and emptied when they are written with \<^verbatim>\<open>>\<close>.\<close>

lemma programs_wrap:
  "\<forall>r \<in> set rs. snd (snd r) = 1 \<Longrightarrow> programs (wrap (REDIR c f m 1) rs) \<pi> i out = programs c \<pi> i (File f m)"
proof (induction rs arbitrary: c f m)
  case (Cons r rs)
  obtain g n k where r: "r = (g, n, k)" by (metis prod.exhaust)
  with Cons show ?case by simp
qed simp

lemma modes_ok_wrap: "modes_ok (wrap c rs) \<longleftrightarrow> modes_ok c \<and> (\<forall>r \<in> set rs. redir_ok r)"
  by (induction c rs rule: wrap.induct) auto

theorem first_redir_wins:
  assumes "\<forall>r \<in> set rs. redir_ok r \<and> snd (snd r) = 1" and "redir_ok (f, m, 1)"
  shows "execs (runcmd (wrap (EXEC (a # ws)) ((f, m, 1) # rs)) \<pi> (std i out e)) = [(a # ws, std i (File f m) e)]"
proof -
  have "modes_ok (wrap (EXEC (a # ws)) ((f, m, 1) # rs))" using assms by (simp only: modes_ok_wrap) auto
  from runcmd_execs [OF this, of \<pi> i out e] programs_wrap [of rs "EXEC (a # ws)" f m \<pi> i out] assms(1)
  show ?thesis by simp
qed

end
