(* ===== verification/Mkfs.thy ===== *)
theory Mkfs
  imports Fs_Dir
begin

section \<open>The image builder (mkfs/mkfs.c)\<close>

text \<open>
  \<^verbatim>\<open>mkfs\<close> runs on the build machine and writes the disk image that the kernel mounts. The image is a map from block
  numbers to blocks, with the two counters \<^verbatim>\<open>freeinode\<close> and \<^verbatim>\<open>freeblock\<close>. A failed assertion, a read behind the
  end of the image and every call of \<^verbatim>\<open>die\<close> end the program: the value is \<open>None\<close>. The fields that \<^verbatim>\<open>xshort\<close> and
  \<^verbatim>\<open>xint\<close> convert are written by \<open>put_le\<close>, least significant byte first, and so is the magic number, which
  the code does not convert: the build machine is little-endian. Every sector that is written has been read before,
  or is one of the first 46, so no write extends the image. A file to be copied is its path and the
  pieces in which \<^verbatim>\<open>read\<close> delivers its contents. The structures on disk and their accessors (\<open>get_super\<close>,
  \<open>get_dinode\<close>, \<open>put_dinode\<close>, \<open>dirent\<close>, \<open>bm_set\<close>) are those of the kernel's theories: both programs include
  the same \<^verbatim>\<open>kernel/fs.h\<close>.
\<close>

definition FSSIZE :: nat where "FSSIZE = 2000"
definition NINODES :: nat where "NINODES = 200"
definition nbitmap :: nat where "nbitmap = FSSIZE div (BSIZE * 8) + 1"
definition ninodeblocks :: nat where "ninodeblocks = NINODES div IPB + 1"
definition nlog :: nat where "nlog = nat LOGSIZE"
definition nmeta :: nat where "nmeta = 2 + nlog + ninodeblocks + nbitmap"
definition nblocks :: nat where "nblocks = FSSIZE - nmeta"

definition mk_sb :: superblock where
  "mk_sb = \<lparr>sb_magic = FSMAGIC, sb_size = FSSIZE, sb_nblocks = nblocks, sb_ninodes = NINODES, sb_nlog = nlog,
     sb_logstart = 2, sb_inodestart = 2 + nlog, sb_bmapstart = 2 + nlog + ninodeblocks\<rparr>"

record mk =
  img :: "nat \<Rightarrow> blk"
  freeinode :: nat
  freeblock :: nat

definition rsect :: "nat \<Rightarrow> mk \<Rightarrow> blk option" where
  "rsect sec m = (if sec < FSSIZE then Some (img m sec) else None)"

definition wsect :: "nat \<Rightarrow> blk \<Rightarrow> mk \<Rightarrow> mk" where
  "wsect sec x m = m\<lparr>img := (img m)(sec := x)\<rparr>"

definition winode :: "nat \<Rightarrow> dinode \<Rightarrow> mk \<Rightarrow> mk option" where
  "winode n d m =
     map_option (\<lambda>x. wsect (IBLOCK n mk_sb) (put_dinode d (doff n) x) m) (rsect (IBLOCK n mk_sb) m)"

definition rinode :: "nat \<Rightarrow> mk \<Rightarrow> dinode option" where
  "rinode n m = map_option (\<lambda>x. get_dinode x (doff n)) (rsect (IBLOCK n mk_sb) m)"

definition mk_ialloc :: "u16 \<Rightarrow> mk \<Rightarrow> (nat \<times> mk) option" where
  "mk_ialloc ty m =
     (let n = freeinode m; m = m\<lparr>freeinode := freeinode m + 1\<rparr>
      in map_option (\<lambda>m. (n, m)) (winode n (zero_dinode\<lparr>dtype := ty, dnlink := 1\<rparr>) m))"

text \<open>\<^verbatim>\<open>x = freeblock++\<close> when the slot is 0.\<close>

definition slot :: "nat \<Rightarrow> mk \<Rightarrow> nat \<times> mk" where
  "slot a m = (if a = 0 then (freeblock m, m\<lparr>freeblock := freeblock m + 1\<rparr>) else (a, m))"

text \<open>The block of the file with number \<open>fbn\<close>, allocated if need be: the first half of the body of \<^verbatim>\<open>iappend\<close>.\<close>

definition iappend_block :: "dinode \<Rightarrow> nat \<Rightarrow> mk \<Rightarrow> (nat \<times> dinode \<times> mk) option" where
  "iappend_block d fbn m =
     (if fbn < NDIRECT
      then case slot (daddrs d fbn) m of (x, m) \<Rightarrow> Some (x, d\<lparr>daddrs := (daddrs d)(fbn := x)\<rparr>, m)
      else case slot (daddrs d NDIRECT) m of
        (ind, m) \<Rightarrow>
          (case rsect ind m of
             None \<Rightarrow> None
           | Some t \<Rightarrow>
               (let d = d\<lparr>daddrs := (daddrs d)(NDIRECT := ind)\<rparr>; a = get_le 4 t (4 * (fbn - NDIRECT))
                in case slot a m of
                     (x, m) \<Rightarrow> Some (x, d, if a = 0 then wsect ind (put_le 4 (4 * (fbn - NDIRECT)) x t) m else m))))"

lemma off_in_block: "off < (off div BSIZE + 1) * BSIZE"
  using div_mult_mod_eq [of off BSIZE] mod_less_divisor [OF BSIZE_pos, of off] by (simp only: distrib_right mult_1)

function iappend_loop :: "dinode \<Rightarrow> u8 list \<Rightarrow> nat \<Rightarrow> mk \<Rightarrow> (dinode \<times> nat \<times> mk) option" where
  "iappend_loop d ys off m =
     (if ys = [] then Some (d, off, m)
      else let fbn = off div BSIZE
           in if fbn \<ge> MAXFILE then None
              else case iappend_block d fbn m of
                     None \<Rightarrow> None
                   | Some (x, d, m) \<Rightarrow>
                       (case rsect x m of
                          None \<Rightarrow> None
                        | Some t \<Rightarrow>
                            (let n1 = min (length ys) ((fbn + 1) * BSIZE - off)
                             in iappend_loop d (drop n1 ys) (off + n1)
                                  (wsect x (put_chunk (off - fbn * BSIZE) (take n1 ys) t) m))))"
  by pat_completeness auto
termination
proof (relation "measure (\<lambda>(d, ys, off, m). length ys)")
  fix d :: dinode and ys :: "u8 list" and off n1 :: nat and m :: mk and fbn
  show "n1 = min (length ys) ((fbn + 1) * BSIZE - off) \<Longrightarrow> fbn = off div BSIZE \<Longrightarrow> ys \<noteq> [] \<Longrightarrow>
    ((d', drop n1 ys, off + n1, m'), d, ys, off, m) \<in> measure (\<lambda>(d, ys, off, m). length ys)" for d' m'
    using off_in_block [of off] by (cases ys) auto
qed auto

declare iappend_loop.simps [simp del]

definition iappend :: "nat \<Rightarrow> u8 list \<Rightarrow> mk \<Rightarrow> mk option" where
  "iappend n ys m =
     (case rinode n m of
        None \<Rightarrow> None
      | Some d \<Rightarrow>
          (case iappend_loop d ys (dsize d) m of
             None \<Rightarrow> None
           | Some (d, off, m) \<Rightarrow> winode n (d\<lparr>dsize := off\<rparr>) m))"

definition mk_balloc :: "nat \<Rightarrow> mk \<Rightarrow> mk option" where
  "mk_balloc n m =
     (if n < BSIZE * 8 then Some (wsect (sb_bmapstart mk_sb) (fold bm_set [0..<n] (\<lambda>_. 0)) m) else None)"

text \<open>The image after the loop that clears it, with the super block written.\<close>

definition put_super :: "superblock \<Rightarrow> blk" where
  "put_super sb = put_le 4 28 (sb_bmapstart sb) (put_le 4 24 (sb_inodestart sb) (put_le 4 20 (sb_logstart sb)
     (put_le 4 16 (sb_nlog sb) (put_le 4 12 (sb_ninodes sb) (put_le 4 8 (sb_nblocks sb) (put_le 4 4 (sb_size sb)
     (put_le 4 0 (sb_magic sb) (\<lambda>_. 0))))))))"

definition empty_image :: mk where
  "empty_image = wsect 1 (put_super mk_sb) \<lparr>img = (\<lambda>_ _. 0), freeinode = 1, freeblock = nmeta\<rparr>"

definition root_image :: "mk option" where
  "root_image =
     (case mk_ialloc T_DIR empty_image of
        None \<Rightarrow> None
      | Some (rootino, m) \<Rightarrow>
          if rootino \<noteq> ROOTINO then None
          else case iappend rootino (dirent rootino [46]) m of
                 None \<Rightarrow> None
               | Some m \<Rightarrow> iappend rootino (dirent rootino [46, 46]) m)"

text \<open>The name under which a file is entered: without \<^verbatim>\<open>user/\<close> and without a leading underscore; a slash that remains
  is an error.\<close>

definition shortname :: "u8 list \<Rightarrow> u8 list option" where
  "shortname path =
     (let s = (if take 5 path = [117, 115, 101, 114, 47] then drop 5 path else path)
      in if 47 \<in> set s then None
         else Some (if s \<noteq> [] \<and> hd s = 95 then tl s else s))"

primrec copy_pieces :: "nat \<Rightarrow> u8 list list \<Rightarrow> mk \<Rightarrow> mk option" where
  "copy_pieces n [] m = Some m"
| "copy_pieces n (p # ps) m = (case iappend n p m of None \<Rightarrow> None | Some m \<Rightarrow> copy_pieces n ps m)"

definition add_file :: "u8 list \<times> u8 list list \<Rightarrow> mk \<Rightarrow> mk option" where
  "add_file f m =
     (case shortname (fst f) of
        None \<Rightarrow> None
      | Some name \<Rightarrow>
          (case mk_ialloc T_FILE m of
             None \<Rightarrow> None
           | Some (n, m) \<Rightarrow>
               (case iappend ROOTINO (dirent n name) m of None \<Rightarrow> None | Some m \<Rightarrow> copy_pieces n (snd f) m)))"

primrec add_files :: "(u8 list \<times> u8 list list) list \<Rightarrow> mk \<Rightarrow> mk option" where
  "add_files [] m = Some m"
| "add_files (f # fs) m = (case add_file f m of None \<Rightarrow> None | Some m \<Rightarrow> add_files fs m)"

text \<open>The end of \<^verbatim>\<open>main\<close>: the size of the root directory is rounded up, and the bitmap is written.\<close>

definition finish_image :: "mk \<Rightarrow> mk option" where
  "finish_image m =
     (case rinode ROOTINO m of
        None \<Rightarrow> None
      | Some d \<Rightarrow>
          (case winode ROOTINO (d\<lparr>dsize := (dsize d div BSIZE + 1) * BSIZE\<rparr>) m of
             None \<Rightarrow> None
           | Some m \<Rightarrow> mk_balloc (freeblock m) m))"

definition mkfs :: "(u8 list \<times> u8 list list) list \<Rightarrow> mk option" where
  "mkfs fs =
     (case root_image of
        None \<Rightarrow> None
      | Some m \<Rightarrow> (case add_files fs m of None \<Rightarrow> None | Some m \<Rightarrow> finish_image m))"

subsection \<open>The blocks of one file\<close>

text \<open>A file that occupies its first \<open>k\<close> blocks: their addresses are between \<open>nmeta\<close> and \<open>fb\<close> and different from each
  other and from the indirect block, and all later slots are 0.\<close>

definition file_wf :: "dinode \<Rightarrow> (nat \<Rightarrow> blk) \<Rightarrow> nat \<Rightarrow> nat \<Rightarrow> bool" where
  "file_wf d v k fb \<longleftrightarrow> k \<le> MAXFILE \<and>
     (\<forall>a < k. nmeta \<le> baddr d v a \<and> baddr d v a < fb) \<and> inj_on (baddr d v) {..<k} \<and>
     (\<forall>a < NDIRECT. k \<le> a \<longrightarrow> daddrs d a = 0) \<and>
     (if NDIRECT < k then nmeta \<le> daddrs d NDIRECT \<and> daddrs d NDIRECT < fb \<and> daddrs d NDIRECT \<notin> baddr d v ` {..<k} \<and>
        (\<forall>a. k \<le> a \<and> a < MAXFILE \<longrightarrow> baddr d v a = 0)
      else daddrs d NDIRECT = 0)"

definition own :: "dinode \<Rightarrow> (nat \<Rightarrow> blk) \<Rightarrow> nat \<Rightarrow> nat set" where
  "own d v k = baddr d v ` {..<k} \<union> (if NDIRECT < k then {daddrs d NDIRECT} else {})"

text \<open>The number of blocks that a file of \<open>k\<close> data blocks takes.\<close>

definition blk_use :: "nat \<Rightarrow> nat" where
  "blk_use k = k + (if NDIRECT < k then 1 else 0)"

definition fresh :: "mk \<Rightarrow> bool" where
  "fresh m \<longleftrightarrow> nmeta \<le> freeblock m \<and> (\<forall>b \<ge> freeblock m. img m b = (\<lambda>_. 0))"

lemma nmeta_pos [simp]: "0 < nmeta"
  by (simp add: nmeta_def)

text \<open>The address of block \<open>k\<close> in a new slot, direct or indirect.\<close>

lemma baddr_direct: "a < NDIRECT \<Longrightarrow> baddr d v a = daddrs d a"
  by (simp add: baddr_def)

lemma file_wf_mono: "file_wf d v k fb \<Longrightarrow> fb \<le> fb' \<Longrightarrow> file_wf d v k fb'"
  unfolding file_wf_def by (auto split: if_splits)

text \<open>What \<open>iappend_block\<close> returns for the block with number \<open>n\<close> of a file that has \<open>k\<close> blocks.\<close>

definition block_got :: "dinode \<Rightarrow> nat \<Rightarrow> nat \<Rightarrow> mk \<Rightarrow> nat \<Rightarrow> dinode \<Rightarrow> mk \<Rightarrow> bool" where
  "block_got d k n m x d' m' \<longleftrightarrow>
     file_wf d' (img m') (max k (Suc n)) (freeblock m') \<and> baddr d' (img m') n = x \<and> x < freeblock m' \<and>
     (\<forall>a < k. baddr d' (img m') a = baddr d (img m) a) \<and> (n = k \<longrightarrow> freeblock m \<le> x \<and> img m' x = (\<lambda>_. 0)) \<and>
     (\<forall>b. b \<noteq> daddrs d' NDIRECT \<longrightarrow> img m' b = img m b) \<and> x \<noteq> daddrs d' NDIRECT \<and>
     freeblock m \<le> freeblock m' \<and> (\<forall>b \<ge> freeblock m'. img m' b = (\<lambda>_. 0)) \<and>
     (daddrs d' NDIRECT = 0 \<or> daddrs d' NDIRECT \<in> own d (img m) k \<union> {freeblock m..<freeblock m'}) \<and>
     d' = d\<lparr>daddrs := daddrs d'\<rparr> \<and> (\<forall>a > NDIRECT. daddrs d' a = daddrs d a) \<and> freeinode m' = freeinode m \<and>
     freeblock m' + blk_use k = freeblock m + blk_use (max k (Suc n)) \<and> (freeblock m' = freeblock m \<or> freeblock m' = Suc x)"

lemma file_wf_ind: "file_wf d v k fb \<Longrightarrow> a < k \<Longrightarrow> baddr d v a \<noteq> daddrs d NDIRECT \<and> 0 < baddr d v a"
proof -
  assume w: "file_wf d v k fb" and a: "a < k"
  have p: "nmeta \<le> baddr d v a" "baddr d v a \<in> baddr d v ` {..<k}" using w a by (auto simp: file_wf_def)
  have "daddrs d NDIRECT = 0 \<or> daddrs d NDIRECT \<notin> baddr d v ` {..<k}" using w by (cases "NDIRECT < k") (simp_all add: file_wf_def)
  then show "baddr d v a \<noteq> daddrs d NDIRECT \<and> 0 < baddr d v a" using p nmeta_pos by (metis gr0I leD)
qed

lemma inj_on_Suc:
  assumes "inj_on f {..<k}" and "\<And>a. a < k \<Longrightarrow> g a = f a \<and> f a \<noteq> g k"
  shows "inj_on g {..<Suc k}"
proof -
  have "inj_on g {..<k}" using assms by (subst inj_on_cong [of _ _ f]) auto
  moreover have "g k \<notin> g ` {..<k}" using assms(2) by fastforce
  ultimately show ?thesis by (simp add: lessThan_Suc inj_on_insert)
qed

lemma block_old:
  assumes wf: "file_wf d (img m) k (freeblock m)" and n: "n < k" and g: "iappend_block d n m = Some (x, d', m')" and f: "fresh m"
  shows "block_got d k n m x d' m'"
proof -
  have b: "nmeta \<le> baddr d (img m) n" "baddr d (img m) n < freeblock m" "k \<le> MAXFILE" using wf n by (auto simp: file_wf_def)
  then have p: "0 < baddr d (img m) n" using nmeta_pos by linarith
  have "NDIRECT \<le> n \<Longrightarrow> 0 < daddrs d NDIRECT"
    using wf n nmeta_pos by (auto simp: file_wf_def split: if_splits simp del: nmeta_pos)
  then have "x = baddr d (img m) n \<and> d' = d \<and> m' = m"
    using g p by (auto simp: iappend_block_def slot_def baddr_def rsect_def Let_def split: if_splits)
  moreover have "max k (Suc n) = k" using n by simp
  moreover have "daddrs d NDIRECT = 0 \<or> daddrs d NDIRECT \<in> own d (img m) k" using wf by (auto simp: file_wf_def own_def)
  ultimately show ?thesis using wf b f file_wf_ind [OF wf n] n by (auto simp: block_got_def fresh_def)
qed

lemma block_direct:
  assumes wf: "file_wf d (img m) k (freeblock m)" and n: "k < NDIRECT" and g: "iappend_block d k m = Some (x, d', m')" and f: "fresh m"
  shows "block_got d k k m x d' m'"
proof -
  let ?fb = "freeblock m"
  have z: "daddrs d k = 0" "daddrs d NDIRECT = 0" using wf n by (auto simp: file_wf_def)
  have r: "x = ?fb" "d' = d\<lparr>daddrs := (daddrs d)(k := ?fb)\<rparr>" "m' = m\<lparr>freeblock := ?fb + 1\<rparr>"
    using g n z by (auto simp: iappend_block_def slot_def)
  have ba: "baddr d' v a = (if a = k then ?fb else baddr d v a)" if "a \<le> k" for v a using that n by (auto simp: baddr_def r(2))
  have old: "\<forall>a < k. nmeta \<le> baddr d (img m) a \<and> baddr d (img m) a < ?fb" "inj_on (baddr d (img m)) {..<k}" using wf by (auto simp: file_wf_def)
  have "inj_on (baddr d' (img m)) {..<Suc k}"
    by (rule inj_on_Suc [OF old(2)]) (use old(1) in \<open>auto simp: ba\<close>)
  moreover have "NDIRECT < MAXFILE" by (simp add: MAXFILE_def NINDIRECT_def BSIZE_def)
  moreover have "daddrs d' NDIRECT = 0" "\<forall>a < NDIRECT. Suc k \<le> a \<longrightarrow> daddrs d' a = 0" using wf n by (auto simp: file_wf_def r(2))
  moreover have "nmeta \<le> baddr d' (img m) a \<and> baddr d' (img m) a < Suc ?fb" if "a < Suc k" for a
    using that old(1) f by (cases "a = k") (auto simp: ba fresh_def less_Suc_eq)
  ultimately have "file_wf d' (img m) (Suc k) (Suc ?fb)" using n by (simp add: file_wf_def)
  moreover have "nmeta \<le> ?fb" "\<forall>b \<ge> ?fb. img m b = (\<lambda>_. 0)" using f by (simp_all add: fresh_def)
  moreover have "?fb \<noteq> 0" using \<open>nmeta \<le> ?fb\<close> nmeta_pos by linarith
  moreover have "d' = d\<lparr>daddrs := daddrs d'\<rparr>" "\<forall>a > NDIRECT. daddrs d' a = daddrs d a" "daddrs d' NDIRECT = 0"
    using z n by (auto simp: r(2))
  moreover have "img m' = img m" "freeblock m' = Suc ?fb" "freeinode m' = freeinode m" by (simp_all add: r(3))
  ultimately show ?thesis using n by (simp add: block_got_def r(1) ba blk_use_def)
qed

lemma baddr_put:
  assumes "NDIRECT \<le> k" and "x < 2 ^ 32" and "v' = v(daddrs d NDIRECT := put_le 4 (4 * (k - NDIRECT)) x (v (daddrs d NDIRECT)))"
  shows "baddr d v' a = (if a = k then x else baddr d v a)"
proof (cases "a < NDIRECT \<or> a = k")
  case True
  then show ?thesis using assms by (auto simp: baddr_def)
next
  case False
  then have "4 * (k - NDIRECT) + 4 \<le> 4 * (a - NDIRECT) \<or> 4 * (a - NDIRECT) + 4 \<le> 4 * (k - NDIRECT)"
    using assms(1) by auto
  then show ?thesis using False by (simp add: baddr_def assms(3) get_put_le_other)
qed

lemma get_le_0 [simp]: "get_le j (\<lambda>_. 0) p = 0"
  by (simp add: get_le_def)

text \<open>Taking an indirect block, when there is none yet, changes no block of the file and leaves the rest of it unmapped.\<close>

lemma baddr_new_indirect:
  assumes wf: "file_wf d (img m) k (freeblock m)" and f: "fresh m" and k: "NDIRECT \<le> k"
    and i: "slot (daddrs d NDIRECT) m = (ind, m1)" and d1: "d1 = d\<lparr>daddrs := (daddrs d)(NDIRECT := ind)\<rparr>"
  shows "a < k \<Longrightarrow> baddr d1 (img m) a = baddr d (img m) a" and "k \<le> a \<Longrightarrow> a < MAXFILE \<Longrightarrow> baddr d1 (img m) a = 0"
proof -
  have "(NDIRECT < k \<longrightarrow> d1 = d) \<and> (k = NDIRECT \<longrightarrow> ind = freeblock m)"
    using wf i nmeta_pos by (auto simp: file_wf_def slot_def d1 simp del: nmeta_pos split: if_splits)
  then have c: "k = NDIRECT \<and> ind = freeblock m \<or> NDIRECT < k \<and> d1 = d" using k by linarith
  have z: "img m (freeblock m) = (\<lambda>_. 0)" using f by (simp add: fresh_def)
  from c show "baddr d1 (img m) a = baddr d (img m) a" if "a < k"
  proof
    assume "k = NDIRECT \<and> ind = freeblock m"
    then show ?thesis using that by (simp add: baddr_def d1)
  qed simp
  from c show "baddr d1 (img m) a = 0" if "k \<le> a" "a < MAXFILE"
  proof
    assume "k = NDIRECT \<and> ind = freeblock m"
    then show ?thesis using that z by (simp add: baddr_def d1)
  qed (use wf that in \<open>simp add: file_wf_def\<close>)
qed

lemma block_indirect:
  assumes wf: "file_wf d (img m) k (freeblock m)" and k: "NDIRECT \<le> k" "k < MAXFILE"
    and g: "iappend_block d k m = Some (x, d', m')" and f: "fresh m" and lim: "freeblock m + 2 < 2 ^ 32"
  shows "block_got d k k m x d' m'"
proof -
  let ?fb = "freeblock m" and ?v = "img m"
  obtain ind m1 where i: "slot (daddrs d NDIRECT) m = (ind, m1)" by (cases "slot (daddrs d NDIRECT) m")
  define d1 where "d1 = d\<lparr>daddrs := (daddrs d)(NDIRECT := ind)\<rparr>"
  have ff: "nmeta \<le> ?fb" "\<And>b. ?fb \<le> b \<Longrightarrow> ?v b = (\<lambda>_. 0)" using f by (simp_all add: fresh_def)
  have img1: "img m1 = ?v" "freeinode m1 = freeinode m" using i by (auto simp: slot_def split: if_splits)
  have old: "\<forall>a < k. nmeta \<le> baddr d ?v a \<and> baddr d ?v a < ?fb" "inj_on (baddr d ?v) {..<k}" using wf by (auto simp: file_wf_def)
  note b1 = baddr_new_indirect(1) [OF wf f k(1) i d1_def] and z1 = baddr_new_indirect(2) [OF wf f k(1) i d1_def]
  have "baddr d1 ?v k = get_le 4 (?v ind) (4 * (k - NDIRECT))" using k by (simp add: baddr_def d1_def)
  then have a0: "get_le 4 (?v ind) (4 * (k - NDIRECT)) = 0" using z1 k by simp
  have r: "x = freeblock m1" "d' = d1" "m' = wsect ind (put_le 4 (4 * (k - NDIRECT)) x (?v ind)) (m1\<lparr>freeblock := x + 1\<rparr>)"
    using g k a0 slot_def [of 0 m1] by (auto simp: iappend_block_def i rsect_def img1 Let_def d1_def split: if_splits)
  have ind: "nmeta \<le> ind" "ind < x" "ind \<notin> baddr d ?v ` {..<k}" "?fb \<le> x" "x < 2 ^ 32" "ind \<in> own d ?v k \<union> {?fb..<x}"
    using wf i r(1) ff(1) lim old(1) by (auto simp: file_wf_def slot_def own_def split: if_splits)
  have v': "img m' = ?v(ind := put_le 4 (4 * (k - NDIRECT)) x (?v ind))" by (simp add: r(3) wsect_def img1)
  have b': "baddr d1 (img m') a = (if a = k then x else baddr d1 ?v a)" for a
    by (rule baddr_put [OF k(1) ind(5)]) (simp add: v' d1_def)
  have dd: "daddrs d1 NDIRECT = ind" "d1 = d\<lparr>daddrs := daddrs d1\<rparr>" "\<forall>a > NDIRECT. daddrs d1 a = daddrs d a" "\<forall>a < NDIRECT. daddrs d1 a = daddrs d a"
    by (simp_all add: d1_def)
  have "inj_on (baddr d1 (img m')) {..<Suc k}"
  proof (rule inj_on_Suc [OF old(2)])
    fix a assume a: "a < k"
    then have "baddr d ?v a < ?fb" using old(1) by simp
    then show "baddr d1 (img m') a = baddr d ?v a \<and> baddr d ?v a \<noteq> baddr d1 (img m') k" using a b1 ind(4) by (simp add: b')
  qed
  moreover have "ind \<notin> baddr d1 (img m') ` {..<Suc k}" using ind(2,3) b1 by (auto simp: b' lessThan_Suc)
  moreover have "\<forall>a < Suc k. nmeta \<le> baddr d1 (img m') a \<and> baddr d1 (img m') a < Suc x"
  proof (intro allI impI)
    fix a assume a: "a < Suc k"
    show "nmeta \<le> baddr d1 (img m') a \<and> baddr d1 (img m') a < Suc x"
      using a old(1) ind(4) ff(1) b1 by (cases "a = k") (auto simp: b' dest: spec [of _ a])
  qed
  ultimately have "file_wf d1 (img m') (Suc k) (Suc x)"
    using k ind(1,2) z1 dd by (auto simp: file_wf_def b')
  moreover have "\<forall>b \<ge> Suc x. img m' b = (\<lambda>_. 0)" using ff(2) ind(2,4) by (auto simp: v')
  moreover have "img m' x = (\<lambda>_. 0)" using ff(2) ind(2,4) by (simp add: v')
  moreover have "freeblock m' = Suc x" "freeinode m' = freeinode m" by (simp_all add: r(3) wsect_def img1)
  moreover have "\<forall>b. b \<noteq> ind \<longrightarrow> img m' b = ?v b" by (simp add: v')
  moreover have "ind \<in> own d ?v k \<union> {?fb..<Suc x}" using ind(4,6) by auto
  moreover have "\<forall>a < k. baddr d1 (img m') a = baddr d ?v a" using b1 by (simp add: b')
  moreover have "x \<noteq> ind" "baddr d1 (img m') k = x" using ind(2) by (simp_all add: b')
  moreover have "Suc x + blk_use k = ?fb + blk_use (Suc k)"
    using wf i r(1) k nmeta_pos by (auto simp: blk_use_def slot_def file_wf_def simp del: nmeta_pos split: if_splits)
  ultimately show ?thesis
    using ind(4) dd(2,3) unfolding block_got_def r(2) dd(1) by simp
qed

lemma iappend_block_ok:
  assumes "file_wf d (img m) k (freeblock m)" and "n \<le> k" and "n < MAXFILE" and "fresh m" and "freeblock m + 2 < 2 ^ 32"
    and "iappend_block d n m = Some (x, d', m')"
  shows "block_got d k n m x d' m'"
proof -
  consider "n < k" | "n = k" "k < NDIRECT" | "n = k" "NDIRECT \<le> k" using assms(2) by linarith
  then show ?thesis by cases (use assms block_old block_direct block_indirect in \<open>auto\<close>)
qed

text \<open>There is a block as long as the image has room.\<close>

lemma iappend_block_Some:
  assumes "file_wf d (img m) k (freeblock m)" and "n \<le> k" and "freeblock m \<le> FSSIZE"
    and "freeblock m + blk_use (max k (Suc n)) \<le> FSSIZE + blk_use k"
  shows "\<exists>r. iappend_block d n m = Some r"
proof (cases "n < NDIRECT")
  case False
  have "fst (slot (daddrs d NDIRECT) m) < FSSIZE"
    using assms False nmeta_pos by (auto simp: slot_def file_wf_def blk_use_def max_def simp del: nmeta_pos split: if_splits)
  then show ?thesis using False by (auto simp: iappend_block_def rsect_def Let_def split: prod.splits)
qed (simp add: iappend_block_def split: prod.splits)

subsection \<open>The contents of a file\<close>

definition nblk :: "nat \<Rightarrow> nat" where
  "nblk n = (n + BSIZE - 1) div BSIZE"

definition block_of :: "u8 list \<Rightarrow> nat \<Rightarrow> blk" where
  "block_of xs a = (\<lambda>j. if j < BSIZE \<and> a * BSIZE + j < length xs then xs ! (a * BSIZE + j) else 0)"

text \<open>The blocks of the inode \<open>d\<close> hold the bytes \<open>xs\<close>, filled up with zeros.\<close>

definition stored :: "dinode \<Rightarrow> mk \<Rightarrow> u8 list \<Rightarrow> bool" where
  "stored d m xs \<longleftrightarrow> file_wf d (img m) (nblk (length xs)) (freeblock m) \<and>
     (\<forall>a < nblk (length xs). img m (baddr d (img m) a) = block_of xs a)"

abbreviation owned :: "dinode \<Rightarrow> mk \<Rightarrow> u8 list \<Rightarrow> nat set" where
  "owned d m xs \<equiv> own d (img m) (nblk (length xs))"

lemma nblk_iff: "a < nblk n \<longleftrightarrow> a * BSIZE < n"
proof -
  have "a < nblk n \<longleftrightarrow> Suc a \<le> (n + BSIZE - 1) div BSIZE" by (simp add: nblk_def Suc_le_eq)
  also have "\<dots> \<longleftrightarrow> Suc a * BSIZE \<le> n + BSIZE - 1" by (rule less_eq_div_iff_mult_less_eq) simp
  also have "\<dots> \<longleftrightarrow> a * BSIZE < n" using BSIZE_pos by (simp del: BSIZE_pos, linarith)
  finally show ?thesis .
qed

lemma nblk_0 [simp]: "nblk 0 = 0"
  using nblk_iff [of 0 0] by simp

text \<open>After appending \<open>n1\<close> bytes within the block of the offset.\<close>

lemma nblk_step:
  assumes "0 < n1" and "n1 \<le> (off div BSIZE + 1) * BSIZE - off"
  shows "off div BSIZE \<le> nblk off" and "max (nblk off) (Suc (off div BSIZE)) = nblk (off + n1)"
    and "off div BSIZE < nblk off \<or> off div BSIZE = nblk off \<and> off = off div BSIZE * BSIZE"
proof -
  have e: "off div BSIZE * BSIZE \<le> off" "off < (off div BSIZE + 1) * BSIZE" using off_in_block by simp_all
  have u: "a < nblk j \<Longrightarrow> a < off div BSIZE + 1" if "j \<le> (off div BSIZE + 1) * BSIZE" for a j
    using that by (metis BSIZE_pos less_le_trans mult_less_cancel2 nblk_iff)
  have le: "nblk off \<le> Suc (off div BSIZE)" using u [of off "nblk off - 1"] e(2) by linarith
  have "off div BSIZE < nblk (off + n1)" unfolding nblk_iff using e assms by linarith
  moreover have "nblk (off + n1) \<le> Suc (off div BSIZE)" using u [of "off + n1" "nblk (off + n1) - 1"] e assms by linarith
  ultimately show "max (nblk off) (Suc (off div BSIZE)) = nblk (off + n1)" using le by linarith
  show f: "off div BSIZE < nblk off \<or> off div BSIZE = nblk off \<and> off = off div BSIZE * BSIZE"
  proof (cases "off div BSIZE * BSIZE < off")
    case False
    then have "off = off div BSIZE * BSIZE" using e by simp
    moreover have "nblk off \<le> off div BSIZE" using nblk_iff [of "nblk off - 1" off] False
      by (metis diff_less less_nat_zero_code not_le mult_less_cancel2 nblk_iff)
    moreover have "off div BSIZE \<le> nblk off" by (metis BSIZE_pos calculation(1) mult_less_cancel2 nblk_iff not_le less_irrefl)
    ultimately show ?thesis by linarith
  qed (simp add: nblk_iff)
  then show "off div BSIZE \<le> nblk off" by auto
qed

lemma baddr_upd [simp]: "x \<noteq> daddrs d NDIRECT \<Longrightarrow> baddr d (v(x := t)) a = baddr d v a"
  by (simp add: baddr_def)

lemma baddr_upd_fun [simp]: "x \<noteq> daddrs d NDIRECT \<Longrightarrow> baddr d (v(x := t)) = baddr d v"
  by (simp add: fun_eq_iff)

lemma file_wf_upd: "x \<noteq> daddrs d NDIRECT \<Longrightarrow> file_wf d (v(x := t)) k fb = file_wf d v k fb"
  by (simp add: file_wf_def)

text \<open>The block that one round of \<^verbatim>\<open>iappend\<close> writes.\<close>

lemma put_chunk_block_of:
  assumes "n1 \<le> (length xs div BSIZE + 1) * BSIZE - length xs" and "n1 \<le> length ys"
  shows "put_chunk (length xs - length xs div BSIZE * BSIZE) (take n1 ys) (block_of xs (length xs div BSIZE)) =
    block_of (xs @ take n1 ys) (length xs div BSIZE)"
proof -
  let ?p = "length xs div BSIZE * BSIZE"
  have "?p \<le> length xs" by simp
  then show ?thesis using assms by (auto simp: put_chunk_def block_of_def nth_append fun_eq_iff add.commute [of ?p])
qed

lemma block_of_other:
  assumes "a \<noteq> length xs div BSIZE" and "a < nblk (length xs)"
  shows "block_of (xs @ ys) a = block_of xs a"
proof -
  have "a < length xs div BSIZE" using assms by (metis BSIZE_pos div_le_mono div_mult_self_is_m nblk_iff nless_le order_le_less)
  then have "(a + 1) * BSIZE \<le> length xs" by (simp only: less_eq_div_iff_mult_less_eq [OF BSIZE_pos, symmetric])
  then show ?thesis by (auto simp: block_of_def nth_append fun_eq_iff)
qed

text \<open>What an append does to the file and to the rest of the image.\<close>

definition grown :: "dinode \<Rightarrow> mk \<Rightarrow> u8 list \<Rightarrow> dinode \<Rightarrow> mk \<Rightarrow> u8 list \<Rightarrow> bool" where
  "grown d m xs d' m' xs' \<longleftrightarrow> stored d' m' xs' \<and> fresh m' \<and> freeblock m \<le> freeblock m' \<and> freeblock m' \<le> FSSIZE \<and>
     (\<forall>b. 0 < b \<and> b < freeblock m \<and> b \<notin> owned d m xs \<longrightarrow> img m' b = img m b) \<and>
     owned d' m' xs' \<subseteq> owned d m xs \<union> {freeblock m..<freeblock m'} \<and>
     d' = d\<lparr>daddrs := daddrs d'\<rparr> \<and> (\<forall>a > NDIRECT. daddrs d' a = daddrs d a) \<and> freeinode m' = freeinode m \<and>
     freeblock m' + blk_use (nblk (length xs)) = freeblock m + blk_use (nblk (length xs'))"

lemma grown_trans:
  assumes "grown d m xs d1 m1 ys" and "grown d1 m1 ys d2 m2 zs"
  shows "grown d m xs d2 m2 zs"
proof -
  have "img m2 b = img m b" if "0 < b \<and> b < freeblock m \<and> b \<notin> owned d m xs" for b
  proof -
    have "b \<notin> owned d1 m1 ys" "b < freeblock m1" using that assms(1) by (auto simp: grown_def)
    then have "img m2 b = img m1 b" using that assms(2) by (simp add: grown_def)
    then show ?thesis using that assms(1) by (simp add: grown_def)
  qed
  moreover have "owned d2 m2 zs \<subseteq> owned d m xs \<union> {freeblock m..<freeblock m2}"
  proof -
    have "owned d2 m2 zs \<subseteq> owned d1 m1 ys \<union> {freeblock m1..<freeblock m2}" "owned d1 m1 ys \<subseteq> owned d m xs \<union> {freeblock m..<freeblock m1}"
      "freeblock m \<le> freeblock m1" "freeblock m1 \<le> freeblock m2" using assms by (simp_all add: grown_def)
    then show ?thesis by fastforce
  qed
  moreover have "d2 = d\<lparr>daddrs := daddrs d2\<rparr>" using assms unfolding grown_def by (metis dinode.update_convs(6) dinode.surjective dinode.ext_inject)
  ultimately show ?thesis using assms by (simp add: grown_def)
qed

lemma own_upd: "x \<noteq> daddrs d NDIRECT \<Longrightarrow> own d (v(x := t)) k = own d v k"
  by (simp add: own_def)

lemma own_ind: "file_wf d v k fb \<Longrightarrow> daddrs d NDIRECT \<noteq> 0 \<Longrightarrow> own d v k = insert (daddrs d NDIRECT) (baddr d v ` {..<k})"
  by (auto simp: file_wf_def own_def split: if_splits)

text \<open>The blocks after \<open>iappend_block\<close>: the old ones and newly allocated ones.\<close>

lemma block_got_own:
  assumes "block_got d k n m x d' m'" and "n \<le> k" and "file_wf d (img m) k (freeblock m)"
  defines "S \<equiv> own d (img m) k \<union> {freeblock m..<freeblock m'}"
  shows "own d' (img m') (max k (Suc n)) \<subseteq> S" and "x \<in> S"
proof -
  have g: "baddr d' (img m') n = x" "x < freeblock m'" "\<forall>a < k. baddr d' (img m') a = baddr d (img m) a"
    "n = k \<Longrightarrow> freeblock m \<le> x" "daddrs d' NDIRECT = 0 \<or> daddrs d' NDIRECT \<in> S"
    "file_wf d' (img m') (max k (Suc n)) (freeblock m')"
    using assms(1) by (auto simp: block_got_def S_def)
  show x: "x \<in> S" using g assms(2) by (cases "n = k") (auto simp: own_def S_def)
  have "baddr d' (img m') a \<in> S" if "a < max k (Suc n)" for a
  proof (cases "a < k")
    case True
    then show ?thesis using g(3) by (simp add: S_def own_def)
  next
    case False
    then have "a = n" using that assms(2) by linarith
    then show ?thesis using g(1) x by simp
  qed
  moreover have "NDIRECT < max k (Suc n) \<Longrightarrow> daddrs d' NDIRECT \<in> S"
    using g(5,6) nmeta_pos by (auto simp: file_wf_def simp del: nmeta_pos)
  ultimately show "own d' (img m') (max k (Suc n)) \<subseteq> S" unfolding own_def by auto
qed

text \<open>One round of the loop.\<close>

lemma iappend_round:
  assumes st: "stored d m xs" and f: "fresh m" and fb: "freeblock m \<le> FSSIZE"
    and off: "off = length xs" "fbn = off div BSIZE" "fbn < MAXFILE"
    and b: "iappend_block d fbn m = Some (x, d', m')" and r: "rsect x m' = Some t"
    and n1: "n1 = min (length ys) ((fbn + 1) * BSIZE - off)" and ys: "ys \<noteq> []"
  shows "grown d m xs d' (wsect x (put_chunk (off - fbn * BSIZE) (take n1 ys) t) m') (xs @ take n1 ys)"
proof -
  let ?k = "nblk off" and ?v = "img m'" and ?k' = "nblk (off + n1)"
  have n1': "n1 \<le> (off div BSIZE + 1) * BSIZE - off" "n1 \<le> length ys" using n1 off by auto
  have "0 < n1" using n1 off(2) ys off_in_block [of off] by simp
  note k = nblk_step [OF this n1'(1), folded off(2)]
  have wf: "file_wf d (img m) ?k (freeblock m)" using st off by (simp add: stored_def)
  have g: "block_got d ?k fbn m x d' m'"
    by (rule iappend_block_ok [OF wf k(1) off(3) f _ b]) (use fb in \<open>simp add: FSSIZE_def\<close>)
  then have wf': "file_wf d' ?v ?k' (freeblock m')" and xb: "baddr d' ?v fbn = x" "x < freeblock m'" "x \<noteq> daddrs d' NDIRECT"
    and same: "\<forall>a < ?k. baddr d' ?v a = baddr d (img m) a"
    and keep: "\<And>b. b \<noteq> daddrs d' NDIRECT \<Longrightarrow> ?v b = img m b"
    using k(2) by (simp_all add: block_got_def)
  have z: "fbn = ?k \<longrightarrow> ?v x = (\<lambda>_. 0)" using g unfolding block_got_def by blast
  have t: "t = ?v x" "x < FSSIZE" using r by (auto simp: rsect_def split: if_splits)
  have old: "?v (baddr d' ?v a) = block_of xs a" if "a < ?k" for a
  proof -
    have "?v (baddr d' ?v a) = img m (baddr d (img m) a)"
      using that file_wf_ind [OF wf', of a] k(2) same by (simp add: keep max_def split: if_splits)
    then show ?thesis using st that off by (simp add: stored_def)
  qed
  have tb: "t = block_of xs fbn"
  proof (cases "fbn < ?k")
    case True
    then show ?thesis using old [of fbn] xb(1) t(1) by simp
  next
    case False
    with k(3) have e: "fbn = ?k" "off = fbn * BSIZE" by blast+
    have "block_of xs fbn = (\<lambda>_. 0)" using eq_refl [OF e(2)] off(1) by (simp add: block_of_def)
    moreover have "t = (\<lambda>_. 0)" using z e(1) t(1) by blast
    ultimately show ?thesis by simp
  qed
  have inj: "baddr d' ?v a \<noteq> x" if "a < ?k'" "a \<noteq> fbn" for a
    using wf' that xb(1) k(2) by (auto simp: file_wf_def inj_on_def)
  define w where "w = wsect x (put_chunk (off - fbn * BSIZE) (take n1 ys) t) m'"
  have w: "img w = ?v(x := block_of (xs @ take n1 ys) fbn)" "freeblock w = freeblock m'" "freeinode w = freeinode m'"
    using put_chunk_block_of [of n1 xs ys] n1' off(1,2) by (simp_all add: w_def wsect_def tb)
  have ks: "a < ?k" if "a < ?k'" "a \<noteq> fbn" for a using that k(1) unfolding k(2) [symmetric] by linarith
  have "img w (baddr d' ?v a) = block_of (xs @ take n1 ys) a" if "a < ?k'" for a
  proof (cases "a = fbn")
    case False
    then show ?thesis using inj [OF that] old ks [OF that] block_of_other [of a xs] off by (simp add: w(1))
  qed (simp add: w(1) xb(1))
  then have "stored d' w (xs @ take n1 ys)"
    using wf' xb(3) n1' off(1) by (simp add: stored_def w file_wf_upd min_absorb2)
  moreover have "fresh w"
    using g xb(2) f by (auto simp: fresh_def block_got_def w)
  moreover have "freeblock m \<le> freeblock w" "freeblock w \<le> FSSIZE"
    "d' = d\<lparr>daddrs := daddrs d'\<rparr>" "\<forall>a > NDIRECT. daddrs d' a = daddrs d a" "freeinode w = freeinode m"
    "freeblock w + blk_use ?k = freeblock m + blk_use ?k'"
    using g fb t(2) k(2) by (auto simp: block_got_def w)
  moreover have "own d' (img w) ?k' \<subseteq> own d (img m) ?k \<union> {freeblock m..<freeblock w}"
    using block_got_own [OF g k(1) wf] xb(3) unfolding k(2) w(1,2) by (simp add: own_upd)
  moreover have "img w b = img m b" if "0 < b" "b < freeblock m" "b \<notin> own d (img m) ?k" for b
  proof -
    have "b \<noteq> x" using block_got_own(2) [OF g k(1) wf] that by auto
    moreover have "b \<noteq> daddrs d' NDIRECT" using g that by (auto simp: block_got_def)
    ultimately show ?thesis using keep by (simp add: w(1))
  qed
  ultimately show ?thesis using n1' off(1) unfolding grown_def w_def [symmetric] by (simp add: min_absorb2)
qed

lemma iappend_loop_grows:
  assumes "iappend_loop d ys off m = Some (d', off', m')" and "stored d m xs" and "fresh m" and "freeblock m \<le> FSSIZE" and "off = length xs"
  shows "grown d m xs d' m' (xs @ ys) \<and> off' = length (xs @ ys)"
  using assms
proof (induction d ys off m arbitrary: xs rule: iappend_loop.induct)
  case (1 d ys off m)
  define fbn where "fbn = off div BSIZE"
  show ?case
  proof (cases "ys = []")
    case True
    then show ?thesis using "1.prems" by (simp add: iappend_loop.simps grown_def)
  next
    case False
    define n1 where "n1 = min (length ys) ((fbn + 1) * BSIZE - off)"
    obtain x d1 m1 t where s: "fbn < MAXFILE" "iappend_block d fbn m = Some (x, d1, m1)" "rsect x m1 = Some t"
      and rest: "iappend_loop d1 (drop n1 ys) (off + n1) (wsect x (put_chunk (off - fbn * BSIZE) (take n1 ys) t) m1) = Some (d', off', m')"
      using "1.prems"(1) False by (subst (asm) iappend_loop.simps) (auto simp: Let_def fbn_def n1_def split: option.splits prod.splits if_splits)
    let ?w = "wsect x (put_chunk (off - fbn * BSIZE) (take n1 ys) t) m1"
    have g: "grown d m xs d1 ?w (xs @ take n1 ys)"
      by (rule iappend_round [OF "1.prems"(2,3,4,5) fbn_def s n1_def False])
    have "grown d1 ?w (xs @ take n1 ys) d' m' ((xs @ take n1 ys) @ drop n1 ys) \<and> off' = length ((xs @ take n1 ys) @ drop n1 ys)"
    proof (rule "1.IH" [OF False fbn_def _ s(2) refl refl s(3) n1_def rest])
      show "\<not> MAXFILE \<le> fbn" using s(1) by simp
      show "stored d1 ?w (xs @ take n1 ys)" "fresh ?w" "freeblock ?w \<le> FSSIZE" using g by (simp_all add: grown_def)
      show "off + n1 = length (xs @ take n1 ys)" using "1.prems"(5) by (simp add: n1_def)
    qed
    then show ?thesis using grown_trans [OF g] by simp
  qed
qed

lemma nblk_mono: "a \<le> b \<Longrightarrow> nblk a \<le> nblk b"
  unfolding nblk_def by (rule div_le_mono) simp

lemma blk_use_mono: "a \<le> b \<Longrightarrow> blk_use a \<le> blk_use b"
  by (simp add: blk_use_def)

lemma iappend_loop_Some:
  assumes "stored d m xs" and "fresh m" and "freeblock m \<le> FSSIZE" and "off = length xs" and "nblk (off + length ys) \<le> MAXFILE"
    and "freeblock m + blk_use (nblk (off + length ys)) \<le> FSSIZE + blk_use (nblk off)"
  shows "\<exists>r. iappend_loop d ys off m = Some r"
  using assms
proof (induction d ys off m arbitrary: xs rule: iappend_loop.induct)
  case (1 d ys off m)
  define fbn where "fbn = off div BSIZE"
  show ?case
  proof (cases "ys = []")
    case True
    then show ?thesis by (simp add: iappend_loop.simps)
  next
    case False
    define n1 where "n1 = min (length ys) ((fbn + 1) * BSIZE - off)"
    have "off < (fbn + 1) * BSIZE" unfolding fbn_def by (rule off_in_block)
    then have n1: "0 < n1" "n1 \<le> (off div BSIZE + 1) * BSIZE - off" "n1 \<le> length ys" using False by (auto simp: n1_def fbn_def)
    note k = nblk_step [OF n1(1,2), folded fbn_def]
    have k': "nblk (off + n1) \<le> nblk (off + length ys)" "nblk (off + n1) \<le> MAXFILE" "fbn < nblk (off + n1)"
      using nblk_mono [of "off + n1" "off + length ys"] n1(3) "1.prems"(5) k(2) by auto
    have room: "freeblock m + blk_use (nblk (off + n1)) \<le> FSSIZE + blk_use (nblk off)"
      using blk_use_mono [OF k'(1)] "1.prems"(6) by linarith
    have wf: "file_wf d (img m) (nblk off) (freeblock m)" using "1.prems"(1,4) by (simp add: stored_def)
    obtain x d1 m1 where b: "iappend_block d fbn m = Some (x, d1, m1)"
      using iappend_block_Some [OF wf k(1) "1.prems"(3)] room k(2) by auto
    have "block_got d (nblk off) fbn m x d1 m1"
      by (rule iappend_block_ok [OF wf k(1) _ "1.prems"(2) _ b]) (use k' "1.prems"(3) in \<open>auto simp: FSSIZE_def\<close>)
    then have "x < freeblock m1" "freeblock m1 + blk_use (nblk off) = freeblock m + blk_use (nblk (off + n1))"
      using k(2) by (auto simp: block_got_def)
    then have t: "rsect x m1 = Some (img m1 x)" using room by (simp add: rsect_def)
    let ?w = "wsect x (put_chunk (off - fbn * BSIZE) (take n1 ys) (img m1 x)) m1"
    have g: "grown d m xs d1 ?w (xs @ take n1 ys)"
      by (rule iappend_round [OF "1.prems"(1,2,3,4) fbn_def _ b t n1_def False]) (use k' in simp)
    have "\<exists>r. iappend_loop d1 (drop n1 ys) (off + n1) ?w = Some r"
    proof (rule "1.IH" [OF False fbn_def _ b refl refl t n1_def])
      show "\<not> MAXFILE \<le> fbn" using k' by simp
      show "stored d1 ?w (xs @ take n1 ys)" "fresh ?w" "freeblock ?w \<le> FSSIZE" using g by (simp_all add: grown_def)
      show "off + n1 = length (xs @ take n1 ys)" "nblk (off + n1 + length (drop n1 ys)) \<le> MAXFILE"
        using "1.prems"(4,5) n1(3) by simp_all
      show "freeblock ?w + blk_use (nblk (off + n1 + length (drop n1 ys))) \<le> FSSIZE + blk_use (nblk (off + n1))"
        using g "1.prems"(4,6) n1(3) by (simp add: grown_def min_absorb2)
    qed
    then show ?thesis using False b t k' unfolding fbn_def n1_def by (subst iappend_loop.simps) (simp add: Let_def)
  qed
qed

subsection \<open>The whole image\<close>

text \<open>The inode \<open>d\<close> is that of an object with the given type and contents.\<close>

definition inode_has :: "dinode \<Rightarrow> mk \<Rightarrow> u16 \<times> u8 list \<Rightarrow> bool" where
  "inode_has d m e \<longleftrightarrow> dtype d = fst e \<and> dnlink d = 1 \<and> dsize d = length (snd e) \<and> stored d m (snd e)"

abbreviation node :: "mk \<Rightarrow> nat \<Rightarrow> dinode" where
  "node m n \<equiv> dinode_of mk_sb (img m) n"

text \<open>The image holds the objects \<open>c n\<close> for the inode numbers handed out, on blocks of their own.\<close>

definition mk_inv :: "(nat \<Rightarrow> u16 \<times> u8 list) \<Rightarrow> mk \<Rightarrow> bool" where
  "mk_inv c m \<longleftrightarrow> fresh m \<and> freeblock m \<le> FSSIZE \<and> 1 \<le> freeinode m \<and> freeinode m \<le> ninodeblocks * IPB \<and>
     (\<forall>n \<in> {1..<freeinode m}. inode_has (node m n) m (c n)) \<and>
     (\<forall>n \<in> {1..<freeinode m}. \<forall>j \<in> {1..<freeinode m}. n \<noteq> j \<longrightarrow> owned (node m n) m (snd (c n)) \<inter> owned (node m j) m (snd (c j)) = {})"

lemma IBLOCK_range: "n < ninodeblocks * IPB \<Longrightarrow> 2 + nlog \<le> IBLOCK n mk_sb \<and> IBLOCK n mk_sb < sb_bmapstart mk_sb"
  by (simp add: IBLOCK_def mk_sb_def less_mult_imp_div_less)

lemma bmapstart_meta: "sb_bmapstart mk_sb < nmeta" "nmeta = 46" "sb_bmapstart mk_sb = 45" "nlog = 30"
  by (simp_all add: mk_sb_def nmeta_def nbitmap_def nlog_def LOGSIZE_def MAXOPBLOCKS_def ninodeblocks_def NINODES_def IPB_def BSIZE_def FSSIZE_def)

lemma owned_range: "stored d m xs \<Longrightarrow> owned d m xs \<subseteq> {nmeta..<freeblock m}"
  by (auto simp: stored_def file_wf_def own_def split: if_splits)

text \<open>A file is kept as long as its own blocks are.\<close>

lemma stored_frame:
  assumes st: "stored d m xs" and same: "\<forall>b \<in> owned d m xs. img m' b = img m b" and le: "freeblock m \<le> freeblock m'"
  shows "stored d m' xs" and "owned d m' xs = owned d m xs"
proof -
  let ?k = "nblk (length xs)"
  have b: "baddr d (img m') a = baddr d (img m) a" if "a < ?k \<or> NDIRECT < ?k" for a
    using that same by (cases "a < NDIRECT") (auto simp: baddr_def own_def)
  have bi: "baddr d (img m') ` {..<?k} = baddr d (img m) ` {..<?k}" using b by (intro image_cong) auto
  then show o: "owned d m' xs = owned d m xs" by (simp add: own_def)
  have "inj_on (baddr d (img m')) {..<?k} = inj_on (baddr d (img m)) {..<?k}" using b by (intro inj_on_cong) auto
  then have "file_wf d (img m') ?k (freeblock m')"
    using st le b bi by (auto simp: stored_def file_wf_def split: if_splits)
  moreover have "img m' (baddr d (img m') a) = block_of xs a" if "a < ?k" for a
    using that same st b [of a] by (auto simp: stored_def own_def)
  ultimately show "stored d m' xs" by (simp add: stored_def)
qed

lemma mk_inv_step:
  assumes inv: "mk_inv c m" and m': "fresh m'" "freeblock m \<le> freeblock m'" "freeblock m' \<le> FSSIZE" "1 \<le> freeinode m'" "freeinode m' \<le> ninodeblocks * IPB"
    and dom: "{1..<freeinode m'} \<subseteq> insert n {1..<freeinode m}"
    and others: "\<forall>j \<in> {1..<freeinode m} - {n}. node m' j = node m j \<and> owned (node m j) m (snd (c j)) \<inter> B = {}"
    and new: "inode_has (node m' n) m' e" "owned (node m' n) m' (snd e) \<subseteq> B \<union> {freeblock m..<freeblock m'}"
    and frame: "\<forall>b. nmeta \<le> b \<and> b < freeblock m \<and> b \<notin> B \<longrightarrow> img m' b = img m b"
  shows "mk_inv (c(n := e)) m'"
proof -
  let ?c = "c(n := e)" and ?D = "{1..<freeinode m'}"
  have old: "inode_has (node m' j) m' (c j)" "owned (node m' j) m' (snd (c j)) = owned (node m j) m (snd (c j))"
    "owned (node m j) m (snd (c j)) \<subseteq> {..<freeblock m}" "owned (node m j) m (snd (c j)) \<inter> B = {}" "j \<in> {1..<freeinode m}"
    if "j \<in> ?D" "j \<noteq> n" for j
  proof -
    show j: "j \<in> {1..<freeinode m}" using that dom by blast
    then have nj: "node m' j = node m j" and disj: "owned (node m j) m (snd (c j)) \<inter> B = {}" using others that(2) by auto
    have h: "inode_has (node m j) m (c j)" using inv j by (simp add: mk_inv_def)
    then have r: "owned (node m j) m (snd (c j)) \<subseteq> {nmeta..<freeblock m}" by (intro owned_range) (simp add: inode_has_def)
    have "\<forall>b \<in> owned (node m j) m (snd (c j)). img m' b = img m b" using r disj frame by fastforce
    note f = stored_frame [OF _ this m'(2)]
    show "inode_has (node m' j) m' (c j)" using h f(1) by (simp add: inode_has_def nj)
    show "owned (node m' j) m' (snd (c j)) = owned (node m j) m (snd (c j))" unfolding nj using h by (intro f(2)) (simp add: inode_has_def)
    show "owned (node m j) m (snd (c j)) \<subseteq> {..<freeblock m}" "owned (node m j) m (snd (c j)) \<inter> B = {}" using r disj by auto
  qed
  have sep: "owned (node m' n) m' (snd e) \<inter> owned (node m' j) m' (snd (c j)) = {}" if "j \<in> ?D" "j \<noteq> n" for j
    using old(2-4) [OF that] new(2) by fastforce
  have "owned (node m' i) m' (snd (?c i)) \<inter> owned (node m' j) m' (snd (?c j)) = {}" if "i \<in> ?D" "j \<in> ?D" "i \<noteq> j" for i j
  proof -
    consider "i = n" | "j = n" | "i \<noteq> n" "j \<noteq> n" by blast
    then show ?thesis
    proof cases
      case 1
      then show ?thesis using sep [of j] that by auto
    next
      case 2
      then show ?thesis using sep [of i] that by auto
    next
      case 3
      then show ?thesis using old(2,5) [of i] old(2,5) [of j] that inv by (simp add: mk_inv_def)
    qed
  qed
  moreover have "\<forall>j \<in> ?D. inode_has (node m' j) m' (?c j)" using old(1) new(1) by auto
  ultimately show ?thesis using m' unfolding mk_inv_def by blast
qed

lemma winode_ok:
  assumes "n < ninodeblocks * IPB" and "dinode_ok d"
  obtains m' where "winode n d m = Some m'" and "\<And>j. node m' j = (if j = n then d else node m j)"
    and "\<And>b. b < 2 + nlog \<or> nmeta \<le> b \<Longrightarrow> img m' b = img m b" and "freeblock m' = freeblock m" and "freeinode m' = freeinode m"
proof
  let ?m = "wsect (IBLOCK n mk_sb) (put_dinode d (doff n) (img m (IBLOCK n mk_sb))) m"
  have r: "2 + nlog \<le> IBLOCK n mk_sb" "IBLOCK n mk_sb < nmeta" using IBLOCK_range [OF assms(1)] bmapstart_meta(1) by linarith+
  then show "winode n d m = Some ?m" by (simp add: winode_def rsect_def FSSIZE_def bmapstart_meta)
  show "node ?m j = (if j = n then d else node m j)" for j
    using dinode_of_put [OF assms(2), of mk_sb "img m" n j] by (simp add: wsect_def)
  show "b < 2 + nlog \<or> nmeta \<le> b \<Longrightarrow> img ?m b = img m b" for b using r by (auto simp: wsect_def)
qed (simp_all add: wsect_def)

lemma rinode_ok: "n < ninodeblocks * IPB \<Longrightarrow> rinode n m = Some (node m n)"
  using IBLOCK_range [of n] by (simp add: rinode_def rsect_def dinode_of_def FSSIZE_def bmapstart_meta)

lemma dinode_ok_zero: "dinode_ok (zero_dinode\<lparr>dtype := ty, dnlink := 1\<rparr>)"
  by (simp add: dinode_ok_def zero_dinode_def)

lemma mk_ialloc_ok:
  assumes inv: "mk_inv c m" and room: "freeinode m < ninodeblocks * IPB"
  obtains m' where "mk_ialloc ty m = Some (freeinode m, m')" and "mk_inv (c(freeinode m := (ty, []))) m'"
    and "freeinode m' = Suc (freeinode m)" and "freeblock m' = freeblock m" and "\<And>b. b < 2 + nlog \<Longrightarrow> img m' b = img m b"
proof -
  let ?n = "freeinode m" and ?m = "m\<lparr>freeinode := freeinode m + 1\<rparr>" and ?d = "zero_dinode\<lparr>dtype := ty, dnlink := 1\<rparr>"
  obtain m' where w: "winode ?n ?d ?m = Some m'" "\<And>j. node m' j = (if j = ?n then ?d else node ?m j)"
    "\<And>b. b < 2 + nlog \<or> nmeta \<le> b \<Longrightarrow> img m' b = img ?m b" "freeblock m' = freeblock ?m" "freeinode m' = freeinode ?m"
    using winode_ok [OF room dinode_ok_zero] by blast
  have "node m' ?n = ?d" using w(2) by simp
  have st: "stored ?d m' []" and ow: "owned ?d m' [] = {}" by (simp_all add: stored_def file_wf_def zero_dinode_def own_def)
  have "mk_inv (c(?n := (ty, []))) m'"
  proof (rule mk_inv_step [OF inv, where B = "{}"])
    show "fresh m'" using inv w(3,4) by (simp add: mk_inv_def fresh_def)
    show "inode_has (node m' ?n) m' (ty, [])" using st by (simp add: w(2) inode_has_def zero_dinode_def)
    show "owned (node m' ?n) m' (snd (ty, [])) \<subseteq> {} \<union> {freeblock m..<freeblock m'}" using ow by (simp add: w(2))
    show "\<forall>b. nmeta \<le> b \<and> b < freeblock m \<and> b \<notin> {} \<longrightarrow> img m' b = img m b" using w(3) by simp
  qed (use inv room w(2,4,5) in \<open>auto simp: mk_inv_def less_Suc_eq\<close>)
  moreover have "mk_ialloc ty m = Some (?n, m')" using w(1) by (simp add: mk_ialloc_def Let_def)
  ultimately show ?thesis using w that by simp
qed

text \<open>The values in an inode that \<^verbatim>\<open>iappend\<close> writes back fit their fields.\<close>

lemma stored_dinode_ok:
  assumes "stored d m xs" and "freeblock m \<le> FSSIZE" and "\<forall>a > NDIRECT. daddrs d a = 0"
  shows "dinode_ok (d\<lparr>dsize := length xs\<rparr>)"
proof -
  have wf: "file_wf d (img m) (nblk (length xs)) (freeblock m)" using assms(1) by (simp add: stored_def)
  have "daddrs d a \<le> FSSIZE" for a
  proof -
    consider "a < NDIRECT" "a < nblk (length xs)" | "a < NDIRECT" "nblk (length xs) \<le> a" | "a = NDIRECT" | "NDIRECT < a" by linarith
    then show ?thesis
    proof cases
      case 1
      then have "baddr d (img m) a < freeblock m" using wf by (simp add: file_wf_def)
      then show ?thesis using 1 assms(2) by (simp add: baddr_def)
    qed (use wf assms(2,3) in \<open>auto simp: file_wf_def split: if_splits\<close>)
  qed
  then have "\<forall>a. daddrs d a < 2 ^ 32" by (intro allI, rule le_less_trans) (simp_all add: FSSIZE_def)
  moreover have "\<not> MAXFILE * BSIZE < length xs" using nblk_iff [of MAXFILE "length xs"] wf by (simp add: file_wf_def)
  then have "length xs < 2 ^ 32" by (simp add: MAXFILE_def NINDIRECT_def NDIRECT_def BSIZE_def)
  ultimately show ?thesis using assms(3) by (simp add: dinode_ok_def)
qed

lemma stored_size: "stored (d\<lparr>dsize := n\<rparr>) m xs = stored d m xs" "own (d\<lparr>dsize := n\<rparr>) v k = own d v k"
proof -
  have "baddr (d\<lparr>dsize := n\<rparr>) v = baddr d v" for v by (simp add: fun_eq_iff baddr_def)
  then show "stored (d\<lparr>dsize := n\<rparr>) m xs = stored d m xs" "own (d\<lparr>dsize := n\<rparr>) v k = own d v k"
    by (simp_all add: stored_def file_wf_def own_def)
qed

text \<open>\<open>iappend\<close> appends to the contents of its inode and leaves everything else; it fails only when the file gets
  too large or the image is full.\<close>

lemma iappend_ok:
  assumes inv: "mk_inv c m" and n: "1 \<le> n" "n < freeinode m"
    and r: "iappend n ys m = Some m'"
  defines "xs \<equiv> snd (c n)"
  shows "mk_inv (c(n := (fst (c n), xs @ ys))) m'" and "freeinode m' = freeinode m"
    and "0 < b \<Longrightarrow> b < 2 + nlog \<Longrightarrow> img m' b = img m b"
    and "freeblock m' + blk_use (nblk (length xs)) = freeblock m + blk_use (nblk (length (xs @ ys)))"
proof -
  let ?d = "node m n"
  have lim: "n < ninodeblocks * IPB" and h: "inode_has ?d m (c n)" and f: "fresh m" "freeblock m \<le> FSSIZE"
    using inv n by (auto simp: mk_inv_def)
  have st: "stored ?d m xs" and sz: "dsize ?d = length xs" using h by (auto simp: inode_has_def xs_def)
  obtain d1 off1 m1 where l: "iappend_loop ?d ys (dsize ?d) m = Some (d1, off1, m1)" "winode n (d1\<lparr>dsize := off1\<rparr>) m1 = Some m'"
    using r rinode_ok [OF lim, of m] by (auto simp: iappend_def split: option.splits)
  have g: "grown ?d m xs d1 m1 (xs @ ys)" and off1: "off1 = length (xs @ ys)"
    using iappend_loop_grows [OF l(1) st f sz] by auto
  have z: "\<forall>a > NDIRECT. daddrs ?d a = 0" using get_dinode_ok by (simp add: dinode_of_def dinode_ok_def)
  have "dinode_ok (d1\<lparr>dsize := off1\<rparr>)"
    unfolding off1 by (rule stored_dinode_ok) (use g z in \<open>auto simp: grown_def\<close>)
  then have w: "node m' j = (if j = n then d1\<lparr>dsize := off1\<rparr> else node m1 j)" "freeblock m' = freeblock m1" "freeinode m' = freeinode m1"
    and keep: "b < 2 + nlog \<or> nmeta \<le> b \<Longrightarrow> img m' b = img m1 b" for j b
    using winode_ok [OF lim, of "d1\<lparr>dsize := off1\<rparr>" m1] l(2) by (metis option.inject)+
  have low: "img m1 b = img m b" if "0 < b" "b < nmeta" for b
  proof -
    have "b \<notin> owned ?d m xs" "b < freeblock m" using owned_range [OF st] that f(1) by (auto simp: fresh_def)
    then show ?thesis using g that by (simp add: grown_def)
  qed
  have ns: "node m1 j = node m j" if "j < ninodeblocks * IPB" for j
    using low [of "IBLOCK j mk_sb"] IBLOCK_range [OF that] bmapstart_meta by (simp add: dinode_of_def)
  have own': "\<forall>b \<in> owned d1 m1 (xs @ ys). img m' b = img m1 b"
  proof
    have "stored d1 m1 (xs @ ys)" using g by (simp add: grown_def)
    then show "img m' b = img m1 b" if "b \<in> owned d1 m1 (xs @ ys)" for b using that owned_range keep by fastforce
  qed
  note st' = stored_frame [OF _ own' eq_refl [OF w(2) [symmetric]]]
  show "mk_inv (c(n := (fst (c n), xs @ ys))) m'"
  proof (rule mk_inv_step [OF inv, where B = "owned ?d m xs"])
    have fm: "fresh m1" "freeblock m \<le> freeblock m1" "freeblock m1 \<le> FSSIZE" "freeinode m1 = freeinode m" using g by (simp_all add: grown_def)
    show "fresh m'" using fm(1) w(2) keep by (auto simp: fresh_def)
    show "freeblock m \<le> freeblock m'" "freeblock m' \<le> FSSIZE" using fm w(2) by simp_all
    show "1 \<le> freeinode m'" "freeinode m' \<le> ninodeblocks * IPB" "{1..<freeinode m'} \<subseteq> insert n {1..<freeinode m}"
      using fm(4) w(3) inv by (auto simp: mk_inv_def)
    show "\<forall>j \<in> {1..<freeinode m} - {n}. node m' j = node m j \<and> owned (node m j) m (snd (c j)) \<inter> owned ?d m xs = {}"
      using inv n ns w(1) by (auto simp: mk_inv_def xs_def)
    have "d1 = ?d\<lparr>daddrs := daddrs d1\<rparr>" using g by (simp add: grown_def)
    then have "dtype d1 = dtype ?d" "dnlink d1 = dnlink ?d" by (metis dinode.select_convs(1,4) dinode.surjective dinode.update_convs(6))+
    then show "inode_has (node m' n) m' (fst (c n), xs @ ys)"
      using h st'(1) g off1 by (simp add: inode_has_def w(1) stored_size grown_def)
    show "owned (node m' n) m' (snd (fst (c n), xs @ ys)) \<subseteq> owned ?d m xs \<union> {freeblock m..<freeblock m'}"
      using st'(2) g by (simp add: w(1,2) stored_size grown_def)
    show "\<forall>b. nmeta \<le> b \<and> b < freeblock m \<and> b \<notin> owned ?d m xs \<longrightarrow> img m' b = img m b"
      using keep g nmeta_pos by (auto simp: grown_def simp del: nmeta_pos)
  qed
  show "freeinode m' = freeinode m" using g w(3) by (simp add: grown_def)
  show "0 < b \<Longrightarrow> b < 2 + nlog \<Longrightarrow> img m' b = img m b" using keep low bmapstart_meta by simp
  show "freeblock m' + blk_use (nblk (length xs)) = freeblock m + blk_use (nblk (length (xs @ ys)))" using g w(2) by (simp add: grown_def)
qed

lemma iappend_Some:
  assumes inv: "mk_inv c m" and n: "1 \<le> n" "n < freeinode m" and len: "nblk (length (snd (c n) @ ys)) \<le> MAXFILE"
    and room: "freeblock m + blk_use (nblk (length (snd (c n) @ ys))) \<le> FSSIZE + blk_use (nblk (length (snd (c n))))"
  shows "\<exists>m'. iappend n ys m = Some m'"
proof -
  let ?d = "node m n"
  have lim: "n < ninodeblocks * IPB" and h: "inode_has ?d m (c n)" and f: "fresh m" "freeblock m \<le> FSSIZE"
    using inv n by (auto simp: mk_inv_def)
  have st: "stored ?d m (snd (c n))" and sz: "dsize ?d = length (snd (c n))" using h by (auto simp: inode_has_def)
  obtain d1 off1 m1 where l: "iappend_loop ?d ys (dsize ?d) m = Some (d1, off1, m1)"
    using iappend_loop_Some [OF st f sz, of ys] len room sz by auto
  have "rsect (IBLOCK n mk_sb) m1 \<noteq> None" using IBLOCK_range [OF lim] by (simp add: rsect_def FSSIZE_def bmapstart_meta)
  then show ?thesis using l rinode_ok [OF lim, of m] by (auto simp: iappend_def winode_def)
qed

subsection \<open>Copying the files\<close>

text \<open>The blocks that contents take.\<close>

abbreviation use :: "u8 list \<Rightarrow> nat" where
  "use xs \<equiv> blk_use (nblk (length xs))"

lemma use_mono: "use xs \<le> use (xs @ ys)" "nblk (length xs) \<le> nblk (length (xs @ ys))"
  by (simp_all add: blk_use_mono nblk_mono)

text \<open>One step from an image to a later one: it holds the objects \<open>c'\<close>, with the super block and the log as before, and
  the blocks taken are counted.\<close>

definition mk_next :: "mk \<Rightarrow> (nat \<Rightarrow> u16 \<times> u8 list) \<Rightarrow> nat \<Rightarrow> nat \<Rightarrow> mk \<Rightarrow> bool" where
  "mk_next m c' k u m' \<longleftrightarrow> mk_inv c' m' \<and> freeinode m' = freeinode m + k \<and> freeblock m' = freeblock m + u \<and>
     (\<forall>b. 0 < b \<and> b < 2 + nlog \<longrightarrow> img m' b = img m b)"

lemma mk_next_trans: "mk_next m c1 k1 u1 m1 \<Longrightarrow> mk_next m1 c2 k2 u2 m2 \<Longrightarrow> mk_next m c2 (k1 + k2) (u1 + u2) m2"
  by (simp add: mk_next_def)

lemma iappend_next:
  assumes "mk_inv c m" and "1 \<le> n" "n < freeinode m" and "iappend n ys m = Some m'"
  shows "mk_next m (c(n := (fst (c n), snd (c n) @ ys))) 0 (use (snd (c n) @ ys) - use (snd (c n))) m'"
  using iappend_ok [OF assms] use_mono(1) [of "snd (c n)" ys] by (simp add: mk_next_def)

lemma copy_pieces_next:
  assumes "mk_inv c m" and "1 \<le> n" "n < freeinode m" and "copy_pieces n ps m = Some m'"
  shows "mk_next m (c(n := (fst (c n), snd (c n) @ concat ps))) 0 (use (snd (c n) @ concat ps) - use (snd (c n))) m'"
  using assms
proof (induction ps arbitrary: c m)
  case Nil
  then show ?case by (simp add: mk_next_def)
next
  case (Cons p ps)
  obtain m1 where m1: "iappend n p m = Some m1" "copy_pieces n ps m1 = Some m'" using Cons.prems(4) by (auto split: option.splits)
  let ?c = "c(n := (fst (c n), snd (c n) @ p))"
  have s: "mk_next m ?c 0 (use (snd (c n) @ p) - use (snd (c n))) m1" by (rule iappend_next [OF Cons.prems(1-3) m1(1)])
  have "mk_next m1 (?c(n := (fst (?c n), snd (?c n) @ concat ps))) 0 (use (snd (?c n) @ concat ps) - use (snd (?c n))) m'"
    using s Cons.prems(2,3) by (intro Cons.IH m1(2)) (auto simp: mk_next_def fun_upd_def)
  from mk_next_trans [OF s this] show ?case
    using use_mono(1) [of "snd (c n)" p] use_mono(1) [of "snd (c n) @ p" "concat ps"] by (simp add: fun_upd_def cong: if_cong)
qed

lemma copy_pieces_Some:
  assumes "mk_inv c m" and "1 \<le> n" "n < freeinode m" and "nblk (length (snd (c n) @ concat ps)) \<le> MAXFILE"
    and "freeblock m + use (snd (c n) @ concat ps) \<le> FSSIZE + use (snd (c n))"
  shows "\<exists>m'. copy_pieces n ps m = Some m'"
  using assms
proof (induction ps arbitrary: c m)
  case (Cons p ps)
  let ?c = "c(n := (fst (c n), snd (c n) @ p))"
  have u: "use (snd (c n) @ p) \<le> use (snd (c n) @ p @ concat ps)" "nblk (length (snd (c n) @ p)) \<le> nblk (length (snd (c n) @ p @ concat ps))"
    using use_mono [of "snd (c n) @ p" "concat ps"] by simp_all
  then obtain m1 where m1: "iappend n p m = Some m1"
    using iappend_Some [OF Cons.prems(1-3), of p] Cons.prems(4,5) by auto
  have s: "mk_next m ?c 0 (use (snd (c n) @ p) - use (snd (c n))) m1" by (rule iappend_next [OF Cons.prems(1-3) m1])
  have "\<exists>m'. copy_pieces n ps m1 = Some m'"
    using s Cons.prems(2-5) use_mono(1) [of "snd (c n)" p] by (intro Cons.IH [of ?c]) (auto simp: mk_next_def fun_upd_def)
  then show ?case using m1 by simp
qed simp

text \<open>The objects after the files \<open>fs\<close> have been added with the inode numbers from \<open>k\<close> on.\<close>

fun put_files :: "nat \<Rightarrow> (u8 list \<times> u8 list list) list \<Rightarrow> (nat \<Rightarrow> u16 \<times> u8 list) \<Rightarrow> nat \<Rightarrow> u16 \<times> u8 list" where
  "put_files k [] c = c"
| "put_files k (f # fs) c =
     put_files (Suc k) fs (c(ROOTINO := (fst (c ROOTINO), snd (c ROOTINO) @ dirent k (the (shortname (fst f)))), k := (T_FILE, concat (snd f))))"

lemma add_file_next:
  assumes inv: "mk_inv c m" and n: "ROOTINO < freeinode m" "freeinode m < ninodeblocks * IPB" and r: "add_file f m = Some m'"
  defines "root \<equiv> snd (c ROOTINO)" and "e \<equiv> dirent (freeinode m) (the (shortname (fst f)))"
  shows "mk_next m (c(ROOTINO := (fst (c ROOTINO), root @ e), freeinode m := (T_FILE, concat (snd f)))) 1 (use (root @ e) - use root + use (concat (snd f))) m'"
    and "shortname (fst f) \<noteq> None"
proof -
  let ?n = "freeinode m"
  obtain m1 where a: "mk_ialloc T_FILE m = Some (?n, m1)" "mk_inv (c(?n := (T_FILE, []))) m1" "freeinode m1 = Suc ?n" "freeblock m1 = freeblock m"
      "\<And>b. b < 2 + nlog \<Longrightarrow> img m1 b = img m b"
    using mk_ialloc_ok [OF inv n(2), of T_FILE] by metis
  obtain m2 where sn: "shortname (fst f) \<noteq> None" and b: "iappend ROOTINO e m1 = Some m2" "copy_pieces ?n (snd f) m2 = Some m'"
    using r a(1) by (auto simp: add_file_def e_def split: option.splits)
  show "shortname (fst f) \<noteq> None" by (rule sn)
  have s1: "mk_next m (c(?n := (T_FILE, []))) 1 0 m1" using a by (simp add: mk_next_def)
  have s2: "mk_next m1 (c(?n := (T_FILE, []), ROOTINO := (fst (c ROOTINO), root @ e))) 0 (use (root @ e) - use root) m2"
    using iappend_next [OF a(2) _ _ b(1)] n(1) a(3) by (simp add: root_def ROOTINO_def)
  have i2: "mk_inv (c(?n := (T_FILE, []), ROOTINO := (fst (c ROOTINO), root @ e))) m2" "?n < freeinode m2" using s2 a(3) by (simp_all add: mk_next_def)
  have s3: "mk_next m2 (c(?n := (T_FILE, []), ROOTINO := (fst (c ROOTINO), root @ e), ?n := (T_FILE, concat (snd f)))) 0 (use (concat (snd f)) - use []) m'"
    using copy_pieces_next [OF i2(1) _ i2(2) b(2)] n(1) by (simp add: ROOTINO_def)
  have "c(?n := (T_FILE, []), ROOTINO := (fst (c ROOTINO), root @ e), ?n := (T_FILE, concat (snd f))) =
     c(ROOTINO := (fst (c ROOTINO), root @ e), ?n := (T_FILE, concat (snd f)))" using n(1) by (simp add: fun_upd_twist)
  then show "mk_next m (c(ROOTINO := (fst (c ROOTINO), root @ e), ?n := (T_FILE, concat (snd f)))) 1 (use (root @ e) - use root + use (concat (snd f))) m'"
    using mk_next_trans [OF mk_next_trans [OF s1 s2] s3] by (simp add: blk_use_def)
qed

text \<open>The blocks that adding \<open>fs\<close> takes, with the entries in the root directory.\<close>

fun dir_bytes :: "nat \<Rightarrow> (u8 list \<times> u8 list list) list \<Rightarrow> u8 list" where
  "dir_bytes k [] = []"
| "dir_bytes k (f # fs) = dirent k (the (shortname (fst f))) @ dir_bytes (Suc k) fs"

definition data_use :: "(u8 list \<times> u8 list list) list \<Rightarrow> nat" where
  "data_use fs = (\<Sum>f \<leftarrow> fs. use (concat (snd f)))"

lemma length_dirent [simp]: "length (dirent n name) = 16"
  by (simp add: dirent_def DIRSIZ_def)

lemma length_dir_bytes [simp]: "length (dir_bytes k fs) = 16 * length fs"
  by (induction k fs rule: dir_bytes.induct) simp_all

lemma add_files_next:
  assumes "mk_inv c m" and "ROOTINO < freeinode m" and "freeinode m + length fs \<le> ninodeblocks * IPB" and "add_files fs m = Some m'"
  shows "mk_next m (put_files (freeinode m) fs c) (length fs)
     (use (snd (c ROOTINO) @ dir_bytes (freeinode m) fs) - use (snd (c ROOTINO)) + data_use fs) m' \<and> (\<forall>f \<in> set fs. shortname (fst f) \<noteq> None)"
  using assms
proof (induction fs arbitrary: c m)
  case Nil
  then show ?case by (simp add: mk_next_def data_use_def)
next
  case (Cons f fs)
  let ?n = "freeinode m" and ?r = "snd (c ROOTINO)"
  let ?e = "dirent ?n (the (shortname (fst f)))"
  let ?c = "c(ROOTINO := (fst (c ROOTINO), ?r @ ?e), ?n := (T_FILE, concat (snd f)))"
  obtain m1 where m1: "add_file f m = Some m1" "add_files fs m1 = Some m'" using Cons.prems(4) by (auto split: option.splits)
  have s: "mk_next m ?c 1 (use (?r @ ?e) - use ?r + use (concat (snd f))) m1" and sn: "shortname (fst f) \<noteq> None"
    using add_file_next [OF Cons.prems(1,2) _ m1(1)] Cons.prems(3) by auto
  then have i: "mk_inv ?c m1" "freeinode m1 = Suc ?n" by (simp_all add: mk_next_def)
  have "mk_next m1 (put_files (freeinode m1) fs ?c) (length fs)
     (use (snd (?c ROOTINO) @ dir_bytes (freeinode m1) fs) - use (snd (?c ROOTINO)) + data_use fs) m' \<and> (\<forall>f \<in> set fs. shortname (fst f) \<noteq> None)"
    by (rule Cons.IH [OF i(1) _ _ m1(2)]) (use Cons.prems(2,3) i(2) in auto)
  then have t: "mk_next m1 (put_files (Suc ?n) fs ?c) (length fs)
     (use (?r @ ?e @ dir_bytes (Suc ?n) fs) - use (?r @ ?e) + data_use fs) m'" and sns: "\<forall>f \<in> set fs. shortname (fst f) \<noteq> None"
    using Cons.prems(2) by (simp_all add: i(2))
  have u: "use ?r \<le> use (?r @ ?e)" "use (?r @ ?e) \<le> use (?r @ ?e @ dir_bytes (Suc ?n) fs)"
    using use_mono(1) [of ?r ?e] use_mono(1) [of "?r @ ?e" "dir_bytes (Suc ?n) fs"] by simp_all
  then show ?case using mk_next_trans [OF s t] sn sns by (simp add: data_use_def ac_simps)
qed

lemma add_files_Some:
  assumes "mk_inv c m" and "ROOTINO < freeinode m" and "freeinode m + length fs \<le> ninodeblocks * IPB"
    and "\<forall>f \<in> set fs. shortname (fst f) \<noteq> None \<and> nblk (length (concat (snd f))) \<le> MAXFILE"
    and "nblk (length (snd (c ROOTINO) @ dir_bytes (freeinode m) fs)) \<le> MAXFILE"
    and "freeblock m + use (snd (c ROOTINO) @ dir_bytes (freeinode m) fs) + data_use fs \<le> FSSIZE + use (snd (c ROOTINO))"
  shows "\<exists>m'. add_files fs m = Some m'"
  using assms
proof (induction fs arbitrary: c m)
  case (Cons f fs)
  let ?n = "freeinode m" and ?r = "snd (c ROOTINO)"
  let ?e = "dirent ?n (the (shortname (fst f)))"
  let ?c = "c(ROOTINO := (fst (c ROOTINO), ?r @ ?e), ?n := (T_FILE, concat (snd f)))"
  have u: "use ?r \<le> use (?r @ ?e)" "use (?r @ ?e) \<le> use (?r @ ?e @ dir_bytes (Suc ?n) fs)"
    "nblk (length (?r @ ?e)) \<le> nblk (length (?r @ ?e @ dir_bytes (Suc ?n) fs))"
    using use_mono(1) [of ?r ?e] use_mono [of "?r @ ?e" "dir_bytes (Suc ?n) fs"] by simp_all
  have room: "freeblock m + use (?r @ ?e @ dir_bytes (Suc ?n) fs) + use (concat (snd f)) + data_use fs \<le> FSSIZE + use ?r"
    using Cons.prems(6) by (simp add: data_use_def)
  obtain m1 where a: "mk_ialloc T_FILE m = Some (?n, m1)" "mk_inv (c(?n := (T_FILE, []))) m1" "freeinode m1 = Suc ?n" "freeblock m1 = freeblock m"
    using mk_ialloc_ok [OF Cons.prems(1), of T_FILE] Cons.prems(3) by (metis Suc_le_lessD add_leD1 add_Suc_right add_Suc list.size(4) plus_1_eq_Suc add.commute)
  have r: "(c(?n := (T_FILE, []))) ROOTINO = c ROOTINO" using Cons.prems(2) by simp
  obtain m2 where b: "iappend ROOTINO ?e m1 = Some m2"
    using iappend_Some [OF a(2), of ROOTINO ?e] Cons.prems(2,5) u room a(3,4) unfolding r by (auto simp: ROOTINO_def)
  have s2: "mk_next m1 (c(?n := (T_FILE, []), ROOTINO := (fst (c ROOTINO), ?r @ ?e))) 0 (use (?r @ ?e) - use ?r) m2"
    using iappend_next [OF a(2) _ _ b] Cons.prems(2) a(3) by (simp add: ROOTINO_def)
  then have i2: "mk_inv (c(?n := (T_FILE, []), ROOTINO := (fst (c ROOTINO), ?r @ ?e))) m2" "?n < freeinode m2" "freeblock m2 + use ?r = freeblock m + use (?r @ ?e)"
    using a(3,4) u by (simp_all add: mk_next_def)
  obtain m3 where d: "copy_pieces ?n (snd f) m2 = Some m3"
    using copy_pieces_Some [OF i2(1) _ i2(2), of "snd f"] Cons.prems(2,4) i2(3) u room by (auto simp: ROOTINO_def)
  have af: "add_file f m = Some m3" using a(1) b d Cons.prems(4) by (auto simp: add_file_def)
  have s: "mk_next m ?c 1 (use (?r @ ?e) - use ?r + use (concat (snd f))) m3"
    using add_file_next [OF Cons.prems(1,2) _ af] Cons.prems(3) by auto
  have "\<exists>m'. add_files fs m3 = Some m'"
    using s Cons.prems(2-5) room u by (intro Cons.IH [of ?c]) (auto simp: mk_next_def fun_upd_def cong: if_cong)
  then show ?case using af by simp
qed simp

subsection \<open>The finished image\<close>

definition objs :: "(u8 list \<times> u8 list list) list \<Rightarrow> nat \<Rightarrow> u16 \<times> u8 list" where
  "objs fs n =
     (if n = ROOTINO then (T_DIR, dirent ROOTINO [46] @ dirent ROOTINO [46, 46] @ dir_bytes 2 fs)
      else (T_FILE, concat (snd (fs ! (n - 2)))))"

lemma put_files_eq:
  assumes "ROOTINO < k"
  shows "put_files k fs c j =
    (if j = ROOTINO then (fst (c ROOTINO), snd (c ROOTINO) @ dir_bytes k fs)
     else if k \<le> j \<and> j < k + length fs then (T_FILE, concat (snd (fs ! (j - k)))) else c j)"
  using assms
proof (induction fs arbitrary: k c)
  case (Cons f fs)
  let ?c = "c(ROOTINO := (fst (c ROOTINO), snd (c ROOTINO) @ dirent k (the (shortname (fst f)))), k := (T_FILE, concat (snd f)))"
  have "j - k = Suc (j - Suc k)" if "k < j" using that by simp
  then show ?case using Cons.IH [of "Suc k" ?c] Cons.prems by (cases "j = k") (auto simp: fun_upd_def cong: if_cong)
qed simp

lemma empty_inv: "mk_inv c empty_image"
  by (simp add: mk_inv_def empty_image_def wsect_def fresh_def bmapstart_meta FSSIZE_def ninodeblocks_def IPB_def BSIZE_def NINODES_def)

lemma nblk_small: "0 < n \<Longrightarrow> n \<le> BSIZE \<Longrightarrow> nblk n = 1"
  using nblk_iff [of 0 n] nblk_iff [of 1 n] by linarith

lemma root_image_next:
  obtains m where "root_image = Some m"
    and "mk_next empty_image (c(ROOTINO := (T_DIR, dirent ROOTINO [46] @ dirent ROOTINO [46, 46]))) 1 1 m"
proof -
  have fi: "freeinode empty_image = ROOTINO" "freeblock empty_image = nmeta" by (simp_all add: empty_image_def wsect_def ROOTINO_def)
  have lim: "freeinode empty_image < ninodeblocks * IPB"
    by (simp add: fi(1) ROOTINO_def ninodeblocks_def IPB_def BSIZE_def)
  obtain m1 where a: "mk_ialloc T_DIR empty_image = Some (ROOTINO, m1)" "mk_inv (c(ROOTINO := (T_DIR, []))) m1" "freeinode m1 = Suc ROOTINO"
      "freeblock m1 = nmeta" "\<And>b. b < 2 + nlog \<Longrightarrow> img m1 b = img empty_image b"
    using mk_ialloc_ok [OF empty_inv [of c] lim, of T_DIR] unfolding fi by metis
  have s1: "mk_next empty_image (c(ROOTINO := (T_DIR, []))) 1 0 m1" using a fi by (simp add: mk_next_def)
  have u: "use (dirent ROOTINO n) = 1" "use (dirent ROOTINO n @ dirent ROOTINO l) = 1" "nblk 16 = 1" "nblk 32 = 1" for n l
    using nblk_small [of 16] nblk_small [of 32] by (simp_all add: BSIZE_def blk_use_def NDIRECT_def)
  have big: "1 \<le> MAXFILE" "nmeta + 1 \<le> FSSIZE" by (simp_all add: MAXFILE_def NDIRECT_def bmapstart_meta FSSIZE_def)
  obtain m2 where m2: "iappend ROOTINO (dirent ROOTINO [46]) m1 = Some m2"
    using iappend_Some [OF a(2), of ROOTINO "dirent ROOTINO [46]"] a(3,4) big u by (auto simp: ROOTINO_def blk_use_def)
  have s2: "mk_next m1 (c(ROOTINO := (T_DIR, dirent ROOTINO [46]))) 0 1 m2"
    using iappend_next [OF a(2) _ _ m2] a(3) u(1) by (simp add: ROOTINO_def blk_use_def)
  then have i2: "mk_inv (c(ROOTINO := (T_DIR, dirent ROOTINO [46]))) m2" "freeinode m2 = Suc ROOTINO" "freeblock m2 = nmeta + 1"
    using a(3,4) by (simp_all add: mk_next_def)
  obtain m3 where m3: "iappend ROOTINO (dirent ROOTINO [46, 46]) m2 = Some m3"
    using iappend_Some [OF i2(1), of ROOTINO "dirent ROOTINO [46, 46]"] i2(2,3) big u by (auto simp: ROOTINO_def)
  have s3: "mk_next m2 (c(ROOTINO := (T_DIR, dirent ROOTINO [46] @ dirent ROOTINO [46, 46]))) 0 0 m3"
    using iappend_next [OF i2(1) _ _ m3] i2(2) u by (simp add: ROOTINO_def)
  show ?thesis
    using that [of m3] mk_next_trans [OF mk_next_trans [OF s1 s2] s3] a(1) m2 m3 by (simp add: root_image_def)
qed

lemma bm_free_fold: "bm_free (fold bm_set [0..<n] (\<lambda>_. 0)) j \<longleftrightarrow> n \<le> j"
  by (induction n) (auto simp: bm_free_set, auto simp: bm_free_def)

lemma inode_limit: "n \<le> NINODES \<Longrightarrow> n < ninodeblocks * IPB"
  by (simp add: ninodeblocks_def NINODES_def IPB_def BSIZE_def)

lemma stored_length: "stored d m xs \<Longrightarrow> length xs \<le> MAXFILE * BSIZE"
  using nblk_iff [of MAXFILE "length xs"] by (simp add: stored_def file_wf_def)

lemma finish_image_ok:
  assumes inv: "mk_inv c m" and n: "ROOTINO < freeinode m"
  obtains m' where "finish_image m = Some m'"
    and "\<And>j. j < ninodeblocks * IPB \<Longrightarrow>
      node m' j = (if j = ROOTINO then (node m j)\<lparr>dsize := (dsize (node m j) div BSIZE + 1) * BSIZE\<rparr> else node m j)"
    and "\<And>b. b < 2 + nlog \<or> nmeta \<le> b \<Longrightarrow> img m' b = img m b"
    and "\<And>b. b < FSSIZE \<Longrightarrow> used mk_sb (img m') b \<longleftrightarrow> b < freeblock m" and "freeblock m' = freeblock m"
proof -
  let ?d = "(node m ROOTINO)\<lparr>dsize := (dsize (node m ROOTINO) div BSIZE + 1) * BSIZE\<rparr>"
  have lim: "ROOTINO < ninodeblocks * IPB" using inode_limit [of ROOTINO] by (simp add: ROOTINO_def NINODES_def)
  have "inode_has (node m ROOTINO) m (c ROOTINO)" using inv n by (simp add: mk_inv_def ROOTINO_def)
  then have "dsize (node m ROOTINO) \<le> MAXFILE * BSIZE" using stored_length by (auto simp: inode_has_def)
  then have "dsize (node m ROOTINO) div BSIZE \<le> MAXFILE" using div_le_mono [of _ "MAXFILE * BSIZE" BSIZE] by simp
  then have "(dsize (node m ROOTINO) div BSIZE + 1) * BSIZE \<le> (MAXFILE + 1) * BSIZE" by (intro mult_le_mono1) simp
  also have "(MAXFILE + 1) * BSIZE < 2 ^ 32" by (simp add: MAXFILE_def NINDIRECT_def NDIRECT_def BSIZE_def)
  finally have ok: "dinode_ok ?d" using get_dinode_ok by (simp add: dinode_ok_def dinode_of_def)
  obtain m1 where w: "winode ROOTINO ?d m = Some m1" "\<And>j. node m1 j = (if j = ROOTINO then ?d else node m j)"
    "\<And>b. b < 2 + nlog \<or> nmeta \<le> b \<Longrightarrow> img m1 b = img m b" "freeblock m1 = freeblock m"
    using winode_ok [OF lim ok, of m] by metis
  let ?m = "wsect (sb_bmapstart mk_sb) (fold bm_set [0..<freeblock m] (\<lambda>_. 0)) m1"
  have fb: "freeblock m \<le> FSSIZE" using inv by (simp add: mk_inv_def)
  have "finish_image m = Some ?m"
    using w(1,4) rinode_ok [OF lim, of m] fb by (simp add: finish_image_def mk_balloc_def BSIZE_def FSSIZE_def)
  moreover have "node ?m j = (if j = ROOTINO then (node m j)\<lparr>dsize := (dsize (node m j) div BSIZE + 1) * BSIZE\<rparr> else node m j)"
    if "j < ninodeblocks * IPB" for j
    using IBLOCK_range [OF that] w(2) [of j] by (simp add: wsect_def dinode_of_def)
  moreover have "img ?m b = img m b" if "b < 2 + nlog \<or> nmeta \<le> b" for b
    using w(3) [OF that] that bmapstart_meta by (auto simp: wsect_def)
  moreover have "used mk_sb (img ?m) b \<longleftrightarrow> b < freeblock m" if "b < FSSIZE" for b
    using that bm_free_fold by (simp add: used_def BBLOCK_def BPB_def BSIZE_def FSSIZE_def wsect_def not_le)
  moreover have "freeblock ?m = freeblock m" by (simp add: wsect_def w(4))
  ultimately show ?thesis using that by blast
qed

lemma mk_inv_cong: "mk_inv c m \<Longrightarrow> (\<And>n. 1 \<le> n \<Longrightarrow> n < freeinode m \<Longrightarrow> c n = c' n) \<Longrightarrow> mk_inv c' m"
  by (simp add: mk_inv_def)

text \<open>The image before its last two steps.\<close>

lemma add_files_objs:
  assumes r: "root_image = Some m0" "add_files fs m0 = Some m" and len: "length fs + 2 \<le> NINODES"
  shows "mk_inv (objs fs) m" and "freeinode m = length fs + 2"
    and "0 < b \<Longrightarrow> b < 2 + nlog \<Longrightarrow> img m b = img empty_image b"
    and "\<forall>f \<in> set fs. shortname (fst f) \<noteq> None"
    and "freeblock m = nmeta + use (snd (objs fs ROOTINO)) + data_use fs"
proof -
  let ?r = "dirent ROOTINO [46] @ dirent ROOTINO [46, 46]" and ?c = "\<lambda>_. (0, [])"
  have s0: "mk_next empty_image (?c(ROOTINO := (T_DIR, ?r))) 1 1 m0" 
    by (rule root_image_next [of ?c]) (simp add: r(1))
  have fi: "freeinode empty_image = 1" "freeblock empty_image = nmeta" by (simp_all add: empty_image_def wsect_def)
  then have i0: "mk_inv (?c(ROOTINO := (T_DIR, ?r))) m0" "freeinode m0 = 2" "freeblock m0 = nmeta + 1" using s0 by (simp_all add: mk_next_def)
  have s1: "mk_next m0 (put_files 2 fs (?c(ROOTINO := (T_DIR, ?r)))) (length fs) (use (?r @ dir_bytes 2 fs) - use ?r + data_use fs) m"
    and sn: "\<forall>f \<in> set fs. shortname (fst f) \<noteq> None"
    using add_files_next [OF i0(1) _ _ r(2)] i0(2) len inode_limit [OF len] by (simp_all add: ROOTINO_def)
  show "\<forall>f \<in> set fs. shortname (fst f) \<noteq> None" by (rule sn)
  show f: "freeinode m = length fs + 2" using s1 i0(2) by (simp add: mk_next_def)
  have "mk_inv (put_files 2 fs (?c(ROOTINO := (T_DIR, ?r)))) m" using s1 by (simp add: mk_next_def)
  then show "mk_inv (objs fs) m"
  proof (rule mk_inv_cong)
    have two: "ROOTINO < 2" by (simp add: ROOTINO_def)
    show "put_files 2 fs (?c(ROOTINO := (T_DIR, ?r))) n = objs fs n" if "1 \<le> n" "n < freeinode m" for n
      using that f by (auto simp: put_files_eq [OF two] objs_def ROOTINO_def)
  qed
  show "0 < b \<Longrightarrow> b < 2 + nlog \<Longrightarrow> img m b = img empty_image b" using s0 s1 by (simp add: mk_next_def)
  have u: "use ?r = 1" using nblk_small [of 32] by (simp add: BSIZE_def blk_use_def NDIRECT_def)
  moreover have "use ?r \<le> use (?r @ dir_bytes 2 fs)" by (rule use_mono)
  ultimately show "freeblock m = nmeta + use (snd (objs fs ROOTINO)) + data_use fs"
    using s1 i0(3) by (simp add: mk_next_def objs_def)
qed

lemma mkfs_steps:
  assumes r: "mkfs fs = Some m" and len: "length fs + 2 \<le> NINODES"
  obtains m0 where "mk_inv (objs fs) m0" and "freeinode m0 = length fs + 2" and "finish_image m0 = Some m"
    and "\<And>b. 0 < b \<Longrightarrow> b < 2 + nlog \<Longrightarrow> img m0 b = img empty_image b" and "\<forall>f \<in> set fs. shortname (fst f) \<noteq> None"
    and "freeblock m0 = nmeta + use (snd (objs fs ROOTINO)) + data_use fs"
proof -
  obtain m1 m0 where "root_image = Some m1" "add_files fs m1 = Some m0" "finish_image m0 = Some m"
    using r by (auto simp: mkfs_def split: option.splits)
  then show ?thesis using that add_files_objs [OF _ _ len] by metis
qed

text \<open>The contents as the kernel reads them.\<close>

lemma stored_mapped:
  assumes "stored d m xs"
  shows "mapped d (img m) (length xs)"
proof -
  have wf: "file_wf d (img m) (nblk (length xs)) (freeblock m)" using assms by (simp add: stored_def)
  have "baddr d (img m) a \<noteq> 0 \<and> (NDIRECT \<le> a \<longrightarrow> daddrs d NDIRECT \<noteq> 0)" if "a * BSIZE < length xs" for a
  proof -
    have a: "a < nblk (length xs)" using that by (simp add: nblk_iff)
    then have "NDIRECT \<le> a \<longrightarrow> nmeta \<le> daddrs d NDIRECT" using wf by (auto simp: file_wf_def)
    then show ?thesis using file_wf_ind [OF wf a] nmeta_pos by (auto simp del: nmeta_pos)
  qed
  then show ?thesis using stored_length [OF assms] by (simp add: mapped_def)
qed

lemma stored_byte: "stored d m xs \<Longrightarrow> p < nblk (length xs) * BSIZE \<Longrightarrow> file_byte d (img m) p = (if p < length xs then xs ! p else 0)"
  by (simp add: stored_def file_byte_def block_of_def less_mult_imp_div_less)

lemma length_le_nblk: "n \<le> nblk n * BSIZE"
  using nblk_iff [of "nblk n" n] by simp

lemma stored_bytes: "stored d m xs \<Longrightarrow> file_bytes d (img m) 0 (length xs) = xs"
  using length_le_nblk [of "length xs"] stored_byte [of d m xs] by (intro nth_equalityI) (simp_all add: file_bytes_def)

text \<open>The objects in the finished image.\<close>

lemma mkfs_objects:
  assumes r: "mkfs fs = Some m" and len: "length fs + 2 \<le> NINODES" and n: "1 \<le> n" "n < length fs + 2"
  defines "e \<equiv> objs fs n"
  shows "stored (node m n) m (snd e)" and "dtype (node m n) = fst e" and "dnlink (node m n) = 1"
    and "dsize (node m n) = (if n = ROOTINO then (length (snd e) div BSIZE + 1) * BSIZE else length (snd e))"
    and "1 \<le> j \<Longrightarrow> j < length fs + 2 \<Longrightarrow> n \<noteq> j \<Longrightarrow> owned (node m n) m (snd e) \<inter> owned (node m j) m (snd (objs fs j)) = {}"
proof -
  obtain m0 where m0: "mk_inv (objs fs) m0" "freeinode m0 = length fs + 2" "finish_image m0 = Some m"
    using mkfs_steps [OF r len] by metis
  have "ROOTINO < freeinode m0" by (simp add: m0(2) ROOTINO_def)
  then have f: "k < ninodeblocks * IPB \<Longrightarrow> node m k = (if k = ROOTINO then (node m0 k)\<lparr>dsize := (dsize (node m0 k) div BSIZE + 1) * BSIZE\<rparr> else node m0 k)"
      "b < 2 + nlog \<or> nmeta \<le> b \<Longrightarrow> img m b = img m0 b" "freeblock m = freeblock m0" for k b
    using finish_image_ok [OF m0(1)] m0(3) by (metis option.inject)+
  have o: "stored (node m k) m (snd (objs fs k)) \<and> owned (node m k) m (snd (objs fs k)) = owned (node m0 k) m0 (snd (objs fs k))"
    and h: "inode_has (node m0 k) m0 (objs fs k)" and lim: "k < ninodeblocks * IPB"
    if k: "1 \<le> k" "k < length fs + 2" for k
  proof -
    show h: "inode_has (node m0 k) m0 (objs fs k)" using m0(1,2) k by (simp add: mk_inv_def)
    show lim: "k < ninodeblocks * IPB" using inode_limit [of k] k len by simp
    have st: "stored (node m0 k) m0 (snd (objs fs k))" using h by (simp add: inode_has_def)
    have "img m b = img m0 b" if "b \<in> owned (node m0 k) m0 (snd (objs fs k))" for b
      using owned_range [OF st] that by (intro f(2)) auto
    then have "stored (node m0 k) m (snd (objs fs k)) \<and> owned (node m0 k) m (snd (objs fs k)) = owned (node m0 k) m0 (snd (objs fs k))"
      using stored_frame [OF st _ eq_refl [OF f(3) [symmetric]]] by blast
    then show "stored (node m k) m (snd (objs fs k)) \<and> owned (node m k) m (snd (objs fs k)) = owned (node m0 k) m0 (snd (objs fs k))"
      unfolding f(1) [OF lim] by (cases "k = ROOTINO") (simp_all add: stored_size)
  qed
  show "stored (node m n) m (snd e)" using o [OF n] by (simp add: e_def)
  show "dtype (node m n) = fst e" "dnlink (node m n) = 1"
    "dsize (node m n) = (if n = ROOTINO then (length (snd e) div BSIZE + 1) * BSIZE else length (snd e))"
    using f(1) [OF lim [OF n]] h [OF n] by (cases "n = ROOTINO"; simp add: inode_has_def e_def)+
  show "1 \<le> j \<Longrightarrow> j < length fs + 2 \<Longrightarrow> n \<noteq> j \<Longrightarrow> owned (node m n) m (snd e) \<inter> owned (node m j) m (snd (objs fs j)) = {}"
    using o [OF n] o [of j] m0(1,2) n by (simp add: mk_inv_def e_def)
qed

lemma get_put_super: "get_super (put_super mk_sb) = mk_sb"
  by (simp add: get_super_def put_super_def get_put_le_other)
     (simp add: mk_sb_def FSMAGIC_def FSSIZE_def nblocks_def bmapstart_meta NINODES_def ninodeblocks_def IPB_def BSIZE_def)

lemma mkfs_meta:
  assumes "mkfs fs = Some m" and "length fs + 2 \<le> NINODES"
  shows "get_super (img m 1) = mk_sb" and "2 \<le> b \<Longrightarrow> b < 2 + nlog \<Longrightarrow> img m b = (\<lambda>_. 0)"
    and "b < FSSIZE \<Longrightarrow> used mk_sb (img m) b \<longleftrightarrow> b < freeblock m"
    and "freeblock m = nmeta + use (snd (objs fs ROOTINO)) + data_use fs" and "freeblock m \<le> FSSIZE"
proof -
  obtain m0 where m0: "mk_inv (objs fs) m0" "freeinode m0 = length fs + 2" "finish_image m0 = Some m"
      "\<And>b. 0 < b \<Longrightarrow> b < 2 + nlog \<Longrightarrow> img m0 b = img empty_image b" "freeblock m0 = nmeta + use (snd (objs fs ROOTINO)) + data_use fs"
    using mkfs_steps [OF assms] by metis
  have "ROOTINO < freeinode m0" by (simp add: m0(2) ROOTINO_def)
  then have f: "b < 2 + nlog \<or> nmeta \<le> b \<Longrightarrow> img m b = img m0 b" "b < FSSIZE \<Longrightarrow> used mk_sb (img m) b \<longleftrightarrow> b < freeblock m0" "freeblock m = freeblock m0" for b
    using finish_image_ok [OF m0(1)] m0(3) by (metis option.inject)+
  have low: "img m b = img empty_image b" if "0 < b" "b < 2 + nlog" for b using f(1) m0(4) that by simp
  show "get_super (img m 1) = mk_sb" using low [of 1] get_put_super by (simp add: empty_image_def wsect_def)
  show "2 \<le> b \<Longrightarrow> b < 2 + nlog \<Longrightarrow> img m b = (\<lambda>_. 0)" using low [of b] by (simp add: empty_image_def wsect_def)
  show "b < FSSIZE \<Longrightarrow> used mk_sb (img m) b \<longleftrightarrow> b < freeblock m" "freeblock m = nmeta + use (snd (objs fs ROOTINO)) + data_use fs" "freeblock m \<le> FSSIZE"
    using f m0(1,5) by (simp_all add: mk_inv_def)
qed

text \<open>The end of the root directory: its last block is there unless its entries fill the blocks before it.\<close>

lemma stored_end:
  assumes st: "stored d m xs" and n: "length xs \<le> 12 * BSIZE - 1"
  shows "mapped d (img m) ((length xs div BSIZE + 1) * BSIZE) \<longleftrightarrow> \<not> BSIZE dvd length xs"
proof
  let ?q = "length xs div BSIZE"
  have wf: "file_wf d (img m) (nblk (length xs)) (freeblock m)" using st by (simp add: stored_def)
  have e: "?q * BSIZE + length xs mod BSIZE = length xs" by simp
  have q: "?q < NDIRECT" using n by (simp add: NDIRECT_def BSIZE_def div_less_iff_less_mult)
  have last: "?q * BSIZE < (?q + 1) * BSIZE" using BSIZE_pos by (simp del: BSIZE_pos)
  show "mapped d (img m) ((?q + 1) * BSIZE) \<Longrightarrow> \<not> BSIZE dvd length xs"
  proof
    assume mp: "mapped d (img m) ((?q + 1) * BSIZE)" and dv: "BSIZE dvd length xs"
    then have "\<not> ?q < nblk (length xs)" unfolding nblk_iff using e by (simp add: dvd_imp_mod_0)
    then have "daddrs d ?q = 0" using wf q by (simp add: file_wf_def)
    moreover have "baddr d (img m) ?q \<noteq> 0" using mp last unfolding mapped_def by blast
    ultimately show False using q by (simp add: baddr_def)
  qed
  assume "\<not> BSIZE dvd length xs"
  then have pos: "?q * BSIZE < length xs" using e by (metis dvd_triv_right le_neq_implies_less le_add1)
  have "a * BSIZE < length xs" if "a * BSIZE < (?q + 1) * BSIZE" for a
  proof -
    have "a \<le> ?q" using that by (metis BSIZE_pos Suc_eq_plus1 less_Suc_eq_le mult_less_cancel2)
    then show ?thesis using pos by (metis le_less_trans mult_le_mono1)
  qed
  moreover have "(?q + 1) * BSIZE \<le> MAXFILE * BSIZE" using q by (intro mult_le_mono1) (simp add: MAXFILE_def)
  ultimately show "mapped d (img m) ((?q + 1) * BSIZE)" using stored_mapped [OF st] unfolding mapped_def by blast
qed

lemma root_length: "length (snd (objs fs ROOTINO)) = 16 * (length fs + 2)"
  by (simp add: objs_def)

text \<open>C16. The image that \<^verbatim>\<open>mkfs\<close> writes for at most 198 files: block 1 holds the super block, the log is empty, and
  the bitmap marks exactly the blocks before \<^verbatim>\<open>freeblock\<close>. Inode 1 is a directory with the entries for
  \<^verbatim>\<open>.\<close>, \<^verbatim>\<open>..\<close> and the files in order, inode \<open>i + 2\<close> a file with the bytes of the \<open>i\<close>-th argument, with link count 1,
  the size of a file the number of its bytes, and all their blocks present. No two of them share a block, and
  all blocks are marked as used. The size of the root directory is rounded up beyond its last entry, and its last block exists
  unless the entries fill whole blocks.\<close>

theorem mkfs_image:
  assumes "mkfs fs = Some m" and "length fs + 2 \<le> NINODES"
  defines "v \<equiv> img m" and "d \<equiv> dinode_of mk_sb (img m)"
  shows "get_super (v 1) = mk_sb \<and> (\<forall>b. 2 \<le> b \<and> b < 2 + nlog \<longrightarrow> v b = (\<lambda>_. 0)) \<and>
    (\<forall>b < FSSIZE. used mk_sb v b \<longleftrightarrow> b < freeblock m) \<and>
    (\<forall>n \<in> {1..<length fs + 2}. let xs = snd (objs fs n) in
       dtype (d n) = fst (objs fs n) \<and> dnlink (d n) = 1 \<and> (n \<noteq> ROOTINO \<longrightarrow> dsize (d n) = length xs) \<and>
       mapped (d n) v (length xs) \<and> file_bytes (d n) v 0 (length xs) = xs \<and> own (d n) v (nblk (length xs)) \<subseteq> {nmeta..<freeblock m} \<and>
       (\<forall>j \<in> {1..<length fs + 2} - {n}. own (d n) v (nblk (length xs)) \<inter> own (d j) v (nblk (length (snd (objs fs j)))) = {})) \<and>
    dsize (d ROOTINO) = (16 * (length fs + 2) div BSIZE + 1) * BSIZE \<and>
    (mapped (d ROOTINO) v (dsize (d ROOTINO)) \<longleftrightarrow> \<not> BSIZE dvd 16 * (length fs + 2))"
proof -
  note o = mkfs_objects [OF assms(1,2)] and me = mkfs_meta [OF assms(1,2)]
  have r: "1 \<le> ROOTINO" "ROOTINO < length fs + 2" by (simp_all add: ROOTINO_def)
  have "16 * (length fs + 2) \<le> 12 * BSIZE - 1" using assms(2) by (simp add: NINODES_def BSIZE_def)
  then have "mapped (d ROOTINO) v (dsize (d ROOTINO)) \<longleftrightarrow> \<not> BSIZE dvd 16 * (length fs + 2)"
    using stored_end [OF o(1) [OF r]] o(4) [OF r] unfolding d_def v_def root_length by simp
  moreover have "dsize (d ROOTINO) = (16 * (length fs + 2) div BSIZE + 1) * BSIZE" using o(4) [OF r] by (simp add: d_def root_length)
  moreover have "let xs = snd (objs fs n) in
       dtype (d n) = fst (objs fs n) \<and> dnlink (d n) = 1 \<and> (n \<noteq> ROOTINO \<longrightarrow> dsize (d n) = length xs) \<and>
       mapped (d n) v (length xs) \<and> file_bytes (d n) v 0 (length xs) = xs \<and> own (d n) v (nblk (length xs)) \<subseteq> {nmeta..<freeblock m} \<and>
       (\<forall>j \<in> {1..<length fs + 2} - {n}. own (d n) v (nblk (length xs)) \<inter> own (d j) v (nblk (length (snd (objs fs j)))) = {})"
    if "n \<in> {1..<length fs + 2}" for n
  proof -
    have n: "1 \<le> n" "n < length fs + 2" using that by auto
    show ?thesis
      using o [OF n] stored_mapped stored_bytes owned_range [OF o(1) [OF n]] by (simp add: Let_def d_def v_def)
  qed
  ultimately show ?thesis using me(1-3) unfolding v_def by blast
qed

lemma mkfs_exists:
  assumes "length fs + 2 \<le> NINODES"
    and "\<forall>f \<in> set fs. shortname (fst f) \<noteq> None \<and> length (concat (snd f)) \<le> MAXFILE * BSIZE"
    and "nmeta + nblk (16 * (length fs + 2)) + (\<Sum>f \<leftarrow> fs. blk_use (nblk (length (concat (snd f))))) \<le> FSSIZE"
  shows "\<exists>m. mkfs fs = Some m \<and> freeblock m = nmeta + nblk (16 * (length fs + 2)) + (\<Sum>f \<leftarrow> fs. blk_use (nblk (length (concat (snd f)))))"
proof -
  let ?r = "dirent ROOTINO [46] @ dirent ROOTINO [46, 46]" and ?c = "\<lambda>_. (0, [])"
  have "\<not> 12 < nblk (16 * (length fs + 2))" using nblk_iff [of 12 "16 * (length fs + 2)"] assms(1) by (simp add: NINODES_def BSIZE_def)
  then have rb: "nblk (32 + 16 * length fs) \<le> MAXFILE" "blk_use (nblk (32 + 16 * length fs)) = nblk (16 * (length fs + 2))"
    by (simp_all add: MAXFILE_def NDIRECT_def blk_use_def add.commute)
  obtain m0 where m0: "root_image = Some m0" "mk_next empty_image (?c(ROOTINO := (T_DIR, ?r))) 1 1 m0"
    by (rule root_image_next [of ?c])
  then have i0: "mk_inv (?c(ROOTINO := (T_DIR, ?r))) m0" "freeinode m0 = 2" "freeblock m0 = nmeta + 1"
    by (simp_all add: mk_next_def empty_image_def wsect_def)
  have small: "nblk (length (concat (snd f))) \<le> MAXFILE" if "f \<in> set fs" for f
    using nblk_iff [of MAXFILE "length (concat (snd f))"] assms(2) that by (simp add: not_less [symmetric])
  have "use ?r = 1" using nblk_small [of 32] by (simp add: BSIZE_def blk_use_def NDIRECT_def)
  then obtain m1 where m1: "add_files fs m0 = Some m1"
    using add_files_Some [OF i0(1), of fs] i0(2,3) inode_limit [OF assms(1)] assms(2,3) small rb
    by (auto simp: ROOTINO_def data_use_def)
  note b = add_files_objs [OF m0(1) m1 assms(1)]
  have "ROOTINO < freeinode m1" by (simp add: b(2) ROOTINO_def)
  then obtain m where m: "finish_image m1 = Some m" using finish_image_ok [OF b(1)] by metis
  then have r: "mkfs fs = Some m" by (simp add: mkfs_def m0(1) m1)
  have "freeblock m = nmeta + use (snd (objs fs ROOTINO)) + data_use fs" by (rule mkfs_meta(4) [OF r assms(1)])
  then show ?thesis using r rb(2) unfolding root_length by (simp add: data_use_def add.commute)
qed

definition demo_files :: "(u8 list \<times> u8 list list) list" where
  "demo_files = [([117, 115, 101, 114, 47, 95, 99, 97, 116], [[1, 2], [3]]), ([109, 111, 116, 100], [replicate 1024 7, [8]])]"

lemma demo_shortnames: "map (shortname \<circ> fst) demo_files = [Some [99, 97, 116], Some [109, 111, 116, 100]]"
  by (simp add: demo_files_def shortname_def)

lemma demo_mkfs: "mkfs demo_files = Some (the (mkfs demo_files))" "length demo_files + 2 \<le> NINODES"
proof -
  show l: "length demo_files + 2 \<le> NINODES" by (simp add: demo_files_def NINODES_def)
  have "\<exists>m. mkfs demo_files = Some m"
    using mkfs_exists [OF l] demo_shortnames
    by (simp add: demo_files_def MAXFILE_def NDIRECT_def NINDIRECT_def BSIZE_def bmapstart_meta FSSIZE_def blk_use_def nblk_def) blast
  then show "mkfs demo_files = Some (the (mkfs demo_files))" by auto
qed

text \<open>C19. \<^verbatim>\<open>mkfs\<close> ends with an image when every name is without a slash after the removal of \<^verbatim>\<open>user/\<close>, no file is
  larger than \<open>MAXFILE\<close> blocks, there are at most 198 files, and the blocks of the files and of the root directory,
  indirect blocks included, fit behind the meta data.\<close>

theorem mkfs_total:
  assumes "length fs + 2 \<le> NINODES"
    and "\<forall>f \<in> set fs. shortname (fst f) \<noteq> None \<and> length (concat (snd f)) \<le> MAXFILE * BSIZE"
    and "nmeta + nblk (16 * (length fs + 2)) + (\<Sum>f \<leftarrow> fs. blk_use (nblk (length (concat (snd f))))) \<le> FSSIZE"
  shows "\<exists>m. mkfs fs = Some m \<and> freeblock m = nmeta + nblk (16 * (length fs + 2)) + (\<Sum>f \<leftarrow> fs. blk_use (nblk (length (concat (snd f)))))"
  using assms by (rule mkfs_exists)

theorem mkfs_total_witness:
  "\<exists>m. mkfs demo_files = Some m \<and> freeblock m = 50"
proof -
  have "\<exists>m. mkfs demo_files = Some m \<and> freeblock m = nmeta + nblk (16 * (length demo_files + 2)) + (\<Sum>f \<leftarrow> demo_files. blk_use (nblk (length (concat (snd f)))))"
    by (rule mkfs_total)
      (use demo_mkfs(2) demo_shortnames in \<open>simp_all add: demo_files_def MAXFILE_def NDIRECT_def NINDIRECT_def BSIZE_def bmapstart_meta FSSIZE_def blk_use_def nblk_def\<close>)
  then show ?thesis by (simp add: demo_files_def NDIRECT_def BSIZE_def bmapstart_meta blk_use_def nblk_def)
qed

subsection \<open>Mounting the image\<close>

lemma recovered_zero: "d start = (\<lambda>_. 0) \<Longrightarrow> recovered start d = d"
proof -
  assume z: "d start = (\<lambda>_. 0)"
  have "head_n start d = 0" by (simp add: head_n_def z sint32_def)
  moreover have "put_le 4 0 0 (\<lambda>_. 0) = (\<lambda>_. 0)" by (simp add: put_le_def fun_eq_iff)
  ultimately show "recovered start d = d" using z by (simp add: recovered_def Let_def put_head_0 fun_upd_idem)
qed

lemma readsb_boot: "\<exists>b. readsb me (boot d) = Ok (get_super (d 1)) ((boot d)\<lparr>bs := b\<rparr>) \<and> cst me {} {} b \<and> disk b = d"
proof -
  note bo = boot_cst(1) [of me d] boot_cst(2) [of d]
  have vd: "view (bs (boot d)) n = d n" for n using bc.unheld [OF bo(1)] bo(2) by simp
  obtain b t where t: "bread me ROOTDEV 1 (bs (boot d)) = Ok b t" "cst me {} {1} t" "cached t b 1" "view t = view (bs (boot d))" "disk t = d"
    using bc.rd_ok [OF bo(1), of 1] bo(2) by (auto simp: NBUF_def)
  have g: "get_data b t = d 1" using bc.get_seen [OF t(2) _ t(3)] t(4) vd by simp
  obtain u where u: "brelse me b t = Ok () u" "cst me {} {} u" "disk u = d"
    using bc.rel_ok [OF t(2) _ t(3)] t(4,5) vd by auto
  show ?thesis using t(1) u g by (intro exI [of _ u]) (simp add: readsb_def lbread_def lbrelse_def Let_def)
qed

lemma BBLOCK_mk: "b < FSSIZE \<Longrightarrow> BBLOCK b mk_sb = sb_bmapstart mk_sb"
  by (simp add: BBLOCK_def BPB_def BSIZE_def FSSIZE_def)

text \<open>The kernel's view of a stored file.\<close>

lemma stored_file_ok:
  assumes st: "stored d m xs" and fb: "freeblock m \<le> FSSIZE" and l: "lstart l = 2" "lsize l = int nlog"
  shows "file_ok d (img m) (length xs) l"
proof -
  have wf: "file_wf d (img m) (nblk (length xs)) (freeblock m)" using st by (simp add: stored_def)
  have "baddr d (img m) a \<noteq> daddrs d NDIRECT \<and> baddr d (img m) a < 2 ^ 32 \<and> baddr d (img m) a \<notin> log_area (lstart l) (nat (lsize l))"
    if "a * BSIZE < length xs" for a
  proof -
    have a: "a < nblk (length xs)" using that by (simp add: nblk_iff)
    then have "nmeta \<le> baddr d (img m) a" "baddr d (img m) a < FSSIZE" using wf fb by (auto simp: file_wf_def)
    then show ?thesis using file_wf_ind [OF wf a] l by (simp add: log_area_def bmapstart_meta FSSIZE_def)
  qed
  moreover have "a = b" if "a * BSIZE < length xs" "b * BSIZE < length xs" "baddr d (img m) a = baddr d (img m) b" for a b
    using wf that by (auto simp: file_wf_def inj_on_def nblk_iff)
  ultimately show ?thesis using stored_mapped [OF st] unfolding file_ok_def by blast
qed

lemma initlog_idle: "initlog me start n s = Ok () t \<Longrightarrow> outstanding t = outstanding s \<and> committing t = committing s"
  by (auto simp: initlog_def recover_from_log_def seqr_eq_Ok dest!: write_head_same install_trans_same read_head_same split: if_splits)

text \<open>The state of the log and of the cache after mounting.\<close>

lemma mount_state:
  assumes "mkfs fs = Some m" and "length fs + 2 \<le> NINODES"
  obtains t where "fsinit me (boot (img m)) = Ok mk_sb t" and "lstart t = 2" and "lsize t = int nlog" and "lhn t = 0"
    and "cst me {} {} (bs t)" and "disk (bs t) = img m" and "view (bs t) = img m" and "outstanding t = 0" and "\<not> committing t"
proof -
  note me = mkfs_meta [OF assms]
  have log: "img m 2 = (\<lambda>_. 0)" using me(2) [of 2] by (simp add: bmapstart_meta)
  have rec: "recovered 2 (img m) = img m" by (rule recovered_zero [of "img m", OF log])
  obtain b where b: "readsb me (boot (img m)) = Ok mk_sb ((boot (img m))\<lparr>bs := b\<rparr>)" "cst me {} {} b" "disk b = img m"
    using readsb_boot [of me "img m"] me(1) by auto
  have hs: "head_sound 2 (img m)" by (simp add: head_sound_def head_n_def log LOGSIZE_def MAXOPBLOCKS_def sint32_def)
  obtain t where t: "initlog me 2 nlog ((boot (img m))\<lparr>bs := b\<rparr>) = Ok () t" "lstart t = 2" "lsize t = int nlog" "lhn t = 0" "cst me {} {} (bs t)" "disk (bs t) = img m"
    using initlog_recovers [of me "(boot (img m))\<lparr>bs := b\<rparr>" 2 nlog] b(2,3) hs rec by auto
  have "fsinit me (boot (img m)) = Ok mk_sb t" using b(1) t(1) by (simp add: fsinit_def mk_sb_def)
  moreover have "view (bs t) = img m" using bc.unheld [OF t(5)] t(6) by (simp add: fun_eq_iff)
  moreover have "outstanding t = 0" "\<not> committing t" using initlog_idle [OF t(1)] by (simp_all add: boot_def)
  ultimately show ?thesis using that [OF _ t(2-6)] by blast
qed

text \<open>C18. The kernel mounts the image that \<^verbatim>\<open>mkfs\<close> built: \<^verbatim>\<open>fsinit\<close> on a machine with this disk returns the super block
  without a panic and leaves the image as it is, and then the layout on which the block allocator relies, the place
  of the inode blocks, and for every copied file the block structure on which \<^verbatim>\<open>readi\<close> and \<^verbatim>\<open>writei\<close> rely are given.\<close>

theorem mkfs_mounts:
  assumes "mkfs fs = Some m" and "length fs + 2 \<le> NINODES"
  shows "\<exists>t. fsinit me (boot (img m)) = Ok mk_sb t \<and> view (bs t) = img m \<and> fs_layout mk_sb t \<and> inodes_placed mk_sb t \<and>
     (\<forall>n \<in> {2..<length fs + 2}. file_ok (dinode_of mk_sb (img m) n) (img m) (length (snd (objs fs n))) t)"
proof -
  note me = mkfs_meta [OF assms]
  obtain t where fi: "fsinit me (boot (img m)) = Ok mk_sb t" and t: "lstart t = 2" "lsize t = int nlog" and v: "view (bs t) = img m"
    by (rule mount_state [OF assms])
  have la: "log_area (lstart t) (nat (lsize t)) = {2..<32}" by (simp add: t log_area_def bmapstart_meta)
  have fb: "46 \<le> freeblock m" by (simp add: me(4) bmapstart_meta)
  have sb: "sb_size mk_sb = FSSIZE" "sb_ninodes mk_sb = NINODES" by (simp_all add: mk_sb_def)
  have bm: "n \<in> bitmap_blocks mk_sb \<Longrightarrow> n = 45" for n by (auto simp: bitmap_blocks_def sb BBLOCK_mk bmapstart_meta)
  have "fs_layout mk_sb t"
    unfolding fs_layout_def v la sb
  proof (intro conjI ballI allI impI)
    fix b assume "b < FSSIZE" and "\<not> used mk_sb (img m) b"
    then have "45 < b" using me(3) [of b] fb by simp
    then show "b \<notin> bitmap_blocks mk_sb" "b \<notin> {2..<32}" using bm [of b] by auto
  qed (auto dest: bm simp: FSSIZE_def)
  moreover have "inodes_placed mk_sb t"
    unfolding inodes_placed_def la sb
  proof (intro allI impI)
    fix n assume "n < NINODES"
    then show "IBLOCK n mk_sb < 2 ^ 32 \<and> IBLOCK n mk_sb \<notin> {2..<32}"
      using IBLOCK_range [OF inode_limit, of n] by (simp add: bmapstart_meta)
  qed
  moreover have "file_ok (dinode_of mk_sb (img m) n) (img m) (length (snd (objs fs n))) t" if "n \<in> {2..<length fs + 2}" for n
    using stored_file_ok [OF mkfs_objects(1) [OF assms] me(5) t] that by simp
  ultimately show ?thesis using fi v by blast
qed

theorem mkfs_image_witness:
  defines "m \<equiv> the (mkfs demo_files)"
  shows "mkfs demo_files = Some m \<and> get_super (img m 1) = mk_sb \<and> dsize (dinode_of mk_sb (img m) 2) = 3 \<and>
    file_bytes (dinode_of mk_sb (img m) 2) (img m) 0 3 = [1, 2, 3]"
proof -
  have o: "snd (objs demo_files 2) = [1, 2, 3]" by (simp add: objs_def ROOTINO_def demo_files_def)
  have n: "2 \<in> {1..<length demo_files + 2}" "2 \<noteq> ROOTINO" by (simp_all add: demo_files_def ROOTINO_def)
  note i = mkfs_image [OF demo_mkfs, folded m_def]
  note f = i [THEN conjunct2, THEN conjunct2, THEN conjunct2, THEN conjunct1, THEN bspec, OF n(1), unfolded Let_def o]
  show ?thesis using conjunct1 [OF i] f n(2) demo_mkfs(1) unfolding m_def by (simp add: numeral_3_eq_3)
qed

theorem mkfs_mounts_witness:
  defines "m \<equiv> the (mkfs demo_files)"
  shows "mkfs demo_files = Some m \<and>
    (\<exists>t. fsinit 0 (boot (img m)) = Ok mk_sb t \<and> fs_layout mk_sb t \<and> file_ok (dinode_of mk_sb (img m) 3) (img m) 1025 t)"
proof -
  have o: "length (snd (objs demo_files 3)) = 1025" by (simp add: objs_def ROOTINO_def demo_files_def)
  have n: "3 \<in> {2..<length demo_files + 2}" by (simp add: demo_files_def)
  show ?thesis using mkfs_mounts [OF demo_mkfs, of 0] demo_mkfs(1) n unfolding m_def o [symmetric] by blast
qed

end
