(* ===== verification/Boot.thy ===== *)
theory Boot
  imports Mkfs
begin

section \<open>From the image to an open file\<close>

text \<open>
  The image builder and the kernel together: what a process that opens a file by its name in the root directory reads,
  on a machine that was started with the disk that \<^verbatim>\<open>mkfs\<close> wrote. The calls are those of \<^verbatim>\<open>forkret\<close> (\<^verbatim>\<open>fsinit\<close>),
  \<^verbatim>\<open>sys_open\<close> (\<^verbatim>\<open>begin_op\<close>, \<^verbatim>\<open>namei\<close>, \<^verbatim>\<open>ilock\<close>) and \<^verbatim>\<open>fileread\<close> (\<^verbatim>\<open>readi\<close>).
\<close>

subsection \<open>A name in the root directory\<close>

text \<open>An empty inode table.\<close>

definition itab_free :: "(nat \<Rightarrow> inode) \<Rightarrow> bool" where
  "itab_free tab \<longleftrightarrow> (\<forall>k < NINODE. iref (tab k) = 0 \<and> ilk (tab k) = None)"

lemma itab_free_inv: "itab_free (itab s) \<Longrightarrow> itab_inv s"
  by (auto simp: itab_free_def itab_inv_def holds_ino_def)

text \<open>The slot of an inode that nobody holds.\<close>

lemma iget_new:
  assumes "itab_inv s" and "\<forall>k. \<not> holds_ino s k d n" and "j < NINODE" "iref (itab s j) = 0"
  obtains i where "iget d n s = Ok i (upd_ino i (\<lambda>x. x\<lparr>idev := d, inum := n, iref := 1, ivalid := False\<rparr>) s)"
    and "i < NINODE" and "iref (itab s i) = 0"
proof -
  have "scan_first (\<lambda>i. iref (itab s i) = 0) [0..<NINODE] \<noteq> None" using assms(3,4) by (auto simp: scan_first_None_iff)
  then obtain i where i: "scan_first (\<lambda>i. iref (itab s i) = 0) [0..<NINODE] = Some i" by blast
  then show ?thesis using iget_cases [OF assms(1), of d n] assms(2) that [of i] by (auto dest: scan_first_SomeD)
qed

text \<open>Giving up a locked inode that has links.\<close>

lemma iunlockput_linked:
  assumes "ilk (itab s i) = Some me" and "iref (itab s i) = 1" and "dnlink (idata (itab s i)) \<noteq> 0"
  shows "\<exists>ps. iunlockput me sb i s = Ok () (upd_ino i (\<lambda>x. x\<lparr>ilk := None, iref := 0\<rparr>) (set_ptab ps s))"
  using assms
  by (auto simp: iunlockput_def iunlock_def iput_def unlock_ino_def releasesleep_def holdingsleep_def upd_ino_def set_ptab_def)

lemma skipelem_single:
  assumes "nm \<noteq> []" and "slash \<notin> set nm"
  shows "skipelem (slash # nm) = Some (take DIRSIZ nm, [])"
proof -
  have tw: "takeWhile (\<lambda>c. c \<noteq> slash) nm = nm" using assms(2) by (auto simp: takeWhile_eq_all_conv)
  then have dw: "dropWhile (\<lambda>c. c \<noteq> slash) nm = []" by (metis append_self_conv takeWhile_dropWhile_id)
  have "dropWhile (\<lambda>c. c = slash) nm = nm" using assms by (cases nm) auto
  then show ?thesis using assms(1) by (simp add: skipelem_def Let_def tw dw)
qed

text \<open>The lookup of a path of one name below the root, on an empty inode table.\<close>

lemma namei_root_entry:
  fixes sb :: superblock
  assumes tx: "tx_ready {} 1 me (lg s)" and free: "itab_free (itab s)" and nm: "nm \<noteq> []" "slash \<notin> set nm"
  defines "v \<equiv> view (bs (lg s))"
  defines "d \<equiv> dinode_of sb v ROOTINO"
  assumes d: "dtype d = T_DIR" "dnlink d \<noteq> 0" "mapped d v (dsize d)" "dsize d < 2 ^ 32" "16 dvd dsize d"
    and off: "scan_first (entry_matches d v (take DIRSIZ nm)) (dir_offs (dsize d)) = Some off" and n: "n = de_inum (entry d v off)" "n \<noteq> ROOTINO"
  obtains ip t where "namei me sb c (slash # nm) s = Ok (Some ip) t" and "tx_ready {} 1 me (lg t)" and "view (bs (lg t)) = v"
    and "inum (itab t ip) = n" and "iref (itab t ip) = 1" and "ilk (itab t ip) = None" and "\<not> ivalid (itab t ip)"
proof -
  have none: "\<forall>k. \<not> holds_ino s k ROOTDEV ROOTINO" using free by (auto simp: itab_free_def holds_ino_def)
  have N: "0 < NINODE" "1 < NINODE" by (simp_all add: NINODE_def)
  obtain i where i: "iget ROOTDEV ROOTINO s = Ok i (upd_ino i (\<lambda>x. x\<lparr>idev := ROOTDEV, inum := ROOTINO, iref := 1, ivalid := False\<rparr>) s)" "i < NINODE"
    using iget_new [OF itab_free_inv [OF free] none N(1)] free N(1) by (auto simp: itab_free_def)
  define s1 where "s1 = upd_ino i (\<lambda>x. x\<lparr>idev := ROOTDEV, inum := ROOTINO, iref := 1, ivalid := False\<rparr>) s"
  have il: "ilk (itab s i) = None" using free i(2) by (simp add: itab_free_def)
  have s1: "lg s1 = lg s" "inum (itab s1 i) = ROOTINO" "iref (itab s1 i) = 1" "ilk (itab s1 i) = None" "\<not> ivalid (itab s1 i)" "idev (itab s1 i) = ROOTDEV"
    "\<And>k. k \<noteq> i \<Longrightarrow> itab s1 k = itab s k"
    using il by (simp_all add: s1_def)
  have nz: "T_DIR \<noteq> 0" by (simp add: T_DIR_def)
  obtain s2 where s2: "ilock me sb i s1 = Ok () s2" "log_ok me {} (lg s2)" "tx_same {} (lg s) (lg s2)"
      "itab s2 = (itab s1)(i := (itab s1 i)\<lparr>ilk := Some me, idata := d, ivalid := True\<rparr>)"
    using ilock_loads [of me s1 i sb] tx s1 d(1) nz by (auto simp: d_def v_def)
  have tx2: "tx_ready {} 1 me (lg s2)" by (rule tx_ready_same [OF tx s2(2,3)])
  have v2: "view (bs (lg s2)) = v" "idata (itab s2 i) = d" "idev (itab s2 i) = ROOTDEV" "inum (itab s2 i) = ROOTINO" "iref (itab s2 i) = 1"
    using s2(3,4) s1 by (simp_all add: tx_same_def v_def)
  have offs: "\<forall>o' \<in> set (dir_offs (dsize d)). o' + 16 \<le> dsize d" using dir_offs_within [OF d(5)] by blast
  obtain s3 where s3: "fs_same s2 s3" "tx_ready {} 1 me (lg s3)" "dirlookup me sb i (take DIRSIZ nm) s2 =
      seqr (iget ROOTDEV n s3) (\<lambda>ip s. Ok (Some (ip, off)) s)"
    using dirlookup_loop_ok [OF tx2, of i "dir_offs (dsize d)" sb "take DIRSIZ nm"] v2 d offs off n(1) by (auto simp: dirlookup_def fs_same_def)
  have it3: "itab s3 = itab s2" "tx_same {} (lg s2) (lg s3)" using s3(1) by (simp_all add: fs_same_def)
  have free3: "iref (itab s3 k) = 0" if "k \<noteq> i" "k < NINODE" for k using that free s1(7) s2(4) it3(1) by (simp add: itab_free_def)
  have holds3: "k = i \<and> n' = ROOTINO" if "holds_ino s3 k d' n'" for k d' n'
    using that free3 [of k] v2(4) it3(1) by (auto simp: holds_ino_def)
  have inv3: "itab_inv s3"
    unfolding itab_inv_def using free3 holds3 v2(5) it3(1) by (metis order_refl zero_le_one)
  obtain k where k: "k \<noteq> i" "k < NINODE" using N(2) by (metis N(1) zero_neq_one)
  have none3: "\<forall>k. \<not> holds_ino s3 k ROOTDEV n" using holds3 n(2) by blast
  obtain ip where ip: "iget ROOTDEV n s3 = Ok ip (upd_ino ip (\<lambda>x. x\<lparr>idev := ROOTDEV, inum := n, iref := 1, ivalid := False\<rparr>) s3)"
      "ip < NINODE" "iref (itab s3 ip) = 0"
    using iget_new [OF inv3 none3 k(2) free3 [OF k]] by blast
  define s4 where "s4 = upd_ino ip (\<lambda>x. x\<lparr>idev := ROOTDEV, inum := n, iref := 1, ivalid := False\<rparr>) s3"
  have ne: "ip \<noteq> i" using ip(3) it3(1) v2(5) by auto
  then have "ilk (itab s4 i) = Some me" "iref (itab s4 i) = 1" "dnlink (idata (itab s4 i)) \<noteq> 0"
    using it3(1) s2(4) s1(3) v2(2) d(2) by (simp_all add: s4_def)
  then obtain ps where ps: "iunlockput me sb i s4 = Ok () (upd_ino i (\<lambda>x. x\<lparr>ilk := None, iref := 0\<rparr>) (set_ptab ps s4))"
    using iunlockput_linked by blast
  define t where "t = upd_ino i (\<lambda>x. x\<lparr>ilk := None, iref := 0\<rparr>) (set_ptab ps s4)"
  have "namex_loop (Suc (Suc (length nm))) me sb False i [] (slash # nm) s1 = Ok (Some (ip, take DIRSIZ nm)) t"
    using s2(1) s3(3) ip(1) ps d(1) v2(2) skipelem_single [OF nm]
    by (simp add: s4_def t_def skipelem_def [of "[]"])
  then have "namei me sb c (slash # nm) s = Ok (Some ip) t"
    using i(1) by (simp add: namei_def namex_def first_byte_def s1_def)
  moreover have "tx_ready {} 1 me (lg t)" using s3(2) by (simp add: t_def s4_def)
  moreover have "view (bs (lg t)) = v" using it3(2) v2(1) by (simp add: t_def s4_def tx_same_def)
  moreover have "ilk (itab s3 ip) = None" using free ip(2) ne s1(7) s2(4) it3(1) by (simp add: itab_free_def)
  ultimately show ?thesis using that [of ip t] ne by (simp add: t_def s4_def)
qed

subsection \<open>The entries of the root directory\<close>

lemma entry_stored:
  assumes "stored d m xs" and "off + 16 \<le> length xs"
  shows "entry d (img m) off = take 16 (drop off xs)"
proof (rule nth_equalityI)
  show "length (entry d (img m) off) = length (take 16 (drop off xs))" using assms(2) by (simp add: entry_def file_bytes_def)
  fix j assume "j < length (entry d (img m) off)"
  then have j: "j < 16" by (simp add: entry_def file_bytes_def)
  then have "off + j < length xs" using assms(2) by simp
  then have "file_byte d (img m) (off + j) = xs ! (off + j)"
    using stored_byte [OF assms(1), of "off + j"] length_le_nblk [of "length xs"] by simp
  then show "entry d (img m) off ! j = take 16 (drop off xs) ! j" using j assms(2) by (simp add: entry_def file_bytes_def)
qed

definition file_name :: "(u8 list \<times> u8 list list) list \<Rightarrow> nat \<Rightarrow> u8 list" where
  "file_name fs i = the (shortname (fst (fs ! i)))"

lemma dir_bytes_nth: "j < length fs \<Longrightarrow> take 16 (drop (16 * j) (dir_bytes k fs)) = dirent (k + j) (file_name fs j)"
proof (induction fs arbitrary: j k)
  case (Cons f fs)
  show ?case
  proof (cases j)
    case 0
    then show ?thesis by (simp add: file_name_def)
  next
    case (Suc i)
    then show ?thesis using Cons.IH [of i "Suc k"] Cons.prems by (simp add: file_name_def)
  qed
qed simp

text \<open>Entry \<open>j\<close> of the root directory: its inode number and its name.\<close>

definition root_entry :: "(u8 list \<times> u8 list list) list \<Rightarrow> nat \<Rightarrow> nat \<times> u8 list" where
  "root_entry fs j = (if j = 0 then (ROOTINO, [46]) else if j = 1 then (ROOTINO, [46, 46]) else (j, file_name fs (j - 2)))"

lemma root_bytes_nth:
  assumes "j < length fs + 2"
  shows "take 16 (drop (16 * j) (snd (objs fs ROOTINO))) = dirent (fst (root_entry fs j)) (snd (root_entry fs j))"
proof -
  consider "j = 0" | "j = 1" | i where "j = i + 2" by (metis One_nat_def Suc_1 add.commute add_2_eq_Suc less_2_cases_iff not_less_eq le_Suc_ex not_less)
  then show ?thesis
  proof cases
    case (3 i)
    then show ?thesis using dir_bytes_nth [of i fs 2] assms by (simp add: objs_def root_entry_def)
  qed (simp_all add: objs_def root_entry_def)
qed

lemma de_inum_dirent: "n < 65536 \<Longrightarrow> de_inum (dirent n nm) = n"
  by (simp add: de_inum_def dirent_def get_le_2 unsigned_of_nat take_bit_eq_mod)

lemma cut_name_padded:
  "takeWhile (\<lambda>c. c \<noteq> 0) (take n (takeWhile (\<lambda>c. c \<noteq> 0) xs @ replicate k 0)) = takeWhile (\<lambda>c. c \<noteq> 0) (take n xs)" for xs :: "u8 list"
proof (induction xs arbitrary: n)
  case Nil
  then show ?case by (cases k; cases n) auto
next
  case (Cons x xs)
  then show ?case by (cases n; cases k) auto
qed

lemma cut_name_dirent: "cut_name (de_name (dirent n nm)) = cut_name nm"
  using cut_name_padded [of DIRSIZ nm DIRSIZ] by (simp add: cut_name_def de_name_def dirent_def del: take_append)

lemma cut_name_take: "cut_name (take DIRSIZ nm) = cut_name nm"
  by (simp add: cut_name_def)

lemma scan_first_dir:
  assumes "16 dvd z" and "16 * k + 16 \<le> z" and "P (16 * k)" and "\<And>j. j < k \<Longrightarrow> \<not> P (16 * j)"
  shows "scan_first P (dir_offs z) = Some (16 * k)"
proof -
  have "16 * k \<in> set (dir_offs z)" using dir_offs_within [OF assms(1)] assms(2) by simp
  then obtain off where off: "scan_first P (dir_offs z) = Some off" using assms(3) by (metis not_None_eq scan_first_None_iff)
  then have p: "P off" "16 dvd off" using dir_offs_within [OF assms(1)] by (auto dest: scan_first_SomeD)
  obtain j where j: "off = 16 * j" using p(2) by (elim dvdE)
  have "\<not> j < k" using assms(4) p(1) j by blast
  moreover have "\<not> k < j" using scan_first_least_offs [OF off, of "16 * k"] assms(3) j by auto
  ultimately show ?thesis using off j by simp
qed

text \<open>Where the entry of file \<open>i\<close> is found.\<close>

lemma root_lookup:
  assumes mk: "mkfs fs = Some m" "length fs + 2 \<le> NINODES" and i: "i < length fs" and nm: "nm = file_name fs i"
    and fresh: "cut_name nm \<noteq> [46]" "cut_name nm \<noteq> [46, 46]" "\<And>j. j < i \<Longrightarrow> cut_name (file_name fs j) \<noteq> cut_name nm"
  defines "d \<equiv> dinode_of mk_sb (img m) ROOTINO"
  shows "scan_first (entry_matches d (img m) (take DIRSIZ nm)) (dir_offs (dsize d)) = Some (16 * (i + 2))"
    and "de_inum (entry d (img m) (16 * (i + 2))) = i + 2"
proof -
  let ?xs = "snd (objs fs ROOTINO)"
  have r: "1 \<le> ROOTINO" "ROOTINO < length fs + 2" by (simp_all add: ROOTINO_def)
  note o = mkfs_objects [OF mk r]
  have st: "stored d m ?xs" using o(1) by (simp add: d_def)
  have z: "dsize d = (length ?xs div BSIZE + 1) * BSIZE" using o(4) by (simp add: d_def)
  have e: "entry d (img m) (16 * j) = dirent (fst (root_entry fs j)) (snd (root_entry fs j))" if "j < length fs + 2" for j
    using entry_stored [OF st, of "16 * j"] root_bytes_nth [OF that] that by (simp add: root_length)
  have em: "entry_matches d (img m) (take DIRSIZ nm) (16 * j) \<longleftrightarrow> fst (root_entry fs j) \<noteq> 0 \<and> cut_name nm = cut_name (snd (root_entry fs j))"
    if "j < length fs + 2" for j
    using that mk(2) de_inum_dirent [of "fst (root_entry fs j)" "snd (root_entry fs j)"]
    by (simp add: entry_matches_def e namecmp_eq cut_name_take cut_name_dirent root_entry_def ROOTINO_def NINODES_def)
  have "\<not> entry_matches d (img m) (take DIRSIZ nm) (16 * j)" if "j < i + 2" for j
  proof -
    have "j = 0 \<or> j = 1 \<or> j - 2 < i" using that by linarith
    then have "cut_name nm \<noteq> cut_name (snd (root_entry fs j))"
      using fresh(1,2) fresh(3) [of "j - 2"] by (auto simp: root_entry_def cut_name_def DIRSIZ_def)
    then show ?thesis using em [of j] that i by simp
  qed
  moreover have "entry_matches d (img m) (take DIRSIZ nm) (16 * (i + 2))" using em [of "i + 2"] i nm by (simp add: root_entry_def)
  moreover have "16 dvd dsize d" by (simp add: z BSIZE_def)
  moreover have "16 * (i + 2) + 16 \<le> dsize d" using off_in_block [of "length ?xs"] i unfolding z root_length by simp
  ultimately show "scan_first (entry_matches d (img m) (take DIRSIZ nm)) (dir_offs (dsize d)) = Some (16 * (i + 2))"
    by (intro scan_first_dir) auto
  show "de_inum (entry d (img m) (16 * (i + 2))) = i + 2"
    using e [of "i + 2"] i mk(2) de_inum_dirent [of "i + 2"] by (simp add: root_entry_def NINODES_def)
qed

subsection \<open>Opening and reading a file\<close>

lemma set_tl_subset: "set (tl xs) \<subseteq> set xs"
  by (cases xs) auto

lemma shortname_no_slash: "shortname p = Some nm \<Longrightarrow> slash \<notin> set nm"
  using set_tl_subset [of p] set_tl_subset [of "drop 5 p"] by (auto simp: shortname_def slash_def Let_def split: if_splits)

lemma begin_op_mounted:
  assumes "lstart t = 2" and "lsize t = int nlog" and "lhn t = 0" and "cst me {} {} (bs t)" and "img2 = disk (bs t)" and "img2 2 = (\<lambda>_. 0)"
    and "outstanding t = 0" and "\<not> committing t"
  shows "begin_op me t = Ok () (t\<lparr>outstanding := 1\<rparr>)" and "tx_ready {} 1 me (t\<lparr>outstanding := 1\<rparr>)"
proof -
  show "begin_op me t = Ok () (t\<lparr>outstanding := 1\<rparr>)" using assms(3,7,8) by (simp add: begin_op_cases LOGSIZE_def MAXOPBLOCKS_def)
  have "head_n (lstart t) (disk (bs t)) = 0" using assms(1,5,6) by (simp add: head_n_def sint32_def)
  then show "tx_ready {} 1 me (t\<lparr>outstanding := 1\<rparr>)"
    using assms(2-4) by (simp add: tx_ready_def log_ok_def logged_def bmapstart_meta LOGSIZE_def MAXOPBLOCKS_def)
qed

text \<open>C17. From the build machine to a running program: on a machine started with the disk that \<^verbatim>\<open>mkfs\<close> wrote, mounting, beginning
  an operation, looking up the name of the \<open>i\<close>-th file below the root, locking the inode found and reading as many bytes as the file
  has all succeed and give exactly the bytes that were copied. This holds for every file whose name, cut to 14 bytes, is not empty, not
  \<^verbatim>\<open>.\<close> or \<^verbatim>\<open>..\<close> and different from those of the files before it, when the entries do not fill the last block of the
  root directory.\<close>

theorem boot_reads_file:
  assumes "mkfs fs = Some m" and "length fs + 2 \<le> NINODES" and "\<not> BSIZE dvd 16 * (length fs + 2)" and "i < length fs"
    and "file_name fs i \<noteq> []" and "cut_name (file_name fs i) \<notin> {[46], [46, 46]}"
    and "\<forall>j < i. cut_name (file_name fs j) \<noteq> cut_name (file_name fs i)" and "itab_free tab"
  defines "bytes \<equiv> concat (snd (fs ! i))"
  shows "\<exists>t u ip v w x. fsinit me (boot (img m)) = Ok mk_sb t \<and> begin_op me t = Ok () u \<and>
    namei me mk_sb c (slash # file_name fs i) \<lparr>lg = u, itab = tab\<rparr> = Ok (Some ip) v \<and>
    ilock me mk_sb ip v = Ok () w \<and> dtype (idata (itab w ip)) = T_FILE \<and>
    readi collect me mk_sb ip 0 (length bytes) [] w = Ok (int (length bytes), bytes) x"
proof -
  let ?r = "dinode_of mk_sb (img m) ROOTINO" and ?n = "i + 2" and ?nm = "file_name fs i"
  let ?d = "dinode_of mk_sb (img m) ?n"
  obtain t where t: "fsinit me (boot (img m)) = Ok mk_sb t" "lstart t = 2" "lsize t = int nlog" "lhn t = 0" "cst me {} {} (bs t)"
      "disk (bs t) = img m" "view (bs t) = img m" "outstanding t = 0" "\<not> committing t"
    by (rule mount_state [OF assms(1,2)])
  have log: "img m 2 = (\<lambda>_. 0)" using mkfs_meta(2) [OF assms(1,2), of 2] by (simp add: bmapstart_meta)
  define s where "s = \<lparr>lg = t\<lparr>outstanding := 1\<rparr>, itab = tab\<rparr>"
  note bo = begin_op_mounted [OF t(2-5) t(6) [symmetric] log t(8,9)]
  have s: "tx_ready {} 1 me (lg s)" "view (bs (lg s)) = img m" "itab_free (itab s)" using bo(2) t(7) assms(8) by (simp_all add: s_def)
  have R: "1 \<le> ROOTINO" "ROOTINO < length fs + 2" and N: "1 \<le> ?n" "?n < length fs + 2" using assms(4) by (simp_all add: ROOTINO_def)
  note o = mkfs_objects [OF assms(1,2) R] and f = mkfs_objects [OF assms(1,2) N]
  have zb: "16 * (length fs + 2) \<le> 12 * BSIZE - 1" "16 * (length fs + 2) < 65536" using assms(2) by (simp_all add: NINODES_def BSIZE_def)
  have rd: "dtype ?r = T_DIR" "dnlink ?r \<noteq> 0" "mapped ?r (img m) (dsize ?r)" "16 dvd dsize ?r" "dsize ?r < 2 ^ 32"
    using o(2-4) stored_end [OF o(1)] zb assms(3) get_dinode_ok
    by (auto simp: root_length objs_def dinode_of_def dinode_ok_def BSIZE_def)
  have "shortname (fst (fs ! i)) \<noteq> None" using mkfs_steps [OF assms(1,2)] assms(4) by (metis nth_mem)
  then have sl: "slash \<notin> set ?nm" using shortname_no_slash by (auto simp: file_name_def)
  note lk = root_lookup [OF assms(1,2,4) refl]
  obtain ip v where v: "namei me mk_sb c (slash # ?nm) s = Ok (Some ip) v" "tx_ready {} 1 me (lg v)" "view (bs (lg v)) = img m"
      "inum (itab v ip) = ?n" "iref (itab v ip) = 1" "ilk (itab v ip) = None" "\<not> ivalid (itab v ip)"
    using namei_root_entry [OF s(1,3) assms(5) sl, of mk_sb "16 * ?n" ?n c] rd lk assms(6,7) unfolding s(2) by (auto simp: ROOTINO_def)
  have ob: "snd (objs fs ?n) = bytes" "fst (objs fs ?n) = T_FILE" by (simp_all add: objs_def ROOTINO_def bytes_def)
  have fd: "dtype ?d = T_FILE" "dsize ?d = length bytes" "mapped ?d (img m) (length bytes)" "file_bytes ?d (img m) 0 (length bytes) = bytes"
    using f(2,4) stored_mapped [OF f(1)] stored_bytes [OF f(1)] unfolding ob by (simp_all add: ROOTINO_def)
  obtain w where w: "ilock me mk_sb ip v = Ok () w" "log_ok me {} (lg w)" "tx_same {} (lg v) (lg w)"
      "itab w = (itab v)(ip := (itab v ip)\<lparr>ilk := Some me, idata := ?d, ivalid := True\<rparr>)"
    using ilock_loads [OF v(2), of ip mk_sb] v fd(1) by (auto simp: T_FILE_def)
  have wi: "tx_ready {} 1 me (lg w)" "idata (itab w ip) = ?d" "view (bs (lg w)) = img m"
    using tx_ready_same [OF v(2) w(2,3)] w(3,4) v(3) by (simp_all add: tx_same_def)
  have "length bytes < 2 ^ 32" using stored_length [OF f(1)] unfolding ob by (simp add: MAXFILE_def NDIRECT_def NINDIRECT_def BSIZE_def)
  then obtain x where "readi collect me mk_sb ip 0 (length bytes) [] w = Ok (int (length bytes), bytes) x"
    using readi_mapped [OF wi(1), of ip 0 "length bytes" mk_sb] wi(2,3) fd by auto
  then show ?thesis using t(1) bo(1) v(1) w(1) wi(2) fd(1) unfolding s_def by auto
qed

definition demo_tab :: "nat \<Rightarrow> inode" where
  "demo_tab = (\<lambda>_. \<lparr>idev = 0, inum = 0, iref = 0, ilk = None, ivalid = False, idata = zero_dinode\<rparr>)"

theorem boot_reads_file_witness:
  "\<exists>t u ip v w x. fsinit 0 (boot (img (the (mkfs demo_files)))) = Ok mk_sb t \<and> begin_op 0 t = Ok () u \<and>
    namei 0 mk_sb 0 [47, 99, 97, 116] \<lparr>lg = u, itab = demo_tab\<rparr> = Ok (Some ip) v \<and>
    ilock 0 mk_sb ip v = Ok () w \<and> readi collect 0 mk_sb ip 0 3 [] w = Ok (3, [1, 2, 3]) x"
proof -
  have l: "length demo_files = 2" "concat (snd (demo_files ! 0)) = [1, 2, 3]" by (simp_all add: demo_files_def)
  have n: "file_name demo_files 0 = [99, 97, 116]" using demo_shortnames by (simp add: file_name_def demo_files_def)
  have "\<not> BSIZE dvd 16 * (length demo_files + 2)" "itab_free demo_tab" by (simp_all add: l BSIZE_def itab_free_def demo_tab_def)
  then show ?thesis
    using boot_reads_file [OF demo_mkfs, of 0 demo_tab 0 0] n l by (auto simp: cut_name_def DIRSIZ_def slash_def numeral_3_eq_3)
qed

end
