(* ===== verification/Tools.thy ===== *)
theory Tools
  imports Ulib Fs_Dir
begin

section \<open>The small programs of user/: cat, wc, echo, ls, rm, mkdir, ln, kill\<close>

text \<open>
  A program gives the sequence of the writes it asks for, each with its descriptor; the characters of one
  \<^verbatim>\<open>printf\<close>, which the library writes one by one, are one entry. Its end is \<^verbatim>\<open>exit\<close> with a status. What the
  system calls answer comes from an environment: opening a file gives the pieces that \<^verbatim>\<open>read\<close> then delivers and whether
  it ends with 0 or with an error, a write gives its result, which may depend on all writes before it. A program that
  changes files or processes takes the system call as an argument. C strings are lists of bytes without the
  final zero; \<open>args\<close> is \<^verbatim>\<open>argv\<close> without the name of the program.
\<close>

datatype ev = W nat "u8 list"

datatype run = Go "ev list" | Exit int "ev list"

type_synonym input = "u8 list list \<times> bool"

record uenv =
  u_open :: "u8 list \<Rightarrow> input option"
  u_stdin :: input
  u_write :: "ev list \<Rightarrow> u8 list \<Rightarrow> int"
  u_stat :: "u8 list \<Rightarrow> (nat \<times> nat \<times> nat) option"

abbreviation ascii :: "string \<Rightarrow> u8 list" where
  "ascii s \<equiv> map of_char s"

abbreviation nl :: "u8 list" where
  "nl \<equiv> [10]"

text \<open>The loop over the arguments that \<^verbatim>\<open>cat\<close> and \<^verbatim>\<open>wc\<close> share.\<close>

primrec for_files :: "(u8 list \<Rightarrow> input \<Rightarrow> ev list \<Rightarrow> run) \<Rightarrow> (u8 list \<Rightarrow> ev) \<Rightarrow> uenv \<Rightarrow> u8 list list \<Rightarrow> ev list \<Rightarrow> run" where
  "for_files body cannot e [] tr = Exit 0 tr"
| "for_files body cannot e (a # as) tr =
     (case u_open e a of
        None \<Rightarrow> Exit 1 (tr @ [cannot a])
      | Some inp \<Rightarrow> (case body a inp tr of Go tr \<Rightarrow> for_files body cannot e as tr | Exit c tr \<Rightarrow> Exit c tr))"

definition end_of :: "run \<Rightarrow> run" where
  "end_of r = (case r of Go tr \<Rightarrow> Exit 0 tr | Exit c tr \<Rightarrow> Exit c tr)"

subsection \<open>user/cat.c\<close>

primrec cat_loop :: "uenv \<Rightarrow> u8 list list \<Rightarrow> bool \<Rightarrow> ev list \<Rightarrow> run" where
  "cat_loop e [] fine tr = (if fine then Go tr else Exit 1 (tr @ [W 2 (ascii ''cat: read error'' @ nl)]))"
| "cat_loop e (p # ps) fine tr =
     (if u_write e tr p \<noteq> int (length p) then Exit 1 (tr @ [W 1 p, W 2 (ascii ''cat: write error'' @ nl)])
      else cat_loop e ps fine (tr @ [W 1 p]))"

definition cat :: "uenv \<Rightarrow> input \<Rightarrow> ev list \<Rightarrow> run" where
  "cat e inp tr = cat_loop e (fst inp) (snd inp) tr"

definition cat_main :: "uenv \<Rightarrow> u8 list list \<Rightarrow> run" where
  "cat_main e args =
     (if args = [] then end_of (cat e (u_stdin e) [])
      else for_files (\<lambda>_. cat e) (\<lambda>a. W 2 (ascii ''cat: cannot open '' @ a @ nl)) e args [])"

subsection \<open>user/wc.c\<close>

text \<open>The blanks of the string in \<^verbatim>\<open>strchr\<close>; its final zero is not found by the library's \<^verbatim>\<open>strchr\<close>.\<close>

definition blank :: "u8 \<Rightarrow> bool" where
  "blank c \<longleftrightarrow> c \<in> {32, 13, 9, 10, 11}"

definition wc_byte :: "u8 \<Rightarrow> u32 \<times> u32 \<times> u32 \<times> bool \<Rightarrow> u32 \<times> u32 \<times> u32 \<times> bool" where
  "wc_byte ch st =
     (case st of
        (l, w, c, inword) \<Rightarrow>
          (let c = c + 1; l = (if ch = 10 then l + 1 else l)
           in if blank ch then (l, w, c, False) else if \<not> inword then (l, w + 1, c, True) else (l, w, c, inword)))"

definition wc_counts :: "u8 list list \<Rightarrow> u32 \<times> u32 \<times> u32 \<times> bool" where
  "wc_counts ps = fold (\<lambda>p st. fold wc_byte p st) ps (0, 0, 0, False)"

definition wc_line :: "u8 list \<Rightarrow> u32 \<times> u32 \<times> u32 \<times> bool \<Rightarrow> u8 list" where
  "wc_line name st =
     (case st of (l, w, c, _) \<Rightarrow> the (printf (\<lambda>_. name) (ascii ''%d %d %d %s'' @ nl) [ucast l, ucast w, ucast c, 1]))"

definition wc :: "u8 list \<Rightarrow> input \<Rightarrow> ev list \<Rightarrow> run" where
  "wc name inp tr =
     (if snd inp then Go (tr @ [W 1 (wc_line name (wc_counts (fst inp)))])
      else Exit 1 (tr @ [W 1 (ascii ''wc: read error'' @ nl)]))"

definition wc_main :: "uenv \<Rightarrow> u8 list list \<Rightarrow> run" where
  "wc_main e args =
     (if args = [] then end_of (wc [] (u_stdin e) [])
      else for_files wc (\<lambda>a. W 1 (ascii ''wc: cannot open '' @ a @ nl)) e args [])"

subsection \<open>user/echo.c\<close>

fun echo_loop :: "u8 list list \<Rightarrow> ev list" where
  "echo_loop [] = []"
| "echo_loop (a # as) = W 1 a # W 1 (if as \<noteq> [] then [32] else nl) # echo_loop as"

definition echo_main :: "u8 list list \<Rightarrow> run" where
  "echo_main args = Exit 0 (echo_loop args)"

subsection \<open>user/ls.c\<close>

text \<open>The loop that looks for the last slash: \<open>k\<close> is one more than the index of the pointer, so that 0 is the place before
  the string, and the result is the index after \<^verbatim>\<open>p++\<close>.\<close>

primrec slash_scan :: "u8 list \<Rightarrow> nat \<Rightarrow> nat" where
  "slash_scan path 0 = 0"
| "slash_scan path (Suc k) = (if path ! k = 47 then Suc k else slash_scan path k)"

definition fmtname :: "u8 list \<Rightarrow> u8 list" where
  "fmtname path =
     (let p = drop (slash_scan path (length path)) path
      in if length p \<ge> DIRSIZ then p else p @ replicate (DIRSIZ - length p) 32)"

definition ls_line :: "string \<Rightarrow> u8 list \<Rightarrow> nat \<times> nat \<times> nat \<Rightarrow> ev" where
  "ls_line fmt path st =
     (case st of (ty, ino, len) \<Rightarrow> W 1 (the (printf (\<lambda>_. fmtname path) (ascii fmt @ nl) [1, of_nat ty, of_nat ino, of_nat len])))"

text \<open>The directory is read entry by entry; a read of fewer than 16 bytes ends the loop.\<close>

function ls_dir :: "uenv \<Rightarrow> u8 list \<Rightarrow> u8 list \<Rightarrow> ev list" where
  "ls_dir e path bytes =
     (if length bytes < 16 then []
      else let de = take 16 bytes; p = path @ [47] @ takeWhile (\<lambda>c. c \<noteq> 0) (de_name de)
           in (if de_inum de = 0 then []
               else case u_stat e p of
                      None \<Rightarrow> [W 1 (ascii ''ls: cannot stat '' @ p @ nl)]
                    | Some st \<Rightarrow> [ls_line ''%s %d %d %d'' p st]) @ ls_dir e path (drop 16 bytes))"
  by pat_completeness auto
termination
  by (relation "measure (\<lambda>(e, path, bytes). length bytes)") auto

declare ls_dir.simps [simp del]

definition ls :: "uenv \<Rightarrow> u8 list \<Rightarrow> ev list" where
  "ls e path =
     (case u_open e path of
        None \<Rightarrow> [W 2 (ascii ''ls: cannot open '' @ path @ nl)]
      | Some inp \<Rightarrow>
          (case u_stat e path of
             None \<Rightarrow> [W 2 (ascii ''ls: cannot stat '' @ path @ nl)]
           | Some (ty, ino, len) \<Rightarrow>
               if ty = unat T_DEVICE \<or> ty = unat T_FILE then [ls_line ''%s %d %d %l'' path (ty, ino, len)]
               else if ty = unat T_DIR
               then if length path + 1 + DIRSIZ + 1 > 512 then [W 1 (ascii ''ls: path too long'' @ nl)]
                    else ls_dir e path (concat (fst inp))
               else []))"

definition ls_main :: "uenv \<Rightarrow> u8 list list \<Rightarrow> run" where
  "ls_main e args = Exit 0 (if args = [] then ls e [46] else concat (map (ls e) args))"

subsection \<open>user/rm.c, user/mkdir.c, user/ln.c, user/kill.c\<close>

text \<open>The system call takes the state of the machine; a negative result is an error.\<close>

primrec until_fail :: "(u8 list \<Rightarrow> 'k \<Rightarrow> int \<times> 'k) \<Rightarrow> (u8 list \<Rightarrow> ev) \<Rightarrow> u8 list list \<Rightarrow> 'k \<Rightarrow> ev list \<times> 'k" where
  "until_fail call failed [] s = ([], s)"
| "until_fail call failed (a # as) s =
     (case call a s of (r, s) \<Rightarrow> if r < 0 then ([failed a], s) else until_fail call failed as s)"

definition rm_main :: "(u8 list \<Rightarrow> 'k \<Rightarrow> int \<times> 'k) \<Rightarrow> u8 list list \<Rightarrow> 'k \<Rightarrow> run \<times> 'k" where
  "rm_main unlinkc args s =
     (if args = [] then (Exit 1 [W 2 (ascii ''Usage: rm files...'' @ nl)], s)
      else case until_fail unlinkc (\<lambda>a. W 2 (ascii ''rm: '' @ a @ ascii '' failed to delete'' @ nl)) args s of
             (tr, s) \<Rightarrow> (Exit 0 tr, s))"

definition mkdir_main :: "(u8 list \<Rightarrow> 'k \<Rightarrow> int \<times> 'k) \<Rightarrow> u8 list list \<Rightarrow> 'k \<Rightarrow> run \<times> 'k" where
  "mkdir_main mkdirc args s =
     (if args = [] then (Exit 1 [W 2 (ascii ''Usage: mkdir files...'' @ nl)], s)
      else case until_fail mkdirc (\<lambda>a. W 2 (ascii ''mkdir: '' @ a @ ascii '' failed to create'' @ nl)) args s of
             (tr, s) \<Rightarrow> (Exit 0 tr, s))"

definition ln_main :: "(u8 list \<Rightarrow> u8 list \<Rightarrow> 'k \<Rightarrow> int \<times> 'k) \<Rightarrow> u8 list list \<Rightarrow> 'k \<Rightarrow> run \<times> 'k" where
  "ln_main linkc args s =
     (case args of
        [old, new] \<Rightarrow>
          (case linkc old new s of
             (r, s) \<Rightarrow> (Exit 0 (if r < 0 then [W 2 (ascii ''link '' @ old @ [32] @ new @ ascii '': failed'' @ nl)] else []), s))
      | _ \<Rightarrow> (Exit 1 [W 2 (ascii ''Usage: ln old new'' @ nl)], s))"

definition kill_main :: "(int \<Rightarrow> 'k \<Rightarrow> int \<times> 'k) \<Rightarrow> u8 list list \<Rightarrow> 'k \<Rightarrow> run \<times> 'k" where
  "kill_main killc args s =
     (if args = [] then (Exit 1 [W 2 (ascii ''usage: kill pid...'' @ nl)], s)
      else (Exit 0 [], fold (\<lambda>a s. snd (killc (atoi a) s)) args s))"

subsection \<open>What the programs do\<close>

text \<open>What goes to one descriptor.\<close>

definition sent_to :: "nat \<Rightarrow> ev list \<Rightarrow> u8 list" where
  "sent_to fd tr = concat (map (\<lambda>v. case v of W n us \<Rightarrow> if n = fd then us else []) tr)"

lemma sent_to_append [simp]: "sent_to fd (tr @ tr') = sent_to fd tr @ sent_to fd tr'"
  by (simp add: sent_to_def)

lemma sent_to_W [simp]: "sent_to fd [] = []" "sent_to fd (W n us # tr) = (if n = fd then us else []) @ sent_to fd tr"
  by (simp_all add: sent_to_def)

text \<open>\<^verbatim>\<open>cat\<close> copies its files in order, however \<^verbatim>\<open>read\<close> cuts them, as long as nothing fails.\<close>

lemma cat_loop_copies:
  assumes "\<forall>tr p. u_write e tr p = int (length p)"
  shows "\<exists>tr'. cat_loop e ps True tr = Go tr' \<and> sent_to 1 tr' = sent_to 1 tr @ concat ps"
proof (induction ps arbitrary: tr)
  case (Cons p ps)
  then show ?case using assms Cons.IH [of "tr @ [W 1 p]"] by simp
qed simp

lemma cat_files_copies:
  assumes w: "\<forall>tr p. u_write e tr p = int (length p)" and o: "\<forall>a \<in> set args. \<exists>ps. u_open e a = Some (ps, True)"
  shows "\<exists>tr'. for_files (\<lambda>_. cat e) cannot e args tr = Exit 0 tr' \<and>
    sent_to 1 tr' = sent_to 1 tr @ concat (map (\<lambda>a. concat (fst (the (u_open e a)))) args)"
  using o
proof (induction args arbitrary: tr)
  case (Cons a as)
  then obtain ps where a: "u_open e a = Some (ps, True)" by auto
  obtain tr1 where t: "cat_loop e ps True tr = Go tr1" "sent_to 1 tr1 = sent_to 1 tr @ concat ps"
    using cat_loop_copies [OF w] by blast
  then show ?case using Cons.IH [of tr1] Cons.prems a by (simp add: cat_def)
qed simp

text \<open>The counts of \<^verbatim>\<open>wc\<close>: the newlines, the places where a word begins, and the bytes.\<close>

definition word_starts :: "u8 list \<Rightarrow> nat set" where
  "word_starts xs = {i. i < length xs \<and> \<not> blank (xs ! i) \<and> (i = 0 \<or> blank (xs ! (i - 1)))}"

lemma word_starts_snoc:
  "word_starts (xs @ [c]) = word_starts xs \<union> (if \<not> blank c \<and> (xs = [] \<or> blank (last xs)) then {length xs} else {})"
proof -
  have "i - 1 < length xs" if "i \<noteq> 0" "i \<le> length xs" for i using that by linarith
  moreover have "xs \<noteq> [] \<Longrightarrow> last xs = xs ! (length xs - 1)" by (simp add: last_conv_nth)
  ultimately show ?thesis
    by (cases "xs = []") (auto simp: word_starts_def nth_append less_Suc_eq split: if_splits)
qed

lemma wc_fold:
  "fold wc_byte xs (0, 0, 0, False) =
    (of_nat (length (filter (\<lambda>c. c = 10) xs)), of_nat (card (word_starts xs)), of_nat (length xs), xs \<noteq> [] \<and> \<not> blank (last xs))"
proof (induction xs rule: rev_induct)
  case (snoc c xs)
  have "finite (word_starts xs)" "length xs \<notin> word_starts xs" by (auto simp: word_starts_def)
  then show ?case using snoc
    by (cases "blank c"; cases "xs = [] \<or> blank (last xs)"; cases "c = 10")
      (auto simp: wc_byte_def word_starts_snoc Let_def add.commute)
qed (simp add: word_starts_def)

lemma fold_fold: "fold (\<lambda>p st. fold f p st) ps st = fold f (concat ps) st"
  by (induction ps arbitrary: st) simp_all

lemma wc_counts_input:
  "wc_counts ps =
    (let xs = concat ps
     in (of_nat (length (filter (\<lambda>c. c = 10) xs)), of_nat (card (word_starts xs)), of_nat (length xs), xs \<noteq> [] \<and> \<not> blank (last xs)))"
  by (simp add: wc_counts_def fold_fold wc_fold Let_def)

text \<open>\<^verbatim>\<open>echo\<close> writes its arguments with blanks between them, and no newline when there is no argument.\<close>

lemma echo_output: "args \<noteq> [] \<Longrightarrow> sent_to 1 (echo_loop args) = concat (map (\<lambda>a. a @ [32]) (butlast args)) @ last args @ [10]"
  by (induction args rule: echo_loop.induct) auto

text \<open>The name that \<^verbatim>\<open>ls\<close> prints: what follows the last slash, filled up to \<open>DIRSIZ\<close>.\<close>

lemma slash_scan_last: "k \<le> length path \<Longrightarrow> drop (slash_scan path k) (take k path) = rev (takeWhile (\<lambda>c. c \<noteq> 47) (rev (take k path)))"
proof (induction k)
  case (Suc k)
  have "slash_scan path k \<le> k" by (induction k) auto
  then show ?case using Suc by (auto simp: take_Suc_conv_app_nth)
qed simp

lemma fmtname_eq:
  defines "name path \<equiv> rev (takeWhile (\<lambda>c. c \<noteq> 47) (rev path))"
  shows "fmtname path = name path @ replicate (DIRSIZ - length (name path)) 32"
  using slash_scan_last [of "length path" path] by (simp add: fmtname_def name_def Let_def)

text \<open>The buffer of 512 bytes in which \<^verbatim>\<open>ls\<close> builds the path of an entry is never exceeded.\<close>

lemma ls_path_fits:
  assumes "length path + 1 + DIRSIZ + 1 \<le> 512"
  shows "length (path @ [47] @ takeWhile (\<lambda>c. c \<noteq> 0) (de_name de)) + 1 \<le> 512"
  using assms length_takeWhile_le [of "\<lambda>c. c \<noteq> 0" "de_name de"] by (simp add: de_name_def)

text \<open>The tools that change files stop at the first failure; the calls before it have been made.\<close>

lemma until_fail_calls:
  "until_fail call failed as s = (tr, t) \<Longrightarrow>
    (\<exists>us cs. as = us @ cs \<and> t = fold (\<lambda>a s. snd (call a s)) us s \<and> (tr = [] \<and> cs = [] \<or> us \<noteq> [] \<and> tr = [failed (last us)]))"
proof (induction as arbitrary: s)
  case (Cons a as)
  obtain r s1 where c: "call a s = (r, s1)" by (cases "call a s")
  show ?case
  proof (cases "r < 0")
    case True
    then show ?thesis using Cons.prems c by (intro exI [of _ "[a]"] exI [of _ as]) auto
  next
    case False
    then obtain us cs where "as = us @ cs" "t = fold (\<lambda>a s. snd (call a s)) us s1" "tr = [] \<and> cs = [] \<or> us \<noteq> [] \<and> tr = [failed (last us)]"
      using Cons.IH [of s1] Cons.prems c by auto
    then show ?thesis using c by (intro exI [of _ "a # us"] exI [of _ cs]) auto
  qed
qed simp

end
