(* ===== verification/Shell_Command.thy ===== *)
theory Shell_Command
  imports Prelude "HOL-Library.Monad_Syntax"
begin

section \<open>Simple commands and pipelines of the shell (lab 1, command.c, strextra.c)\<close>

text \<open>
  The two abstract data types of the shell. Both keep their elements in a \<^verbatim>\<open>GQueue\<close> of GLib,
  which is not part of the repository: the queue's operations are the record \<open>gqueue\<close>, an
  argument of every definition, and \<open>gqueue_ok G \<alpha>\<close> states their documented behaviour over an
  abstraction \<open>\<alpha>\<close> of queues to lists. \<open>list_gqueue\<close> is an instance on which the laws hold.

  A C pointer that may be \<^verbatim>\<open>NULL\<close> is an option. A routine that checks an \<^verbatim>\<open>assert\<close> returns an
  option whose \<open>None\<close> is the abort; the check \<^verbatim>\<open>self != NULL\<close> is the type. Releasing memory
  (\<^verbatim>\<open>free\<close>) leaves no trace in the model, so a destructor is the value \<open>NULL\<close>.
\<close>

record ('q, 'a) gqueue =
  g_queue_new :: 'q
  g_queue_push_tail :: "'q \<Rightarrow> 'a \<Rightarrow> 'q"
  g_queue_pop_head :: "'q \<Rightarrow> 'a option \<times> 'q"
  g_queue_peek_head :: "'q \<Rightarrow> 'a option"
  g_queue_peek_nth :: "'q \<Rightarrow> nat \<Rightarrow> 'a option"
  g_queue_get_length :: "'q \<Rightarrow> nat"
  g_queue_is_empty :: "'q \<Rightarrow> bool"

definition gqueue_ok :: "('q, 'a) gqueue \<Rightarrow> ('q \<Rightarrow> 'a list) \<Rightarrow> bool" where
  "gqueue_ok G \<alpha> \<longleftrightarrow>
     \<alpha> (g_queue_new G) = [] \<and>
     (\<forall>q x. \<alpha> (g_queue_push_tail G q x) = \<alpha> q @ [x]) \<and>
     (\<forall>q. fst (g_queue_pop_head G q) = (case \<alpha> q of [] \<Rightarrow> None | x # xs \<Rightarrow> Some x)) \<and>
     (\<forall>q. \<alpha> (snd (g_queue_pop_head G q)) = tl (\<alpha> q)) \<and>
     (\<forall>q. g_queue_peek_head G q = (case \<alpha> q of [] \<Rightarrow> None | x # xs \<Rightarrow> Some x)) \<and>
     (\<forall>q n. g_queue_peek_nth G q n = (if n < length (\<alpha> q) then Some (\<alpha> q ! n) else None)) \<and>
     (\<forall>q. g_queue_get_length G q = length (\<alpha> q)) \<and>
     (\<forall>q. g_queue_is_empty G q \<longleftrightarrow> \<alpha> q = [])"

definition list_gqueue :: "('a list, 'a) gqueue" where
  "list_gqueue = \<lparr>g_queue_new = [], g_queue_push_tail = (\<lambda>q x. q @ [x]),
     g_queue_pop_head = (\<lambda>q. (case q of [] \<Rightarrow> None | x # xs \<Rightarrow> Some x, tl q)),
     g_queue_peek_head = (\<lambda>q. case q of [] \<Rightarrow> None | x # xs \<Rightarrow> Some x),
     g_queue_peek_nth = (\<lambda>q n. if n < length q then Some (q ! n) else None),
     g_queue_get_length = length, g_queue_is_empty = (\<lambda>q. q = [])\<rparr>"

definition check :: "bool \<Rightarrow> unit option" where
  "check b = (if b then Some () else None)"

definition strmerge :: "string \<Rightarrow> string \<Rightarrow> string option" where
  "strmerge s1 s2 =
     (let merge = take (length s1) s1 @ take (length s2) s2
      in do { check (length merge = length s1 + length s2); Some merge })"

subsection \<open>Simple commands\<close>

record 'q scommand =
  command :: 'q
  out :: "string option"
  inp :: "string option"

definition scommand_is_empty :: "('q, string) gqueue \<Rightarrow> 'q scommand \<Rightarrow> bool" where
  "scommand_is_empty G self \<longleftrightarrow> g_queue_get_length G (command self) = 0"

definition scommand_get_redir_in :: "'q scommand \<Rightarrow> string option" where
  "scommand_get_redir_in self = inp self"

definition scommand_get_redir_out :: "'q scommand \<Rightarrow> string option" where
  "scommand_get_redir_out self = out self"

definition scommand_new :: "('q, string) gqueue \<Rightarrow> 'q scommand option" where
  "scommand_new G =
     (let new = \<lparr>command = g_queue_new G, out = None, inp = None\<rparr>
      in do { check (scommand_is_empty G new \<and> scommand_get_redir_in new = None \<and>
                     scommand_get_redir_out new = None);
              Some new })"

definition scommand_destroy :: "'q scommand \<Rightarrow> 'q scommand option" where
  "scommand_destroy self = None"

definition scommand_push_back :: "('q, string) gqueue \<Rightarrow> 'q scommand \<Rightarrow> string \<Rightarrow> 'q scommand option" where
  "scommand_push_back G self argument =
     (let self' = self\<lparr>command := g_queue_push_tail G (command self) argument\<rparr>
      in do { check (\<not> scommand_is_empty G self'); Some self' })"

definition scommand_pop_front :: "('q, string) gqueue \<Rightarrow> 'q scommand \<Rightarrow> 'q scommand option" where
  "scommand_pop_front G self =
     do { check (\<not> scommand_is_empty G self);
          Some (self\<lparr>command := snd (g_queue_pop_head G (command self))\<rparr>) }"

definition scommand_set_redir_in :: "'q scommand \<Rightarrow> string option \<Rightarrow> 'q scommand" where
  "scommand_set_redir_in self filename = self\<lparr>inp := filename\<rparr>"

definition scommand_set_redir_out :: "'q scommand \<Rightarrow> string option \<Rightarrow> 'q scommand" where
  "scommand_set_redir_out self filename = self\<lparr>out := filename\<rparr>"

definition scommand_length :: "('q, string) gqueue \<Rightarrow> 'q scommand \<Rightarrow> nat option" where
  "scommand_length G self =
     (let r = g_queue_get_length G (command self)
      in do { check ((r = 0) = scommand_is_empty G self); Some r })"

definition scommand_front :: "('q, string) gqueue \<Rightarrow> 'q scommand \<Rightarrow> string option" where
  "scommand_front G self =
     do { check (\<not> scommand_is_empty G self);
          cmd \<leftarrow> g_queue_peek_head G (command self);
          Some cmd }"

text \<open>The loop \<^verbatim>\<open>for (n = 1; n < scommand_length(self); n++)\<close>, over the list of its indices.\<close>

fun scommand_merge_args :: "('q, string) gqueue \<Rightarrow> 'q scommand \<Rightarrow> nat list \<Rightarrow> string \<Rightarrow> string option" where
  "scommand_merge_args G self [] result = Some result"
| "scommand_merge_args G self (n # ns) result =
     do { temp \<leftarrow> strmerge result '' '';
          a \<leftarrow> g_queue_peek_nth G (command self) n;
          temp \<leftarrow> strmerge temp a;
          scommand_merge_args G self ns temp }"

definition merge_redir :: "string \<Rightarrow> string option \<Rightarrow> string \<Rightarrow> string option" where
  "merge_redir arrow f result =
     (case f of None \<Rightarrow> Some result
      | Some name \<Rightarrow> do { temp \<leftarrow> strmerge result arrow; strmerge temp name })"

definition scommand_to_string :: "('q, string) gqueue \<Rightarrow> 'q scommand \<Rightarrow> string option" where
  "scommand_to_string G self =
     do { len \<leftarrow> scommand_length G self;
          result \<leftarrow> (if 0 < len then scommand_front G self else Some '''');
          result \<leftarrow> scommand_merge_args G self [1..<len] result;
          result \<leftarrow> merge_redir '' > '' (out self) result;
          result \<leftarrow> merge_redir '' < '' (inp self) result;
          check (scommand_is_empty G self \<or> scommand_get_redir_in self = None \<or>
                 scommand_get_redir_out self = None \<or> 0 < length result);
          Some result }"

subsection \<open>Pipelines\<close>

record 'p pipeline =
  scommands :: 'p
  wait :: bool

type_synonym ('q, 'p) cqueue = "('p, 'q scommand) gqueue"

definition pipeline_is_empty :: "('q, 'p) cqueue \<Rightarrow> 'p pipeline \<Rightarrow> bool" where
  "pipeline_is_empty H self \<longleftrightarrow> g_queue_is_empty H (scommands self)"

definition pipeline_get_wait :: "'p pipeline \<Rightarrow> bool" where
  "pipeline_get_wait self = wait self"

definition pipeline_new :: "('q, 'p) cqueue \<Rightarrow> 'p pipeline option" where
  "pipeline_new H =
     (let new = \<lparr>scommands = g_queue_new H, wait = True\<rparr>
      in do { check (pipeline_is_empty H new \<and> pipeline_get_wait new); Some new })"

definition pipeline_push_back :: "('q, 'p) cqueue \<Rightarrow> 'p pipeline \<Rightarrow> 'q scommand \<Rightarrow> 'p pipeline option" where
  "pipeline_push_back H self sc =
     (let self' = self\<lparr>scommands := g_queue_push_tail H (scommands self) sc\<rparr>
      in do { check (\<not> pipeline_is_empty H self'); Some self' })"

definition pipeline_pop_front :: "('q, 'p) cqueue \<Rightarrow> 'p pipeline \<Rightarrow> 'p pipeline option" where
  "pipeline_pop_front H self =
     do { check (\<not> pipeline_is_empty H self);
          Some (self\<lparr>scommands := snd (g_queue_pop_head H (scommands self))\<rparr>) }"

text \<open>\<^verbatim>\<open>pipeline_destroy\<close> pops until the queue is empty; the number of rounds is a fuel of
  \<open>pipeline_length\<close> (\<open>pipeline_drain_done\<close> below shows that it is enough).\<close>

fun pipeline_drain :: "('q, 'p) cqueue \<Rightarrow> nat \<Rightarrow> 'p pipeline \<Rightarrow> 'p pipeline option" where
  "pipeline_drain H fuel self =
     (if g_queue_is_empty H (scommands self) then Some self
      else case fuel of 0 \<Rightarrow> None
           | Suc f \<Rightarrow> do { self' \<leftarrow> pipeline_pop_front H self; pipeline_drain H f self' })"

declare pipeline_drain.simps [simp del]

definition pipeline_set_wait :: "'p pipeline \<Rightarrow> bool \<Rightarrow> 'p pipeline" where
  "pipeline_set_wait self w = self\<lparr>wait := w\<rparr>"

definition pipeline_length :: "('q, 'p) cqueue \<Rightarrow> 'p pipeline \<Rightarrow> nat option" where
  "pipeline_length H self =
     (let len = g_queue_get_length H (scommands self)
      in do { check ((len = 0) = pipeline_is_empty H self); Some len })"

definition pipeline_front :: "('q, 'p) cqueue \<Rightarrow> 'p pipeline \<Rightarrow> 'q scommand option" where
  "pipeline_front H self =
     do { check (\<not> pipeline_is_empty H self);
          c \<leftarrow> g_queue_peek_head H (scommands self);
          Some c }"

fun pipeline_merge :: "('q, string) gqueue \<Rightarrow> ('q, 'p) cqueue \<Rightarrow> 'p pipeline \<Rightarrow> nat \<Rightarrow> nat list \<Rightarrow> string \<Rightarrow> string option" where
  "pipeline_merge G H self len [] result = Some result"
| "pipeline_merge G H self len (i # is) result =
     do { c \<leftarrow> g_queue_peek_nth H (scommands self) i;
          s \<leftarrow> scommand_to_string G c;
          temp \<leftarrow> strmerge result s;
          temp \<leftarrow> (if i \<noteq> len - 1 then strmerge temp '' | '' else Some temp);
          pipeline_merge G H self len is temp }"

definition pipeline_to_string :: "('q, string) gqueue \<Rightarrow> ('q, 'p) cqueue \<Rightarrow> 'p pipeline \<Rightarrow> string option" where
  "pipeline_to_string G H self =
     (let len = g_queue_get_length H (scommands self)
      in do { result \<leftarrow>
                (if len = 0 then Some ''''
                 else do { c \<leftarrow> g_queue_peek_head H (scommands self);
                           s \<leftarrow> scommand_to_string G c;
                           strmerge s '' | '' });
              result \<leftarrow> pipeline_merge G H self len [1..<len] result;
              result \<leftarrow> (if \<not> pipeline_get_wait self then strmerge result '' & '' else Some result);
              check (pipeline_is_empty H self \<or> pipeline_get_wait self \<or> 0 < length result);
              Some result })"

subsection \<open>Laws of the queue\<close>

lemma gqueue_okD:
  assumes "gqueue_ok G \<alpha>"
  shows "\<alpha> (g_queue_new G) = []" and "\<alpha> (g_queue_push_tail G q x) = \<alpha> q @ [x]"
    and "fst (g_queue_pop_head G q) = (case \<alpha> q of [] \<Rightarrow> None | x # xs \<Rightarrow> Some x)"
    and "\<alpha> (snd (g_queue_pop_head G q)) = tl (\<alpha> q)"
    and "g_queue_peek_head G q = (case \<alpha> q of [] \<Rightarrow> None | x # xs \<Rightarrow> Some x)"
    and "g_queue_peek_nth G q n = (if n < length (\<alpha> q) then Some (\<alpha> q ! n) else None)"
    and "g_queue_get_length G q = length (\<alpha> q)" and "g_queue_is_empty G q \<longleftrightarrow> \<alpha> q = []"
  using assms unfolding gqueue_ok_def by simp_all

lemma list_gqueue_ok: "gqueue_ok list_gqueue (\<lambda>q. q)"
  by (simp add: gqueue_ok_def list_gqueue_def)

lemma check_simps [simp]: "check True = Some ()" "check False = None"
  by (simp_all add: check_def)

lemma strmerge_eq [simp]: "strmerge s1 s2 = Some (s1 @ s2)"
  by (simp add: strmerge_def)

text \<open>The specification of the printed forms: arguments separated by blanks, then the
  redirections; commands separated by bars.\<close>

fun sep_concat :: "string \<Rightarrow> string list \<Rightarrow> string" where
  "sep_concat sep [] = []"
| "sep_concat sep [x] = x"
| "sep_concat sep (x # y # zs) = x @ sep @ sep_concat sep (y # zs)"

definition redir_string :: "string \<Rightarrow> string option \<Rightarrow> string" where
  "redir_string arrow f = (case f of None \<Rightarrow> '''' | Some name \<Rightarrow> arrow @ name)"

definition scommand_string :: "string list \<Rightarrow> string option \<Rightarrow> string option \<Rightarrow> string" where
  "scommand_string args o' i' = sep_concat '' '' args @ redir_string '' > '' o' @ redir_string '' < '' i'"

lemma sep_concat_snoc: "xs \<noteq> [] \<Longrightarrow> sep_concat sep (xs @ [x]) = sep_concat sep xs @ sep @ x"
proof (induction xs rule: induct_list012)
  case (3 x y zs)
  then show ?case by (cases zs) auto
qed auto

lemma merge_redir_eq: "merge_redir arrow f r = Some (r @ redir_string arrow f)"
  by (simp add: merge_redir_def redir_string_def split: option.split)

lemma scommand_merge_args_eq:
  assumes G: "gqueue_ok G \<alpha>" and "n \<le> length (\<alpha> (command self))" and "0 < n"
  shows "scommand_merge_args G self [n..<length (\<alpha> (command self))] (sep_concat '' '' (take n (\<alpha> (command self))))
         = Some (sep_concat '' '' (\<alpha> (command self)))"
  using assms(2,3)
proof (induction "length (\<alpha> (command self)) - n" arbitrary: n)
  case 0
  then show ?case by simp
next
  case (Suc m)
  let ?xs = "\<alpha> (command self)"
  from Suc.hyps(2) have lt: "n < length ?xs" by simp
  have "sep_concat '' '' (take (Suc n) ?xs) = sep_concat '' '' (take n ?xs) @ '' '' @ ?xs ! n"
    using lt Suc.prems(2) sep_concat_snoc [of "take n ?xs" "'' ''" "?xs ! n"]
    by (cases "?xs = []") (auto simp: take_Suc_conv_app_nth)
  with Suc.hyps(1) [of "Suc n"] Suc.hyps(2) lt show ?case
    by (simp add: upt_conv_Cons gqueue_okD [OF G])
qed

lemma scommand_to_string_eq:
  assumes G: "gqueue_ok G \<alpha>"
  shows "scommand_to_string G sc = Some (scommand_string (\<alpha> (command sc)) (out sc) (inp sc))"
proof (cases "\<alpha> (command sc)")
  case Nil
  then show ?thesis
    by (simp add: scommand_to_string_def scommand_length_def scommand_is_empty_def gqueue_okD [OF G]
        merge_redir_eq scommand_string_def)
next
  case (Cons x xs)
  have m: "scommand_merge_args G sc [1..<length (\<alpha> (command sc))] x
      = Some (sep_concat '' '' (\<alpha> (command sc)))"
    using scommand_merge_args_eq [OF G, of 1 sc] Cons by simp
  show ?thesis
    using m Cons
    by (auto simp: scommand_to_string_def scommand_length_def scommand_is_empty_def gqueue_okD [OF G]
        merge_redir_eq scommand_string_def scommand_front_def check_def scommand_get_redir_in_def
        scommand_get_redir_out_def redir_string_def split: option.splits)
qed

lemma sep_concat_last: "sep_concat sep (xs @ [x]) = concat (map (\<lambda>s. s @ sep) xs) @ x"
proof (induction xs)
  case (Cons y ys)
  then show ?case by (cases ys) auto
qed simp

lemma pipeline_merge_eq:
  assumes G: "gqueue_ok G \<alpha>" and H: "gqueue_ok H \<beta>"
    and ss: "ss = map (\<lambda>c. scommand_string (\<alpha> (command c)) (out c) (inp c)) (\<beta> (scommands self))"
    and "i < length ss"
  shows "pipeline_merge G H self (length ss) [i..<length ss] (concat (map (\<lambda>s. s @ '' | '') (take i ss)))
         = Some (sep_concat '' | '' ss)"
  using assms(4)
proof (induction "length ss - i" arbitrary: i)
  case 0
  then show ?case by simp
next
  case (Suc m)
  have nth: "g_queue_peek_nth H (scommands self) i = Some (\<beta> (scommands self) ! i)"
    and str: "scommand_to_string G (\<beta> (scommands self) ! i) = Some (ss ! i)"
    using Suc.prems by (simp_all add: gqueue_okD [OF H] ss scommand_to_string_eq [OF G])
  show ?case
  proof (cases "Suc i = length ss")
    case True
    then have "ss = take i ss @ [ss ! i]" by (metis lessI take_Suc_conv_app_nth take_all_iff order_refl)
    then have "sep_concat '' | '' ss = concat (map (\<lambda>s. s @ '' | '') (take i ss)) @ ss ! i"
      using sep_concat_last by metis
    with True Suc.prems show ?thesis by (simp add: upt_conv_Cons nth str)
  next
    case False
    then have lt: "Suc i < length ss" and "i \<noteq> length ss - 1" using Suc.prems by auto
    moreover have "concat (map (\<lambda>s. s @ '' | '') (take i ss)) @ ss ! i @ '' | ''
        = concat (map (\<lambda>s. s @ '' | '') (take (Suc i) ss))"
      using Suc.prems by (simp add: take_Suc_conv_app_nth)
    moreover have "[i..<length ss] = i # [Suc i..<length ss]"
      using Suc.prems by (simp add: upt_conv_Cons)
    ultimately have "pipeline_merge G H self (length ss) [i..<length ss]
        (concat (map (\<lambda>s. s @ '' | '') (take i ss))) =
      pipeline_merge G H self (length ss) [Suc i..<length ss]
        (concat (map (\<lambda>s. s @ '' | '') (take (Suc i) ss)))"
      by (simp add: nth str)
    moreover have "m = length ss - Suc i" using Suc.hyps(2) by simp
    ultimately show ?thesis using Suc.hyps(1) [of "Suc i"] lt by simp
  qed
qed

definition pipeline_string :: "string list \<Rightarrow> bool \<Rightarrow> string" where
  "pipeline_string ss w =
     (case ss of [s] \<Rightarrow> s @ '' | '' | _ \<Rightarrow> sep_concat '' | '' ss) @ (if w then '''' else '' & '')"

lemma pipeline_drain_done:
  assumes H: "gqueue_ok H \<beta>" and "length (\<beta> (scommands self)) \<le> fuel"
  shows "\<exists>t. pipeline_drain H fuel self = Some t \<and> \<beta> (scommands t) = [] \<and> wait t = wait self"
  using assms(2)
proof (induction fuel arbitrary: self)
  case 0
  then show ?case by (subst pipeline_drain.simps) (simp add: gqueue_okD [OF H])
next
  case (Suc f)
  show ?case
  proof (cases "\<beta> (scommands self)")
    case Nil
    then show ?thesis by (subst pipeline_drain.simps) (simp add: gqueue_okD [OF H])
  next
    case (Cons x xs)
    let ?s = "self\<lparr>scommands := snd (g_queue_pop_head H (scommands self))\<rparr>"
    have "length (\<beta> (scommands ?s)) \<le> f" using Suc.prems Cons by (simp add: gqueue_okD [OF H])
    from Suc.IH [OF this] Cons show ?thesis
      by (subst pipeline_drain.simps)
        (simp add: gqueue_okD [OF H] pipeline_pop_front_def pipeline_is_empty_def)
  qed
qed

subsection \<open>Properties of the data types\<close>

text \<open>C31. \<^verbatim>\<open>scommand_to_string\<close> and \<^verbatim>\<open>pipeline_to_string\<close> never fail an assertion. The pipeline
  prints its commands separated by bars, each as its words separated by blanks followed by the
  output and the input redirection, and an ampersand when it is not waited for; a pipeline of
  one command is printed with a trailing bar.\<close>

theorem pipeline_to_string_spec:
  assumes "gqueue_ok G \<alpha>" and "gqueue_ok H \<beta>"
  shows "pipeline_to_string G H p =
     Some (pipeline_string (map (\<lambda>c. scommand_string (\<alpha> (command c)) (out c) (inp c)) (\<beta> (scommands p)))
             (wait p))"
proof -
  define ss where "ss = map (\<lambda>c. scommand_string (\<alpha> (command c)) (out c) (inp c)) (\<beta> (scommands p))"
  note simps = pipeline_to_string_def gqueue_okD [OF assms(2)] pipeline_is_empty_def
    pipeline_get_wait_def scommand_to_string_eq [OF assms(1)] check_def pipeline_string_def
  consider (nil) "\<beta> (scommands p) = []" | (one) c where "\<beta> (scommands p) = [c]"
    | (more) c d cs where "\<beta> (scommands p) = c # d # cs"
    by (metis list.exhaust)
  then show ?thesis
  proof cases
    case (more c d cs)
    have "pipeline_merge G H p (length ss) [1..<length ss] (concat (map (\<lambda>s. s @ '' | '') (take 1 ss)))
        = Some (sep_concat '' | '' ss)"
      using more by (intro pipeline_merge_eq [OF assms ss_def]) (simp add: ss_def)
    with more show ?thesis by (simp add: simps ss_def)
  qed (simp_all add: simps)
qed

definition demo_ls :: "string list scommand" where
  "demo_ls = \<lparr>command = [''ls'', ''-l''], out = Some ''f'', inp = None\<rparr>"

definition demo_wc :: "string list scommand" where
  "demo_wc = \<lparr>command = [''wc''], out = None, inp = None\<rparr>"

theorem pipeline_to_string_spec_witness:
  "pipeline_to_string list_gqueue list_gqueue \<lparr>scommands = [demo_ls, demo_wc], wait = False\<rparr>
     = Some ''ls -l > f | wc & '' \<and>
   pipeline_to_string list_gqueue list_gqueue \<lparr>scommands = [demo_wc], wait = True\<rparr> = Some ''wc | ''"
  using pipeline_to_string_spec [OF list_gqueue_ok list_gqueue_ok]
  by (simp add: demo_ls_def demo_wc_def pipeline_string_def scommand_string_def redir_string_def)

end
