(* ===== verification/Shell_Parsing.thy ===== *)
theory Shell_Parsing
  imports Shell_Command
begin

section \<open>From tokens to pipelines (lab 1, parsing.c)\<close>

text \<open>
  \<^verbatim>\<open>parse_scommand\<close> and \<^verbatim>\<open>parse_pipeline\<close>. The lexer behind \<^verbatim>\<open>Parser\<close> is linked as an object
  file; its operations are the record \<open>parser_ops\<close>, an argument of the definitions, and
  \<open>parser_ok P toks\<close> states what \<^verbatim>\<open>parser.h\<close> documents of them over the view \<open>toks\<close> of the
  input still to be read. A redirection symbol without a file name is the token \<open>TIn None\<close> or
  \<open>TOut None\<close>. The loops take a fuel; the properties show that the length of the input is enough.

  Results: outer \<open>None\<close> is an assertion failure (or no fuel left), inner \<open>None\<close> is \<^verbatim>\<open>NULL\<close>.
\<close>

datatype arg_kind_t = ARG_NORMAL | ARG_INPUT | ARG_OUTPUT

record 'p parser_ops =
  parser_at_eof :: "'p \<Rightarrow> bool"
  parser_next_argument :: "'p \<Rightarrow> (string option \<times> arg_kind_t) \<times> 'p"
  parser_skip_blanks :: "'p \<Rightarrow> 'p"
  parser_op_pipe :: "'p \<Rightarrow> bool \<times> 'p"
  parser_op_background :: "'p \<Rightarrow> bool \<times> 'p"
  parser_garbage :: "'p \<Rightarrow> bool \<times> 'p"

fun parse_scommand_loop :: "'p parser_ops \<Rightarrow> ('q, string) gqueue \<Rightarrow> nat \<Rightarrow> 'q scommand \<Rightarrow> 'p \<Rightarrow>
    ('q scommand option \<times> 'p) option" where
  "parse_scommand_loop P G fuel scom p =
     (if parser_at_eof P p then Some (Some scom, p)
      else case fuel of 0 \<Rightarrow> None
      | Suc f \<Rightarrow>
         (case parser_next_argument P p of ((par, kind), p') \<Rightarrow>
            (case par of
               Some a \<Rightarrow>
                 do { scom \<leftarrow> (if kind = ARG_NORMAL then scommand_push_back G scom a else Some scom);
                      scom \<leftarrow> (if kind = ARG_INPUT then Some (scommand_set_redir_in scom (Some a)) else Some scom);
                      scom \<leftarrow> (if kind = ARG_OUTPUT then Some (scommand_set_redir_out scom (Some a)) else Some scom);
                      parse_scommand_loop P G f scom p' }
             | None \<Rightarrow>
                 if kind = ARG_INPUT \<or> kind = ARG_OUTPUT then Some (None, p')
                 else Some (Some scom, p'))))"

declare parse_scommand_loop.simps [simp del]

definition parse_scommand :: "'p parser_ops \<Rightarrow> ('q, string) gqueue \<Rightarrow> nat \<Rightarrow> 'p \<Rightarrow>
    ('q scommand option \<times> 'p) option" where
  "parse_scommand P G fuel p = do { scom \<leftarrow> scommand_new G; parse_scommand_loop P G fuel scom p }"

fun parse_pipeline_loop :: "'p parser_ops \<Rightarrow> ('q, string) gqueue \<Rightarrow> ('q, 'r) cqueue \<Rightarrow> nat \<Rightarrow> nat \<Rightarrow>
    'r pipeline \<Rightarrow> 'p \<Rightarrow> ('r pipeline option \<times> 'p) option" where
  "parse_pipeline_loop P G H fuel 0 result p = None"
| "parse_pipeline_loop P G H fuel (Suc rounds) result p =
     do { (cmd, p) \<leftarrow> parse_scommand P G fuel p;
          (case cmd of
             None \<Rightarrow> Some (None, p)
           | Some c \<Rightarrow>
               do { p \<leftarrow> Some (parser_skip_blanks P p);
                    result \<leftarrow> pipeline_push_back H result c;
                    (another_pipe, p) \<leftarrow> Some (parser_op_pipe P p);
                    if another_pipe then parse_pipeline_loop P G H fuel rounds result p
                    else Some (Some result, p) }) }"

definition parse_pipeline :: "'p parser_ops \<Rightarrow> ('q, string) gqueue \<Rightarrow> ('q, 'r) cqueue \<Rightarrow> nat \<Rightarrow> 'p \<Rightarrow>
    ('r pipeline option \<times> 'p) option" where
  "parse_pipeline P G H fuel p =
     do { check (\<not> parser_at_eof P p);
          result \<leftarrow> pipeline_new H;
          (r, p) \<leftarrow> parse_pipeline_loop P G H fuel fuel result p;
          (case r of
             None \<Rightarrow> Some (None, p)
           | Some result \<Rightarrow>
               do { (bg, p) \<leftarrow> Some (parser_op_background P p);
                    result \<leftarrow> Some (pipeline_set_wait result (\<not> bg));
                    (gar, p) \<leftarrow> Some (parser_garbage P p);
                    len \<leftarrow> pipeline_length H result;
                    empty \<leftarrow> (if len = 1
                              then do { c \<leftarrow> pipeline_front H result; n \<leftarrow> scommand_length G c; Some (n = 0) }
                              else Some False);
                    if empty then Some (None, p)
                    else if gar then Some (None, p)
                    else Some (Some result, p) }) }"

subsection \<open>What the lexer promises\<close>

datatype tok = TArg string | TIn "string option" | TOut "string option" | TPipe | TAmp | TNewline | TOther

fun next_tok :: "tok list \<Rightarrow> (string option \<times> arg_kind_t) \<times> tok list" where
  "next_tok (TArg s # r) = ((Some s, ARG_NORMAL), r)"
| "next_tok (TIn f # r) = ((f, ARG_INPUT), r)"
| "next_tok (TOut f # r) = ((f, ARG_OUTPUT), r)"
| "next_tok ts = ((None, ARG_NORMAL), ts)"

fun skip_tok :: "tok \<Rightarrow> tok list \<Rightarrow> bool \<times> tok list" where
  "skip_tok x [] = (False, [])"
| "skip_tok x (t # ts) = (if t = x then (True, ts) else (False, t # ts))"

definition rest_line :: "tok list \<Rightarrow> tok list" where
  "rest_line ts = tl (dropWhile (\<lambda>t. t \<noteq> TNewline) ts)"

definition parser_ok :: "'p parser_ops \<Rightarrow> ('p \<Rightarrow> tok list) \<Rightarrow> bool" where
  "parser_ok P toks \<longleftrightarrow>
     (\<forall>p. parser_at_eof P p \<longleftrightarrow> toks p = []) \<and>
     (\<forall>p. fst (parser_next_argument P p) = fst (next_tok (toks p)) \<and>
          toks (snd (parser_next_argument P p)) = snd (next_tok (toks p))) \<and>
     (\<forall>p. toks (parser_skip_blanks P p) = toks p) \<and>
     (\<forall>p. fst (parser_op_pipe P p) = fst (skip_tok TPipe (toks p)) \<and>
          toks (snd (parser_op_pipe P p)) = snd (skip_tok TPipe (toks p))) \<and>
     (\<forall>p. fst (parser_op_background P p) = fst (skip_tok TAmp (toks p)) \<and>
          toks (snd (parser_op_background P p)) = snd (skip_tok TAmp (toks p))) \<and>
     (\<forall>p. (fst (parser_garbage P p) \<longleftrightarrow> takeWhile (\<lambda>t. t \<noteq> TNewline) (toks p) \<noteq> []) \<and>
          toks (snd (parser_garbage P p)) = rest_line (toks p))"

definition list_parser :: "tok list parser_ops" where
  "list_parser = \<lparr>parser_at_eof = (\<lambda>p. p = []), parser_next_argument = next_tok,
     parser_skip_blanks = (\<lambda>p. p), parser_op_pipe = skip_tok TPipe,
     parser_op_background = skip_tok TAmp,
     parser_garbage = (\<lambda>p. (takeWhile (\<lambda>t. t \<noteq> TNewline) p \<noteq> [], rest_line p))\<rparr>"

lemma list_parser_ok: "parser_ok list_parser (\<lambda>p. p)"
  by (simp add: parser_ok_def list_parser_def)

lemma parser_okD:
  assumes "parser_ok P toks"
  shows "parser_at_eof P p \<longleftrightarrow> toks p = []"
    and "parser_next_argument P p = (x, p') \<Longrightarrow> next_tok (toks p) = (x, toks p')"
    and "toks (parser_skip_blanks P p) = toks p"
    and "parser_op_pipe P p = (b, p') \<Longrightarrow> skip_tok TPipe (toks p) = (b, toks p')"
    and "parser_op_background P p = (b, p') \<Longrightarrow> skip_tok TAmp (toks p) = (b, toks p')"
    and "parser_garbage P p = (b, p') \<Longrightarrow>
           b = (takeWhile (\<lambda>t. t \<noteq> TNewline) (toks p) \<noteq> []) \<and> toks p' = rest_line (toks p)"
  using assms unfolding parser_ok_def by (simp_all add: prod_eq_iff) auto

subsection \<open>Reference grammar over token lists\<close>

text \<open>The words of a simple command: arguments and complete redirections in any order. Its
  meaning: the arguments in order, and of each kind of redirection the last.\<close>

fun is_word :: "tok \<Rightarrow> bool" where
  "is_word (TArg s) = True"
| "is_word (TIn f) = (f \<noteq> None)"
| "is_word (TOut f) = (f \<noteq> None)"
| "is_word _ = False"

type_synonym cview = "string list \<times> string option \<times> string option"

fun add_word :: "tok \<Rightarrow> cview \<Rightarrow> cview" where
  "add_word (TArg s) (a, o', i) = (a @ [s], o', i)"
| "add_word (TIn f) (a, o', i) = (a, o', f)"
| "add_word (TOut f) (a, o', i) = (a, f, i)"
| "add_word _ v = v"

definition cmd_of :: "tok list \<Rightarrow> cview" where
  "cmd_of ws = fold add_word ws ([], None, None)"

definition sview :: "('q \<Rightarrow> string list) \<Rightarrow> 'q scommand \<Rightarrow> cview" where
  "sview \<alpha> c = (\<alpha> (command c), out c, inp c)"

fun stops :: "tok list \<Rightarrow> bool" where
  "stops [] = True"
| "stops (t # ts) = (t \<in> {TPipe, TAmp, TNewline, TOther})"

lemma next_tok_stops: "stops r \<Longrightarrow> next_tok r = ((None, ARG_NORMAL), r)"
  by (cases r rule: stops.cases) auto

lemma scommand_push_back_view:
  assumes "gqueue_ok G \<alpha>"
  shows "\<exists>c'. scommand_push_back G c a = Some c' \<and> sview \<alpha> c' = (\<alpha> (command c) @ [a], out c, inp c)"
  by (simp add: scommand_push_back_def scommand_is_empty_def gqueue_okD [OF assms] sview_def)

lemma parse_scommand_loop_words:
  assumes G: "gqueue_ok G \<alpha>" and P: "parser_ok P toks"
    and "toks p = ws @ r" and "list_all is_word ws" and "stops r" and "length ws < fuel"
  shows "\<exists>c' p'. parse_scommand_loop P G fuel c p = Some (Some c', p') \<and>
           sview \<alpha> c' = fold add_word ws (sview \<alpha> c) \<and> toks p' = r"
  using assms(3-6)
proof (induction fuel arbitrary: ws c p)
  case 0
  then show ?case by simp
next
  case (Suc fuel)
  obtain par kind p' where n: "parser_next_argument P p = ((par, kind), p')" by (metis prod.exhaust)
  note n' = parser_okD(2) [OF P n]
  show ?case
  proof (cases ws)
    case Nil
    with n' Suc.prems next_tok_stops [of r] have "par = None" "kind = ARG_NORMAL" "toks p' = r" by auto
    with Nil Suc.prems show ?thesis
      by (subst parse_scommand_loop.simps) (auto simp: n parser_okD(1) [OF P])
  next
    case (Cons t ts)
    with Suc.prems have ts: "list_all is_word ts" "length ts < fuel" and t: "is_word t" by auto
    have ne: "\<not> parser_at_eof P p" using Cons Suc.prems by (simp add: parser_okD(1) [OF P])
    have "\<exists>c1. parse_scommand_loop P G (Suc fuel) c p = parse_scommand_loop P G fuel c1 p' \<and>
               sview \<alpha> c1 = add_word t (sview \<alpha> c) \<and> toks p' = ts @ r"
    proof (cases t)
      case (TArg s)
      then show ?thesis
        using Cons n' Suc.prems(1) ne scommand_push_back_view [OF G, of c s]
        by (subst parse_scommand_loop.simps) (auto simp: n sview_def)
    next
      case (TIn f)
      then show ?thesis
        using Cons n' Suc.prems(1) ne t
        by (subst parse_scommand_loop.simps) (auto simp: n sview_def scommand_set_redir_in_def)
    next
      case (TOut f)
      then show ?thesis
        using Cons n' Suc.prems(1) ne t
        by (subst parse_scommand_loop.simps) (auto simp: n sview_def scommand_set_redir_out_def)
    qed (use t in auto)
    then obtain c1 where "parse_scommand_loop P G (Suc fuel) c p = parse_scommand_loop P G fuel c1 p'"
      and v: "sview \<alpha> c1 = add_word t (sview \<alpha> c)" and tp: "toks p' = ts @ r" by blast
    with Suc.IH [OF tp ts(1) Suc.prems(3) ts(2), of c1] Cons show ?thesis by simp
  qed
qed

lemma parse_scommand_words:
  assumes "gqueue_ok G \<alpha>" and "parser_ok P toks"
    and "toks p = ws @ r" and "list_all is_word ws" and "stops r" and "length ws < fuel"
  shows "\<exists>c' p'. parse_scommand P G fuel p = Some (Some c', p') \<and>
           sview \<alpha> c' = cmd_of ws \<and> toks p' = r"
proof -
  have new: "scommand_new G = Some \<lparr>command = g_queue_new G, out = None, inp = None\<rparr>"
    by (simp add: scommand_new_def scommand_is_empty_def gqueue_okD [OF assms(1)]
        scommand_get_redir_in_def scommand_get_redir_out_def)
  from parse_scommand_loop_words [OF assms, of "\<lparr>command = g_queue_new G, out = None, inp = None\<rparr>"]
  show ?thesis by (simp add: parse_scommand_def new cmd_of_def sview_def gqueue_okD [OF assms(1)])
qed

fun pipe_toks :: "tok list list \<Rightarrow> tok list" where
  "pipe_toks [] = []"
| "pipe_toks [w] = w"
| "pipe_toks (w # v # r) = w @ TPipe # pipe_toks (v # r)"

lemma pipe_toks_length:
  "ws \<in> set wss \<Longrightarrow> length ws \<le> length (pipe_toks wss)" "length wss \<le> Suc (length (pipe_toks wss))"
  by (induction wss rule: pipe_toks.induct) auto

lemma pipeline_push_back_eq:
  assumes "gqueue_ok H \<beta>"
  shows "\<exists>r. pipeline_push_back H self c = Some r \<and> \<beta> (scommands r) = \<beta> (scommands self) @ [c] \<and>
             wait r = wait self"
  by (simp add: pipeline_push_back_def pipeline_is_empty_def gqueue_okD [OF assms])

lemma parse_pipeline_loop_pipes:
  assumes G: "gqueue_ok G \<alpha>" and H: "gqueue_ok H \<beta>" and P: "parser_ok P toks"
    and "toks p = pipe_toks wss @ r" and "wss \<noteq> []" and "list_all (list_all is_word) wss"
    and r: "stops r" "\<not> fst (skip_tok TPipe r)"
    and "\<forall>ws \<in> set wss. length ws < fuel" and "length wss \<le> rounds"
  shows "\<exists>res p'. parse_pipeline_loop P G H fuel rounds result p = Some (Some res, p') \<and>
           map (sview \<alpha>) (\<beta> (scommands res)) = map (sview \<alpha>) (\<beta> (scommands result)) @ map cmd_of wss \<and>
           toks p' = r"
  using assms(4-6,9,10)
proof (induction wss arbitrary: rounds result p)
  case Nil
  then show ?case by simp
next
  case (Cons ws wss)
  then obtain m where m: "rounds = Suc m" by (cases rounds) auto
  define r' where "r' = (if wss = [] then r else TPipe # pipe_toks wss @ r)"
  have tp: "toks p = ws @ r'" using Cons.prems(1) by (cases wss) (auto simp: r'_def)
  have st: "stops r'" using r by (simp add: r'_def)
  have w: "list_all is_word ws" "length ws < fuel" using Cons.prems by auto
  from parse_scommand_words [OF G P tp w(1) st w(2)] obtain c p1 where
    c: "parse_scommand P G fuel p = Some (Some c, p1)" "sview \<alpha> c = cmd_of ws" "toks p1 = r'"
    by blast
  obtain res1 where res1: "pipeline_push_back H result c = Some res1"
    "\<beta> (scommands res1) = \<beta> (scommands result) @ [c]"
    using pipeline_push_back_eq [OF H] by blast
  obtain b p2 where b: "parser_op_pipe P (parser_skip_blanks P p1) = (b, p2)" by (metis prod.exhaust)
  from parser_okD(4) [OF P b] have sk: "skip_tok TPipe r' = (b, toks p2)"
    by (simp add: parser_okD(3) [OF P] c(3))
  show ?case
  proof (cases "wss = []")
    case True
    with sk r(2) have "\<not> b" "toks p2 = r"
      by (auto simp: r'_def) (cases r; auto split: if_splits)
    with True m c res1 b show ?thesis by simp
  next
    case False
    with sk have b': "b" and t2: "toks p2 = pipe_toks wss @ r" by (simp_all add: r'_def)
    from Cons.IH [OF t2 False, of m res1] Cons.prems m obtain res p' where
      "parse_pipeline_loop P G H fuel m res1 p2 = Some (Some res, p')"
      "map (sview \<alpha>) (\<beta> (scommands res)) = map (sview \<alpha>) (\<beta> (scommands res1)) @ map cmd_of wss"
      "toks p' = r" by auto
    with m c res1 b b' show ?thesis by simp
  qed
qed

lemma pipeline_new_eq:
  assumes "gqueue_ok H \<beta>"
  shows "pipeline_new H = Some \<lparr>scommands = g_queue_new H, wait = True\<rparr>"
  by (simp add: pipeline_new_def pipeline_is_empty_def pipeline_get_wait_def gqueue_okD [OF assms])

lemma length_one_hd: "map f xs = map g ys \<Longrightarrow> length ys = 1 \<Longrightarrow> \<exists>x. xs = [x] \<and> f x = g (hd ys)"
  by (cases xs; cases ys) auto

text \<open>The test that discards a pipeline of one command without words.\<close>

lemma empty_test_eq:
  assumes G: "gqueue_ok G \<alpha>" and H: "gqueue_ok H \<beta>"
    and v: "map (sview \<alpha>) (\<beta> (scommands res)) = map cmd_of wss"
    and ne: "length wss = 1 \<longrightarrow> fst (cmd_of (hd wss)) \<noteq> []"
  shows "pipeline_length H res = Some (length wss)"
    and "length wss = 1 \<Longrightarrow>
           \<exists>c n. pipeline_front H res = Some c \<and> scommand_length G c = Some (Suc n)"
proof -
  have len: "length (\<beta> (scommands res)) = length wss" using v by (metis length_map)
  then show "pipeline_length H res = Some (length wss)"
    by (auto simp: pipeline_length_def pipeline_is_empty_def gqueue_okD [OF H] check_def)
  assume one: "length wss = 1"
  with length_one_hd [OF v] obtain c where c: "\<beta> (scommands res) = [c]" "sview \<alpha> c = cmd_of (hd wss)"
    by blast
  with ne one have "\<alpha> (command c) \<noteq> []" by (metis sview_def fst_conv)
  with c show "\<exists>c n. pipeline_front H res = Some c \<and> scommand_length G c = Some (Suc n)"
    by (cases "\<alpha> (command c)")
      (simp_all add: pipeline_front_def pipeline_is_empty_def scommand_length_def
        scommand_is_empty_def gqueue_okD [OF G] gqueue_okD [OF H])
qed

lemma rest_line_newline: "rest_line (TNewline # r) = r"
  by (simp add: rest_line_def)

subsection \<open>Properties of the parser\<close>

text \<open>\<^verbatim>\<open>parse_pipeline\<close> inverts the writing of a line: for a line of simple commands separated
  by bars, with or without a final ampersand, it returns the pipeline with exactly these commands
  in this order (the words of each in order, the last redirection of each kind), waited for
  exactly when there is no ampersand, and leaves the input at the next line. No assertion fails and
  a fuel greater than the input length suffices.\<close>

lemma parse_pipeline_ok:
  assumes "gqueue_ok G \<alpha>" and "gqueue_ok H \<beta>" and "parser_ok P toks"
    and "toks p = pipe_toks wss @ (if bg then [TAmp] else []) @ TNewline # rest"
    and "wss \<noteq> []" and "list_all (list_all is_word) wss"
    and "length wss = 1 \<longrightarrow> fst (cmd_of (hd wss)) \<noteq> []"
    and "length (toks p) < fuel"
  shows "\<exists>res p'. parse_pipeline P G H fuel p = Some (Some res, p') \<and>
           map (sview \<alpha>) (\<beta> (scommands res)) = map cmd_of wss \<and> wait res = (\<not> bg) \<and> toks p' = rest"
proof -
  define r where "r = (if bg then [TAmp] else []) @ TNewline # rest"
  have tp: "toks p = pipe_toks wss @ r" using assms(4) by (simp add: r_def)
  have r: "stops r" "\<not> fst (skip_tok TPipe r)" by (simp_all add: r_def)
  have fuel: "\<forall>ws \<in> set wss. length ws < fuel" "length wss \<le> fuel"
    using pipe_toks_length(1) [of _ wss] pipe_toks_length(2) [of wss] assms(8) tp by fastforce+
  from parse_pipeline_loop_pipes [OF assms(1-3) tp assms(5,6) r fuel, of "\<lparr>scommands = g_queue_new H, wait = True\<rparr>"]
  obtain res p1 where res: "parse_pipeline_loop P G H fuel fuel \<lparr>scommands = g_queue_new H, wait = True\<rparr> p
      = Some (Some res, p1)" "map (sview \<alpha>) (\<beta> (scommands res)) = map cmd_of wss" "toks p1 = r"
    by (auto simp: gqueue_okD [OF assms(2)])
  obtain b p2 where b: "parser_op_background P p1 = (b, p2)" by (metis prod.exhaust)
  from parser_okD(5) [OF assms(3) b] res(3) have b': "b = bg" and t2: "toks p2 = TNewline # rest"
    by (auto simp: r_def split: if_splits)
  obtain g p3 where g: "parser_garbage P p2 = (g, p3)" by (metis prod.exhaust)
  from parser_okD(6) [OF assms(3) g] t2 have g': "\<not> g" and t3: "toks p3 = rest"
    by (simp_all add: rest_line_newline)
  define res' where "res' = pipeline_set_wait res (\<not> bg)"
  have v: "map (sview \<alpha>) (\<beta> (scommands res')) = map cmd_of wss"
    using res(2) by (simp add: res'_def pipeline_set_wait_def)
  note et = empty_test_eq [OF assms(1,2) v assms(7)]
  have ne: "\<not> parser_at_eof P p" using tp by (simp add: parser_okD(1) [OF assms(3)] r_def)
  have "parse_pipeline P G H fuel p = Some (Some res', p3)"
    using et(2)
    by (cases "length wss = 1")
      (auto simp: parse_pipeline_def ne pipeline_new_eq [OF assms(2)] res(1) b b' g g'
        res'_def [symmetric] et(1))
  with v t3 show ?thesis by (simp add: res'_def pipeline_set_wait_def)
qed

lemma parse_scommand_loop_bad:
  assumes G: "gqueue_ok G \<alpha>" and P: "parser_ok P toks"
    and "toks p = ws @ t # r" and "list_all is_word ws" and t: "t = TIn None \<or> t = TOut None"
    and "length ws < fuel"
  shows "\<exists>p'. parse_scommand_loop P G fuel c p = Some (None, p') \<and> toks p' = r"
  using assms(3,4,6)
proof (induction fuel arbitrary: ws c p)
  case 0
  then show ?case by simp
next
  case (Suc fuel)
  obtain par kind p' where n: "parser_next_argument P p = ((par, kind), p')" by (metis prod.exhaust)
  note n' = parser_okD(2) [OF P n]
  have ne: "\<not> parser_at_eof P p" using Suc.prems by (simp add: parser_okD(1) [OF P])
  show ?case
  proof (cases ws)
    case Nil
    then show ?thesis using n' t Suc.prems ne by (subst parse_scommand_loop.simps) (auto simp: n)
  next
    case (Cons u us)
    with Suc.prems have us: "list_all is_word us" "length us < fuel" and u: "is_word u" by auto
    have tp: "toks p' = us @ t # r" using Cons n' u Suc.prems(1) by (cases u) auto
    have "\<exists>c1. parse_scommand_loop P G (Suc fuel) c p = parse_scommand_loop P G fuel c1 p'"
    proof (cases u)
      case (TArg s)
      then show ?thesis
        using Cons n' Suc.prems(1) ne scommand_push_back_view [OF G, of c s]
        by (subst parse_scommand_loop.simps) (auto simp: n)
    qed (use Cons n' Suc.prems(1) ne u in \<open>auto simp: n parse_scommand_loop.simps [of _ _ "Suc fuel"]\<close>)
    with Suc.IH [OF tp us] show ?thesis by metis
  qed
qed



end
