(* ===== verification/Shell_Execute.thy ===== *)
theory Shell_Execute
  imports Shell_Parsing
begin

section \<open>Built-in commands and execution of pipelines (lab 1, builtin.c, execute.c)\<close>

text \<open>
  The shell process and the processes it starts, seen through the POSIX calls the code makes.
  A descriptor table maps a number to the open object behind it; \<^verbatim>\<open>pipe\<close> and \<^verbatim>\<open>open\<close> take the
  lowest free numbers below a limit; \<^verbatim>\<open>fork\<close> gives the child a copy of the table. \<open>forks\<close> lists
  the values that the successive calls of \<^verbatim>\<open>fork\<close> return in the shell (a positive pid, or \<open>-1\<close>).
  A child is described by how it ends up: it runs a program with an argument vector and a
  descriptor table, or it exits. The record \<open>senv\<close> is the environment: the descriptor limit,
  which files can be opened, which programs can be run, and the result of \<^verbatim>\<open>chdir\<close>.
\<close>

datatype fdobj = Other nat | PipeR nat | PipeW nat | FileR string | FileW string

type_synonym fdtable = "int \<Rightarrow> fdobj option"

datatype proc_end = Exec "string list" fdtable | Exit int

datatype msg = NoRoute | NoDir | Help | NeedCommand | ForkError

record senv =
  nofile :: nat
  can_read :: "string \<Rightarrow> bool"
  can_write :: "string \<Rightarrow> bool"
  runnable :: "string \<Rightarrow> bool"
  chdir :: "string \<Rightarrow> int"

record shell =
  fds :: fdtable
  npipe :: nat
  forks :: "int list"
  children :: "(int \<times> proc_end) list"
  waited :: "int list"
  sigchld_ign :: bool
  msgs :: "msg list"
  cds :: "string list"

datatype flow = Return | Quit int

subsection \<open>System calls\<close>

definition free_fd :: "senv \<Rightarrow> fdtable \<Rightarrow> int option" where
  "free_fd e t = map_option int (scan_first (\<lambda>n. t (int n) = None) [0..<nofile e])"

definition close_fd :: "int \<Rightarrow> fdtable \<Rightarrow> fdtable" where
  "close_fd n t = t(n := None)"

definition dup2 :: "int \<Rightarrow> int \<Rightarrow> fdtable \<Rightarrow> fdtable" where
  "dup2 a b t = (case t a of None \<Rightarrow> t | Some x \<Rightarrow> t(b := Some x))"

definition pipe_call :: "senv \<Rightarrow> shell \<Rightarrow> (int \<times> int) option \<times> shell" where
  "pipe_call e s =
     (case free_fd e (fds s) of
        None \<Rightarrow> (None, s)
      | Some r \<Rightarrow>
          (case free_fd e ((fds s)(r := Some (PipeR (npipe s)))) of
             None \<Rightarrow> (None, s)
           | Some w \<Rightarrow>
               (Some (r, w), s\<lparr>fds := (fds s)(r := Some (PipeR (npipe s)), w := Some (PipeW (npipe s))),
                               npipe := npipe s + 1\<rparr>)))"

definition open_call :: "senv \<Rightarrow> bool \<Rightarrow> fdobj \<Rightarrow> fdtable \<Rightarrow> int \<times> fdtable" where
  "open_call e ok x t =
     (if \<not> ok then (-1, t)
      else case free_fd e t of None \<Rightarrow> (-1, t) | Some n \<Rightarrow> (n, t(n := Some x)))"

definition fork_call :: "shell \<Rightarrow> int \<times> shell" where
  "fork_call s = (case forks s of [] \<Rightarrow> (-1, s) | r # rs \<Rightarrow> (r, s\<lparr>forks := rs\<rparr>))"

definition spawn :: "int \<Rightarrow> proc_end \<Rightarrow> shell \<Rightarrow> shell" where
  "spawn pid c s = s\<lparr>children := children s @ [(pid, c)]\<rparr>"

subsection \<open>Built-in commands\<close>

definition intern_command :: "string list" where
  "intern_command = [''cd'', ''help'', ''exit'']"

definition builtin_is_internal :: "('q, string) gqueue \<Rightarrow> 'q scommand \<Rightarrow> bool option" where
  "builtin_is_internal G cmd =
     do { c \<leftarrow> scommand_front G cmd;
          Some (scan_first (\<lambda>i. c = intern_command ! i) [0..<3] \<noteq> None) }"

definition builtin_alone :: "('q, string) gqueue \<Rightarrow> ('q, 'r) cqueue \<Rightarrow> 'r pipeline \<Rightarrow> bool option" where
  "builtin_alone G H p =
     do { len \<leftarrow> pipeline_length H p;
          if len = 1 then do { c \<leftarrow> pipeline_front H p; builtin_is_internal G c } else Some False }"

definition say :: "msg \<Rightarrow> shell \<Rightarrow> shell" where
  "say m s = s\<lparr>msgs := msgs s @ [m]\<rparr>"

definition builtin_run :: "senv \<Rightarrow> ('q, string) gqueue \<Rightarrow> 'q scommand \<Rightarrow> shell \<Rightarrow> (flow \<times> shell) option" where
  "builtin_run e G cmd s =
     do { b \<leftarrow> builtin_is_internal G cmd;
          check b;
          c \<leftarrow> scommand_front G cmd;
          ind \<leftarrow> Some (case scan_first (\<lambda>i. c = intern_command ! i) [0..<3] of None \<Rightarrow> 0 | Some i \<Rightarrow> i);
          if ind = 0 then
            do { len \<leftarrow> scommand_length G cmd;
                 if len = 1 then Some (Return, say NoRoute s)
                 else do { cmd' \<leftarrow> scommand_pop_front G cmd;
                           route \<leftarrow> scommand_front G cmd';
                           let r = chdir e route in
                           if r \<noteq> 0 then Some (Return, say NoDir s)
                           else Some (Return, s\<lparr>cds := cds s @ [route]\<rparr>) } }
          else if ind = 1 then Some (Return, say Help s)
          else Some (Quit 0, s) }"

subsection \<open>Running one command\<close>

text \<open>The loop that moves the words of the command into \<^verbatim>\<open>argv\<close>.\<close>

fun collect_argv :: "('q, string) gqueue \<Rightarrow> nat \<Rightarrow> 'q scommand \<Rightarrow> (string list \<times> 'q scommand) option" where
  "collect_argv G 0 sc = Some ([], sc)"
| "collect_argv G (Suc n) sc =
     do { a \<leftarrow> scommand_front G sc;
          sc \<leftarrow> scommand_pop_front G sc;
          (as, sc) \<leftarrow> collect_argv G n sc;
          Some (a # as, sc) }"

definition redirect :: "senv \<Rightarrow> bool \<Rightarrow> fdobj \<Rightarrow> int \<Rightarrow> fdtable \<Rightarrow> fdtable" where
  "redirect e ok x n t =
     (case open_call e ok x t of
        (fd, t) \<Rightarrow> close_fd fd (dup2 fd n (close_fd n t)))"

text \<open>\<^verbatim>\<open>execute_scommand\<close> in the child with table \<open>t\<close>, together with the error exit that follows
  the call when \<^verbatim>\<open>execvp\<close> fails (in particular for an empty vector).\<close>

definition execute_scommand :: "senv \<Rightarrow> ('q, string) gqueue \<Rightarrow> 'q scommand \<Rightarrow> fdtable \<Rightarrow> proc_end option" where
  "execute_scommand e G sc t =
     do { n \<leftarrow> scommand_length G sc;
          (argv, sc) \<leftarrow> collect_argv G n sc;
          t \<leftarrow> Some (case scommand_get_redir_in sc of
                       None \<Rightarrow> t | Some f \<Rightarrow> redirect e (can_read e f) (FileR f) 0 t);
          t \<leftarrow> Some (case scommand_get_redir_out sc of
                       None \<Rightarrow> t | Some f \<Rightarrow> redirect e (can_write e f) (FileW f) 1 t);
          Some (if argv \<noteq> [] \<and> runnable e (hd argv) then Exec argv t else Exit 1) }"

subsection \<open>Running a pipeline\<close>

text \<open>What child number \<open>i\<close> of \<open>n\<close> does: \<open>prev\<close> and \<open>next\<close> are \<^verbatim>\<open>pipefd[i-1]\<close> and \<^verbatim>\<open>pipefd[i]\<close>,
  each present when the code uses it.\<close>

definition run_child :: "senv \<Rightarrow> ('q, string) gqueue \<Rightarrow> ('q, 'r) cqueue \<Rightarrow> 'r pipeline \<Rightarrow>
    (int \<times> int) option \<Rightarrow> (int \<times> int) option \<Rightarrow> fdtable \<Rightarrow> proc_end option" where
  "run_child e G H apipe prev next t =
     do { sc \<leftarrow> pipeline_front H apipe;
          str \<leftarrow> scommand_to_string G sc;
          if str = '''' then Some (Exit 1)
          else do {
            t \<leftarrow> Some (case next of None \<Rightarrow> t
                        | Some (r, w) \<Rightarrow> close_fd w (dup2 w 1 (close_fd r t)));
            t \<leftarrow> Some (case prev of None \<Rightarrow> t
                        | Some (r, w) \<Rightarrow> close_fd r (dup2 r 0 (close_fd w t)));
            execute_scommand e G sc t } }"

text \<open>The loop over the commands. \<open>m\<close> commands are left; \<open>prev\<close> is the pipe to the previous
  one. It gives the pids, or \<open>None\<close> when \<^verbatim>\<open>fork\<close> failed and the function returns.\<close>

fun pipe_loop :: "senv \<Rightarrow> ('q, string) gqueue \<Rightarrow> ('q, 'r) cqueue \<Rightarrow> nat \<Rightarrow> (int \<times> int) option \<Rightarrow>
    'r pipeline \<Rightarrow> int list \<Rightarrow> shell \<Rightarrow> (flow \<times> int list option \<times> 'r pipeline \<times> shell) option" where
  "pipe_loop e G H 0 prev apipe ids s = Some (Return, Some ids, apipe, s)"
| "pipe_loop e G H (Suc m) prev apipe ids s =
     do { (next, s) \<leftarrow> Some (if m \<noteq> 0 then pipe_call e s else (None, s));
          if m \<noteq> 0 \<and> next = None then Some (Quit 1, None, apipe, s)
          else do {
            (pid, s) \<leftarrow> Some (fork_call s);
            if pid < 0 then Some (Return, None, apipe, say ForkError s)
            else do {
              c \<leftarrow> run_child e G H apipe prev next (fds s);
              s \<leftarrow> Some (spawn pid c s);
              s \<leftarrow> Some (case prev of None \<Rightarrow> s
                          | Some (r, w) \<Rightarrow> s\<lparr>fds := close_fd w (close_fd r (fds s))\<rparr>);
              apipe \<leftarrow> pipeline_pop_front H apipe;
              pipe_loop e G H m next apipe (ids @ [pid]) s } } }"

definition execute_pipeline :: "senv \<Rightarrow> ('q, string) gqueue \<Rightarrow> ('q, 'r) cqueue \<Rightarrow> 'r pipeline \<Rightarrow> shell \<Rightarrow>
    (flow \<times> shell) option" where
  "execute_pipeline e G H apipe s =
     (if pipeline_is_empty H apipe then Some (Return, s)
      else do {
        alone \<leftarrow> builtin_alone G H apipe;
        if alone then do { c \<leftarrow> pipeline_front H apipe; builtin_run e G c s }
        else do {
          len \<leftarrow> pipeline_length H apipe;
          if len = 1 then do {
            (pid, s) \<leftarrow> Some (fork_call s);
            sc \<leftarrow> pipeline_front H apipe;
            c \<leftarrow> execute_scommand e G sc (fds s);
            s \<leftarrow> Some (if 0 < pid then spawn pid c s else s);
            if pipeline_get_wait apipe then Some (Return, s\<lparr>waited := waited s @ [pid]\<rparr>)
            else Some (Return, s\<lparr>sigchld_ign := True\<rparr>) }
          else do {
            (fl, ids, apipe, s) \<leftarrow> pipe_loop e G H len None apipe [] s;
            (case ids of
               None \<Rightarrow> Some (fl, s)
             | Some ids \<Rightarrow>
                 if pipeline_get_wait apipe then Some (Return, s\<lparr>waited := waited s @ ids\<rparr>)
                 else Some (Return, s\<lparr>sigchld_ign := True\<rparr>)) } } })"

subsection \<open>One command: arguments and redirections\<close>

lemma collect_argv_eq:
  assumes G: "gqueue_ok G \<alpha>"
  shows "\<exists>sc'. collect_argv G (length (\<alpha> (command sc))) sc = Some (\<alpha> (command sc), sc') \<and>
               out sc' = out sc \<and> inp sc' = inp sc"
proof (induction "\<alpha> (command sc)" arbitrary: sc)
  case Nil
  then show ?case using Nil [symmetric] by simp
next
  case (Cons a as)
  let ?sc = "sc\<lparr>command := snd (g_queue_pop_head G (command sc))\<rparr>"
  note eq = Cons.hyps(2) [symmetric]
  have as: "as = \<alpha> (command ?sc)" using eq by (simp add: gqueue_okD [OF G])
  obtain sc' where "collect_argv G (length as) ?sc = Some (as, sc')" "out sc' = out sc" "inp sc' = inp sc"
    using Cons.hyps(1) [OF as] as by auto
  moreover have "scommand_front G sc = Some a" "scommand_pop_front G sc = Some ?sc"
    using eq by (simp_all add: scommand_front_def scommand_pop_front_def scommand_is_empty_def gqueue_okD [OF G])
  ultimately show ?case by (simp add: eq)
qed

definition redir_spec :: "bool \<Rightarrow> fdobj \<Rightarrow> int \<Rightarrow> fdtable \<Rightarrow> fdtable" where
  "redir_spec ok x n t = t(n := (if ok then Some x else None))"

definition child_spec :: "senv \<Rightarrow> string list \<Rightarrow> string option \<Rightarrow> string option \<Rightarrow> fdtable \<Rightarrow> proc_end" where
  "child_spec e argv o' i' t =
     (if argv \<noteq> [] \<and> runnable e (hd argv)
      then Exec argv
        (let t = (case i' of None \<Rightarrow> t | Some f \<Rightarrow> redir_spec (can_read e f) (FileR f) 0 t)
         in case o' of None \<Rightarrow> t | Some f \<Rightarrow> redir_spec (can_write e f) (FileW f) 1 t)
      else Exit 1)"

text \<open>Enough free descriptors: from some number on all are free, and at least five of them lie
  below the limit.\<close>

definition roomy :: "senv \<Rightarrow> fdtable \<Rightarrow> bool" where
  "roomy e F \<longleftrightarrow> (\<exists>k. k + 5 \<le> nofile e \<and> (\<forall>n \<ge> int k. F n = None))"

definition std_open :: "fdtable \<Rightarrow> bool" where
  "std_open F \<longleftrightarrow> F 0 \<noteq> None \<and> F 1 \<noteq> None \<and> F (-1) = None"

lemma free_fd_SomeD: "free_fd e t = Some n \<Longrightarrow> t n = None \<and> 0 \<le> n"
  by (auto simp: free_fd_def dest: scan_first_SomeD)

lemma free_fd_exists:
  assumes "roomy e F" and "finite A" and "card A \<le> 4" and "\<And>n. t n \<noteq> None \<Longrightarrow> F n = None \<Longrightarrow> n \<in> A"
  shows "\<exists>n. free_fd e t = Some n"
proof -
  from assms(1) obtain k where k: "k + 5 \<le> nofile e" "\<forall>n \<ge> int k. F n = None" by (auto simp: roomy_def)
  have "\<not> {int k..int k + 4} \<subseteq> A"
  proof
    assume "{int k..int k + 4} \<subseteq> A"
    from card_mono [OF assms(2) this] assms(3) show False by simp
  qed
  then obtain x where "x \<in> {int k..int k + 4}" and xA: "x \<notin> A" by blast
  then have x: "int k \<le> x" "x \<le> int k + 4" by simp_all
  have "F x = None" using k(2) x by simp
  then have "t x = None" using assms(4) xA by blast
  then have "t (int (nat x)) = None" using x by simp
  moreover have "nat x \<in> set [0..<nofile e]" using x k(1) by auto
  ultimately obtain j where "scan_first (\<lambda>n. t (int n) = None) [0..<nofile e] = Some j"
    using scan_first_exists [of "nat x" "[0..<nofile e]" "\<lambda>n. t (int n) = None"] by auto
  then show ?thesis by (simp add: free_fd_def)
qed

lemma redirect_eq:
  assumes "t n \<noteq> None" and "free_fd e t = Some m" and "t (-1) = None" and "n \<noteq> -1"
  shows "redirect e ok x n t = redir_spec ok x n t"
proof -
  have "m \<noteq> n" "t m = None" using free_fd_SomeD [OF assms(2)] assms(1) by auto
  with assms show ?thesis
    by (auto simp: redirect_def redir_spec_def open_call_def close_fd_def dup2_def fun_eq_iff)
qed

lemma execute_scommand_eq:
  assumes G: "gqueue_ok G \<alpha>" and F: "roomy e F" "std_open F"
    and t: "std_open t" "\<And>n. n \<noteq> 0 \<Longrightarrow> n \<noteq> 1 \<Longrightarrow> t n = F n"
  shows "execute_scommand e G sc t = Some (child_spec e (\<alpha> (command sc)) (out sc) (inp sc) t)"
proof -
  obtain sc' where c: "collect_argv G (length (\<alpha> (command sc))) sc = Some (\<alpha> (command sc), sc')"
    "out sc' = out sc" "inp sc' = inp sc" using collect_argv_eq [OF G] by blast
  have len: "scommand_length G sc = Some (length (\<alpha> (command sc)))"
    by (simp add: scommand_length_def scommand_is_empty_def gqueue_okD [OF G])
  have room: "\<exists>m. free_fd e u = Some m" if "\<And>n. n \<noteq> 0 \<Longrightarrow> n \<noteq> 1 \<Longrightarrow> u n = F n" for u
  proof (rule free_fd_exists [OF F(1), of "{0, 1}"])
    show "n \<in> {0, 1}" if "u n \<noteq> None" and "F n = None" for n
      using that \<open>\<And>n. n \<noteq> 0 \<Longrightarrow> n \<noteq> 1 \<Longrightarrow> u n = F n\<close> [of n] by (cases "n = 0"; cases "n = 1") auto
  qed simp_all
  obtain m where m: "free_fd e t = Some m" using room [OF t(2)] by blast
  have r1: "redirect e ok x 0 t = redir_spec ok x 0 t" for ok x
    using redirect_eq [OF _ m] t(1) by (simp add: std_open_def)
  have r2: "redirect e ok x 1 u = redir_spec ok x 1 u"
    if "u = t \<or> (\<exists>b y. u = redir_spec b y 0 t)" for ok x u
  proof -
    from that t(2) obtain m' where "free_fd e u = Some m'"
      using room [of u] by (auto simp: redir_spec_def)
    then show ?thesis using redirect_eq [of u 1] t(1) that by (auto simp: std_open_def redir_spec_def)
  qed
  have r3: "redirect e ok x 1 t = redir_spec ok x 1 t"
    "redirect e ok x 1 (redir_spec b y 0 t) = redir_spec ok x 1 (redir_spec b y 0 t)" for ok x b y
    using r2 by blast+
  show ?thesis
    by (auto simp: execute_scommand_def len c scommand_get_redir_in_def scommand_get_redir_out_def
        child_spec_def r1 r3 Let_def split: option.splits)
qed

subsection \<open>The plumbing of a pipeline\<close>

fun add_pipe :: "(int \<times> int) option \<Rightarrow> nat \<Rightarrow> fdtable \<Rightarrow> fdtable" where
  "add_pipe None k F = F"
| "add_pipe (Some (r, w)) k F = F(r := Some (PipeR k), w := Some (PipeW k))"

fun pipe_fresh :: "(int \<times> int) option \<Rightarrow> fdtable \<Rightarrow> bool" where
  "pipe_fresh None F = True"
| "pipe_fresh (Some (r, w)) F \<longleftrightarrow> r \<noteq> w \<and> F r = None \<and> F w = None \<and> 0 \<le> r \<and> 0 \<le> w"

definition stdin_from :: "(int \<times> int) option \<Rightarrow> nat \<Rightarrow> fdtable \<Rightarrow> fdtable" where
  "stdin_from prev k F = (if prev = None then F else F(0 := Some (PipeR k)))"

definition stdout_to :: "(int \<times> int) option \<Rightarrow> nat \<Rightarrow> fdtable \<Rightarrow> fdtable" where
  "stdout_to next k F = (if next = None then F else F(1 := Some (PipeW k)))"

fun plumbed :: "fdtable \<Rightarrow> bool \<Rightarrow> nat \<Rightarrow> nat \<Rightarrow> fdtable list" where
  "plumbed F inn k 0 = []"
| "plumbed F inn k (Suc m) =
     (let t = (if inn then F(0 := Some (PipeR (k - 1))) else F)
      in (if m = 0 then t else t(1 := Some (PipeW k))) # plumbed F True (Suc k) m)"

lemma pipe_call_ok:
  assumes "roomy e F" and "std_open F" and "fds s = add_pipe prev k F" and "pipe_fresh prev F"
  obtains r w where "pipe_call e s = (Some (r, w), s\<lparr>fds := add_pipe (Some (r, w)) (npipe s) (fds s), npipe := npipe s + 1\<rparr>)"
    and "pipe_fresh (Some (r, w)) (fds s)"
proof -
  define A where "A = (case prev of None \<Rightarrow> {} | Some (r, w) \<Rightarrow> {r, w})"
  have A: "finite A" "card A \<le> 2" by (auto simp: A_def card_insert_if split: option.splits)
  have sub: "fds s n \<noteq> None \<Longrightarrow> F n = None \<Longrightarrow> n \<in> A" for n
    using assms(3) by (cases prev) (auto simp: A_def split: if_splits)
  have "\<exists>r. free_fd e (fds s) = Some r"
    by (rule free_fd_exists [OF assms(1), of A "fds s"]) (use A sub in auto)
  then obtain r where r: "free_fd e (fds s) = Some r" by blast
  have "card (insert r A) \<le> 4" using A by (simp add: card_insert_if)
  then have "\<exists>w. free_fd e ((fds s)(r := Some (PipeR (npipe s)))) = Some w"
    by (intro free_fd_exists [OF assms(1), of "insert r A"])
      (use A sub in \<open>auto split: if_splits\<close>)
  then obtain w where w: "free_fd e ((fds s)(r := Some (PipeR (npipe s)))) = Some w" by blast
  from r w have "pipe_call e s = (Some (r, w), s\<lparr>fds := add_pipe (Some (r, w)) (npipe s) (fds s), npipe := npipe s + 1\<rparr>)"
    by (simp add: pipe_call_def)
  moreover have "pipe_fresh (Some (r, w)) (fds s)"
    using free_fd_SomeD [OF r] free_fd_SomeD [OF w] by (auto split: if_splits)
  ultimately show thesis using that by blast
qed

lemma child_next_eq:
  assumes "pipe_fresh (Some (r, w)) T" and "T 1 \<noteq> None"
  shows "close_fd w (dup2 w 1 (close_fd r (add_pipe (Some (r, w)) k T))) = T(1 := Some (PipeW k))"
  using assms by (auto simp: close_fd_def dup2_def fun_eq_iff)

lemma child_prev_eq:
  assumes "pipe_fresh (Some (r, w)) T" and "T 0 \<noteq> None"
  shows "close_fd r (dup2 r 0 (close_fd w (add_pipe (Some (r, w)) k T))) = T(0 := Some (PipeR k))"
  using assms by (auto simp: close_fd_def dup2_def fun_eq_iff)

lemma add_pipe_std:
  assumes "pipe_fresh prev F" and "F n \<noteq> None"
  shows "add_pipe prev k F n = F n" and "(add_pipe prev k F)(n := x) = add_pipe prev k (F(n := x))"
  using assms by (cases "(prev, k, F)" rule: add_pipe.cases; auto simp: fun_eq_iff)+

lemma run_child_eq:
  assumes G: "gqueue_ok G \<alpha>" and H: "gqueue_ok H \<beta>" and F: "roomy e F" "std_open F"
    and front: "\<beta> (scommands apipe) = c # cs"
    and str: "scommand_string (\<alpha> (command c)) (out c) (inp c) \<noteq> ''''"
    and fr: "pipe_fresh prev F" "pipe_fresh nxt (add_pipe prev k F)"
  shows "run_child e G H apipe prev nxt (add_pipe nxt k' (add_pipe prev k F)) =
     Some (child_spec e (\<alpha> (command c)) (out c) (inp c) (stdin_from prev k (stdout_to nxt k' F)))"
proof -
  define T where "T = stdout_to nxt k' F"
  have std: "F 0 \<noteq> None" "F 1 \<noteq> None" using F(2) by (simp_all add: std_open_def)
  have n1: "(case nxt of None \<Rightarrow> add_pipe nxt k' (add_pipe prev k F)
      | Some (r, w) \<Rightarrow> close_fd w (dup2 w 1 (close_fd r (add_pipe nxt k' (add_pipe prev k F)))))
      = add_pipe prev k T"
    using fr std add_pipe_std [OF fr(1) std(2), of k] child_next_eq [of _ _ "add_pipe prev k F" k']
    by (auto simp: T_def stdout_to_def split: option.split)
  have T: "pipe_fresh prev T" "T 0 \<noteq> None"
    using fr(1) std by (cases prev; auto simp: T_def stdout_to_def)+
  have n2: "(case prev of None \<Rightarrow> add_pipe prev k T
      | Some (r, w) \<Rightarrow> close_fd r (dup2 r 0 (close_fd w (add_pipe prev k T)))) = stdin_from prev k T"
    using T child_prev_eq [of _ _ T k] by (auto simp: stdin_from_def split: option.split)
  have t: "std_open (stdin_from prev k T)" "\<And>n. n \<noteq> 0 \<Longrightarrow> n \<noteq> 1 \<Longrightarrow> stdin_from prev k T n = F n"
    using F(2) by (auto simp: T_def stdout_to_def stdin_from_def std_open_def)
  show ?thesis
    using execute_scommand_eq [OF G F t, of c] front str
    by (simp add: run_child_def pipeline_front_def pipeline_is_empty_def gqueue_okD [OF H]
        scommand_to_string_eq [OF G] n1 n2 T_def [symmetric])
qed

text \<open>The pipe to the next command, taken unless there is none.\<close>

lemma next_pipe:
  assumes F: "roomy e F" "std_open F" and fs: "fds s = add_pipe prev k F" "pipe_fresh prev F"
  obtains nxt t where "(if length cs \<noteq> 0 then pipe_call e s else (None, s)) = (nxt, t)"
    and "fds t = add_pipe nxt (npipe s) (fds s)" and "pipe_fresh nxt (fds s)"
    and "(nxt = None) = (cs = [])" and "npipe t = (if cs = [] then npipe s else Suc (npipe s))"
    and "forks t = forks s" and "children t = children s" and "waited t = waited s"
    and "msgs t = msgs s" and "cds t = cds s" and "sigchld_ign t = sigchld_ign s"
proof (cases "cs = []")
  case True
  then show ?thesis using that [of None s] by simp
next
  case False
  obtain r w where p: "pipe_call e s = (Some (r, w), s\<lparr>fds := add_pipe (Some (r, w)) (npipe s) (fds s), npipe := npipe s + 1\<rparr>)"
    and f: "pipe_fresh (Some (r, w)) (fds s)"
    using pipe_call_ok [OF F fs] by blast
  show ?thesis
    by (rule that [of "Some (r, w)" "s\<lparr>fds := add_pipe (Some (r, w)) (npipe s) (fds s), npipe := npipe s + 1\<rparr>"])
      (use p f False in simp_all)
qed

lemma pipe_loop_ok:
  assumes G: "gqueue_ok G \<alpha>" and H: "gqueue_ok H \<beta>" and F: "roomy e F" "std_open F"
    and "\<beta> (scommands apipe) = cs"
    and "\<forall>c \<in> set cs. scommand_string (\<alpha> (command c)) (out c) (inp c) \<noteq> ''''"
    and "fds s = add_pipe prev (npipe s - 1) F" and "pipe_fresh prev F" and "prev \<noteq> None \<longrightarrow> cs \<noteq> []"
    and "forks s = pids @ rest" and "length pids = length cs" and "\<forall>pid \<in> set pids. 0 < pid"
  shows "\<exists>apipe' s'. pipe_loop e G H (length cs) prev apipe ids s = Some (Return, Some (ids @ pids), apipe', s') \<and>
     wait apipe' = wait apipe \<and> fds s' = F \<and> waited s' = waited s \<and> forks s' = rest \<and>
     npipe s' = npipe s + (length cs - 1) \<and> msgs s' = msgs s \<and> cds s' = cds s \<and> sigchld_ign s' = sigchld_ign s \<and>
     children s' = children s @ zip pids (map2 (\<lambda>c t. child_spec e (\<alpha> (command c)) (out c) (inp c) t) cs
       (plumbed F (prev \<noteq> None) (npipe s) (length cs)))"
  using assms(5-12)
proof (induction cs arbitrary: apipe s prev pids ids)
  case Nil
  then show ?case by (cases prev) auto
next
  case (Cons c cs)
  then obtain pid pids' where pids: "pids = pid # pids'" "0 < pid" by (cases pids) auto
  define k where "k = npipe s - 1"
  have fs: "fds s = add_pipe prev k F" using Cons.prems(3) by (simp add: k_def)
  obtain nxt s1 where n: "(if length cs \<noteq> 0 then pipe_call e s else (None, s)) = (nxt, s1)"
    and s1: "fds s1 = add_pipe nxt (npipe s) (fds s)" "pipe_fresh nxt (fds s)"
      "(nxt = None) = (cs = [])" "npipe s1 = (if cs = [] then npipe s else Suc (npipe s))"
      "forks s1 = forks s" "children s1 = children s" "waited s1 = waited s"
      "msgs s1 = msgs s" "cds s1 = cds s" "sigchld_ign s1 = sigchld_ign s"
    by (rule next_pipe [OF F fs Cons.prems(4), of cs])
  define s2 where "s2 = s1\<lparr>forks := pids' @ rest\<rparr>"
  have fork: "fork_call s1 = (pid, s2)" using Cons.prems(6) by (simp add: fork_call_def s1 pids s2_def)
  have fr2: "pipe_fresh nxt (add_pipe prev k F)" using s1(2) fs by simp
  define out_c where "out_c = child_spec e (\<alpha> (command c)) (out c) (inp c) (stdin_from prev k (stdout_to nxt (npipe s) F))"
  have child: "run_child e G H apipe prev nxt (fds s2) = Some out_c"
    using run_child_eq [OF G H F Cons.prems(1) _ Cons.prems(4) fr2, of "npipe s"] Cons.prems(2) s1(1) fs
    by (simp add: out_c_def s2_def)
  define s3 where "s3 = (case prev of None \<Rightarrow> spawn pid out_c s2
      | Some (r, w) \<Rightarrow> (spawn pid out_c s2)\<lparr>fds := close_fd w (close_fd r (fds s2))\<rparr>)"
  have s3: "children s3 = children s @ [(pid, out_c)]" "waited s3 = waited s" "forks s3 = pids' @ rest"
      "npipe s3 = npipe s1" "msgs s3 = msgs s" "cds s3 = cds s" "sigchld_ign s3 = sigchld_ign s"
    by (simp_all add: s3_def spawn_def s2_def s1 split: option.split)
  have fr: "pipe_fresh nxt F" and f3: "fds s3 = add_pipe nxt (npipe s3 - 1) F"
    using s1 fs fr2 Cons.prems(4)
    by (cases prev; cases nxt; auto simp: s3_def spawn_def s2_def close_fd_def fun_eq_iff split: if_splits)+
  define ap where "ap = apipe\<lparr>scommands := snd (g_queue_pop_head H (scommands apipe))\<rparr>"
  have ap: "pipeline_pop_front H apipe = Some ap" "\<beta> (scommands ap) = cs" "wait ap = wait apipe"
    using Cons.prems(1) by (simp_all add: ap_def pipeline_pop_front_def pipeline_is_empty_def gqueue_okD [OF H])
  have unfold: "pipe_loop e G H (length (c # cs)) prev apipe ids s = pipe_loop e G H (length cs) nxt ap (ids @ [pid]) s3"
  proof -
    have "\<not> (length cs \<noteq> 0 \<and> nxt = None)" using s1(3) by simp
    moreover have "(case prev of None \<Rightarrow> spawn pid out_c s2
        | Some (r, w) \<Rightarrow> (spawn pid out_c s2)\<lparr>fds := close_fd w (close_fd r (fds (spawn pid out_c s2)))\<rparr>) = s3"
      by (simp add: s3_def spawn_def split: option.split)
    ultimately show ?thesis
      using n pids(2) by (auto simp: fork child ap(1) simp del: length_0_conv length_greater_0_conv)
  qed
  have pl: "plumbed F (prev \<noteq> None) (npipe s) (length (c # cs)) =
      stdin_from prev k (stdout_to nxt (npipe s) F) # plumbed F (nxt \<noteq> None) (npipe s3) (length cs)"
    using s1(3,4) by (auto simp: stdin_from_def stdout_to_def k_def s3(4) fun_upd_twist)
  obtain apipe' s' where "pipe_loop e G H (length cs) nxt ap (ids @ [pid]) s3 = Some (Return, Some ((ids @ [pid]) @ pids'), apipe', s')"
    "wait apipe' = wait ap" "fds s' = F" "waited s' = waited s3" "forks s' = rest" "npipe s' = npipe s3 + (length cs - 1)"
    "msgs s' = msgs s3" "cds s' = cds s3" "sigchld_ign s' = sigchld_ign s3"
    "children s' = children s3 @ zip pids' (map2 (\<lambda>c t. child_spec e (\<alpha> (command c)) (out c) (inp c) t) cs
       (plumbed F (nxt \<noteq> None) (npipe s3) (length cs)))"
    using Cons.IH [OF ap(2) _ f3 fr _ s3(3), of "ids @ [pid]"] Cons.prems pids s1(3) by auto
  moreover have "npipe s3 + (length cs - 1) = npipe s + (length (c # cs) - 1)" using s1(4) by (cases cs) (simp_all add: s3(4))
  ultimately show ?case using unfold unfolding pl by (simp add: ap s3 pids out_c_def)
qed

lemma plumbed_nth:
  "i < n \<Longrightarrow> plumbed F inn k n ! i =
     F(0 := (if i = 0 \<and> \<not> inn then F 0 else Some (PipeR (k + i - 1))),
       1 := (if i = n - 1 then F 1 else Some (PipeW (k + i))))"
proof (induction n arbitrary: inn k i)
  case (Suc n)
  show ?case
  proof (cases i)
    case 0
    then show ?thesis by (auto simp: Let_def fun_eq_iff)
  next
    case (Suc j)
    with Suc.prems Suc.IH [of j True "Suc k"] show ?thesis by (auto simp: Let_def)
  qed
qed simp

lemma plumbed_length [simp]: "length (plumbed F inn k n) = n"
  by (induction n arbitrary: inn k) (simp_all add: Let_def)

subsection \<open>Properties of the execution\<close>

text \<open>C29. Running a pipeline of \<open>n \<ge> 2\<close> commands when no system call fails: child \<open>i\<close> executes
  command \<open>i\<close> with its words as argument vector; its standard input is the read end of pipe
  \<open>i - 1\<close> (the shell's input for the first), its standard output the write end of pipe \<open>i\<close> (the
  shell's output for the last), each replaced by a file redirection of the command; it inherits no
  other pipe end. The shell is left with the descriptors it had, and has waited for exactly the
  children in order unless the pipeline runs in the background.\<close>

theorem execute_pipeline_plumbing:
  assumes "gqueue_ok G \<alpha>" and "gqueue_ok H \<beta>" and "roomy e (fds s)" and "std_open (fds s)"
    and "\<beta> (scommands p) = cs" and "2 \<le> length cs"
    and "\<forall>c \<in> set cs. scommand_string (\<alpha> (command c)) (out c) (inp c) \<noteq> ''''"
    and "forks s = pids @ rest" and "length pids = length cs" and "\<forall>pid \<in> set pids. 0 < pid"
    and "children s = []"
  shows "\<exists>s'. execute_pipeline e G H p s = Some (Return, s') \<and> fds s' = fds s \<and>
     waited s' = waited s @ (if wait p then pids else []) \<and> length (children s') = length cs \<and>
     (\<forall>i < length cs. children s' ! i =
        (pids ! i, child_spec e (\<alpha> (command (cs ! i))) (out (cs ! i)) (inp (cs ! i))
           ((fds s)(0 := (if i = 0 then fds s 0 else Some (PipeR (npipe s + i - 1))),
                    1 := (if i = length cs - 1 then fds s 1 else Some (PipeW (npipe s + i)))))))"
proof -
  let ?cs = "zip pids (map2 (\<lambda>c t. child_spec e (\<alpha> (command c)) (out c) (inp c) t) cs
       (plumbed (fds s) False (npipe s) (length cs)))"
  have "pipe_fresh None (fds s)" "fds s = add_pipe None (npipe s - 1) (fds s)" by simp_all
  from pipe_loop_ok [OF assms(1-5,7) this(2,1) _ assms(8-10), of "[]"] assms(11)
  obtain p' s' where l: "pipe_loop e G H (length cs) None p [] s = Some (Return, Some pids, p', s')"
    "wait p' = wait p" "fds s' = fds s" "waited s' = waited s" "children s' = ?cs" by auto
  have alone: "builtin_alone G H p = Some False" "pipeline_length H p = Some (length cs)"
    "\<not> pipeline_is_empty H p" "length cs \<noteq> 1"
    using assms(5,6)
    by (auto simp: builtin_alone_def pipeline_length_def pipeline_is_empty_def gqueue_okD [OF assms(2)] check_def)
  define s'' where "s'' = (if wait p then s'\<lparr>waited := waited s' @ pids\<rparr> else s'\<lparr>sigchld_ign := True\<rparr>)"
  have "execute_pipeline e G H p s = Some (Return, s'')"
    using alone l by (simp add: execute_pipeline_def pipeline_get_wait_def s''_def)
  moreover have "fds s'' = fds s" "waited s'' = waited s @ (if wait p then pids else [])" "children s'' = ?cs"
    using l by (simp_all add: s''_def)
  ultimately show ?thesis using assms(9) by (simp add: plumbed_nth)
qed

definition demo_senv :: senv where
  "demo_senv = \<lparr>nofile = 16, can_read = (\<lambda>_. True), can_write = (\<lambda>_. True), runnable = (\<lambda>_. True),
     chdir = (\<lambda>_. 0)\<rparr>"

definition demo_shell :: shell where
  "demo_shell = \<lparr>fds = (\<lambda>n. if 0 \<le> n \<and> n < 3 then Some (Other 0) else None), npipe = 0, forks = [7, 8],
     children = [], waited = [], sigchld_ign = False, msgs = [], cds = []\<rparr>"

theorem execute_pipeline_plumbing_witness:
  "\<exists>s'. execute_pipeline demo_senv list_gqueue list_gqueue \<lparr>scommands = [demo_wc, demo_ls], wait = True\<rparr> demo_shell
      = Some (Return, s') \<and> fds s' = fds demo_shell \<and> waited s' = [7, 8] \<and>
     children s' ! 0 = (7, Exec [''wc''] ((fds demo_shell)(1 := Some (PipeW 0))))"
proof -
  have r: "roomy demo_senv (fds demo_shell)" "std_open (fds demo_shell)"
    by (auto simp: roomy_def std_open_def demo_senv_def demo_shell_def intro!: exI [of _ 3])
  have "(fds demo_shell)(0 := Some (Other 0), 1 := Some (PipeW 0)) = (fds demo_shell)(1 := Some (PipeW 0))"
    by (auto simp: demo_shell_def fun_eq_iff)
  then show ?thesis
    using execute_pipeline_plumbing [OF list_gqueue_ok list_gqueue_ok r, of
        "\<lparr>scommands = [demo_wc, demo_ls], wait = True\<rparr>" "[demo_wc, demo_ls]" "[7, 8]" "[]"]
    by (auto simp: demo_ls_def demo_wc_def scommand_string_def redir_string_def demo_shell_def
        child_spec_def demo_senv_def)
qed

end
