(* ===== verification/Mybash.thy ===== *)
theory Mybash
  imports Shell_Execute
begin

section \<open>The shell as a whole (lab 1, mybash.c)\<close>

text \<open>
  The loop of \<^verbatim>\<open>main\<close>: parse a pipeline, execute it, and stop at the end of the input. The prompt, which is terminal
  output, and the call of \<^verbatim>\<open>ping_pong_loop\<close>, which talks to a web server, are left out: they do not touch the state of the shell. \<open>fuel\<close> bounds the loops of the parser and \<open>rounds\<close> the rounds of
  \<^verbatim>\<open>main\<close>; the theorem shows that the length of the input is enough for both. The result is the exit status and the state of the shell;
  \<open>None\<close> is a failed assertion.
\<close>

fun mybash_loop :: "senv \<Rightarrow> 'p parser_ops \<Rightarrow> ('q, string) gqueue \<Rightarrow> ('q, 'r) cqueue \<Rightarrow> nat \<Rightarrow> nat \<Rightarrow> 'p \<Rightarrow> shell \<Rightarrow>
    (int \<times> shell) option" where
  "mybash_loop e P G H fuel 0 p s = None"
| "mybash_loop e P G H fuel (Suc rounds) p s =
     do { (pipe, p) \<leftarrow> parse_pipeline P G H fuel p;
          (fl, s) \<leftarrow> (case pipe of None \<Rightarrow> Some (Return, s) | Some apipe \<Rightarrow> execute_pipeline e G H apipe s);
          (case fl of
             Quit c \<Rightarrow> Some (c, s)
           | Return \<Rightarrow> if parser_at_eof P p then Some (0, s) else mybash_loop e P G H fuel rounds p s) }"

definition mybash :: "senv \<Rightarrow> 'p parser_ops \<Rightarrow> ('q, string) gqueue \<Rightarrow> ('q, 'r) cqueue \<Rightarrow> nat \<Rightarrow> 'p \<Rightarrow> shell \<Rightarrow>
    (int \<times> shell) option" where
  "mybash e P G H fuel p s = mybash_loop e P G H fuel fuel p s"

subsection \<open>What a script does\<close>

text \<open>A line is the words of its commands and whether it ends in an ampersand. \<open>run_line\<close> is the effect of a line:
  a built-in command alone acts on the shell; otherwise one child is started per command, connected by new pipes,
  and waited for unless the line ends in an ampersand.\<close>

type_synonym line = "tok list list \<times> bool"

definition line_toks :: "line \<Rightarrow> tok list" where
  "line_toks l = pipe_toks (fst l) @ (if snd l then [TAmp] else []) @ [TNewline]"

definition line_ok :: "line \<Rightarrow> bool" where
  "line_ok l \<longleftrightarrow> fst l \<noteq> [] \<and> list_all (list_all is_word) (fst l) \<and>
     (\<forall>ws \<in> set (fst l). fst (cmd_of ws) \<noteq> [] \<and> hd (fst (cmd_of ws)) \<noteq> '''')"

definition builtin_spec :: "senv \<Rightarrow> string list \<Rightarrow> shell \<Rightarrow> flow \<times> shell" where
  "builtin_spec e argv s =
     (if hd argv = ''cd''
      then (Return, if length argv = 1 then say NoRoute s
                    else if chdir e (argv ! 1) \<noteq> 0 then say NoDir s else s\<lparr>cds := cds s @ [argv ! 1]\<rparr>)
      else if hd argv = ''help'' then (Return, say Help s)
      else (Quit 0, s))"

definition start_line :: "senv \<Rightarrow> cview list \<Rightarrow> bool \<Rightarrow> shell \<Rightarrow> shell" where
  "start_line e cs bg s =
     (let n = length cs; pids = take n (forks s)
      in s\<lparr>forks := drop n (forks s), npipe := npipe s + (n - 1),
           children := children s @ zip pids (map2 (\<lambda>c t. child_spec e (fst c) (fst (snd c)) (snd (snd c)) t) cs (plumbed (fds s) False (npipe s) n)),
           waited := waited s @ (if bg then [] else pids), sigchld_ign := sigchld_ign s \<or> bg\<rparr>)"

definition run_line :: "senv \<Rightarrow> line \<Rightarrow> shell \<Rightarrow> flow \<times> shell" where
  "run_line e l s =
     (let cs = map cmd_of (fst l)
      in if length cs = 1 \<and> hd (fst (hd cs)) \<in> set intern_command then builtin_spec e (fst (hd cs)) s
         else (Return, start_line e cs (snd l) s))"

fun run_script :: "senv \<Rightarrow> line list \<Rightarrow> shell \<Rightarrow> int \<times> shell" where
  "run_script e [] s = (0, s)"
| "run_script e (l # ls) s = (case run_line e l s of (Quit c, s) \<Rightarrow> (c, s) | (Return, s) \<Rightarrow> run_script e ls s)"

subsection \<open>Executing one line\<close>

lemma intern_scan: "(scan_first (\<lambda>i. c = intern_command ! i) [0..<3] \<noteq> None) = (c \<in> set intern_command)"
  by (auto simp: intern_command_def upt_rec)

lemma builtin_is_internal_eq:
  assumes "gqueue_ok G \<alpha>" and "\<alpha> (command c) \<noteq> []"
  shows "builtin_is_internal G c = Some (hd (\<alpha> (command c)) \<in> set intern_command)"
  using assms(2) intern_scan
  by (cases "\<alpha> (command c)") (simp_all add: builtin_is_internal_def scommand_front_def scommand_is_empty_def gqueue_okD [OF assms(1)] check_def)

lemma builtin_run_eq:
  assumes "gqueue_ok G \<alpha>" and "\<alpha> (command c) = w # args" and "w \<in> set intern_command"
  shows "builtin_run e G c s = Some (builtin_spec e (w # args) s)"
proof -
  have b: "builtin_is_internal G c = Some True" using builtin_is_internal_eq [OF assms(1), of c] assms(2,3) by simp
  have w: "w = ''cd'' \<or> w = ''help'' \<or> w = ''exit''" using assms(3) by (simp add: intern_command_def)
  have f: "scommand_front G c = Some w" "scommand_length G c = Some (length (w # args))"
    using assms(2) by (simp_all add: scommand_front_def scommand_length_def scommand_is_empty_def gqueue_okD [OF assms(1)])
  show ?thesis
    using w f b assms(2)
    by (cases args) (auto simp: builtin_run_def builtin_spec_def intern_command_def upt_rec check_def scommand_pop_front_def
        scommand_front_def scommand_is_empty_def gqueue_okD [OF assms(1)] Let_def)
qed

lemma words_string: "fst v \<noteq> [] \<Longrightarrow> hd (fst v) \<noteq> '''' \<Longrightarrow> scommand_string (fst v) o' i' \<noteq> ''''"
  by (cases "fst v" rule: remdups_adj.cases) (auto simp: scommand_string_def)

lemma start_children:
  assumes "map (sview \<alpha>) cs = vs"
  shows "map2 (\<lambda>c t. child_spec e (\<alpha> (command c)) (out c) (inp c) t) cs ts = map2 (\<lambda>v t. child_spec e (fst v) (fst (snd v)) (snd (snd v)) t) vs ts"
  unfolding assms [symmetric] by (simp add: zip_map1 sview_def case_prod_beta)

text \<open>A command alone.\<close>

lemma execute_one:
  assumes G: "gqueue_ok G \<alpha>" and H: "gqueue_ok H \<beta>" and F: "roomy e (fds s)" "std_open (fds s)"
    and c: "\<beta> (scommands p) = [c]" and w: "\<alpha> (command c) \<noteq> []" and n: "hd (\<alpha> (command c)) \<notin> set intern_command"
    and f: "forks s = pid # rest" "0 < pid"
  shows "execute_pipeline e G H p s = Some (Return, start_line e [sview \<alpha> c] (\<not> wait p) s)"
proof -
  let ?s = "s\<lparr>forks := rest\<rparr>"
  have p: "\<not> pipeline_is_empty H p" "pipeline_length H p = Some 1" "pipeline_front H p = Some c" "builtin_alone G H p = Some False"
    using c n builtin_is_internal_eq [OF G w]
    by (simp_all add: builtin_alone_def pipeline_length_def pipeline_front_def pipeline_is_empty_def gqueue_okD [OF H] check_def)
  have "execute_scommand e G c (fds ?s) = Some (child_spec e (\<alpha> (command c)) (out c) (inp c) (fds s))"
    using execute_scommand_eq [OF G F F(2)] by simp
  then show ?thesis
    using p f by (auto simp: execute_pipeline_def fork_call_def spawn_def start_line_def sview_def pipeline_get_wait_def Let_def)
qed

text \<open>Two commands or more.\<close>

lemma execute_many:
  assumes G: "gqueue_ok G \<alpha>" and H: "gqueue_ok H \<beta>" and F: "roomy e (fds s)" "std_open (fds s)"
    and v: "map (sview \<alpha>) (\<beta> (scommands p)) = vs" and two: "2 \<le> length vs"
    and w: "\<forall>x \<in> set vs. fst x \<noteq> [] \<and> hd (fst x) \<noteq> ''''"
    and f: "length vs \<le> length (forks s)" "\<forall>pid \<in> set (forks s). 0 < pid"
  shows "execute_pipeline e G H p s = Some (Return, start_line e vs (\<not> wait p) s)"
proof -
  let ?cs = "\<beta> (scommands p)" and ?pids = "take (length vs) (forks s)" and ?rest = "drop (length vs) (forks s)"
  have len: "length ?cs = length vs" using v by auto
  have str: "\<forall>c \<in> set ?cs. scommand_string (\<alpha> (command c)) (out c) (inp c) \<noteq> ''''"
  proof
    fix c assume "c \<in> set ?cs"
    then have "sview \<alpha> c \<in> set vs" using v by auto
    then show "scommand_string (\<alpha> (command c)) (out c) (inp c) \<noteq> ''''"
      using words_string [of "sview \<alpha> c"] w by (auto simp: sview_def)
  qed
  have pids: "forks s = ?pids @ ?rest" "length ?pids = length ?cs" "\<forall>pid \<in> set ?pids. 0 < pid"
    using f len by (auto dest: in_set_takeD)
  have "pipe_fresh None (fds s)" "fds s = add_pipe None (npipe s - 1) (fds s)" by simp_all
  from pipe_loop_ok [OF G H F refl str this(2,1) _ pids, of "[]"]
  obtain p' s' where l: "pipe_loop e G H (length ?cs) None p [] s = Some (Return, Some ?pids, p', s')" "wait p' = wait p"
    and s': "fds s' = fds s" "waited s' = waited s" "forks s' = ?rest" "npipe s' = npipe s + (length ?cs - 1)" "msgs s' = msgs s"
      "cds s' = cds s" "sigchld_ign s' = sigchld_ign s"
      "children s' = children s @ zip ?pids (map2 (\<lambda>c t. child_spec e (\<alpha> (command c)) (out c) (inp c) t) ?cs (plumbed (fds s) False (npipe s) (length ?cs)))"
    by auto
  have alone: "builtin_alone G H p = Some False" "pipeline_length H p = Some (length vs)" "\<not> pipeline_is_empty H p" "length vs \<noteq> 1"
    using two len by (auto simp: builtin_alone_def pipeline_length_def pipeline_is_empty_def gqueue_okD [OF H] check_def)
  have "execute_pipeline e G H p s =
      Some (Return, if wait p then s'\<lparr>waited := waited s' @ ?pids\<rparr> else s'\<lparr>sigchld_ign := True\<rparr>)"
    using alone l by (simp add: execute_pipeline_def pipeline_get_wait_def len)
  also have "(if wait p then s'\<lparr>waited := waited s' @ ?pids\<rparr> else s'\<lparr>sigchld_ign := True\<rparr>) = start_line e vs (\<not> wait p) s"
    using s' unfolding start_children [OF v] by (auto simp: start_line_def Let_def len)
  finally show ?thesis .
qed

lemma execute_line_eq:
  assumes G: "gqueue_ok G \<alpha>" and H: "gqueue_ok H \<beta>" and F: "roomy e (fds s)" "std_open (fds s)"
    and v: "map (sview \<alpha>) (\<beta> (scommands p)) = map cmd_of (fst l)" and l: "line_ok l" "wait p = (\<not> snd l)"
    and f: "length (fst l) \<le> length (forks s)" "\<forall>pid \<in> set (forks s). 0 < pid"
  shows "execute_pipeline e G H p s = Some (run_line e l s)"
proof (cases "length (fst l) = 1")
  case True
  then obtain ws where ws: "fst l = [ws]" by (auto simp: length_Suc_conv)
  then obtain c where c: "\<beta> (scommands p) = [c]" "sview \<alpha> c = cmd_of ws" using v by auto
  have w: "\<alpha> (command c) = fst (cmd_of ws)" using c(2) by (metis sview_def fst_conv)
  then have wn: "\<alpha> (command c) \<noteq> []" using l(1) ws by (simp add: line_ok_def)
  show ?thesis
  proof (cases "hd (\<alpha> (command c)) \<in> set intern_command")
    case True
    have "pipeline_length H p = Some 1" "pipeline_front H p = Some c" "\<not> pipeline_is_empty H p"
      using c(1) by (simp_all add: pipeline_length_def pipeline_front_def pipeline_is_empty_def gqueue_okD [OF H] check_def)
    moreover have "builtin_run e G c s = Some (builtin_spec e (\<alpha> (command c)) s)"
      using builtin_run_eq [OF G, of c] wn True by (cases "\<alpha> (command c)") auto
    ultimately show ?thesis
      using True builtin_is_internal_eq [OF G wn] ws w by (simp add: execute_pipeline_def builtin_alone_def run_line_def Let_def)
  next
    case False
    obtain pid rest where fs: "forks s = pid # rest" "0 < pid" using f ws by (cases "forks s") auto
    show ?thesis using execute_one [OF G H F c(1) wn False fs] False ws w l(2) c(2) by (simp add: run_line_def Let_def)
  qed
next
  case False
  then have "2 \<le> length (map cmd_of (fst l))" using l(1) by (cases "fst l" rule: remdups_adj.cases) (auto simp: line_ok_def)
  then show ?thesis
    using execute_many [OF G H F v] False l f by (auto simp: run_line_def Let_def line_ok_def)
qed

subsection \<open>Running a script\<close>

lemma run_line_keeps:
  "fds (snd (run_line e l s)) = fds s \<and> (\<exists>k \<le> length (fst l). forks (snd (run_line e l s)) = drop k (forks s))"
  by (auto simp: run_line_def builtin_spec_def start_line_def say_def Let_def intro: exI [of _ 0] exI [of _ "length (fst l)"])

lemma line_toks_pos: "0 < length (line_toks l)"
  by (simp add: line_toks_def)

lemma mybash_loop_script:
  assumes G: "gqueue_ok G \<alpha>" and H: "gqueue_ok H \<beta>" and P: "parser_ok P toks"
    and "toks p = concat (map line_toks ls)" and "ls \<noteq> []" and "list_all line_ok ls"
    and "roomy e (fds s)" and "std_open (fds s)"
    and "(\<Sum>l \<leftarrow> ls. length (fst l)) \<le> length (forks s)" and "\<forall>pid \<in> set (forks s). 0 < pid"
    and "length (toks p) < fuel" and "length ls \<le> rounds"
  shows "mybash_loop e P G H fuel rounds p s = Some (run_script e ls s)"
  using assms(4-12)
proof (induction ls arbitrary: p s rounds)
  case (Cons l ls)
  then obtain k where k: "rounds = Suc k" by (cases rounds) auto
  have l: "line_ok l" "length (fst l) \<le> length (forks s)" using Cons.prems by auto
  have tp: "toks p = pipe_toks (fst l) @ (if snd l then [TAmp] else []) @ TNewline # concat (map line_toks ls)"
    using Cons.prems(1) by (simp add: line_toks_def [of l])
  have lo: "fst l \<noteq> []" "list_all (list_all is_word) (fst l)" "length (fst l) = 1 \<longrightarrow> fst (cmd_of (hd (fst l))) \<noteq> []"
    using l(1) by (auto simp: line_ok_def)
  obtain res p1 where r: "parse_pipeline P G H fuel p = Some (Some res, p1)"
      "map (sview \<alpha>) (\<beta> (scommands res)) = map cmd_of (fst l)" "wait res = (\<not> snd l)" "toks p1 = concat (map line_toks ls)"
    using parse_pipeline_ok [OF G H P tp lo] Cons.prems(8) by blast
  have ex: "execute_pipeline e G H res s = Some (run_line e l s)"
    by (rule execute_line_eq [OF G H Cons.prems(4,5) r(2) l(1) r(3) l(2) Cons.prems(7)])
  obtain fl s1 where rl: "run_line e l s = (fl, s1)" by (cases "run_line e l s")
  have eof: "parser_at_eof P p1 \<longleftrightarrow> ls = []"
    using line_toks_pos by (cases ls) (auto simp: parser_okD(1) [OF P] r(4))
  show ?case
  proof (cases "fl = Return \<and> ls \<noteq> []")
    case True
    obtain j where j: "fds s1 = fds s" "j \<le> length (fst l)" "forks s1 = drop j (forks s)" using run_line_keeps [of e l s] rl by auto
    have "mybash_loop e P G H fuel k p1 s1 = Some (run_script e ls s1)"
    proof (rule Cons.IH [OF r(4)])
      show "(\<Sum>l \<leftarrow> ls. length (fst l)) \<le> length (forks s1)" using Cons.prems(6) j by simp
      show "\<forall>pid \<in> set (forks s1). 0 < pid" using Cons.prems(7) j(3) by (auto dest: in_set_dropD)
      show "length (toks p1) < fuel" using Cons.prems(1,8) by (simp add: r(4))
    qed (use True Cons.prems k j(1) in auto)
    then show ?thesis using True by (simp add: k r(1) ex rl eof)
  next
    case False
    then show ?thesis by (cases fl) (auto simp: k r(1) ex rl eof)
  qed
qed simp


definition demo_script :: "line list" where
  "demo_script =
     [([[TArg ''ls'', TOut (Some ''f'')]], True), ([[TArg ''cat'', TIn (Some ''f'')], [TArg ''wc'', TArg ''-l'']], False),
      ([[TArg ''cd'', TArg ''/'']], False), ([[TArg ''exit'']], False), ([[TArg ''date'']], False)]"

definition demo_state :: shell where
  "demo_state = demo_shell\<lparr>forks := [7, 8, 9, 10, 11, 12]\<rparr>"


end
